(* ===== verification/Prelude.thy ===== *)
theory Prelude
  imports Main "HOL-Library.Monad_Syntax" "HOL-Library.Multiset" "HOL-Library.Word"
begin

text \<open>
  Shared vocabulary of the development: checked array accesses, counted loops with their
  total-correctness rule, half-open ranges of a vector, and prefix sums.  A C or C++ access
  outside an object is undefined behaviour; the models return \<open>None\<close> for it, so a
  theorem that a routine returns \<open>Some\<close> also says that it stays inside its arrays.
\<close>

named_theorems mem_simps "checked reads and writes"
named_theorems vspan_simps "slices of vectors"

section \<open>Checked array accesses\<close>

definition rd :: "'a list \<Rightarrow> nat \<Rightarrow> 'a option" where
  "rd xs i = (if i < length xs then Some (xs ! i) else None)"

definition wr :: "'a list \<Rightarrow> nat \<Rightarrow> 'a \<Rightarrow> 'a list option" where
  "wr xs i v = (if i < length xs then Some (xs[i := v]) else None)"

lemma rd_Some [mem_simps]: "i < length xs \<Longrightarrow> rd xs i = Some (xs ! i)"
  by (simp add: rd_def)

lemma wr_Some [mem_simps]: "i < length xs \<Longrightarrow> wr xs i v = Some (xs[i := v])"
  by (simp add: wr_def)

lemma rd_eq_Some_iff: "rd xs i = Some v \<longleftrightarrow> i < length xs \<and> xs ! i = v"
  by (auto simp: rd_def)

lemma wr_eq_Some_iff: "wr xs i v = Some ys \<longleftrightarrow> i < length xs \<and> ys = xs[i := v]"
  by (auto simp: wr_def)

section \<open>Counted loops\<close>

text \<open>
  \<open>for_each [a..<b] body s\<close> is the loop \<open>for (i = a; i < b; i++) body\<close> over
  the state \<open>s\<close>; it stops with \<open>None\<close> as soon as a body does.
\<close>

primrec for_each :: "'i list \<Rightarrow> ('i \<Rightarrow> 's \<Rightarrow> 's option) \<Rightarrow> 's \<Rightarrow> 's option" where
  "for_each [] body s = Some s"
| "for_each (i # is) body s = body i s \<bind> for_each is body"

lemma for_each_append:
  "for_each (is @ js) body s = for_each is body s \<bind> for_each js body"
proof (induction "is" arbitrary: s)
  case (Cons i "is")
  then show ?case by (cases "body i s") auto
qed simp

lemma for_each_cong [fundef_cong]:
  assumes "is = js" and "s = t" and "\<And>i u. i \<in> set js \<Longrightarrow> f i u = g i u"
  shows "for_each is f s = for_each js g t"
proof -
  have "for_each js f t = for_each js g t" using assms(3)
  proof (induction js arbitrary: t)
    case (Cons j js)
    then show ?case by (cases "g j t") auto
  qed simp
  then show ?thesis using assms(1,2) by simp
qed

lemma for_each_pure:
  "(\<And>i t. i \<in> set is \<Longrightarrow> body i t = Some (f i t)) \<Longrightarrow> for_each is body s = Some (fold f is s)"
  by (induction "is" arbitrary: s) auto

text \<open>Total correctness of a counted loop from an invariant that each body keeps.\<close>

lemma for_each_upt:
  assumes "a \<le> b" and "I a s"
    and "\<And>i t. a \<le> i \<Longrightarrow> i < b \<Longrightarrow> I i t \<Longrightarrow> \<exists>u. body i t = Some u \<and> I (Suc i) u"
  shows "\<exists>t. for_each [a..<b] body s = Some t \<and> I b t"
  using assms
proof (induction b)
  case 0
  then show ?case by simp
next
  case (Suc b)
  show ?case
  proof (cases "a = Suc b")
    case True
    then show ?thesis using Suc.prems(2) by simp
  next
    case False
    then have "a \<le> b" using Suc.prems(1) by simp
    then obtain t where t: "for_each [a..<b] body s = Some t" "I b t"
      using Suc.IH[OF \<open>a \<le> b\<close> Suc.prems(2)] Suc.prems(3) by (meson less_SucI)
    then obtain u where "body b t = Some u" "I (Suc b) u"
      using Suc.prems(3)[of b t] \<open>a \<le> b\<close> by blast
    with t \<open>a \<le> b\<close> show ?thesis by (simp add: for_each_append)
  qed
qed

text \<open>The same over the elements of a list, with the visited prefix in the invariant.\<close>

lemma for_each_list:
  assumes "I [] s"
    and "\<And>done x rest t. xs = done @ x # rest \<Longrightarrow> I done t \<Longrightarrow>
           \<exists>u. body x t = Some u \<and> I (done @ [x]) u"
  shows "\<exists>t. for_each xs body s = Some t \<and> I xs t"
proof -
  have "\<exists>t. for_each ys body s = Some t \<and> I ys t" if "xs = ys @ zs" for ys zs
    using that
  proof (induction ys arbitrary: zs rule: rev_induct)
    case Nil
    then show ?case using assms(1) by simp
  next
    case (snoc y ys)
    then obtain t where t: "for_each ys body s = Some t" "I ys t" by auto
    from snoc.prems have "xs = ys @ y # zs" by simp
    from assms(2)[OF this t(2)] obtain u where "body y t = Some u" "I (ys @ [y]) u" by blast
    with t show ?case by (simp add: for_each_append)
  qed
  from this[of xs "[]"] show ?thesis by simp
qed

section \<open>Slices\<close>

text \<open>\<open>vspan a b xs\<close> is the half-open range \<open>[xs.begin() + a, xs.begin() + b)\<close>.\<close>

definition vspan :: "nat \<Rightarrow> nat \<Rightarrow> 'a list \<Rightarrow> 'a list" where
  "vspan a b xs = take (b - a) (drop a xs)"

lemma length_vspan [vspan_simps]: "length (vspan a b xs) = min (b - a) (length xs - a)"
  by (simp add: vspan_def min.commute)

lemma length_vspan_le [simp]: "b \<le> length xs \<Longrightarrow> length (vspan a b xs) = b - a"
  by (simp add: vspan_def)

lemma nth_vspan [vspan_simps]: "i < b - a \<Longrightarrow> b \<le> length xs \<Longrightarrow> vspan a b xs ! i = xs ! (a + i)"
  by (simp add: vspan_def)

lemma vspan_empty [simp]: "b \<le> a \<Longrightarrow> vspan a b xs = []"
  by (simp add: vspan_def)

lemma vspan_full [simp]: "vspan 0 (length xs) xs = xs"
  by (simp add: vspan_def)

lemma vspan_append_vspan:
  assumes "a \<le> b" and "b \<le> c"
  shows "vspan a b xs @ vspan b c xs = vspan a c xs"
proof -
  have "take (c - a) (drop a xs) = take ((b - a) + (c - b)) (drop a xs)"
    using assms by simp
  also have "\<dots> = take (b - a) (drop a xs) @ take (c - b) (drop (b - a) (drop a xs))"
    by (rule take_add)
  also have "drop (b - a) (drop a xs) = drop b xs"
    using assms by simp
  finally show ?thesis by (simp add: vspan_def)
qed

lemma set_vspan_subset: "set (vspan a b xs) \<subseteq> set xs"
  unfolding vspan_def by (meson set_drop_subset set_take_subset subset_trans)

lemma map_vspan: "map f (vspan a b xs) = vspan a b (map f xs)"
  by (simp add: vspan_def take_map drop_map)

lemma vspan_conv_map_nth:
  "b \<le> length xs \<Longrightarrow> vspan a b xs = map ((!) xs) [a..<b]"
  by (rule nth_equalityI) (auto simp: vspan_simps)

text \<open>\<^verbatim>\<open>std::lower_bound(begin() + a, begin() + b, v) - begin()\<close> of a range sorted by \<open><\<close>.\<close>

definition lower_bound :: "nat \<Rightarrow> nat \<Rightarrow> 'a :: ord \<Rightarrow> 'a list \<Rightarrow> nat" where
  "lower_bound a b v xs = a + length (takeWhile (\<lambda>x. x < v) (vspan a b xs))"

text \<open>A rearrangement that leaves the rest of a vector in place rearranges the range.\<close>

lemma mset_vspan_eq:
  assumes "mset ys = mset xs" and "\<And>k. k < length xs \<Longrightarrow> k < a \<or> b \<le> k \<Longrightarrow> ys ! k = xs ! k"
  shows "mset (vspan a b ys) = mset (vspan a b xs)"
proof (cases "a \<le> b")
  case True
  have len: "length ys = length xs" using assms(1) by (metis mset_eq_length)
  have split: "zs = take a zs @ vspan a b zs @ drop b zs" for zs :: "'a list"
    using True by (simp add: vspan_def) (metis append_take_drop_id drop_drop le_add_diff_inverse2)
  have "take a ys = take a xs" "drop b ys = drop b xs"
    using len assms(2) by (auto intro!: nth_equalityI)
  with assms(1) split[of ys] split[of xs] show ?thesis
    by (metis add_left_cancel add_right_cancel mset_append)
qed simp

section \<open>Distributions\<close>

text \<open>
  A distribution of \<open>n\<close> items over \<open>k\<close> threads is the vector of \<open>k + 1\<close>
  borders: it starts at 0, never decreases and ends at \<open>n\<close>.
\<close>

definition is_distribution :: "nat list \<Rightarrow> nat \<Rightarrow> nat \<Rightarrow> bool" where
  "is_distribution d k n \<longleftrightarrow> length d = Suc k \<and> d ! 0 = 0 \<and> d ! k = n \<and> sorted d"

lemma is_distribution_mono:
  "is_distribution d k n \<Longrightarrow> s \<le> t \<Longrightarrow> t \<le> k \<Longrightarrow> d ! s \<le> d ! t"
  by (auto simp: is_distribution_def intro: sorted_nth_mono)

lemma is_distribution_le: "is_distribution d k n \<Longrightarrow> t \<le> k \<Longrightarrow> d ! t \<le> n"
  using is_distribution_mono[of d k n t k] by (simp add: is_distribution_def)

lemma is_distribution_block:
  assumes "is_distribution d k n" and "i < n"
  shows "\<exists>t < k. d ! t \<le> i \<and> i < d ! Suc t"
proof -
  have *: "\<exists>t < m. d ! t \<le> i \<and> i < d ! Suc t" if "i < d ! m" and "m \<le> k" for m
    using that
  proof (induction m)
    case 0
    then show ?case using assms(1) by (simp add: is_distribution_def)
  next
    case (Suc m)
    then show ?case by (cases "i < d ! m") (auto simp: less_Suc_eq not_less)
  qed
  then show ?thesis using assms by (auto simp: is_distribution_def)
qed

text \<open>The blocks of a distribution cut a vector into consecutive pieces and lose nothing.\<close>

lemma concat_vspans_upto:
  assumes "is_distribution d k n" and "t \<le> k"
  shows "concat (map (\<lambda>s. vspan (d ! s) (d ! Suc s) xs) [0..<t]) = vspan 0 (d ! t) xs"
  using assms(2)
proof (induction t)
  case 0
  then show ?case using assms(1) by (simp add: is_distribution_def)
next
  case (Suc t)
  then have "d ! t \<le> d ! Suc t" using is_distribution_mono[OF assms(1), of t "Suc t"] by simp
  with Suc show ?case using vspan_append_vspan[of 0 "d ! t" "d ! Suc t" xs] by simp
qed

lemma concat_vspans:
  assumes "is_distribution d k (length xs)"
  shows "concat (map (\<lambda>s. vspan (d ! s) (d ! Suc s) xs) [0..<k]) = xs"
  using concat_vspans_upto[OF assms, of k xs] assms by (simp add: is_distribution_def)

text \<open>Prefix sums: \<open>psum xs i\<close> is the sum of the first \<open>i\<close> entries.\<close>

definition psum :: "nat list \<Rightarrow> nat \<Rightarrow> nat" where
  "psum xs i = sum_list (take i xs)"

lemma psum_0 [simp]: "psum xs 0 = 0"
  by (simp add: psum_def)

lemma psum_Suc: "i < length xs \<Longrightarrow> psum xs (Suc i) = psum xs i + xs ! i"
  by (simp add: psum_def take_Suc_conv_app_nth)

lemma psum_length [simp]: "psum xs (length xs) = sum_list xs"
  by (simp add: psum_def)

lemma psum_mono: "i \<le> j \<Longrightarrow> psum xs i \<le> psum xs j"
  unfolding psum_def
  by (metis append_take_drop_id le_add1 min_def sum_list_append take_take)

end
