(* ===== verification/Tarray.thy ===== *)
theory Tarray
  imports Prelude
begin

text \<open>
  The threaded array of \<^verbatim>\<open>src/basis/containers/tarray.hpp\<close>: a vector cut into one block
  per OpenMP thread.  \<open>tdata\<close> is the pointer \<^verbatim>\<open>_data\<close>: \<open>None\<close> for NULL, otherwise the
  cells of the allocation, each \<open>None\<close> until it is written.  A parallel loop over the
  threads is run in a given order \<open>sched\<close> of its iterations, so that a theorem about
  every \<open>sched\<close> covers every interleaving of whole iterations.
\<close>

record 'a tarray =
  tsize :: nat
  tdata :: "'a option list option"
  tdistribution :: "nat list"

section \<open>Splitting a size into blocks\<close>

text \<open>
  \<^verbatim>\<open>std::ceil(_size / (double)threads)\<close>.  Below \<open>2 ^ 53\<close> the quotient of two exactly
  represented integers is rounded to an integer only when it is one, so the result is the
  exact ceiling.
\<close>

definition ceil_div :: "nat \<Rightarrow> nat \<Rightarrow> nat" where
  "ceil_div a b = (a + b - 1) div b"

definition distribute :: "nat \<Rightarrow> nat \<Rightarrow> nat list" where
  "distribute threads n =
     (let chunkSize = ceil_div n threads;
          d = fold (\<lambda>t d. d[t := (if t * chunkSize > n then n else t * chunkSize)])
                [1..<threads] (replicate (threads + 1) 0)
      in d[threads := n])"

lemma ceil_div_mult_ge: "0 < b \<Longrightarrow> a \<le> b * ceil_div a b"
proof -
  assume b: "0 < b"
  have "a + b - 1 = b * ((a + b - 1) div b) + (a + b - 1) mod b" by simp
  moreover have "(a + b - 1) mod b \<le> b - 1" using b
    by (metis Suc_pred' less_Suc_eq_le mod_less_divisor)
  ultimately show ?thesis using b unfolding ceil_div_def by linarith
qed

lemma ceil_div_least: "0 < b \<Longrightarrow> a \<le> b * c \<Longrightarrow> ceil_div a b \<le> c"
proof -
  assume b: "0 < b" and le: "a \<le> b * c"
  then have "a + b - 1 < b * Suc c" by simp
  then have "(a + b - 1) div b < Suc c"
    using b by (simp add: div_less_iff_less_mult mult.commute)
  then show ?thesis by (simp add: ceil_div_def)
qed

lemma fold_update_nth:
  "j < length d \<Longrightarrow>
   fold (\<lambda>t d. d[t := g t]) [a..<b] d ! j = (if a \<le> j \<and> j < b then g j else d ! j)"
proof (induction b)
  case (Suc b)
  have len: "length (fold (\<lambda>t d. d[t := g t]) [a..<b] d) = length d" for b
    by (induction b) auto
  show ?case
  proof (cases "a \<le> b")
    case True
    then show ?thesis using Suc len[of b] by (auto simp: nth_list_update less_Suc_eq)
  next
    case False
    then show ?thesis by auto
  qed
qed simp

lemma length_fold_update: "length (fold (\<lambda>t d. d[t := g t]) is d) = length d"
  by (induction "is" arbitrary: d) auto

lemma length_distribute [simp]: "length (distribute threads n) = threads + 1"
  by (simp add: distribute_def Let_def length_fold_update)

lemma distribute_nth:
  "t \<le> threads \<Longrightarrow> distribute threads n ! t =
     (if t = threads then n else min n (t * ceil_div n threads))"
  by (cases t; auto simp: distribute_def Let_def fold_update_nth length_fold_update
      nth_list_update min_def simp del: replicate_Suc)

lemma sorted_distribute: "sorted (distribute threads n)"
proof -
  have "distribute threads n ! i \<le> distribute threads n ! j"
    if "i \<le> j" and "j \<le> threads" for i j
  proof (cases "j = threads")
    case True
    then show ?thesis using that by (simp add: distribute_nth)
  next
    case False
    have "i * ceil_div n threads \<le> j * ceil_div n threads"
      using that(1) by (rule mult_le_mono1)
    then show ?thesis using that False by (auto simp: distribute_nth min.coboundedI2)
  qed
  then show ?thesis by (simp add: sorted_iff_nth_mono)
qed

lemma is_distribution_distribute:
  "0 < threads \<Longrightarrow> is_distribution (distribute threads n) threads n"
  by (simp add: is_distribution_def sorted_distribute distribute_nth)

lemma distribute_block:
  assumes "t < threads"
  shows "distribute threads n ! Suc t - distribute threads n ! t \<le> ceil_div n threads"
proof (cases "Suc t = threads")
  case True
  let ?c = "ceil_div n threads"
  have "n \<le> threads * ?c" using ceil_div_mult_ge[of threads n] assms by simp
  then have "n \<le> ?c + t * ?c" using True by auto
  then show ?thesis using True assms by (auto simp: distribute_nth)
next
  case False
  then show ?thesis using assms by (auto simp: distribute_nth)
qed

section \<open>Constructors\<close>

text \<open>
  A loop over the threads in which thread \<open>t\<close> writes exactly its own block fills the
  array, in whatever order the threads run.
\<close>

lemma fill_blocks:
  assumes d: "is_distribution d k n" and sched: "set sched = {..<k}" and len: "length cells = n"
    and body: "\<And>t cs. t < k \<Longrightarrow> length cs = n \<Longrightarrow>
      \<exists>cs'. body t cs = Some cs' \<and> length cs' = n \<and>
        (\<forall>i < n. cs' ! i = (if d ! t \<le> i \<and> i < d ! Suc t then f i else cs ! i))"
  shows "for_each sched body cells = Some (map f [0..<n])"
proof -
  let ?I = "\<lambda>done cs. length cs = n \<and> (\<forall>i < n.
    cs ! i = (if \<exists>t \<in> set done. d ! t \<le> i \<and> i < d ! Suc t then f i else cells ! i))"
  have "\<exists>cs. for_each sched body cells = Some cs \<and> ?I sched cs"
  proof (rule for_each_list)
    show "?I [] cells" using len by simp
    fix dn t rest cs
    assume sp: "sched = dn @ t # rest" and inv: "?I dn cs"
    have "t < k" using sched sp by auto
    with body[of t cs] inv obtain cs' where "body t cs = Some cs'" "length cs' = n"
      and nth: "\<forall>i < n. cs' ! i = (if d ! t \<le> i \<and> i < d ! Suc t then f i else cs ! i)" by auto
    with inv show "\<exists>u. body t cs = Some u \<and> ?I (dn @ [t]) u" by auto
  qed
  then obtain cs where cs: "for_each sched body cells = Some cs" "?I sched cs" by blast
  have "cs = map f [0..<n]"
  proof (rule nth_equalityI)
    fix i assume "i < length cs"
    then have "i < n" using cs by simp
    then obtain t where "t < k" "d ! t \<le> i" "i < d ! Suc t"
      using is_distribution_block[OF d] by blast
    then show "cs ! i = map f [0..<n] ! i" using cs sched \<open>i < n\<close> by auto
  qed (use cs in simp)
  with cs show ?thesis by simp
qed

text \<open>
  \<^verbatim>\<open>memcpy(dst + i, src + j, n * sizeof(TType))\<close>, and the copy of the range between two
  borders; a pair of borders in the wrong order makes the byte count wrap to a huge
  number, which leaves every array.
\<close>

definition memcpy :: "'c list \<Rightarrow> nat \<Rightarrow> 'c list \<Rightarrow> nat \<Rightarrow> nat \<Rightarrow> 'c list option" where
  "memcpy dst i src j n =
     (if i + n \<le> length dst \<and> j + n \<le> length src
      then Some (take i dst @ take n (drop j src) @ drop (i + n) dst) else None)"

definition memcpy_range :: "'c list \<Rightarrow> 'c list \<Rightarrow> nat \<Rightarrow> nat \<Rightarrow> 'c list option" where
  "memcpy_range dst src a b = (if a \<le> b then memcpy dst a src a (b - a) else None)"

lemma memcpy_range_Some:
  assumes "a \<le> b" and "b \<le> length dst" and "b \<le> length src"
  obtains ys where "memcpy_range dst src a b = Some ys" and "length ys = length dst"
    and "\<And>i. i < length dst \<Longrightarrow> ys ! i = (if a \<le> i \<and> i < b then src ! i else dst ! i)"
proof
  let ?ys = "take a dst @ take (b - a) (drop a src) @ drop b dst"
  show "memcpy_range dst src a b = Some ?ys"
    using assms by (simp add: memcpy_range_def memcpy_def)
  show "length ?ys = length dst" using assms by simp
  show "?ys ! i = (if a \<le> i \<and> i < b then src ! i else dst ! i)" if "i < length dst" for i
    using assms that by (auto simp: nth_append)
qed

text \<open>
  \<^verbatim>\<open>tarray(const std::vector<size_t> &distribution, const std::vector<TType> &data)\<close>: the
  threads copy their blocks into the fresh allocation.
\<close>

definition tarray_copy_blocks ::
  "nat list \<Rightarrow> nat list \<Rightarrow> 'a option list \<Rightarrow> 'a option list \<Rightarrow> 'a option list option" where
  "tarray_copy_blocks sched d src =
     for_each sched (\<lambda>t cells.
       rd d t \<bind> (\<lambda>a. rd d (t + 1) \<bind> (\<lambda>b. memcpy_range cells src a b)))"

definition tarray_dist :: "nat list \<Rightarrow> nat list \<Rightarrow> 'a list \<Rightarrow> 'a tarray option" where
  "tarray_dist sched d data =
     (if data = [] then Some \<lparr>tsize = 0, tdata = None, tdistribution = d\<rparr>
      else do {
        cells \<leftarrow> tarray_copy_blocks sched d (map Some data) (replicate (length data) None);
        Some \<lparr>tsize = length data, tdata = Some cells, tdistribution = d\<rparr>
      })"

definition tarray_threads :: "nat list \<Rightarrow> nat \<Rightarrow> 'a list \<Rightarrow> 'a tarray option" where
  "tarray_threads sched threads data = tarray_dist sched (distribute threads (length data)) data"

text \<open>\<^verbatim>\<open>tarray(const std::vector<TType> &data)\<close>: one block.\<close>

definition tarray_vector :: "'a list \<Rightarrow> 'a tarray" where
  "tarray_vector data =
     \<lparr>tsize = length data, tdata = (if data = [] then None else Some (map Some data)),
      tdistribution = [0, length data]\<rparr>"

text \<open>\<^verbatim>\<open>tarray(const std::vector<std::vector<TType> > &data)\<close>: one block per inner vector.\<close>

primrec block_borders :: "nat \<Rightarrow> 'a list list \<Rightarrow> nat list" where
  "block_borders n [] = [n]"
| "block_borders n (b # bs) = n # block_borders (n + length b) bs"

definition tarray_blocks :: "nat list \<Rightarrow> 'a list list \<Rightarrow> 'a tarray option" where
  "tarray_blocks sched data =
     (let d = block_borders 0 data; n = length (concat data) in
      if n = 0 then Some \<lparr>tsize = 0, tdata = None, tdistribution = d\<rparr>
      else do {
        cells \<leftarrow> for_each sched (\<lambda>t cells.
            rd d t \<bind> (\<lambda>a. rd data t \<bind> (\<lambda>b. memcpy cells a (map Some b) 0 (length b))))
          (replicate n None);
        Some \<lparr>tsize = n, tdata = Some cells, tdistribution = d\<rparr>
      })"

text \<open>
  \<^verbatim>\<open>tarray(size_t threads, size_t size)\<close>: every thread value-initialises its block
  (\<open>zero\<close> stands for \<^verbatim>\<open>TType{}\<close>).
\<close>

definition tarray_init :: "nat list \<Rightarrow> 'a \<Rightarrow> nat \<Rightarrow> nat \<Rightarrow> 'a tarray option" where
  "tarray_init sched zero threads n =
     (let d = distribute threads n in
      if n = 0 then Some \<lparr>tsize = 0, tdata = None, tdistribution = d\<rparr>
      else do {
        cells \<leftarrow> for_each sched (\<lambda>t cells. do {
            a \<leftarrow> rd d t;
            b \<leftarrow> rd d (t + 1);
            for_each [a..<b] (\<lambda>i cells. wr cells i (Some zero)) cells
          }) (replicate n None);
        Some \<lparr>tsize = n, tdata = Some cells, tdistribution = d\<rparr>
      })"

text \<open>
  The copy constructor and \<^verbatim>\<open>operator=(const tarray &other)\<close> for two distinct objects copy the
  blocks of the source into a fresh allocation.  The copy constructor does so for a source with
  elements only and otherwise keeps the pointer of the source: the second component of its result
  says whether both objects own the same allocation, which both release.  The assignment
  reallocates even for an empty source, so its pointer is never NULL afterwards.
\<close>

definition tarray_cells :: "nat list \<Rightarrow> 'a tarray \<Rightarrow> 'a option list option" where
  "tarray_cells sched other =
     for_each sched (\<lambda>t cells. do {
         a \<leftarrow> rd (tdistribution other) t;
         b \<leftarrow> rd (tdistribution other) (t + 1);
         if a = b then Some cells
         else case tdata other of None \<Rightarrow> None | Some src \<Rightarrow> memcpy_range cells src a b
       }) (replicate (tsize other) None)"

definition tarray_copy :: "nat list \<Rightarrow> 'a tarray \<Rightarrow> ('a tarray \<times> bool) option" where
  "tarray_copy sched other =
     (if tsize other \<noteq> 0 then do {
        cells \<leftarrow> tarray_cells sched other;
        Some (\<lparr>tsize = tsize other, tdata = Some cells, tdistribution = tdistribution other\<rparr>, False)
      } else Some (other, tdata other \<noteq> None))"

definition tarray_assign :: "nat list \<Rightarrow> 'a tarray \<Rightarrow> 'a tarray option" where
  "tarray_assign sched other = do {
     cells \<leftarrow> tarray_cells sched other;
     Some \<lparr>tsize = tsize other, tdata = Some cells, tdistribution = tdistribution other\<rparr>
   }"

text \<open>
  The move constructor: the new object and what is left of the source, whose distribution is
  empty as for every moved vector.  The move assignment also overwrites the pointer of its
  target without releasing it: the third component is the lost allocation.  The distribution
  \<open>left\<close> that a move assignment of vectors leaves in the source is not specified by C++.
\<close>

definition tarray_move :: "'a tarray \<Rightarrow> 'a tarray \<times> 'a tarray" where
  "tarray_move other = (other, \<lparr>tsize = 0, tdata = None, tdistribution = []\<rparr>)"

definition tarray_move_assign ::
  "nat list \<Rightarrow> 'a tarray \<Rightarrow> 'a tarray \<Rightarrow> 'a tarray \<times> 'a tarray \<times> 'a option list option" where
  "tarray_move_assign left target other =
     (target\<lparr>tsize := tsize other, tdata := tdata other, tdistribution := tdistribution other\<rparr>,
      other\<lparr>tsize := 0, tdata := None, tdistribution := left\<rparr>, tdata target)"

lemma tarray_copy_blocks_correct:
  assumes "is_distribution d k (length xs)" and "set sched = {..<k}" and "length cells = length xs"
  shows "tarray_copy_blocks sched d (map Some xs) cells = Some (map Some xs)"
proof -
  let ?body = "\<lambda>t cells. rd d t \<bind> (\<lambda>a. rd d (t + 1) \<bind> (\<lambda>b. memcpy_range cells (map Some xs) a b))"
  have "for_each sched ?body cells = Some (map (\<lambda>i. Some (xs ! i)) [0..<length xs])"
  proof (rule fill_blocks[OF assms(1,2,3)])
    fix t :: nat and cs :: "'a option list"
    assume t: "t < k" and len: "length cs = length xs"
    have b: "d ! t \<le> d ! Suc t" "d ! Suc t \<le> length xs" "length d = Suc k"
      using is_distribution_mono[OF assms(1), of t "Suc t"] is_distribution_le[OF assms(1), of "Suc t"]
        assms(1) t by (auto simp: is_distribution_def)
    obtain ys where ys: "memcpy_range cs (map Some xs) (d ! t) (d ! Suc t) = Some ys"
      "length ys = length cs" and nth: "\<And>i. i < length cs \<Longrightarrow>
        ys ! i = (if d ! t \<le> i \<and> i < d ! Suc t then map Some xs ! i else cs ! i)"
      using memcpy_range_Some[of "d ! t" "d ! Suc t" cs "map Some xs"] b len by auto
    show "\<exists>cs'. ?body t cs = Some cs' \<and> length cs' = length xs \<and>
        (\<forall>i<length xs. cs' ! i = (if d ! t \<le> i \<and> i < d ! Suc t then Some (xs ! i) else cs ! i))"
      using ys nth len b t by (auto simp: mem_simps)
  qed
  moreover have "map (\<lambda>i. Some (xs ! i)) [0..<length xs] = map Some xs"
    by (rule nth_equalityI) auto
  ultimately show ?thesis by (simp add: tarray_copy_blocks_def)
qed

text \<open>The contract of every constructor: the array holds \<open>xs\<close>, cut at \<open>d\<close>, fully written.\<close>

definition tarray_holds :: "'a tarray \<Rightarrow> nat list \<Rightarrow> 'a list \<Rightarrow> bool" where
  "tarray_holds A d xs \<longleftrightarrow> tsize A = length xs \<and> tdistribution A = d \<and>
     (tdata A = Some (map Some xs) \<or> xs = [] \<and> tdata A = None)"

lemma tarray_dist_correct:
  assumes "is_distribution d k (length xs)" and "set sched = {..<k}"
  shows "\<exists>A. tarray_dist sched d xs = Some A \<and> tarray_holds A d xs"
  using tarray_copy_blocks_correct[OF assms, of "replicate (length xs) None"]
  by (auto simp: tarray_dist_def tarray_holds_def)

lemma tarray_vector_correct: "tarray_holds (tarray_vector xs) [0, length xs] xs"
  by (simp add: tarray_holds_def tarray_vector_def)

lemma length_block_borders [simp]: "length (block_borders s bs) = Suc (length bs)"
  by (induction bs arbitrary: s) auto

lemma block_borders_nth:
  "t \<le> length bs \<Longrightarrow> block_borders s bs ! t = s + length (concat (take t bs))"
proof (induction bs arbitrary: s t)
  case (Cons b bs)
  then show ?case by (cases t) auto
qed simp

lemma is_distribution_block_borders:
  "is_distribution (block_borders 0 bs) (length bs) (length (concat bs))"
proof -
  have "block_borders 0 bs ! i \<le> block_borders 0 bs ! j" if "i \<le> j" "j \<le> length bs" for i j
  proof -
    have "concat (take j bs) = concat (take i bs) @ concat (drop i (take j bs))"
      using that by (metis append_take_drop_id concat_append min.absorb1 take_take)
    then show ?thesis using that by (simp add: block_borders_nth)
  qed
  then show ?thesis
    by (auto simp: is_distribution_def block_borders_nth sorted_iff_nth_mono)
qed

lemma concat_nth_block:
  assumes "t < length bs" and "i < length (bs ! t)"
  shows "concat bs ! (length (concat (take t bs)) + i) = bs ! t ! i"
proof -
  have "bs = take t bs @ bs ! t # drop (Suc t) bs" using assms(1) by (simp add: id_take_nth_drop)
  then have "concat bs = concat (take t bs) @ bs ! t @ concat (drop (Suc t) bs)"
    by (metis concat.simps(2) concat_append)
  then show ?thesis using assms(2) by (simp add: nth_append)
qed

lemma tarray_blocks_correct:
  assumes "set sched = {..<length bs}"
  shows "\<exists>A. tarray_blocks sched bs = Some A \<and> tarray_holds A (block_borders 0 bs) (concat bs)"
proof -
  let ?d = "block_borders 0 bs" and ?n = "length (concat bs)"
  let ?body = "\<lambda>t cells. rd ?d t \<bind> (\<lambda>a. rd bs t \<bind> (\<lambda>b. memcpy cells a (map Some b) 0 (length b)))"
  have "for_each sched ?body (replicate ?n None) = Some (map (\<lambda>i. Some (concat bs ! i)) [0..<?n])"
  proof (rule fill_blocks[OF is_distribution_block_borders assms])
    fix t :: nat and cs :: "'a option list"
    assume t: "t < length bs" and len: "length cs = ?n"
    let ?a = "?d ! t" and ?b = "bs ! t"
    have step: "?d ! Suc t = ?a + length ?b"
      using t by (simp add: block_borders_nth take_Suc_conv_app_nth)
    have le: "?a + length ?b \<le> ?n"
      using is_distribution_le[OF is_distribution_block_borders, of "Suc t" bs] step t by simp
    let ?ys = "take ?a cs @ map Some ?b @ drop (?a + length ?b) cs"
    have eq: "concat bs ! i = ?b ! (i - ?a)" if "?a \<le> i" "i < ?a + length ?b" for i
      using concat_nth_block[OF t, of "i - ?a"] that t by (simp add: block_borders_nth)
    have "?body t cs = Some ?ys" using t le len by (simp add: mem_simps memcpy_def)
    moreover have "length ?ys = ?n" using le len by simp
    moreover have "?ys ! i = (if ?a \<le> i \<and> i < ?d ! Suc t then Some (concat bs ! i) else cs ! i)"
      if "i < ?n" for i
      using that le len eq[of i] by (auto simp: nth_append step)
    ultimately show "\<exists>cs'. ?body t cs = Some cs' \<and> length cs' = ?n \<and>
        (\<forall>i<?n. cs' ! i = (if ?a \<le> i \<and> i < ?d ! Suc t then Some (concat bs ! i) else cs ! i))"
      by blast
  qed simp
  moreover have "map (\<lambda>i. Some (concat bs ! i)) [0..<?n] = map Some (concat bs)"
    by (rule nth_equalityI) auto
  ultimately show ?thesis by (simp add: tarray_blocks_def Let_def tarray_holds_def)
qed

lemma tarray_init_correct:
  assumes "0 < threads" and "set sched = {..<threads}"
  shows "\<exists>A. tarray_init sched zero threads n = Some A \<and>
    tarray_holds A (distribute threads n) (replicate n zero)"
proof -
  let ?d = "distribute threads n"
  let ?body = "\<lambda>t cells. do { a \<leftarrow> rd ?d t; b \<leftarrow> rd ?d (t + 1);
            for_each [a..<b] (\<lambda>i cells. wr cells i (Some zero)) cells }"
  note d = is_distribution_distribute[OF assms(1), of n]
  have "for_each sched ?body (replicate n None) = Some (map (\<lambda>i. Some zero) [0..<n])"
  proof (rule fill_blocks[OF d assms(2)])
    fix t :: nat and cs :: "'a option list"
    assume t: "t < threads" and len: "length cs = n"
    have b: "?d ! t \<le> ?d ! Suc t" "?d ! Suc t \<le> n"
      using is_distribution_mono[OF d, of t "Suc t"] is_distribution_le[OF d, of "Suc t"] t by auto
    have "\<exists>cs'. for_each [?d ! t..<?d ! Suc t] (\<lambda>i cells. wr cells i (Some zero)) cs = Some cs' \<and>
        (length cs' = n \<and>
         (\<forall>i<n. cs' ! i = (if ?d ! t \<le> i \<and> i < ?d ! Suc t then Some zero else cs ! i)))"
      by (rule for_each_upt[OF b(1)]) (use len b in \<open>auto simp: mem_simps nth_list_update\<close>)
    then show "\<exists>cs'. ?body t cs = Some cs' \<and> length cs' = n \<and>
        (\<forall>i<n. cs' ! i = (if ?d ! t \<le> i \<and> i < ?d ! Suc t then Some zero else cs ! i))"
      using t by (simp add: mem_simps)
  qed simp
  moreover have "map (\<lambda>i. Some zero) [0..<n] = map Some (replicate n zero)"
    by (simp add: map_replicate_const)
  ultimately show ?thesis by (auto simp: tarray_init_def Let_def tarray_holds_def)
qed

lemma tarray_cells_correct:
  assumes "is_distribution d k (length xs)" and "set sched = {..<k}" and "tarray_holds B d xs"
  shows "tarray_cells sched B = Some (map Some xs)"
proof (cases "tdata B")
  case None
  then have "xs = []" using assms(3) by (auto simp: tarray_holds_def)
  have "for_each ts (\<lambda>t cells. do { a \<leftarrow> rd d t; b \<leftarrow> rd d (t + 1);
      if a = b then Some cells else case tdata B of None \<Rightarrow> None | Some src \<Rightarrow> memcpy_range cells src a b })
      ([] :: 'a option list) = Some []" if "set ts \<subseteq> {..<k}" for ts
    using that
  proof (induction ts)
    case (Cons t ts)
    have "d ! t = 0" "d ! Suc t = 0"
      using is_distribution_le[OF assms(1), of t] is_distribution_le[OF assms(1), of "Suc t"]
        Cons.prems \<open>xs = []\<close> by auto
    moreover have "length d = Suc k" using assms(1) by (simp add: is_distribution_def)
    ultimately show ?case using Cons by (simp add: mem_simps)
  qed simp
  then show ?thesis
    using assms(2,3) \<open>xs = []\<close> by (auto simp: tarray_cells_def tarray_holds_def)
next
  case (Some src)
  then have B: "tsize B = length xs" "tdistribution B = d" "src = map Some xs"
    using assms(3) by (auto simp: tarray_holds_def)
  let ?body = "\<lambda>t cells. do { a \<leftarrow> rd d t; b \<leftarrow> rd d (t + 1);
      if a = b then Some cells else memcpy_range cells (map Some xs) a b }"
  have "for_each sched ?body (replicate (length xs) None) = Some (map (\<lambda>i. Some (xs ! i)) [0..<length xs])"
  proof (rule fill_blocks[OF assms(1,2)])
    fix t :: nat and cs :: "'a option list"
    assume t: "t < k" and len: "length cs = length xs"
    have b: "d ! t \<le> d ! Suc t" "d ! Suc t \<le> length xs" "length d = Suc k"
      using is_distribution_mono[OF assms(1), of t "Suc t"] is_distribution_le[OF assms(1), of "Suc t"]
        assms(1) t by (auto simp: is_distribution_def)
    obtain ys where ys: "memcpy_range cs (map Some xs) (d ! t) (d ! Suc t) = Some ys"
      "length ys = length cs" and nth: "\<And>i. i < length cs \<Longrightarrow>
        ys ! i = (if d ! t \<le> i \<and> i < d ! Suc t then map Some xs ! i else cs ! i)"
      using memcpy_range_Some[of "d ! t" "d ! Suc t" cs "map Some xs"] b len by auto
    show "\<exists>cs'. ?body t cs = Some cs' \<and> length cs' = length xs \<and>
        (\<forall>i<length xs. cs' ! i = (if d ! t \<le> i \<and> i < d ! Suc t then Some (xs ! i) else cs ! i))"
      using ys nth len b t by (cases "d ! t = d ! Suc t") (auto simp: mem_simps)
  qed simp
  moreover have "map (\<lambda>i. Some (xs ! i)) [0..<length xs] = map Some xs"
    by (rule nth_equalityI) auto
  ultimately show ?thesis using Some B by (simp add: tarray_cells_def cong: if_cong)
qed

lemma tarray_assign_correct:
  assumes "is_distribution d k (length xs)" and "set sched = {..<k}" and "tarray_holds B d xs"
  shows "\<exists>A. tarray_assign sched B = Some A \<and> tarray_holds A d xs \<and> tdata A \<noteq> None"
  using tarray_cells_correct[OF assms] assms(3) by (auto simp: tarray_assign_def tarray_holds_def)

lemma tarray_copy_correct:
  assumes "is_distribution d k (length xs)" and "set sched = {..<k}" and "tarray_holds B d xs"
  shows "\<exists>A. tarray_copy sched B = Some (A, xs = [] \<and> tdata B \<noteq> None) \<and> tarray_holds A d xs"
  using tarray_cells_correct[OF assms] assms(3) by (auto simp: tarray_copy_def tarray_holds_def)

section \<open>Properties\<close>

text \<open>
  C32: \<^verbatim>\<open>tarray::distribute\<close> cuts \<open>n\<close> elements into one block per thread: the borders start
  at zero, never decrease, end at \<open>n\<close>, and no block is larger than the rounded-up share.
\<close>

theorem distribute_blocks:
  assumes "0 < threads"
  shows "distribute threads n ! 0 = 0 \<and> distribute threads n ! threads = n \<and>
    sorted (distribute threads n) \<and>
    list_all (\<lambda>t. distribute threads n ! Suc t - distribute threads n ! t \<le> ceil_div n threads) [0..<threads]"
  using is_distribution_distribute[OF assms, of n] distribute_block[of _ threads n]
  by (auto simp: is_distribution_def list_all_iff)

theorem distribute_blocks_witness:
  "distribute 4 10 ! 0 = 0 \<and> distribute 4 10 ! 4 = 10 \<and> sorted (distribute 4 10) \<and>
   list_all (\<lambda>t. distribute 4 10 ! Suc t - distribute 4 10 ! t \<le> ceil_div 10 4) [0..<4]"
  by (rule distribute_blocks) simp

text \<open>
  C31: Every constructor and assignment of the threaded array puts each element exactly where
  the data has it, in whatever order the threads run: copying a vector over given borders, over
  the default borders and as one block, concatenating per-thread vectors, value-initialising,
  copy construction, copy assignment, move construction and move assignment.  Only the copy
  constructor may share its allocation with the source, and does so exactly for an empty source
  whose pointer is not NULL, as copy assignment (but no constructor) leaves it: then both objects
  release it.  A moved-from array owns nothing; the move assignment loses the old allocation of
  its target.
\<close>

theorem tarray_constructors:
  assumes "is_distribution d k (length xs)" and "set sched = {..<k}"
    and "0 < threads" and "set sched' = {..<threads}" and "set sched'' = {..<length bs}"
  shows "(\<exists>A B. tarray_dist sched d xs = Some A \<and> tarray_holds A d xs \<and>
      tarray_assign sched A = Some B \<and> tarray_holds B d xs \<and>
      (\<exists>C. tarray_copy sched A = Some (C, False) \<and> tarray_holds C d xs) \<and>
      (\<exists>C. tarray_copy sched B = Some (C, xs = []) \<and> tarray_holds C d xs)) \<and>
    (\<exists>A. tarray_threads sched' threads xs = Some A \<and> tarray_holds A (distribute threads (length xs)) xs) \<and>
    (\<exists>A. tarray_init sched' zero threads n = Some A \<and>
      tarray_holds A (distribute threads n) (replicate n zero)) \<and>
    (\<exists>A. tarray_blocks sched'' bs = Some A \<and> tarray_holds A (block_borders 0 bs) (concat bs)) \<and>
    tarray_holds (tarray_vector xs) [0, length xs] xs \<and>
    (\<forall>A. tarray_holds A d xs \<longrightarrow>
      (case tarray_move A of (B, A') \<Rightarrow> tarray_holds B d xs \<and> tsize A' = 0 \<and> tdata A' = None) \<and>
      (case tarray_move_assign left T A of (B, A', lost) \<Rightarrow>
        tarray_holds B d xs \<and> tsize A' = 0 \<and> tdata A' = None \<and> lost = tdata T))"
proof (intro conjI)
  obtain A where A: "tarray_dist sched d xs = Some A" "tarray_holds A d xs"
    using tarray_dist_correct[OF assms(1,2)] by blast
  obtain B where B: "tarray_assign sched A = Some B" "tarray_holds B d xs" "tdata B \<noteq> None"
    using tarray_assign_correct[OF assms(1,2) A(2)] by blast
  have "xs = [] \<Longrightarrow> tdata A = None" using A(1) by (auto simp: tarray_dist_def)
  then show "\<exists>A B. tarray_dist sched d xs = Some A \<and> tarray_holds A d xs \<and>
      tarray_assign sched A = Some B \<and> tarray_holds B d xs \<and>
      (\<exists>C. tarray_copy sched A = Some (C, False) \<and> tarray_holds C d xs) \<and>
      (\<exists>C. tarray_copy sched B = Some (C, xs = []) \<and> tarray_holds C d xs)"
    using A B tarray_copy_correct[OF assms(1,2) A(2)] tarray_copy_correct[OF assms(1,2) B(2)] by auto
  show "\<exists>A. tarray_threads sched' threads xs = Some A \<and> tarray_holds A (distribute threads (length xs)) xs"
    unfolding tarray_threads_def
    by (rule tarray_dist_correct[OF is_distribution_distribute[OF assms(3)] assms(4)])
  show "\<exists>A. tarray_init sched' zero threads n = Some A \<and>
      tarray_holds A (distribute threads n) (replicate n zero)"
    by (rule tarray_init_correct[OF assms(3,4)])
  show "\<exists>A. tarray_blocks sched'' bs = Some A \<and> tarray_holds A (block_borders 0 bs) (concat bs)"
    by (rule tarray_blocks_correct[OF assms(5)])
  show "tarray_holds (tarray_vector xs) [0, length xs] xs" by (rule tarray_vector_correct)
qed (simp add: tarray_move_def tarray_move_assign_def tarray_holds_def)

theorem tarray_constructors_witness:
  "(\<exists>A B. tarray_dist [1, 0] [0, 1, 3] ''abc'' = Some A \<and> tarray_holds A [0, 1, 3] ''abc'' \<and>
      tarray_assign [1, 0] A = Some B \<and> tarray_holds B [0, 1, 3] ''abc'' \<and>
      (\<exists>C. tarray_copy [1, 0] A = Some (C, False) \<and> tarray_holds C [0, 1, 3] ''abc'') \<and>
      (\<exists>C. tarray_copy [1, 0] B = Some (C, ''abc'' = []) \<and> tarray_holds C [0, 1, 3] ''abc'')) \<and>
    (\<exists>A. tarray_threads [2, 0, 1] 3 ''abc'' = Some A \<and> tarray_holds A (distribute 3 (length ''abc'')) ''abc'') \<and>
    (\<exists>A. tarray_init [2, 0, 1] CHR ''0'' 3 5 = Some A \<and>
      tarray_holds A (distribute 3 5) (replicate 5 CHR ''0'')) \<and>
    (\<exists>A. tarray_blocks [1, 0] [''ab'', ''c''] = Some A \<and>
      tarray_holds A (block_borders 0 [''ab'', ''c'']) (concat [''ab'', ''c''])) \<and>
    tarray_holds (tarray_vector ''abc'') [0, length ''abc''] ''abc'' \<and>
    tarray_holds (fst (tarray_move \<lparr>tsize = 3, tdata = Some (map Some ''abc''), tdistribution = [0, 1, 3]\<rparr>)) [0, 1, 3] ''abc''"
proof -
  have "is_distribution [0, 1, 3] 2 (length ''abc'')" "set [1, 0] = {..<2 :: nat}" "0 < (3 :: nat)" "set [2, 0, 1] = {..<3 :: nat}"
    "set [1, 0] = {..<length [''ab'', ''c'']}"
    by (auto simp: is_distribution_def)
  note t = tarray_constructors[OF this, where zero = "CHR ''0''" and n = 5 and left = "[]" and T = "tarray_vector ''x''"]
  let ?A = "\<lparr>tsize = 3, tdata = Some (map Some ''abc''), tdistribution = [0, 1, 3]\<rparr>"
  have h: "tarray_holds ?A [0, 1, 3] ''abc''" by (simp add: tarray_holds_def)
  note move = t[THEN conjunct2, THEN conjunct2, THEN conjunct2, THEN conjunct2, THEN conjunct2, THEN spec, THEN mp, OF h]
  from move have "tarray_holds (fst (tarray_move ?A)) [0, 1, 3] ''abc''" unfolding split_beta by (rule conjunct1[THEN conjunct1])
  with t show ?thesis by (elim conjE) (intro conjI)
qed

end
