(* ===== verification/Esutils.thy ===== *)
theory Esutils
  imports Tarray
begin

text \<open>
  The vector utilities of \<^verbatim>\<open>src/basis/utilities/utils.hpp\<close>: offsets from sizes,
  permutations, removal of duplicates, and the merge sort over thread blocks.  Element types
  are any type with the order the C++ code compares by; \<open>zero\<close> stands for the
  value-initialised element \<^verbatim>\<open>Ttype{}\<close>.
\<close>

section \<open>Offsets\<close>

text \<open>\<^verbatim>\<open>sizesToOffsets\<close> returns the total and overwrites every size by its offset.\<close>

definition sizesToOffsets :: "nat list \<Rightarrow> nat \<times> nat list" where
  "sizesToOffsets sizes =
     fold (\<lambda>i (sum, sizes). (sum + sizes ! i, sizes[i := sum])) [0..<length sizes] (0, sizes)"

lemma sizesToOffsets_upto:
  "n \<le> length sizes \<Longrightarrow>
   fold (\<lambda>i (sum, sizes). (sum + sizes ! i, sizes[i := sum])) [0..<n] (0, sizes) =
     (psum sizes n, map (psum sizes) [0..<n] @ drop n sizes)"
proof (induction n)
  case (Suc n)
  have nth: "(map (psum sizes) [0..<n] @ drop n sizes) ! n = sizes ! n"
    using Suc.prems by (simp add: nth_append)
  have upd: "(map (psum sizes) [0..<n] @ drop n sizes)[n := psum sizes n] =
      map (psum sizes) [0..<n] @ psum sizes n # drop (Suc n) sizes"
    using Suc.prems by (simp add: list_update_append Cons_nth_drop_Suc[symmetric])
  have "n \<le> length sizes" using Suc.prems by simp
  note IH = Suc.IH[OF this]
  show ?case using Suc.prems by (simp add: IH nth upd psum_Suc)
qed simp

lemma sizesToOffsets_eq:
  "sizesToOffsets sizes = (sum_list sizes, map (psum sizes) [0..<length sizes])"
  using sizesToOffsets_upto[of "length sizes" sizes] by (simp add: sizesToOffsets_def)

text \<open>\<^verbatim>\<open>threadDistributionToFullDistribution(std::vector<std::vector<Ttype> >&)\<close>.\<close>

definition threadDistributionToFull :: "nat list list \<Rightarrow> nat list list" where
  "threadDistributionToFull dist =
     (let offsets = snd (sizesToOffsets (map (\<lambda>b. if b \<noteq> [] then last b else 0) dist))
      in map (\<lambda>t. map (\<lambda>x. x + offsets ! t) (dist ! t)) [0..<length dist])"

text \<open>\<^verbatim>\<open>threadDistributionToFullDistribution(std::vector<Ttype>&, const std::vector<size_t>&)\<close>.\<close>

definition threadDataToFull :: "nat list \<Rightarrow> nat list \<Rightarrow> nat list option" where
  "threadDataToFull data d = do {
     let threads = length d - 1;
     offsets \<leftarrow> for_each [0..<threads] (\<lambda>t offsets. do {
         a \<leftarrow> rd d t; b \<leftarrow> rd d (t + 1);
         if a \<noteq> b then do { x \<leftarrow> rd data b; wr offsets t x } else Some offsets
       }) (replicate (length d) 0);
     let offsets = snd (sizesToOffsets offsets);
     for_each [0..<threads] (\<lambda>t data. do {
         a \<leftarrow> rd d t; b \<leftarrow> rd d (t + 1); offset \<leftarrow> rd offsets t;
         for_each [a + 1..<b + 1] (\<lambda>i data. do { x \<leftarrow> rd data i; wr data i (x + offset) }) data
       }) data
   }"

text \<open>
  Every thread holds the running sums of its own sizes; afterwards every entry is the
  running sum over the sizes of all threads before it.
\<close>

definition running_sums :: "nat list \<Rightarrow> nat list" where
  "running_sums xs = map (\<lambda>i. psum xs (Suc i)) [0..<length xs]"

lemma last_running_sums: "(if running_sums xs \<noteq> [] then last (running_sums xs) else 0) = sum_list xs"
proof (cases xs rule: rev_cases)
  case Nil
  then show ?thesis by (simp add: running_sums_def)
next
  case (snoc ys y)
  have "psum xs (length xs) = sum_list xs" by (rule psum_length)
  then show ?thesis using snoc by (simp add: running_sums_def)
qed

lemma psum_append: "psum (xs @ ys) (length xs + i) = sum_list xs + psum ys i"
  by (simp add: psum_def)

lemma running_sums_append:
  "running_sums (xs @ ys) = running_sums xs @ map (\<lambda>x. x + sum_list xs) (running_sums ys)"
proof (rule nth_equalityI)
  show "length (running_sums (xs @ ys)) =
      length (running_sums xs @ map (\<lambda>x. x + sum_list xs) (running_sums ys))"
    by (simp add: running_sums_def)
  fix i assume "i < length (running_sums (xs @ ys))"
  then have i: "i < length xs + length ys" by (simp add: running_sums_def)
  show "running_sums (xs @ ys) ! i =
      (running_sums xs @ map (\<lambda>x. x + sum_list xs) (running_sums ys)) ! i"
  proof (cases "i < length xs")
    case True
    then show ?thesis by (simp add: running_sums_def nth_append psum_def del: upt_Suc)
  next
    case False
    then obtain j where j: "i = length xs + j" by (metis le_add_diff_inverse not_less)
    then show ?thesis using i psum_append[of xs ys "Suc j"]
      by (simp add: running_sums_def nth_append del: upt_Suc)
  qed
qed

lemma sum_list_concat_nat: "sum_list (concat xss) = sum_list (map sum_list (xss :: nat list list))"
  by (induction xss) auto

lemma concat_offset_running_sums:
  "concat (map (\<lambda>t. map (\<lambda>x. x + psum (map sum_list xss) t) (running_sums (xss ! t))) [0..<length xss])
     = running_sums (concat xss)"
proof (induction xss rule: rev_induct)
  case Nil
  then show ?case by (simp add: running_sums_def)
next
  case (snoc xs xss)
  let ?f = "\<lambda>xss t. map (\<lambda>x. x + psum (map sum_list xss) t) (running_sums (xss ! t))"
  have "map (?f (xss @ [xs])) [0..<length xss] = map (?f xss) [0..<length xss]"
    by (rule map_cong) (auto simp: nth_append psum_def)
  moreover have "?f (xss @ [xs]) (length xss) = map (\<lambda>x. x + sum_list (concat xss)) (running_sums xs)"
    by (simp add: psum_def sum_list_concat_nat)
  ultimately have "concat (map (?f (xss @ [xs])) [0..<length (xss @ [xs])]) =
      concat (map (?f xss) [0..<length xss]) @ map (\<lambda>x. x + sum_list (concat xss)) (running_sums xs)"
    by (simp only: length_append list.size upt_Suc_append le0 map_append concat_append
        add_0_right add_Suc_right list.map concat.simps append_Nil2)
  then show ?case using snoc.IH by (simp only: running_sums_append concat_append concat.simps append_Nil2)
qed

lemma threadDistributionToFull_running_sums:
  "concat (threadDistributionToFull (map running_sums xss)) = running_sums (concat xss)"
proof -
  have m: "map (\<lambda>b. if b \<noteq> [] then last b else 0) (map running_sums xss) = map sum_list xss"
    by (simp add: last_running_sums del: not_None_eq)
  have "threadDistributionToFull (map running_sums xss) =
      map (\<lambda>t. map (\<lambda>x. x + psum (map sum_list xss) t) (running_sums (xss ! t))) [0..<length xss]"
    unfolding threadDistributionToFull_def Let_def m sizesToOffsets_eq
    by (rule nth_equalityI) auto
  then show ?thesis by (simp only: concat_offset_running_sums)
qed

section \<open>Permutation\<close>

definition permute :: "'a \<Rightarrow> 'a list \<Rightarrow> nat list \<Rightarrow> nat \<Rightarrow> 'a list option" where
  "permute zero data permutation elementsize =
     for_each [0..<elementsize] (\<lambda>e.
       for_each [0..<length data div elementsize] (\<lambda>i res. do {
         p \<leftarrow> rd permutation i;
         v \<leftarrow> rd data (elementsize * p + e);
         wr res (elementsize * i + e) v
       })) (replicate (length data) zero)"

lemma block_index_lt: "i < m \<Longrightarrow> e < k \<Longrightarrow> k * i + e < k * (m :: nat)"
proof -
  assume "i < m" "e < k"
  then have "k * i + e < k * Suc i" by simp
  also have "\<dots> \<le> k * m" using \<open>i < m\<close> by (intro mult_le_mono2) simp
  finally show ?thesis .
qed

lemma block_index_inj:
  assumes "e < k" and "f < (k :: nat)"
  shows "k * i + e = k * j + f \<longleftrightarrow> i = j \<and> e = f"
proof
  assume eq: "k * i + e = k * j + f"
  have "(k * i + e) div k = i" "(k * j + f) div k = j" using assms by auto
  with eq have "i = j" by simp
  with eq show "i = j \<and> e = f" by simp
qed simp

lemma permute_nth:
  assumes "length data = k * m" and "m \<le> length perm" and "\<And>i. i < m \<Longrightarrow> perm ! i < m"
  shows "\<exists>res. permute zero data perm k = Some res \<and> length res = k * m \<and>
    (\<forall>i < m. \<forall>e < k. res ! (k * i + e) = data ! (k * (perm ! i) + e))"
proof (cases "k = 0")
  case True
  then show ?thesis using assms by (simp add: permute_def)
next
  case False
  let ?body = "\<lambda>e i res. rd perm i \<bind> (\<lambda>p. rd data (k * p + e) \<bind> (\<lambda>v. wr res (k * i + e) v))"
  let ?I = "\<lambda>e j (res :: 'a list). length res = k * m \<and> (\<forall>i < m. \<forall>f < k.
     f < e \<or> (f = e \<and> i < j) \<longrightarrow> res ! (k * i + f) = data ! (k * (perm ! i) + f))"
  have m: "length data div k = m" using assms(1) False by simp
  have "\<exists>res. for_each [0..<k] (\<lambda>e. for_each [0..<length data div k] (?body e))
      (replicate (length data) zero) = Some res \<and> ?I k 0 res"
  proof (rule for_each_upt[where I = "\<lambda>e. ?I e 0"])
    show "?I 0 0 (replicate (length data) zero)" using assms(1) by simp
    fix e res
    assume e: "e < k" and I: "?I e 0 res"
    have "\<exists>res'. for_each [0..<m] (?body e) res = Some res' \<and> ?I e m res'"
    proof (rule for_each_upt[where I = "?I e"])
      fix i res
      assume i: "i < m" and I: "?I e i res"
      have b: "k * (perm ! i) + e < length data" "k * i + e < length res"
        using block_index_lt assms i e I by auto
      show "\<exists>res'. ?body e i res = Some res' \<and> ?I e (Suc i) res'"
        using b i e I assms(2)
        by (auto simp: mem_simps nth_list_update block_index_inj less_Suc_eq)
    qed (use I in auto)
    then obtain res' where "for_each [0..<m] (?body e) res = Some res'" "?I e m res'" by blast
    then show "\<exists>res'. for_each [0..<length data div k] (?body e) res = Some res' \<and> ?I (Suc e) 0 res'"
      by (auto simp: m less_Suc_eq)
  qed simp
  then show ?thesis by (auto simp: permute_def)
qed

text \<open>
  The permuted vector is the concatenation of the element blocks in the order of the
  permutation; a permutation of all the elements keeps the multiset of values.
\<close>

lemma concat_uniform_nth:
  assumes "\<And>i. i < m \<Longrightarrow> length (f i) = k" and "i < m" and "e < k"
  shows "concat (map f [0..<m]) ! (k * i + e) = f i ! e"
proof -
  have *: "length (concat (map f [0..<j])) = k * j" if "j \<le> m" for j
    using that assms(1) by (induction j) auto
  have "length (concat (take i (map f [0..<m]))) = k * i"
    using *[of i] assms(2) by (simp add: take_map)
  then show ?thesis
    using concat_nth_block[of i "map f [0..<m]" e] assms by simp
qed

lemma permute_blocks:
  assumes "length data = k * m" and "m \<le> length perm" and "\<And>i. i < m \<Longrightarrow> perm ! i < m"
  shows "permute zero data perm k =
    Some (concat (map (\<lambda>p. vspan (k * p) (k * p + k) data) (take m perm)))"
proof -
  let ?f = "\<lambda>i. vspan (k * (perm ! i)) (k * (perm ! i) + k) data"
  obtain res where res: "permute zero data perm k = Some res" "length res = k * m"
    and nth: "\<And>i e. i < m \<Longrightarrow> e < k \<Longrightarrow> res ! (k * i + e) = data ! (k * (perm ! i) + e)"
    using permute_nth[OF assms] by blast
  have le: "k * (perm ! i) + k \<le> length data" if "i < m" for i
    using assms(1,3) that by (metis Suc_leI add.commute mult_Suc_right mult_le_mono2)
  have len: "length (concat (map ?f [0..<j])) = k * j" if "j \<le> m" for j
    using that le by (induction j) auto
  have "res = concat (map ?f [0..<m])"
  proof (rule nth_equalityI)
    fix x assume "x < length res"
    then have "x < k * m" using res by simp
    then have "0 < k" by (cases k) auto
    let ?i = "x div k" and ?e = "x mod k"
    have "?i < m" using \<open>x < k * m\<close> by (simp add: less_mult_imp_div_less mult.commute)
    moreover have "?e < k" using \<open>0 < k\<close> by simp
    moreover have "?f i ! e = data ! (k * (perm ! i) + e)" if "i < m" "e < k" for i e
      using le[OF that(1)] that(2) by (simp add: vspan_simps)
    ultimately have "res ! (k * ?i + ?e) = concat (map ?f [0..<m]) ! (k * ?i + ?e)"
      using concat_uniform_nth[of m ?f k ?i ?e] le nth[of ?i ?e] by (simp del: mult_div_mod_eq)
    then show "res ! x = concat (map ?f [0..<m]) ! x" by simp
  qed (use res len in simp)
  moreover have "map (\<lambda>p. vspan (k * p) (k * p + k) data) (take m perm) = map ?f [0..<m]"
    using assms(2) by (intro nth_equalityI) auto
  ultimately show ?thesis using res by simp
qed

lemma mset_concat_map: "mset xs = mset ys \<Longrightarrow> mset (concat (map f xs)) = mset (concat (map f ys))"
proof -
  assume eq: "mset xs = mset ys"
  have "mset (concat (map f zs)) = (\<Sum>z \<in># mset zs. mset (f z))" for zs
    by (induction zs) auto
  with eq show ?thesis by simp
qed

lemma permute_mset:
  assumes "length data = k * m" and "mset perm = mset [0..<m]"
  shows "\<exists>res. permute zero data perm k = Some res \<and> mset res = mset data"
proof -
  have len: "length perm = m" using mset_eq_length[OF assms(2)] by simp
  have "set perm = {0..<m}" using mset_eq_setD[OF assms(2)] by simp
  then have lt: "perm ! i < m" if "i < m" for i using len that nth_mem[of i perm] by auto
  let ?g = "\<lambda>p. vspan (k * p) (k * p + k) data"
  have perm: "mset (concat (map ?g perm)) = mset (concat (map ?g [0..<m]))"
    by (rule mset_concat_map[OF assms(2)])
  have pre: "concat (map ?g [0..<j]) = vspan 0 (k * j) data" if "j \<le> m" for j
    using that
  proof (induction j)
    case (Suc j)
    then show ?case using vspan_append_vspan[of 0 "k * j" "k * j + k" data] by (simp add: add.commute)
  qed simp
  have "concat (map ?g [0..<m]) = data" using pre[of m] assms(1) by (metis order_refl vspan_full)
  with perm have "mset (concat (map ?g perm)) = mset data" by simp
  then show ?thesis using permute_blocks[OF assms(1), of perm zero] len lt by auto
qed

section \<open>Removing duplicates\<close>

text \<open>\<^verbatim>\<open>std::vector::resize\<close> cuts the vector or pads it with value-initialised elements.\<close>

definition resize :: "'a \<Rightarrow> nat \<Rightarrow> 'a list \<Rightarrow> 'a list" where
  "resize zero n xs = take n xs @ replicate (n - length xs) zero"

lemma resize_shrink [simp]: "n \<le> length xs \<Longrightarrow> resize zero n xs = take n xs"
  by (simp add: resize_def)

definition removeDuplicity :: "'a \<Rightarrow> 'a list \<Rightarrow> nat \<Rightarrow> 'a list option" where
  "removeDuplicity zero data begin =
     (if length data = begin then Some data
      else do {
        (unique, data) \<leftarrow> for_each [begin + 1..<length data] (\<lambda>d (unique, data). do {
            u \<leftarrow> rd data unique;
            v \<leftarrow> rd data d;
            if u \<noteq> v then do { data \<leftarrow> wr data (unique + 1) v; Some (unique + 1, data) }
            else Some (unique, data)
          }) (begin, data);
        Some (resize zero (unique + 1) data)
      })"

lemma remdups_adj_snoc:
  "xs \<noteq> [] \<Longrightarrow> remdups_adj (xs @ [y]) = remdups_adj xs @ (if last xs = y then [] else [y])"
  by (induction xs rule: remdups_adj.induct) auto

lemma removeDuplicity_eq:
  assumes "begin \<le> length xs"
  shows "removeDuplicity zero xs begin = Some (take begin xs @ remdups_adj (drop begin xs))"
proof (cases "begin = length xs")
  case True
  then show ?thesis by (simp add: removeDuplicity_def)
next
  case False
  with assms have lt: "begin < length xs" by simp
  let ?body = "\<lambda>d (unique, data). do {
            u \<leftarrow> rd data unique; v \<leftarrow> rd data d;
            if u \<noteq> v then do { data \<leftarrow> wr data (unique + 1) v; Some (unique + 1, data) }
            else Some (unique, data) }"
  let ?I = "\<lambda>d (unique, data). length data = length xs \<and> begin \<le> unique \<and> unique < d \<and>
     take (Suc unique) data = take begin xs @ remdups_adj (vspan begin d xs) \<and>
     (\<forall>i. d \<le> i \<longrightarrow> i < length xs \<longrightarrow> data ! i = xs ! i)"
  have "\<exists>t. for_each [begin + 1..<length xs] ?body (begin, xs) = Some t \<and> ?I (length xs) t"
  proof (rule for_each_upt[where I = ?I])
    show "begin + 1 \<le> length xs" using lt by simp
    have "vspan begin (Suc begin) xs = [xs ! begin]"
      using lt by (simp add: vspan_def take_Suc_conv_app_nth)
    then show "?I (begin + 1) (begin, xs)" using lt by (simp add: take_Suc_conv_app_nth)
    fix d and s :: "nat \<times> 'a list"
    assume d: "begin + 1 \<le> d" "d < length xs" and I: "?I d s"
    obtain u data where s: "s = (u, data)" by (cases s)
    note I = I[unfolded s prod.case]
    have snoc: "vspan begin (Suc d) xs = vspan begin d xs @ [xs ! d]"
      using d by (simp add: vspan_conv_map_nth)
    have ne: "vspan begin d xs \<noteq> []" using d by (simp add: vspan_def)
    have "last (take (Suc u) data) = data ! u"
    proof -
      have "u < length data" using I d by simp
      then show ?thesis by (simp add: take_Suc_conv_app_nth)
    qed
    moreover have "last (take (Suc u) data) = last (vspan begin d xs)" using I ne by simp
    ultimately have last: "last (vspan begin d xs) = data ! u" by simp
    have dd: "data ! d = xs ! d" "u < length data" "Suc u < length data" using I d by auto
    show "\<exists>t. ?body d s = Some t \<and> ?I (Suc d) t"
    proof (cases "data ! u = xs ! d")
      case True
      then show ?thesis using I d dd last ne snoc
        by (auto simp: s mem_simps remdups_adj_snoc)
    next
      case False
      have "take (Suc (Suc u)) (data[Suc u := xs ! d]) = take (Suc u) data @ [xs ! d]"
        using dd by (simp add: take_Suc_conv_app_nth)
      then show ?thesis using I d dd last ne snoc False
        by (auto simp: s mem_simps remdups_adj_snoc nth_list_update)
    qed
  qed
  then obtain u data where e: "for_each [begin + 1..<length xs] ?body (begin, xs) = Some (u, data)"
    and I: "length data = length xs" "u < length xs"
      "take (Suc u) data = take begin xs @ remdups_adj (vspan begin (length xs) xs)" by auto
  have "vspan begin (length xs) xs = drop begin xs" by (simp add: vspan_def)
  with e I False show ?thesis by (simp add: removeDuplicity_def)
qed

definition sortAndRemoveDuplicity :: "'a::linorder \<Rightarrow> 'a list \<Rightarrow> nat \<Rightarrow> 'a list option" where
  "sortAndRemoveDuplicity zero data begin =
     (if begin \<le> length data
      then removeDuplicity zero (take begin data @ sort (drop begin data)) begin else None)"

definition sortAndRemoveDuplicity_all :: "'a::linorder \<Rightarrow> 'a list list \<Rightarrow> 'a list list option" where
  "sortAndRemoveDuplicity_all zero data =
     for_each [0..<length data] (\<lambda>n data. do {
       v \<leftarrow> rd data n; v \<leftarrow> sortAndRemoveDuplicity zero v 0; wr data n v }) data"

lemma distinct_remdups_adj_sorted: "sorted xs \<Longrightarrow> distinct (remdups_adj xs)"
  by (induction xs rule: remdups_adj.induct) auto

lemma remdups_adj_sort: "remdups_adj (sort xs) = sorted_list_of_set (set xs)"
proof (rule sorted_distinct_set_unique)
  show "sorted (remdups_adj (sort xs))" by (rule sorted_remdups_adj) simp
  show "distinct (remdups_adj (sort xs))" by (rule distinct_remdups_adj_sorted) simp
qed auto

lemma sortAndRemoveDuplicity_eq:
  "begin \<le> length xs \<Longrightarrow> sortAndRemoveDuplicity zero xs begin =
     Some (take begin xs @ sorted_list_of_set (set (drop begin xs)))"
  by (simp add: sortAndRemoveDuplicity_def removeDuplicity_eq remdups_adj_sort)

section \<open>Properties\<close>

text \<open>
  \<^verbatim>\<open>permute\<close> moves whole elements of any size: for data of \<open>m\<close> elements of \<open>k\<close> entries
  and a permutation of \<open>0..<m\<close>, the result is the element blocks in the order of the
  permutation, and nothing is lost or duplicated.
\<close>

theorem permute_correct:
  assumes "length data = k * m" and "mset perm = mset [0..<m]"
  shows "\<exists>res. permute zero data perm k = Some res \<and> mset res = mset data \<and>
    res = concat (map (\<lambda>p. take k (drop (k * p) data)) perm)"
proof -
  have "length perm = m" using mset_eq_length[OF assms(2)] by simp
  moreover have "set perm = {0..<m}" using mset_eq_setD[OF assms(2)] by simp
  ultimately have "perm ! i < m" if "i < m" for i using that nth_mem[of i perm] by auto
  then show ?thesis
    using permute_blocks[OF assms(1), of perm zero] permute_mset[OF assms, of zero] \<open>length perm = m\<close>
    by (auto simp: vspan_def)
qed

theorem permute_correct_witness:
  "\<exists>res. permute (0 :: nat) [10, 11, 20, 21, 30, 31] [2, 0, 1] 2 = Some res \<and>
    mset res = mset [10, 11, 20, 21, 30, 31] \<and>
    res = concat (map (\<lambda>p. take 2 (drop (2 * p) [10, 11, 20, 21, 30, 31])) [2, 0, 1])"
  by (rule permute_correct[where m = 3]) (simp_all add: numeral_3_eq_3)

text \<open>
  \<^verbatim>\<open>removeDuplicity\<close> collapses runs of equal neighbours behind \<open>begin\<close>, and
  \<^verbatim>\<open>sortAndRemoveDuplicity\<close> turns the tail behind \<open>begin\<close> into the ascending list of its
  distinct values; both leave the head alone and never read or write out of range.
\<close>

theorem removeDuplicity_correct:
  assumes "begin \<le> length xs"
  shows "removeDuplicity zero xs begin = Some (take begin xs @ remdups_adj (drop begin xs)) \<and>
    (\<exists>ys. sortAndRemoveDuplicity zero xs begin = Some (take begin xs @ ys) \<and>
       sorted ys \<and> distinct ys \<and> set ys = set (drop begin xs))"
  using assms by (simp add: removeDuplicity_eq sortAndRemoveDuplicity_eq)

theorem removeDuplicity_correct_witness:
  "removeDuplicity 0 [9 :: nat, 3, 3, 1, 3] 1 = Some (take 1 [9, 3, 3, 1, 3] @ remdups_adj (drop 1 [9, 3, 3, 1, 3])) \<and>
    (\<exists>ys. sortAndRemoveDuplicity 0 [9 :: nat, 3, 3, 1, 3] 1 = Some (take 1 [9, 3, 3, 1, 3] @ ys) \<and>
       sorted ys \<and> distinct ys \<and> set ys = set (drop 1 [9, 3, 3, 1, 3]))"
  by (rule removeDuplicity_correct) simp

text \<open>
  \<^verbatim>\<open>threadDistributionToFullDistribution\<close>: when every thread holds the running sums of
  its own sizes, the adjusted vectors are, one after the other, the running sums of all sizes;
  \<^verbatim>\<open>sizesToOffsets\<close> turns sizes into exclusive prefix sums and returns the total.
\<close>

theorem offsets_correct:
  "concat (threadDistributionToFull (map running_sums xss)) = running_sums (concat xss) \<and>
   sizesToOffsets sizes = (sum_list sizes, map (\<lambda>i. sum_list (take i sizes)) [0..<length sizes])"
  by (simp add: threadDistributionToFull_running_sums sizesToOffsets_eq psum_def)

end
