(* ===== verification/Merging.thy ===== *)
theory Merging
  imports Esutils
begin

text \<open>
  The parallel merge sort of \<^verbatim>\<open>src/basis/utilities/utils.hpp\<close>: thread blocks are sorted on
  their own and then merged pairwise, level by level, over a vector of borders padded to a
  power of two.  \<^verbatim>\<open>std::inplace_merge\<close> demands two sorted neighbouring ranges; the model
  returns \<open>None\<close> where that is violated, so a result \<open>Some\<close> includes the precondition.
\<close>

section \<open>Merging two neighbouring ranges\<close>

fun std_merge :: "'a::linorder list \<Rightarrow> 'a list \<Rightarrow> 'a list" where
  "std_merge [] ys = ys"
| "std_merge xs [] = xs"
| "std_merge (x # xs) (y # ys) =
     (if y < x then y # std_merge (x # xs) ys else x # std_merge xs (y # ys))"

definition inplace_merge :: "nat \<Rightarrow> nat \<Rightarrow> nat \<Rightarrow> 'a::linorder list \<Rightarrow> 'a list option" where
  "inplace_merge a m b xs =
     (if a \<le> m \<and> m \<le> b \<and> b \<le> length xs \<and> sorted (vspan a m xs) \<and> sorted (vspan m b xs)
      then Some (take a xs @ std_merge (vspan a m xs) (vspan m b xs) @ drop b xs) else None)"

lemma mset_std_merge [simp]: "mset (std_merge xs ys) = mset xs + mset ys"
  by (induction xs ys rule: std_merge.induct) auto

lemma set_std_merge [simp]: "set (std_merge xs ys) = set xs \<union> set ys"
  using mset_std_merge[of xs ys] by (metis set_mset_mset set_mset_union)

lemma length_std_merge [simp]: "length (std_merge xs ys) = length xs + length ys"
  using mset_std_merge[of xs ys] by (metis size_mset size_union)

lemma sorted_std_merge: "sorted xs \<Longrightarrow> sorted ys \<Longrightarrow> sorted (std_merge xs ys)"
  by (induction xs ys rule: std_merge.induct) auto

text \<open>What one merge does: the merged range is sorted, all else is unchanged.\<close>

definition range_update :: "nat \<Rightarrow> nat \<Rightarrow> 'a list \<Rightarrow> 'a list \<Rightarrow> bool" where
  "range_update a b xs ys \<longleftrightarrow> length ys = length xs \<and> take a ys = take a xs \<and>
     drop b ys = drop b xs \<and> mset (vspan a b ys) = mset (vspan a b xs)"

lemma inplace_merge_Some:
  assumes "a \<le> m" "m \<le> b" "b \<le> length xs" "sorted (vspan a m xs)" "sorted (vspan m b xs)"
  shows "\<exists>ys. inplace_merge a m b xs = Some ys \<and> range_update a b xs ys \<and> sorted (vspan a b ys)"
proof -
  let ?ms = "std_merge (vspan a m xs) (vspan m b xs)"
  let ?ys = "take a xs @ ?ms @ drop b xs"
  have len: "length ?ms = b - a" using assms by simp
  have "vspan a b ?ys = ?ms"
    using assms len by (simp add: vspan_def)
  moreover have "mset ?ms = mset (vspan a b xs)"
    using vspan_append_vspan[OF assms(1,2), of xs] by (metis mset_append mset_std_merge)
  moreover have "sorted ?ms" using assms(4,5) by (rule sorted_std_merge)
  moreover have "length ?ys = length xs" using assms len by simp
  moreover have "take a ?ys = take a xs" "drop b ?ys = drop b xs" using assms len by simp_all
  ultimately show ?thesis using assms by (auto simp: inplace_merge_def range_update_def)
qed

lemma range_update_mset:
  assumes "range_update a b xs ys" and "a \<le> b"
  shows "mset ys = mset xs"
proof -
  have split: "zs = take a zs @ vspan a b zs @ drop b zs" for zs :: "'a list"
    using assms(2) by (simp add: vspan_def) (metis append_take_drop_id drop_drop le_add_diff_inverse2)
  show ?thesis using assms(1) split[of xs] split[of ys] unfolding range_update_def
    by (metis mset_append)
qed

lemma range_update_before:
  assumes "range_update a b xs ys" and "d \<le> a"
  shows "vspan c d ys = vspan c d xs"
proof -
  have "vspan c d zs = vspan c d (take a zs)" for zs :: "'a list"
    using assms(2) by (simp add: vspan_def drop_take min_def)
  then show ?thesis using assms(1) unfolding range_update_def by metis
qed

lemma range_update_after:
  assumes "range_update a b xs ys" and "b \<le> c"
  shows "vspan c d ys = vspan c d xs"
proof -
  have "vspan c d zs = take (d - c) (drop (c - b) (drop b zs))" for zs :: "'a list"
    using assms(2) by (simp add: vspan_def)
  then show ?thesis using assms(1) unfolding range_update_def by metis
qed

section \<open>The merge tree\<close>

text \<open>\<^verbatim>\<open>while (align < distribution.size()) align = align << 1;\<close>\<close>

function align_to :: "nat \<Rightarrow> nat \<Rightarrow> nat" where
  "align_to n align = (if 0 < align \<and> align < n then align_to n (2 * align) else align)"
  by pat_completeness auto
termination
  by (relation "measure (\<lambda>(n, align). n - align)") auto

declare align_to.simps [simp del]

text \<open>One level: \<^verbatim>\<open>align / i\<close> merges, one per group of \<open>i\<close> borders; \<open>sched\<close> is the order in
  which the parallel loop runs them.\<close>

definition merge_level ::
  "nat list \<Rightarrow> nat list \<Rightarrow> nat \<Rightarrow> 'a::linorder list \<Rightarrow> 'a list option" where
  "merge_level sched d i data =
     for_each sched (\<lambda>t data. do {
       a \<leftarrow> rd d (i * t);
       m \<leftarrow> rd d (i * t + i div 2);
       b \<leftarrow> rd d (i * t + i);
       inplace_merge a m b data
     }) data"

function merge_levels :: "nat list \<Rightarrow> nat \<Rightarrow> nat \<Rightarrow> 'a::linorder list \<Rightarrow> 'a list option" where
  "merge_levels d align i data =
     (if 0 < i \<and> i \<le> align
      then merge_level [0..<align div i] d i data \<bind> merge_levels d align (i * 2)
      else Some data)"
  by pat_completeness auto
termination
  by (relation "measure (\<lambda>(d, align, i, data). Suc align - i)") auto

declare merge_levels.simps [simp del]

definition inplaceMerge :: "'a::linorder list \<Rightarrow> nat list \<Rightarrow> 'a list option" where
  "inplaceMerge data distribution =
     (if distribution = [] then None
      else let n = length distribution - 1;
               align = align_to (length distribution) 1;
               d = distribution @ replicate (align - n) (last distribution)
           in merge_levels d align 2 data)"

lemma align_to_power: "\<exists>k. align_to n (2 ^ j) = 2 ^ k \<and> j \<le> k \<and> n \<le> 2 ^ k"
proof (induction "n - 2 ^ j" arbitrary: j rule: less_induct)
  case less
  show ?case
  proof (cases "2 ^ j < n")
    case True
    then have "n - 2 ^ Suc j < n - 2 ^ j" by (simp add: diff_less_mono2)
    from less[OF this] obtain k where "align_to n (2 ^ Suc j) = 2 ^ k" "Suc j \<le> k" "n \<le> 2 ^ k" by auto
    then show ?thesis using True by (subst align_to.simps) auto
  next
    case False
    then show ?thesis by (subst align_to.simps) auto
  qed
qed

section \<open>Correctness of the merge tree\<close>

lemma range_update_refl: "range_update a b xs xs"
  by (simp add: range_update_def)

lemma range_update_trans: "range_update a b xs ys \<Longrightarrow> range_update a b ys zs \<Longrightarrow> range_update a b xs zs"
  by (simp add: range_update_def)

lemma range_update_widen:
  assumes u: "range_update c d xs ys" and "a \<le> c" "c \<le> d" "d \<le> b"
  shows "range_update a b xs ys"
proof -
  have split: "vspan a b zs = vspan a c zs @ vspan c d zs @ vspan d b zs" for zs :: "'a list"
    using assms(2-4) vspan_append_vspan[of a c b zs] vspan_append_vspan[of c d b zs] by simp
  have "mset (vspan a b ys) = mset (vspan a b xs)"
    using u range_update_before[OF u order_refl, of a] range_update_after[OF u order_refl, of b]
    unfolding split by (simp add: range_update_def)
  moreover have "take a ys = take a xs"
    using u assms(2) unfolding range_update_def by (metis min.absorb1 take_take)
  moreover have "drop b ys = drop b xs"
    using u assms(4) unfolding range_update_def by (metis drop_drop le_add_diff_inverse2)
  ultimately show ?thesis using u by (simp add: range_update_def)
qed

lemma sorted_vspan_sub:
  assumes "sorted (vspan a b xs)" and "a \<le> c" "c \<le> d" "d \<le> b"
  shows "sorted (vspan c d xs)"
proof -
  have "vspan a b xs = vspan a c xs @ vspan c d xs @ vspan d b xs"
    using assms(2-4) vspan_append_vspan[of a c b xs] vspan_append_vspan[of c d b xs] by simp
  then show ?thesis using assms(1) by (simp add: sorted_append)
qed

lemma merge_level_correct:
  assumes D: "sorted D" "length D = Suc (i * G)" "D ! (i * G) \<le> length xs"
    and i: "i = 2 * h" and sched: "set sched = {..<G}"
    and halves: "\<And>s. s < 2 * G \<Longrightarrow> sorted (vspan (D ! (h * s)) (D ! (h * s + h)) xs)"
  shows "\<exists>ys. merge_level sched D i xs = Some ys \<and> range_update (D ! 0) (D ! (i * G)) xs ys \<and>
    (\<forall>t < G. sorted (vspan (D ! (i * t)) (D ! (i * t + i)) ys))"
proof -
  let ?body = "\<lambda>t data. do { a \<leftarrow> rd D (i * t); m \<leftarrow> rd D (i * t + i div 2);
       b \<leftarrow> rd D (i * t + i); inplace_merge a m b data }"
  let ?I = "\<lambda>done ys. range_update (D ! 0) (D ! (i * G)) xs ys \<and>
     (\<forall>t < G. sorted (vspan (D ! (i * t)) (D ! (i * t + h)) ys) \<and>
              sorted (vspan (D ! (i * t + h)) (D ! (i * t + i)) ys)) \<and>
     (\<forall>t \<in> set done. sorted (vspan (D ! (i * t)) (D ! (i * t + i)) ys))"
  have le: "i * t + i \<le> i * G" if "t < G" for t
    using that by (metis Suc_leI add.commute mult_Suc_right mult_le_mono2)
  have mono: "D ! p \<le> D ! q" if "p \<le> q" "q \<le> i * G" for p q
    using that D(1,2) by (simp add: sorted_nth_mono)
  have "\<exists>ys. for_each sched ?body xs = Some ys \<and> ?I sched ys"
  proof (rule for_each_list[where I = ?I])
    have "sorted (vspan (D ! (i * t)) (D ! (i * t + h)) xs) \<and>
          sorted (vspan (D ! (i * t + h)) (D ! (i * t + i)) xs)" if "t < G" for t
      using halves[of "2 * t"] halves[of "2 * t + 1"] that by (simp add: i algebra_simps)
    then show "?I [] xs" by (simp add: range_update_refl)
    fix dn t rest ys
    assume sp: "sched = dn @ t # rest" and I: "?I dn ys"
    have t: "t < G" using sched sp by auto
    have b: "i * t \<le> i * t + h" "i * t + h \<le> i * t + i" "i * t + i \<le> i * G"
      using le[OF t] i by auto
    have len: "D ! (i * t + i) \<le> length ys"
      using mono[OF b(3)] D(3) I by (simp add: range_update_def)
    from inplace_merge_Some[of "D ! (i * t)" "D ! (i * t + h)" "D ! (i * t + i)" ys]
    obtain zs where zs: "inplace_merge (D ! (i * t)) (D ! (i * t + h)) (D ! (i * t + i)) ys = Some zs"
      and ru: "range_update (D ! (i * t)) (D ! (i * t + i)) ys zs"
      and sorted: "sorted (vspan (D ! (i * t)) (D ! (i * t + i)) zs)"
      using mono b len I t by auto
    have "?body t ys = Some zs" using zs b D(2) i by (simp add: mem_simps)
    moreover have "range_update (D ! 0) (D ! (i * G)) xs zs"
    proof -
      have "range_update (D ! 0) (D ! (i * G)) ys zs"
        by (rule range_update_widen[OF ru])
          (use mono[of 0 "i * t"] mono[of "i * t" "i * t + i"] mono[of "i * t + i" "i * G"] b t in auto)
      then show ?thesis using I range_update_trans by blast
    qed
    moreover have same: "vspan (D ! p) (D ! q) zs = vspan (D ! p) (D ! q) ys"
      if "u \<noteq> t" "u < G" "i * u \<le> p" "p \<le> q" "q \<le> i * u + i" for u p q
    proof (cases "u < t")
      case True
      then have "i * u + i \<le> i * t" by (metis Suc_leI add.commute mult_Suc_right mult_le_mono2)
      then show ?thesis using that b by (intro range_update_before[OF ru] mono) linarith+
    next
      case False
      then have "i * t + i \<le> i * u" using that(1)
        by (metis Suc_leI add.commute mult_Suc_right mult_le_mono2 nat_neq_iff)
      then show ?thesis using that b le[OF that(2)]
        by (intro range_update_after[OF ru] mono) linarith+
    qed
    moreover have "sorted (vspan (D ! (i * t)) (D ! (i * t + h)) zs)"
      "sorted (vspan (D ! (i * t + h)) (D ! (i * t + i)) zs)"
      by (rule sorted_vspan_sub[OF sorted]; use b mono in auto)+
    moreover have "sorted (vspan (D ! (i * u)) (D ! (i * u + h)) zs) \<and>
              sorted (vspan (D ! (i * u + h)) (D ! (i * u + i)) zs)" if "u < G" "u \<noteq> t" for u
      using same[OF that(2,1)] I that i by simp
    moreover have "sorted (vspan (D ! (i * u)) (D ! (i * u + i)) zs)" if "u \<in> set (dn @ [t])" for u
    proof (cases "u = t")
      case False
      then have "u < G" "u \<in> set dn" using that sched sp by auto
      then show ?thesis using same[OF False] I by simp
    qed (use sorted in simp)
    moreover have "sorted (vspan (D ! (i * u)) (D ! (i * u + h)) zs) \<and>
              sorted (vspan (D ! (i * u + h)) (D ! (i * u + i)) zs)" if "u < G" for u
      using that calculation(4-6) by (cases "u = t") auto
    ultimately show "\<exists>zs. ?body t ys = Some zs \<and> ?I (dn @ [t]) zs"
      by (intro exI[of _ zs]) blast
  qed
  then show ?thesis using sched by (auto simp: merge_level_def)
qed

lemma merge_levels_correct:
  assumes D: "sorted D" "length D = Suc (2 ^ K)" "D ! (2 ^ K) \<le> length xs" and "l \<le> K"
    and "\<And>t. t < 2 ^ (K - l) \<Longrightarrow> sorted (vspan (D ! (2 ^ l * t)) (D ! (2 ^ l * t + 2 ^ l)) xs)"
  shows "\<exists>ys. merge_levels D (2 ^ K) (2 ^ Suc l) xs = Some ys \<and>
    range_update (D ! 0) (D ! (2 ^ K)) xs ys \<and> sorted (vspan (D ! 0) (D ! (2 ^ K)) ys)"
  using assms(3-)
proof (induction "K - l" arbitrary: l xs)
  case 0
  then have "l = K" by simp
  then show ?case using "0.prems"(3)[of 0]
    by (subst merge_levels.simps) (auto simp: range_update_refl)
next
  case (Suc n)
  then have lK: "l < K" by simp
  let ?G = "2 ^ (K - Suc l) :: nat"
  have iG: "2 ^ Suc l * ?G = (2 ^ K :: nat)"
    using lK by (metis Suc_leI le_add_diff_inverse power_add)
  have GG: "2 * ?G = (2 ^ (K - l) :: nat)"
    using lK by (metis Suc_diff_Suc power_Suc)
  have "\<exists>ys. merge_level [0..<?G] D (2 ^ Suc l) xs = Some ys \<and>
      range_update (D ! 0) (D ! (2 ^ Suc l * ?G)) xs ys \<and>
      (\<forall>t < ?G. sorted (vspan (D ! (2 ^ Suc l * t)) (D ! (2 ^ Suc l * t + 2 ^ Suc l)) ys))"
    by (rule merge_level_correct[where h = "2 ^ l"])
      (use D Suc.prems iG GG in \<open>auto simp: atLeast0LessThan simp del: power_Suc simp: power_Suc[of 2 l]\<close>)
  then obtain ys where ys: "merge_level [0..<?G] D (2 ^ Suc l) xs = Some ys"
    "range_update (D ! 0) (D ! (2 ^ K)) xs ys"
    "\<And>t. t < ?G \<Longrightarrow> sorted (vspan (D ! (2 ^ Suc l * t)) (D ! (2 ^ Suc l * t + 2 ^ Suc l)) ys)"
    unfolding iG by blast
  have "length ys = length xs" using ys(2) by (simp add: range_update_def)
  moreover have "n = K - Suc l" using Suc.hyps(2) by simp
  ultimately obtain zs where zs: "merge_levels D (2 ^ K) (2 ^ Suc (Suc l)) ys = Some zs"
    "range_update (D ! 0) (D ! (2 ^ K)) ys zs" "sorted (vspan (D ! 0) (D ! (2 ^ K)) zs)"
    using Suc.hyps(1)[of "Suc l" ys] Suc.prems(1) lK ys(3) by (auto simp del: power_Suc)
  have "(2 :: nat) ^ K div 2 ^ Suc l = ?G"
    using iG by (metis nonzero_mult_div_cancel_left power_not_zero zero_neq_numeral)
  moreover have "(2 :: nat) ^ Suc l \<le> 2 ^ K" using lK by (intro power_increasing) auto
  ultimately have "merge_levels D (2 ^ K) (2 ^ Suc l) xs = Some zs"
    using ys(1) zs(1) by (subst merge_levels.simps) (simp add: mult.commute)
  then show ?case using range_update_trans[OF ys(2) zs(2)] zs(3) by blast
qed

text \<open>Padding a sorted border vector with its last entry keeps it sorted.\<close>

lemma sorted_pad: "sorted d \<Longrightarrow> d \<noteq> [] \<Longrightarrow> sorted (d @ replicate n (last d))"
  by (cases d rule: rev_cases) (auto simp: sorted_append)

lemma inplaceMerge_range:
  assumes "sorted d" "d \<noteq> []" "last d \<le> length xs"
    and blocks: "\<And>t. Suc t < length d \<Longrightarrow> sorted (vspan (d ! t) (d ! Suc t) xs)"
  shows "\<exists>ys. inplaceMerge xs d = Some ys \<and> range_update (hd d) (last d) xs ys \<and>
    sorted (vspan (hd d) (last d) ys)"
proof -
  obtain K where K: "align_to (length d) (2 ^ 0) = 2 ^ K" "length d \<le> 2 ^ K"
    using align_to_power[of "length d" 0] by blast
  let ?D = "d @ replicate (2 ^ K - (length d - 1)) (last d)"
  have len: "length ?D = Suc (2 ^ K)" using assms(2) K(2) by (cases d) auto
  have nth: "?D ! t = (if t < length d then d ! t else last d)" if "t \<le> 2 ^ K" for t
    using that len by (auto simp: nth_append)
  have K_last: "?D ! (2 ^ K) = last d" using nth[of "2 ^ K"] K(2) by simp
  have blk: "sorted (vspan (?D ! t) (?D ! Suc t) xs)" if "t < 2 ^ K" for t
  proof (cases "Suc t < length d")
    case True
    then show ?thesis using that nth[of t] nth[of "Suc t"] blocks[of t] by simp
  next
    case False
    then have "t = length d - 1 \<or> length d \<le> t" by auto
    then have "?D ! t = last d" using that nth[of t] assms(2) by (auto simp: last_conv_nth)
    moreover have "?D ! Suc t = last d" using that nth[of "Suc t"] False by simp
    ultimately show ?thesis by simp
  qed
  have "\<exists>ys. merge_levels ?D (2 ^ K) (2 ^ Suc 0) xs = Some ys \<and>
    range_update (?D ! 0) (?D ! (2 ^ K)) xs ys \<and> sorted (vspan (?D ! 0) (?D ! (2 ^ K)) ys)"
    by (rule merge_levels_correct[OF sorted_pad[OF assms(1,2)] len])
      (use assms(3) K_last blk in auto)
  moreover have "?D ! 0 = hd d" using assms(2) by (simp add: nth_append hd_conv_nth)
  moreover have "inplaceMerge xs d = merge_levels ?D (2 ^ K) (2 ^ Suc 0) xs"
    using assms(2) K by (simp add: inplaceMerge_def Let_def)
  ultimately show ?thesis by (simp only: K_last)
qed

lemma inplaceMerge_sorts:
  assumes "is_distribution d k (length xs)"
    and "\<And>t. t < k \<Longrightarrow> sorted (vspan (d ! t) (d ! Suc t) xs)"
  shows "inplaceMerge xs d = Some (sort xs)"
proof -
  have len: "length d = Suc k" "d \<noteq> []" using assms(1) by (auto simp: is_distribution_def)
  then have d: "sorted d" "hd d = 0" "last d = length xs"
    using assms(1) by (auto simp: is_distribution_def hd_conv_nth last_conv_nth)
  obtain ys where "inplaceMerge xs d = Some ys" "range_update 0 (length xs) xs ys"
    "sorted (vspan 0 (length xs) ys)"
    using inplaceMerge_range[of d xs] d len assms(2) by auto
  moreover from this(2) have "mset ys = mset xs" by (rule range_update_mset) simp
  moreover from calculation(2) have "length ys = length xs" by (simp add: range_update_def)
  ultimately show ?thesis by (metis properties_for_sort vspan_full)
qed

section \<open>The sorts built on it\<close>

definition sort_range :: "nat \<Rightarrow> nat \<Rightarrow> 'a::linorder list \<Rightarrow> 'a list option" where
  "sort_range a b xs =
     (if a \<le> b \<and> b \<le> length xs then Some (take a xs @ sort (vspan a b xs) @ drop b xs) else None)"

definition sortWithInplaceMerge :: "'a::linorder list \<Rightarrow> nat list \<Rightarrow> 'a list option" where
  "sortWithInplaceMerge data d =
     for_each [0..<length d - 1] (\<lambda>t data. do { a \<leftarrow> rd d t; b \<leftarrow> rd d (t + 1); sort_range a b data }) data
     \<bind> (\<lambda>data. inplaceMerge data d)"

text \<open>
  The versions over a vector of vectors collect everything in \<^verbatim>\<open>data[0]\<close> and remember the
  borders; the other vectors keep their content.
\<close>

definition collect_first :: "'a list list \<Rightarrow> ('a list \<times> nat list) option" where
  "collect_first data = do {
     v0 \<leftarrow> rd data 0;
     for_each [1..<length data] (\<lambda>t (v, d). do {
       w \<leftarrow> rd data t;
       Some (v @ w, d @ [length v + length w])
     }) (v0, [0, length v0])
   }"

definition inplaceMerge_all :: "'a::linorder list list \<Rightarrow> 'a list list option" where
  "inplaceMerge_all data = do {
     (v, d) \<leftarrow> collect_first data;
     v \<leftarrow> inplaceMerge v d;
     wr data 0 v }"

definition sortWithInplaceMerge_all :: "'a::linorder list list \<Rightarrow> 'a list list option" where
  "sortWithInplaceMerge_all data = do {
     (v, d) \<leftarrow> collect_first data;
     v \<leftarrow> sortWithInplaceMerge v d;
     wr data 0 v }"

definition sortWithUniqueMerge :: "'a::linorder \<Rightarrow> 'a list list \<Rightarrow> 'a list list option" where
  "sortWithUniqueMerge zero data = do {
     data \<leftarrow> sortAndRemoveDuplicity_all zero data;
     (v, d) \<leftarrow> collect_first data;
     v \<leftarrow> inplaceMerge v d;
     v \<leftarrow> sortAndRemoveDuplicity zero v 0;
     wr data 0 v }"

definition mergeThreadedUniqueData :: "'a::linorder \<Rightarrow> 'a list list \<Rightarrow> 'a list list option" where
  "mergeThreadedUniqueData zero data = do {
     (v, d) \<leftarrow> collect_first data;
     v \<leftarrow> sortAndRemoveDuplicity zero v 0;
     wr data 0 v }"

definition mergeAppendedData :: "'a::linorder list \<Rightarrow> nat list \<Rightarrow> 'a list option" where
  "mergeAppendedData data distribution =
     (if length distribution < 2 then None
      else let d = tl distribution;
               align = align_to (length d) 1;
               d = d @ replicate (align + 2 - length distribution) (last d)
           in merge_levels d align 2 data \<bind> (\<lambda>data. inplace_merge 0 (hd d) (last d) data))"

lemma sort_range_update:
  assumes "a \<le> b" "b \<le> length xs"
  shows "\<exists>ys. sort_range a b xs = Some ys \<and> range_update a b xs ys \<and> sorted (vspan a b ys)"
proof -
  let ?ys = "take a xs @ sort (vspan a b xs) @ drop b xs"
  have "vspan a b ?ys = sort (vspan a b xs)" using assms by (simp add: vspan_def)
  then show ?thesis using assms by (auto simp: sort_range_def range_update_def)
qed

lemma sortWithInplaceMerge_sorts:
  assumes d: "is_distribution d k (length xs)"
  shows "sortWithInplaceMerge xs d = Some (sort xs)"
proof -
  let ?body = "\<lambda>t data. do { a \<leftarrow> rd d t; b \<leftarrow> rd d (t + 1); sort_range a b data }"
  let ?I = "\<lambda>n ys. length ys = length xs \<and> mset ys = mset xs \<and>
    (\<forall>t < n. sorted (vspan (d ! t) (d ! Suc t) ys))"
  have len: "length d = Suc k" using d by (simp add: is_distribution_def)
  have "\<exists>ys. for_each [0..<k] ?body xs = Some ys \<and> ?I k ys"
  proof (rule for_each_upt[where I = ?I])
    fix n ys assume n: "n < k" and I: "?I n ys"
    have b: "d ! n \<le> d ! Suc n" "d ! Suc n \<le> length ys"
      using is_distribution_mono[OF d, of n "Suc n"] is_distribution_le[OF d, of "Suc n"] n I by auto
    obtain zs where zs: "sort_range (d ! n) (d ! Suc n) ys = Some zs"
      "range_update (d ! n) (d ! Suc n) ys zs" "sorted (vspan (d ! n) (d ! Suc n) zs)"
      using sort_range_update[OF b] by blast
    have "sorted (vspan (d ! t) (d ! Suc t) zs)" if "t < n" for t
      using I that n range_update_before[OF zs(2), of "d ! Suc t"]
        is_distribution_mono[OF d, of "Suc t" n] by simp
    moreover have "length zs = length xs" "mset zs = mset xs"
      using I zs(2) range_update_mset[OF zs(2) b(1)] by (auto simp: range_update_def)
    moreover have "?body n ys = Some zs" using zs(1) n len by (simp add: mem_simps)
    ultimately show "\<exists>zs. ?body n ys = Some zs \<and> ?I (Suc n) zs"
      using zs(3) by (auto simp: less_Suc_eq)
  qed auto
  then obtain ys where ys: "for_each [0..<k] ?body xs = Some ys" "?I k ys" by blast
  have "inplaceMerge ys d = Some (sort ys)"
    by (rule inplaceMerge_sorts[where k = k]) (use d ys in auto)
  moreover have "sort ys = sort xs"
    using ys(2) by (metis properties_for_sort mset_sort sorted_sort)
  ultimately show ?thesis using ys(1) len by (simp add: sortWithInplaceMerge_def)
qed

lemma inplace_merge_id:
  "b \<le> length xs \<Longrightarrow> sorted (vspan 0 b xs) \<Longrightarrow> vspan 0 b xs = take b xs"
  by (simp add: vspan_def)

lemma block_borders_append:
  "block_borders s (xs @ [x]) = block_borders s xs @ [s + length (concat xs) + length x]"
  by (induction xs arbitrary: s) auto

lemma collect_first_eq:
  assumes "data \<noteq> []"
  shows "collect_first data = Some (concat data, block_borders 0 data)"
proof -
  have len: "0 < length data" using assms by simp
  let ?body = "\<lambda>t (v, d). do { w \<leftarrow> rd data t; Some (v @ w, d @ [length v + length w]) }"
  let ?I = "\<lambda>t s. s = (concat (take t data), block_borders 0 (take t data))"
  have "\<exists>s. for_each [1..<length data] ?body (data ! 0, [0, length (data ! 0)]) = Some s \<and> ?I (length data) s"
  proof (rule for_each_upt[where I = ?I])
    show "1 \<le> length data" using len by linarith
  qed (use len in \<open>auto simp: mem_simps take_Suc_conv_app_nth block_borders_append\<close>)
  then show ?thesis using len by (auto simp: collect_first_def mem_simps)
qed

lemma sorted_concat_blocks:
  assumes "\<And>v. v \<in> set data \<Longrightarrow> sorted v" and "t < length data"
  shows "sorted (vspan (block_borders 0 data ! t) (block_borders 0 data ! Suc t) (concat data))"
proof -
  have b: "block_borders 0 data ! Suc t = block_borders 0 data ! t + length (data ! t)"
    using assms(2) by (simp add: block_borders_nth take_Suc_conv_app_nth)
  have "vspan (block_borders 0 data ! t) (block_borders 0 data ! Suc t) (concat data) = data ! t"
  proof (rule nth_equalityI)
    have "block_borders 0 data ! Suc t \<le> length (concat data)"
      using is_distribution_le[OF is_distribution_block_borders, of "Suc t" data] assms(2) by simp
    then show len: "length (vspan (block_borders 0 data ! t) (block_borders 0 data ! Suc t) (concat data)) =
        length (data ! t)" by (simp add: b)
    fix i assume "i < length (vspan (block_borders 0 data ! t) (block_borders 0 data ! Suc t) (concat data))"
    then have i: "i < length (data ! t)" using len by simp
    then show "vspan (block_borders 0 data ! t) (block_borders 0 data ! Suc t) (concat data) ! i = data ! t ! i"
      using concat_nth_block[OF assms(2) i] assms(2)
        is_distribution_le[OF is_distribution_block_borders, of "Suc t" data]
      by (simp add: vspan_simps b block_borders_nth)
  qed
  then show ?thesis using assms by simp
qed

lemma inplaceMerge_all_sorts:
  assumes "data \<noteq> []" and "\<And>v. v \<in> set data \<Longrightarrow> sorted v"
  shows "inplaceMerge_all data = Some (data[0 := sort (concat data)])"
  using inplaceMerge_sorts[OF is_distribution_block_borders, of data]
    sorted_concat_blocks[OF assms(2)] assms(1)
  by (simp add: inplaceMerge_all_def collect_first_eq mem_simps)

lemma sortWithInplaceMerge_all_sorts:
  assumes "data \<noteq> []"
  shows "sortWithInplaceMerge_all data = Some (data[0 := sort (concat data)])"
  using sortWithInplaceMerge_sorts[OF is_distribution_block_borders, of data] assms
  by (simp add: sortWithInplaceMerge_all_def collect_first_eq mem_simps)

lemma mergeThreadedUniqueData_eq:
  assumes "data \<noteq> []"
  shows "mergeThreadedUniqueData zero data = Some (data[0 := sorted_list_of_set (\<Union> (set ` set data))])"
  using assms by (simp add: mergeThreadedUniqueData_def collect_first_eq mem_simps sortAndRemoveDuplicity_eq)

lemma sortAndRemoveDuplicity_all_eq:
  "sortAndRemoveDuplicity_all zero data = Some (map (\<lambda>v. sorted_list_of_set (set v)) data)"
proof -
  let ?f = "\<lambda>v. sorted_list_of_set (set v)"
  let ?I = "\<lambda>n ys. ys = map ?f (take n data) @ drop n data"
  let ?body = "\<lambda>n data. do { v \<leftarrow> rd data n; v \<leftarrow> sortAndRemoveDuplicity zero v 0; wr data n v }"
  have "\<exists>ys. for_each [0..<length data] ?body data = Some ys \<and> ?I (length data) ys"
  proof (rule for_each_upt[where I = ?I])
    fix n ys assume n: "n < length data" and I: "?I n ys"
    have "ys ! n = data ! n" using I n by (simp add: nth_append)
    moreover have "ys[n := ?f (data ! n)] = map ?f (take (Suc n) data) @ drop (Suc n) data"
      using I n by (simp add: list_update_append take_Suc_conv_app_nth Cons_nth_drop_Suc[symmetric])
    ultimately show "\<exists>ys'. ?body n ys = Some ys' \<and> ?I (Suc n) ys'"
      using I n by (simp add: mem_simps sortAndRemoveDuplicity_eq)
  qed auto
  then show ?thesis by (simp add: sortAndRemoveDuplicity_all_def)
qed

lemma sortWithUniqueMerge_eq:
  assumes "data \<noteq> []"
  shows "sortWithUniqueMerge zero data = Some ((map (\<lambda>v. sorted_list_of_set (set v)) data)
    [0 := sorted_list_of_set (\<Union> (set ` set data))])"
proof -
  let ?m = "map (\<lambda>v. sorted_list_of_set (set v)) data"
  have "inplaceMerge (concat ?m) (block_borders 0 ?m) = Some (sort (concat ?m))"
  proof (rule inplaceMerge_sorts[OF is_distribution_block_borders])
    have "sorted v" if "v \<in> set ?m" for v using that by auto
    then show "sorted (vspan (block_borders 0 ?m ! t) (block_borders 0 ?m ! Suc t) (concat ?m))"
      if "t < length ?m" for t using that by (rule sorted_concat_blocks)
  qed
  moreover have "set (concat ?m) = \<Union> (set ` set data)" by auto
  ultimately show ?thesis using assms
    by (simp add: sortWithUniqueMerge_def sortAndRemoveDuplicity_all_eq collect_first_eq mem_simps
        sortAndRemoveDuplicity_eq del: set_concat set_map)
qed

lemma mergeAppendedData_sorts:
  assumes "sorted (tl d)" "2 \<le> length d" "last d = length xs"
    and "sorted (vspan 0 (d ! 1) xs)"
    and "\<And>t. Suc (Suc t) < length d \<Longrightarrow> sorted (vspan (d ! Suc t) (d ! Suc (Suc t)) xs)"
  shows "mergeAppendedData xs d = Some (sort xs)"
proof -
  let ?d = "tl d"
  have "0 < length ?d" using assms(2) by simp
  then have ne: "?d \<noteq> []" "length ?d = length d - 1" by force+
  then have lst: "last ?d = length xs" using assms(3) by (simp add: last_tl)
  have "hd ?d \<le> last ?d" using assms(1) ne(1) by (cases ?d) simp_all
  obtain ys where ys: "inplaceMerge xs ?d = Some ys" "range_update (hd ?d) (last ?d) xs ys"
    "sorted (vspan (hd ?d) (last ?d) ys)"
    using inplaceMerge_range[OF assms(1) ne(1), of xs] assms(5) lst ne(2)
    by (auto simp: nth_tl)
  have len: "length ys = length xs" using ys(2) by (simp add: range_update_def)
  have "d ! 1 = hd ?d" using assms(2) ne(1) by (simp add: hd_conv_nth nth_tl)
  then have "sorted (vspan 0 (hd ?d) ys)"
    using range_update_before[OF ys(2), of "hd ?d" 0] assms(4) by simp
  then obtain zs where zs: "inplace_merge 0 (hd ?d) (last ?d) ys = Some zs"
    "range_update 0 (last ?d) ys zs" "sorted (vspan 0 (last ?d) zs)"
    using inplace_merge_Some[of 0 "hd ?d" "last ?d" ys] ys(3) \<open>hd ?d \<le> last ?d\<close> lst len by auto
  have "mset zs = mset xs"
    using range_update_mset[OF ys(2) \<open>hd ?d \<le> last ?d\<close>] range_update_mset[OF zs(2)] by simp
  moreover have "sorted zs"
  proof -
    have "length zs = last ?d" using zs(2) lst len by (simp add: range_update_def)
    then show ?thesis using zs(3) by (metis vspan_full)
  qed
  ultimately have "zs = sort xs" by (metis properties_for_sort)
  moreover have "mergeAppendedData xs d = inplaceMerge xs ?d \<bind> inplace_merge 0 (hd ?d) (last ?d)"
  proof -
    obtain K where "align_to (length ?d) (2 ^ 0) = 2 ^ K" "length ?d \<le> 2 ^ K"
      using align_to_power by blast
    then show ?thesis using assms(2) ne
      by (simp add: mergeAppendedData_def inplaceMerge_def Let_def Suc_diff_le eval_nat_numeral)
  qed
  ultimately show ?thesis using ys(1) zs(1) by simp
qed

section \<open>Properties\<close>

text \<open>
  C1: The threaded merge sort sorts: for borders that cut the data into any number of blocks
  (a power of two or not, blocks may be empty), every \<^verbatim>\<open>std::sort\<close> and every
  \<^verbatim>\<open>std::inplace_merge\<close> is called on ranges inside the data that are sorted as required, and
  the result is the sorted data.
\<close>

theorem sortWithInplaceMerge_correct:
  assumes "is_distribution d k (length xs)"
  shows "sortWithInplaceMerge xs d = Some (sort xs)"
  by (rule sortWithInplaceMerge_sorts[OF assms])

theorem sortWithInplaceMerge_correct_witness:
  "sortWithInplaceMerge [5 :: nat, 1, 4, 4, 2, 9, 0] [0, 2, 2, 5, 7] = Some (sort [5, 1, 4, 4, 2, 9, 0])"
  by (rule sortWithInplaceMerge_correct[where k = 4]) (simp add: is_distribution_def)

text \<open>
  Per-thread vectors are merged into the first one: \<^verbatim>\<open>sortWithUniqueMerge\<close> leaves there the
  ascending distinct values of all threads and in every other vector its own ascending distinct
  values, \<^verbatim>\<open>sortWithInplaceMerge\<close> and, for sorted vectors, \<^verbatim>\<open>inplaceMerge\<close> leave the sorted
  concatenation.
\<close>

theorem threaded_merges_correct:
  assumes "data \<noteq> []"
  shows "(\<exists>first rest. sortWithUniqueMerge zero data = Some (first # rest) \<and>
      first = sorted_list_of_set (\<Union> (set ` set data)) \<and>
      rest = map (\<lambda>v. sorted_list_of_set (set v)) (tl data)) \<and>
    sortWithInplaceMerge_all data = Some (sort (concat data) # tl data) \<and>
    ((\<exists>v \<in> set data. \<not> sorted v) \<or> inplaceMerge_all data = Some (sort (concat data) # tl data)) \<and>
    mergeThreadedUniqueData zero data = Some (sorted_list_of_set (\<Union> (set ` set data)) # tl data)"
  using sortWithUniqueMerge_eq[OF assms] sortWithInplaceMerge_all_sorts[OF assms]
    inplaceMerge_all_sorts[OF assms] mergeThreadedUniqueData_eq[OF assms] assms
  by (cases data) auto

theorem threaded_merges_correct_witness:
  "(\<exists>first rest. sortWithUniqueMerge 0 [[3 :: nat, 1, 3], [], [2, 1]] = Some (first # rest) \<and>
      first = sorted_list_of_set (\<Union> (set ` set [[3, 1, 3], [], [2, 1]])) \<and>
      rest = map (\<lambda>v. sorted_list_of_set (set v)) (tl [[3, 1, 3], [], [2, 1]])) \<and>
    sortWithInplaceMerge_all [[3 :: nat, 1, 3], [], [2, 1]] =
      Some (sort (concat [[3, 1, 3], [], [2, 1]]) # tl [[3, 1, 3], [], [2, 1]]) \<and>
    ((\<exists>v \<in> set [[3 :: nat, 1, 3], [], [2, 1]]. \<not> sorted v) \<or>
      inplaceMerge_all [[3 :: nat, 1, 3], [], [2, 1]] = Some (sort (concat [[3, 1, 3], [], [2, 1]]) # tl [[3, 1, 3], [], [2, 1]])) \<and>
    mergeThreadedUniqueData 0 [[3 :: nat, 1, 3], [], [2, 1]] =
      Some (sorted_list_of_set (\<Union> (set ` set [[3, 1, 3], [], [2, 1]])) # tl [[3, 1, 3], [], [2, 1]])"
  by (rule threaded_merges_correct) simp

text \<open>
  \<^verbatim>\<open>mergeAppendedData\<close>: a sorted head and sorted appended blocks are merged into one
  sorted vector.
\<close>

theorem mergeAppendedData_correct:
  assumes "sorted (tl d)" "2 \<le> length d" "last d = length xs"
    and "sorted (vspan 0 (d ! 1) xs)"
    and "\<And>t. Suc (Suc t) < length d \<Longrightarrow> sorted (vspan (d ! Suc t) (d ! Suc (Suc t)) xs)"
  shows "mergeAppendedData xs d = Some (sort xs)"
  by (rule mergeAppendedData_sorts[OF assms])

theorem mergeAppendedData_correct_witness:
  "mergeAppendedData [2 :: nat, 5, 1, 7, 3] [0, 2, 4, 5] = Some (sort [2, 5, 1, 7, 3])"
  by (rule mergeAppendedData_correct)
    (auto simp: vspan_def nth_Cons less_Suc_eq numeral_eq_Suc split: nat.splits)

end
