(* ===== verification/Hilbert.thy ===== *)
theory Hilbert
  imports Prelude
begin

unbundle bit_operations_syntax

text \<open>
  The Hilbert curve of \<^verbatim>\<open>src/input/sfc/hilbertcurve.cpp\<close>, on 64-bit words as in the code:
  the encoding loops leave garbage above the current bit (the reflections \<^verbatim>\<open>n - 1 - x\<close> wrap
  around below zero) and only the lower bits are right.  The decoding loops double \<^verbatim>\<open>s\<close>
  until it reaches \<^verbatim>\<open>n\<close>, which is never for a large \<^verbatim>\<open>n\<close> that is no power of two, so
  they are partial.  The curve itself is the recursion over the number of levels in the
  second part; the loops are proved equal to it.
\<close>

type_synonym u64 = "64 word"

section \<open>The loops of the code\<close>

definition rotateD2 :: "u64 \<Rightarrow> u64 \<Rightarrow> u64 \<Rightarrow> u64 \<Rightarrow> u64 \<Rightarrow> u64 \<times> u64" where
  "rotateD2 n x y rx ry =
     (if ry = 0 then
        (let (x, y) = (if rx = 1 then (n - 1 - x, n - 1 - y) else (x, y)) in (y, x))
      else (x, y))"

definition rotateD3 ::
  "u64 \<Rightarrow> u64 \<Rightarrow> u64 \<Rightarrow> u64 \<Rightarrow> u64 \<Rightarrow> u64 \<Rightarrow> u64 \<Rightarrow> u64 \<times> u64 \<times> u64" where
  "rotateD3 n x y z rx ry rz =
     (if rz = 0 then
        (if rx = 1 then
           (let (x, z) = (z, x) in (n - 1 - x, y, n - 1 - z))
         else
           (let (y, z) = (if ry = 1 then (n - 1 - y, n - 1 - z) else (y, z)) in (x, z, y)))
      else
        (let (x, y) = (y, x) in
         if ry = 1 then (n - 1 - x, n - 1 - y, z) else (x, y, z)))"

lemma unat_half_less: "0 < s \<Longrightarrow> unat (s div 2) < unat (s :: u64)"
  by (simp add: unat_div unat_gt_0)

function D2toD1_loop :: "u64 \<Rightarrow> u64 \<Rightarrow> u64 \<Rightarrow> u64 \<Rightarrow> u64" where
  "D2toD1_loop s x y d =
     (if 0 < s then
        let rx = of_bool (0 < x AND s);
            ry = of_bool (0 < y AND s);
            d = d + s * s * ((3 * rx) XOR ry);
            (x, y) = rotateD2 s x y rx ry
        in D2toD1_loop (s div 2) x y d
      else d)"
  by pat_completeness auto
termination
  by (relation "measure (\<lambda>(s, x, y, d). unat s)") (auto simp: unat_half_less)

definition D2toD1 :: "u64 \<Rightarrow> u64 \<Rightarrow> u64 \<Rightarrow> u64" where
  "D2toD1 n x y = D2toD1_loop (n div 2) x y 0"

function D3toD1_loop :: "u64 \<Rightarrow> u64 \<Rightarrow> u64 \<Rightarrow> u64 \<Rightarrow> u64 \<Rightarrow> u64" where
  "D3toD1_loop s x y z d =
     (if 0 < s then
        let rx = of_bool (0 < x AND s);
            ry = of_bool (0 < y AND s);
            rz = of_bool (0 < z AND s);
            d = d + s * s * s * (4 * ry + ((3 * (ry XOR rx)) XOR rz));
            (x, y, z) = rotateD3 s x y z rx ry rz
        in D3toD1_loop (s div 2) x y z d
      else d)"
  by pat_completeness auto
termination
  by (relation "measure (\<lambda>(s, x, y, z, d). unat s)") (auto simp: unat_half_less)

definition D3toD1 :: "u64 \<Rightarrow> u64 \<Rightarrow> u64 \<Rightarrow> u64 \<Rightarrow> u64" where
  "D3toD1 n x y z = D3toD1_loop (n div 2) x y z 0"

partial_function (option) D1toD2_loop ::
  "u64 \<Rightarrow> u64 \<Rightarrow> u64 \<Rightarrow> u64 \<Rightarrow> u64 \<Rightarrow> (u64 \<times> u64) option" where
  "D1toD2_loop n s t x y =
     (if s < n then
        let rx = 1 AND (t div 2);
            ry = 1 AND (t XOR rx);
            (x, y) = rotateD2 s x y rx ry
        in D1toD2_loop n (s * 2) (t div 4) (x + s * rx) (y + s * ry)
      else Some (x, y))"

definition D1toD2 :: "u64 \<Rightarrow> u64 \<Rightarrow> (u64 \<times> u64) option" where
  "D1toD2 n d = D1toD2_loop n 1 d 0 0"

partial_function (option) D1toD3_loop ::
  "u64 \<Rightarrow> u64 \<Rightarrow> u64 \<Rightarrow> u64 \<Rightarrow> u64 \<Rightarrow> u64 \<Rightarrow> (u64 \<times> u64 \<times> u64) option" where
  "D1toD3_loop n s t x y z =
     (if s < n then
        let rx = (1 AND (t div 4)) XOR (1 AND (t div 2));
            ry = 1 AND (t div 4);
            rz = (1 AND (t div 2)) XOR (1 AND t);
            (x, y, z) = rotateD3 s x y z rx ry rz
        in D1toD3_loop n (s * 2) (t div 8) (x + s * rx) (y + s * ry) (z + s * rz)
      else Some (x, y, z))"

definition D1toD3 :: "u64 \<Rightarrow> u64 \<Rightarrow> (u64 \<times> u64 \<times> u64) option" where
  "D1toD3 n d = D1toD3_loop n 1 d 0 0 0"

declare D2toD1_loop.simps [simp del] D3toD1_loop.simps [simp del]

declare D1toD2_loop.simps [code] D1toD3_loop.simps [code]

section \<open>The curve as a recursion over levels\<close>

text \<open>The bits that a digit of the index contributes to the coordinates, and back.\<close>

definition rx2 :: "nat \<Rightarrow> nat" where "rx2 q = q div 2 mod 2"
definition ry2 :: "nat \<Rightarrow> nat" where "ry2 q = (q + q div 2) mod 2"
definition quad2 :: "nat \<Rightarrow> nat \<Rightarrow> nat" where "quad2 rx ry = (if rx = 1 then 3 - ry else ry)"

definition rx3 :: "nat \<Rightarrow> nat" where "rx3 q = (q div 4 + q div 2) mod 2"
definition ry3 :: "nat \<Rightarrow> nat" where "ry3 q = q div 4 mod 2"
definition rz3 :: "nat \<Rightarrow> nat" where "rz3 q = (q div 2 + q) mod 2"
definition oct3 :: "nat \<Rightarrow> nat \<Rightarrow> nat \<Rightarrow> nat" where
  "oct3 rx ry rz = 4 * ry + (if rx \<noteq> ry then 3 - rz else rz)"

definition rot2 :: "nat \<Rightarrow> nat \<Rightarrow> nat \<Rightarrow> nat \<times> nat \<Rightarrow> nat \<times> nat" where
  "rot2 s rx ry p = (case p of (x, y) \<Rightarrow>
     if ry = 0 then (if rx = 1 then (s - 1 - y, s - 1 - x) else (y, x)) else (x, y))"

definition rot3 :: "nat \<Rightarrow> nat \<Rightarrow> nat \<Rightarrow> nat \<Rightarrow> nat \<times> nat \<times> nat \<Rightarrow> nat \<times> nat \<times> nat" where
  "rot3 s rx ry rz p = (case p of (x, y, z) \<Rightarrow>
     if rz = 0 then
       (if rx = 1 then (s - 1 - z, y, s - 1 - x)
        else if ry = 1 then (x, s - 1 - z, s - 1 - y) else (x, z, y))
     else (if ry = 1 then (s - 1 - y, s - 1 - x, z) else (y, x, z)))"

text \<open>
  \<open>place2 s q\<close> puts a curve of side \<open>s\<close> into quadrant \<open>q\<close> of the next level,
  \<open>place3\<close> into an octant.
\<close>

definition place2 :: "nat \<Rightarrow> nat \<Rightarrow> nat \<times> nat \<Rightarrow> nat \<times> nat" where
  "place2 s q p = (case rot2 s (rx2 q) (ry2 q) p of (x, y) \<Rightarrow> (x + s * rx2 q, y + s * ry2 q))"

definition place3 :: "nat \<Rightarrow> nat \<Rightarrow> nat \<times> nat \<times> nat \<Rightarrow> nat \<times> nat \<times> nat" where
  "place3 s q p = (case rot3 s (rx3 q) (ry3 q) (rz3 q) p of (x, y, z) \<Rightarrow>
     (x + s * rx3 q, y + s * ry3 q, z + s * rz3 q))"

primrec curve2 :: "nat \<Rightarrow> nat \<Rightarrow> nat \<times> nat" where
  "curve2 0 d = (0, 0)"
| "curve2 (Suc k) d = place2 (2 ^ k) (d div 4 ^ k) (curve2 k d)"

primrec index2 :: "nat \<Rightarrow> nat \<times> nat \<Rightarrow> nat" where
  "index2 0 p = 0"
| "index2 (Suc k) p =
     (let rx = fst p div 2 ^ k mod 2; ry = snd p div 2 ^ k mod 2
      in 4 ^ k * quad2 rx ry + index2 k (rot2 (2 ^ k) rx ry (fst p mod 2 ^ k, snd p mod 2 ^ k)))"

primrec curve3 :: "nat \<Rightarrow> nat \<Rightarrow> nat \<times> nat \<times> nat" where
  "curve3 0 d = (0, 0, 0)"
| "curve3 (Suc k) d = place3 (2 ^ k) (d div 8 ^ k) (curve3 k d)"

primrec index3 :: "nat \<Rightarrow> nat \<times> nat \<times> nat \<Rightarrow> nat" where
  "index3 0 p = 0"
| "index3 (Suc k) p = (case p of (x, y, z) \<Rightarrow>
     let rx = x div 2 ^ k mod 2; ry = y div 2 ^ k mod 2; rz = z div 2 ^ k mod 2
     in 8 ^ k * oct3 rx ry rz +
        index3 k (rot3 (2 ^ k) rx ry rz (x mod 2 ^ k, y mod 2 ^ k, z mod 2 ^ k)))"

lemmas digit_defs = rx2_def ry2_def quad2_def rx3_def ry3_def rz3_def oct3_def

lemma digits_less [simp]:
  "rx2 q < 2" "ry2 q < 2" "rx3 q < 2" "ry3 q < 2" "rz3 q < 2"
  by (simp_all add: digit_defs)

lemma digits2_add: "rx2 (4 * c + q) = rx2 q" "ry2 (4 * c + q) = ry2 q"
proof -
  have d: "(4 * c + q) div 2 = 2 * c + q div 2" by simp
  show "rx2 (4 * c + q) = rx2 q" unfolding rx2_def d by simp
  have "(4 * c + a + (2 * c + b)) mod 2 = (a + b) mod 2" for a b :: nat by presburger
  then show "ry2 (4 * c + q) = ry2 q" unfolding ry2_def d .
qed

lemma digits3_add:
  "rx3 (8 * c + q) = rx3 q" "ry3 (8 * c + q) = ry3 q" "rz3 (8 * c + q) = rz3 q"
proof -
  have d: "(8 * c + q) div 4 = 2 * c + q div 4" "(8 * c + q) div 2 = 4 * c + q div 2" by simp_all
  have "(2 * c + a + (4 * c + b)) mod 2 = (a + b) mod 2" for a b :: nat by presburger
  then show "rx3 (8 * c + q) = rx3 q" unfolding rx3_def d .
  show "ry3 (8 * c + q) = ry3 q" unfolding ry3_def d by simp
  have "(4 * c + a + (8 * c + b)) mod 2 = (a + b) mod 2" for a b :: nat by presburger
  then show "rz3 (8 * c + q) = rz3 q" unfolding rz3_def d .
qed

lemma digits_mod:
  "a mod 4 = b mod 4 \<Longrightarrow> rx2 a = rx2 b" "a mod 4 = b mod 4 \<Longrightarrow> ry2 a = ry2 b"
  "a mod 8 = b mod 8 \<Longrightarrow> rx3 a = rx3 b" "a mod 8 = b mod 8 \<Longrightarrow> ry3 a = ry3 b"
  "a mod 8 = b mod 8 \<Longrightarrow> rz3 a = rz3 b"
  by (metis digits2_add digits3_add mult_div_mod_eq)+

lemma less_2_cases: "b < (2 :: nat) \<Longrightarrow> b = 0 \<or> b = 1"
  by auto

lemma less_4_cases: "q < (4 :: nat) \<Longrightarrow> q = 0 \<or> q = 1 \<or> q = 2 \<or> q = 3"
  by auto

lemma less_8_cases:
  "q < (8 :: nat) \<Longrightarrow> q = 0 \<or> q = 1 \<or> q = 2 \<or> q = 3 \<or> q = 4 \<or> q = 5 \<or> q = 6 \<or> q = 7"
  by auto

lemma quad2_digits: "q < 4 \<Longrightarrow> quad2 (rx2 q) (ry2 q) = q"
  by (drule less_4_cases) (auto simp: digit_defs)

lemma digits_quad2: "a < 2 \<Longrightarrow> b < 2 \<Longrightarrow> rx2 (quad2 a b) = a \<and> ry2 (quad2 a b) = b \<and> quad2 a b < 4"
  by (drule less_2_cases, drule less_2_cases) (auto simp: digit_defs)

lemma oct3_digits: "q < 8 \<Longrightarrow> oct3 (rx3 q) (ry3 q) (rz3 q) = q"
  by (drule less_8_cases) (auto simp: digit_defs)

lemma digits_oct3:
  "a < 2 \<Longrightarrow> b < 2 \<Longrightarrow> c < 2 \<Longrightarrow>
   rx3 (oct3 a b c) = a \<and> ry3 (oct3 a b c) = b \<and> rz3 (oct3 a b c) = c \<and> oct3 a b c < 8"
  by (drule less_2_cases, drule less_2_cases, drule less_2_cases) (auto simp: digit_defs)

text \<open>The rotations stay inside the square or cube, and are their own inverses.\<close>

definition in2 :: "nat \<Rightarrow> nat \<times> nat \<Rightarrow> bool" where
  "in2 s p \<longleftrightarrow> fst p < s \<and> snd p < s"

definition in3 :: "nat \<Rightarrow> nat \<times> nat \<times> nat \<Rightarrow> bool" where
  "in3 s p \<longleftrightarrow> fst p < s \<and> fst (snd p) < s \<and> snd (snd p) < s"

lemma rot2_in: "in2 s p \<Longrightarrow> in2 s (rot2 s rx ry p)"
  by (cases p) (auto simp: rot2_def in2_def)

lemma rot2_involution: "in2 s p \<Longrightarrow> rot2 s rx ry (rot2 s rx ry p) = p"
  by (cases p) (auto simp: rot2_def in2_def)

lemma rot3_in: "in3 s p \<Longrightarrow> in3 s (rot3 s rx ry rz p)"
  by (cases p) (auto simp: rot3_def in3_def)

lemma rot3_involution: "in3 s p \<Longrightarrow> rot3 s rx ry rz (rot3 s rx ry rz p) = p"
  by (cases p) (auto simp: rot3_def in3_def)

text \<open>One binary digit put on top of a smaller number.\<close>

lemma digit_top:
  assumes "x < s" and "b < (2 :: nat)"
  shows "x + s * b < 2 * s" and "(x + s * b) div s = b" and "(x + s * b) mod s = x"
  using less_2_cases[OF assms(2)] assms(1) by auto

lemma mod_power_Suc: "d mod b ^ Suc k = b ^ k * (d div b ^ k mod b) + d mod (b ^ k :: nat)"
  using mod_mult2_eq[of d "b ^ k" b] by (simp add: mult.commute)

lemma div_power_mod: "0 < b \<Longrightarrow> d mod b ^ Suc k div b ^ k = d div b ^ k mod (b :: nat)"
  unfolding mod_power_Suc by simp

lemma digit_of_mod:
  assumes "0 < b" "j < k" shows "d mod b ^ k div b ^ j mod b = d div b ^ j mod (b :: nat)"
proof -
  have "b ^ Suc j dvd b ^ k" using assms(2) by (intro le_imp_power_dvd) simp
  then have "d mod b ^ k mod b ^ Suc j = d mod b ^ Suc j" by (rule mod_mod_cancel)
  then show ?thesis using div_power_mod[OF assms(1)] by metis
qed

section \<open>Facts about the two-dimensional curve\<close>

lemma place2_in: "in2 s p \<Longrightarrow> in2 (2 * s) (place2 s q p)"
  using rot2_in[of s p "rx2 q" "ry2 q"]
  by (auto simp: place2_def in2_def digit_top split: prod.splits)

lemma curve2_in: "in2 (2 ^ k) (curve2 k d)"
proof (induction k)
  case 0
  then show ?case by (simp add: in2_def)
next
  case (Suc k)
  then show ?case using place2_in by simp
qed

lemma place2_mod: "a mod 4 = b mod 4 \<Longrightarrow> place2 s a p = place2 s b p"
  by (simp add: place2_def digits_mod[of a b])

lemma curve2_mod: "curve2 k (d mod 4 ^ k) = curve2 k d"
proof -
  have "curve2 j (d mod 4 ^ k) = curve2 j d" if "j \<le> k" for j
    using that
  proof (induction j)
    case (Suc j)
    then have "d mod 4 ^ k div 4 ^ j mod 4 = d div 4 ^ j mod 4" by (intro digit_of_mod) auto
    from place2_mod[OF this] show ?case using Suc by simp
  qed simp
  then show ?thesis by simp
qed

lemma curve2_digit:
  assumes "r < 4 ^ k" shows "curve2 (Suc k) (4 ^ k * q + r) = place2 (2 ^ k) q (curve2 k r)"
proof -
  have "(4 ^ k * q + r) div 4 ^ k = q" "(4 ^ k * q + r) mod 4 ^ k = r" using assms by simp_all
  moreover from this(2) have "curve2 k (4 ^ k * q + r) = curve2 k r"
    using curve2_mod[of k "4 ^ k * q + r"] by metis
  ultimately show ?thesis by (simp only: curve2.simps)
qed

lemma index2_place2:
  assumes "in2 (2 ^ k) p" "q < 4"
  shows "index2 (Suc k) (place2 (2 ^ k) q p) = 4 ^ k * q + index2 k p"
proof -
  obtain x y where xy: "rot2 (2 ^ k) (rx2 q) (ry2 q) p = (x, y)" by fastforce
  then have b: "x < 2 ^ k" "y < 2 ^ k" using rot2_in[OF assms(1), of "rx2 q" "ry2 q"] by (auto simp: in2_def)
  have "rot2 (2 ^ k) (rx2 q) (ry2 q) (x, y) = p" using rot2_involution[OF assms(1)] xy by metis
  then show ?thesis
    using digit_top[OF b(1), of "rx2 q"] digit_top[OF b(2), of "ry2 q"] quad2_digits[OF assms(2)]
    by (simp add: place2_def xy Let_def)
qed

lemma index2_curve2: "d < 4 ^ k \<Longrightarrow> index2 k (curve2 k d) = d"
proof (induction k arbitrary: d)
  case (Suc k)
  let ?q = "d div 4 ^ k" and ?r = "d mod 4 ^ k"
  have "?q < 4" using Suc.prems by (simp add: less_mult_imp_div_less)
  then have "index2 (Suc k) (place2 (2 ^ k) ?q (curve2 k ?r)) = 4 ^ k * ?q + ?r"
    using index2_place2[OF curve2_in] Suc.IH[of ?r] by simp
  moreover have "curve2 (Suc k) (4 ^ k * ?q + ?r) = place2 (2 ^ k) ?q (curve2 k ?r)"
    by (rule curve2_digit) simp
  ultimately show ?case by simp
qed simp

lemma digit_below: "i < (s :: nat) \<Longrightarrow> q < b \<Longrightarrow> s * q + i < b * s"
proof -
  assume "i < s" "q < b"
  then have "s * q + i < s * Suc q" by simp
  also have "\<dots> \<le> s * b" using \<open>q < b\<close> by (intro mult_le_mono2) simp
  finally show ?thesis by (simp add: mult.commute)
qed

lemma index2_less: "index2 k p < 4 ^ k"
proof (induction k arbitrary: p)
  case (Suc k)
  let ?rx = "fst p div 2 ^ k mod 2" and ?ry = "snd p div 2 ^ k mod 2"
  have "quad2 ?rx ?ry < 4" using digits_quad2[of ?rx ?ry] by simp
  then show ?case using digit_below[OF Suc] by (simp only: index2.simps Let_def power_Suc)
qed simp

lemma curve2_index2: "in2 (2 ^ k) p \<Longrightarrow> curve2 k (index2 k p) = p"
proof (induction k arbitrary: p)
  case 0
  then show ?case by (cases p) (simp add: in2_def)
next
  case (Suc k)
  let ?rx = "fst p div 2 ^ k mod 2" and ?ry = "snd p div 2 ^ k mod 2"
  let ?p = "(fst p mod 2 ^ k, snd p mod 2 ^ k)"
  have b: "in2 (2 ^ k) ?p" by (simp add: in2_def)
  have q: "rx2 (quad2 ?rx ?ry) = ?rx" "ry2 (quad2 ?rx ?ry) = ?ry" using digits_quad2[of ?rx ?ry] by simp_all
  have "fst p div 2 ^ k < 2" "snd p div 2 ^ k < 2" using Suc.prems
    by (simp_all add: in2_def less_mult_imp_div_less)
  then have top: "fst p mod 2 ^ k + 2 ^ k * ?rx = fst p" "snd p mod 2 ^ k + 2 ^ k * ?ry = snd p" by simp_all
  have "curve2 (Suc k) (index2 (Suc k) p) = place2 (2 ^ k) (quad2 ?rx ?ry) (rot2 (2 ^ k) ?rx ?ry ?p)"
    using curve2_digit[OF index2_less] Suc.IH[OF rot2_in[OF b]] by (simp only: index2.simps Let_def)
  then show ?case using q top rot2_involution[OF b, of ?rx ?ry] by (simp only: place2_def split prod.collapse)
qed

text \<open>Consecutive cells of the curve are neighbours: they differ by one in one coordinate.\<close>

definition dist2 :: "nat \<times> nat \<Rightarrow> nat \<times> nat \<Rightarrow> int" where
  "dist2 p p' = \<bar>int (fst p) - int (fst p')\<bar> + \<bar>int (snd p) - int (snd p')\<bar>"

lemma absdiff_reflect: "x < s \<Longrightarrow> y < s \<Longrightarrow> \<bar>int (s - Suc x) - int (s - Suc y)\<bar> = \<bar>int x - int y\<bar>"
  by (simp add: of_nat_diff abs_minus_commute)

lemma dist2_place2:
  assumes "in2 s p" "in2 s p'" shows "dist2 (place2 s q p) (place2 s q p') = dist2 p p'"
proof -
  obtain x y x' y' where p: "p = (x, y)" "p' = (x', y')" by (cases p, cases p')
  have b: "x < s" "y < s" "x' < s" "y' < s" using assms by (simp_all add: p in2_def)
  show ?thesis
    unfolding p place2_def rot2_def dist2_def
    by (cases "ry2 q = 0"; cases "rx2 q = 1")
      (simp_all add: absdiff_reflect b)
qed

lemma place2_start: "0 < s \<Longrightarrow> place2 s 0 (0, 0) = (0, 0)"
  by (simp add: place2_def rot2_def digit_defs)

lemma place2_end: "0 < s \<Longrightarrow> place2 s 3 (s - 1, 0) = (2 * s - 1, 0)"
  by (simp add: place2_def rot2_def digit_defs)

lemma place2_joint:
  assumes "0 < s" "q < 3" shows "dist2 (place2 s q (s - 1, 0)) (place2 s (Suc q) (0, 0)) = 1"
proof -
  have "q = 0 \<or> q = 1 \<or> q = 2" using assms(2) by auto
  then show ?thesis using assms(1)
    by (elim disjE) (simp_all add: dist2_def place2_def rot2_def digit_defs of_nat_diff)
qed

lemma curve2_start: "curve2 k 0 = (0, 0)"
  by (induction k) (simp_all add: place2_start)

lemma top_digit_split: "0 < b \<Longrightarrow> b ^ Suc k - 1 = b ^ k * (b - 1) + (b ^ k - 1 :: nat)"
  by (cases b) (simp_all add: algebra_simps)

lemma curve2_end: "curve2 k (4 ^ k - 1) = (2 ^ k - 1, 0)"
proof (induction k)
  case (Suc k)
  have "curve2 (Suc k) (4 ^ k * 3 + (4 ^ k - 1)) = place2 (2 ^ k) 3 (2 ^ k - 1, 0)"
    using curve2_digit[of "4 ^ k - 1" k 3] Suc by simp
  then show ?case using top_digit_split[of 4 k] place2_end[of "2 ^ k"] by simp
qed simp

lemma curve2_adjacent: "Suc d < 4 ^ k \<Longrightarrow> dist2 (curve2 k d) (curve2 k (Suc d)) = 1"
proof (induction k arbitrary: d)
  case (Suc k)
  let ?q = "d div 4 ^ k" and ?r = "d mod 4 ^ k"
  have d: "d = 4 ^ k * ?q + ?r" and r: "?r < 4 ^ k" by simp_all
  have cd: "curve2 (Suc k) d = place2 (2 ^ k) ?q (curve2 k ?r)" using curve2_digit[OF r, of ?q] d by metis
  show ?case
  proof (cases "Suc ?r < 4 ^ k")
    case True
    have "Suc d = 4 ^ k * ?q + Suc ?r" using d by simp
    then have "curve2 (Suc k) (Suc d) = place2 (2 ^ k) ?q (curve2 k (Suc ?r))"
      using curve2_digit[OF True, of ?q] by metis
    then show ?thesis using dist2_place2[OF curve2_in curve2_in] Suc.IH[OF True] cd by metis
  next
    case False
    then have "Suc ?r = 4 ^ k" using r by linarith
    then have re: "?r = 4 ^ k - 1" by (metis diff_Suc_1)
    have sd: "Suc d = 4 ^ k * Suc ?q + 0"
    proof -
      have "Suc ?r = 4 ^ k" using False r by linarith
      then show ?thesis using d by (metis add_0_right add.commute add_Suc_right mult_Suc_right)
    qed
    then have "4 ^ k * Suc ?q < 4 ^ k * 4" using Suc.prems by (simp only: power_Suc mult.commute add_0_right)
    then have q: "?q < 3" by simp
    have "curve2 (Suc k) (Suc d) = place2 (2 ^ k) (Suc ?q) (0, 0)"
      using curve2_digit[of 0 k "Suc ?q"] sd curve2_start by simp
    then show ?thesis using cd re curve2_end place2_joint[OF _ q, of "2 ^ k"] by simp
  qed
qed simp

section \<open>Facts about the three-dimensional curve\<close>

lemma place3_in: "in3 s p \<Longrightarrow> in3 (2 * s) (place3 s q p)"
  using rot3_in[of s p "rx3 q" "ry3 q" "rz3 q"]
  by (auto simp: place3_def in3_def digit_top split: prod.splits)

lemma curve3_in: "in3 (2 ^ k) (curve3 k d)"
proof (induction k)
  case 0
  then show ?case by (simp add: in3_def)
next
  case (Suc k)
  then show ?case using place3_in by simp
qed

lemma place3_mod: "a mod 8 = b mod 8 \<Longrightarrow> place3 s a p = place3 s b p"
  by (simp add: place3_def digits_mod[of a b])

lemma curve3_mod: "curve3 k (d mod 8 ^ k) = curve3 k d"
proof -
  have "curve3 j (d mod 8 ^ k) = curve3 j d" if "j \<le> k" for j
    using that
  proof (induction j)
    case (Suc j)
    then have "d mod 8 ^ k div 8 ^ j mod 8 = d div 8 ^ j mod 8" by (intro digit_of_mod) auto
    from place3_mod[OF this] show ?case using Suc by simp
  qed simp
  then show ?thesis by simp
qed

lemma curve3_digit:
  assumes "r < 8 ^ k" shows "curve3 (Suc k) (8 ^ k * q + r) = place3 (2 ^ k) q (curve3 k r)"
proof -
  have "(8 ^ k * q + r) div 8 ^ k = q" "(8 ^ k * q + r) mod 8 ^ k = r" using assms by simp_all
  moreover from this(2) have "curve3 k (8 ^ k * q + r) = curve3 k r"
    using curve3_mod[of k "8 ^ k * q + r"] by metis
  ultimately show ?thesis by (simp only: curve3.simps)
qed

lemma index3_place3:
  assumes "in3 (2 ^ k) p" "q < 8"
  shows "index3 (Suc k) (place3 (2 ^ k) q p) = 8 ^ k * q + index3 k p"
proof -
  obtain x y z where xyz: "rot3 (2 ^ k) (rx3 q) (ry3 q) (rz3 q) p = (x, y, z)" by (cases "rot3 (2 ^ k) (rx3 q) (ry3 q) (rz3 q) p")
  then have b: "x < 2 ^ k" "y < 2 ^ k" "z < 2 ^ k"
    using rot3_in[OF assms(1), of "rx3 q" "ry3 q" "rz3 q"] by (auto simp: in3_def)
  have "rot3 (2 ^ k) (rx3 q) (ry3 q) (rz3 q) (x, y, z) = p" using rot3_involution[OF assms(1)] xyz by metis
  then show ?thesis
    using digit_top[OF b(1), of "rx3 q"] digit_top[OF b(2), of "ry3 q"] digit_top[OF b(3), of "rz3 q"]
      oct3_digits[OF assms(2)]
    by (simp add: place3_def xyz Let_def)
qed

lemma index3_curve3: "d < 8 ^ k \<Longrightarrow> index3 k (curve3 k d) = d"
proof (induction k arbitrary: d)
  case (Suc k)
  let ?q = "d div 8 ^ k" and ?r = "d mod 8 ^ k"
  have "?q < 8" using Suc.prems by (simp add: less_mult_imp_div_less)
  then have "index3 (Suc k) (place3 (2 ^ k) ?q (curve3 k ?r)) = 8 ^ k * ?q + ?r"
    using index3_place3[OF curve3_in] Suc.IH[of ?r] by simp
  moreover have "curve3 (Suc k) (8 ^ k * ?q + ?r) = place3 (2 ^ k) ?q (curve3 k ?r)"
    by (rule curve3_digit) simp
  ultimately show ?case by simp
qed simp

lemma index3_less: "index3 k p < 8 ^ k"
proof (induction k arbitrary: p)
  case (Suc k)
  obtain x y z where p: "p = (x, y, z)" by (cases p)
  let ?b = "\<lambda>x. x div 2 ^ k mod 2 :: nat"
  have "oct3 (?b x) (?b y) (?b z) < 8" using digits_oct3[of "?b x" "?b y" "?b z"] by simp
  then show ?case using digit_below[OF Suc] by (simp only: p index3.simps split Let_def power_Suc)
qed simp

lemma curve3_index3: "in3 (2 ^ k) p \<Longrightarrow> curve3 k (index3 k p) = p"
proof (induction k arbitrary: p)
  case 0
  then show ?case by (cases p) (simp add: in3_def)
next
  case (Suc k)
  obtain x y z where p: "p = (x, y, z)" by (cases p)
  let ?b = "\<lambda>x. x div 2 ^ k mod 2 :: nat"
  let ?p = "(x mod 2 ^ k, y mod 2 ^ k, z mod 2 ^ k)"
  let ?q = "oct3 (?b x) (?b y) (?b z)"
  have b: "in3 (2 ^ k) ?p" by (simp add: in3_def)
  have q: "rx3 ?q = ?b x" "ry3 ?q = ?b y" "rz3 ?q = ?b z" using digits_oct3[of "?b x" "?b y" "?b z"] by simp_all
  have "x div 2 ^ k < 2" "y div 2 ^ k < 2" "z div 2 ^ k < 2" using Suc.prems
    by (simp_all add: p in3_def less_mult_imp_div_less)
  then have top: "x mod 2 ^ k + 2 ^ k * ?b x = x" "y mod 2 ^ k + 2 ^ k * ?b y = y"
    "z mod 2 ^ k + 2 ^ k * ?b z = z" by simp_all
  have "curve3 (Suc k) (index3 (Suc k) p) = place3 (2 ^ k) ?q (rot3 (2 ^ k) (?b x) (?b y) (?b z) ?p)"
    using curve3_digit[OF index3_less] Suc.IH[OF rot3_in[OF b]] by (simp only: p index3.simps split Let_def)
  then show ?case using q top rot3_involution[OF b, of "?b x" "?b y" "?b z"]
    by (simp only: place3_def split p)
qed

definition dist3 :: "nat \<times> nat \<times> nat \<Rightarrow> nat \<times> nat \<times> nat \<Rightarrow> int" where
  "dist3 p p' = \<bar>int (fst p) - int (fst p')\<bar> + \<bar>int (fst (snd p)) - int (fst (snd p'))\<bar> +
     \<bar>int (snd (snd p)) - int (snd (snd p'))\<bar>"

lemma dist3_place3:
  assumes "in3 s p" "in3 s p'" shows "dist3 (place3 s q p) (place3 s q p') = dist3 p p'"
proof -
  obtain x y z x' y' z' where p: "p = (x, y, z)" "p' = (x', y', z')" by (cases p, cases p')
  have b: "x < s" "y < s" "z < s" "x' < s" "y' < s" "z' < s" using assms by (simp_all add: p in3_def)
  show ?thesis
    unfolding p place3_def rot3_def dist3_def
    by (cases "rz3 q = 0"; cases "rx3 q = 1"; cases "ry3 q = 1")
      (simp_all add: absdiff_reflect b)
qed

lemma place3_start: "0 < s \<Longrightarrow> place3 s 0 (0, 0, 0) = (0, 0, 0)"
  by (simp add: place3_def rot3_def digit_defs)

lemma place3_end: "0 < s \<Longrightarrow> place3 s 7 (0, s - 1, 0) = (0, 2 * s - 1, 0)"
  by (simp add: place3_def rot3_def digit_defs)

lemma place3_joint:
  assumes "0 < s" "q < 7" shows "dist3 (place3 s q (0, s - 1, 0)) (place3 s (Suc q) (0, 0, 0)) = 1"
proof -
  have "q = 0 \<or> q = 1 \<or> q = 2 \<or> q = 3 \<or> q = 4 \<or> q = 5 \<or> q = 6" using assms(2) by auto
  then show ?thesis using assms(1)
    by (elim disjE) (simp_all add: dist3_def place3_def rot3_def digit_defs of_nat_diff)
qed

lemma curve3_start: "curve3 k 0 = (0, 0, 0)"
  by (induction k) (simp_all add: place3_start)

lemma curve3_end: "curve3 k (8 ^ k - 1) = (0, 2 ^ k - 1, 0)"
proof (induction k)
  case (Suc k)
  have "curve3 (Suc k) (8 ^ k * 7 + (8 ^ k - 1)) = place3 (2 ^ k) 7 (0, 2 ^ k - 1, 0)"
    using curve3_digit[of "8 ^ k - 1" k 7] Suc by simp
  then show ?case using top_digit_split[of 8 k] place3_end[of "2 ^ k"] by simp
qed simp

lemma curve3_adjacent: "Suc d < 8 ^ k \<Longrightarrow> dist3 (curve3 k d) (curve3 k (Suc d)) = 1"
proof (induction k arbitrary: d)
  case (Suc k)
  let ?q = "d div 8 ^ k" and ?r = "d mod 8 ^ k"
  have d: "d = 8 ^ k * ?q + ?r" and r: "?r < 8 ^ k" by simp_all
  have cd: "curve3 (Suc k) d = place3 (2 ^ k) ?q (curve3 k ?r)" using curve3_digit[OF r, of ?q] d by metis
  show ?case
  proof (cases "Suc ?r < 8 ^ k")
    case True
    have "Suc d = 8 ^ k * ?q + Suc ?r" using d by simp
    then have "curve3 (Suc k) (Suc d) = place3 (2 ^ k) ?q (curve3 k (Suc ?r))"
      using curve3_digit[OF True, of ?q] by metis
    then show ?thesis using dist3_place3[OF curve3_in curve3_in] Suc.IH[OF True] cd by metis
  next
    case False
    then have "Suc ?r = 8 ^ k" using r by linarith
    then have re: "?r = 8 ^ k - 1" by (metis diff_Suc_1)
    have sd: "Suc d = 8 ^ k * Suc ?q + 0"
    proof -
      have "Suc ?r = 8 ^ k" using False r by linarith
      then show ?thesis using d by (metis add_0_right add.commute add_Suc_right mult_Suc_right)
    qed
    then have "8 ^ k * Suc ?q < 8 ^ k * 8" using Suc.prems by (simp only: power_Suc mult.commute add_0_right)
    then have q: "?q < 7" by simp
    have "curve3 (Suc k) (Suc d) = place3 (2 ^ k) (Suc ?q) (0, 0, 0)"
      using curve3_digit[of 0 k "Suc ?q"] sd curve3_start by simp
    then show ?thesis using cd re curve3_end place3_joint[OF _ q, of "2 ^ k"] by simp
  qed
qed simp

end
