(* ===== verification/HilbertWord.thy ===== *)
theory HilbertWord
  imports Hilbert
begin

text \<open>
  The word-level loops of \<^verbatim>\<open>hilbertcurve.cpp\<close> compute the curve of theory Hilbert: for a
  grid of \<open>2 ^ k\<close> cells per side the encoders return \<open>index2\<close> and \<open>index3\<close> of the lower
  \<open>k\<close> bits of the coordinates, and the decoders stop and return \<open>curve2\<close> and
  \<open>curve3\<close>.  Nothing overflows up to \<open>k = 32\<close> in the plane and \<open>k = 21\<close> in space.
\<close>

section \<open>Words and their lower bits\<close>

definition low :: "nat \<Rightarrow> u64 \<Rightarrow> nat" where
  "low i x = unat x mod 2 ^ i"

lemma low_less [simp]: "low i x < 2 ^ i"
  by (simp add: low_def)

lemma low_Suc_div: "low (Suc i) x div 2 ^ i = of_bool (bit x i)"
proof -
  have "low (Suc i) x div 2 ^ i = unat x div 2 ^ i mod 2"
    unfolding low_def by (rule div_power_mod) simp
  also have "\<dots> = of_bool (bit (unat x) i)" by (simp add: bit_iff_odd mod_2_eq_odd)
  also have "bit (unat x) i = bit x i" by (simp add: bit_unsigned_iff bit_imp_le_length)
  finally show ?thesis .
qed

lemma low_Suc_mod: "low (Suc i) x mod 2 ^ i = low i x"
  by (simp add: low_def mod_mod_cancel)

lemma word_bit_test: "i < 64 \<Longrightarrow> 0 < x AND (2 ^ i :: u64) \<longleftrightarrow> bit x i"
  by (simp add: word_gt_0 and_exp_eq_0_iff_not_bit)

lemma uint_power_eq: "i < 64 \<Longrightarrow> uint (2 ^ i :: u64) = 2 ^ i"
  by (simp add: uint_2p word_gt_0)

lemma unat_power_2: "i < 64 \<Longrightarrow> unat (2 ^ i :: u64) = 2 ^ i"
  by (simp add: unat_eq_nat_uint uint_power_eq nat_power_eq)

lemma take_bit_reflect: "take_bit i (2 ^ i - 1 - x) = mask i - take_bit i (x :: int)"
proof -
  have "(2 ^ i - 1 - x) mod 2 ^ i = (2 ^ i - 1 - x mod 2 ^ i) mod 2 ^ i" by (simp add: mod_diff_right_eq)
  also have "\<dots> = 2 ^ i - 1 - x mod 2 ^ i"
  proof (rule mod_pos_pos_trivial)
    have "x mod 2 ^ i < 2 ^ i" by simp
    then show "0 \<le> 2 ^ i - 1 - x mod 2 ^ i" by linarith
    have "0 \<le> x mod 2 ^ i" by simp
    then show "2 ^ i - 1 - x mod 2 ^ i < 2 ^ i" by linarith
  qed
  finally show ?thesis by (simp add: take_bit_eq_mod mask_eq_exp_minus_1)
qed

lemma low_reflect: "i < 64 \<Longrightarrow> low i (2 ^ i - 1 - x) = 2 ^ i - 1 - low i x"
proof -
  assume i: "i < 64"
  have w: "2 ^ i - 1 - x = (word_of_int (2 ^ i - 1 - uint x) :: u64)" by (simp add: word_of_int_2p)
  have "uint (2 ^ i - 1 - x) = take_bit 64 (2 ^ i - 1 - uint x)"
    by (subst w) (simp only: uint_word_of_int_eq len_of_numeral_defs, simp)
  then have "take_bit i (uint (2 ^ i - 1 - x)) = mask i - take_bit i (uint x)"
    using i by (simp add: take_bit_reflect)
  then have "int (low i (2 ^ i - 1 - x)) = 2 ^ i - 1 - int (low i x)"
    by (simp add: low_def take_bit_eq_mod mask_eq_exp_minus_1 zmod_int)
  moreover have "low i x + 1 \<le> 2 ^ i" by (simp add: Suc_le_eq)
  ultimately have "int (low i (2 ^ i - 1 - x)) = int (2 ^ i - 1 - low i x)" by (simp add: of_nat_diff)
  then show ?thesis by (simp only: of_nat_eq_iff)
qed

lemma rotateD2_bool:
  "rotateD2 n x y (of_bool a) (of_bool b) =
     (if \<not> b then (if a then (n - 1 - y, n - 1 - x) else (y, x)) else (x, y))"
  by (simp add: rotateD2_def)

lemma rotateD3_bool:
  "rotateD3 n x y z (of_bool a) (of_bool b) (of_bool c) =
     (if \<not> c then (if a then (n - 1 - z, y, n - 1 - x)
                 else if b then (x, n - 1 - z, n - 1 - y) else (x, z, y))
      else (if b then (n - 1 - y, n - 1 - x, z) else (y, x, z)))"
  by (simp add: rotateD3_def)

section \<open>Encoding\<close>

lemma quad2_word:
  "(3 * of_bool a) XOR of_bool b = (of_nat (quad2 (of_bool a) (of_bool b)) :: u64)"
  by (simp add: quad2_def)

lemma oct3_word:
  "4 * of_bool b + ((3 * (of_bool b XOR of_bool a)) XOR of_bool c) =
     (of_nat (oct3 (of_bool a) (of_bool b) (of_bool c)) :: u64)"
  by (simp add: oct3_def)

lemmas index_bits = low_Suc_div low_Suc_mod

lemma half_power: "k < 63 \<Longrightarrow> (2 ^ Suc k :: u64) div 2 = 2 ^ k"
  by (rule word_unat_eq_iff[THEN iffD2]) (simp add: unat_div unat_power_2[of "Suc k", simplified] unat_power_2)

lemma half_one: "(1 :: u64) div 2 = 0"
  by simp

lemma D2toD1_step:
  assumes "i < 64"
  shows "D2toD1_loop (2 ^ i) x y d =
    (let a = of_bool (bit x i); b = of_bool (bit y i);
         p = rotateD2 (2 ^ i) x y (of_bool (bit x i)) (of_bool (bit y i))
     in D2toD1_loop (2 ^ i div 2) (fst p) (snd p) (d + of_nat (4 ^ i * quad2 a b)))"
proof -
  have q: "(2 ^ i * 2 ^ i :: u64) = of_nat (4 ^ i)" by (simp flip: power_mult_distrib)
  have "0 < (2 ^ i :: u64)" using assms by (simp add: word_gt_0)
  then show ?thesis
    using assms by (subst D2toD1_loop.simps)
      (simp add: word_bit_test quad2_word q Let_def split: prod.split)
qed

lemma rotateD2_low:
  "i < 64 \<Longrightarrow> (case rotateD2 (2 ^ i) x y (of_bool a) (of_bool b) of (x', y') \<Rightarrow> (low i x', low i y')) =
     rot2 (2 ^ i) (of_bool a) (of_bool b) (low i x, low i y)"
  by (simp add: rotateD2_bool rot2_def low_reflect)

lemma D2toD1_loop_eq:
  "i < 64 \<Longrightarrow> D2toD1_loop (2 ^ i) x y d = d + of_nat (index2 (Suc i) (low (Suc i) x, low (Suc i) y))"
proof (induction i arbitrary: x y d)
  case 0
  show ?case
    by (subst D2toD1_step) (simp_all add: Let_def D2toD1_loop.simps[of 0] index_bits[of 0, simplified])
next
  case (Suc i)
  let ?a = "bit x (Suc i)" and ?b = "bit y (Suc i)"
  obtain x' y' where r: "rotateD2 (2 ^ Suc i) x y (of_bool ?a) (of_bool ?b) = (x', y')" by fastforce
  have l: "(low (Suc i) x', low (Suc i) y') = rot2 (2 ^ Suc i) (of_bool ?a) (of_bool ?b) (low (Suc i) x, low (Suc i) y)"
    using rotateD2_low[OF Suc.prems, of x y ?a ?b] by (simp only: r prod.case)
  have "D2toD1_loop (2 ^ Suc i) x y d =
      D2toD1_loop (2 ^ i) x' y' (d + of_nat (4 ^ Suc i * quad2 (of_bool ?a) (of_bool ?b)))"
    using D2toD1_step[OF Suc.prems, of x y d] half_power[of i] Suc.prems by (simp add: r Let_def del: power_Suc)
  also have "\<dots> = d + of_nat (4 ^ Suc i * quad2 (of_bool ?a) (of_bool ?b)) +
      of_nat (index2 (Suc i) (low (Suc i) x', low (Suc i) y'))"
    using Suc.prems by (intro Suc.IH) simp
  finally show ?case unfolding l index2.simps(2)[of "Suc i"]
    by (simp add: index_bits[of "Suc i"] Let_def del: power_Suc index2.simps)
qed

lemma D2toD1_eq: "k < 64 \<Longrightarrow> D2toD1 (2 ^ k) x y = of_nat (index2 k (low k x, low k y))"
proof (cases k)
  case (Suc i)
  assume "k < 64"
  then show ?thesis using half_power[of i] D2toD1_loop_eq[of i x y 0]
    by (simp add: D2toD1_def Suc del: power_Suc index2.simps)
qed (simp add: D2toD1_def D2toD1_loop.simps[of 0])

lemma D3toD1_step:
  assumes "i < 64"
  shows "D3toD1_loop (2 ^ i) x y z d =
    (let a = of_bool (bit x i); b = of_bool (bit y i); c = of_bool (bit z i);
         p = rotateD3 (2 ^ i) x y z (of_bool (bit x i)) (of_bool (bit y i)) (of_bool (bit z i))
     in D3toD1_loop (2 ^ i div 2) (fst p) (fst (snd p)) (snd (snd p)) (d + of_nat (8 ^ i * oct3 a b c)))"
proof -
  have q: "(2 ^ i * 2 ^ i * 2 ^ i :: u64) = of_nat (8 ^ i)" by (simp flip: power_mult_distrib)
  have "0 < (2 ^ i :: u64)" using assms by (simp add: word_gt_0)
  then show ?thesis
    using assms by (subst D3toD1_loop.simps)
      (simp add: word_bit_test oct3_word q Let_def split: prod.split del: of_nat_power)
qed

lemma rotateD3_low:
  "i < 64 \<Longrightarrow>
   (case rotateD3 (2 ^ i) x y z (of_bool a) (of_bool b) (of_bool c) of
      (x', y', z') \<Rightarrow> (low i x', low i y', low i z')) =
     rot3 (2 ^ i) (of_bool a) (of_bool b) (of_bool c) (low i x, low i y, low i z)"
  by (simp add: rotateD3_bool rot3_def low_reflect)

lemma D3toD1_loop_eq:
  "i < 64 \<Longrightarrow> D3toD1_loop (2 ^ i) x y z d =
     d + of_nat (index3 (Suc i) (low (Suc i) x, low (Suc i) y, low (Suc i) z))"
proof (induction i arbitrary: x y z d)
  case 0
  show ?case
    by (subst D3toD1_step) (simp_all add: Let_def D3toD1_loop.simps[of 0] index_bits[of 0, simplified])
next
  case (Suc i)
  let ?a = "bit x (Suc i)" and ?b = "bit y (Suc i)" and ?c = "bit z (Suc i)"
  let ?o = "oct3 (of_bool ?a) (of_bool ?b) (of_bool ?c)"
  obtain x' y' z' where r: "rotateD3 (2 ^ Suc i) x y z (of_bool ?a) (of_bool ?b) (of_bool ?c) = (x', y', z')"
    using prod_cases3 by blast
  have l: "(low (Suc i) x', low (Suc i) y', low (Suc i) z') =
      rot3 (2 ^ Suc i) (of_bool ?a) (of_bool ?b) (of_bool ?c) (low (Suc i) x, low (Suc i) y, low (Suc i) z)"
    using rotateD3_low[OF Suc.prems, of x y z ?a ?b ?c] by (simp only: r prod.case)
  have "D3toD1_loop (2 ^ Suc i) x y z d = D3toD1_loop (2 ^ i) x' y' z' (d + of_nat (8 ^ Suc i * ?o))"
    using D3toD1_step[OF Suc.prems, of x y z d] half_power[of i] Suc.prems by (simp add: r Let_def del: power_Suc)
  also have "\<dots> = d + of_nat (8 ^ Suc i * ?o) +
      of_nat (index3 (Suc i) (low (Suc i) x', low (Suc i) y', low (Suc i) z'))"
    using Suc.prems by (intro Suc.IH) simp
  finally show ?case unfolding l index3.simps(2)[of "Suc i"]
    by (simp add: index_bits[of "Suc i"] Let_def del: power_Suc index3.simps)
qed

lemma D3toD1_eq: "k < 64 \<Longrightarrow> D3toD1 (2 ^ k) x y z = of_nat (index3 k (low k x, low k y, low k z))"
proof (cases k)
  case (Suc i)
  assume "k < 64"
  then show ?thesis using half_power[of i] D3toD1_loop_eq[of i x y z 0]
    by (simp add: D3toD1_def Suc del: power_Suc index3.simps)
qed (simp add: D3toD1_def D3toD1_loop.simps[of 0])

section \<open>Decoding\<close>

lemma unat_reflect: "i < 64 \<Longrightarrow> unat x < 2 ^ i \<Longrightarrow> unat (2 ^ i - 1 - x :: u64) = 2 ^ i - 1 - unat x"
proof -
  assume i: "i < 64" and x: "unat x < 2 ^ i"
  have m: "unat (2 ^ i - 1 :: u64) = 2 ^ i - 1"
    using i by (subst unat_sub) (simp_all add: word_le_nat_alt unat_power_2)
  show ?thesis using x by (subst unat_sub) (simp_all add: word_le_nat_alt m)
qed

lemma unat_place:
  assumes "i < 63" "unat x < 2 ^ i"
  shows "unat (x + 2 ^ i * of_bool b :: u64) = unat x + 2 ^ i * of_bool b"
proof (cases b)
  case True
  have "unat x + 2 ^ i < 2 * 2 ^ i" using assms by simp
  also have "(2 :: nat) * 2 ^ i = 2 ^ Suc i" by simp
  also have "\<dots> \<le> 2 ^ 63" using assms by (intro power_increasing) auto
  finally show ?thesis using assms True by (simp add: unat_word_ariths unat_power_2)
qed simp

lemma word_digit: "1 AND (t :: u64) = of_bool (bit t 0)"
  by (simp add: one_and_eq mod_2_eq_odd bit_0)

lemma even_unat_iff: "even (unat (w :: u64)) = even w"
proof -
  have "bit (unat w) 0 = bit w 0" by (simp only: bit_unsigned_iff) simp
  then show ?thesis by (simp add: bit_0)
qed

lemma unat_div_digits: "unat (t div 2 :: u64) = unat t div 2" "unat (t div 4 :: u64) = unat t div 4"
  by (simp_all add: unat_div)

lemma odd_unat_xor: "odd (unat (t XOR of_bool b :: u64)) = (odd (unat t) \<noteq> b)"
proof -
  have "odd (t XOR of_bool b) = (odd t \<noteq> b)" by (cases b) (simp_all flip: bit_0 add: bit_xor_iff)
  then show ?thesis by (simp add: even_unat_iff)
qed

lemma one_and_word: "(1 :: u64) AND w = of_bool (odd (unat w))"
  by (simp add: one_and_eq mod_2_eq_odd even_unat_iff)

lemmas word_digits = one_and_word unat_div_digits odd_unat_xor

lemma xor_of_bool: "of_bool p XOR of_bool q = (of_bool (p \<noteq> q) :: u64)"
  by (cases p; cases q) simp_all

lemma digits_of_bool:
  "rx2 q = of_bool (odd (q div 2))" "ry2 q = of_bool (odd q \<noteq> odd (q div 2))"
  "rx3 q = of_bool (odd (q div 4) \<noteq> odd (q div 2))" "ry3 q = of_bool (odd (q div 4))"
  "rz3 q = of_bool (odd (q div 2) \<noteq> odd q)"
  by (auto simp: digit_defs mod_2_eq_odd)

lemma D1toD2_loop_eq:
  assumes "k < 64"
  shows "i \<le> k \<Longrightarrow> unat t = d div 4 ^ i \<Longrightarrow> (unat x, unat y) = curve2 i d \<Longrightarrow>
    \<exists>x' y'. D1toD2_loop (2 ^ k) (2 ^ i) t x y = Some (x', y') \<and> (unat x', unat y') = curve2 k d"
proof (induction "k - i" arbitrary: i t x y)
  case 0
  then show ?case by (subst D1toD2_loop.simps) auto
next
  case (Suc m)
  let ?q = "d div 4 ^ i"
  have i: "i < 63" "i < k" using Suc.hyps Suc.prems assms by linarith+
  have less: "(2 ^ i :: u64) < 2 ^ k" using i assms by (simp add: word_less_nat_alt unat_power_2)
  have xy: "unat x < 2 ^ i" "unat y < 2 ^ i"
    using curve2_in[of i d] by (simp_all add: in2_def flip: Suc.prems(3))
  define a b where ab: "a = odd (?q div 2)" "b = (odd ?q \<noteq> odd (?q div 2))"
  have a: "rx2 ?q = of_bool a" and b: "ry2 ?q = of_bool b" by (simp_all only: ab digits_of_bool)
  have wa: "1 AND (t div 2) = of_bool a" and wb: "1 AND (t XOR of_bool a) = of_bool b"
    by (simp_all only: word_digits Suc.prems(2) ab)
  obtain x1 y1 where r: "rotateD2 (2 ^ i) x y (of_bool a) (of_bool b) = (x1, y1)" by fastforce
  have r': "(unat x1, unat y1) = rot2 (2 ^ i) (of_bool a) (of_bool b) (unat x, unat y)"
    using r xy i by (auto simp: rotateD2_bool rot2_def unat_reflect split: if_splits)
  have xy1: "unat x1 < 2 ^ i" "unat y1 < 2 ^ i"
    using rot2_in[of "2 ^ i" "(unat x, unat y)" "of_bool a" "of_bool b"] xy by (simp_all add: in2_def flip: r')
  have step: "(unat (x1 + 2 ^ i * of_bool a), unat (y1 + 2 ^ i * of_bool b)) = curve2 (Suc i) d"
    using xy1 i by (simp add: place2_def a b unat_place flip: Suc.prems(3) r')
  have t: "unat (t div 4) = d div 4 ^ Suc i" by (simp add: unat_div Suc.prems(2) mult.commute flip: div_mult2_eq)
  have "D1toD2_loop (2 ^ k) (2 ^ i) t x y =
      D1toD2_loop (2 ^ k) (2 ^ Suc i) (t div 4) (x1 + 2 ^ i * of_bool a) (y1 + 2 ^ i * of_bool b)"
    using less by (subst D1toD2_loop.simps) (simp add: wa wb r Let_def mult.commute)
  then show ?case using Suc.hyps(1)[OF _ _ t step] Suc.hyps(2) i by simp
qed

lemma D1toD2_eq:
  assumes "k < 64"
  obtains x y where "D1toD2 (2 ^ k) d = Some (x, y)" "(unat x, unat y) = curve2 k (unat d)"
  using D1toD2_loop_eq[OF assms, of 0 d "unat d" 0 0] by (auto simp: D1toD2_def)

lemma D1toD3_loop_eq:
  assumes "k < 64"
  shows "i \<le> k \<Longrightarrow> unat t = d div 8 ^ i \<Longrightarrow> (unat x, unat y, unat z) = curve3 i d \<Longrightarrow>
    \<exists>x' y' z'. D1toD3_loop (2 ^ k) (2 ^ i) t x y z = Some (x', y', z') \<and> (unat x', unat y', unat z') = curve3 k d"
proof (induction "k - i" arbitrary: i t x y z)
  case 0
  then show ?case by (subst D1toD3_loop.simps) auto
next
  case (Suc m)
  let ?q = "d div 8 ^ i"
  have i: "i < 63" "i < k" using Suc.hyps Suc.prems assms by linarith+
  have less: "(2 ^ i :: u64) < 2 ^ k" using i assms by (simp add: word_less_nat_alt unat_power_2)
  have xyz: "unat x < 2 ^ i" "unat y < 2 ^ i" "unat z < 2 ^ i"
    using curve3_in[of i d] by (simp_all add: in3_def flip: Suc.prems(3))
  define a b c where abc: "a = (odd (?q div 4) \<noteq> odd (?q div 2))" "b = odd (?q div 4)" "c = (odd (?q div 2) \<noteq> odd ?q)"
  have a: "rx3 ?q = of_bool a" and b: "ry3 ?q = of_bool b" and c: "rz3 ?q = of_bool c"
    by (simp_all only: abc digits_of_bool)
  have wa: "(1 AND (t div 4)) XOR (1 AND (t div 2)) = of_bool a" and wb: "1 AND (t div 4) = of_bool b"
    and wc: "(1 AND (t div 2)) XOR (1 AND t) = of_bool c"
    by (simp_all only: word_digits Suc.prems(2) abc xor_of_bool)
  obtain x1 y1 z1 where r: "rotateD3 (2 ^ i) x y z (of_bool a) (of_bool b) (of_bool c) = (x1, y1, z1)"
    using prod_cases3 by blast
  have r': "(unat x1, unat y1, unat z1) =
      rot3 (2 ^ i) (of_bool a) (of_bool b) (of_bool c) (unat x, unat y, unat z)"
    using r xyz i by (auto simp: rotateD3_bool rot3_def unat_reflect split: if_splits)
  have xyz1: "unat x1 < 2 ^ i" "unat y1 < 2 ^ i" "unat z1 < 2 ^ i"
    using rot3_in[of "2 ^ i" "(unat x, unat y, unat z)" "of_bool a" "of_bool b" "of_bool c"] xyz
    by (simp_all add: in3_def flip: r')
  have step: "(unat (x1 + 2 ^ i * of_bool a), unat (y1 + 2 ^ i * of_bool b), unat (z1 + 2 ^ i * of_bool c)) =
      curve3 (Suc i) d"
    using xyz1 i by (simp add: place3_def a b c unat_place flip: Suc.prems(3) r')
  have t: "unat (t div 8) = d div 8 ^ Suc i" by (simp add: unat_div Suc.prems(2) mult.commute flip: div_mult2_eq)
  have "D1toD3_loop (2 ^ k) (2 ^ i) t x y z =
      D1toD3_loop (2 ^ k) (2 ^ Suc i) (t div 8)
        (x1 + 2 ^ i * of_bool a) (y1 + 2 ^ i * of_bool b) (z1 + 2 ^ i * of_bool c)"
    using less by (subst D1toD3_loop.simps)
      (simp only: Let_def wa wc if_True, simp add: wb r mult.commute[of _ 2])
  then show ?case using Suc.hyps(1)[OF _ _ t step] Suc.hyps(2) i by simp
qed

lemma D1toD3_eq:
  assumes "k < 64"
  obtains x y z where "D1toD3 (2 ^ k) d = Some (x, y, z)" "(unat x, unat y, unat z) = curve3 k (unat d)"
  using D1toD3_loop_eq[OF assms, of 0 d "unat d" 0 0 0] by (auto simp: D1toD3_def)

section \<open>Encoding and decoding are inverse\<close>

lemma low_eq: "unat x < 2 ^ k \<Longrightarrow> low k x = unat x"
  by (simp add: low_def)

lemma unat_D2toD1:
  assumes "k \<le> 32" "unat x < 2 ^ k" "unat y < 2 ^ k"
  shows "unat (D2toD1 (2 ^ k) x y) = index2 k (unat x, unat y)"
proof -
  have "index2 k (unat x, unat y) < 4 ^ k" by (rule index2_less)
  also have "(4 :: nat) ^ k \<le> 4 ^ 32" using assms(1) by (intro power_increasing) auto
  finally have "index2 k (unat x, unat y) < 2 ^ 64" by simp
  then show ?thesis using assms by (simp add: D2toD1_eq low_eq unat_of_nat)
qed

lemma unat_D3toD1:
  assumes "k \<le> 21" "unat x < 2 ^ k" "unat y < 2 ^ k" "unat z < 2 ^ k"
  shows "unat (D3toD1 (2 ^ k) x y z) = index3 k (unat x, unat y, unat z)"
proof -
  have "index3 k (unat x, unat y, unat z) < 8 ^ k" by (rule index3_less)
  also have "(8 :: nat) ^ k \<le> 8 ^ 21" using assms(1) by (intro power_increasing) auto
  finally have "index3 k (unat x, unat y, unat z) < 2 ^ 64" by simp
  then show ?thesis using assms by (simp add: D3toD1_eq low_eq unat_of_nat)
qed

lemma curve2_unat_less: "(unat x, unat y) = curve2 k d \<Longrightarrow> unat x < 2 ^ k \<and> unat y < 2 ^ k"
  using curve2_in[of k d] by (metis in2_def fst_conv snd_conv)

lemma curve3_unat_less: "(unat x, unat y, unat z) = curve3 k d \<Longrightarrow> unat x < 2 ^ k \<and> unat y < 2 ^ k \<and> unat z < 2 ^ k"
  using curve3_in[of k d] by (metis in3_def fst_conv snd_conv)

section \<open>Properties\<close>

text \<open>
  C7: On a planar grid of \<open>2 ^ k\<close> cells per side, up to \<open>k = 32\<close>, the index of every cell
  decodes to that cell.
\<close>

theorem hilbert2_decode_encode:
  assumes "k \<le> 32" "unat x < 2 ^ k" "unat y < 2 ^ k"
  shows "D1toD2 (2 ^ k) (D2toD1 (2 ^ k) x y) = Some (x, y)"
proof -
  obtain x' y' where d: "D1toD2 (2 ^ k) (D2toD1 (2 ^ k) x y) = Some (x', y')"
    "(unat x', unat y') = curve2 k (unat (D2toD1 (2 ^ k) x y))"
    by (rule D1toD2_eq[of k]) (use assms(1) in simp)
  have "curve2 k (index2 k (unat x, unat y)) = (unat x, unat y)"
    using assms by (intro curve2_index2) (simp add: in2_def)
  then show ?thesis using d assms by (simp add: unat_D2toD1 word_unat_eq_iff)
qed

theorem hilbert2_decode_encode_witness: "D1toD2 (2 ^ 4) (D2toD1 (2 ^ 4) 5 11) = Some (5, 11)"
  by (rule hilbert2_decode_encode) simp_all

text \<open>
  C8: In space, up to \<open>k = 21\<close>, the index of every cell decodes to that cell, and every
  index below \<open>8 ^ k\<close> is the index of the cell it decodes to.
\<close>

theorem hilbert3_bijective:
  assumes "k \<le> 21" "unat x < 2 ^ k" "unat y < 2 ^ k" "unat z < 2 ^ k" "unat d < 8 ^ k"
  shows "D1toD3 (2 ^ k) (D3toD1 (2 ^ k) x y z) = Some (x, y, z) \<and>
    (\<exists>x' y' z'. D1toD3 (2 ^ k) d = Some (x', y', z') \<and>
      unat x' < 2 ^ k \<and> unat y' < 2 ^ k \<and> unat z' < 2 ^ k \<and> D3toD1 (2 ^ k) x' y' z' = d)"
proof -
  obtain x' y' z' where r: "D1toD3 (2 ^ k) (D3toD1 (2 ^ k) x y z) = Some (x', y', z')"
    "(unat x', unat y', unat z') = curve3 k (unat (D3toD1 (2 ^ k) x y z))"
    by (rule D1toD3_eq[of k]) (use assms(1) in simp)
  have "curve3 k (index3 k (unat x, unat y, unat z)) = (unat x, unat y, unat z)"
    using assms by (intro curve3_index3) (simp add: in3_def)
  then have one: "D1toD3 (2 ^ k) (D3toD1 (2 ^ k) x y z) = Some (x, y, z)"
    using r assms by (simp add: unat_D3toD1 word_unat_eq_iff)
  obtain x' y' z' where d: "D1toD3 (2 ^ k) d = Some (x', y', z')"
    "(unat x', unat y', unat z') = curve3 k (unat d)"
    by (rule D1toD3_eq[of k]) (use assms(1) in simp)
  have "unat (D3toD1 (2 ^ k) x' y' z') = unat d"
    using assms d(2) curve3_unat_less[OF d(2)] by (simp add: unat_D3toD1 index3_curve3)
  then have "D3toD1 (2 ^ k) x' y' z' = d" by (simp add: word_unat_eq_iff)
  then show ?thesis using one d(1) curve3_unat_less[OF d(2)] by blast
qed

theorem hilbert3_bijective_witness:
  "D1toD3 (2 ^ 3) (D3toD1 (2 ^ 3) 5 7 2) = Some (5, 7, 2) \<and>
   (\<exists>x' y' z'. D1toD3 (2 ^ 3) 100 = Some (x', y', z') \<and>
      unat x' < 2 ^ 3 \<and> unat y' < 2 ^ 3 \<and> unat z' < 2 ^ 3 \<and> D3toD1 (2 ^ 3) x' y' z' = 100)"
  by (rule hilbert3_bijective) simp_all

text \<open>
  C9: Consecutive indices decode to cells that share an edge (in the plane) or a face (in
  space): their coordinates differ by one in exactly one direction.
\<close>

theorem hilbert_adjacent:
  assumes "k \<le> 32" "Suc (unat d) < 4 ^ k" "j \<le> 21" "Suc (unat e) < 8 ^ j"
  shows "(\<exists>x y x' y'. D1toD2 (2 ^ k) d = Some (x, y) \<and> D1toD2 (2 ^ k) (d + 1) = Some (x', y') \<and>
      \<bar>uint x - uint x'\<bar> + \<bar>uint y - uint y'\<bar> = 1) \<and>
    (\<exists>x y z x' y' z'. D1toD3 (2 ^ j) e = Some (x, y, z) \<and> D1toD3 (2 ^ j) (e + 1) = Some (x', y', z') \<and>
      \<bar>uint x - uint x'\<bar> + \<bar>uint y - uint y'\<bar> + \<bar>uint z - uint z'\<bar> = 1)"
proof -
  have "(4 :: nat) ^ k \<le> 4 ^ 32" by (rule power_increasing) (use assms in simp_all)
  moreover have "(8 :: nat) ^ j \<le> 8 ^ 21" by (rule power_increasing) (use assms in simp_all)
  ultimately have d: "unat (d + 1) = Suc (unat d)" "unat (e + 1) = Suc (unat e)"
    using assms by (simp_all add: unat_word_ariths)
  obtain x y where a: "D1toD2 (2 ^ k) d = Some (x, y)" "(unat x, unat y) = curve2 k (unat d)"
    by (rule D1toD2_eq[of k]) (use assms(1) in simp)
  obtain x' y' where b: "D1toD2 (2 ^ k) (d + 1) = Some (x', y')" "(unat x', unat y') = curve2 k (unat (d + 1))"
    by (rule D1toD2_eq[of k]) (use assms(1) in simp)
  have "\<bar>uint x - uint x'\<bar> + \<bar>uint y - uint y'\<bar> = 1"
    using curve2_adjacent[OF assms(2)] by (simp add: dist2_def d flip: a(2) b(2)[unfolded d])
  then have one: "\<exists>x y x' y'. D1toD2 (2 ^ k) d = Some (x, y) \<and> D1toD2 (2 ^ k) (d + 1) = Some (x', y') \<and>
      \<bar>uint x - uint x'\<bar> + \<bar>uint y - uint y'\<bar> = 1" using a b by blast
  obtain x y z where a: "D1toD3 (2 ^ j) e = Some (x, y, z)" "(unat x, unat y, unat z) = curve3 j (unat e)"
    by (rule D1toD3_eq[of j]) (use assms(3) in simp)
  obtain x' y' z' where b: "D1toD3 (2 ^ j) (e + 1) = Some (x', y', z')"
    "(unat x', unat y', unat z') = curve3 j (unat (e + 1))"
    by (rule D1toD3_eq[of j]) (use assms(3) in simp)
  have "\<bar>uint x - uint x'\<bar> + \<bar>uint y - uint y'\<bar> + \<bar>uint z - uint z'\<bar> = 1"
    using curve3_adjacent[OF assms(4)] by (simp add: dist3_def d flip: a(2) b(2)[unfolded d])
  then show ?thesis using one a b by blast
qed

theorem hilbert_adjacent_witness:
  "(\<exists>x y x' y'. D1toD2 (2 ^ 3) 31 = Some (x, y) \<and> D1toD2 (2 ^ 3) (31 + 1) = Some (x', y') \<and>
      \<bar>uint x - uint x'\<bar> + \<bar>uint y - uint y'\<bar> = 1) \<and>
   (\<exists>x y z x' y' z'. D1toD3 (2 ^ 2) 15 = Some (x, y, z) \<and> D1toD3 (2 ^ 2) (15 + 1) = Some (x', y', z') \<and>
      \<bar>uint x - uint x'\<bar> + \<bar>uint y - uint y'\<bar> + \<bar>uint z - uint z'\<bar> = 1)"
  by (rule hilbert_adjacent) simp_all

end
