(* ===== verification/Balance.thy ===== *)
theory Balance
  imports Esutils
begin

text \<open>
  The two \<^verbatim>\<open>balance\<close> routines of \<^verbatim>\<open>src/basis/containers/serializededata.h\<close>, which move data
  between neighbouring threads until every thread holds the share that a distribution gives it.
  The first one moves raw data of a fixed element size; the second one moves elements of
  different sizes, described by boundaries, and keeps boundaries and data together.
\<close>

section \<open>Elements of equal size\<close>

text \<open>\<^verbatim>\<open>while (++tt && data[t].size() < need)\<close>: thread \<open>t\<close> takes from the threads behind it.\<close>

function take_from :: "nat \<Rightarrow> nat \<Rightarrow> nat \<Rightarrow> 'a list list \<Rightarrow> 'a list list option" where
  "take_from need t tt data = do {
     x \<leftarrow> rd data t;
     if length x < need then do {
       y \<leftarrow> rd data tt;
       let diff = need - length x;
       if diff < length y
       then take_from need t (Suc tt) (data[t := x @ take diff y, tt := drop diff y])
       else take_from need t (Suc tt) (data[t := x @ y, tt := []])
     } else Some data }"
  by pat_completeness auto
termination
  by (relation "measure (\<lambda>(need, t, tt, data). length data - tt)") (auto simp: rd_eq_Some_iff)

declare take_from.simps [simp del]

text \<open>What is left over goes to the front of the next thread.\<close>

definition push_next :: "nat \<Rightarrow> nat \<Rightarrow> 'a list list \<Rightarrow> 'a list list option" where
  "push_next need t data = do {
     x \<leftarrow> rd data t;
     if need < length x then do {
       y \<leftarrow> rd data (t + 1);
       let diff = length x - need;
       Some (data[t + 1 := drop (length x - diff) x @ y, t := take (length x - diff) x])
     } else Some data }"

definition default_distribution :: "'a list list \<Rightarrow> nat list" where
  "default_distribution data = distribute (length data) (sum_list (map length data))"

text \<open>
  \<^verbatim>\<open>_distribution[t + 1] - _distribution[t]\<close>; with borders in the wrong order the difference
  wraps to a number that no data can satisfy, and the loop runs out of threads.
\<close>

definition share :: "nat list \<Rightarrow> nat \<Rightarrow> nat option" where
  "share d t = do {
     a \<leftarrow> rd d t;
     b \<leftarrow> rd d (t + 1);
     if a \<le> b then Some (b - a) else None }"

lemma share_Some: "is_distribution d k n \<Longrightarrow> t < k \<Longrightarrow> share d t = Some (d ! Suc t - d ! t)"
  using is_distribution_mono[of d k n t "Suc t"] by (simp add: share_def mem_simps is_distribution_def)

definition balance_thread :: "nat \<Rightarrow> nat list \<Rightarrow> nat \<Rightarrow> 'a list list \<Rightarrow> 'a list list option" where
  "balance_thread esize d t data = do {
     n \<leftarrow> share d t;
     data \<leftarrow> take_from (esize * n) t (t + 1) data;
     push_next (esize * n) t data }"

definition balance :: "nat \<Rightarrow> 'a list list \<Rightarrow> nat list option \<Rightarrow> 'a list list option" where
  "balance esize data distribution =
     (let d = (case distribution of None \<Rightarrow> default_distribution data | Some d \<Rightarrow> d)
      in for_each [0..<length data] (balance_thread esize d) data)"

text \<open>The threads between the taker and the one it takes from are empty.\<close>

lemma take_from_Some:
  assumes "need \<le> length x + length (concat rest)"
  shows "\<exists>y ys. take_from need (length pre) (Suc (length pre + j)) (pre @ x # replicate j [] @ rest) =
      Some (pre @ y # ys) \<and> y @ concat ys = x @ concat rest \<and> length ys = j + length rest \<and> need \<le> length y"
  using assms
proof (induction rest arbitrary: x j)
  case Nil
  then show ?case by (subst take_from.simps) (simp add: mem_simps)
next
  case (Cons r rest)
  let ?data = "pre @ x # replicate j [] @ r # rest"
  have rt: "rd ?data (length pre) = Some x" by (simp add: mem_simps)
  have rtt: "rd ?data (Suc (length pre + j)) = Some r" by (simp add: rd_def nth_append)
  have upd: "(pre @ u # replicate j [] @ r # rest)[Suc (length pre + j) := v] =
      pre @ u # replicate j [] @ v # rest" for u v
    by (simp add: list_update_append)
  consider (enough) "need \<le> length x"
    | (part) "length x < need" "need - length x < length r"
    | (all) "length x < need" "length r \<le> need - length x" by linarith
  then show ?case
  proof cases
    case enough
    then show ?thesis by (subst take_from.simps) (simp add: rt)
  next
    case part
    let ?d = "need - length x"
    let ?data' = "pre @ (x @ take ?d r) # replicate j [] @ drop ?d r # rest"
    have "take_from need (length pre) (Suc (length pre + j)) ?data =
        take_from need (length pre) (Suc (Suc (length pre + j))) ?data'"
      using part by (subst take_from.simps) (simp add: rt rtt upd Let_def)
    also have "\<dots> = Some ?data'"
      using part by (subst take_from.simps) (simp add: mem_simps)
    finally show ?thesis using part by simp
  next
    case all
    have "take_from need (length pre) (Suc (length pre + j)) ?data =
        take_from need (length pre) (Suc (length pre + Suc j)) (pre @ (x @ r) # replicate (Suc j) [] @ rest)"
      using all by (subst take_from.simps) (simp add: rt rtt upd replicate_app_Cons_same)
    moreover have "need \<le> length (x @ r) + length (concat rest)" using Cons.prems by simp
    ultimately show ?thesis using Cons.IH[of "x @ r" "Suc j"] by auto
  qed
qed

lemma push_next_Some:
  assumes "need \<le> length y" and "ys = [] \<Longrightarrow> length y = need"
  shows "\<exists>z zs. push_next need (length pre) (pre @ y # ys) = Some (pre @ z # zs) \<and>
    z @ concat zs = y @ concat ys \<and> length zs = length ys \<and> length z = need"
proof (cases "need < length y")
  case True
  with assms obtain w ws where "ys = w # ws" by (cases ys) auto
  then show ?thesis using True
    by (auto simp: push_next_def mem_simps rd_def nth_append list_update_append)
next
  case False
  then show ?thesis using assms by (simp add: push_next_def mem_simps)
qed

lemma length_concat_replicate [simp]: "length (concat (replicate j [])) = 0"
  by (induction j) auto

lemma block_of_concat:
  assumes "t < length data"
  shows "data ! t = take (length (data ! t)) (drop (length (concat (take t data))) (concat data))"
proof -
  have "concat data = concat (take t data) @ data ! t @ concat (drop (Suc t) data)"
    using assms by (metis append.assoc concat.simps(2) concat_append id_take_nth_drop)
  then show ?thesis by simp
qed

definition balanced_upto :: "nat \<Rightarrow> nat list \<Rightarrow> nat \<Rightarrow> 'a list list \<Rightarrow> bool" where
  "balanced_upto esize d t data \<longleftrightarrow> (\<forall>s < t. length (data ! s) = esize * (d ! Suc s - d ! s))"

lemma balanced_upto_prefix:
  assumes d: "is_distribution d k n" and len: "length data = k" and "balanced_upto esize d t data" and "t \<le> k"
  shows "length (concat (take t data)) = esize * d ! t"
proof -
  have "length (concat (take m data)) = esize * d ! m" if "m \<le> t" for m
    using that
  proof (induction m)
    case 0
    then show ?case using d by (simp add: is_distribution_def)
  next
    case (Suc m)
    have "d ! m \<le> d ! Suc m" using Suc.prems assms(4) is_distribution_mono[OF d, of m "Suc m"] by simp
    then have "esize * d ! m + esize * (d ! Suc m - d ! m) = esize * d ! Suc m" by (simp flip: distrib_left)
    then show ?case using Suc assms by (simp add: take_Suc_conv_app_nth balanced_upto_def)
  qed
  then show ?thesis by simp
qed

lemma balance_remaining:
  assumes d: "is_distribution d k n" and len: "length data = k" and total: "length (concat data) = esize * n"
    and bal: "balanced_upto esize d t data" and t: "t < k" and xs: "data = pre @ x # rest" "length pre = t"
  shows "length x + length (concat rest) = esize * n - esize * d ! t"
    and "esize * (d ! Suc t - d ! t) \<le> length x + length (concat rest)"
proof -
  have pre: "length (concat pre) = esize * d ! t"
    using balanced_upto_prefix[OF d len bal] t by (simp add: xs)
  have le: "d ! t \<le> d ! Suc t" "d ! Suc t \<le> n"
    using is_distribution_mono[OF d, of t "Suc t"] is_distribution_le[OF d, of "Suc t"] t by auto
  have "length (concat pre) + (length x + length (concat rest)) = esize * n"
    using total by (simp add: xs(1))
  then show rest: "length x + length (concat rest) = esize * n - esize * d ! t" using pre by linarith
  show "esize * (d ! Suc t - d ! t) \<le> length x + length (concat rest)"
    unfolding rest using diff_le_mono[OF le(2)] by (simp flip: diff_mult_distrib2)
qed

lemma balance_thread_Some:
  assumes d: "is_distribution d k n" and len: "length data = k" and total: "length (concat data) = esize * n"
    and bal: "balanced_upto esize d t data" and t: "t < k"
  shows "\<exists>res. balance_thread esize d t data = Some res \<and> length res = k \<and>
    concat res = concat data \<and> balanced_upto esize d (Suc t) res"
proof -
  let ?n = "esize * (d ! Suc t - d ! t)"
  define pre x rest where "pre = take t data" and "x = data ! t" and "rest = drop (Suc t) data"
  have xs: "data = pre @ x # rest" "length pre = t" "length rest = k - Suc t"
    using t len by (auto simp: pre_def x_def rest_def id_take_nth_drop)
  note rest = balance_remaining(1)[OF d len total bal t xs(1,2)]
    and need = balance_remaining(2)[OF d len total bal t xs(1,2)]
  obtain y ys where y: "take_from ?n t (Suc t) data = Some (pre @ y # ys)"
    "y @ concat ys = x @ concat rest" "length ys = length rest" "?n \<le> length y"
    using take_from_Some[OF need, of pre 0] by (auto simp: xs)
  have last: "length y = ?n" if "ys = []"
  proof -
    have "Suc t = k" using that y(3) xs(3) t by simp
    then have "d ! Suc t = n" using d by (simp add: is_distribution_def)
    moreover have "length y = length x + length (concat rest)"
      using y(2) that by (metis append_Nil2 concat.simps(1) length_append)
    ultimately show ?thesis using rest by (simp add: diff_mult_distrib2)
  qed
  obtain z zs where z: "push_next ?n t (pre @ y # ys) = Some (pre @ z # zs)"
    "z @ concat zs = y @ concat ys" "length zs = length ys" "length z = ?n"
    using push_next_Some[where pre = pre and ys = ys, OF y(4)] last xs(2) by auto
  have "balance_thread esize d t data = Some (pre @ z # zs)"
    using y(1) z(1) t by (simp add: balance_thread_def share_Some[OF d])
  moreover have "length (pre @ z # zs) = k" using xs y(3) z(3) t by simp
  moreover have "concat (pre @ z # zs) = concat data" using xs(1) y(2) z(2) by simp
  moreover have "balanced_upto esize d (Suc t) (pre @ z # zs)"
    using bal xs z(4) by (auto simp: balanced_upto_def less_Suc_eq nth_append)
  ultimately show ?thesis by blast
qed

lemma balance_loop:
  assumes d: "is_distribution d k n" and len: "length data = k" and total: "length (concat data) = esize * n"
  shows "\<exists>res. for_each [0..<k] (balance_thread esize d) data = Some res \<and>
    length res = k \<and> concat res = concat data \<and> balanced_upto esize d k res"
proof -
  let ?I = "\<lambda>t xs. length xs = k \<and> concat xs = concat data \<and> balanced_upto esize d t xs"
  have "\<exists>res. for_each [0..<k] (balance_thread esize d) data = Some res \<and> ?I k res"
  proof (rule for_each_upt[where I = ?I])
    fix t xs assume "t < k" and "?I t xs"
    then show "\<exists>u. balance_thread esize d t xs = Some u \<and> ?I (Suc t) u"
      using balance_thread_Some[OF d, of xs esize t] total by auto
  qed (use len in \<open>auto simp: balanced_upto_def\<close>)
  then show ?thesis by blast
qed

lemma balance_correct:
  assumes "is_distribution d (length data) n" and "length (concat data) = esize * n"
  shows "balance esize data (Some d) =
    Some (map (\<lambda>t. vspan (esize * d ! t) (esize * d ! Suc t) (concat data)) [0..<length data])"
proof -
  obtain res where res: "balance esize data (Some d) = Some res" "length res = length data"
    "concat res = concat data" "balanced_upto esize d (length data) res"
    using balance_loop[OF assms(1) refl assms(2)] by (auto simp: balance_def)
  have "res ! t = vspan (esize * d ! t) (esize * d ! Suc t) (concat data)" if "t < length data" for t
  proof -
    have "balanced_upto esize d t res" using res(4) that by (simp add: balanced_upto_def)
    from balanced_upto_prefix[OF assms(1) res(2) this] show ?thesis
      using block_of_concat[of t res] res that by (simp add: vspan_def balanced_upto_def diff_mult_distrib2)
  qed
  then have "res = map (\<lambda>t. vspan (esize * d ! t) (esize * d ! Suc t) (concat data)) [0..<length data]"
    using res(2) by (intro nth_equalityI) auto
  with res(1) show ?thesis by simp
qed

lemma default_distribution_ok:
  assumes "data \<noteq> []"
  shows "is_distribution (default_distribution data) (length data) (length (concat data))"
  using is_distribution_distribute[of "length data" "length (concat data)"] assms
  by (simp add: default_distribution_def length_concat)

lemma balance_default:
  assumes "data \<noteq> []"
  shows "balance 1 data None = balance 1 data (Some (default_distribution data))"
  by (simp add: balance_def)

section \<open>Elements of different sizes\<close>

text \<open>
  The state of the second routine: per thread the boundaries, the data and the number of
  elements.  The search \<^verbatim>\<open>while (boundaries[tt - ++ttt].size() == 0);\<close> runs off the front of
  the vector when there is no boundary before thread \<open>tt\<close>.
\<close>

type_synonym 'a bstate = "nat list list \<times> 'a list list \<times> nat list"

primrec back_before :: "nat list list \<Rightarrow> nat \<Rightarrow> nat option" where
  "back_before bs 0 = None"
| "back_before bs (Suc tt) = rd bs tt \<bind> (\<lambda>b. if b = [] then back_before bs tt else Some (last b))"

function take_from2 :: "nat \<Rightarrow> nat \<Rightarrow> nat \<Rightarrow> 'a bstate \<Rightarrow> 'a bstate option" where
  "take_from2 need t tt st = (case st of (bs, ds, sz) \<Rightarrow> do {
     s \<leftarrow> rd sz t;
     if s < need then do {
       s' \<leftarrow> rd sz tt;
       b \<leftarrow> rd bs t; b' \<leftarrow> rd bs tt;
       x \<leftarrow> rd ds t; y \<leftarrow> rd ds tt;
       let diff = need - s;
       if diff < s' then do {
         v \<leftarrow> rd b' (diff - 1);
         w \<leftarrow> back_before bs tt;
         let ediff = v - w;
         if w \<le> v \<and> ediff \<le> length y \<and> diff \<le> length b' then
           take_from2 need t (Suc tt)
             (bs[t := b @ take diff b', tt := drop diff b'],
              ds[t := x @ take ediff y, tt := drop ediff y],
              sz[t := s + diff, tt := s' - diff])
         else None
       } else if length b' \<le> s' then
         take_from2 need t (Suc tt)
           (bs[t := b @ b', tt := []], ds[t := x @ y, tt := []],
            sz[t := s + length b', tt := s' - length b'])
       else None
     } else Some st })"
  by pat_completeness auto
termination
  by (relation "measure (\<lambda>(need, t, tt, bs, ds, sz). length sz - tt)") (auto simp: rd_eq_Some_iff)

declare take_from2.simps [simp del]

definition push_next2 :: "nat \<Rightarrow> nat \<Rightarrow> 'a bstate \<Rightarrow> 'a bstate option" where
  "push_next2 need t st = (case st of (bs, ds, sz) \<Rightarrow> do {
     s \<leftarrow> rd sz t;
     if need < s then do {
       b \<leftarrow> rd bs t; b' \<leftarrow> rd bs (t + 1);
       x \<leftarrow> rd ds t; y \<leftarrow> rd ds (t + 1);
       s' \<leftarrow> rd sz (t + 1);
       let diff = s - need;
       if diff + 1 \<le> length b then do {
         let ediff = last b - b ! (length b - diff - 1);
         if b ! (length b - diff - 1) \<le> last b \<and> ediff \<le> length x then
           Some (bs[t + 1 := drop (length b - diff) b @ b', t := take (length b - diff) b],
                 ds[t + 1 := drop (length x - ediff) x @ y, t := take (length x - ediff) x],
                 sz[t := s - diff, t + 1 := s' + diff])
         else None
       } else None
     } else Some st })"

definition balance_thread2 :: "nat list \<Rightarrow> nat \<Rightarrow> 'a bstate \<Rightarrow> 'a bstate option" where
  "balance_thread2 d t st = do {
     n \<leftarrow> share d t;
     st \<leftarrow> take_from2 n t (t + 1) st;
     push_next2 n t st }"

definition balance2 ::
  "nat list list \<Rightarrow> 'a list list \<Rightarrow> nat list option \<Rightarrow> (nat list list \<times> 'a list list) option" where
  "balance2 boundaries data distribution =
     (if boundaries = [] then None
      else
        let sizes = map length boundaries; n = sum_list sizes in
        if n = 0 then Some (boundaries, data)
        else if sizes ! 0 = 0 then None
        else do {
          let d = (case distribution of None \<Rightarrow> distribute (length data) (n - 1) | Some d \<Rightarrow> d);
          (bs, ds, sz) \<leftarrow> for_each [0..<length boundaries] (balance_thread2 d)
            (boundaries, data, sizes[0 := sizes ! 0 - 1]);
          Some (bs, ds) })"

subsection \<open>Boundaries of lists of elements\<close>

text \<open>
  What the state stands for: every thread has a list of elements.  Its data are the elements
  one after the other, its boundaries are the global ends of its elements, and thread zero has
  the additional boundary 0.
\<close>

fun ends :: "nat \<Rightarrow> 'a list list \<Rightarrow> nat list" where
  "ends off [] = []"
| "ends off (e # es) = (off + length e) # ends (off + length e) es"

fun bounds_from :: "nat \<Rightarrow> 'a list list list \<Rightarrow> nat list list" where
  "bounds_from off [] = []"
| "bounds_from off (b # bs) = ends off b # bounds_from (off + length (concat b)) bs"

definition bounds :: "'a list list list \<Rightarrow> nat list list" where
  "bounds E = (case bounds_from 0 E of [] \<Rightarrow> [] | b # bs \<Rightarrow> (0 # b) # bs)"

definition thread_state :: "'a list list list \<Rightarrow> 'a bstate" where
  "thread_state E = (bounds E, map concat E, map length E)"

lemma length_ends [simp]: "length (ends off es) = length es"
  by (induction off es rule: ends.induct) auto

lemma ends_Nil_iff [simp]: "ends off es = [] \<longleftrightarrow> es = []"
  by (cases es) auto

lemma ends_append: "ends off (xs @ ys) = ends off xs @ ends (off + length (concat xs)) ys"
  by (induction off xs rule: ends.induct) (auto simp: add.assoc)

lemma ends_nth: "i < length es \<Longrightarrow> ends off es ! i = off + length (concat (take (Suc i) es))"
proof (induction off es arbitrary: i rule: ends.induct)
  case (2 off e es)
  then show ?case by (cases i) auto
qed simp

lemma take_ends: "take n (ends off es) = ends off (take n es)"
  by (induction off es arbitrary: n rule: ends.induct) (auto simp: take_Cons split: nat.splits)

lemma drop_ends: "n \<le> length es \<Longrightarrow> drop n (ends off es) = ends (off + length (concat (take n es))) (drop n es)"
  by (induction off es arbitrary: n rule: ends.induct) (auto simp: drop_Cons add.assoc split: nat.splits)

lemma last_ends: "last (off # ends off es) = off + length (concat es)"
  by (induction off es rule: ends.induct) (auto simp: add.assoc)

lemma length_bounds_from [simp]: "length (bounds_from off E) = length E"
  by (induction off E rule: bounds_from.induct) auto

lemma bounds_from_append:
  "bounds_from off (E @ F) = bounds_from off E @ bounds_from (off + length (concat (concat E))) F"
  by (induction off E rule: bounds_from.induct) (auto simp: add.assoc)

lemma bounds_from_replicate [simp]: "bounds_from off (replicate j []) = replicate j []"
  by (induction j) auto

lemma length_bounds [simp]: "length (bounds E) = length E"
  unfolding bounds_def by (cases E) auto

abbreviation lead :: "'b list \<Rightarrow> nat list" where
  "lead pre \<equiv> (if pre = [] then [0] else [])"

lemma bounds_split:
  "bounds (pre @ x # rest) = bounds pre @
     (lead pre @ ends (length (concat (concat pre))) x) #
     bounds_from (length (concat (concat pre)) + length (concat x)) rest"
  by (cases pre) (auto simp: bounds_def bounds_from_append)

lemma concat_bounds: "E \<noteq> [] \<Longrightarrow> concat (bounds E) = 0 # ends 0 (concat E)"
proof -
  have c: "concat (bounds_from off F) = ends off (concat F)" for off and F :: "'a list list list"
    by (induction off F rule: bounds_from.induct) (auto simp: ends_append)
  show "E \<noteq> [] \<Longrightarrow> ?thesis"
    by (cases E) (simp_all add: bounds_def ends_append c)
qed

lemma back_before_eq:
  "tt \<le> length bs \<Longrightarrow> back_before bs tt =
     (let c = concat (take tt bs) in if c = [] then None else Some (last c))"
proof (induction tt)
  case (Suc tt)
  then show ?case
    by (auto simp: mem_simps take_Suc_conv_app_nth Let_def)
qed simp

lemma back_before_bounds:
  assumes "0 < tt" and "tt \<le> length E"
  shows "back_before (bounds E) tt = Some (length (concat (concat (take tt E))))"
proof -
  have ne: "take tt E \<noteq> []" using assms by (cases E) auto
  obtain rest where E: "E = take tt E @ rest" by (metis append_take_drop_id)
  have "take tt (bounds E) = bounds (take tt E)"
  proof (cases rest)
    case Nil
    then have "take tt E = E" using E by simp
    then show ?thesis using assms by simp
  next
    case (Cons x rest)
    have "bounds E = bounds (take tt E @ x # rest)" using E Cons by simp
    then show ?thesis using assms by (simp add: bounds_split)
  qed
  then show ?thesis using assms
    using last_ends[of 0 "concat (take tt E)"]
    by (simp add: back_before_eq concat_bounds[OF ne] Let_def del: last.simps ends.simps)
qed

subsection \<open>The second routine is the first one on elements\<close>

lemma ends_segment:
  assumes "n \<le> length es"
  shows "take n (ends off es) = ends off (take n es)"
    "drop n (ends off es) = ends (off + length (concat (take n es))) (drop n es)"
  using assms by (simp_all add: take_ends drop_ends)

lemma concat_take_take: "take (length (concat (take n es))) (concat es) = concat (take n es)"
  by (metis append_eq_conv_conj append_take_drop_id concat_append)

lemma concat_drop_take: "drop (length (concat (take n es))) (concat es) = concat (drop n es)"
  by (metis append_eq_conv_conj append_take_drop_id concat_append)

lemma at_split:
  assumes "length A = n"
  shows "rd (A @ u # C) n = Some u"
    and "rd (A @ u # replicate j z @ w # C) (Suc (n + j)) = Some w"
    and "(A @ u # replicate j z @ w # C)[Suc (n + j) := w'] = A @ u # replicate j z @ w' # C"
    and "(A @ u # C)[n := u'] = A @ u' # C"
    and "rd (A @ u # w # C) (Suc n) = Some w"
    and "(A @ u # w # C)[Suc n := w'] = A @ u # w' # C"
  using assms by (simp_all add: rd_def nth_append list_update_append)

lemma at_split_None: "length A = n \<Longrightarrow> rd (A @ u # replicate j z) (Suc (n + j)) = None"
  by (simp add: rd_def)

lemma thread_state_split:
  "thread_state (pre @ x # replicate j [] @ r # rest) =
     (bounds pre @ (lead pre @ ends (length (concat (concat pre))) x) # replicate j [] @
        ends (length (concat (concat pre)) + length (concat x)) r #
        bounds_from (length (concat (concat pre)) + length (concat x) + length (concat r)) rest,
      map concat pre @ concat x # replicate j [] @ concat r # map concat rest,
      map length pre @ length x # replicate j 0 @ length r # map length rest)"
  by (simp add: thread_state_def bounds_split bounds_from_append)

lemma take_from2_stop: "need \<le> length x \<Longrightarrow>
    take_from2 need (length pre) tt (thread_state (pre @ x # rest)) = Some (thread_state (pre @ x # rest))"
  by (subst take_from2.simps) (simp add: thread_state_def at_split)

lemma take_from2_part:
  assumes part: "length x < need" "need - length x < length r"
  defines "d \<equiv> need - length x"
  shows "take_from2 need (length pre) (Suc (length pre + j)) (thread_state (pre @ x # replicate j [] @ r # rest)) =
    Some (thread_state (pre @ (x @ take d r) # replicate j [] @ drop d r # rest))"
proof -
  let ?t = "length pre" and ?tt = "Suc (length pre + j)"
  let ?o = "length (concat (concat pre))"
  let ?E = "pre @ x # replicate j [] @ r # rest"
  let ?E' = "pre @ (x @ take d r) # replicate j [] @ drop d r # rest"
  have d: "0 < d" "d \<le> length r" "need = length x + d" and lt: "d < length r" and eq: "length x + d = need"
    using part by (auto simp: d_def)
  have v: "rd (ends (?o + length (concat x)) r) (d - Suc 0) =
      Some (?o + length (concat x) + length (concat (take d r)))"
    using d by (simp add: rd_def ends_nth)
  have w: "back_before (bounds ?E) ?tt = Some (?o + length (concat x))"
    by (subst back_before_bounds) (simp_all add: add.assoc)
  have w: "back_before (fst (thread_state ?E)) ?tt = Some (?o + length (concat x))"
    using w by (simp add: thread_state_def)
  have cr: "length (concat r) = length (concat (take d r)) + length (concat (drop d r))"
    by (metis append_take_drop_id concat_append length_append)
  have st: "thread_state ?E' =
     (bounds pre @ (lead pre @ ends ?o x @ take d (ends (?o + length (concat x)) r)) # replicate j [] @
        drop d (ends (?o + length (concat x)) r) #
        bounds_from (?o + length (concat x) + length (concat r)) rest,
      map concat pre @ (concat x @ take (length (concat (take d r))) (concat r)) # replicate j [] @
        drop (length (concat (take d r))) (concat r) # map concat rest,
      map length pre @ need # replicate j 0 @ (length r - d) # map length rest)"
    using d(2) unfolding d(3) thread_state_split
    by (simp add: ends_append ends_segment concat_take_take concat_drop_take cr add.assoc)
  have "take_from2 need ?t ?tt (thread_state ?E) = take_from2 need ?t (Suc ?tt) (thread_state ?E')"
    apply (subst take_from2.simps)
    apply (simp only: thread_state_split[of pre x j r rest] prod.case at_split length_map length_bounds
        bind.bind_lunit part if_True Let_def d_def[symmetric] One_nat_def v
        w[unfolded thread_state_split fst_conv])
    apply (simp only: st cr at_split length_map length_bounds part if_True lt)
    apply (simp add: lt less_imp_le eq)
    done
  also have "\<dots> = Some (thread_state ?E')" using d by (intro take_from2_stop) simp
  finally show ?thesis .
qed

lemma take_from2_all:
  assumes "length x < need" "length r \<le> need - length x"
  shows "take_from2 need (length pre) (Suc (length pre + j)) (thread_state (pre @ x # replicate j [] @ r # rest)) =
    take_from2 need (length pre) (Suc (length pre + Suc j)) (thread_state (pre @ (x @ r) # replicate (Suc j) [] @ rest))"
proof -
  have "thread_state (pre @ (x @ r) # replicate (Suc j) [] @ rest) =
      thread_state (pre @ (x @ r) # replicate j [] @ [] # rest)"
    by (simp add: replicate_app_Cons_same)
  then show ?thesis using assms
    by (subst take_from2.simps) (simp add: thread_state_split at_split Let_def ends_append add.assoc)
qed

lemma take_from2_sim:
  "take_from2 need (length pre) (Suc (length pre + j)) (thread_state (pre @ x # replicate j [] @ rest)) =
   map_option thread_state (take_from need (length pre) (Suc (length pre + j)) (pre @ x # replicate j [] @ rest))"
proof (induction rest arbitrary: x j)
  case Nil
  then show ?case
    by (subst take_from.simps, subst take_from2.simps) (simp add: thread_state_def at_split at_split_None)
next
  case (Cons r rest)
  let ?t = "length pre" and ?tt = "Suc (length pre + j)"
  let ?E = "pre @ x # replicate j [] @ r # rest"
  consider (enough) "need \<le> length x"
    | (part) "length x < need" "need - length x < length r"
    | (all) "length x < need" "length r \<le> need - length x" by linarith
  then show ?case
  proof cases
    case enough
    then show ?thesis by (subst take_from.simps) (simp add: take_from2_stop at_split)
  next
    case part
    let ?E' = "pre @ (x @ take (need - length x) r) # replicate j [] @ drop (need - length x) r # rest"
    have "take_from need ?t (Suc ?tt) ?E' = Some ?E'"
      using part by (subst take_from.simps) (simp add: at_split)
    then have "take_from need ?t ?tt ?E = Some ?E'"
      using part by (subst take_from.simps) (simp add: at_split Let_def)
    then show ?thesis using take_from2_part[OF part] by simp
  next
    case all
    then have "take_from need ?t ?tt ?E = take_from need ?t (Suc ?tt) (pre @ (x @ r) # replicate (Suc j) [] @ rest)"
      by (subst take_from.simps) (simp add: at_split Let_def replicate_app_Cons_same)
    then show ?thesis using Cons.IH[of "Suc j" "x @ r"] take_from2_all[OF all, of pre j rest] by simp
  qed
qed

lemma bounds_pair:
  "thread_state (pre @ x # r # rest) =
     (bounds pre @ (lead pre @ ends (length (concat (concat pre))) x) #
        ends (length (concat (concat pre)) + length (concat x)) r #
        bounds_from (length (concat (concat pre)) + length (concat x) + length (concat r)) rest,
      map concat pre @ concat x # concat r # map concat rest,
      map length pre @ length x # length r # map length rest)"
  using thread_state_split[of pre x 0 r rest] by simp

text \<open>
  The number of data entries behind the first \<open>need\<close> elements is read off the boundaries of
  the thread; a thread that is to keep nothing has no boundary in front of them, except for
  the first thread with its leading zero.
\<close>

lemma push_next2_sim:
  assumes "0 < need \<or> pre = [] \<or> length x \<le> need" and "rest = [] \<Longrightarrow> length x \<le> need"
  shows "push_next2 need (length pre) (thread_state (pre @ x # rest)) =
    map_option thread_state (push_next need (length pre) (pre @ x # rest))"
proof (cases "need < length x")
  case False
  then show ?thesis by (simp add: push_next_def push_next2_def thread_state_def at_split)
next
  case True
  with assms(2) obtain r rs where rest: "rest = r # rs" by (cases rest) auto
  let ?o = "length (concat (concat pre))" and ?k = "length (concat (take need x))"
  let ?b = "lead pre @ ends ?o x"
  let ?E' = "pre @ take need x # (drop need x @ r) # rs"
  define diff where "diff = length x - need"
  have diff: "length x - diff = need" "0 < diff" "diff \<le> length x" "length x = need + diff"
    using True by (auto simp: diff_def)
  have cx: "length (concat x) = ?k + length (concat (drop need x))"
    by (metis append_take_drop_id concat_append length_append)
  have lb: "last ?b = ?o + length (concat x)"
  proof -
    have "ends ?o x \<noteq> []" using True by auto
    then have "last ?b = last (?o # ends ?o x)" by simp
    then show ?thesis by (simp only: last_ends)
  qed
  have len: "diff + 1 \<le> length ?b" "length ?b - diff - 1 = (if pre = [] then need else need - 1)"
    "length ?b - diff = length (lead pre) + need"
    using assms(1) True by (auto simp: diff_def)
  have nth: "?b ! (length ?b - diff - 1) = ?o + ?k"
  proof (cases "pre = []")
    case True
    then show ?thesis unfolding len(2)
      using ends_nth[of "need - 1" x 0] \<open>need < length x\<close> by (cases need) auto
  next
    case False
    then show ?thesis unfolding len(2)
      using ends_nth[of "need - 1" x ?o] assms(1) True by (cases need) auto
  qed
  have st: "thread_state ?E' =
     (bounds pre @ take (length ?b - diff) ?b # (drop (length ?b - diff) ?b @ ends (?o + length (concat x)) r) #
        bounds_from (?o + length (concat x) + length (concat r)) rs,
      map concat pre @ concat (take need x) # (concat (drop need x) @ concat r) # map concat rs,
      map length pre @ need # (length r + diff) # map length rs)"
    unfolding bounds_pair len(3) using True
    by (simp add: ends_append ends_segment cx add.assoc diff_def)
  have "push_next need (length pre) (pre @ x # rest) = Some ?E'"
    using True by (simp add: push_next_def rest at_split Let_def)
  moreover have "push_next2 need (length pre) (thread_state (pre @ x # rest)) = Some (thread_state ?E')"
    unfolding push_next2_def rest bounds_pair[of pre x r rs] prod.case
    apply (simp only: at_split length_map length_bounds bind.bind_lunit True if_True Let_def
        diff_def[symmetric] len(1) nth lb add_diff_cancel_left Suc_eq_plus1[symmetric])
    apply (simp only: st at_split length_map length_bounds Suc_eq_plus1[symmetric])
    apply (simp add: cx diff concat_take_take concat_drop_take)
    using assms(1) True by auto
  ultimately show ?thesis by simp
qed

lemma balance_thread2_sim:
  assumes d: "is_distribution d k n" and len: "length E = k" and total: "length (concat E) = n"
    and bal: "balanced_upto 1 d t E" and t: "t < k"
    and empty: "0 < t \<Longrightarrow> d ! t = d ! Suc t \<Longrightarrow> d ! t = n"
  shows "balance_thread2 d t (thread_state E) = map_option thread_state (balance_thread 1 d t E)"
proof -
  let ?n = "d ! Suc t - d ! t"
  define pre x rest where "pre = take t E" and "x = E ! t" and "rest = drop (Suc t) E"
  have xs: "E = pre @ x # rest" "length pre = t" "length rest = k - Suc t"
    using t len by (auto simp: pre_def x_def rest_def id_take_nth_drop)
  have tot: "length (concat E) = 1 * n" using total by simp
  note rest = balance_remaining(1)[OF d len tot bal t xs(1,2), simplified]
    and need = balance_remaining(2)[OF d len tot bal t xs(1,2), simplified]
  obtain y ys where y: "take_from ?n t (Suc t) E = Some (pre @ y # ys)"
    "y @ concat ys = x @ concat rest" "length ys = length rest" "?n \<le> length y"
    using take_from_Some[OF need, of pre 0] by (auto simp: xs)
  have ylen: "length y + length (concat ys) = n - d ! t"
    using y(2) rest by (metis length_append)
  have y2: "take_from2 ?n t (Suc t) (thread_state E) = Some (thread_state (pre @ y # ys))"
    using take_from2_sim[of ?n pre 0 x rest] y(1) xs by simp
  have le: "d ! t \<le> d ! Suc t"
    using is_distribution_mono[OF d, of t "Suc t"] t by simp
  have "push_next2 ?n t (thread_state (pre @ y # ys)) = map_option thread_state (push_next ?n t (pre @ y # ys))"
    unfolding xs(2)[symmetric]
  proof (rule push_next2_sim)
    show "0 < d ! Suc (length pre) - d ! length pre \<or> pre = [] \<or> length y \<le> d ! Suc (length pre) - d ! length pre"
    proof (cases "pre = [] \<or> d ! t < d ! Suc t")
      case False
      then have "d ! t = n" using empty le xs(2) by (cases pre) auto
      then show ?thesis using ylen by simp
    qed (use xs(2) in auto)
    assume "ys = []"
    then have "Suc t = k" using y(3) xs(3) t by simp
    then have "d ! Suc t = n" using d by (simp add: is_distribution_def)
    then show "length y \<le> d ! Suc (length pre) - d ! length pre" using ylen xs(2) by simp
  qed
  then show ?thesis
    using y(1) y2 by (simp add: balance_thread2_def balance_thread_def share_Some[OF d t])
qed

text \<open>
  A share in the middle may be empty only when nothing is left: \<^verbatim>\<open>push_next\<close> reads the
  boundary in front of the last elements it moves, and a thread that keeps nothing has none.
  The default distribution satisfies this.
\<close>

definition no_gap :: "nat list \<Rightarrow> nat \<Rightarrow> nat \<Rightarrow> bool" where
  "no_gap d k n \<longleftrightarrow> (\<forall>t. 0 < t \<and> t < k \<and> d ! t = d ! Suc t \<longrightarrow> d ! t = n)"

lemma balance2_correct:
  assumes d: "is_distribution d (length E) (length (concat E))" and ne: "E \<noteq> []"
    and gap: "no_gap d (length E) (length (concat E))"
  shows "\<exists>E'. balance 1 E (Some d) = Some E' \<and>
    balance2 (bounds E) (map concat E) (Some d) = Some (bounds E', map concat E')"
proof -
  let ?I = "\<lambda>t xs. length xs = length E \<and> concat xs = concat E \<and> balanced_upto 1 d t xs"
  let ?J = "\<lambda>t st. \<exists>xs. for_each [0..<t] (balance_thread 1 d) E = Some xs \<and> ?I t xs \<and> st = thread_state xs"
  have "\<exists>st. for_each [0..<length E] (balance_thread2 d) (thread_state E) = Some st \<and> ?J (length E) st"
  proof (rule for_each_upt[where I = ?J])
    fix t st assume t: "t < length E" and J: "?J t st"
    then obtain xs where xs: "for_each [0..<t] (balance_thread 1 d) E = Some xs" "?I t xs" "st = thread_state xs"
      by blast
    then obtain ys where ys: "balance_thread 1 d t xs = Some ys" "?I (Suc t) ys"
      using balance_thread_Some[OF d, of xs 1 t] t by auto
    then have "balance_thread2 d t st = Some (thread_state ys)"
      using balance_thread2_sim[OF d, of xs t] xs(2,3) t gap by (auto simp: no_gap_def)
    moreover have "for_each [0..<Suc t] (balance_thread 1 d) E = Some ys"
      using xs(1) ys(1) by (simp add: for_each_append)
    ultimately show "\<exists>u. balance_thread2 d t st = Some u \<and> ?J (Suc t) u" using ys(2) by blast
  qed (auto simp: balanced_upto_def)
  then obtain xs where xs: "for_each [0..<length E] (balance_thread2 d) (thread_state E) = Some (thread_state xs)"
    "for_each [0..<length E] (balance_thread 1 d) E = Some xs" by blast
  have sz: "map length (bounds E) = (Suc (length (hd E))) # tl (map length E)"
  proof -
    have "map length (bounds_from off F) = map length F" for off and F :: "'a list list list"
      by (induction off F rule: bounds_from.induct) auto
    then show ?thesis using ne by (cases E) (auto simp: bounds_def)
  qed
  have "(map length (bounds E))[0 := map length (bounds E) ! 0 - 1] = map length E"
    unfolding sz using ne by (cases E) auto
  moreover have "0 < sum_list (map length (bounds E))" "map length (bounds E) ! 0 \<noteq> 0" by (simp_all add: sz)
  moreover have "bounds E \<noteq> []" using ne by (metis length_0_conv length_bounds)
  ultimately show ?thesis using xs
    by (auto simp: balance_def balance2_def Let_def thread_state_def simp del: sum_list_eq_0_iff)
qed

lemma no_gap_distribute: "0 < k \<Longrightarrow> no_gap (distribute k n) k n"
proof -
  assume k: "0 < k"
  have "distribute k n ! t = n" if t: "0 < t" "t < k" and eq: "distribute k n ! t = distribute k n ! Suc t" for t
  proof (cases "n = 0")
    case True
    then show ?thesis using is_distribution_le[OF is_distribution_distribute[OF k, of n], of t] t by simp
  next
    case False
    then have c: "0 < ceil_div n k" using ceil_div_mult_ge[OF k, of n] by (cases "ceil_div n k") auto
    show ?thesis using eq t c by (auto simp: distribute_nth min_def split: if_splits)
  qed
  then show ?thesis by (simp add: no_gap_def)
qed

section \<open>Properties\<close>

text \<open>
  C4: \<^verbatim>\<open>serializededata::balance\<close> for elements of equal size gives every thread exactly the
  slice of the concatenated data that the distribution assigns to it, whatever the threads held
  before; it reads and writes no thread past the last one.
\<close>

theorem balance_slices:
  assumes "is_distribution d (length data) n" and "length (concat data) = esize * n"
  shows "balance esize data (Some d) =
    Some (map (\<lambda>t. take (esize * d ! Suc t - esize * d ! t) (drop (esize * d ! t) (concat data))) [0..<length data])"
  using balance_correct[OF assms] by (simp add: vspan_def)

theorem balance_slices_witness:
  "balance 2 [[], [1 :: nat, 2, 3, 4, 5], [6]] (Some [0, 1, 1, 3]) =
    Some (map (\<lambda>t. take (2 * [0, 1, 1, 3] ! Suc t - 2 * [0, 1, 1, 3] ! t)
      (drop (2 * [0, 1, 1, 3] ! t) (concat [[], [1, 2, 3, 4, 5], [6]]))) [0..<length [[], [1 :: nat, 2, 3, 4, 5], [6]]])"
  by (rule balance_slices[where n = 3]) (simp_all add: is_distribution_def)

text \<open>
  C3: The \<^verbatim>\<open>balance\<close> for elements of different sizes refines the one for elements of size one:
  on the boundaries and data of a list of elements per thread, with the default distribution,
  it returns the boundaries and data of the balanced elements, cut from the same sequence of
  elements into the shares of the distribution.
\<close>

theorem balance2_refines:
  assumes "E \<noteq> []"
  shows "\<exists>E'. balance 1 E None = Some E' \<and>
    balance2 (bounds E) (map concat E) None = Some (bounds E', map concat E') \<and>
    concat E' = concat E \<and>
    map length E' = map (\<lambda>t. default_distribution E ! Suc t - default_distribution E ! t) [0..<length E]"
proof -
  let ?d = "default_distribution E" and ?n = "length (concat E)"
  note d = default_distribution_ok[OF assms]
  have def_d: "?d = distribute (length E) ?n" by (simp add: default_distribution_def length_concat)
  have gap: "no_gap ?d (length E) ?n" unfolding def_d using assms by (intro no_gap_distribute) simp
  have n: "sum_list (map length (bounds E)) - 1 = ?n"
    using concat_bounds[OF assms] by (simp flip: length_concat)
  have "balance2 (bounds E) (map concat E) None = balance2 (bounds E) (map concat E) (Some ?d)"
    by (simp add: balance2_def Let_def def_d n[simplified])
  moreover obtain E' where E': "balance 1 E (Some ?d) = Some E'"
    "balance2 (bounds E) (map concat E) (Some ?d) = Some (bounds E', map concat E')"
    using balance2_correct[OF d assms gap] by blast
  moreover obtain res where "balance 1 E (Some ?d) = Some res" "length res = length E"
    "concat res = concat E" "balanced_upto 1 ?d (length E) res"
    using balance_loop[OF d refl, of 1] by (auto simp: balance_def)
  moreover from this E'(1) have "map length E' = map (\<lambda>t. ?d ! Suc t - ?d ! t) [0..<length E]"
    by (intro nth_equalityI) (auto simp: balanced_upto_def)
  ultimately show ?thesis using balance_default[OF assms] by auto
qed

theorem balance2_refines_witness:
  "\<exists>E'. balance 1 [[], [[7 :: nat], [], [8, 9]], [[5, 6]]] None = Some E' \<and>
    balance2 (bounds [[], [[7 :: nat], [], [8, 9]], [[5, 6]]]) (map concat [[], [[7], [], [8, 9]], [[5, 6]]]) None =
      Some (bounds E', map concat E') \<and>
    concat E' = concat [[], [[7], [], [8, 9]], [[5, 6]]] \<and>
    map length E' = map (\<lambda>t. default_distribution [[], [[7 :: nat], [], [8, 9]], [[5, 6]]] ! Suc t -
      default_distribution [[], [[7 :: nat], [], [8, 9]], [[5, 6]]] ! t)
      [0..<length [[], [[7 :: nat], [], [8, 9]], [[5, 6]]]]"
  by (rule balance2_refines) simp

text \<open>
  With a provided distribution that leaves a thread between two others empty, the
  \<^verbatim>\<open>balance\<close> for elements of different sizes reads the boundary in front of the first one of
  that thread, outside its vector, although the elements can be balanced.
\<close>

theorem balance2_empty_share:
  "balance 1 [[''a''], [''b''], []] (Some [0, 1, 1, 2]) = Some [[''a''], [], [''b'']] \<and>
   balance2 (bounds [[''a''], [''b''], []]) (map concat [[''a''], [''b''], []]) (Some [0, 1, 1, 2]) = None"
proof
  show "balance 1 [[''a''], [''b''], []] (Some [0, 1, 1, 2]) = Some [[''a''], [], [''b'']]"
    by code_simp
  show "balance2 (bounds [[''a''], [''b''], []]) (map concat [[''a''], [''b''], []]) (Some [0, 1, 1, 2]) = None"
    by code_simp
qed

end
