(* ===== verification/Packing.thy ===== *)
theory Packing
  imports Esutils
begin

unbundle bit_operations_syntax

text \<open>
  Packing of values into the buffers that processes exchange: \<^verbatim>\<open>packedSize\<close>, \<^verbatim>\<open>pack\<close> and
  \<^verbatim>\<open>unpack\<close> of \<^verbatim>\<open>src/basis/utilities/utils.hpp\<close> and of the threaded array.  A cursor is the
  buffer and the position of the pointer \<^verbatim>\<open>p\<close>; copying past the end of the buffer is
  undefined and gives \<open>None\<close>.  A plain type is known by its object representation:
  \<open>rep\<close> gives the \<open>sizeof\<close> bytes of a value and \<open>val\<close> reads them.
\<close>

type_synonym byte = "8 word"
type_synonym cursor = "byte list \<times> nat"

definition put :: "byte list \<Rightarrow> cursor \<Rightarrow> cursor option" where
  "put bs c = (case c of (buf, p) \<Rightarrow>
     if p + length bs \<le> length buf then Some (take p buf @ bs @ drop (p + length bs) buf, p + length bs)
     else None)"

definition get :: "nat \<Rightarrow> cursor \<Rightarrow> (byte list \<times> cursor) option" where
  "get n c = (case c of (buf, p) \<Rightarrow>
     if p + n \<le> length buf then Some (take n (drop p buf), (buf, p + n)) else None)"

lemma put_fit: "length mid = length bs \<Longrightarrow> put bs (pre @ mid @ post, length pre) = Some (pre @ bs @ post, length pre + length bs)"
  by (simp add: put_def)

lemma get_fit: "n = length bs \<Longrightarrow> get n (pre @ bs @ post, length pre) = Some (bs, (pre @ bs @ post, length pre + n))"
  by (simp add: get_def)

section \<open>The contract of a packable type\<close>

text \<open>
  \<open>size_of\<close>, \<open>pack_to\<close> and \<open>unpack_from\<close> are the three operations, \<open>bytes\<close> is the
  encoding.  \<open>valid\<close> are the values whose sizes fit into \<^verbatim>\<open>size_t\<close>; \<open>over old x\<close> says that
  unpacking \<open>x\<close> into an object holding \<open>old\<close> replaces it.
\<close>

locale codec =
  fixes size_of :: "'a \<Rightarrow> nat"
    and pack_to :: "'a \<Rightarrow> cursor \<Rightarrow> cursor option"
    and unpack_from :: "'a \<Rightarrow> cursor \<Rightarrow> ('a \<times> cursor) option"
    and bytes :: "'a \<Rightarrow> byte list"
    and valid :: "'a \<Rightarrow> bool"
    and over :: "'a \<Rightarrow> 'a \<Rightarrow> bool"
  assumes size_bytes: "length (bytes x) = size_of x"
    and pack_fit: "valid x \<Longrightarrow> length mid = size_of x \<Longrightarrow>
      pack_to x (pre @ mid @ post, length pre) = Some (pre @ bytes x @ post, length pre + size_of x)"
    and unpack_fit: "valid x \<Longrightarrow> over old x \<Longrightarrow>
      unpack_from old (pre @ bytes x @ post, length pre) = Some (x, (pre @ bytes x @ post, length pre + size_of x))"
begin

lemma pack_fresh:
  "valid x \<Longrightarrow> pack_to x (replicate (size_of x) 0, 0) = Some (bytes x, size_of x)"
  using pack_fit[of x "replicate (size_of x) 0" "[]" "[]"] by simp

lemma round_trip:
  assumes "valid x" "over old x"
  shows "\<exists>buf. pack_to x (replicate (size_of x) 0, 0) = Some (buf, size_of x) \<and>
    unpack_from old (buf, 0) = Some (x, (buf, size_of x))"
  using pack_fresh[OF assms(1)] unpack_fit[OF assms, of "[]" "[]"] by simp

text \<open>Several values packed one after the other.\<close>

lemma pack_step:
  assumes "valid x" "size_of x \<le> length mid"
  shows "pack_to x (pre @ mid @ post, length pre) =
    Some ((pre @ bytes x) @ drop (size_of x) mid @ post, length (pre @ bytes x))"
proof -
  have eq: "take (size_of x) mid @ drop (size_of x) mid @ post = mid @ post" by (metis append_assoc append_take_drop_id)
  show ?thesis
    using pack_fit[OF assms(1), of "take (size_of x) mid" pre "drop (size_of x) mid @ post"] assms(2)
    by (simp add: size_bytes eq)
qed

lemma unpack_step:
  assumes "valid x" "over old x" "buf = pre @ bytes x @ post"
  shows "unpack_from old (buf, length pre) = Some (x, (buf, length (pre @ bytes x)))"
  using unpack_fit[OF assms(1,2), of pre post] assms(3) by (simp add: size_bytes)

lemma pack_many:
  assumes "\<And>x. x \<in> set xs \<Longrightarrow> valid x" and "length mid = sum_list (map size_of xs)"
  shows "for_each xs pack_to (pre @ mid @ post, length pre) =
    Some (pre @ concat (map bytes xs) @ post, length pre + sum_list (map size_of xs))"
  using assms
proof (induction xs arbitrary: pre mid)
  case (Cons x xs)
  let ?a = "take (size_of x) mid" and ?b = "drop (size_of x) mid"
  have "pack_to x (pre @ ?a @ (?b @ post), length pre) =
      Some ((pre @ bytes x) @ ?b @ post, length (pre @ bytes x))"
    using Cons.prems by (subst pack_fit) (auto simp: size_bytes)
  moreover have "pre @ ?a @ (?b @ post) = pre @ mid @ post" by simp
  ultimately have "pack_to x (pre @ mid @ post, length pre) =
      Some ((pre @ bytes x) @ ?b @ post, length (pre @ bytes x))" by simp
  moreover have "length ?b = sum_list (map size_of xs)" using Cons.prems(2) by simp
  ultimately show ?case
    using Cons.IH[of ?b "pre @ bytes x"] Cons.prems(1) by (simp add: size_bytes add.assoc)
qed simp

end

section \<open>Words as bytes\<close>

text \<open>Object representation of unsigned integers, least significant byte first.\<close>

primrec word_bytes :: "nat \<Rightarrow> 'a::len word \<Rightarrow> byte list" where
  "word_bytes 0 x = []"
| "word_bytes (Suc n) x = ucast x # word_bytes n (drop_bit 8 x)"

primrec bytes_word :: "byte list \<Rightarrow> 'a::len word" where
  "bytes_word [] = 0"
| "bytes_word (b # bs) = ucast b OR push_bit 8 (bytes_word bs)"

lemma length_word_bytes [simp]: "length (word_bytes n x) = n"
  by (induction n arbitrary: x) auto

lemma bytes_word_bytes: "bytes_word (word_bytes n x) = take_bit (8 * n) (x :: 'a::len word)"
proof (induction n arbitrary: x)
  case (Suc n)
  show ?case
  proof (rule bit_eqI)
    fix i assume "possible_bit TYPE('a word) i"
    then show "bit (bytes_word (word_bytes (Suc n) x) :: 'a word) i = bit (take_bit (8 * Suc n) x) i"
      by (cases "i < 8") (auto simp: Suc bit_or_iff bit_ucast_iff bit_push_bit_iff bit_take_bit_iff
          bit_drop_bit_eq possible_bit_word dest: bit_imp_le_length)
  qed
qed simp

definition size_bytes_of :: "nat \<Rightarrow> byte list" where
  "size_bytes_of n = word_bytes 8 (of_nat n :: 64 word)"

definition size_of_bytes :: "byte list \<Rightarrow> nat" where
  "size_of_bytes bs = unat (bytes_word bs :: 64 word)"

lemma length_size_bytes [simp]: "length (size_bytes_of n) = 8"
  by (simp add: size_bytes_of_def)

lemma size_of_size_bytes: "n < 2 ^ 64 \<Longrightarrow> size_of_bytes (size_bytes_of n) = n"
  by (simp add: size_of_bytes_def size_bytes_of_def bytes_word_bytes unat_of_nat take_bit_word_eq_self)

section \<open>Plain values and vectors\<close>

definition pack_plain :: "('a \<Rightarrow> byte list) \<Rightarrow> 'a \<Rightarrow> cursor \<Rightarrow> cursor option" where
  "pack_plain rep x c = put (rep x) c"

definition unpack_plain :: "(byte list \<Rightarrow> 'a) \<Rightarrow> nat \<Rightarrow> 'a \<Rightarrow> cursor \<Rightarrow> ('a \<times> cursor) option" where
  "unpack_plain val width old c = do { (bs, c) \<leftarrow> get width c; Some (val bs, c) }"

definition packedSize_vector :: "nat \<Rightarrow> 'a list \<Rightarrow> nat" where
  "packedSize_vector width xs = length xs * width + 8"

definition pack_vector :: "('a \<Rightarrow> byte list) \<Rightarrow> 'a list \<Rightarrow> cursor \<Rightarrow> cursor option" where
  "pack_vector rep xs c = do {
     c \<leftarrow> put (size_bytes_of (length xs)) c;
     if length xs \<noteq> 0 then put (concat (map rep xs)) c else Some c }"

text \<open>The elements of a vector from their bytes, \<open>width\<close> bytes each.\<close>

primrec chunks :: "nat \<Rightarrow> nat \<Rightarrow> 'b list \<Rightarrow> 'b list list" where
  "chunks width 0 bs = []"
| "chunks width (Suc n) bs = take width bs # chunks width n (drop width bs)"

definition unpack_vector :: "(byte list \<Rightarrow> 'a) \<Rightarrow> nat \<Rightarrow> 'a list \<Rightarrow> cursor \<Rightarrow> ('a list \<times> cursor) option" where
  "unpack_vector val width old c = do {
     (sb, c) \<leftarrow> get 8 c;
     let n = size_of_bytes sb;
     if n \<noteq> 0 then do {
       (bs, c) \<leftarrow> get (n * width) c;
       Some (map val (chunks width n bs), c) }
     else Some (old, c) }"

definition vector_bytes :: "('a \<Rightarrow> byte list) \<Rightarrow> 'a list \<Rightarrow> byte list" where
  "vector_bytes rep xs = size_bytes_of (length xs) @ concat (map rep xs)"

definition short :: "'a list \<Rightarrow> bool" where
  "short xs \<longleftrightarrow> length xs < 2 ^ 64"

text \<open>The vector that is unpacked replaces the old one unless it is empty.\<close>

definition over_vector :: "'a list \<Rightarrow> 'a list \<Rightarrow> bool" where
  "over_vector old xs \<longleftrightarrow> xs \<noteq> [] \<or> old = []"

lemma chunks_concat: "(\<And>x. x \<in> set xs \<Longrightarrow> length x = width) \<Longrightarrow> chunks width (length xs) (concat xs) = xs"
  by (induction xs) auto

locale plain =
  fixes rep :: "'a \<Rightarrow> byte list" and val :: "byte list \<Rightarrow> 'a" and width :: nat and fits :: "'a \<Rightarrow> bool"
  assumes rep_length: "length (rep x) = width"
    and val_rep: "fits x \<Longrightarrow> val (rep x) = x"
begin

lemma length_concat_rep [simp]: "length (concat (map rep xs)) = length xs * width"
  by (induction xs) (auto simp: rep_length)

lemma chunks_rep: "list_all fits xs \<Longrightarrow> map val (chunks width (length xs) (concat (map rep xs))) = xs"
proof -
  have "chunks width (length (map rep xs)) (concat (map rep xs)) = map rep xs"
    by (rule chunks_concat) (auto simp: rep_length)
  then show "list_all fits xs \<Longrightarrow> ?thesis" by (simp add: val_rep map_idI list_all_iff)
qed

lemma length_vector_bytes: "length (vector_bytes rep xs) = packedSize_vector width xs"
  by (simp add: vector_bytes_def packedSize_vector_def)

lemma pack_vector_fit:
  assumes "length mid = packedSize_vector width xs"
  shows "pack_vector rep xs (pre @ mid @ post, length pre) =
    Some (pre @ vector_bytes rep xs @ post, length pre + packedSize_vector width xs)"
proof -
  let ?a = "take 8 mid" and ?b = "drop 8 mid"
  have len: "length ?a = 8" "length ?b = length xs * width"
    using assms by (simp_all add: packedSize_vector_def)
  have "put (size_bytes_of (length xs)) (pre @ ?a @ (?b @ post), length pre) =
      Some ((pre @ size_bytes_of (length xs)) @ ?b @ post, length (pre @ size_bytes_of (length xs)))"
    using len by (subst put_fit) auto
  then have one: "put (size_bytes_of (length xs)) (pre @ mid @ post, length pre) =
      Some ((pre @ size_bytes_of (length xs)) @ ?b @ post, length (pre @ size_bytes_of (length xs)))"
    by (metis append_assoc append_take_drop_id)
  show ?thesis
  proof (cases "xs = []")
    case True
    then show ?thesis using assms put_fit[of mid "size_bytes_of 0" pre post]
      by (simp add: pack_vector_def vector_bytes_def packedSize_vector_def)
  next
    case False
    then show ?thesis using len(2)
      by (simp add: pack_vector_def one put_fit vector_bytes_def packedSize_vector_def del: append_assoc length_append)
        (simp add: add.assoc)
  qed
qed

lemma unpack_vector_fit:
  assumes "short xs \<and> list_all fits xs" "over_vector old xs"
  shows "unpack_vector val width old (pre @ vector_bytes rep xs @ post, length pre) =
    Some (xs, (pre @ vector_bytes rep xs @ post, length pre + packedSize_vector width xs))"
proof -
  let ?s = "size_bytes_of (length xs)" and ?d = "concat (map rep xs)"
  have one: "get 8 (pre @ vector_bytes rep xs @ post, length pre) =
      Some (?s, (pre @ vector_bytes rep xs @ post, length pre + 8))"
    using get_fit[of 8 ?s pre "?d @ post"] by (simp add: vector_bytes_def)
  have two: "get (length xs * width) (pre @ vector_bytes rep xs @ post, length pre + 8) =
      Some (?d, (pre @ vector_bytes rep xs @ post, length pre + 8 + length xs * width))"
    using get_fit[of "length xs * width" ?d "pre @ ?s" post] by (simp add: vector_bytes_def)
  have "size_of_bytes ?s = length xs" using assms(1) by (simp add: short_def size_of_size_bytes)
  then show ?thesis
    using assms one two chunks_rep[of xs]
    by (auto simp: unpack_vector_def packedSize_vector_def over_vector_def Let_def)
qed

sublocale plain_codec: codec "\<lambda>_. width" "pack_plain rep" "unpack_plain val width" rep fits "\<lambda>_ _. True"
proof
  show "length (rep x) = width" for x by (rule rep_length)
  show "pack_plain rep x (pre @ mid @ post, length pre) = Some (pre @ rep x @ post, length pre + width)"
    if "length mid = width" for x mid pre post
    using that put_fit[of mid "rep x" pre post] by (simp add: pack_plain_def rep_length)
  show "unpack_plain val width old (pre @ rep x @ post, length pre) =
      Some (x, (pre @ rep x @ post, length pre + width))" if "fits x" for old x pre post
    using that get_fit[of width "rep x" pre post] by (simp add: unpack_plain_def rep_length val_rep)
qed

sublocale vector_codec: codec "packedSize_vector width" "pack_vector rep" "unpack_vector val width"
  "vector_bytes rep" "\<lambda>xs. short xs \<and> list_all fits xs" over_vector
  by unfold_locales (simp_all add: length_vector_bytes pack_vector_fit unpack_vector_fit)

end

text \<open>The plain types of the code: \<^verbatim>\<open>size_t\<close>, \<^verbatim>\<open>eslocal\<close> (a 32-bit \<^verbatim>\<open>int\<close>) and \<^verbatim>\<open>char\<close>.\<close>

definition eslocal_bytes :: "32 word \<Rightarrow> byte list" where
  "eslocal_bytes = word_bytes 4"

definition eslocal_of_bytes :: "byte list \<Rightarrow> 32 word" where
  "eslocal_of_bytes = bytes_word"

definition size_t_bytes :: "64 word \<Rightarrow> byte list" where
  "size_t_bytes = word_bytes 8"

definition size_t_of_bytes :: "byte list \<Rightarrow> 64 word" where
  "size_t_of_bytes = bytes_word"

definition char_bytes :: "char \<Rightarrow> byte list" where
  "char_bytes c = [of_nat (of_char c)]"

definition char_of_bytes :: "byte list \<Rightarrow> char" where
  "char_of_bytes bs = char_of (unat (hd bs))"

interpretation eslocal: plain eslocal_bytes eslocal_of_bytes 4 "\<lambda>_. True"
  by unfold_locales (simp_all add: eslocal_bytes_def eslocal_of_bytes_def bytes_word_bytes take_bit_word_eq_self)

interpretation size_t: plain size_t_bytes size_t_of_bytes 8 "\<lambda>_. True"
  by unfold_locales (simp_all add: size_t_bytes_def size_t_of_bytes_def bytes_word_bytes take_bit_word_eq_self)

interpretation chars: plain char_bytes char_of_bytes 1 "\<lambda>_. True"
proof
  fix c :: char
  have "(of_char c :: nat) < 256" by (metis of_char_mod_256 mod_less_divisor zero_less_numeral)
  then show "char_of_bytes (char_bytes c) = c"
    by (simp add: char_of_bytes_def char_bytes_def unat_of_nat)
qed (simp add: char_bytes_def)

section \<open>Strings and vectors of strings\<close>

definition packedSize_string :: "string \<Rightarrow> nat" where
  "packedSize_string s = 8 + length s"

definition pack_string :: "string \<Rightarrow> cursor \<Rightarrow> cursor option" where
  "pack_string s c = do {
     c \<leftarrow> put (size_bytes_of (length s)) c;
     put (concat (map char_bytes s)) c }"

definition unpack_string :: "string \<Rightarrow> cursor \<Rightarrow> (string \<times> cursor) option" where
  "unpack_string old c = do {
     (sb, c) \<leftarrow> get 8 c;
     (bs, c) \<leftarrow> get (size_of_bytes sb) c;
     Some (map char_of_bytes (chunks 1 (size_of_bytes sb) bs), c) }"

definition packedSize_strings :: "string list \<Rightarrow> nat" where
  "packedSize_strings xs = fold (\<lambda>i n. n + packedSize_string (xs ! i)) [0..<length xs] 8"

definition pack_strings :: "string list \<Rightarrow> cursor \<Rightarrow> cursor option" where
  "pack_strings xs c = do {
     c \<leftarrow> put (size_bytes_of (length xs)) c;
     for_each xs pack_string c }"

definition unpack_strings :: "string list \<Rightarrow> cursor \<Rightarrow> (string list \<times> cursor) option" where
  "unpack_strings old c = do {
     (sb, c) \<leftarrow> get 8 c;
     let n = size_of_bytes sb;
     if n \<noteq> 0 then
       for_each [0..<n] (\<lambda>i (data, c). do {
         x \<leftarrow> rd data i;
         (x, c) \<leftarrow> unpack_string x c;
         data \<leftarrow> wr data i x;
         Some (data, c) }) (resize [] n old, c)
     else Some (old, c) }"

definition string_bytes :: "string \<Rightarrow> byte list" where
  "string_bytes s = size_bytes_of (length s) @ concat (map char_bytes s)"

definition strings_bytes :: "string list \<Rightarrow> byte list" where
  "strings_bytes xs = size_bytes_of (length xs) @ concat (map string_bytes xs)"

definition short_strings :: "string list \<Rightarrow> bool" where
  "short_strings xs \<longleftrightarrow> short xs \<and> list_all short xs"

lemma put_append: "put a c \<bind> put b = put (a @ b) c" if "snd c + length a + length b \<le> length (fst c)"
  using that by (auto simp: put_def ac_simps split: prod.splits)

lemma get_here: "length pre = p \<Longrightarrow> length bs = n \<Longrightarrow> get n (pre @ bs @ post, p) = Some (bs, (pre @ bs @ post, p + n))"
  by (auto simp: get_def)

interpretation strings: codec packedSize_string pack_string unpack_string string_bytes short "\<lambda>_ _. True"
proof
  fix s :: string
  show "length (string_bytes s) = packedSize_string s"
    by (simp add: string_bytes_def packedSize_string_def del: length_concat)
  show "pack_string s (pre @ mid @ post, length pre) = Some (pre @ string_bytes s @ post, length pre + packedSize_string s)"
    if "length mid = packedSize_string s" for mid pre post
  proof -
    have "pack_string s (pre @ mid @ post, length pre) = put (string_bytes s) (pre @ mid @ post, length pre)"
      unfolding pack_string_def string_bytes_def
      by (rule put_append) (use that in \<open>simp add: packedSize_string_def del: length_concat\<close>)
    then show ?thesis using that put_fit[of mid "string_bytes s" pre post]
      by (simp add: \<open>length (string_bytes s) = _\<close>)
  qed
  show "unpack_string old (pre @ string_bytes s @ post, length pre) =
      Some (s, (pre @ string_bytes s @ post, length pre + packedSize_string s))"
    if "short s" for old pre post
  proof -
    have "get 8 (pre @ string_bytes s @ post, length pre) =
        Some (size_bytes_of (length s), (pre @ string_bytes s @ post, length pre + 8))"
      using get_fit[of 8 "size_bytes_of (length s)" pre "concat (map char_bytes s) @ post"]
      by (simp add: string_bytes_def)
    moreover have "get (length s) (pre @ string_bytes s @ post, length pre + 8) =
        Some (concat (map char_bytes s), (pre @ string_bytes s @ post, length pre + 8 + length s))"
      using get_fit[of "length s" "concat (map char_bytes s)" "pre @ size_bytes_of (length s)" post]
      by (simp add: string_bytes_def del: length_concat)
    moreover have "size_of_bytes (size_bytes_of (length s)) = length s"
      using that by (simp add: short_def size_of_size_bytes)
    moreover have "list_all (\<lambda>_. True) s" by (simp add: list_all_iff)
    ultimately show ?thesis using chars.chunks_rep[of s]
      by (simp add: unpack_string_def packedSize_string_def add.assoc)
  qed
qed

lemma packedSize_strings_eq: "packedSize_strings xs = 8 + sum_list (map packedSize_string xs)"
proof -
  have "fold (\<lambda>i n. n + packedSize_string (xs ! i)) [0..<m] 8 = 8 + sum_list (map packedSize_string (take m xs))"
    if "m \<le> length xs" for m
    using that by (induction m) (auto simp: take_Suc_conv_app_nth)
  then show ?thesis by (simp add: packedSize_strings_def)
qed

interpretation string_vector: codec packedSize_strings pack_strings unpack_strings strings_bytes short_strings over_vector
proof
  fix xs :: "string list"
  show len: "length (strings_bytes xs) = packedSize_strings xs"
    by (simp add: strings_bytes_def packedSize_strings_eq length_concat strings.size_bytes comp_def)
  show "pack_strings xs (pre @ mid @ post, length pre) = Some (pre @ strings_bytes xs @ post, length pre + packedSize_strings xs)"
    if "short_strings xs" "length mid = packedSize_strings xs" for mid pre post
  proof -
    let ?a = "take 8 mid" and ?b = "drop 8 mid" and ?s = "size_bytes_of (length xs)"
    have l: "length ?a = 8" "length ?b = sum_list (map packedSize_string xs)"
      using that(2) by (simp_all add: packedSize_strings_eq)
    have "put ?s (pre @ ?a @ (?b @ post), length pre) = Some ((pre @ ?s) @ ?b @ post, length (pre @ ?s))"
      using l(1) by (subst put_fit) auto
    then have "put ?s (pre @ mid @ post, length pre) = Some ((pre @ ?s) @ ?b @ post, length (pre @ ?s))"
      by (metis append_assoc append_take_drop_id)
    moreover have "for_each xs pack_string ((pre @ ?s) @ ?b @ post, length (pre @ ?s)) =
        Some ((pre @ ?s) @ concat (map string_bytes xs) @ post, length (pre @ ?s) + sum_list (map packedSize_string xs))"
      using that(1) l(2) by (intro strings.pack_many) (auto simp: short_strings_def list_all_iff)
    ultimately show ?thesis
      by (simp add: pack_strings_def strings_bytes_def packedSize_strings_eq)
  qed
  show "unpack_strings old (pre @ strings_bytes xs @ post, length pre) =
      Some (xs, (pre @ strings_bytes xs @ post, length pre + packedSize_strings xs))"
    if ok: "short_strings xs" "over_vector old xs" for old pre post
  proof -
    let ?buf = "pre @ strings_bytes xs @ post"
    have h: "get 8 (?buf, length pre) = Some (size_bytes_of (length xs), (?buf, length pre + 8))"
      using get_fit[of 8 "size_bytes_of (length xs)" pre "concat (map string_bytes xs) @ post"]
      by (simp add: strings_bytes_def)
    have n: "size_of_bytes (size_bytes_of (length xs)) = length xs"
      using ok(1) by (simp add: short_strings_def short_def size_of_size_bytes)
    let ?body = "\<lambda>i (data, c). do { x \<leftarrow> rd data i; (x, c) \<leftarrow> unpack_string x c; data \<leftarrow> wr data i x; Some (data, c) }"
    let ?pos = "\<lambda>i. length pre + 8 + sum_list (map packedSize_string (take i xs))"
    let ?I = "\<lambda>i (data, c). length data = length xs \<and> take i data = take i xs \<and> c = (?buf, ?pos i)"
    have "\<exists>r. for_each [0..<length xs] ?body (resize [] (length xs) old, (?buf, length pre + 8)) = Some r \<and> ?I (length xs) r"
    proof (rule for_each_upt[where I = ?I])
      show "?I 0 (resize [] (length xs) old, (?buf, length pre + 8))" by (simp add: resize_def)
      fix i and r :: "string list \<times> cursor"
      assume i: "i < length xs" and I: "?I i r"
      obtain data where r: "r = (data, (?buf, ?pos i))" "length data = length xs" "take i data = take i xs"
        using I by (cases r) auto
      have buf: "?buf = (pre @ size_bytes_of (length xs) @ concat (map string_bytes (take i xs))) @
          string_bytes (xs ! i) @ (concat (map string_bytes (drop (Suc i) xs)) @ post)"
      proof -
        have "concat (map string_bytes xs) = concat (map string_bytes (take i xs)) @ string_bytes (xs ! i) @
            concat (map string_bytes (drop (Suc i) xs))"
          using i by (metis append.assoc concat.simps(2) concat_append id_take_nth_drop list.simps(9) map_append)
        then show ?thesis by (simp add: strings_bytes_def)
      qed
      have pos: "?pos i = length (pre @ size_bytes_of (length xs) @ concat (map string_bytes (take i xs)))"
        by (simp add: length_concat strings.size_bytes comp_def)
      have "short (xs ! i)" using ok(1) i by (simp add: short_strings_def list_all_length)
      then have "unpack_string (data ! i) (?buf, ?pos i) = Some (xs ! i, (?buf, ?pos i + packedSize_string (xs ! i)))"
        unfolding pos buf by (rule strings.unpack_fit) simp
      moreover have "?pos i + packedSize_string (xs ! i) = ?pos (Suc i)"
        using i by (simp add: take_Suc_conv_app_nth)
      moreover have "take (Suc i) (data[i := xs ! i]) = take (Suc i) xs"
        using i r(2,3) by (simp add: take_Suc_conv_app_nth)
      ultimately show "\<exists>u. ?body i r = Some u \<and> ?I (Suc i) u"
        using i r by (simp add: mem_simps)
    qed simp
    then show ?thesis using h n ok(2)
      by (auto simp: unpack_strings_def packedSize_strings_eq over_vector_def Let_def add.assoc)
  qed
qed

section \<open>Properties\<close>

text \<open>
  C6: Packing into a buffer of exactly \<^verbatim>\<open>packedSize\<close> bytes fills it, and unpacking gives the
  value back and ends where packing ended: for vectors of \<^verbatim>\<open>eslocal\<close>, strings and vectors of
  strings, provided the sizes fit into \<^verbatim>\<open>size_t\<close> and an empty vector is not unpacked over a
  filled one.
\<close>

theorem pack_unpack:
  assumes "short ns" "over_vector old_ns ns" "short s" "short_strings xs" "over_vector old_xs xs"
  shows "(\<exists>buf. pack_vector eslocal_bytes ns (replicate (packedSize_vector 4 ns) 0, 0) = Some (buf, packedSize_vector 4 ns) \<and>
      unpack_vector eslocal_of_bytes 4 old_ns (buf, 0) = Some (ns, (buf, packedSize_vector 4 ns))) \<and>
    (\<exists>buf. pack_string s (replicate (packedSize_string s) 0, 0) = Some (buf, packedSize_string s) \<and>
      unpack_string old_s (buf, 0) = Some (s, (buf, packedSize_string s))) \<and>
    (\<exists>buf. pack_strings xs (replicate (packedSize_strings xs) 0, 0) = Some (buf, packedSize_strings xs) \<and>
      unpack_strings old_xs (buf, 0) = Some (xs, (buf, packedSize_strings xs)))"
proof -
  have "list_all (\<lambda>_. True) ns" by (simp add: list_all_iff)
  then show ?thesis
    using eslocal.vector_codec.round_trip[OF conjI[OF assms(1)] assms(2)] strings.round_trip[OF assms(3) TrueI]
      string_vector.round_trip[OF assms(4,5)] by blast
qed

theorem pack_unpack_witness:
  "(\<exists>buf. pack_vector eslocal_bytes [5, -1] (replicate (packedSize_vector 4 [5, -1 :: 32 word]) 0, 0) =
        Some (buf, packedSize_vector 4 [5, -1 :: 32 word]) \<and>
      unpack_vector eslocal_of_bytes 4 [9] (buf, 0) = Some ([5, -1], (buf, packedSize_vector 4 [5, -1 :: 32 word]))) \<and>
    (\<exists>buf. pack_string ''abc'' (replicate (packedSize_string ''abc'') 0, 0) = Some (buf, packedSize_string ''abc'') \<and>
      unpack_string ''x'' (buf, 0) = Some (''abc'', (buf, packedSize_string ''abc''))) \<and>
    (\<exists>buf. pack_strings [''a'', []] (replicate (packedSize_strings [''a'', []]) 0, 0) =
        Some (buf, packedSize_strings [''a'', []]) \<and>
      unpack_strings [] (buf, 0) = Some ([''a'', []], (buf, packedSize_strings [''a'', []])))"
  by (rule pack_unpack) (simp_all add: short_def over_vector_def short_strings_def)

text \<open>
  Unpacking an empty vector leaves the old contents of the target in place, for every
  element type and for strings: the packed value is lost.
\<close>

theorem unpack_empty_keeps_old:
  "(\<exists>buf. pack_vector eslocal_bytes [] (replicate (packedSize_vector 4 ([] :: 32 word list)) 0, 0) = Some (buf, 8) \<and>
      unpack_vector eslocal_of_bytes 4 old (buf, 0) = Some (old, (buf, 8))) \<and>
   (\<exists>buf. pack_strings [] (replicate (packedSize_strings []) 0, 0) = Some (buf, 8) \<and>
      unpack_strings olds (buf, 0) = Some (olds, (buf, 8)))"
proof -
  have n: "size_of_bytes (size_bytes_of 0) = 0" by (simp add: size_of_size_bytes)
  have "put (size_bytes_of 0) (replicate 8 0, 0) = Some (size_bytes_of 0, 8)"
    "get 8 (size_bytes_of 0, 0) = Some (size_bytes_of 0, (size_bytes_of 0, 8))"
    by (simp_all add: put_def get_def)
  then show ?thesis
    by (simp add: pack_vector_def packedSize_vector_def unpack_vector_def n
        pack_strings_def packedSize_strings_eq unpack_strings_def)
qed

end
