(* ===== verification/SerializedData.thy ===== *)
theory SerializedData
  imports Balance Packing
begin

text \<open>
  \<^verbatim>\<open>serializededata\<close> of \<^verbatim>\<open>src/basis/containers/serializededata.h\<close>: a sequence of structures,
  either all of \<open>edatasize\<close> entries or cut by a boundary array, with one iterator per thread
  border.  A boundary array holds 0 and the ends of all structures; its first thread owns the
  additional 0, so the borders of its distribution are one larger than the numbers of
  structures.
\<close>

section \<open>State\<close>

text \<open>
  An iterator points to a boundary (\<open>None\<close> is the NULL pointer of uniform data), knows the
  last boundary, and has the range of its structure in the data.
\<close>

record iter =
  it_element :: "nat option"
  it_last :: nat
  it_begin :: int
  it_end :: int

record 'a serializededata =
  eboundaries :: "nat tarray"
  edata :: "'a tarray"
  edatasize :: int
  iterators :: "iter list"

definition cells :: "'a tarray \<Rightarrow> 'a option list" where
  "cells A = (case tdata A of None \<Rightarrow> [] | Some c \<Rightarrow> c)"

definition threads :: "'a tarray \<Rightarrow> nat" where
  "threads A = length (tdistribution A) - 1"

definition structures :: "'a serializededata \<Rightarrow> nat option" where
  "structures s =
     (if tsize (eboundaries s) \<noteq> 0 then Some (tsize (eboundaries s) - 1)
      else if edatasize s = 0 then None
      else Some (tsize (edata s) div nat (edatasize s)))"

section \<open>Iterators\<close>

definition iter_move :: "nat list \<Rightarrow> int \<Rightarrow> iter \<Rightarrow> iter option" where
  "iter_move bs n it = (case it_element it of
     None \<Rightarrow> (let k = it_end it - it_begin it
       in Some (it\<lparr>it_begin := it_begin it + n * k, it_end := it_end it + n * k\<rparr>))
   | Some e \<Rightarrow>
       if int e + n < 0 then None
       else do {
         let e' = nat (int e + n);
         a \<leftarrow> rd bs e;
         b \<leftarrow> rd bs e';
         let from = it_begin it + (int b - int a);
         to \<leftarrow> (if e' \<noteq> it_last it then do { c \<leftarrow> rd bs (e' + 1); Some (from + (int c - int b)) } else Some from);
         Some (it\<lparr>it_element := Some e', it_begin := from, it_end := to\<rparr>) })"

definition iter_bounds :: "'b tarray \<Rightarrow> nat list \<Rightarrow> iter option" where
  "iter_bounds B bs = iter_move bs 0
     \<lparr>it_element = (if tdata B = None then None else Some 0), it_last = tsize B - 1, it_begin = 0, it_end = 0\<rparr>"

definition iter_uniform :: "int \<Rightarrow> iter" where
  "iter_uniform k = \<lparr>it_element = None, it_last = 0, it_begin = 0, it_end = k\<rparr>"

text \<open>\<^verbatim>\<open>inititerators()\<close> and \<^verbatim>\<open>inititerators(size_t edatasize)\<close>.\<close>

definition init_bounded :: "'a serializededata \<Rightarrow> 'a serializededata option" where
  "init_bounded s = do {
     bs \<leftarrow> those (cells (eboundaries s));
     it \<leftarrow> iter_bounds (eboundaries s) bs;
     its \<leftarrow> for_each [1..<threads (edata s) + 1] (\<lambda>t its. do {
         d \<leftarrow> rd (tdistribution (eboundaries s)) t;
         it \<leftarrow> rd its t;
         it \<leftarrow> iter_move bs (int d - 1) it;
         wr its t it
       }) (replicate (threads (edata s) + 1) it);
     Some (s\<lparr>iterators := its\<rparr>) }"

definition init_uniform :: "int \<Rightarrow> 'a serializededata \<Rightarrow> 'a serializededata option" where
  "init_uniform k s = do {
     its \<leftarrow> for_each [1..<threads (edata s) + 1] (\<lambda>t its. do {
         d \<leftarrow> rd (tdistribution (edata s)) t;
         it \<leftarrow> rd its t;
         it \<leftarrow> (if k = 0 then None else iter_move [] (int d div k) it);
         wr its t it
       }) (replicate (threads (edata s) + 1) (iter_uniform k));
     Some (s\<lparr>iterators := its\<rparr>) }"

section \<open>Construction and assignment\<close>

definition no_boundaries :: "nat tarray" where
  "no_boundaries = \<lparr>tsize = 0, tdata = None, tdistribution = distribute 0 0\<rparr>"

definition sd_uniform :: "int \<Rightarrow> 'a tarray \<Rightarrow> 'a serializededata option" where
  "sd_uniform k A = init_uniform k
     \<lparr>eboundaries = no_boundaries, edata = A, edatasize = k, iterators = []\<rparr>"

definition sd_bounded :: "nat tarray \<Rightarrow> 'a tarray \<Rightarrow> 'a serializededata option" where
  "sd_bounded B A = init_bounded \<lparr>eboundaries = B, edata = A, edatasize = -1, iterators = []\<rparr>"

definition sd_copy :: "'a serializededata \<Rightarrow> 'a serializededata option" where
  "sd_copy s = (if edatasize s \<noteq> -1 then init_uniform (edatasize s) s else init_bounded s)"

text \<open>
  The move constructor and both assignments always rebuild the iterators from boundaries.  The
  moves take over the members as they are; the copy assignment assigns both arrays, which leaves
  missing boundaries with an empty allocation instead of NULL.
\<close>

definition sd_assign :: "nat list \<Rightarrow> nat list \<Rightarrow> 'a serializededata \<Rightarrow> 'a serializededata option" where
  "sd_assign sched_b sched_d s = do {
     B \<leftarrow> tarray_assign sched_b (eboundaries s);
     A \<leftarrow> tarray_assign sched_d (edata s);
     init_bounded \<lparr>eboundaries = B, edata = A, edatasize = edatasize s, iterators = []\<rparr> }"

definition sd_move :: "'a serializededata \<Rightarrow> 'a serializededata option" where
  "sd_move s = init_bounded s"

section \<open>Permutation\<close>

definition data_range :: "'a tarray \<Rightarrow> nat \<Rightarrow> nat \<Rightarrow> 'a list option" where
  "data_range A a b =
     (if a \<le> b \<and> b \<le> length (cells A) then those (vspan a b (cells A)) else None)"

definition permuteUniformData :: "nat list \<Rightarrow> nat list \<Rightarrow> 'a serializededata \<Rightarrow> 'a serializededata option" where
  "permuteUniformData permutation distribution s = do {
     let k = nat (edatasize s);
     pdata \<leftarrow> those (map (\<lambda>t. do {
         a \<leftarrow> rd distribution t;
         b \<leftarrow> rd distribution (t + 1);
         for_each [a..<b] (\<lambda>i pd. do {
           p \<leftarrow> rd permutation i;
           seg \<leftarrow> data_range (edata s) (k * p) (k * (p + 1));
           Some (pd @ seg) }) []
       }) [0..<threads (edata s)]);
     A \<leftarrow> tarray_blocks [0..<threads (edata s)] pdata;
     init_uniform (edatasize s) (s\<lparr>edata := A\<rparr>) }"

definition permute_thread ::
  "nat list \<Rightarrow> 'a tarray \<Rightarrow> nat list \<Rightarrow> nat list \<Rightarrow> nat \<Rightarrow> (nat list \<times> 'a list) option" where
  "permute_thread bs A permutation distribution t = do {
     a \<leftarrow> rd distribution t;
     b \<leftarrow> rd distribution (t + 1);
     for_each [(if t = 0 then 1 else a)..<b] (\<lambda>e (pb, pd). do {
       p \<leftarrow> (if e = 0 then None else rd permutation (e - 1));
       x \<leftarrow> rd bs p;
       y \<leftarrow> rd bs (p + 1);
       seg \<leftarrow> data_range A x y;
       let pb = pb @ [y - x];
       let n = length pb;
       let pb = (if 1 < n then pb[n - 1 := pb ! (n - 1) + pb ! (n - 2)] else pb);
       Some (pb, pd @ seg) }) (if t = 0 then [0] else [], []) }"

definition permuteNonUniformData :: "nat list \<Rightarrow> nat list \<Rightarrow> 'a serializededata \<Rightarrow> 'a serializededata option" where
  "permuteNonUniformData permutation providedDistribution s =
     (let n = threads (edata s); db = tdistribution (eboundaries s) in
      if db = [] \<or> providedDistribution = [] \<or> n = 0 then None
      else do {
        distribution \<leftarrow> (if last providedDistribution < last db
          then for_each [1..<n + 1] (\<lambda>t d. do { x \<leftarrow> rd d t; wr d t (x + 1) }) providedDistribution
          else Some providedDistribution);
        bs \<leftarrow> those (cells (eboundaries s));
        parts \<leftarrow> those (map (permute_thread bs (edata s) permutation distribution) [0..<n]);
        let pboundaries = threadDistributionToFull (map fst parts);
        B \<leftarrow> tarray_blocks [0..<n] pboundaries;
        A \<leftarrow> tarray_blocks [0..<n] (map snd parts);
        init_bounded (s\<lparr>eboundaries := B, edata := A\<rparr>) })"

definition sd_permute :: "nat list \<Rightarrow> nat list \<Rightarrow> 'a serializededata \<Rightarrow> 'a serializededata option" where
  "sd_permute permutation distribution s =
     (if tsize (eboundaries s) \<noteq> 0 then permuteNonUniformData permutation distribution s
      else permuteUniformData permutation distribution s)"

section \<open>Correctness of the iterators\<close>

lemma those_map_Some [simp]: "those (map Some xs) = Some xs"
  by (induction xs) auto

lemma those_eq_Some: "those xs = Some ys \<longleftrightarrow> xs = map Some ys"
  by (induction xs arbitrary: ys) (auto split: option.splits)

lemma those_map: "(\<And>x. x \<in> set xs \<Longrightarrow> f x = Some (g x)) \<Longrightarrow> those (map f xs) = Some (map g xs)"
  by (induction xs) auto

lemma cells_holds: "tarray_holds A d xs \<Longrightarrow> cells A = map Some xs"
  by (auto simp: tarray_holds_def cells_def)

text \<open>An iterator is at structure \<open>i\<close> of the boundaries \<open>bs\<close>.\<close>

definition iter_at :: "nat list \<Rightarrow> nat \<Rightarrow> iter \<Rightarrow> bool" where
  "iter_at bs i it \<longleftrightarrow> i < length bs \<and> it_element it = Some i \<and> it_last it = length bs - 1 \<and>
     it_begin it = int (bs ! i) - int (bs ! 0) \<and>
     it_end it = int (bs ! (if i = length bs - 1 then i else i + 1)) - int (bs ! 0)"

lemma iter_move_at:
  assumes "iter_at bs i it" and "j < length bs" and "int i + n = int j"
  shows "\<exists>it'. iter_move bs n it = Some it' \<and> iter_at bs j it'"
  using assms by (auto simp: iter_at_def iter_move_def mem_simps Let_def)

lemma iter_bounds_at:
  assumes "tarray_holds B d bs" and "bs \<noteq> []"
  shows "\<exists>it. iter_bounds B bs = Some it \<and> iter_at bs 0 it"
  using assms by (auto simp: iter_bounds_def tarray_holds_def iter_move_def iter_at_def mem_simps Let_def)

text \<open>After initialisation the iterator of thread border \<open>t\<close> is at the first structure of thread \<open>t\<close>.\<close>

definition border_structure :: "nat list \<Rightarrow> nat \<Rightarrow> nat" where
  "border_structure d t = (if t = 0 then 0 else d ! t - 1)"

lemma init_bounded_correct:
  assumes B: "tarray_holds (eboundaries s) d bs" and k: "threads (edata s) = k"
    and d: "length d = Suc k" "\<And>t. 0 < t \<Longrightarrow> t \<le> k \<Longrightarrow> 0 < d ! t \<and> d ! t \<le> length bs" and "bs \<noteq> []"
  shows "\<exists>its. init_bounded s = Some (s\<lparr>iterators := its\<rparr>) \<and> length its = Suc k \<and>
    (\<forall>t \<le> k. iter_at bs (border_structure d t) (its ! t))"
proof -
  obtain it where it: "iter_bounds (eboundaries s) bs = Some it" "iter_at bs 0 it"
    using iter_bounds_at[OF B \<open>bs \<noteq> []\<close>] by blast
  let ?body = "\<lambda>t its. do { d \<leftarrow> rd (tdistribution (eboundaries s)) t; it \<leftarrow> rd its t;
      it \<leftarrow> iter_move bs (int d - 1) it; wr its t it }"
  let ?I = "\<lambda>n its. length its = Suc k \<and> (\<forall>t < n. iter_at bs (border_structure d t) (its ! t)) \<and>
      (\<forall>t \<le> k. n \<le> t \<longrightarrow> its ! t = it)"
  have "\<exists>its. for_each [1..<Suc k] ?body (replicate (Suc k) it) = Some its \<and> ?I (Suc k) its"
  proof (rule for_each_upt[where I = ?I])
    show "?I 1 (replicate (Suc k) it)" using it(2) by (auto simp: border_structure_def nth_Cons split: nat.splits)
    fix t its assume t: "1 \<le> t" "t < Suc k" and I: "?I t its"
    have dt: "0 < d ! t" "d ! t \<le> length bs" using d(2)[of t] t by auto
    then have "d ! t - 1 < length bs" "int 0 + (int (d ! t) - 1) = int (d ! t - 1)" by linarith+
    from iter_move_at[OF it(2) this]
    obtain it' where "iter_move bs (int (d ! t) - 1) it = Some it'" "iter_at bs (d ! t - 1) it'" by blast
    then have "iter_move bs (int (d ! t) - 1) it = Some it'" "iter_at bs (border_structure d t) it'"
      using t by (auto simp: border_structure_def)
    then show "\<exists>u. ?body t its = Some u \<and> ?I (Suc t) u"
      using I t d(1) B by (auto simp: mem_simps tarray_holds_def nth_list_update less_Suc_eq)
  qed simp
  then obtain its where "for_each [1..<Suc k] ?body (replicate (Suc k) it) = Some its" "?I (Suc k) its" by blast
  then show ?thesis using it(1) cells_holds[OF B] k
    by (auto simp: init_bounded_def less_Suc_eq_le simp del: upt_Suc)
qed

lemma init_uniform_correct:
  assumes k: "0 < k" and d: "length (tdistribution (edata s)) = Suc n"
  shows "\<exists>its. init_uniform (int k) s = Some (s\<lparr>iterators := its\<rparr>) \<and> length its = Suc n \<and>
    (\<forall>t. 0 < t \<and> t \<le> n \<longrightarrow> it_begin (its ! t) = int (k * (tdistribution (edata s) ! t div k)) \<and>
       it_end (its ! t) = it_begin (its ! t) + int k) \<and> its ! 0 = iter_uniform (int k)"
proof -
  let ?d = "tdistribution (edata s)" and ?u = "iter_uniform (int k)"
  let ?body = "\<lambda>t its. do { d \<leftarrow> rd ?d t; it \<leftarrow> rd its t;
      it \<leftarrow> (if int k = 0 then None else iter_move [] (int d div int k) it); wr its t it }"
  let ?ok = "\<lambda>t it. it_begin it = int (k * (?d ! t div k)) \<and> it_end it = it_begin it + int k"
  let ?I = "\<lambda>m its. length its = Suc n \<and> (\<forall>t. 0 < t \<and> t < m \<longrightarrow> ?ok t (its ! t)) \<and>
      its ! 0 = ?u \<and> (\<forall>t \<le> n. m \<le> t \<longrightarrow> its ! t = ?u)"
  have "\<exists>its. for_each [1..<Suc n] ?body (replicate (Suc n) ?u) = Some its \<and> ?I (Suc n) its"
  proof (rule for_each_upt[where I = ?I])
    fix t its assume t: "1 \<le> t" "t < Suc n" and I: "?I t its"
    obtain it' where it': "iter_move [] (int (?d ! t) div int k) ?u = Some it'" "?ok t it'"
      by (auto simp: iter_move_def iter_uniform_def zdiv_int mult.commute Let_def)
    have "its ! t = ?u" using I t by simp
    then have "?body t its = Some (its[t := it'])" using I t d k it'(1) by (simp add: mem_simps)
    moreover have "?I (Suc t) (its[t := it'])" using I t it'(2) by (auto simp: nth_list_update less_Suc_eq)
    ultimately show "\<exists>u. ?body t its = Some u \<and> ?I (Suc t) u" by blast
  qed (use nth_replicate in auto)
  then obtain its where "for_each [1..<Suc n] ?body (replicate (Suc n) ?u) = Some its" "?I (Suc n) its" by blast
  then show ?thesis using d by (auto simp: init_uniform_def threads_def less_Suc_eq_le simp del: upt_Suc)
qed

section \<open>Correctness of the permutations\<close>

lemma data_range_holds:
  assumes "tarray_holds A d xs" "a \<le> b" "b \<le> length xs"
  shows "data_range A a b = Some (vspan a b xs)"
  using assms by (simp add: data_range_def cells_holds flip: map_vspan)

lemma boundary_nth: "p \<le> length E \<Longrightarrow> (0 # ends 0 E) ! p = length (concat (take p E))"
  by (cases p) (simp_all add: ends_nth)

lemma vspan_element:
  "p < length E \<Longrightarrow> vspan (length (concat (take p E))) (length (concat (take (Suc p) E))) (concat E) = E ! p"
  using block_of_concat[of p E] by (simp add: vspan_def take_Suc_conv_app_nth)

lemma length_concat_take_le: "length (concat (take p E)) \<le> length (concat E)"
  by (metis append_take_drop_id concat_append le_add1 length_append)

lemma length_concat_take_mono: "p \<le> q \<Longrightarrow> length (concat (take p E)) \<le> length (concat (take q E))"
  using length_concat_take_le[of p "take q E"] by (simp add: min.absorb1)

lemma accumulate_last: "pb \<noteq> [] \<Longrightarrow>
    (pb @ [v])[length pb := v + (pb @ [v]) ! (length pb - 1)] = pb @ [v + last pb]"
  by (cases pb rule: rev_cases) (simp_all add: list_update_append nth_append)

lemma accumulate_end:
  assumes "pb = (if first then [0] else []) @ ends 0 xs"
  shows "(let pb = pb @ [length e]; n = length pb
          in if 1 < n then pb[n - 1 := pb ! (n - 1) + pb ! (n - 2)] else pb) =
    (if first then [0] else []) @ ends 0 (xs @ [e])"
proof (cases "pb = []")
  case True
  then show ?thesis using assms by (auto split: if_splits)
next
  case False
  have "last pb = length (concat xs)"
    using assms False last_ends[of 0 xs] by (cases "ends 0 xs = []") (auto split: if_splits)
  then have "pb @ [length e + last pb] = (if first then [0] else []) @ ends 0 (xs @ [e])"
    using assms by (simp add: ends_append)
  then show ?thesis using accumulate_last[OF False, of "length e"] False by (simp add: Let_def nth_append)
qed

lemma permute_thread_correct:
  assumes A: "tarray_holds A dA (concat E)" and perm: "length perm = n" "\<And>p. p \<in> set perm \<Longrightarrow> p < length E"
    and d: "is_distribution d k n" and t: "t < k"
    and d': "d' ! 0 = 0" "\<And>t. 0 < t \<Longrightarrow> t \<le> k \<Longrightarrow> d' ! t = Suc (d ! t)" "length d' = Suc k"
  shows "permute_thread (0 # ends 0 E) A perm d' t =
    (let blk = map ((!) E) (vspan (d ! t) (d ! Suc t) perm)
     in Some ((if t = 0 then [0] else []) @ ends 0 blk, concat blk))"
proof -
  let ?bs = "0 # ends 0 E"
  let ?blk = "\<lambda>e. map ((!) E) (vspan (d ! t) (e - 1) perm)"
  let ?body = "\<lambda>e (pb, pd). do { p \<leftarrow> (if e = 0 then None else rd perm (e - 1)); x \<leftarrow> rd ?bs p; y \<leftarrow> rd ?bs (p + 1);
       seg \<leftarrow> data_range A x y; let pb = pb @ [y - x]; let n = length pb;
       let pb = (if 1 < n then pb[n - 1 := pb ! (n - 1) + pb ! (n - 2)] else pb); Some (pb, pd @ seg) }"
  let ?I = "\<lambda>e s. s = ((if t = 0 then [0] else []) @ ends 0 (?blk e), concat (?blk e))"
  have le: "d ! t \<le> d ! Suc t" "d ! Suc t \<le> n"
    using is_distribution_mono[OF d, of t "Suc t"] is_distribution_le[OF d, of "Suc t"] t by auto
  have from_eq: "(if t = 0 then 1 else d' ! t) = Suc (d ! t)"
    using d d'(2)[of t] t by (simp add: is_distribution_def)
  have "\<exists>s. for_each [Suc (d ! t)..<Suc (d ! Suc t)] ?body (if t = 0 then [0] else [], []) = Some s \<and> ?I (Suc (d ! Suc t)) s"
  proof (rule for_each_upt[where I = ?I])
    fix e s assume e: "Suc (d ! t) \<le> e" "e < Suc (d ! Suc t)" and I: "?I e s"
    have lt: "e - 1 < length perm" using e le perm(1) by linarith
    obtain q where q: "perm ! (e - 1) = q" by simp
    have p: "q < length E" using perm(2) lt q by (metis nth_mem)
    have rp: "rd perm (e - Suc 0) = Some q" using lt q by (simp add: rd_def)
    have snoc: "?blk (Suc e) = ?blk e @ [E ! q]"
    proof -
      have "vspan (d ! t) e perm = vspan (d ! t) (e - 1) perm @ vspan (e - 1) e perm"
        using e by (intro vspan_append_vspan[symmetric]) auto
      moreover have "vspan (e - 1) e perm = [q]" using e lt q by (cases e) (simp_all add: vspan_conv_map_nth)
      ultimately show ?thesis by simp
    qed
    let ?x = "length (concat (take q E))" and ?y = "length (concat (take (Suc q) E))"
    have r: "rd ?bs q = Some ?x" "rd ?bs (q + 1) = Some ?y"
      using p boundary_nth[of q E] boundary_nth[of "Suc q" E] by (simp_all add: rd_def del: nth_Cons_Suc)
    have seg: "data_range A ?x ?y = Some (E ! q)"
      using data_range_holds[OF A, of ?x ?y] length_concat_take_le[of "Suc q" E]
        length_concat_take_mono[of q "Suc q" E] vspan_element[OF p] by simp
    have len: "?y - ?x = length (E ! q)" using p by (simp add: take_Suc_conv_app_nth)
    have pos: "e \<noteq> 0" using e by linarith
    have "?body e s = Some (let pb = fst s @ [length (E ! q)]; n = length pb
          in (if 1 < n then pb[n - 1 := pb ! (n - 1) + pb ! (n - 2)] else pb), snd s @ E ! q)"
      by (cases s) (simp only: prod.case pos if_False One_nat_def rp bind.bind_lunit r[unfolded One_nat_def] seg len Let_def fst_conv snd_conv)
    also have "\<dots> = Some ((if t = 0 then [0] else []) @ ends 0 (?blk (Suc e)), concat (?blk (Suc e)))"
      unfolding snoc using accumulate_end[of "fst s" "t = 0" "?blk e" "E ! q"] I by (simp add: Let_def)
    finally show "\<exists>u. ?body e s = Some u \<and> ?I (Suc e) u" by blast
  qed (use le in auto)
  then show ?thesis
    using d'(2)[of "Suc t"] d'(3) t from_eq by (auto simp: permute_thread_def mem_simps Let_def)
qed

lemma map_add_ends: "map (\<lambda>x. x + off) (ends o' es) = ends (o' + off) es"
  by (induction o' es rule: ends.induct) (auto simp: add.commute add.left_commute)

lemma bounds_nth:
  assumes "t < length E"
  shows "bounds E ! t = (if t = 0 then [0] else []) @ ends (length (concat (concat (take t E)))) (E ! t)"
proof -
  have "bounds E = bounds (take t E @ E ! t # drop (Suc t) E)" using assms by (simp add: id_take_nth_drop[symmetric])
  moreover have "length (bounds (take t E)) = t" using assms by simp
  ultimately have "bounds E ! t = bounds (take t E @ E ! t # drop (Suc t) E) ! length (bounds (take t E))" by simp
  also have "\<dots> = lead (take t E) @ ends (length (concat (concat (take t E)))) (E ! t)"
    unfolding bounds_split by (rule nth_append_length)
  finally show ?thesis using assms by (cases t) auto
qed

lemma threadDistributionToFull_bounds:
  "threadDistributionToFull (map (\<lambda>t. (if t = 0 then [0] else []) @ ends 0 (blocks ! t)) [0..<length blocks]) = bounds blocks"
proof -
  let ?f = "\<lambda>t. (if t = 0 then [0] else []) @ ends 0 (blocks ! t)"
  have last: "(if ?f t \<noteq> [] then last (?f t) else 0) = length (concat (blocks ! t))" for t
    using last_ends[of 0 "blocks ! t"] by (cases "blocks ! t = []") (auto split: if_splits)
  have "map (\<lambda>b. if b \<noteq> [] then last b else 0) (map ?f [0..<length blocks]) = map (\<lambda>b. length (concat b)) blocks"
    unfolding map_map comp_def last by (rule nth_equalityI) auto
  moreover have "psum (map (\<lambda>b. length (concat b)) blocks) t = length (concat (concat (take t blocks)))"
    for t unfolding psum_def by (induction blocks arbitrary: t) (auto simp: take_Cons split: nat.splits)
  ultimately show ?thesis
    unfolding threadDistributionToFull_def Let_def sizesToOffsets_eq
    by (intro nth_equalityI) (auto simp: bounds_nth map_add_ends simp del: map_map)
qed

lemma shift_distribution:
  assumes "length d = Suc k"
  shows "\<exists>d'. for_each [1..<k + 1] (\<lambda>t d. do { x \<leftarrow> rd d t; wr d t (x + 1) }) d = Some d' \<and>
    length d' = Suc k \<and> d' ! 0 = d ! 0 \<and> (\<forall>t. 0 < t \<and> t \<le> k \<longrightarrow> d' ! t = Suc (d ! t))"
proof -
  let ?I = "\<lambda>m d'. length d' = Suc k \<and> d' ! 0 = d ! 0 \<and>
    (\<forall>t. 0 < t \<and> t \<le> k \<longrightarrow> d' ! t = (if t < m then Suc (d ! t) else d ! t))"
  have "\<exists>d'. for_each [1..<k + 1] (\<lambda>t d. do { x \<leftarrow> rd d t; wr d t (x + 1) }) d = Some d' \<and> ?I (k + 1) d'"
    by (rule for_each_upt[where I = ?I]) (use assms in \<open>auto simp: mem_simps nth_list_update less_Suc_eq\<close>)
  then show ?thesis by (auto simp: less_Suc_eq_le)
qed

lemma concat_map_concat: "concat (map concat bs) = concat (concat bs)"
  by (induction bs) auto

lemma permuteNonUniformData_correct:
  assumes B: "tarray_holds (eboundaries s) db (0 # ends 0 E)" and A: "tarray_holds (edata s) dA (concat E)"
    and k: "threads (edata s) = k" "0 < k" and db: "db \<noteq> []" "last db = Suc (length E)"
    and perm: "length perm = length E" "\<And>p. p \<in> set perm \<Longrightarrow> p < length E"
    and d: "is_distribution d k (length E)"
  defines "E' \<equiv> map ((!) E) perm"
  shows "\<exists>s' db' dA'. permuteNonUniformData perm d s = Some s' \<and>
    tarray_holds (eboundaries s') db' (0 # ends 0 E') \<and> tarray_holds (edata s') dA' (concat E') \<and>
    edatasize s' = edatasize s \<and> length (iterators s') = Suc k \<and>
    list_all (\<lambda>t. iter_at (0 # ends 0 E') (border_structure db' t) (iterators s' ! t)) [0..<Suc k]"
proof -
  let ?bs = "0 # ends 0 E"
  define blocks where "blocks = map (\<lambda>t. map ((!) E) (vspan (d ! t) (d ! Suc t) perm)) [0..<k]"
  have d_last: "d \<noteq> []" "last d = length E" "length d = Suc k" "d ! 0 = 0"
  proof -
    show "length d = Suc k" "d ! 0 = 0" using d by (auto simp: is_distribution_def)
    then show "d \<noteq> []" by auto
    then show "last d = length E" using d by (simp add: is_distribution_def last_conv_nth)
  qed
  obtain d' where d': "for_each [1..<k + 1] (\<lambda>t d. do { x \<leftarrow> rd d t; wr d t (x + 1) }) d = Some d'"
    "length d' = Suc k" "d' ! 0 = 0" "\<And>t. 0 < t \<Longrightarrow> t \<le> k \<Longrightarrow> d' ! t = Suc (d ! t)"
    using shift_distribution[OF d_last(3)] d_last(4) by auto
  define part where "part = (\<lambda>t. let blk = map ((!) E) (vspan (d ! t) (d ! Suc t) perm)
    in ((if t = 0 then [0] else []) @ ends 0 blk, concat blk))"
  have parts: "those (map (permute_thread ?bs (edata s) perm d') [0..<k]) = Some (map part [0..<k])"
    by (rule those_map) (use permute_thread_correct[OF A perm d _ d'(3,4,2)] in \<open>simp add: part_def Let_def\<close>)
  have "map fst (map part [0..<k]) = map (\<lambda>t. (if t = 0 then [0] else []) @ ends 0 (blocks ! t)) [0..<length blocks]"
    by (simp add: blocks_def part_def Let_def)
  then have full: "threadDistributionToFull (map fst (map part [0..<k])) = bounds blocks"
    by (simp only: threadDistributionToFull_bounds)
  have snds: "map snd (map part [0..<k]) = map concat blocks" by (simp add: blocks_def part_def Let_def)
  have len: "length blocks = k" "blocks \<noteq> []" using k(2) by (auto simp: blocks_def)
  have cE: "concat blocks = E'"
  proof -
    have "E' = map ((!) E) (concat (map (\<lambda>s. vspan (d ! s) (d ! Suc s) perm) [0..<k]))"
      using concat_vspans[of d k perm] d perm(1) by (simp add: E'_def)
    then show ?thesis by (simp add: blocks_def map_concat comp_def)
  qed
  have cb: "concat (bounds blocks) = 0 # ends 0 E'" using concat_bounds[OF len(2)] cE by simp
  obtain B' where B': "tarray_blocks [0..<k] (bounds blocks) = Some B'"
    "tarray_holds B' (block_borders 0 (bounds blocks)) (0 # ends 0 E')"
    using tarray_blocks_correct[of "[0..<k]" "bounds blocks"] len cb by (auto simp: atLeast0LessThan)
  obtain A' where A': "tarray_blocks [0..<k] (map concat blocks) = Some A'"
    "tarray_holds A' (block_borders 0 (map concat blocks)) (concat E')"
    using tarray_blocks_correct[of "[0..<k]" "map concat blocks"] len cE
    by (auto simp: atLeast0LessThan concat_map_concat)
  let ?s = "s\<lparr>eboundaries := B', edata := A'\<rparr>" and ?db = "block_borders 0 (bounds blocks)"
  have "0 < ?db ! t \<and> ?db ! t \<le> length (0 # ends 0 E')" if t: "0 < t" "t \<le> k" for t
  proof -
    have "take t (bounds blocks) = bounds blocks ! 0 # take (t - 1) (tl (bounds blocks))"
      using t len length_bounds[of blocks] by (cases "bounds blocks"; cases t) auto
    moreover have "bounds blocks ! 0 \<noteq> []" using bounds_nth[of 0 blocks] len k(2) by simp
    ultimately have "concat (take t (bounds blocks)) \<noteq> []" by simp
    then have "0 < ?db ! t" using t len by (simp add: block_borders_nth)
    moreover have "?db ! t \<le> length (concat (bounds blocks))"
      using is_distribution_le[OF is_distribution_block_borders, of t "bounds blocks"] t len by simp
    ultimately show ?thesis by (simp add: cb)
  qed
  then obtain its where "init_bounded ?s = Some (?s\<lparr>iterators := its\<rparr>)" "length its = Suc k"
    "\<And>t. t \<le> k \<Longrightarrow> iter_at (0 # ends 0 E') (border_structure ?db t) (its ! t)"
    using init_bounded_correct[of ?s ?db "0 # ends 0 E'" k] B' A' len
    by (auto simp: threads_def tarray_holds_def)
  moreover have "permuteNonUniformData perm d s = init_bounded ?s"
    using B db k d_last d'(1) parts full snds B'(1) A'(1)
    by (simp add: permuteNonUniformData_def Let_def cells_holds[OF B] tarray_holds_def del: map_map)
  ultimately show ?thesis using B'(2) A'(2)
    by (intro exI[of _ "?s\<lparr>iterators := its\<rparr>"] exI[of _ ?db] exI) (auto simp: list_all_iff less_Suc_eq_le)
qed

lemma permuteUniformData_correct:
  assumes A: "tarray_holds (edata s) dA xs" and size: "edatasize s = int k" "0 < k" and xs: "length xs = k * m"
    and n: "threads (edata s) = n" "0 < n" and d: "is_distribution d n (length perm)"
    and perm: "\<And>p. p \<in> set perm \<Longrightarrow> p < m"
  shows "\<exists>s' dA'. permuteUniformData perm d s = Some s' \<and>
    tarray_holds (edata s') dA' (concat (map (\<lambda>p. vspan (k * p) (k * (p + 1)) xs) perm)) \<and>
    eboundaries s' = eboundaries s \<and> edatasize s' = edatasize s \<and> length (iterators s') = Suc n"
proof -
  let ?e = "\<lambda>p. vspan (k * p) (k * (p + 1)) xs"
  define blk where "blk = (\<lambda>t. concat (map ?e (vspan (d ! t) (d ! Suc t) perm)))"
  let ?part = "\<lambda>t. do { a \<leftarrow> rd d t; b \<leftarrow> rd d (t + 1);
      for_each [a..<b] (\<lambda>i pd. do { p \<leftarrow> rd perm i; seg \<leftarrow> data_range (edata s) (k * p) (k * (p + 1)); Some (pd @ seg) }) [] }"
  have part: "?part t = Some (blk t)" if t: "t < n" for t
  proof -
    have le: "d ! t \<le> d ! Suc t" "d ! Suc t \<le> length perm"
      using is_distribution_mono[OF d, of t "Suc t"] is_distribution_le[OF d, of "Suc t"] t by auto
    let ?I = "\<lambda>i pd. pd = concat (map ?e (vspan (d ! t) i perm))"
    have "\<exists>pd. for_each [d ! t..<d ! Suc t] (\<lambda>i pd. do { p \<leftarrow> rd perm i;
        seg \<leftarrow> data_range (edata s) (k * p) (k * (p + 1)); Some (pd @ seg) }) [] = Some pd \<and> ?I (d ! Suc t) pd"
    proof (rule for_each_upt[where I = ?I])
      fix i pd assume i: "d ! t \<le> i" "i < d ! Suc t" and I: "?I i pd"
      have lt: "i < length perm" using i le by linarith
      then have "perm ! i + 1 \<le> m" using perm[of "perm ! i"] by simp
      then have "k * (perm ! i + 1) \<le> k * m" by (rule mult_le_mono2)
      then have "data_range (edata s) (k * (perm ! i)) (k * (perm ! i + 1)) = Some (?e (perm ! i))"
        by (intro data_range_holds[OF A]) (simp_all add: xs)
      moreover have "vspan (d ! t) (Suc i) perm = vspan (d ! t) i perm @ [perm ! i]"
        using i lt by (simp add: vspan_conv_map_nth)
      ultimately show "\<exists>u. (do { p \<leftarrow> rd perm i; seg \<leftarrow> data_range (edata s) (k * p) (k * (p + 1)); Some (pd @ seg) }) =
          Some u \<and> ?I (Suc i) u" using I lt by (simp add: mem_simps)
    qed (use le in auto)
    then show ?thesis using t d by (simp add: mem_simps blk_def is_distribution_def)
  qed
  have parts: "those (map ?part [0..<n]) = Some (map blk [0..<n])" by (rule those_map) (rule part, simp)
  have all: "concat (map blk [0..<n]) = concat (map ?e perm)"
  proof -
    have "concat (map ?e perm) = concat (map ?e (concat (map (\<lambda>s. vspan (d ! s) (d ! Suc s) perm) [0..<n])))"
      using concat_vspans[OF d] by simp
    also have "\<dots> = concat (map concat (map (\<lambda>t. map ?e (vspan (d ! t) (d ! Suc t) perm)) [0..<n]))"
      unfolding concat_map_concat by (simp add: map_concat comp_def)
    finally show ?thesis by (simp add: blk_def comp_def)
  qed
  obtain A' where A': "tarray_blocks [0..<n] (map blk [0..<n]) = Some A'"
    "tarray_holds A' (block_borders 0 (map blk [0..<n])) (concat (map ?e perm))"
    using tarray_blocks_correct[of "[0..<n]" "map blk [0..<n]"] all by (auto simp: atLeast0LessThan)
  have "length (tdistribution A') = Suc n" using A'(2) by (simp add: tarray_holds_def)
  then obtain its where "init_uniform (int k) (s\<lparr>edata := A'\<rparr>) = Some (s\<lparr>edata := A', iterators := its\<rparr>)"
    "length its = Suc n"
    using init_uniform_correct[OF size(2), of "s\<lparr>edata := A'\<rparr>" n] by auto
  then show ?thesis using A' size n parts
    by (intro exI[of _ "s\<lparr>edata := A', iterators := its\<rparr>"] exI) (simp add: permuteUniformData_def size(1))
qed

section \<open>Packing\<close>

definition packedSize_tarray :: "nat \<Rightarrow> 'a tarray \<Rightarrow> nat" where
  "packedSize_tarray width A = 8 + tsize A * width"

definition pack_tarray :: "('a \<Rightarrow> byte list) \<Rightarrow> 'a tarray \<Rightarrow> cursor \<Rightarrow> cursor option" where
  "pack_tarray rep A c = do {
     c \<leftarrow> put (size_bytes_of (tsize A)) c;
     if tsize A \<noteq> 0 then do {
       xs \<leftarrow> data_range A 0 (tsize A);
       put (concat (map rep xs)) c
     } else Some c }"

text \<open>
  The old allocation is kept when the old distribution ends at the new size; its length must
  then fit.
\<close>

definition unpack_tarray :: "(byte list \<Rightarrow> 'a) \<Rightarrow> nat \<Rightarrow> 'a tarray \<Rightarrow> cursor \<Rightarrow> ('a tarray \<times> cursor) option" where
  "unpack_tarray val width old c = do {
     (sb, c) \<leftarrow> get 8 c;
     let n = size_of_bytes sb;
     data \<leftarrow> (case tdata old of
         None \<Rightarrow> Some None
       | Some cs \<Rightarrow> if tdistribution old = [] then None
           else if last (tdistribution old) \<noteq> n then Some None else Some (Some cs));
     if n \<noteq> 0 then do {
       let cs = (case data of None \<Rightarrow> replicate n None | Some cs \<Rightarrow> cs);
       (bs, c) \<leftarrow> get (n * width) c;
       cs \<leftarrow> memcpy cs 0 (map Some (map val (chunks width n bs))) 0 n;
       Some (\<lparr>tsize = n, tdata = Some cs, tdistribution = [0, n]\<rparr>, c)
     } else Some (\<lparr>tsize = 0, tdata = data, tdistribution = [0, 0]\<rparr>, c) }"

definition packedSize_sd :: "nat \<Rightarrow> 'a serializededata \<Rightarrow> nat" where
  "packedSize_sd width s = 4 + packedSize_tarray 4 (eboundaries s) + packedSize_tarray width (edata s)"

definition nat_eslocal_bytes :: "nat \<Rightarrow> byte list" where
  "nat_eslocal_bytes n = eslocal_bytes (of_nat n)"

definition nat_of_eslocal_bytes :: "byte list \<Rightarrow> nat" where
  "nat_of_eslocal_bytes bs = unat (eslocal_of_bytes bs)"

definition pack_sd :: "('a \<Rightarrow> byte list) \<Rightarrow> 'a serializededata \<Rightarrow> cursor \<Rightarrow> cursor option" where
  "pack_sd rep s c = do {
     c \<leftarrow> put (eslocal_bytes (word_of_int (edatasize s))) c;
     c \<leftarrow> pack_tarray nat_eslocal_bytes (eboundaries s) c;
     pack_tarray rep (edata s) c }"

definition unpack_sd :: "(byte list \<Rightarrow> 'a) \<Rightarrow> nat \<Rightarrow> 'a serializededata \<Rightarrow> cursor \<Rightarrow> ('a serializededata \<times> cursor) option" where
  "unpack_sd val width old c = do {
     (bs, c) \<leftarrow> get 4 c;
     let k = sint (eslocal_of_bytes bs);
     (B, c) \<leftarrow> unpack_tarray nat_of_eslocal_bytes 4 (eboundaries old) c;
     (A, c) \<leftarrow> unpack_tarray val width (edata old) c;
     let s = \<lparr>eboundaries = B, edata = A, edatasize = k, iterators = iterators old\<rparr>;
     s \<leftarrow> (if k = -1 then init_bounded s else init_uniform k s);
     Some (s, c) }"

lemma data_range_all: "tarray_holds A d xs \<Longrightarrow> data_range A 0 (length xs) = Some xs"
  using data_range_holds[of A d xs 0 "length xs"] by simp

lemma pack_tarray_eq: "tarray_holds A d xs \<Longrightarrow> pack_tarray rep A c = pack_vector rep xs c"
proof -
  assume A: "tarray_holds A d xs"
  then have "tsize A = length xs" by (simp add: tarray_holds_def)
  with data_range_all[OF A] show ?thesis by (simp add: pack_tarray_def pack_vector_def cong: if_cong)
qed

lemma length_chunks [simp]: "length (chunks w n bs) = n"
  by (induction n arbitrary: bs) auto

lemma chunks_Nil_iff [simp]: "chunks w n bs = [] \<longleftrightarrow> n = 0"
  by (cases n) auto

lemma unpack_tarray_eq:
  assumes "tdata old = None"
  shows "unpack_tarray val width old c = map_option (\<lambda>(xs, c). (tarray_vector xs, c)) (unpack_vector val width [] c)"
  using assms
  by (cases "get 8 c")
    (auto simp: unpack_tarray_def unpack_vector_def tarray_vector_def memcpy_def Let_def
      split: option.splits bind_splits)

lemma tarray_holds_vector: "tarray_holds (tarray_vector xs) [0, length xs] xs"
  by (simp add: tarray_holds_def tarray_vector_def)

interpretation nat_eslocal: plain nat_eslocal_bytes nat_of_eslocal_bytes 4 "\<lambda>n. n < 2 ^ 32"
  by unfold_locales (simp_all add: nat_eslocal_bytes_def nat_of_eslocal_bytes_def eslocal_bytes_def
      eslocal_of_bytes_def bytes_word_bytes take_bit_word_eq_self unat_of_nat)

context plain
begin

lemma sd_round_trip:
  assumes B: "tarray_holds (eboundaries s) db bs" and A: "tarray_holds (edata s) dA xs"
    and fit: "short bs" "short xs" "list_all (\<lambda>b. b < 2 ^ 32) bs" "list_all fits xs"
    and size: "edatasize s = -1 \<and> bs \<noteq> [] \<or> 0 < edatasize s \<and> edatasize s < 2 ^ 31"
    and old: "tdata (eboundaries old) = None" "tdata (edata old) = None"
  shows "\<exists>buf s'. pack_sd rep s (replicate (packedSize_sd width s) 0, 0) = Some (buf, packedSize_sd width s) \<and>
    unpack_sd val width old (buf, 0) = Some (s', (buf, packedSize_sd width s)) \<and>
    eboundaries s' = tarray_vector bs \<and> edata s' = tarray_vector xs \<and> edatasize s' = edatasize s"
proof -
  let ?k = "word_of_int (edatasize s) :: 32 word"
  let ?e = "eslocal_bytes ?k" and ?b = "vector_bytes nat_eslocal_bytes bs" and ?x = "vector_bytes rep xs"
  let ?n = "packedSize_sd width s" and ?buf = "?e @ ?b @ ?x"
  have n: "?n = 4 + (packedSize_vector 4 bs + packedSize_vector width xs)"
    using B A by (simp add: packedSize_sd_def packedSize_tarray_def packedSize_vector_def tarray_holds_def)
  have le: "length ?e = 4" by (simp add: eslocal.rep_length)
  have sint: "sint ?k = edatasize s"
    using size by (auto simp: sint_sbintrunc' signed_take_bit_int_eq_self)
  have "put ?e (replicate ?n 0, 0) = Some (?e @ replicate (?n - 4) 0, length ?e)"
    by (simp add: put_def le n)
  moreover have "pack_vector nat_eslocal_bytes bs (?e @ replicate (?n - 4) 0, length ?e) =
      Some ((?e @ ?b) @ drop (packedSize_vector 4 bs) (replicate (?n - 4) 0), length (?e @ ?b))"
    using nat_eslocal.vector_codec.pack_step[of bs "replicate (?n - 4) 0" ?e "[]"] fit(1,3) n by simp
  moreover have "pack_vector rep xs ((?e @ ?b) @ drop (packedSize_vector 4 bs) (replicate (?n - 4) 0), length (?e @ ?b)) =
      Some (?buf, ?n)"
    using vector_codec.pack_step[of xs "drop (packedSize_vector 4 bs) (replicate (?n - 4) 0)" "?e @ ?b" "[]"] fit(2,4) n
    by (simp add: nat_eslocal.length_vector_bytes length_vector_bytes le)
  ultimately have pack: "pack_sd rep s (replicate ?n 0, 0) = Some (?buf, ?n)"
    by (simp add: pack_sd_def pack_tarray_eq[OF A] pack_tarray_eq[OF B])
  have "get 4 (?buf, 0) = Some (?e, (?buf, length ?e))" by (simp add: get_def le)
  moreover have "unpack_vector nat_of_eslocal_bytes 4 [] (?buf, length ?e) = Some (bs, (?buf, length (?e @ ?b)))"
    using fit(1,3) by (intro nat_eslocal.vector_codec.unpack_step) (auto simp: over_vector_def)
  moreover have "unpack_vector val width [] (?buf, length (?e @ ?b)) = Some (xs, (?buf, length ((?e @ ?b) @ ?x)))"
    using fit(2,4) by (intro vector_codec.unpack_step) (auto simp: over_vector_def)
  moreover have "length ((?e @ ?b) @ ?x) = ?n"
    by (simp add: n le nat_eslocal.length_vector_bytes length_vector_bytes)
  moreover have "eslocal_of_bytes ?e = ?k" by (rule eslocal.val_rep) simp
  moreover define t where "t = \<lparr>eboundaries = tarray_vector bs, edata = tarray_vector xs,
      edatasize = edatasize s, iterators = iterators old\<rparr>"
  moreover have "\<exists>its. (if edatasize s = -1 then init_bounded t else init_uniform (edatasize s) t) =
      Some (t\<lparr>iterators := its\<rparr>)"
  proof (cases "edatasize s = -1")
    case True
    then have "bs \<noteq> []" using size by auto
    have "\<exists>its. init_bounded t = Some (t\<lparr>iterators := its\<rparr>) \<and> length its = Suc 1 \<and>
        (\<forall>i\<le>1. iter_at bs (border_structure [0, length bs] i) (its ! i))"
      by (rule init_bounded_correct)
        (use \<open>bs \<noteq> []\<close> tarray_holds_vector[of bs] in \<open>auto simp: t_def threads_def tarray_vector_def nth_Cons split: nat.splits\<close>)
    then show ?thesis using True by auto
  next
    case False
    then have "0 < nat (edatasize s)" "int (nat (edatasize s)) = edatasize s" using size by auto
    then show ?thesis
      using init_uniform_correct[of "nat (edatasize s)" t 1] False by (auto simp: t_def tarray_vector_def)
  qed
  ultimately have "\<exists>its. unpack_sd val width old (?buf, 0) = Some (t\<lparr>iterators := its\<rparr>, (?buf, ?n))"
    by (auto simp: unpack_sd_def unpack_tarray_eq[OF old(1)] unpack_tarray_eq[OF old(2)] sint Let_def
        simp del: append_assoc length_append split: if_splits)
  then obtain its where "unpack_sd val width old (?buf, 0) = Some (t\<lparr>iterators := its\<rparr>, (?buf, ?n))" by blast
  then show ?thesis using pack
    by (intro exI[of _ ?buf] exI[of _ "t\<lparr>iterators := its\<rparr>"]) (simp add: t_def)
qed

end

section \<open>Properties\<close>

text \<open>
  C2: \<^verbatim>\<open>permute\<close> of non-uniform data: if the boundaries and data hold the elements \<open>E\<close>, then
  afterwards they hold the elements in the order of the permutation, whatever the distribution
  of the permutation over the threads, and the iterator of every thread border is at the first
  element of its thread.
\<close>

theorem sd_permute_bounded:
  assumes "tarray_holds (eboundaries s) db (0 # ends 0 E)" and "tarray_holds (edata s) dA (concat E)"
    and "threads (edata s) = k" "0 < k" and "db \<noteq> []" "last db = Suc (length E)"
    and "length perm = length E" "list_all (\<lambda>p. p < length E) perm"
    and "is_distribution d k (length E)"
  shows "\<exists>s' db' dA'. sd_permute perm d s = Some s' \<and>
    tarray_holds (eboundaries s') db' (0 # ends 0 (map ((!) E) perm)) \<and>
    tarray_holds (edata s') dA' (concat (map ((!) E) perm)) \<and>
    edatasize s' = edatasize s \<and> length (iterators s') = Suc k \<and>
    list_all (\<lambda>t. iter_at (0 # ends 0 (map ((!) E) perm)) (border_structure db' t) (iterators s' ! t)) [0..<Suc k]"
proof -
  have "tsize (eboundaries s) \<noteq> 0" using assms(1) by (simp add: tarray_holds_def)
  then have "sd_permute perm d s = permuteNonUniformData perm d s" by (simp add: sd_permute_def)
  moreover have "\<And>p. p \<in> set perm \<Longrightarrow> p < length E" using assms(8) by (simp add: list_all_iff)
  ultimately show ?thesis
    using permuteNonUniformData_correct[OF assms(1-7) _ assms(9)] by simp
qed

theorem sd_permute_bounded_witness:
  "\<exists>s' db' dA'. sd_permute [2, 0, 1] [0, 1, 3]
      \<lparr>eboundaries = \<lparr>tsize = 4, tdata = Some [Some 0, Some 1, Some 3, Some 3], tdistribution = [0, 2, 4]\<rparr>,
       edata = \<lparr>tsize = 3, tdata = Some [Some (7 :: nat), Some 8, Some 9], tdistribution = [0, 1, 3]\<rparr>,
       edatasize = -1, iterators = []\<rparr> = Some s' \<and>
    tarray_holds (eboundaries s') db' (0 # ends 0 (map ((!) [[7 :: nat], [8, 9], []]) [2, 0, 1])) \<and>
    tarray_holds (edata s') dA' (concat (map ((!) [[7 :: nat], [8, 9], []]) [2, 0, 1])) \<and>
    edatasize s' = edatasize
      \<lparr>eboundaries = \<lparr>tsize = 4, tdata = Some [Some 0, Some 1, Some 3, Some 3], tdistribution = [0, 2, 4]\<rparr>,
       edata = \<lparr>tsize = 3, tdata = Some [Some (7 :: nat), Some 8, Some 9], tdistribution = [0, 1, 3]\<rparr>,
       edatasize = -1, iterators = []\<rparr> \<and> length (iterators s') = Suc 2 \<and>
    list_all (\<lambda>t. iter_at (0 # ends 0 (map ((!) [[7 :: nat], [8, 9], []]) [2, 0, 1])) (border_structure db' t)
      (iterators s' ! t)) [0..<Suc 2]"
  by (rule sd_permute_bounded[where db = "[0, 2, 4]" and dA = "[0, 1, 3]"])
    (simp_all add: tarray_holds_def threads_def is_distribution_def)

text \<open>
  \<^verbatim>\<open>permute\<close> of uniform data: the data become the structures in the order of the
  permutation, for any distribution of the permutation over the threads.
\<close>

theorem sd_permute_uniform:
  assumes "tarray_holds (edata s) dA xs" and "edatasize s = int k" "0 < k" and "length xs = k * m"
    and "tsize (eboundaries s) = 0" and "threads (edata s) = n" "0 < n" and "is_distribution d n (length perm)"
    and "list_all (\<lambda>p. p < m) perm"
  shows "\<exists>s' dA'. sd_permute perm d s = Some s' \<and>
    tarray_holds (edata s') dA' (concat (map (\<lambda>p. take k (drop (k * p) xs)) perm)) \<and>
    eboundaries s' = eboundaries s \<and> edatasize s' = edatasize s \<and> length (iterators s') = Suc n"
proof -
  have "sd_permute perm d s = permuteUniformData perm d s" using assms(5) by (simp add: sd_permute_def)
  moreover have "\<And>p. p \<in> set perm \<Longrightarrow> p < m" using assms(9) by (simp add: list_all_iff)
  ultimately show ?thesis
    using permuteUniformData_correct[OF assms(1-4,6-8)] by (simp add: vspan_def)
qed

theorem sd_permute_uniform_witness:
  "\<exists>s' dA'. sd_permute [2, 0] [0, 1, 2]
      \<lparr>eboundaries = no_boundaries,
       edata = \<lparr>tsize = 6, tdata = Some (map Some ''abcdef''), tdistribution = [0, 2, 6]\<rparr>,
       edatasize = 2, iterators = []\<rparr> = Some s' \<and>
    tarray_holds (edata s') dA' (concat (map (\<lambda>p. take 2 (drop (2 * p) ''abcdef'')) [2, 0])) \<and>
    eboundaries s' = eboundaries
      \<lparr>eboundaries = no_boundaries,
       edata = \<lparr>tsize = 6, tdata = Some (map Some ''abcdef''), tdistribution = [0, 2, 6]\<rparr>,
       edatasize = 2, iterators = []\<rparr> \<and>
    edatasize s' = edatasize
      \<lparr>eboundaries = no_boundaries,
       edata = \<lparr>tsize = 6, tdata = Some (map Some ''abcdef''), tdistribution = [0, 2, 6]\<rparr>,
       edatasize = 2, iterators = []\<rparr> \<and> length (iterators s') = Suc 2"
  by (rule sd_permute_uniform[where dA = "[0, 2, 6]" and m = 3])
    (simp_all add: tarray_holds_def threads_def is_distribution_def no_boundaries_def)

text \<open>
  C5: Packing a \<^verbatim>\<open>serializededata\<close> of \<^verbatim>\<open>eslocal\<close> values fills exactly \<^verbatim>\<open>packedSize\<close> bytes, and
  unpacking into a fresh object gives the same boundaries, data and element size, on one thread.
\<close>

theorem sd_pack_unpack:
  assumes "tarray_holds (eboundaries s) db bs" and "tarray_holds (edata s) dA xs"
    and "short bs" "short xs" "list_all (\<lambda>b. b < 2 ^ 32) bs"
    and "edatasize s = -1 \<and> bs \<noteq> [] \<or> 0 < edatasize s \<and> edatasize s < 2 ^ 31"
    and "tdata (eboundaries old) = None" "tdata (edata old) = None"
  shows "\<exists>buf s'. pack_sd eslocal_bytes s (replicate (packedSize_sd 4 s) 0, 0) = Some (buf, packedSize_sd 4 s) \<and>
    unpack_sd eslocal_of_bytes 4 old (buf, 0) = Some (s', (buf, packedSize_sd 4 s)) \<and>
    eboundaries s' = tarray_vector bs \<and> edata s' = tarray_vector xs \<and> edatasize s' = edatasize s"
proof (rule eslocal.sd_round_trip[OF assms(1-5) _ assms(6-8)])
  show "list_all (\<lambda>_. True) xs" by (simp add: list_all_iff)
qed

theorem sd_pack_unpack_witness:
  "\<exists>buf s'. pack_sd eslocal_bytes
      \<lparr>eboundaries = tarray_vector [0, 2, 3], edata = tarray_vector [5, 6, -7], edatasize = -1, iterators = []\<rparr>
      (replicate (packedSize_sd 4 \<lparr>eboundaries = tarray_vector [0, 2, 3], edata = tarray_vector [5, 6, -7 :: 32 word],
        edatasize = -1, iterators = []\<rparr>) 0, 0) =
      Some (buf, packedSize_sd 4 \<lparr>eboundaries = tarray_vector [0, 2, 3], edata = tarray_vector [5, 6, -7 :: 32 word],
        edatasize = -1, iterators = []\<rparr>) \<and>
    unpack_sd eslocal_of_bytes 4 \<lparr>eboundaries = no_boundaries, edata = tarray_vector [], edatasize = 0, iterators = []\<rparr> (buf, 0) =
      Some (s', (buf, packedSize_sd 4 \<lparr>eboundaries = tarray_vector [0, 2, 3], edata = tarray_vector [5, 6, -7 :: 32 word],
        edatasize = -1, iterators = []\<rparr>)) \<and>
    eboundaries s' = tarray_vector [0, 2, 3] \<and> edata s' = tarray_vector [5, 6, -7] \<and>
    edatasize s' = edatasize \<lparr>eboundaries = tarray_vector [0, 2, 3], edata = tarray_vector [5, 6, -7 :: 32 word],
        edatasize = -1, iterators = []\<rparr>"
  by (rule sd_pack_unpack[where db = "[0, 3]" and dA = "[0, 3]"])
    (simp_all add: tarray_holds_def tarray_vector_def short_def no_boundaries_def)

text \<open>
  C39: Assigning uniform data rebuilds the iterators from boundaries that do not exist: the
  copies of both arrays succeed (for data over a distribution), then the iterator reads its first
  boundary from an empty allocation.  Moving such data reads past the end of the distribution of
  the missing boundaries.  Copy construction handles it.
\<close>

theorem sd_assign_uniform:
  assumes "eboundaries s = no_boundaries" and "edatasize s = int k" "0 < k"
    and "length (tdistribution (edata s)) = Suc n" "0 < n"
  shows "sd_assign sched_b sched_d s = None \<and> sd_move s = None \<and>
    (\<exists>its. sd_copy s = Some (s\<lparr>iterators := its\<rparr>)) \<and>
    (\<exists>B. tarray_assign [] (eboundaries s) = Some B \<and> cells B = []) \<and>
    (\<forall>d xs. is_distribution d n (length xs) \<longrightarrow> tarray_holds (edata s) d xs \<longrightarrow> set sched_d = {..<n} \<longrightarrow>
      (\<exists>A. tarray_assign sched_d (edata s) = Some A \<and> tarray_holds A d xs))"
proof (intro conjI allI impI)
  have d: "distribute 0 0 = [0]" by (simp add: distribute_def ceil_div_def)
  have "threads (edata s) = n" using assms(4) by (simp add: threads_def)
  moreover have "[1..<Suc n] = 1 # [2..<Suc n]" using assms(5) by (simp add: upt_conv_Cons numeral_2_eq_2)
  ultimately show "sd_move s = None"
    using assms(1) d by (simp add: sd_move_def init_bounded_def no_boundaries_def cells_def iter_bounds_def
        iter_move_def rd_def Let_def del: upt_Suc)
  have empty: "tarray_assign [] no_boundaries = Some \<lparr>tsize = 0, tdata = Some [], tdistribution = [0]\<rparr>"
    using d by (simp add: tarray_assign_def tarray_cells_def no_boundaries_def)
  have "tarray_assign sched_b no_boundaries = None" if "sched_b \<noteq> []"
    using that d by (cases sched_b) (simp_all add: tarray_assign_def tarray_cells_def no_boundaries_def rd_def)
  with empty show "sd_assign sched_b sched_d s = None"
    by (cases "sched_b = []"; cases "tarray_assign sched_d (edata s)")
      (simp_all add: sd_assign_def assms(1) init_bounded_def cells_def iter_bounds_def iter_move_def rd_def)
  show "\<exists>B. tarray_assign [] (eboundaries s) = Some B \<and> cells B = []" using empty assms(1) by (simp add: cells_def)
  show "\<exists>its. sd_copy s = Some (s\<lparr>iterators := its\<rparr>)"
    using init_uniform_correct[OF assms(3,4)] assms(2) by (auto simp: sd_copy_def)
qed (use tarray_assign_correct in blast)

theorem sd_assign_uniform_witness:
  "let s = \<lparr>eboundaries = no_boundaries, edata = tarray_vector ''abcd'', edatasize = 2, iterators = []\<rparr> in
   sd_assign [] [0] s = None \<and> sd_move s = None \<and> (\<exists>its. sd_copy s = Some (s\<lparr>iterators := its\<rparr>)) \<and>
   (\<exists>A. tarray_assign [0] (edata s) = Some A \<and> tarray_holds A [0, 4] ''abcd'')"
proof -
  let ?s = "\<lparr>eboundaries = no_boundaries, edata = tarray_vector ''abcd'', edatasize = 2, iterators = []\<rparr>"
  have "eboundaries ?s = no_boundaries" "edatasize ?s = int 2" "0 < (2 :: nat)" "length (tdistribution (edata ?s)) = Suc 1" "0 < (1 :: nat)"
    by (simp_all add: tarray_vector_def)
  note t = sd_assign_uniform[OF this, of "[]" "[0]"]
  moreover have "is_distribution [0, 4] 1 (length ''abcd'')" "tarray_holds (edata ?s) [0, 4] ''abcd''" "set [0] = {..<1 :: nat}"
    by (auto simp: is_distribution_def tarray_holds_def tarray_vector_def)
  ultimately show ?thesis unfolding Let_def by blast
qed

end
