(* ===== verification/MetisPQueue.thy ===== *)
theory MetisPQueue
  imports Prelude
begin

text \<open>
  The addressable priority queue template of METIS,
  \<^verbatim>\<open>tools/parmetis-4.0.3/metis/GKlib/gk_mkpqueue.h\<close>, which drives its refinement and
  initial partitioning: a binary heap of (key, node) pairs and a locator from nodes to heap
  positions, -1 for nodes that are not queued.  \<open>lt\<close> is the macro argument \<^verbatim>\<open>KEY_LT\<close>, the
  order in which keys leave the queue; nodes are indices, so negative node numbers (undefined
  in the code) do not occur.
\<close>

record 'k pq =
  nnodes :: nat
  maxnodes :: nat
  heap :: "('k \<times> nat) list"
  locator :: "int list"

definition par :: "nat \<Rightarrow> nat" where
  "par i = (i - 1) div 2"

lemma par_less [simp]: "0 < i \<Longrightarrow> par i < i"
  by (simp add: par_def)

section \<open>Sifting\<close>

text \<open>
  The two loops move a hole at position \<open>i\<close> to where \<open>key\<close> belongs, shifting entries and
  their locators; they return the heap, the locator and the final position of the hole.
\<close>

function filter_up ::
  "('k \<Rightarrow> 'k \<Rightarrow> bool) \<Rightarrow> 'k \<Rightarrow> nat \<Rightarrow> ('k \<times> nat) list \<Rightarrow> int list \<Rightarrow> (('k \<times> nat) list \<times> int list \<times> nat) option" where
  "filter_up lt key i h loc =
     (if 0 < i then do {
        x \<leftarrow> rd h (par i);
        if lt key (fst x) then do {
          h \<leftarrow> wr h i x;
          loc \<leftarrow> wr loc (snd x) (int i);
          filter_up lt key (par i) h loc
        } else Some (h, loc, i)
      } else Some (h, loc, i))"
  by pat_completeness auto
termination by (relation "measure (\<lambda>(lt, key, i, h, loc). i)") auto

function filter_down ::
  "('k \<Rightarrow> 'k \<Rightarrow> bool) \<Rightarrow> 'k \<Rightarrow> nat \<Rightarrow> nat \<Rightarrow> ('k \<times> nat) list \<Rightarrow> int list \<Rightarrow>
    (('k \<times> nat) list \<times> int list \<times> nat) option" where
  "filter_down lt key n i h loc =
     (let j = 2 * i + 1 in
      if j < n then do {
        a \<leftarrow> rd h j;
        b \<leftarrow> (if j + 1 < n then rd h (j + 1) else Some a);
        if lt (fst a) key then do {
          let j = (if j + 1 < n \<and> lt (fst b) (fst a) then j + 1 else j);
          x \<leftarrow> rd h j;
          h \<leftarrow> wr h i x;
          loc \<leftarrow> wr loc (snd x) (int i);
          filter_down lt key n j h loc
        } else if j + 1 < n \<and> lt (fst b) key then do {
          h \<leftarrow> wr h i b;
          loc \<leftarrow> wr loc (snd b) (int i);
          filter_down lt key n (j + 1) h loc
        } else Some (h, loc, i)
      } else Some (h, loc, i))"
  by pat_completeness auto
termination by (relation "measure (\<lambda>(lt, key, n, i, h, loc). n - i)") auto

declare filter_up.simps [simp del] filter_down.simps [simp del]

text \<open>The end of every operation: the entry goes into the hole.\<close>

definition put_entry :: "'k \<Rightarrow> nat \<Rightarrow> ('k \<times> nat) list \<times> int list \<times> nat \<Rightarrow> (('k \<times> nat) list \<times> int list) option" where
  "put_entry key node s = (case s of (h, loc, i) \<Rightarrow> do {
     h \<leftarrow> wr h i (key, node);
     loc \<leftarrow> wr loc node (int i);
     Some (h, loc) })"

section \<open>Operations\<close>

text \<open>The allocated heap is not initialised; \<open>junk\<close> stands for its contents.\<close>

definition pqInit :: "('k \<times> nat) list \<Rightarrow> nat \<Rightarrow> 'k pq" where
  "pqInit junk n = \<lparr>nnodes = 0, maxnodes = n, heap = junk, locator = replicate n (-1)\<rparr>"

definition pqReset :: "'k pq \<Rightarrow> 'k pq option" where
  "pqReset q = do {
     loc \<leftarrow> for_each (rev [0..<nnodes q]) (\<lambda>i loc. do { x \<leftarrow> rd (heap q) i; wr loc (snd x) (-1) }) (locator q);
     Some (q\<lparr>locator := loc, nnodes := 0\<rparr>) }"

definition pqInsert :: "('k \<Rightarrow> 'k \<Rightarrow> bool) \<Rightarrow> nat \<Rightarrow> 'k \<Rightarrow> 'k pq \<Rightarrow> 'k pq option" where
  "pqInsert lt node key q = do {
     s \<leftarrow> filter_up lt key (nnodes q) (heap q) (locator q);
     (h, loc) \<leftarrow> put_entry key node s;
     Some (q\<lparr>nnodes := nnodes q + 1, heap := h, locator := loc\<rparr>) }"

definition pqDelete :: "('k \<Rightarrow> 'k \<Rightarrow> bool) \<Rightarrow> nat \<Rightarrow> 'k pq \<Rightarrow> 'k pq option" where
  "pqDelete lt node q = do {
     p \<leftarrow> rd (locator q) node;
     if p < 0 \<or> nnodes q = 0 then None
     else do {
       let i = nat p;
       loc \<leftarrow> wr (locator q) node (-1);
       let n = nnodes q - 1;
       last \<leftarrow> rd (heap q) n;
       if 0 < n \<and> snd last \<noteq> node then do {
         old \<leftarrow> rd (heap q) i;
         s \<leftarrow> (if lt (fst last) (fst old) then filter_up lt (fst last) i (heap q) loc
               else filter_down lt (fst last) n i (heap q) loc);
         (h, loc) \<leftarrow> put_entry (fst last) (snd last) s;
         Some (q\<lparr>nnodes := n, heap := h, locator := loc\<rparr>)
       } else Some (q\<lparr>nnodes := n, locator := loc\<rparr>) } }"

definition pqUpdate :: "('k \<Rightarrow> 'k \<Rightarrow> bool) \<Rightarrow> nat \<Rightarrow> 'k \<Rightarrow> 'k pq \<Rightarrow> 'k pq option" where
  "pqUpdate lt node newkey q = do {
     p \<leftarrow> rd (locator q) node;
     if p < 0 then None
     else do {
       old \<leftarrow> rd (heap q) (nat p);
       s \<leftarrow> (if lt newkey (fst old) then filter_up lt newkey (nat p) (heap q) (locator q)
             else filter_down lt newkey (nnodes q) (nat p) (heap q) (locator q));
       (h, loc) \<leftarrow> put_entry newkey node s;
       Some (q\<lparr>heap := h, locator := loc\<rparr>) } }"

definition pqGetTop :: "('k \<Rightarrow> 'k \<Rightarrow> bool) \<Rightarrow> 'k pq \<Rightarrow> (int \<times> 'k pq) option" where
  "pqGetTop lt q =
     (if nnodes q = 0 then Some (-1, q)
      else do {
        let n = nnodes q - 1;
        top \<leftarrow> rd (heap q) 0;
        loc \<leftarrow> wr (locator q) (snd top) (-1);
        if 0 < n then do {
          last \<leftarrow> rd (heap q) n;
          s \<leftarrow> filter_down lt (fst last) n 0 (heap q) loc;
          (h, loc) \<leftarrow> put_entry (fst last) (snd last) s;
          Some (int (snd top), q\<lparr>nnodes := n, heap := h, locator := loc\<rparr>)
        } else Some (int (snd top), q\<lparr>nnodes := n, locator := loc\<rparr>) })"

definition pqLength :: "'k pq \<Rightarrow> nat" where "pqLength q = nnodes q"

definition pqSeeTopVal :: "'k pq \<Rightarrow> int option" where
  "pqSeeTopVal q = (if nnodes q = 0 then Some (-1) else map_option (\<lambda>x. int (snd x)) (rd (heap q) 0))"

definition pqSeeTopKey :: "'k \<Rightarrow> 'k pq \<Rightarrow> 'k option" where
  "pqSeeTopKey kmax q = (if nnodes q = 0 then Some kmax else map_option fst (rd (heap q) 0))"

definition pqSeeKey :: "nat \<Rightarrow> 'k pq \<Rightarrow> 'k option" where
  "pqSeeKey node q = do {
     p \<leftarrow> rd (locator q) node;
     if p < 0 then None else map_option fst (rd (heap q) (nat p)) }"

text \<open>\<^verbatim>\<open>CheckHeap\<close>, the consistency check of the debug build.\<close>

definition pqCheckHeap :: "('k \<Rightarrow> 'k \<Rightarrow> bool) \<Rightarrow> 'k pq \<Rightarrow> bool option" where
  "pqCheckHeap lt q =
     (if nnodes q = 0 then Some True
      else do {
        top \<leftarrow> rd (heap q) 0;
        p \<leftarrow> rd (locator q) (snd top);
        ok \<leftarrow> for_each [1..<nnodes q] (\<lambda>i ok. do {
            x \<leftarrow> rd (heap q) i;
            p \<leftarrow> rd (locator q) (snd x);
            y \<leftarrow> rd (heap q) ((i - 1) div 2);
            Some (ok \<and> p = int i \<and> \<not> lt (fst x) (fst y)) }) (p = 0);
        ok \<leftarrow> for_each [1..<nnodes q] (\<lambda>i ok. do {
            x \<leftarrow> rd (heap q) i;
            Some (ok \<and> \<not> lt (fst x) (fst top)) }) ok;
        j \<leftarrow> for_each [0..<maxnodes q] (\<lambda>i j. do {
            p \<leftarrow> rd (locator q) i;
            Some (if p \<noteq> -1 then j + 1 else j) }) 0;
        Some (ok \<and> j = nnodes q) })"

section \<open>The representation invariant\<close>

text \<open>Locator and heap point to each other.\<close>

definition linked :: "nat \<Rightarrow> nat \<Rightarrow> ('k \<times> nat) list \<Rightarrow> int list \<Rightarrow> bool" where
  "linked n m h loc \<longleftrightarrow> length h = m \<and> length loc = m \<and> n \<le> m \<and>
     (\<forall>i < n. snd (h ! i) < m \<and> loc ! snd (h ! i) = int i) \<and>
     (\<forall>v < m. loc ! v = -1 \<or> (\<exists>i < n. loc ! v = int i \<and> snd (h ! i) = v))"

text \<open>
  Heap order everywhere, except that the entry at \<open>i\<close> may be smaller than its parent
  (\<open>above\<close>) or larger than its children (\<open>below\<close>).
\<close>

definition ordered_above :: "('k \<Rightarrow> 'k \<Rightarrow> bool) \<Rightarrow> nat \<Rightarrow> nat \<Rightarrow> (nat \<Rightarrow> 'k) \<Rightarrow> bool" where
  "ordered_above lt n i K \<longleftrightarrow>
     (\<forall>k < n. 0 < k \<longrightarrow> k \<noteq> i \<longrightarrow> \<not> lt (K k) (K (par k))) \<and>
     (\<forall>k < n. 0 < k \<longrightarrow> par k = i \<longrightarrow> 0 < i \<longrightarrow> \<not> lt (K k) (K (par i)))"

definition ordered_below :: "('k \<Rightarrow> 'k \<Rightarrow> bool) \<Rightarrow> nat \<Rightarrow> nat \<Rightarrow> (nat \<Rightarrow> 'k) \<Rightarrow> bool" where
  "ordered_below lt n i K \<longleftrightarrow>
     (\<forall>k < n. 0 < k \<longrightarrow> par k \<noteq> i \<longrightarrow> \<not> lt (K k) (K (par k))) \<and>
     (\<forall>k < n. 0 < k \<longrightarrow> par k = i \<longrightarrow> 0 < i \<longrightarrow> \<not> lt (K k) (K (par i)))"

definition ordered :: "('k \<Rightarrow> 'k \<Rightarrow> bool) \<Rightarrow> nat \<Rightarrow> (nat \<Rightarrow> 'k) \<Rightarrow> bool" where
  "ordered lt n K \<longleftrightarrow> (\<forall>k < n. 0 < k \<longrightarrow> \<not> lt (K k) (K (par k)))"

definition keys :: "('k \<times> nat) list \<Rightarrow> nat \<Rightarrow> 'k" where
  "keys h k = fst (h ! k)"

definition heap_ordered :: "('k \<Rightarrow> 'k \<Rightarrow> bool) \<Rightarrow> nat \<Rightarrow> ('k \<times> nat) list \<Rightarrow> bool" where
  "heap_ordered lt n h \<longleftrightarrow> ordered lt n (keys h)"

lemma par_lt: "k < n \<Longrightarrow> par k < n"
  by (metis par_def diff_le_self div_le_dividend le_trans not_le)

lemma ordered_congs:
  assumes "\<And>k. k < n \<Longrightarrow> K k = K' k" and "i < n"
  shows "ordered_above lt n i K = ordered_above lt n i K'"
    and "ordered_below lt n i K = ordered_below lt n i K'" and "ordered lt n K = ordered lt n K'"
proof -
  have e: "K k = K' k" "K (par k) = K' (par k)" if "k < n" for k
    using that by (simp_all add: assms(1) par_lt)
  show "ordered_above lt n i K = ordered_above lt n i K'" "ordered_below lt n i K = ordered_below lt n i K'"
    "ordered lt n K = ordered lt n K'"
    by (simp_all add: ordered_above_def ordered_below_def ordered_def e e(2)[OF assms(2)])
qed

text \<open>The order of keys: a strict weak order.\<close>

locale key_order =
  fixes lt :: "'k \<Rightarrow> 'k \<Rightarrow> bool"
  assumes asym: "lt a b \<Longrightarrow> \<not> lt b a"
    and ntrans: "\<not> lt b a \<Longrightarrow> \<not> lt c b \<Longrightarrow> \<not> lt c a"
begin

lemma ordered_above_stop:
  "ordered_above lt n i K \<Longrightarrow> i = 0 \<or> \<not> lt (K i) (K (par i)) \<Longrightarrow> ordered lt n K"
  unfolding ordered_above_def ordered_def by (metis neq0_conv)

lemma ordered_above_step:
  assumes "ordered_above lt n i K" "i < n" "0 < i" "lt (K i) (K (par i))"
  shows "ordered_above lt n (par i) (K(i := K (par i), par i := K i))"
proof -
  let ?j = "par i" and ?K = "K(i := K (par i), par i := K i)"
  have ji: "?j < i" using assms(3) by simp
  have sib: "\<not> lt (K k) (K (par k))" if "k < n" "0 < k" "k \<noteq> i" for k
    using assms(1) that by (simp add: ordered_above_def)
  have grand: "\<not> lt (K k) (K ?j)" if "k < n" "0 < k" "par k = i" for k
    using assms(1,3) that by (simp add: ordered_above_def)
  have pk: "par k < k" if "0 < k" for k using that by simp
  show ?thesis
    unfolding ordered_above_def
  proof (intro conjI allI impI)
    fix k assume k: "k < n" "0 < k" "k \<noteq> ?j"
    consider "k = i" | "k \<noteq> i" "par k = i" | "k \<noteq> i" "par k = ?j" | "k \<noteq> i" "par k \<noteq> i" "par k \<noteq> ?j" by blast
    then show "\<not> lt (?K k) (?K (par k))"
    proof cases
      case 1
      then show ?thesis using ji asym[OF assms(4)] by simp
    next
      case 2
      then show ?thesis using k ji grand by simp
    next
      case 3
      then show ?thesis using k ji sib[of k] ntrans[OF asym[OF assms(4)]] by simp
    next
      case 4
      then show ?thesis using k sib by simp
    qed
  next
    fix k assume k: "k < n" "0 < k" "par k = ?j" "0 < ?j"
    have pj: "par ?j < ?j" using k(4) by simp
    have "\<not> lt (K ?j) (K (par ?j))" using sib[of ?j] k(4) ji assms(2) by simp
    moreover have "\<not> lt (K k) (K ?j)" if "k \<noteq> i" using sib[of k] k that by simp
    moreover have "k \<noteq> ?j" using pk[OF k(2)] k(3) by simp
    ultimately show "\<not> lt (?K k) (?K (par ?j))" using ji pj ntrans by (cases "k = i") auto
  qed
qed

lemma ordered_below_stop:
  assumes "ordered_below lt n i K" "\<And>k. k < n \<Longrightarrow> 0 < k \<Longrightarrow> par k = i \<Longrightarrow> \<not> lt (K k) (K i)"
  shows "ordered lt n K"
  using assms unfolding ordered_below_def ordered_def by metis

lemma ordered_below_step:
  assumes "ordered_below lt n i K" "j < n" "0 < j" "par j = i" "lt (K j) (K i)"
    and smallest: "\<And>k. k < n \<Longrightarrow> 0 < k \<Longrightarrow> par k = i \<Longrightarrow> \<not> lt (K k) (K j)"
  shows "ordered_below lt n j (K(i := K j, j := K i))"
proof -
  let ?K = "K(i := K j, j := K i)"
  have ij: "i < j" using par_less[OF assms(3)] assms(4) by simp
  have other: "\<not> lt (K k) (K (par k))" if "k < n" "0 < k" "par k \<noteq> i" for k
    using assms(1) that by (simp add: ordered_below_def)
  have grand: "\<not> lt (K j) (K (par i))" if "0 < i"
    using assms(1-4) that by (simp add: ordered_below_def)
  show ?thesis
    unfolding ordered_below_def
  proof (intro conjI allI impI)
    fix k assume k: "k < n" "0 < k" "par k \<noteq> j"
    consider "k = j" | "k = i" | "k \<noteq> i" "k \<noteq> j" "par k = i" | "k \<noteq> i" "k \<noteq> j" "par k \<noteq> i" by blast
    then show "\<not> lt (?K k) (?K (par k))"
    proof cases
      case 1
      then show ?thesis using ij assms(4) asym[OF assms(5)] by simp
    next
      case 2
      moreover have "par i \<noteq> i" "par i \<noteq> j" using k(2,3) 2 less_imp_neq[OF par_less[of i]] by auto
      ultimately show ?thesis using ij grand k(2) by simp
    next
      case 3
      then show ?thesis using ij smallest k by simp
    next
      case 4
      then show ?thesis using other k by simp
    qed
  next
    fix k assume k: "k < n" "0 < k" "par k = j" "0 < j"
    have "k \<noteq> i" "k \<noteq> j" using par_less[OF k(2)] k(3) ij by auto
    then show "\<not> lt (?K k) (?K (par j))" using other[of k] k ij assms(4) by simp
  qed
qed

lemma root_smallest: "ordered lt n K \<Longrightarrow> k < n \<Longrightarrow> \<not> lt (K k) (K 0)"
proof (induction k rule: less_induct)
  case (less k)
  show ?case
  proof (cases "k = 0")
    case True
    then show ?thesis using asym by blast
  next
    case False
    then show ?thesis
      using less.IH[of "par k"] less.prems par_lt[of k n] ntrans unfolding ordered_def by force
  qed
qed

end

definition pq_inv :: "('k \<Rightarrow> 'k \<Rightarrow> bool) \<Rightarrow> 'k pq \<Rightarrow> bool" where
  "pq_inv lt q \<longleftrightarrow> linked (nnodes q) (maxnodes q) (heap q) (locator q) \<and> heap_ordered lt (nnodes q) (heap q)"

text \<open>The contents of a queue.\<close>

definition items :: "'k pq \<Rightarrow> ('k \<times> nat) multiset" where
  "items q = mset (take (nnodes q) (heap q))"

lemma linkedD:
  assumes "linked n m h loc"
  shows "length h = m" "length loc = m" "n \<le> m"
    and "i < n \<Longrightarrow> snd (h ! i) < m" "i < n \<Longrightarrow> loc ! snd (h ! i) = int i"
    and "v < m \<Longrightarrow> loc ! v = -1 \<or> (\<exists>i < n. loc ! v = int i \<and> snd (h ! i) = v)"
proof -
  note l = assms[unfolded linked_def]
  note a = l[THEN conjunct2, THEN conjunct2, THEN conjunct2]
  show "length h = m" "length loc = m" "n \<le> m"
    by (rule l[THEN conjunct1], rule l[THEN conjunct2, THEN conjunct1],
        rule l[THEN conjunct2, THEN conjunct2, THEN conjunct1])
  show "i < n \<Longrightarrow> snd (h ! i) < m" "i < n \<Longrightarrow> loc ! snd (h ! i) = int i"
    using a[THEN conjunct1, rule_format, of i] by simp_all
  show "v < m \<Longrightarrow> loc ! v = -1 \<or> (\<exists>i < n. loc ! v = int i \<and> snd (h ! i) = v)"
    using a[THEN conjunct2, rule_format, of v] .
qed

lemma linked_inj:
  assumes "linked n m h loc" "i < n" "j < n" "snd (h ! i) = snd (h ! j)"
  shows "i = j"
  using linkedD(5)[OF assms(1,2)] linkedD(5)[OF assms(1,3)] unfolding assms(4) by linarith

text \<open>One step of a loop swaps the entry that is on its way with the one at \<open>j\<close>.\<close>

lemma linked_swap:
  assumes lk: "linked n m (h[i := x]) (loc[snd x := int i])" and i: "i < n" and j: "j < n" "j \<noteq> i"
  shows "linked n m ((h[i := h ! j])[j := x]) ((loc[snd (h ! j) := int i])[snd x := int j])"
    and "snd (h ! j) \<noteq> snd x"
proof -
  let ?H = "h[i := x]" and ?L = "loc[snd x := int i]" and ?v = "snd (h ! j)"
  have len: "length h = m" "length loc = m" "n \<le> m" using lk by (auto simp: linked_def)
  have at: "?H ! i = x" "?H ! j = h ! j" using i j len by auto
  have vm: "snd x < m" "?v < m" using linkedD(4)[OF lk i] linkedD(4)[OF lk j(1)] by (simp_all only: at)
  show ne: "?v \<noteq> snd x" using linked_inj[OF lk i j(1)] at j(2) by auto
  let ?H' = "(h[i := h ! j])[j := x]" and ?L' = "(loc[?v := int i])[snd x := int j]"
  have nthH: "?H' ! k = (if k = j then x else if k = i then h ! j else ?H ! k)" if "k < m" for k
    using that len i j by (auto simp: nth_list_update)
  have nthL: "?L' ! w = (if w = snd x then int j else if w = ?v then int i else ?L ! w)" if "w < m" for w
    using that len vm by (auto simp: nth_list_update)
  show "linked n m ?H' ?L'"
    unfolding linked_def
  proof (intro conjI allI impI)
    fix k assume k: "k < n"
    note kn = linkedD(4)[OF lk k] linkedD(5)[OF lk k]
    show "snd (?H' ! k) < m" using nthH[of k] k len(3) vm kn by auto
    show "?L' ! snd (?H' ! k) = int k"
    proof (cases "k = j \<or> k = i")
      case True
      then have "?H' ! k = (if k = j then x else h ! j)" using nthH[of k] k len(3) by auto
      then show ?thesis using True nthL[OF vm(1)] nthL[OF vm(2)] ne by (cases "k = j") auto
    next
      case False
      then have "?H' ! k = ?H ! k" using nthH[of k] k len(3) by simp
      moreover have "snd (?H ! k) \<noteq> snd x" "snd (?H ! k) \<noteq> ?v"
        using linked_inj[OF lk k i] linked_inj[OF lk k j(1)] at False by auto
      ultimately show ?thesis using nthL[OF kn(1)] kn(2) by simp
    qed
  next
    fix w assume w: "w < m"
    show "?L' ! w = -1 \<or> (\<exists>k<n. ?L' ! w = int k \<and> snd (?H' ! k) = w)"
    proof (cases "w = snd x \<or> w = ?v")
      case True
      then show ?thesis using nthL[OF w] nthH[of i] nthH[of j] i j ne len(3) by auto
    next
      case False
      then have L: "?L' ! w = ?L ! w" using nthL[OF w] by simp
      consider "?L ! w = -1" | k where "k < n" "?L ! w = int k" "snd (?H ! k) = w"
        using lk w unfolding linked_def by blast
      then show ?thesis
      proof cases
        case 2
        then have "k \<noteq> i" "k \<noteq> j" using at False by auto
        then have "?H' ! k = ?H ! k" using nthH[of k] 2(1) len(3) by simp
        then show ?thesis using 2 L by auto
      qed (use L in simp)
    qed
  qed (use len in auto)
qed

lemma take_update_mset: "i < n \<Longrightarrow> n \<le> length h \<Longrightarrow>
    mset (take n (h[i := x])) = mset (take n h) - {#h ! i#} + {#x#}"
  by (simp add: take_update_swap mset_update)

lemma swap_mset:
  assumes "i < n" "j < n" "i \<noteq> j" "n \<le> length h"
  shows "mset (take n ((h[i := h ! j])[j := x])) = mset (take n (h[i := x]))"
proof -
  let ?ls = "take n (h[i := x])"
  have len: "i < length ?ls" "j < length ?ls" using assms by simp_all
  have "mset (?ls[j := ?ls ! i, i := ?ls ! j]) = mset ?ls" by (rule mset_swap[OF len])
  moreover have "?ls[j := ?ls ! i, i := ?ls ! j] = take n ((h[i := h ! j])[j := x])"
    using assms by (simp add: take_update_swap) (metis list_update_overwrite list_update_swap)
  ultimately show ?thesis by simp
qed

section \<open>The loops restore the heap\<close>

text \<open>
  The state of a loop: with the travelling entry \<open>x\<close> in the hole \<open>i\<close>, heap and locator are
  linked; \<open>settled\<close> is what the operations need of the result.
\<close>

definition hole :: "nat \<Rightarrow> nat \<Rightarrow> ('k \<times> nat) \<Rightarrow> nat \<Rightarrow> ('k \<times> nat) list \<Rightarrow> int list \<Rightarrow> bool" where
  "hole n m x i h loc \<longleftrightarrow> i < n \<and> linked n m (h[i := x]) (loc[snd x := int i])"

lemma hole_bounds:
  assumes "hole n m x i h loc"
  shows "length h = m" "length loc = m" "i < m" "n \<le> m" "snd x < m" "k < n \<Longrightarrow> k \<noteq> i \<Longrightarrow> snd (h ! k) < m"
proof -
  have i: "i < n" and lk: "linked n m (h[i := x]) (loc[snd x := int i])" using assms by (auto simp: hole_def)
  show len: "length h = m" "length loc = m" "n \<le> m" using linkedD(1-3)[OF lk] by simp_all
  then show "i < m" using i by simp
  show "snd x < m" using linkedD(4)[OF lk i] i len by simp
  show "k < n \<Longrightarrow> k \<noteq> i \<Longrightarrow> snd (h ! k) < m" using linkedD(4)[OF lk, of k] by simp
qed

lemma hole_move:
  assumes "hole n m x i h loc" "j < n" "j \<noteq> i"
  shows "hole n m x j (h[i := h ! j]) (loc[snd (h ! j) := int i])"
    and "mset (take n ((h[i := h ! j])[j := x])) = mset (take n (h[i := x]))"
    and "ordered_above lt n j (keys ((h[i := h ! j])[j := x])) =
      ordered_above lt n j ((keys (h[i := x]))(i := keys (h[i := x]) j, j := keys (h[i := x]) i))"
    and "ordered_below lt n j (keys ((h[i := h ! j])[j := x])) =
      ordered_below lt n j ((keys (h[i := x]))(i := keys (h[i := x]) j, j := keys (h[i := x]) i))"
proof -
  note b = hole_bounds[OF assms(1)]
  have i: "i < n" using assms(1) by (simp add: hole_def)
  show "hole n m x j (h[i := h ! j]) (loc[snd (h ! j) := int i])"
    using assms linked_swap(1)[of n m h i x loc j] by (simp add: hole_def)
  show "mset (take n ((h[i := h ! j])[j := x])) = mset (take n (h[i := x]))"
    using i assms(2,3) b(1,4) by (intro swap_mset) auto
  have k: "keys ((h[i := h ! j])[j := x]) k =
      ((keys (h[i := x]))(i := keys (h[i := x]) j, j := keys (h[i := x]) i)) k" if "k < n" for k
    using that i assms(2,3) b(1,4) by (auto simp: keys_def nth_list_update)
  show "ordered_above lt n j (keys ((h[i := h ! j])[j := x])) =
      ordered_above lt n j ((keys (h[i := x]))(i := keys (h[i := x]) j, j := keys (h[i := x]) i))"
    by (rule ordered_congs(1)[OF k assms(2)])
  show "ordered_below lt n j (keys ((h[i := h ! j])[j := x])) =
      ordered_below lt n j ((keys (h[i := x]))(i := keys (h[i := x]) j, j := keys (h[i := x]) i))"
    by (rule ordered_congs(2)[OF k assms(2)])
qed

definition settled ::
  "('k \<Rightarrow> 'k \<Rightarrow> bool) \<Rightarrow> nat \<Rightarrow> nat \<Rightarrow> ('k \<times> nat) \<Rightarrow> ('k \<times> nat) multiset \<Rightarrow>
    (('k \<times> nat) list \<times> int list \<times> nat) option \<Rightarrow> bool" where
  "settled lt n m x M r \<longleftrightarrow> (\<exists>h loc i. r = Some (h, loc, i) \<and> hole n m x i h loc \<and>
     heap_ordered lt n (h[i := x]) \<and> mset (take n (h[i := x])) = M)"

context key_order
begin

lemma filter_up_settled:
  assumes "hole n m (key, v) i h loc" "ordered_above lt n i (keys (h[i := (key, v)]))"
    and "mset (take n (h[i := (key, v)])) = M"
  shows "settled lt n m (key, v) M (filter_up lt key i h loc)"
  using assms
proof (induction i arbitrary: h loc rule: less_induct)
  case (less i)
  let ?x = "(key, v)"
  note b = hole_bounds[OF less.prems(1)]
  have i: "i < n" using less.prems(1) by (simp add: hole_def)
  have ki: "keys (h[i := ?x]) i = key" using b(1,3) by (simp add: keys_def)
  show ?case
  proof (cases "0 < i \<and> lt key (fst (h ! par i))")
    case False
    have "filter_up lt key i h loc = Some (h, loc, i)"
      using False b(1) par_lt[OF b(3)] by (subst filter_up.simps) (auto simp: mem_simps)
    moreover have "i = 0 \<or> \<not> lt (keys (h[i := ?x]) i) (keys (h[i := ?x]) (par i))"
      using False b(1,3) less_imp_neq[OF par_less[of i]] by (cases "i = 0") (auto simp: keys_def)
    ultimately show ?thesis
      using ordered_above_stop[OF less.prems(2)] less.prems(1,3) by (auto simp: settled_def heap_ordered_def)
  next
    case True
    let ?j = "par i"
    let ?h = "h[i := h ! ?j]" and ?loc = "loc[snd (h ! ?j) := int i]"
    have j: "?j < n" "?j \<noteq> i" "?j < i" using True par_lt[OF i] by (auto simp: less_imp_neq)
    note mv = hole_move[OF less.prems(1) j(1,2)]
    have kj: "keys (h[i := ?x]) ?j = fst (h ! ?j)" using j by (simp add: keys_def)
    have "ordered_above lt n ?j ((keys (h[i := ?x]))(i := keys (h[i := ?x]) ?j, ?j := keys (h[i := ?x]) i))"
      by (rule ordered_above_step[OF less.prems(2) i]) (use True ki kj in auto)
    then have "ordered_above lt n ?j (keys (?h[?j := ?x]))"
      by (simp only: mv(3))
    then have "settled lt n m ?x M (filter_up lt key ?j ?h ?loc)"
      using less.IH[OF j(3) mv(1)] mv(2) less.prems(3) by simp
    moreover have "filter_up lt key i h loc = filter_up lt key ?j ?h ?loc"
      using True b j by (subst filter_up.simps) (simp add: mem_simps)
    ultimately show ?thesis by simp
  qed
qed

lemma children: "par k = i \<Longrightarrow> 0 < k \<Longrightarrow> k = 2 * i + 1 \<or> k = 2 * i + 2"
  unfolding par_def by presburger

lemma par_children: "par (2 * i + 1) = i" "par (2 * i + 2) = i"
  unfolding par_def by presburger+

lemma filter_down_settled:
  assumes "hole n m (key, v) i h loc" "ordered_below lt n i (keys (h[i := (key, v)]))"
    and "mset (take n (h[i := (key, v)])) = M"
  shows "settled lt n m (key, v) M (filter_down lt key n i h loc)"
  using assms
proof (induction "n - i" arbitrary: i h loc rule: less_induct)
  case less
  let ?x = "(key, v)" and ?l = "2 * i + 1" and ?r = "2 * i + 2"
  note b = hole_bounds[OF less.prems(1)]
  have i: "i < n" using less.prems(1) by (simp add: hole_def)
  let ?K = "keys (h[i := ?x])"
  have ki: "?K i = key" using b(1,3) by (simp add: keys_def)
  have kk: "?K k = fst (h ! k)" if "k \<noteq> i" for k using that by (simp add: keys_def)
  text \<open>The common part of the two moving branches.\<close>
  have move: "settled lt n m ?x M (filter_down lt key n j (h[i := h ! j]) (loc[snd (h ! j) := int i]))"
    if j: "j < n" "par j = i" "0 < j" and l: "lt (fst (h ! j)) key"
      and small: "\<And>k. k < n \<Longrightarrow> 0 < k \<Longrightarrow> par k = i \<Longrightarrow> \<not> lt (fst (h ! k)) (fst (h ! j))" for j
  proof -
    have ij: "i < j" using par_less[OF j(3)] j(2) by simp
    note mv = hole_move[OF less.prems(1) j(1) less_imp_neq[OF ij, symmetric]]
    have ne: "k \<noteq> i" if "0 < k" "par k = i" for k using that less_imp_neq[OF par_less[OF that(1)]] by simp
    have "ordered_below lt n j (?K(i := ?K j, j := ?K i))"
      by (rule ordered_below_step[OF less.prems(2) j(1,3,2)]) (use l ki kk ne small ij in auto)
    then have "ordered_below lt n j (keys ((h[i := h ! j])[j := ?x]))"
      by (simp only: mv(4))
    moreover have "n - j < n - i" using ij j(1) by linarith
    ultimately show ?thesis using less.hyps[OF _ mv(1)] mv(2) less.prems(3) ij by simp
  qed
  have stop: "settled lt n m ?x M (Some (h, loc, i))"
    if "\<And>k. k < n \<Longrightarrow> 0 < k \<Longrightarrow> par k = i \<Longrightarrow> \<not> lt (fst (h ! k)) key"
  proof -
    have "ordered lt n ?K"
    proof (rule ordered_below_stop[OF less.prems(2)])
      fix k assume k: "k < n" "0 < k" "par k = i"
      then have "k \<noteq> i" using less_imp_neq[OF par_less[OF k(2)]] by simp
      then show "\<not> lt (?K k) (?K i)" using that[OF k] ki kk by simp
    qed
    then show ?thesis using less.prems(1,3) by (auto simp: settled_def heap_ordered_def)
  qed
  show ?case
  proof (cases "?l < n")
    case False
    then have "filter_down lt key n i h loc = Some (h, loc, i)" by (subst filter_down.simps) simp
    moreover have "\<not> lt (fst (h ! k)) key" if "k < n" "0 < k" "par k = i" for k
      using children[OF that(3,2)] that(1) False by auto
    ultimately show ?thesis using stop by simp
  next
    case True
    have rdn: "rd h k = Some (h ! k)" if "k < n" for k using that b by (simp add: rd_def)
    have wl: "wr h i u = Some (h[i := u])" for u using b by (simp add: wr_def)
    have wloc: "wr loc (snd (h ! k)) (int i) = Some (loc[snd (h ! k) := int i])" if "k < n" "k \<noteq> i" for k
      using b(2) b(6)[OF that] by (simp add: wr_def)
    consider (left) "lt (fst (h ! ?l)) key" "\<not> (?r < n \<and> lt (fst (h ! ?r)) (fst (h ! ?l)))"
      | (lr) "lt (fst (h ! ?l)) key" "?r < n" "lt (fst (h ! ?r)) (fst (h ! ?l))"
      | (right) "\<not> lt (fst (h ! ?l)) key" "?r < n" "lt (fst (h ! ?r)) key"
      | (none) "\<not> lt (fst (h ! ?l)) key" "\<not> (?r < n \<and> lt (fst (h ! ?r)) key)" by blast
    then show ?thesis
    proof cases
      case left
      have "filter_down lt key n i h loc = filter_down lt key n ?l (h[i := h ! ?l]) (loc[snd (h ! ?l) := int i])"
        using True left by (subst filter_down.simps) (simp add: rdn wl wloc Let_def cong: if_cong)
      then show ?thesis
        using move[of ?l] True par_children left children asym by (metis add_gr_0 less_numeral_extra(1))
    next
      case lr
      have "filter_down lt key n i h loc = filter_down lt key n ?r (h[i := h ! ?r]) (loc[snd (h ! ?r) := int i])"
        using True lr b by (subst filter_down.simps) (simp add: rdn wl wloc Let_def cong: if_cong)
      moreover have "lt (fst (h ! ?r)) key" using lr asym ntrans by metis
      ultimately show ?thesis
        using move[of ?r] par_children lr children asym by (metis add_gr_0 zero_less_numeral)
    next
      case right
      have "filter_down lt key n i h loc = filter_down lt key n ?r (h[i := h ! ?r]) (loc[snd (h ! ?r) := int i])"
        using True right by (subst filter_down.simps) (simp add: rdn wl wloc Let_def cong: if_cong)
      moreover have "\<not> lt (fst (h ! ?l)) (fst (h ! ?r))" using right asym ntrans by metis
      ultimately show ?thesis
        using move[of ?r] par_children right children asym by (metis add_gr_0 zero_less_numeral)
    next
      case none
      have "filter_down lt key n i h loc = Some (h, loc, i)"
        using True none by (subst filter_down.simps) (simp add: rdn Let_def cong: if_cong)
      then show ?thesis using stop none children by metis
    qed
  qed
qed

end
section \<open>The operations\<close>

lemma settled_finish:
  assumes "settled lt n m x M r"
  shows "\<exists>h loc. r \<bind> put_entry (fst x) (snd x) = Some (h, loc) \<and> linked n m h loc \<and>
    heap_ordered lt n h \<and> mset (take n h) = M"
proof -
  obtain h loc i where r: "r = Some (h, loc, i)" "hole n m x i h loc" "heap_ordered lt n (h[i := x])"
    "mset (take n (h[i := x])) = M" using assms by (auto simp: settled_def)
  then have "put_entry (fst x) (snd x) (h, loc, i) = Some (h[i := x], loc[snd x := int i])"
    using hole_bounds(1-5)[OF r(2)] by (simp add: put_entry_def wr_def)
  then show ?thesis using r by (auto simp: hole_def)
qed

lemma linked_cong:
  assumes "linked n m h loc" "length h' = length h" "\<And>k. k < n \<Longrightarrow> h' ! k = h ! k"
  shows "linked n m h' loc"
  using assms unfolding linked_def by (metis (no_types, lifting))

lemma linked_mem: "linked n m h loc \<Longrightarrow> v < m \<Longrightarrow> loc ! v \<noteq> -1 \<longleftrightarrow> (\<exists>i < n. snd (h ! i) = v)"
  using linkedD(5,6)[of n m h loc] by force

lemma items_mem: "linked n m h loc \<Longrightarrow> v < m \<Longrightarrow> (\<exists>k. (k, v) \<in># mset (take n h)) \<longleftrightarrow> loc ! v \<noteq> -1"
proof -
  assume lk: "linked n m h loc" and v: "v < m"
  have n: "n \<le> length h" using linkedD(1,3)[OF lk] by simp
  have "(\<exists>k. (k, v) \<in># mset (take n h)) \<longleftrightarrow> (\<exists>i < n. snd (h ! i) = v)"
  proof
    assume "\<exists>i < n. snd (h ! i) = v"
    then obtain i where i: "i < n" "snd (h ! i) = v" by blast
    then have "take n h ! i = (fst (h ! i), v)" by auto
    moreover have "i < length (take n h)" using i n by simp
    ultimately have "(fst (h ! i), v) \<in> set (take n h)" by (metis nth_mem)
    then show "\<exists>k. (k, v) \<in># mset (take n h)" by auto
  qed (use n in \<open>auto simp: in_set_conv_nth\<close>)
  then show ?thesis using linked_mem[OF lk v] by simp
qed

lemma linked_room:
  assumes "linked n m h loc" "v < m" "loc ! v = -1"
  shows "n < m"
proof -
  have "inj_on (\<lambda>i. snd (h ! i)) {..<n}" using linked_inj[OF assms(1)] by (auto simp: inj_on_def)
  moreover have "(\<lambda>i. snd (h ! i)) ` {..<n} \<subseteq> {..<m} - {v}"
    using linkedD(4,5)[OF assms(1)] assms(3) by fastforce
  ultimately have "card {..<n} \<le> card ({..<m} - {v})" by (meson card_inj_on_le finite_Diff finite_lessThan)
  then show ?thesis using assms(2) by (simp add: card_Diff_singleton)
qed

lemma hole_insert:
  assumes lk: "linked n m h loc" and v: "v < m" "loc ! v = -1"
  shows "hole (n + 1) m (key, v) n h loc"
proof -
  note room = linked_room[OF assms] and len = linkedD(1-3)[OF lk]
  have ne: "snd (h ! i) \<noteq> v" if "i < n" for i using linkedD(5)[OF lk that] v(2) by auto
  have "linked (n + 1) m (h[n := (key, v)]) (loc[v := int n])"
    unfolding linked_def
  proof (intro conjI allI impI)
    fix i assume "i < n + 1"
    then consider "i = n" | "i < n" by linarith
    then show "snd (h[n := (key, v)] ! i) < m"
      by cases (use room len v linkedD(4)[OF lk] in auto)
    show "loc[v := int n] ! snd (h[n := (key, v)] ! i) = int i"
      using \<open>i < n + 1\<close> room len v linkedD(5)[OF lk] ne[of i] by (cases "i = n") auto
  next
    fix w assume w: "w < m"
    show "loc[v := int n] ! w = -1 \<or> (\<exists>i<n + 1. loc[v := int n] ! w = int i \<and> snd (h[n := (key, v)] ! i) = w)"
    proof (cases "w = v")
      case True
      then show ?thesis using len room v by (intro disjI2 exI[of _ n]) auto
    next
      case False
      then show ?thesis using linkedD(6)[OF lk w] len room by (metis less_SucI less_irrefl nth_list_update_neq Suc_eq_plus1)
    qed
  qed (use len room in auto)
  then show ?thesis by (simp add: hole_def)
qed

lemma linked_drop_last:
  assumes "linked n m h loc" "0 < n"
  shows "linked (n - 1) m h (loc[snd (h ! (n - 1)) := -1])"
proof -
  let ?v = "snd (h ! (n - 1))"
  note lk = assms(1) and len = linkedD(1-3)[OF assms(1)]
  have n1: "n - 1 < n" using assms(2) by simp
  have ne: "snd (h ! i) \<noteq> ?v" if "i < n - 1" for i using linked_inj[OF lk, of i "n - 1"] that by force
  show ?thesis
    unfolding linked_def
  proof (intro conjI allI impI)
    fix i assume i: "i < n - 1"
    then show "snd (h ! i) < m" using linkedD(4)[OF lk, of i] by simp
    show "loc[?v := -1] ! snd (h ! i) = int i" using linkedD(5)[OF lk, of i] ne[OF i] i by simp
  next
    fix w assume w: "w < m"
    show "loc[?v := -1] ! w = -1 \<or> (\<exists>i<n - 1. loc[?v := -1] ! w = int i \<and> snd (h ! i) = w)"
    proof (cases "w = ?v")
      case False
      consider "loc ! w = -1" | i where "i < n" "loc ! w = int i" "snd (h ! i) = w" using linkedD(6)[OF lk w] by blast
      then show ?thesis
      proof cases
        case 2
        then have "i \<noteq> n - 1" using False by auto
        then have "i < n - 1" using 2(1) by linarith
        then show ?thesis using 2 False by auto
      qed (use False in simp)
    qed (use w len in simp)
  qed (use len in auto)
qed

lemma hole_remove:
  assumes lk: "linked n m h loc" and i: "i < n - 1"
  shows "hole (n - 1) m (h ! (n - 1)) i h (loc[snd (h ! i) := -1])"
proof -
  let ?x = "h ! i" and ?y = "h ! (n - 1)"
  have n: "i < n" "n - 1 < n" "n - 1 \<noteq> i" using i by linarith+
  have self: "h[i := ?x] = h" "loc[snd ?x := int i] = loc"
    using linkedD(5)[OF lk n(1)] by (auto intro: list_update_same_conv[THEN iffD2] simp: list_update_id)
      (metis list_update_id)
  have sw: "linked n m ((h[i := ?y])[n - 1 := ?x]) ((loc[snd ?y := int i])[snd ?x := int (n - 1)])"
    and ne: "snd ?y \<noteq> snd ?x"
    using linked_swap[of n m h i ?x loc "n - 1"] lk n self by auto
  have len: "n - 1 < length h" using linkedD(1,3)[OF lk] n by simp
  have "linked (n - 1) m ((h[i := ?y])[n - 1 := ?x]) ((loc[snd ?y := int i])[snd ?x := -1])"
    using linked_drop_last[OF sw] n len by simp
  then have "linked (n - 1) m (h[i := ?y]) ((loc[snd ?y := int i])[snd ?x := -1])"
    by (rule linked_cong) (use i in auto)
  then show ?thesis using i ne by (simp add: hole_def list_update_swap)
qed

lemma keys_update: "i < length h \<Longrightarrow> keys (h[i := x]) = (keys h)(i := fst x)"
  by (auto simp: keys_def nth_list_update)

lemma take_last_mset:
  assumes "i < n - 1" "n \<le> length h"
  shows "mset (take (n - 1) (h[i := h ! (n - 1)])) = mset (take n h) - {#h ! i#}"
proof -
  have "take n h = take (n - 1) h @ [h ! (n - 1)]"
    using assms by (metis One_nat_def Suc_diff_1 less_imp_diff_less less_le_trans not_less_zero diff_0_eq_0 gr0I take_Suc_conv_app_nth diff_less zero_less_one)
  moreover have "h ! i \<in># mset (take (n - 1) h)"
    using assms by (auto simp: in_set_conv_nth intro!: exI[of _ i])
  ultimately show ?thesis using take_update_mset[of i "n - 1" h "h ! (n - 1)"] assms by simp
qed

context key_order
begin

lemma replace_above:
  assumes "ordered lt n K" "i < n" "lt k' (K i)"
  shows "ordered_above lt n i (K(i := k'))"
proof -
  have o: "\<not> lt (K k) (K (par k))" if "k < n" "0 < k" for k using assms(1) that by (simp add: ordered_def)
  have up: "\<not> lt (K k) k'" if "k < n" "0 < k" "par k = i" for k
    using o[OF that(1,2)] that(3) ntrans[OF asym[OF assms(3)]] by simp
  have pn: "par k \<noteq> k" if "0 < k" for k using less_imp_neq[OF par_less[OF that]] .
  show ?thesis
    unfolding ordered_above_def
  proof (intro conjI allI impI)
    fix k assume "k < n" "0 < k" "k \<noteq> i"
    then show "\<not> lt ((K(i := k')) k) ((K(i := k')) (par k))" using o[of k] up[of k] by simp
  next
    fix k assume k: "k < n" "0 < k" "par k = i" "0 < i"
    have "k \<noteq> i" using pn k by metis
    then show "\<not> lt ((K(i := k')) k) ((K(i := k')) (par i))"
      using o[OF k(1,2)] o[OF assms(2) k(4)] k pn[OF k(4)] ntrans by simp
  qed
qed

lemma replace_below:
  assumes "ordered lt n K" "i < n" "i = 0 \<or> \<not> lt k' (K i)"
  shows "ordered_below lt n i (K(i := k'))"
proof -
  have o: "\<not> lt (K k) (K (par k))" if "k < n" "0 < k" for k using assms(1) that by (simp add: ordered_def)
  have pn: "par k \<noteq> k" if "0 < k" for k using less_imp_neq[OF par_less[OF that]] .
  show ?thesis
    unfolding ordered_below_def
  proof (intro conjI allI impI)
    fix k assume k: "k < n" "0 < k" "par k \<noteq> i"
    then show "\<not> lt ((K(i := k')) k) ((K(i := k')) (par k))"
      using o[of k] assms(3) ntrans by (cases "k = i") auto
  next
    fix k assume k: "k < n" "0 < k" "par k = i" "0 < i"
    have "k \<noteq> i" using pn k by metis
    then show "\<not> lt ((K(i := k')) k) ((K(i := k')) (par i))"
      using o[OF k(1,2)] o[OF assms(2) k(4)] k pn[OF k(4)] ntrans by simp
  qed
qed

lemma pqInsert_correct:
  assumes inv: "pq_inv lt q" and v: "v < maxnodes q" "v \<notin> snd ` set_mset (items q)"
  shows "\<exists>q'. pqInsert lt v k q = Some q' \<and> pq_inv lt q' \<and> maxnodes q' = maxnodes q \<and>
    items q' = items q + {#(k, v)#}"
proof -
  let ?n = "nnodes q" and ?m = "maxnodes q" and ?h = "heap q" and ?loc = "locator q"
  have lk: "linked ?n ?m ?h ?loc" and ord: "ordered lt ?n (keys ?h)"
    using inv by (auto simp: pq_inv_def heap_ordered_def)
  have "\<nexists>k. (k, v) \<in># mset (take ?n ?h)" using v(2) by (force simp: items_def)
  then have free: "?loc ! v = -1" using items_mem[OF lk v(1)] by simp
  have room: "?n < length ?h" using linked_room[OF lk v(1) free] linkedD(1)[OF lk] by simp
  have ab: "ordered_above lt (?n + 1) ?n (keys (?h[?n := (k, v)]))"
    unfolding ordered_above_def
  proof (intro conjI allI impI)
    fix j assume j: "j < ?n + 1" "0 < j" "j \<noteq> ?n"
    then have "par j < ?n" using par_less[of j] by linarith
    then show "\<not> lt (keys (?h[?n := (k, v)]) j) (keys (?h[?n := (k, v)]) (par j))"
      using ord j by (simp add: ordered_def keys_def)
  next
    fix j assume "j < ?n + 1" "0 < j" "par j = ?n"
    then show "\<not> lt (keys (?h[?n := (k, v)]) j) (keys (?h[?n := (k, v)]) (par ?n))"
      using par_less[of j] by linarith
  qed
  have "mset (take (?n + 1) (?h[?n := (k, v)])) = items q + {#(k, v)#}"
    using room by (simp add: take_Suc_conv_app_nth items_def)
  then obtain h loc where r: "filter_up lt k ?n ?h ?loc \<bind> put_entry k v = Some (h, loc)"
    "linked (?n + 1) ?m h loc" "heap_ordered lt (?n + 1) h" "mset (take (?n + 1) h) = items q + {#(k, v)#}"
    using settled_finish[OF filter_up_settled[OF hole_insert[OF lk v(1) free] ab]] by auto
  then have "pqInsert lt v k q = Some (q\<lparr>nnodes := ?n + 1, heap := h, locator := loc\<rparr>)"
    by (cases "filter_up lt k ?n ?h ?loc") (auto simp: pqInsert_def)
  then show ?thesis using r by (simp add: pq_inv_def items_def)
qed

lemma replace_entry:
  assumes hl: "hole n m x i h loc" and ord: "ordered lt n (keys h)"
  shows "settled lt n m x (mset (take n (h[i := x])))
    (if lt (fst x) (fst (h ! i)) then filter_up lt (fst x) i h loc else filter_down lt (fst x) n i h loc)"
proof -
  have i: "i < n" "i < length h" using hl hole_bounds[OF hl] by (auto simp: hole_def)
  have ku: "keys (h[i := x]) = (keys h)(i := fst x)" by (rule keys_update[OF i(2)])
  show ?thesis
  proof (cases "lt (fst x) (fst (h ! i))")
    case True
    then have "ordered_above lt n i (keys (h[i := x]))"
      unfolding ku by (intro replace_above[OF ord i(1)]) (simp add: keys_def)
    then show ?thesis using filter_up_settled[of n m "fst x" "snd x" i h loc] hl True by simp
  next
    case False
    then have "ordered_below lt n i (keys (h[i := x]))"
      unfolding ku by (intro replace_below[OF ord i(1)]) (simp add: keys_def)
    then show ?thesis using filter_down_settled[of n m "fst x" "snd x" i h loc] hl False by simp
  qed
qed

lemma ordered_prefix: "ordered lt n K \<Longrightarrow> m \<le> n \<Longrightarrow> ordered lt m K"
  by (simp add: ordered_def)

lemma pqDelete_correct:
  assumes inv: "pq_inv lt q" and mem: "(k, v) \<in># items q"
  shows "\<exists>q'. pqDelete lt v q = Some q' \<and> pq_inv lt q' \<and> maxnodes q' = maxnodes q \<and>
    items q' = items q - {#(k, v)#}"
proof -
  let ?n = "nnodes q" and ?m = "maxnodes q" and ?h = "heap q" and ?loc = "locator q"
  have lk: "linked ?n ?m ?h ?loc" and ord: "ordered lt ?n (keys ?h)"
    using inv by (auto simp: pq_inv_def heap_ordered_def)
  note len = linkedD(1-3)[OF lk]
  obtain i where i: "i < ?n" "?h ! i = (k, v)" using mem len by (auto simp: items_def in_set_conv_nth)
  have v: "v < ?m" "?loc ! v = int i" using linkedD(4,5)[OF lk i(1)] i(2) by simp_all
  let ?y = "?h ! (?n - 1)"
  show ?thesis
  proof (cases "i < ?n - 1")
    case True
    have hl: "hole (?n - 1) ?m ?y i ?h (?loc[v := -1])" using hole_remove[OF lk True] i(2) by simp
    have ne: "snd ?y \<noteq> v" using linked_inj[OF lk i(1), of "?n - 1"] True i by auto
    have "mset (take (?n - 1) (?h[i := ?y])) = items q - {#(k, v)#}"
      using take_last_mset[OF True, of ?h] len i(2) by (simp add: items_def)
    then obtain h loc where r:
      "(if lt (fst ?y) (fst (?h ! i)) then filter_up lt (fst ?y) i ?h (?loc[v := -1])
        else filter_down lt (fst ?y) (?n - 1) i ?h (?loc[v := -1])) \<bind> put_entry (fst ?y) (snd ?y) = Some (h, loc)"
      "linked (?n - 1) ?m h loc" "heap_ordered lt (?n - 1) h" "mset (take (?n - 1) h) = items q - {#(k, v)#}"
      using settled_finish[OF replace_entry[OF hl ordered_prefix[OF ord]]] by auto
    have "pqDelete lt v q = Some (q\<lparr>nnodes := ?n - 1, heap := h, locator := loc\<rparr>)"
      using r(1) v i len ne True
      by (auto simp: pqDelete_def mem_simps Let_def bind_eq_Some_conv split: if_splits)
    then show ?thesis using r by (simp add: pq_inv_def items_def)
  next
    case False
    then have last: "i = ?n - 1" "0 < ?n" using i(1) by linarith+
    have "pqDelete lt v q = Some (q\<lparr>nnodes := ?n - 1, locator := ?loc[v := -1]\<rparr>)"
      using v i len last by (auto simp: pqDelete_def mem_simps Let_def)
    moreover have "linked (?n - 1) ?m ?h (?loc[v := -1])" using linked_drop_last[OF lk last(2)] last(1) i(2) by simp
    moreover have "mset (take (?n - 1) ?h) = items q - {#(k, v)#}"
    proof -
      have "take ?n ?h = take (?n - 1) ?h @ [(k, v)]"
        using i last len by (metis Suc_diff_1 less_le_trans take_Suc_conv_app_nth)
      then show ?thesis by (simp add: items_def)
    qed
    ultimately show ?thesis
      using ordered_prefix[OF ord, of "?n - 1"] by (simp add: pq_inv_def items_def heap_ordered_def)
  qed
qed

lemma pqUpdate_correct:
  assumes inv: "pq_inv lt q" and mem: "(k, v) \<in># items q"
  shows "\<exists>q'. pqUpdate lt v k' q = Some q' \<and> pq_inv lt q' \<and> maxnodes q' = maxnodes q \<and>
    items q' = items q - {#(k, v)#} + {#(k', v)#}"
proof -
  let ?n = "nnodes q" and ?m = "maxnodes q" and ?h = "heap q" and ?loc = "locator q"
  have lk: "linked ?n ?m ?h ?loc" and ord: "ordered lt ?n (keys ?h)"
    using inv by (auto simp: pq_inv_def heap_ordered_def)
  note len = linkedD(1-3)[OF lk]
  obtain i where i: "i < ?n" "?h ! i = (k, v)" using mem len by (auto simp: items_def in_set_conv_nth)
  have v: "v < ?m" "?loc ! v = int i" using linkedD(4,5)[OF lk i(1)] i(2) by simp_all
  have "linked ?n ?m (?h[i := (k', v)]) ?loc"
    unfolding linked_def
  proof (intro conjI allI impI)
    fix j assume j: "j < ?n"
    have s: "snd (?h[i := (k', v)] ! j) = snd (?h ! j)" using i j len by (cases "j = i") auto
    show "snd (?h[i := (k', v)] ! j) < ?m" "?loc ! snd (?h[i := (k', v)] ! j) = int j"
      unfolding s using linkedD(4,5)[OF lk j] by simp_all
  next
    fix w assume w: "w < ?m"
    have s: "snd (?h[i := (k', v)] ! j) = snd (?h ! j)" if "j < ?n" for j using i that len by (cases "j = i") auto
    show "?loc ! w = -1 \<or> (\<exists>j<?n. ?loc ! w = int j \<and> snd (?h[i := (k', v)] ! j) = w)"
      using linkedD(6)[OF lk w] s by metis
  qed (use len in auto)
  moreover have "?loc[v := int i] = ?loc" using v(2) by (metis list_update_id)
  ultimately have hl: "hole ?n ?m (k', v) i ?h ?loc" using i(1) by (simp add: hole_def)
  have "mset (take ?n (?h[i := (k', v)])) = items q - {#(k, v)#} + {#(k', v)#}"
    using take_update_mset[OF i(1), of ?h "(k', v)"] len i(2) by (simp add: items_def)
  then obtain h loc where r:
    "(if lt k' (fst (?h ! i)) then filter_up lt k' i ?h ?loc else filter_down lt k' ?n i ?h ?loc)
       \<bind> put_entry k' v = Some (h, loc)"
    "linked ?n ?m h loc" "heap_ordered lt ?n h" "mset (take ?n h) = items q - {#(k, v)#} + {#(k', v)#}"
    using settled_finish[OF replace_entry[OF hl ord], unfolded fst_conv snd_conv] by auto
  have "pqUpdate lt v k' q = Some (q\<lparr>heap := h, locator := loc\<rparr>)"
    using r(1) v i len by (auto simp: pqUpdate_def mem_simps bind_eq_Some_conv split: if_splits)
  then show ?thesis using r by (simp add: pq_inv_def items_def)
qed

lemma pqGetTop_correct:
  assumes inv: "pq_inv lt q" and ne: "items q \<noteq> {#}"
  shows "\<exists>k v q'. pqGetTop lt q = Some (int v, q') \<and> pq_inv lt q' \<and> maxnodes q' = maxnodes q \<and>
    (k, v) \<in># items q \<and> (\<forall>e \<in># items q. \<not> lt (fst e) k) \<and> items q' = items q - {#(k, v)#}"
proof -
  let ?n = "nnodes q" and ?m = "maxnodes q" and ?h = "heap q" and ?loc = "locator q"
  have lk: "linked ?n ?m ?h ?loc" and ord: "ordered lt ?n (keys ?h)"
    using inv by (auto simp: pq_inv_def heap_ordered_def)
  note len = linkedD(1-3)[OF lk]
  have n: "0 < ?n" using ne by (cases ?n) (auto simp: items_def)
  obtain k v where top: "?h ! 0 = (k, v)" by fastforce
  have v: "v < ?m" using linkedD(4)[OF lk n] top by simp
  have mem: "(k, v) \<in># items q" using n len top by (auto simp: items_def in_set_conv_nth intro!: exI[of _ 0])
  have small: "\<forall>e \<in># items q. \<not> lt (fst e) k"
  proof
    fix e assume "e \<in># items q"
    then obtain i where "i < ?n" "?h ! i = e" using len by (auto simp: items_def in_set_conv_nth)
    then show "\<not> lt (fst e) k" using root_smallest[OF ord, of i] top by (simp add: keys_def)
  qed
  let ?y = "?h ! (?n - 1)"
  show ?thesis
  proof (cases "0 < ?n - 1")
    case True
    have hl: "hole (?n - 1) ?m ?y 0 ?h (?loc[v := -1])" using hole_remove[OF lk True] top by simp
    have ku: "keys (?h[0 := ?y]) = (keys ?h)(0 := fst ?y)" using n len by (intro keys_update) linarith
    have "ordered_below lt (?n - 1) 0 (keys (?h[0 := ?y]))"
      unfolding ku using ordered_prefix[OF ord, of "?n - 1"] True by (intro replace_below) auto
    moreover have "mset (take (?n - 1) (?h[0 := ?y])) = items q - {#(k, v)#}"
      using take_last_mset[OF True, of ?h] len top by (simp add: items_def)
    ultimately obtain h loc where r:
      "filter_down lt (fst ?y) (?n - 1) 0 ?h (?loc[v := -1]) \<bind> put_entry (fst ?y) (snd ?y) = Some (h, loc)"
      "linked (?n - 1) ?m h loc" "heap_ordered lt (?n - 1) h" "mset (take (?n - 1) h) = items q - {#(k, v)#}"
      using settled_finish[OF filter_down_settled[of "?n - 1" ?m "fst ?y" "snd ?y" 0 ?h "?loc[v := -1]"]] hl by auto
    have "pqGetTop lt q = Some (int v, q\<lparr>nnodes := ?n - 1, heap := h, locator := loc\<rparr>)"
      using r(1) v n len True top by (auto simp: pqGetTop_def mem_simps Let_def bind_eq_Some_conv)
    then show ?thesis using r mem small by (auto simp: pq_inv_def items_def)
  next
    case False
    then have one: "?n = 1" using n by linarith
    have "pqGetTop lt q = Some (int v, q\<lparr>nnodes := 0, locator := ?loc[v := -1]\<rparr>)"
      using v n len one top by (auto simp: pqGetTop_def mem_simps Let_def)
    moreover have "linked 0 ?m ?h (?loc[v := -1])" using linked_drop_last[OF lk n] one top by simp
    moreover have "items q = {#(k, v)#}"
      using one len top by (simp add: items_def take_Suc_conv_app_nth)
    ultimately show ?thesis using small by (auto simp: pq_inv_def items_def heap_ordered_def ordered_def)
  qed
qed

end

section \<open>Interface\<close>

text \<open>
  What the partitioning code relies on: a queue of (key, node) pairs with distinct nodes below
  a capacity, changed by insertion, removal and re-keying of a node, and emptied from the top.
\<close>

locale addressable_queue =
  fixes lt :: "'k \<Rightarrow> 'k \<Rightarrow> bool"
    and invar :: "'q \<Rightarrow> bool" and cap :: "'q \<Rightarrow> nat" and contents :: "'q \<Rightarrow> ('k \<times> nat) multiset"
    and ins :: "nat \<Rightarrow> 'k \<Rightarrow> 'q \<Rightarrow> 'q option" and del :: "nat \<Rightarrow> 'q \<Rightarrow> 'q option"
    and upd :: "nat \<Rightarrow> 'k \<Rightarrow> 'q \<Rightarrow> 'q option" and pop :: "'q \<Rightarrow> (int \<times> 'q) option"
  assumes ins_law: "invar q \<Longrightarrow> v < cap q \<Longrightarrow> v \<notin> snd ` set_mset (contents q) \<Longrightarrow>
      \<exists>q'. ins v k q = Some q' \<and> invar q' \<and> cap q' = cap q \<and> contents q' = contents q + {#(k, v)#}"
    and del_law: "invar q \<Longrightarrow> (k, v) \<in># contents q \<Longrightarrow>
      \<exists>q'. del v q = Some q' \<and> invar q' \<and> cap q' = cap q \<and> contents q' = contents q - {#(k, v)#}"
    and upd_law: "invar q \<Longrightarrow> (k, v) \<in># contents q \<Longrightarrow>
      \<exists>q'. upd v k' q = Some q' \<and> invar q' \<and> cap q' = cap q \<and> contents q' = contents q - {#(k, v)#} + {#(k', v)#}"
    and pop_law: "invar q \<Longrightarrow> contents q \<noteq> {#} \<Longrightarrow>
      \<exists>k v q'. pop q = Some (int v, q') \<and> invar q' \<and> cap q' = cap q \<and> (k, v) \<in># contents q \<and>
        (\<forall>e \<in># contents q. \<not> lt (fst e) k) \<and> contents q' = contents q - {#(k, v)#}"

text \<open>The loop of the clients: take \<open>n\<close> nodes from the top.\<close>

primrec take_tops :: "('q \<Rightarrow> (int \<times> 'q) option) \<Rightarrow> nat \<Rightarrow> 'q \<Rightarrow> int list option" where
  "take_tops pop 0 q = Some []"
| "take_tops pop (Suc n) q = do {
     (v, q) \<leftarrow> pop q;
     vs \<leftarrow> take_tops pop n q;
     Some (v # vs) }"

context addressable_queue
begin

lemma take_tops_sorted:
  assumes "invar q" "size (contents q) = n"
  shows "\<exists>es. take_tops pop n q = Some (map (\<lambda>e. int (snd e)) es) \<and> mset es = contents q \<and>
    sorted_wrt (\<lambda>a b. \<not> lt (fst b) (fst a)) es"
  using assms
proof (induction n arbitrary: q)
  case (Suc n)
  then have "contents q \<noteq> {#}" by auto
  then obtain k v q' where t: "pop q = Some (int v, q')" "invar q'" "(k, v) \<in># contents q"
    "\<forall>e \<in># contents q. \<not> lt (fst e) k" "contents q' = contents q - {#(k, v)#}"
    using pop_law[OF Suc.prems(1)] by blast
  then have "size (contents q') = n" using Suc.prems(2) by (simp add: size_Diff_singleton)
  then obtain es where es: "take_tops pop n q' = Some (map (\<lambda>e. int (snd e)) es)" "mset es = contents q'"
    "sorted_wrt (\<lambda>a b. \<not> lt (fst b) (fst a)) es" using Suc.IH[OF t(2)] by blast
  have "\<not> lt (fst e) k" if "e \<in> set es" for e
  proof -
    have "e \<in># contents q'" using that es(2) by (metis set_mset_mset)
    then show ?thesis using t(4,5) by (auto dest: in_diffD)
  qed
  then show ?case using t es by (intro exI[of _ "(k, v) # es"]) auto
qed auto

lemma ins_many:
  assumes "invar q" "distinct (map snd es)" "\<And>e. e \<in> set es \<Longrightarrow> snd e < cap q"
    "\<And>e. e \<in> set es \<Longrightarrow> snd e \<notin> snd ` set_mset (contents q)"
  shows "\<exists>q'. for_each es (\<lambda>(k, v) q. ins v k q) q = Some q' \<and> invar q' \<and> cap q' = cap q \<and>
    contents q' = contents q + mset es"
  using assms
proof (induction es arbitrary: q)
  case (Cons e es)
  obtain k v where e: "e = (k, v)" by fastforce
  obtain q1 where q1: "ins v k q = Some q1" "invar q1" "cap q1 = cap q" "contents q1 = contents q + {#(k, v)#}"
    using ins_law[of q v k] Cons.prems(1) Cons.prems(3)[of e] Cons.prems(4)[of e] e by auto
  have pre: "distinct (map snd es)" "\<And>e. e \<in> set es \<Longrightarrow> snd e < cap q1"
    "\<And>e. e \<in> set es \<Longrightarrow> snd e \<notin> snd ` set_mset (contents q1)"
  proof -
    show "distinct (map snd es)" using Cons.prems(2) by simp
    show "snd e < cap q1" if "e \<in> set es" for e using Cons.prems(3)[of e] that q1(3) by simp
    have v: "v \<notin> snd ` set es" using Cons.prems(2) e by simp
    show "snd e' \<notin> snd ` set_mset (contents q1)" if e': "e' \<in> set es" for e'
    proof -
      have "snd e' \<noteq> v" using v e' by (metis imageI)
      moreover have "snd e' \<notin> snd ` set_mset (contents q)" using Cons.prems(4)[of e'] e' by simp
      ultimately show ?thesis using q1(4) by simp
    qed
  qed
  have "\<exists>q'. for_each es (\<lambda>(k, v) q. ins v k q) q1 = Some q' \<and> invar q' \<and> cap q' = cap q1 \<and>
      contents q' = contents q1 + mset es"
    by (rule Cons.IH[OF q1(2) pre])
  then show ?case using q1 e by auto
qed auto

end

context key_order
begin

sublocale queue: addressable_queue lt "pq_inv lt" maxnodes items "pqInsert lt" "pqDelete lt" "pqUpdate lt" "pqGetTop lt"
  by unfold_locales (fact pqInsert_correct pqDelete_correct pqUpdate_correct pqGetTop_correct)+

lemma pqInit_correct: "length junk = n \<Longrightarrow> pq_inv lt (pqInit junk n) \<and> items (pqInit junk n) = {#}"
  by (simp add: pq_inv_def pqInit_def linked_def heap_ordered_def ordered_def items_def)

lemma pqReset_correct:
  assumes "pq_inv lt q"
  shows "\<exists>q'. pqReset q = Some q' \<and> pq_inv lt q' \<and> items q' = {#} \<and> maxnodes q' = maxnodes q"
proof -
  let ?n = "nnodes q" and ?h = "heap q"
  have lk: "linked ?n (maxnodes q) ?h (locator q)" using assms by (simp add: pq_inv_def)
  have "\<exists>loc. for_each (rev [0..<m]) (\<lambda>i loc. do { x \<leftarrow> rd ?h i; wr loc (snd x) (-1) }) loc0 = Some loc \<and>
      linked 0 (maxnodes q) ?h loc"
    if "linked m (maxnodes q) ?h loc0" for m loc0
    using that
  proof (induction m arbitrary: loc0)
    case (Suc m)
    have "linked m (maxnodes q) ?h (loc0[snd (?h ! m) := -1])" using linked_drop_last[OF Suc.prems] by simp
    moreover have "m < length ?h" "snd (?h ! m) < length loc0"
      using linkedD(1-3)[OF Suc.prems] linkedD(4)[OF Suc.prems, of m] by auto
    ultimately show ?case using Suc.IH by (simp add: mem_simps)
  qed auto
  from this[OF lk] show ?thesis
    by (auto simp: pqReset_def pq_inv_def items_def heap_ordered_def ordered_def)
qed

lemma for_each_all:
  assumes "\<And>i. i \<in> set is \<Longrightarrow> P i" "\<And>i. i \<in> set is \<Longrightarrow> f i True = Some (P i)"
  shows "for_each is f True = Some True"
  using assms by (induction "is") auto

lemma pqCheckHeap_True:
  assumes "pq_inv lt q"
  shows "pqCheckHeap lt q = Some True"
proof (cases "nnodes q = 0")
  case False
  let ?n = "nnodes q" and ?m = "maxnodes q" and ?h = "heap q" and ?loc = "locator q"
  have lk: "linked ?n ?m ?h ?loc" and ord: "ordered lt ?n (keys ?h)"
    using assms by (auto simp: pq_inv_def heap_ordered_def)
  note len = linkedD(1-3)[OF lk]
  have rh: "rd ?h i = Some (?h ! i)" if "i < ?n" for i using that len by (simp add: rd_def)
  have rl: "rd ?loc (snd (?h ! i)) = Some (int i)" if "i < ?n" for i
    using linkedD(4,5)[OF lk that] len by (simp add: rd_def)
  have one: "for_each [1..<?n] (\<lambda>i ok. do { x \<leftarrow> rd ?h i; p \<leftarrow> rd ?loc (snd x); y \<leftarrow> rd ?h ((i - 1) div 2);
      Some (ok \<and> p = int i \<and> \<not> lt (fst x) (fst y)) }) True = Some True"
  proof (rule for_each_all[where P = "\<lambda>_. True"])
    fix i assume "i \<in> set [1..<?n]"
    then have i: "0 < i" "i < ?n" by auto
    then show "(do { x \<leftarrow> rd ?h i; p \<leftarrow> rd ?loc (snd x); y \<leftarrow> rd ?h ((i - 1) div 2);
      Some (True \<and> p = int i \<and> \<not> lt (fst x) (fst y)) }) = Some True"
      using rh[OF i(2)] rl[OF i(2)] rh[OF par_lt[OF i(2)]] ord by (simp add: par_def ordered_def keys_def)
  qed simp
  have two: "for_each [1..<?n] (\<lambda>i ok. do { x \<leftarrow> rd ?h i; Some (ok \<and> \<not> lt (fst x) (fst (?h ! 0))) }) True = Some True"
    by (rule for_each_all[where P = "\<lambda>_. True"]) (use rh root_smallest[OF ord] in \<open>auto simp: keys_def\<close>)
  have "for_each [0..<?m] (\<lambda>i j. do { p \<leftarrow> rd ?loc i; Some (if p \<noteq> -1 then j + 1 else j) }) (0 :: nat) =
      Some (card {v. v < ?m \<and> ?loc ! v \<noteq> -1})"
  proof -
    let ?I = "\<lambda>k j. j = card {v. v < k \<and> ?loc ! v \<noteq> -1}"
    have "\<exists>j. for_each [0..<?m] (\<lambda>i j. do { p \<leftarrow> rd ?loc i; Some (if p \<noteq> -1 then j + 1 else j) }) (0 :: nat) = Some j \<and> ?I ?m j"
    proof (rule for_each_upt[where I = ?I])
      fix i j assume i: "0 \<le> i" "i < ?m" and I: "?I i j"
      have "{v. v < Suc i \<and> ?loc ! v \<noteq> -1} = (if ?loc ! i \<noteq> -1 then insert i {v. v < i \<and> ?loc ! v \<noteq> -1}
          else {v. v < i \<and> ?loc ! v \<noteq> -1})" by (auto simp: less_Suc_eq)
      then show "\<exists>u. (do { p \<leftarrow> rd ?loc i; Some (if p \<noteq> -1 then j + 1 else j) }) = Some u \<and> ?I (Suc i) u"
        using i I len by (auto simp: rd_def)
    qed auto
    then show ?thesis by auto
  qed
  moreover have "{v. v < ?m \<and> ?loc ! v \<noteq> -1} = (\<lambda>i. snd (?h ! i)) ` {..<?n}"
    using linkedD(4,5)[OF lk] linkedD(6)[OF lk] by force
  moreover have "card ((\<lambda>i. snd (?h ! i)) ` {..<?n}) = ?n"
    using linked_inj[OF lk] by (subst card_image) (auto simp: inj_on_def)
  ultimately show ?thesis using False one two rh[of 0] rl[of 0] by (simp add: pqCheckHeap_def)
qed (simp add: pqCheckHeap_def)

end

text \<open>The instance \<^verbatim>\<open>ipq\<close> of METIS: integer keys, largest first.\<close>

interpretation ipq: key_order "(>) :: int \<Rightarrow> int \<Rightarrow> bool"
  by unfold_locales auto

section \<open>Properties\<close>

text \<open>
  C13: Inserting any nodes with distinct numbers below the capacity into a fresh \<^verbatim>\<open>ipq\<close> queue and
  taking all of them from the top returns every node exactly once, in order of descending keys.
\<close>

theorem ipq_sorts:
  assumes "distinct (map snd es)" "list_all (\<lambda>e. snd e < n) es" "length junk = n"
  shows "\<exists>q out. for_each es (\<lambda>(k, v) q. pqInsert (>) v k q) (pqInit junk n) = Some q \<and>
    pqLength q = length es \<and>
    take_tops (pqGetTop (>)) (length es) q = Some (map (\<lambda>e. int (snd e)) out) \<and>
    mset out = mset (es :: (int \<times> nat) list) \<and> sorted_wrt (\<lambda>a b. fst b \<le> fst a) out"
proof -
  note init = ipq.pqInit_correct[OF assms(3)]
  obtain q where q: "for_each es (\<lambda>(k, v) q. pqInsert (>) v k q) (pqInit junk n) = Some q" "pq_inv (>) q" "items q = mset es"
    using ipq.queue.ins_many[OF conjunct1[OF init] assms(1)] assms(2) init
    by (auto simp: list_all_iff pqInit_def)
  moreover have "size (items q) = length es" using q(3) by simp
  moreover have "size (items q) = nnodes q"
    using q(2) by (auto simp: items_def pq_inv_def linked_def)
  ultimately show ?thesis
    using ipq.queue.take_tops_sorted[OF q(2), of "length es"] by (auto simp: not_less pqLength_def)
qed

theorem ipq_sorts_witness:
  "\<exists>q out. for_each [(3 :: int, 1), (7, 0), (3, 2)] (\<lambda>(k, v) q. pqInsert (>) v k q)
      (pqInit [(0, 0), (0, 0), (0, 0), (0, 0)] 4) = Some q \<and>
    pqLength q = length [(3 :: int, 1 :: nat), (7, 0), (3, 2)] \<and>
    take_tops (pqGetTop (>)) (length [(3 :: int, 1 :: nat), (7, 0), (3, 2)]) q = Some (map (\<lambda>e. int (snd e)) out) \<and>
    mset out = mset [(3 :: int, 1 :: nat), (7, 0), (3, 2)] \<and> sorted_wrt (\<lambda>a b. fst b \<le> fst a) out"
  by (rule ipq_sorts) simp_all

text \<open>
  C14: On a consistent queue, re-keying and deleting a queued node succeed, keep heap and
  locator consistent (\<^verbatim>\<open>CheckHeap\<close> accepts the result) and change exactly the entry of that
  node; resetting empties the queue.
\<close>

theorem ipq_operations_keep_invariant:
  assumes "pq_inv (>) q" and "(k :: int, v) \<in># items q"
  shows "(\<exists>q'. pqUpdate (>) v k' q = Some q' \<and> pq_inv (>) q' \<and> pqCheckHeap (>) q' = Some True \<and>
      items q' = items q - {#(k, v)#} + {#(k', v)#}) \<and>
    (\<exists>q'. pqDelete (>) v q = Some q' \<and> pq_inv (>) q' \<and> pqCheckHeap (>) q' = Some True \<and>
      items q' = items q - {#(k, v)#}) \<and>
    (\<exists>q'. pqReset q = Some q' \<and> pq_inv (>) q' \<and> items q' = {#})"
  using ipq.pqUpdate_correct[OF assms] ipq.pqDelete_correct[OF assms] ipq.pqReset_correct[OF assms(1)]
    ipq.pqCheckHeap_True by blast

theorem ipq_operations_keep_invariant_witness:
  "(\<exists>q'. pqUpdate (>) 0 2 \<lparr>nnodes = 2, maxnodes = 3, heap = [(9, 2), (5, 0), (0, 0)], locator = [1, -1, 0]\<rparr> = Some q' \<and>
      pq_inv (>) q' \<and> pqCheckHeap (>) q' = Some True \<and>
      items q' = items \<lparr>nnodes = 2, maxnodes = 3, heap = [(9, 2), (5, 0), (0, 0)], locator = [1, -1, 0]\<rparr>
        - {#(5, 0)#} + {#(2 :: int, 0)#}) \<and>
    (\<exists>q'. pqDelete (>) 0 \<lparr>nnodes = 2, maxnodes = 3, heap = [(9, 2), (5, 0), (0, 0)], locator = [1, -1, 0]\<rparr> = Some q' \<and>
      pq_inv (>) q' \<and> pqCheckHeap (>) q' = Some True \<and>
      items q' = items \<lparr>nnodes = 2, maxnodes = 3, heap = [(9, 2), (5, 0), (0, 0)], locator = [1, -1, 0]\<rparr>
        - {#(5 :: int, 0)#}) \<and>
    (\<exists>q'. pqReset \<lparr>nnodes = 2, maxnodes = 3, heap = [(9 :: int, 2), (5, 0), (0, 0)], locator = [1, -1, 0]\<rparr> = Some q' \<and>
      pq_inv (>) q' \<and> items q' = {#})"
proof (rule ipq_operations_keep_invariant)
  show "pq_inv (>) \<lparr>nnodes = 2, maxnodes = 3, heap = [(9 :: int, 2), (5, 0), (0, 0)], locator = [1, -1, 0]\<rparr>"
    by (auto simp: pq_inv_def linked_def heap_ordered_def ordered_def keys_def par_def less_Suc_eq numeral_eq_Suc nth_Cons
        split: nat.splits)
qed (simp add: items_def numeral_eq_Suc)

end
