(* ===== verification/SparseMatrix.thy ===== *)
theory SparseMatrix
  imports Prelude
begin

text \<open>
  The matrix class of the FETI solvers, \<^verbatim>\<open>src/solver/generic/SparseMatrix.h\<close> and
  \<^verbatim>\<open>SparseMatrix.cpp\<close>: one object holds a matrix as coordinate triples, as compressed sparse
  rows (CSR, one-based) or densely.  This theory has the object itself, its copies, and the
  abstraction of the CSR arrays to rows that the theories on its operations build on.
  Indices are \<^verbatim>\<open>eslocal\<close>, modelled as integers; values are any type.
\<close>

section \<open>Vectors indexed by signed integers\<close>

definition rdi :: "'a list \<Rightarrow> int \<Rightarrow> 'a option" where
  "rdi xs i = (if 0 \<le> i then rd xs (nat i) else None)"

definition wri :: "'a list \<Rightarrow> int \<Rightarrow> 'a \<Rightarrow> 'a list option" where
  "wri xs i v = (if 0 \<le> i then wr xs (nat i) v else None)"

lemma rdi_Some [mem_simps]: "0 \<le> i \<Longrightarrow> nat i < length xs \<Longrightarrow> rdi xs i = Some (xs ! nat i)"
  by (simp add: rdi_def rd_Some)

lemma wri_Some [mem_simps]: "0 \<le> i \<Longrightarrow> nat i < length xs \<Longrightarrow> wri xs i v = Some (xs[nat i := v])"
  by (simp add: wri_def wr_Some)

lemma rdi_of_nat: "rdi xs (int i) = rd xs i"
  by (simp add: rdi_def)

text \<open>\<^verbatim>\<open>std::vector::resize(n, v)\<close>; a negative size, converted to \<^verbatim>\<open>size_t\<close>, throws.\<close>

definition vresize :: "int \<Rightarrow> 'a \<Rightarrow> 'a list \<Rightarrow> 'a list option" where
  "vresize n v xs = (if 0 \<le> n then Some (take (nat n) xs @ replicate (nat n - length xs) v) else None)"

lemma vresize_Nil: "0 \<le> n \<Longrightarrow> vresize n v [] = Some (replicate (nat n) v)"
  by (simp add: vresize_def)

text \<open>The values in \<^verbatim>\<open>[begin() + a, begin() + b)\<close>; both iterators must lie in the vector.\<close>

definition range_i :: "'a list \<Rightarrow> int \<Rightarrow> int \<Rightarrow> 'a list option" where
  "range_i xs a b = (if 0 \<le> a \<and> a \<le> b \<and> b \<le> int (length xs) then Some (vspan (nat a) (nat b) xs) else None)"

section \<open>The object\<close>

datatype matrix_type = REAL_SYMMETRIC_POSITIVE_DEFINITE | REAL_SYMMETRIC_INDEFINITE | REAL_UNSYMMETRIC

text \<open>
  \<open>'v\<close> is \<^verbatim>\<open>double\<close>, \<open>'f\<close> is \<^verbatim>\<open>float\<close>; the six device pointers are addresses with
  \<^verbatim>\<open>NULL\<close> as 0.  The field \<^verbatim>\<open>type\<close> is \<open>mat_type\<close>.
\<close>

record ('v, 'f) sparse_matrix =
  rows :: int
  cols :: int
  nnz :: int
  mat_type :: char
  mtype :: matrix_type
  uplo :: char
  extern_lda :: int
  I_row_indices :: "int list"
  J_col_indices :: "int list"
  V_values :: "'v list"
  CSR_I_row_indices :: "int list"
  CSR_J_col_indices :: "int list"
  CSR_V_values :: "'v list"
  dense_values :: "'v list"
  dense_values_fl :: "'f list"
  ipiv :: "int list"
  vec_fl_in :: "'f list"
  vec_fl_out :: "'f list"
  USE_FLOAT :: bool
  d_dense_values :: nat
  d_x_in :: nat
  d_y_out :: nat
  d_dense_values_fl :: nat
  d_x_in_fl :: nat
  d_y_out_fl :: nat

abbreviation NUL :: char where "NUL \<equiv> CHR 0x00"

text \<open>The default constructor.\<close>

definition sm_new :: "('v, 'f) sparse_matrix" where
  "sm_new = \<lparr> rows = 0, cols = 0, nnz = 0, mat_type = NUL, mtype = REAL_UNSYMMETRIC, uplo = NUL,
     extern_lda = 0, I_row_indices = [], J_col_indices = [], V_values = [],
     CSR_I_row_indices = [], CSR_J_col_indices = [], CSR_V_values = [],
     dense_values = [], dense_values_fl = [], ipiv = [], vec_fl_in = [], vec_fl_out = [],
     USE_FLOAT = False, d_dense_values = 0, d_x_in = 0, d_y_out = 0,
     d_dense_values_fl = 0, d_x_in_fl = 0, d_y_out_fl = 0 \<rparr>"

text \<open>
  Assignment copies the listed members over the old object \<open>this\<close>; the copy constructor runs
  the same assignments on a new object, whose \<^verbatim>\<open>uplo\<close> and \<^verbatim>\<open>extern_lda\<close> it never sets:
  \<open>raw\<close> and \<open>raw_lda\<close> are what the memory held.
\<close>

definition sm_assign :: "('v, 'f) sparse_matrix \<Rightarrow> ('v, 'f) sparse_matrix \<Rightarrow> ('v, 'f) sparse_matrix" where
  "sm_assign this A_in = this \<lparr> rows := rows A_in, cols := cols A_in, nnz := nnz A_in,
     mat_type := mat_type A_in, mtype := mtype A_in, USE_FLOAT := USE_FLOAT A_in,
     I_row_indices := I_row_indices A_in, J_col_indices := J_col_indices A_in, V_values := V_values A_in,
     CSR_I_row_indices := CSR_I_row_indices A_in, CSR_J_col_indices := CSR_J_col_indices A_in,
     CSR_V_values := CSR_V_values A_in,
     dense_values := dense_values A_in, dense_values_fl := dense_values_fl A_in,
     d_dense_values := d_dense_values A_in, d_x_in := d_x_in A_in, d_y_out := d_y_out A_in,
     d_dense_values_fl := d_dense_values_fl A_in, d_x_in_fl := d_x_in_fl A_in, d_y_out_fl := d_y_out_fl A_in \<rparr>"

definition sm_copy :: "char \<Rightarrow> int \<Rightarrow> ('v, 'f) sparse_matrix \<Rightarrow> ('v, 'f) sparse_matrix" where
  "sm_copy raw raw_lda A_in = \<lparr> rows = rows A_in, cols = cols A_in, nnz = nnz A_in,
     mat_type = mat_type A_in, mtype = mtype A_in, uplo = raw, extern_lda = raw_lda,
     I_row_indices = I_row_indices A_in, J_col_indices = J_col_indices A_in, V_values = V_values A_in,
     CSR_I_row_indices = CSR_I_row_indices A_in, CSR_J_col_indices = CSR_J_col_indices A_in,
     CSR_V_values = CSR_V_values A_in,
     dense_values = dense_values A_in, dense_values_fl = dense_values_fl A_in,
     ipiv = [], vec_fl_in = [], vec_fl_out = [], USE_FLOAT = USE_FLOAT A_in,
     d_dense_values = d_dense_values A_in, d_x_in = d_x_in A_in, d_y_out = d_y_out A_in,
     d_dense_values_fl = d_dense_values_fl A_in, d_x_in_fl = d_x_in_fl A_in, d_y_out_fl = d_y_out_fl A_in \<rparr>"

text \<open>\<^verbatim>\<open>swap\<close> returns both objects; it exchanges every member it names.\<close>

definition sm_swap ::
  "('v, 'f) sparse_matrix \<Rightarrow> ('v, 'f) sparse_matrix \<Rightarrow> ('v, 'f) sparse_matrix \<times> ('v, 'f) sparse_matrix" where
  "sm_swap this A_in =
    (this \<lparr> rows := rows A_in, cols := cols A_in, nnz := nnz A_in,
       mat_type := mat_type A_in, mtype := mtype A_in, USE_FLOAT := USE_FLOAT A_in,
       I_row_indices := I_row_indices A_in, J_col_indices := J_col_indices A_in, V_values := V_values A_in,
       CSR_I_row_indices := CSR_I_row_indices A_in, CSR_J_col_indices := CSR_J_col_indices A_in,
       CSR_V_values := CSR_V_values A_in,
       dense_values := dense_values A_in, dense_values_fl := dense_values_fl A_in,
       d_dense_values := d_dense_values A_in, d_x_in := d_x_in A_in, d_y_out := d_y_out A_in,
       d_dense_values_fl := d_dense_values_fl A_in, d_x_in_fl := d_x_in_fl A_in, d_y_out_fl := d_y_out_fl A_in \<rparr>,
     A_in \<lparr> rows := rows this, cols := cols this, nnz := nnz this,
       mat_type := mat_type this, mtype := mtype this, USE_FLOAT := USE_FLOAT this,
       I_row_indices := I_row_indices this, J_col_indices := J_col_indices this, V_values := V_values this,
       CSR_I_row_indices := CSR_I_row_indices this, CSR_J_col_indices := CSR_J_col_indices this,
       CSR_V_values := CSR_V_values this,
       dense_values := dense_values this, dense_values_fl := dense_values_fl this,
       d_dense_values := d_dense_values this, d_x_in := d_x_in this, d_y_out := d_y_out this,
       d_dense_values_fl := d_dense_values_fl this, d_x_in_fl := d_x_in_fl this, d_y_out_fl := d_y_out_fl this \<rparr>)"

definition sm_clear :: "('v, 'f) sparse_matrix \<Rightarrow> ('v, 'f) sparse_matrix" where
  "sm_clear this = this \<lparr> rows := 0, cols := 0, nnz := 0, mat_type := NUL, uplo := NUL, extern_lda := 0,
     I_row_indices := [], J_col_indices := [], V_values := [],
     CSR_I_row_indices := [], CSR_J_col_indices := [], CSR_V_values := [],
     dense_values := [], dense_values_fl := [] \<rparr>"

section \<open>Compressed sparse rows\<close>

text \<open>
  A matrix is abstracted to the list of its rows, each the list of its (column, value) pairs
  in storage order.  \<open>csr_starts\<close> are the one-based positions where the rows begin,
  \<open>csr_ptrs\<close> the row pointers, which add the end of the last row.
\<close>

type_synonym 'v sparse_rows = "(int \<times> 'v) list list"

definition csr_starts :: "'v sparse_rows \<Rightarrow> int list" where
  "csr_starts rws = map (\<lambda>r. 1 + int (psum (map length rws) r)) [0..<length rws]"

definition csr_ptrs :: "'v sparse_rows \<Rightarrow> int list" where
  "csr_ptrs rws = csr_starts rws @ [1 + int (length (concat rws))]"

definition csr_rep :: "('v, 'f) sparse_matrix \<Rightarrow> 'v sparse_rows \<Rightarrow> bool" where
  "csr_rep M rws \<longleftrightarrow> rows M = int (length rws) \<and> nnz M = int (length (concat rws)) \<and>
     CSR_I_row_indices M = csr_ptrs rws \<and>
     CSR_J_col_indices M = map fst (concat rws) \<and> CSR_V_values M = map snd (concat rws) \<and>
     list_all (\<lambda>e. 1 \<le> fst e \<and> fst e \<le> cols M) (concat rws)"

text \<open>What a well-formed CSR object is, and the rows it holds; both can be evaluated.\<close>

definition csr_wf :: "('v, 'f) sparse_matrix \<Rightarrow> bool" where
  "csr_wf M \<longleftrightarrow> 0 \<le> rows M \<and> length (CSR_I_row_indices M) = Suc (nat (rows M)) \<and>
     hd (CSR_I_row_indices M) = 1 \<and> sorted (CSR_I_row_indices M) \<and>
     last (CSR_I_row_indices M) = nnz M + 1 \<and>
     int (length (CSR_J_col_indices M)) = nnz M \<and> int (length (CSR_V_values M)) = nnz M \<and>
     list_all (\<lambda>c. 1 \<le> c \<and> c \<le> cols M) (CSR_J_col_indices M)"

definition csr_rows :: "('v, 'f) sparse_matrix \<Rightarrow> 'v sparse_rows" where
  "csr_rows M = map (\<lambda>r. let a = nat (CSR_I_row_indices M ! r - 1); b = nat (CSR_I_row_indices M ! Suc r - 1)
       in zip (vspan a b (CSR_J_col_indices M)) (vspan a b (CSR_V_values M))) [0..<nat (rows M)]"

lemma sum_list_lengths: "sum_list (map length xss) = length (concat xss)"
  by (simp add: length_concat)

lemma length_csr_starts [simp]: "length (csr_starts rws) = length rws"
  by (simp add: csr_starts_def)

lemma length_csr_ptrs [simp]: "length (csr_ptrs rws) = Suc (length rws)"
  by (simp add: csr_ptrs_def)

lemma csr_ptrs_nth: "r \<le> length rws \<Longrightarrow> csr_ptrs rws ! r = 1 + int (psum (map length rws) r)"
  using psum_length[of "map length rws"]
  by (cases "r < length rws") (auto simp: csr_ptrs_def csr_starts_def nth_append length_concat)

lemma csr_starts_Nil [simp]: "csr_starts [] = []"
  by (simp add: csr_starts_def)

lemma csr_starts_snoc [simp]: "csr_starts (rws @ [row]) = csr_ptrs rws"
proof -
  have "psum (map length (rws @ [row])) r = psum (map length rws) r" if "r \<le> length rws" for r
    using that by (simp add: psum_def)
  then show ?thesis
    by (auto simp: csr_starts_def csr_ptrs_def length_concat psum_def intro!: map_cong)
qed

lemma csr_ptrs_Nil [simp]: "csr_ptrs [] = [1]"
  by (simp add: csr_ptrs_def)

lemma csr_ptrs_snoc: "csr_ptrs (rws @ [row]) = csr_ptrs rws @ [1 + int (length (concat rws) + length row)]"
  by (simp only: csr_ptrs_def csr_starts_snoc) simp

lemma csr_ptrs_append:
  "csr_ptrs (as @ bs) = csr_ptrs as @ map (\<lambda>p. int (length (concat as)) + p) (tl (csr_ptrs bs))"
proof (induction bs rule: rev_induct)
  case (snoc b bs)
  have "tl (csr_ptrs (bs @ [b])) = tl (csr_ptrs bs) @ [1 + int (length (concat bs) + length b)]"
    using length_csr_ptrs[of bs] by (cases "csr_ptrs bs") (auto simp: csr_ptrs_snoc)
  with snoc show ?case by (simp flip: append_assoc add: csr_ptrs_snoc)
qed simp

lemma psum_lengths_le: "psum (map length rws) r \<le> length (concat rws)"
  by (metis append_take_drop_id le_add1 length_concat map_append psum_def sum_list_append take_map)

lemma psum_lengths_Suc:
  "r < length rws \<Longrightarrow> psum (map length rws) (Suc r) = psum (map length rws) r + length (rws ! r)"
  by (simp add: psum_Suc)

lemma concat_at_psum:
  "r < length rws \<Longrightarrow>
     vspan (psum (map length rws) r) (psum (map length rws) (Suc r)) (concat rws) = rws ! r"
proof (induction rws arbitrary: r)
  case (Cons row rws)
  then show ?case
    by (cases r) (auto simp: psum_def vspan_def)
qed simp

lemma nth_concat_psum:
  assumes "r < length rws" and "c < length (rws ! r)"
  shows "concat rws ! (psum (map length rws) r + c) = rws ! r ! c"
  using concat_at_psum[OF assms(1)] nth_vspan[of c "psum (map length rws) (Suc r)" "psum (map length rws) r" "concat rws"]
    psum_lengths_Suc[OF assms(1)] psum_lengths_le[of rws "Suc r"] assms(2) by simp

lemma nth_concat_bound:
  "r < length rws \<Longrightarrow> c < length (rws ! r) \<Longrightarrow> psum (map length rws) r + c < length (concat rws)"
  using psum_lengths_Suc[of r rws] psum_lengths_le[of rws "Suc r"] by simp

lemma vspan_map: "vspan a b (map f xs) = map f (vspan a b xs)"
  by (simp add: map_vspan)

lemma zip_map_fst_snd: "zip (map fst xs) (map snd xs) = xs"
  by (simp add: zip_map_fst_snd)

lemma length_csr_rows [simp]: "length (csr_rows M) = nat (rows M)"
  by (simp add: csr_rows_def)

lemma csr_rep_rows: assumes "csr_rep M rws" shows "csr_rows M = rws"
proof (rule nth_equalityI)
  show "length (csr_rows M) = length rws"
    using assms by (simp add: csr_rows_def csr_rep_def)
  fix r assume "r < length (csr_rows M)"
  then have r: "r < length rws" using assms by (simp add: csr_rows_def csr_rep_def)
  then show "csr_rows M ! r = rws ! r"
    using assms
    by (simp add: csr_rows_def csr_rep_def csr_ptrs_nth vspan_map zip_map_fst_snd concat_at_psum)
qed

lemma sorted_csr_ptrs: "sorted (csr_ptrs rws)"
  unfolding sorted_iff_nth_mono by (simp add: csr_ptrs_nth psum_mono)

lemma csr_rep_wf: assumes "csr_rep M rws" shows "csr_wf M"
  using assms csr_ptrs_nth[of 0 rws] length_csr_ptrs[of rws] sorted_csr_ptrs[of rws]
  by (auto simp: csr_rep_def csr_wf_def hd_conv_nth list_all_iff csr_ptrs_def split: prod.splits
      simp del: length_csr_ptrs)

lemma csr_wf_ptrs:
  assumes "csr_wf M" and "r \<le> nat (rows M)"
  shows "1 \<le> CSR_I_row_indices M ! r" and "CSR_I_row_indices M ! r \<le> nnz M + 1"
proof -
  let ?I = "CSR_I_row_indices M"
  have len: "length ?I = Suc (nat (rows M))" and srt: "sorted ?I" and "hd ?I = 1" "last ?I = nnz M + 1"
    using assms(1) by (auto simp: csr_wf_def)
  then have "?I ! 0 = 1" "?I ! nat (rows M) = nnz M + 1"
    by (auto simp: hd_conv_nth last_conv_nth simp flip: length_greater_0_conv)
  with assms(2) len sorted_nth_mono[OF srt, of 0 r] sorted_nth_mono[OF srt, of r "nat (rows M)"]
  show "1 \<le> ?I ! r" and "?I ! r \<le> nnz M + 1" by auto
qed

lemma csr_wf_rep: assumes "csr_wf M" shows "csr_rep M (csr_rows M)"
proof -
  let ?I = "CSR_I_row_indices M" and ?J = "CSR_J_col_indices M" and ?V = "CSR_V_values M"
  let ?n = "nat (rows M)" and ?Z = "zip (CSR_J_col_indices M) (CSR_V_values M)"
  have len: "length ?I = Suc ?n" and srt: "sorted ?I" and "hd ?I = 1" and lst: "last ?I = nnz M + 1"
    and J: "int (length ?J) = nnz M" and V: "int (length ?V) = nnz M"
    using assms by (auto simp: csr_wf_def)
  then have I0: "?I ! 0 = 1" by (simp add: hd_conv_nth flip: length_greater_0_conv)
  have In: "?I ! ?n = nnz M + 1" using len lst by (simp add: last_conv_nth flip: length_greater_0_conv)
  define d where "d = map (\<lambda>p. nat (p - 1)) ?I"
  have dist: "is_distribution d ?n (length ?Z)"
  proof -
    have "sorted d"
      unfolding d_def sorted_map using srt by (auto elim!: sorted_wrt_mono_rel[rotated])
    then show ?thesis using len I0 In J V by (simp add: is_distribution_def d_def)
  qed
  have row: "csr_rows M ! r = vspan (d ! r) (d ! Suc r) ?Z" if "r < ?n" for r
    using that len by (simp add: csr_rows_def d_def vspan_def drop_zip take_zip Let_def)
  have rws: "csr_rows M = map (\<lambda>r. vspan (d ! r) (d ! Suc r) ?Z) [0..<?n]"
    by (rule nth_equalityI) (simp add: csr_rows_def, simp only: row nth_map length_map length_upt nth_upt
        length_csr_rows diff_zero add_0)
  have cat: "concat (csr_rows M) = ?Z"
    unfolding rws by (rule concat_vspans[OF dist])
  have lens: "psum (map length (csr_rows M)) r = d ! r" if "r \<le> ?n" for r
    using that
  proof (induction r)
    case 0
    then show ?case using dist by (simp add: is_distribution_def)
  next
    case (Suc r)
    have "d ! r \<le> d ! Suc r" "d ! Suc r \<le> length ?Z"
      using Suc.prems is_distribution_mono[OF dist, of r "Suc r"] is_distribution_le[OF dist, of "Suc r"] by auto
    moreover have "length (csr_rows M) = ?n" by (simp add: csr_rows_def)
    ultimately show ?case using Suc by (simp add: psum_lengths_Suc row)
  qed
  have ptrs: "csr_ptrs (csr_rows M) = ?I"
  proof (rule nth_equalityI)
    show "length (csr_ptrs (csr_rows M)) = length ?I" using len by (simp add: csr_rows_def)
    fix r assume "r < length (csr_ptrs (csr_rows M))"
    then have r: "r \<le> ?n" by (simp add: csr_rows_def)
    then show "csr_ptrs (csr_rows M) ! r = ?I ! r"
      using csr_wf_ptrs[OF assms r] len
      by (simp add: csr_ptrs_nth lens d_def del: map_map)
  qed
  show ?thesis
    unfolding csr_rep_def ptrs cat
    using assms J V by (auto simp: csr_wf_def csr_rows_def list_all_iff dest: set_zip_leftD)
qed

lemma csr_wf_iff: "csr_wf M \<longleftrightarrow> (\<exists>rws. csr_rep M rws)"
  using csr_wf_rep csr_rep_wf by blast

lemma csr_rep_iff: "csr_rep M rws \<longleftrightarrow> csr_wf M \<and> csr_rows M = rws"
  using csr_wf_rep csr_rep_wf csr_rep_rows by metis

section \<open>Loops over rows\<close>

lemma upto_shift: "[p..p + int n - 1] = map (\<lambda>c. p + int c) [0..<n]"
proof (induction n)
  case (Suc n)
  have "[p..p + int (Suc n) - 1] = [p..p + int n - 1] @ [p + int n]"
    using upto_rec2[of p "p + int n"] by simp
  with Suc show ?case by simp
qed simp

lemma for_each_map: "for_each (map g xs) body s = for_each xs (\<lambda>x. body (g x)) s"
proof (induction xs arbitrary: s)
  case (Cons x xs)
  then show ?case by (cases "body (g x) s") auto
qed simp

lemma for_each_nth: "for_each [0..<length xs] (\<lambda>i. f (xs ! i)) s = for_each xs f s"
  using for_each_map[of "(!) xs" "[0..<length xs]" f s] by (simp add: map_nth)

text \<open>A loop over consecutive positions that only looks at the values there.\<close>

lemma for_each_positions:
  assumes "q = p + int (length xs)" and "\<And>c s. c < length xs \<Longrightarrow> body (p + int c) s = f (xs ! c) s"
  shows "for_each [p..q - 1] body s = for_each xs f s"
proof -
  have "for_each [p..q - 1] body s = for_each [0..<length xs] (\<lambda>c. body (p + int c)) s"
    by (simp add: assms(1) upto_shift for_each_map)
  also have "\<dots> = for_each [0..<length xs] (\<lambda>c. f (xs ! c)) s"
    by (rule for_each_cong) (auto simp: assms(2))
  finally show ?thesis by (simp add: for_each_nth)
qed

lemma csr_rep_ptrs: "csr_rep M rws \<Longrightarrow> r \<le> length rws \<Longrightarrow> rd (CSR_I_row_indices M) r = Some (csr_ptrs rws ! r)"
  by (simp add: csr_rep_def rd_Some)

lemma csr_ptrs_Suc:
  "r < length rws \<Longrightarrow> csr_ptrs rws ! Suc r = csr_ptrs rws ! r + int (length (rws ! r))"
  by (simp add: csr_ptrs_nth psum_lengths_Suc)

lemma csr_ptrs_ge: "r \<le> length rws \<Longrightarrow> 1 \<le> csr_ptrs rws ! r"
  by (simp add: csr_ptrs_nth)

lemma csr_rep_entry:
  assumes "csr_rep M rws" and "r < length rws" and "c < length (rws ! r)"
    and "i = csr_ptrs rws ! r - 1 + int c"
  shows "rdi (CSR_J_col_indices M) i = Some (fst (rws ! r ! c))"
    and "rdi (CSR_V_values M) i = Some (snd (rws ! r ! c))"
proof -
  have "i = int (psum (map length rws) r + c)"
    using assms(2,4) by (simp add: csr_ptrs_nth)
  then show "rdi (CSR_J_col_indices M) i = Some (fst (rws ! r ! c))"
    and "rdi (CSR_V_values M) i = Some (snd (rws ! r ! c))"
    using assms(1) nth_concat_psum[OF assms(2,3)] nth_concat_bound[OF assms(2,3)]
    by (simp_all only: csr_rep_def rdi_of_nat rd_Some length_map nth_map)
qed

text \<open>The slice of one row.\<close>

lemma csr_rep_range:
  assumes "csr_rep M rws" and "r < length rws"
  shows "range_i (CSR_J_col_indices M) (csr_ptrs rws ! r - 1) (csr_ptrs rws ! Suc r - 1) = Some (map fst (rws ! r))"
    and "range_i (CSR_V_values M) (csr_ptrs rws ! r - 1) (csr_ptrs rws ! Suc r - 1) = Some (map snd (rws ! r))"
  using assms psum_lengths_le[of rws "Suc r"] psum_mono[of r "Suc r" "map length rws"] concat_at_psum[of r rws]
  by (auto simp: csr_rep_def range_i_def csr_ptrs_nth vspan_map)

text \<open>Appending the kept entries of a row to the output arrays.\<close>

lemma for_each_push:
  "for_each row (\<lambda>e (js, vs, n). if P (fst e) then Some (js @ [g (fst e)], vs @ [snd e], n + 1) else Some (js, vs, n))
     (js, vs, n) =
   Some (js @ map (g \<circ> fst) (filter (P \<circ> fst) row), vs @ map snd (filter (P \<circ> fst) row),
     n + int (length (filter (P \<circ> fst) row)))"
  by (induction row arbitrary: js vs n) auto

lemma for_each_count:
  "for_each row (\<lambda>e n. Some (if P (fst e) then n + 1 else n)) n =
   Some (n + int (length (filter (P \<circ> fst) row)))"
  by (induction row arbitrary: n) auto

end
