(* ===== verification/CooSort.thy ===== *)
theory CooSort
  imports SparseMatrix
begin

text \<open>
  Sorting of coordinate triples, \<^verbatim>\<open>q_sort_in\<close> and \<^verbatim>\<open>sortInCOO\<close> of
  \<^verbatim>\<open>src/solver/generic/SparseMatrix.cpp\<close>: an in-place quicksort of three parallel vectors
  by row and then column.
\<close>

section \<open>Positions and their order\<close>

datatype position = At (row_of: int) (col_of: int)

instantiation position :: linorder
begin

definition less_eq_position :: "position \<Rightarrow> position \<Rightarrow> bool" where
  "p \<le> q \<longleftrightarrow> row_of p < row_of q \<or> (row_of p = row_of q \<and> col_of p \<le> col_of q)"

definition less_position :: "position \<Rightarrow> position \<Rightarrow> bool" where
  "p < q \<longleftrightarrow> row_of p < row_of q \<or> (row_of p = row_of q \<and> col_of p < col_of q)"

instance
  by standard (auto simp: less_eq_position_def less_position_def intro: position.expand)

end

section \<open>The code\<close>

text \<open>The three vectors that are sorted together.\<close>

type_synonym 'v coo = "int list \<times> int list \<times> 'v list"

text \<open>
  The macro \<^verbatim>\<open>comp_x\<close> on the rows and columns at \<open>x\<close> and \<open>p\<close>; the two differences are taken
  of indices between 1 and the matrix size, so they do not overflow.
\<close>

definition comp_x :: "'v coo \<Rightarrow> int \<Rightarrow> int \<Rightarrow> int option" where
  "comp_x = (\<lambda>(is, js, vs) x p. do {
     ax \<leftarrow> rdi is x;
     ap \<leftarrow> rdi is p;
     if ax \<noteq> ap then Some (ax - ap)
     else do { bx \<leftarrow> rdi js x; bp \<leftarrow> rdi js p; Some (bx - bp) }
   })"

function scan_up :: "'v coo \<Rightarrow> int \<Rightarrow> int \<Rightarrow> int \<Rightarrow> int option" where
  "scan_up m p l h =
    (if l < h then do { d \<leftarrow> comp_x m l p; if d \<le> 0 then scan_up m p (l + 1) h else Some l } else Some l)"
  by pat_completeness auto
termination by (relation "measure (\<lambda>(m, p, l, h). nat (h - l))") auto

function scan_down :: "'v coo \<Rightarrow> int \<Rightarrow> int \<Rightarrow> int \<Rightarrow> int option" where
  "scan_down m p l h =
    (if l < h then do { d \<leftarrow> comp_x m h p; if 0 \<le> d then scan_down m p l (h - 1) else Some h } else Some h)"
  by pat_completeness auto
termination by (relation "measure (\<lambda>(m, p, l, h). nat (h - l))") auto

declare scan_up.simps [simp del] scan_down.simps [simp del]

definition swap_at :: "'a list \<Rightarrow> int \<Rightarrow> int \<Rightarrow> 'a list option" where
  "swap_at xs l h = do {
     t \<leftarrow> rdi xs l;
     x \<leftarrow> rdi xs h;
     xs \<leftarrow> wri xs l x;
     wri xs h t
   }"

definition swap_coo :: "'v coo \<Rightarrow> int \<Rightarrow> int \<Rightarrow> 'v coo option" where
  "swap_coo = (\<lambda>(is, js, vs) l h. do {
     js \<leftarrow> swap_at js l h;
     is \<leftarrow> swap_at is l h;
     vs \<leftarrow> swap_at vs l h;
     Some (is, js, vs)
   })"

lemma scan_up_cases:
  assumes "scan_up m p l h = Some l'"
  shows "(h \<le> l \<and> l' = l) \<or> (l < h \<and> (\<exists>d. comp_x m l p = Some d \<and>
    (0 < d \<and> l' = l \<or> d \<le> 0 \<and> scan_up m p (l + 1) h = Some l')))"
  using assms by (subst (asm) scan_up.simps) (auto simp: bind_eq_Some_conv split: if_splits)

lemma scan_down_cases:
  assumes "scan_down m p l h = Some h'"
  shows "(h \<le> l \<and> h' = h) \<or> (l < h \<and> (\<exists>d. comp_x m h p = Some d \<and>
    (d < 0 \<and> h' = h \<or> 0 \<le> d \<and> scan_down m p l (h - 1) = Some h')))"
  using assms by (subst (asm) scan_down.simps) (auto simp: bind_eq_Some_conv split: if_splits)

lemma scan_up_le: "scan_up m p l h = Some l' \<Longrightarrow> l \<le> l' \<and> (l \<le> h \<longrightarrow> l' \<le> h)"
proof (induction m p l h rule: scan_up.induct)
  case (1 m p l h)
  from scan_up_cases[OF 1(2)] 1(1) show ?case by force
qed

lemma scan_down_le: "scan_down m p l h = Some h' \<Longrightarrow> h' \<le> h \<and> (l \<le> h \<longrightarrow> l \<le> h')"
proof (induction m p l h rule: scan_down.induct)
  case (1 m p l h)
  from scan_down_cases[OF 1(2)] 1(1) show ?case by force
qed

lemma scan_up_stop: "scan_up m p l h = Some l' \<Longrightarrow> l' < h \<Longrightarrow> \<exists>d > 0. comp_x m l' p = Some d"
proof (induction m p l h rule: scan_up.induct)
  case (1 m p l h)
  from scan_up_cases[OF 1(2)] 1(1,3) show ?case by force
qed

lemma scan_down_stop: "scan_down m p l h = Some h' \<Longrightarrow> l < h' \<Longrightarrow> \<exists>d < 0. comp_x m h' p = Some d"
proof (induction m p l h rule: scan_down.induct)
  case (1 m p l h)
  from scan_down_cases[OF 1(2)] 1(1,3) show ?case by force
qed

lemma swap_at_eq_Some:
  "swap_at xs l h = Some ys \<longleftrightarrow> 0 \<le> l \<and> nat l < length xs \<and> 0 \<le> h \<and> nat h < length xs \<and>
     ys = xs[nat l := xs ! nat h, nat h := xs ! nat l]"
  by (auto simp: swap_at_def rdi_def wri_def rd_def wr_def bind_eq_Some_conv split: if_splits)

lemma rdi_swap_at: "swap_at xs l h = Some ys \<Longrightarrow> rdi ys i = rdi xs (if i = l then h else if i = h then l else i)"
  by (auto simp: swap_at_eq_Some rdi_def rd_def nth_list_update)

lemma comp_x_swap:
  assumes "swap_coo m l h = Some m'" and "p \<noteq> l" and "p \<noteq> h"
  shows "comp_x m' l p = comp_x m h p"
proof -
  obtain i j v i' j' v' where m: "m = (i, j, v)" "m' = (i', j', v')" by (cases m; cases m')
  then have "swap_at i l h = Some i'" "swap_at j l h = Some j'"
    using assms(1) by (auto simp: swap_coo_def bind_eq_Some_conv)
  with assms(2,3) show ?thesis by (simp add: m comp_x_def rdi_swap_at cong: if_cong)
qed

lemma comp_x_self: "comp_x m p p = Some d \<Longrightarrow> d = 0"
  by (cases m) (auto simp: comp_x_def bind_eq_Some_conv split: if_splits)

text \<open>The \<^verbatim>\<open>do\<close> loop of the partition; it returns the final \<open>l\<close>.\<close>

function sweep :: "'v coo \<Rightarrow> int \<Rightarrow> int \<Rightarrow> int \<Rightarrow> (int \<times> 'v coo) option" where
  "sweep m p l h = do {
     l \<leftarrow> scan_up m p l h;
     h \<leftarrow> scan_down m p l h;
     if l < h then do { m \<leftarrow> swap_coo m l h; sweep m p l h } else Some (l, m)
   }"
  by pat_completeness auto
termination
proof (relation "measures [\<lambda>(m, p, l, h). nat (h - l), \<lambda>(m, p, l, h). if \<exists>d > 0. comp_x m l p = Some d then 1 else 0]")
  fix m :: "'v coo" and p l h l' h' m'
  assume l': "scan_up m p l h = Some l'" and h': "scan_down m p l' h = Some h'" and less: "l' < h'"
    and m': "swap_coo m l' h' = Some m'"
  have le: "l \<le> l'" "h' \<le> h" "l' < h" using scan_up_le[OF l'] scan_down_le[OF h'] less by auto
  obtain d e where d: "0 < d" "comp_x m l' p = Some d" and e: "e < 0" "comp_x m h' p = Some e"
    using scan_up_stop[OF l' le(3)] scan_down_stop[OF h' less] by blast
  then have "p \<noteq> l'" "p \<noteq> h'" using comp_x_self by fastforce+
  then have "comp_x m' l' p = Some e" using comp_x_swap[OF m'] e by simp
  then have "\<not> (\<exists>d > 0. comp_x m' l' p = Some d)" using e by simp
  then show "((m', p, l', h'), m, p, l, h) \<in> measures [\<lambda>(m, p, l, h). nat (h - l),
      \<lambda>(m, p, l, h). if \<exists>d > 0. comp_x m l p = Some d then 1 else 0]"
    using le less d by (cases "l' = l \<and> h' = h") auto
qed simp

declare sweep.simps [simp del]

lemma sweep_le: "sweep m p l h = Some (l', m') \<Longrightarrow> l \<le> h \<Longrightarrow> l \<le> l' \<and> l' \<le> h"
proof (induction m p l h rule: sweep.induct)
  case (1 m p l h)
  from 1(2) obtain a b where a: "scan_up m p l h = Some a" and b: "scan_down m p a h = Some b"
    and run: "(if a < b then do { m \<leftarrow> swap_coo m a b; sweep m p a b } else Some (a, m)) = Some (l', m')"
    by (subst (asm) sweep.simps) (auto simp: bind_eq_Some_conv)
  have le: "l \<le> a" "a \<le> h" "a \<le> b" "b \<le> h"
    using scan_up_le[OF a] scan_down_le[OF b] 1(3) by auto
  show ?case
  proof (cases "a < b")
    case True
    then obtain u where "swap_coo m a b = Some u" "sweep u p a b = Some (l', m')"
      using run by (auto simp: bind_eq_Some_conv)
    then show ?thesis using 1(1)[OF a b True] le by fastforce
  next
    case False
    then show ?thesis using run le by auto
  qed
qed

function q_sort_in :: "'v coo \<Rightarrow> int \<Rightarrow> int \<Rightarrow> 'v coo option" where
  "q_sort_in m lo hi =
    (if hi \<le> lo then Some m
     else do {
       let p = hi;
       p1 \<leftarrow> rdi (fst (snd m)) p;
       p2 \<leftarrow> rdi (fst m) p;
       p3 \<leftarrow> rdi (snd (snd m)) p;
       (l, is, js, vs) \<leftarrow> sweep m p lo hi;
       x \<leftarrow> rdi js l; js \<leftarrow> wri js p x; js \<leftarrow> wri js l p1;
       x \<leftarrow> rdi is l; is \<leftarrow> wri is p x; is \<leftarrow> wri is l p2;
       x \<leftarrow> rdi vs l; vs \<leftarrow> wri vs p x; vs \<leftarrow> wri vs l p3;
       if l - lo < hi - l then do {
         m \<leftarrow> q_sort_in (is, js, vs) lo (l - 1);
         q_sort_in m (l + 1) hi
       } else do {
         m \<leftarrow> q_sort_in (is, js, vs) (l + 1) hi;
         q_sort_in m lo (l - 1)
       }
     })"
  by pat_completeness auto
termination
proof (relation "measure (\<lambda>(m, lo, hi). nat (hi - lo))", goal_cases)
  case 1
  show ?case by simp
qed (auto dest!: sweep_le)

declare q_sort_in.simps [simp del]

definition sortInCOO :: "('v, 'f) sparse_matrix \<Rightarrow> ('v, 'f) sparse_matrix option" where
  "sortInCOO M = do {
     (is, js, vs) \<leftarrow> q_sort_in (I_row_indices M, J_col_indices M, V_values M) 0 (nnz M - 1);
     Some (M \<lparr> I_row_indices := is, J_col_indices := js, V_values := vs \<rparr>)
   }"

section \<open>Correctness\<close>

definition entries :: "'v coo \<Rightarrow> (position \<times> 'v) list" where
  "entries = (\<lambda>(is, js, vs). zip (map2 At is js) vs)"

definition coo_wf :: "nat \<Rightarrow> 'v coo \<Rightarrow> bool" where
  "coo_wf n = (\<lambda>(is, js, vs). length is = n \<and> length js = n \<and> length vs = n)"

definition key_at :: "'v coo \<Rightarrow> int \<Rightarrow> position" where
  "key_at m k = fst (entries m ! nat k)"

lemma length_entries [simp]: "coo_wf n m \<Longrightarrow> length (entries m) = n"
  by (auto simp: coo_wf_def entries_def)

lemma entries_nth:
  "coo_wf n (i, j, v) \<Longrightarrow> k < n \<Longrightarrow> entries (i, j, v) ! k = (At (i ! k) (j ! k), v ! k)"
  by (auto simp: coo_wf_def entries_def)

lemma comp_x_key:
  assumes "coo_wf n m" and "0 \<le> x" "x < int n" and "0 \<le> p" "p < int n"
  obtains d where "comp_x m x p = Some d" and "d \<le> 0 \<longleftrightarrow> key_at m x \<le> key_at m p"
    and "0 \<le> d \<longleftrightarrow> key_at m p \<le> key_at m x"
proof -
  obtain i j v where m: "m = (i, j, v)" by (cases m)
  have lt: "nat x < n" "nat p < n" using assms by auto
  have len: "length i = n" "length j = n" "length v = n" using assms(1) by (auto simp: m coo_wf_def)
  have c: "comp_x m x p = Some (if i ! nat x \<noteq> i ! nat p then i ! nat x - i ! nat p else j ! nat x - j ! nat p)"
    using lt len assms(2,4) by (simp add: m comp_x_def rdi_Some)
  have k: "key_at m x = At (i ! nat x) (j ! nat x)" "key_at m p = At (i ! nat p) (j ! nat p)"
    using assms(1) lt by (simp_all add: m key_at_def entries_nth)
  show thesis by (rule that[OF c]) (auto simp: k less_eq_position_def)
qed

lemma swap_coo_ok:
  assumes "coo_wf n m" and "0 \<le> l" "l < int n" and "0 \<le> h" "h < int n"
  obtains m' where "swap_coo m l h = Some m'" and "coo_wf n m'"
    and "entries m' = (entries m)[nat l := entries m ! nat h, nat h := entries m ! nat l]"
proof -
  obtain i j v where m: "m = (i, j, v)" by (cases m)
  define sw :: "'b list \<Rightarrow> 'b list" where "sw xs = xs[nat l := xs ! nat h, nat h := xs ! nat l]" for xs
  let ?sw = "\<lambda>xs. xs[nat l := xs ! nat h, nat h := xs ! nat l]"
  have lt: "nat l < n" "nat h < n" using assms by auto
  have len: "length i = n" "length j = n" "length v = n" using assms(1) by (auto simp: m coo_wf_def)
  have "swap_coo m l h = Some (?sw i, ?sw j, ?sw v)"
    using lt len assms by (simp add: m swap_coo_def swap_at_def mem_simps)
  moreover have "entries (?sw i, ?sw j, ?sw v) = ?sw (entries m)"
    using lt len by (auto simp: m entries_def list_eq_iff_nth_eq nth_list_update)
  moreover have "coo_wf n (?sw i, ?sw j, ?sw v)" using len by (simp add: coo_wf_def)
  ultimately show thesis using that by blast
qed

lemma scan_up_ok:
  assumes "coo_wf n m" and "0 \<le> p" "p < int n" and "0 \<le> l" "l \<le> h" "h < int n"
  shows "\<exists>l'. scan_up m p l h = Some l' \<and> l \<le> l' \<and> l' \<le> h \<and>
    (\<forall>k. l \<le> k \<and> k < l' \<longrightarrow> key_at m k \<le> key_at m p) \<and> (l' < h \<longrightarrow> key_at m p < key_at m l')"
  using assms
proof (induction m p l h rule: scan_up.induct)
  case (1 m p l h)
  note [simp] = scan_up.simps[of m p l h]
  show ?case
  proof (cases "l < h")
    case True
    obtain d where d: "comp_x m l p = Some d" "d \<le> 0 \<longleftrightarrow> key_at m l \<le> key_at m p"
      using comp_x_key[of n m l p] 1(2-) by auto
    show ?thesis
    proof (cases "d \<le> 0")
      case d0: True
      obtain l' where l': "scan_up m p (l + 1) h = Some l'" "l + 1 \<le> l'" "l' \<le> h"
        "\<forall>k. l + 1 \<le> k \<and> k < l' \<longrightarrow> key_at m k \<le> key_at m p" "l' < h \<longrightarrow> key_at m p < key_at m l'"
        using 1(1)[OF True d(1) d0] 1(2-) True by auto
      moreover have "\<forall>k. l \<le> k \<and> k < l' \<longrightarrow> key_at m k \<le> key_at m p"
        using l'(4) d d0 by (metis dual_order.order_iff_strict int_one_le_iff_zero_less zle_diff1_eq
            add.commute zless_add1_eq not_le add1_zle_eq)
      ultimately show ?thesis using True d d0 by auto
    qed (use True d in auto)
  qed (rule exI[of _ l], use 1(2-) in \<open>auto simp: scan_up.simps[of m p h h]\<close>)
qed

lemma scan_down_ok:
  assumes "coo_wf n m" and "0 \<le> p" "p < int n" and "0 \<le> l" "l \<le> h" "h < int n"
  shows "\<exists>h'. scan_down m p l h = Some h' \<and> l \<le> h' \<and> h' \<le> h \<and>
    (\<forall>k. h' < k \<and> k \<le> h \<longrightarrow> key_at m p \<le> key_at m k) \<and> (l < h' \<longrightarrow> key_at m h' < key_at m p)"
  using assms
proof (induction m p l h rule: scan_down.induct)
  case (1 m p l h)
  note [simp] = scan_down.simps[of m p l h]
  show ?case
  proof (cases "l < h")
    case True
    obtain d where d: "comp_x m h p = Some d" "0 \<le> d \<longleftrightarrow> key_at m p \<le> key_at m h"
      using comp_x_key[of n m h p] 1(2-) by auto
    show ?thesis
    proof (cases "0 \<le> d")
      case d0: True
      obtain h' where h': "scan_down m p l (h - 1) = Some h'" "l \<le> h'" "h' \<le> h - 1"
        "\<forall>k. h' < k \<and> k \<le> h - 1 \<longrightarrow> key_at m p \<le> key_at m k" "l < h' \<longrightarrow> key_at m h' < key_at m p"
        using 1(1)[OF True d(1) d0] 1(2-) True by auto
      moreover have "\<forall>k. h' < k \<and> k \<le> h \<longrightarrow> key_at m p \<le> key_at m k"
        using h'(4) d d0 by (metis zle_diff1_eq order_le_less)
      ultimately show ?thesis using True d d0 by auto
    qed (use True d in auto)
  qed (rule exI[of _ h], use 1(2-) in \<open>auto simp: scan_down.simps[of m p h h]\<close>)
qed

text \<open>The partition keeps the pivot at \<open>p\<close> and separates the range \<open>lo..p\<close> at the returned position.\<close>

definition below :: "'v coo \<Rightarrow> int \<Rightarrow> int \<Rightarrow> position \<Rightarrow> bool" where
  "below m a b x \<longleftrightarrow> (\<forall>k. a \<le> k \<and> k < b \<longrightarrow> key_at m k \<le> x)"

definition above :: "'v coo \<Rightarrow> int \<Rightarrow> int \<Rightarrow> position \<Rightarrow> bool" where
  "above m a b x \<longleftrightarrow> (\<forall>k. a \<le> k \<and> k \<le> b \<longrightarrow> x \<le> key_at m k)"

lemma below_extend: "below m a b x \<Longrightarrow> (\<And>k. b \<le> k \<Longrightarrow> k < c \<Longrightarrow> key_at m k \<le> x) \<Longrightarrow> below m a c x"
  unfolding below_def by (metis not_le)

lemma above_extend: "above m b c x \<Longrightarrow> (\<And>k. a \<le> k \<Longrightarrow> k < b \<Longrightarrow> x \<le> key_at m k) \<Longrightarrow> above m a c x"
  unfolding above_def by (metis not_le)

lemma key_at_swap:
  assumes "entries m' = (entries m)[nat l := entries m ! nat h, nat h := entries m ! nat l]" and "coo_wf n m"
    and "0 \<le> l" "l < int n" and "0 \<le> h" "h < int n" and "0 \<le> k"
  shows "key_at m' k = key_at m (if k = l then h else if k = h then l else k)"
  using assms by (auto simp: key_at_def nth_list_update eq_nat_nat_iff)

lemma sweep_ok:
  assumes "coo_wf n m" and "0 \<le> lo" "lo \<le> l" "l \<le> h" "h \<le> p" "p < int n"
    and "below m lo l (key_at m p)" and "above m h p (key_at m p)"
  shows "\<exists>l' m'. sweep m p l h = Some (l', m') \<and> coo_wf n m' \<and> l \<le> l' \<and> l' \<le> h \<and>
    mset (entries m') = mset (entries m) \<and>
    (\<forall>k. k < nat lo \<or> nat p \<le> k \<longrightarrow> entries m' ! k = entries m ! k) \<and>
    below m' lo l' (key_at m p) \<and> above m' l' p (key_at m p)"
  using assms
proof (induction m p l h rule: sweep.induct)
  case (1 m p l h)
  obtain a where a: "scan_up m p l h = Some a" "l \<le> a" "a \<le> h"
    "\<And>k. l \<le> k \<Longrightarrow> k < a \<Longrightarrow> key_at m k \<le> key_at m p" "a < h \<longrightarrow> key_at m p < key_at m a"
    using scan_up_ok[of n m p l h] 1(2-) by auto
  obtain b where b: "scan_down m p a h = Some b" "a \<le> b" "b \<le> h"
    "\<And>k. b < k \<Longrightarrow> k \<le> h \<Longrightarrow> key_at m p \<le> key_at m k" "a < b \<longrightarrow> key_at m b < key_at m p"
    using scan_down_ok[of n m p a h] 1(2-) a by auto
  have lo_a: "below m lo a (key_at m p)"
    by (rule below_extend[OF 1(8)]) (rule a(4))
  have b_p: "above m (b + 1) p (key_at m p)"
    using b(4) 1(9) unfolding above_def by (metis add1_zle_eq linear)
  note [simp] = sweep.simps[of m p l h]
  show ?case
  proof (cases "a < b")
    case False
    then have ab: "a = b" using b(2) by simp
    have "key_at m p \<le> key_at m a"
    proof (cases "a < h")
      case True
      then show ?thesis using a(5) by simp
    next
      case False
      then show ?thesis using 1(6,9) a(3) by (auto simp: above_def)
    qed
    then have "above m a p (key_at m p)"
      using b_p ab unfolding above_def by (metis add1_zle_eq order_le_less)
    then show ?thesis using 1(2) a b ab lo_a by auto
  next
    case True
    have bp: "b < p"
      using True b(3,5) 1(6) by (cases "b = p") auto
    obtain u where u: "swap_coo m a b = Some u" "coo_wf n u"
      and e: "entries u = (entries m)[nat a := entries m ! nat b, nat b := entries m ! nat a]"
      using swap_coo_ok[of n m a b] 1(2-7) a b True by auto
    have key: "key_at u k = key_at m (if k = a then b else if k = b then a else k)" if "0 \<le> k" for k
      using key_at_swap[OF e 1(2)] 1(3-7) a b True that by auto
    have piv: "key_at u p = key_at m p" using key[of p] bp True 1(3-5) a by auto
    have lo_a': "below u lo a (key_at u p)"
      using lo_a 1(3) True unfolding piv below_def by (auto simp: key)
    have b_p': "above u b p (key_at u p)"
      unfolding piv above_def
    proof (intro allI impI)
      fix k assume k: "b \<le> k \<and> k \<le> p"
      show "key_at m p \<le> key_at u k"
        using k b_p a(2,5) b(3) True 1(3,4) key[of k] by (cases "k = b") (auto simp: above_def)
    qed
    obtain l' m' where r: "sweep u p a b = Some (l', m')" "coo_wf n m'" "a \<le> l'" "l' \<le> b"
      "mset (entries m') = mset (entries u)"
      "\<forall>k. k < nat lo \<or> nat p \<le> k \<longrightarrow> entries m' ! k = entries u ! k"
      "below m' lo l' (key_at u p)" "above m' l' p (key_at u p)"
      using 1(1)[OF a(1) b(1) True u(1,2) 1(3) _ _ _ 1(7) lo_a' b_p'] True bp 1(4) a(2) by auto
    have "mset (entries u) = mset (entries m)"
      unfolding e using 1(2-7) a b by (intro mset_swap) auto
    moreover have "entries u ! k = entries m ! k" if "k < nat lo \<or> nat p \<le> k" for k
      using that bp True 1(3,4) a by (auto simp: e nth_list_update)
    ultimately show ?thesis using a b True u r piv by auto
  qed
qed

definition sorted_on :: "'v coo \<Rightarrow> int \<Rightarrow> int \<Rightarrow> bool" where
  "sorted_on m a b \<longleftrightarrow> (\<forall>j k. a \<le> j \<and> j \<le> k \<and> k \<le> b \<longrightarrow> key_at m j \<le> key_at m k)"

text \<open>\<open>m'\<close> is \<open>m\<close> with the range \<open>a..b\<close> rearranged.\<close>

definition moved :: "nat \<Rightarrow> 'v coo \<Rightarrow> int \<Rightarrow> int \<Rightarrow> 'v coo \<Rightarrow> bool" where
  "moved n m a b m' \<longleftrightarrow> coo_wf n m \<and> coo_wf n m' \<and> mset (entries m') = mset (entries m) \<and>
     (\<forall>k. int k < a \<or> b < int k \<longrightarrow> entries m' ! k = entries m ! k)"

lemma moved_refl: "coo_wf n m \<Longrightarrow> moved n m a b m"
  by (simp add: moved_def)

lemma moved_trans:
  assumes "moved n m a b m1" and "moved n m1 c d m2" and "lo \<le> a" "b \<le> hi" "lo \<le> c" "d \<le> hi"
  shows "moved n m lo hi m2"
  using assms unfolding moved_def by (metis order_le_less_trans order_less_le_trans)

lemma moved_key: "moved n m a b m' \<Longrightarrow> 0 \<le> k \<Longrightarrow> k < a \<or> b < k \<Longrightarrow> key_at m' k = key_at m k"
  unfolding moved_def key_at_def by (metis int_nat_eq)

lemma moved_range:
  assumes mv: "moved n m a b m'" and "0 \<le> a" "b < int n"
    and P: "\<And>k. a \<le> k \<Longrightarrow> k \<le> b \<Longrightarrow> P (key_at m k)" and k: "a \<le> k" "k \<le> b"
  shows "P (key_at m' k)"
proof -
  let ?r = "\<lambda>m. vspan (nat a) (nat (b + 1)) (entries m)"
  have len: "length (entries m) = n" "length (entries m') = n" using mv by (auto simp: moved_def)
  have "mset (?r m') = mset (?r m)"
    using mv by (intro mset_vspan_eq) (auto simp: moved_def)
  then have "set (?r m') = set (?r m)" by (metis set_mset_mset)
  moreover have "entries m' ! nat k \<in> set (?r m')"
    using k len assms(2,3) nth_mem[of "nat k - nat a" "?r m'"]
      nth_vspan[of "nat k - nat a" "nat (b + 1)" "nat a" "entries m'"] by (simp add: nat_diff_distrib')
  ultimately obtain i where "i < length (?r m)" "entries m' ! nat k = ?r m ! i"
    by (metis in_set_conv_nth)
  then have "key_at m' k = key_at m (a + int i)" "a + int i \<le> b"
    using k len assms(2,3) by (auto simp: key_at_def vspan_simps nat_add_distrib nat_diff_distrib')
  then show ?thesis using P[of "a + int i"] by simp
qed

lemma sorted_on_join:
  assumes "sorted_on m lo (l - 1)" and "sorted_on m (l + 1) hi"
    and "below m lo l (key_at m l)" and "above m (l + 1) hi (key_at m l)"
  shows "sorted_on m lo hi"
  unfolding sorted_on_def
proof (intro allI impI)
  fix j k assume jk: "lo \<le> j \<and> j \<le> k \<and> k \<le> hi"
  consider "k < l" | "l < j" | "j < l" "l < k" | "j = l" | "k = l" by linarith
  then show "key_at m j \<le> key_at m k"
  proof cases
    case 3
    then have "key_at m j \<le> key_at m l" "key_at m l \<le> key_at m k"
      using assms(3,4) jk by (auto simp: below_def above_def)
    then show ?thesis by simp
  next
    case 4
    then show ?thesis using assms(4) jk by (cases "k = l") (auto simp: above_def)
  next
    case 5
    then show ?thesis using assms(3) jk by (cases "j = l") (auto simp: below_def)
  qed (use assms(1,2) jk in \<open>auto simp: sorted_on_def\<close>)
qed

lemma sorted_on_moved:
  assumes "sorted_on m c d" and "moved n m a b m'" and "0 \<le> c" and "d < a \<or> b < c"
  shows "sorted_on m' c d"
  using assms moved_key[OF assms(2)] unfolding sorted_on_def by fastforce

text \<open>Sorting both sides of a partition, in either order.\<close>

lemma sides_sorted:
  assumes part: "below m lo l (key_at m l)" "above m (l + 1) hi (key_at m l)"
    and "0 \<le> lo" "lo \<le> l" "l \<le> hi" "hi < int n"
    and first: "moved n m a b m1" "sorted_on m1 a b" and second: "moved n m1 c d m2" "sorted_on m2 c d"
    and sides: "(a, b, c, d) = (lo, l - 1, l + 1, hi) \<or> (a, b, c, d) = (l + 1, hi, lo, l - 1)"
  shows "moved n m lo hi m2 \<and> sorted_on m2 lo hi"
proof
  show mv: "moved n m lo hi m2"
    using sides assms(4,5) by (intro moved_trans[OF first(1) second(1)]) auto
  have l: "key_at m2 l = key_at m l"
    using moved_key[OF first(1), of l] moved_key[OF second(1), of l] sides assms(3,4) by auto
  have keep: "key_at m1 k = key_at m k" if "0 \<le> k" "k < a \<or> b < k" for k
    by (rule moved_key[OF first(1) that])
  have keep2: "key_at m2 k = key_at m1 k" if "0 \<le> k" "k < c \<or> d < k" for k
    by (rule moved_key[OF second(1) that])
  have P: "P (key_at m2 k)" if "x = a \<and> y = b \<or> x = c \<and> y = d" "x \<le> k" "k \<le> y"
    "\<And>k. x \<le> k \<Longrightarrow> k \<le> y \<Longrightarrow> P (key_at m k)" for P x y k
  proof -
    consider "x = a" "y = b" | "x = c" "y = d" using \<open>x = a \<and> y = b \<or> x = c \<and> y = d\<close> by blast
    then show ?thesis
    proof cases
      case 1
      have r: "0 \<le> a" "b < int n" "a \<le> k" "k \<le> b" using 1 that(2,3) sides assms(3-6) by auto
      have "P (key_at m1 k)"
        by (rule moved_range[where P = P, OF first(1) r(1,2) that(4)[unfolded 1] r(3,4)])
      moreover have "0 \<le> k" "k < c \<or> d < k" using 1 that(2,3) sides assms(3,4) by auto
      ultimately show ?thesis using keep2 by simp
    next
      case 2
      have m1: "\<And>k. c \<le> k \<Longrightarrow> k \<le> d \<Longrightarrow> P (key_at m1 k)"
      proof -
        fix k assume k: "c \<le> k" "k \<le> d"
        then have "0 \<le> k" "k < a \<or> b < k" using sides assms(3,4) by auto
        then show "P (key_at m1 k)" using keep that(4) 2 k by simp
      qed
      have r: "0 \<le> c" "d < int n" "c \<le> k" "k \<le> d" using 2 that(2,3) sides assms(3-6) by auto
      show ?thesis by (rule moved_range[where P = P, OF second(1) r(1,2) m1 r(3,4)])
    qed
  qed
  have lt: "key_at m2 k \<le> key_at m2 l" if "lo \<le> k" "k < l" for k
    unfolding l
  proof (rule P[where P = "\<lambda>x. x \<le> key_at m l" and x = lo and y = "l - 1"])
    show "lo = a \<and> l - 1 = b \<or> lo = c \<and> l - 1 = d" using sides by auto
  qed (use that part(1) in \<open>simp_all add: below_def\<close>)
  have gt: "key_at m2 l \<le> key_at m2 k" if "l + 1 \<le> k" "k \<le> hi" for k
    unfolding l
  proof (rule P[where P = "\<lambda>x. key_at m l \<le> x" and x = "l + 1" and y = hi])
    show "l + 1 = a \<and> hi = b \<or> l + 1 = c \<and> hi = d" using sides by auto
  qed (use that part(2) in \<open>simp_all add: above_def\<close>)
  have "sorted_on m2 a b"
    using sides assms(3,4) by (intro sorted_on_moved[OF first(2) second(1)]) auto
  then have "sorted_on m2 lo (l - 1)" "sorted_on m2 (l + 1) hi" using second(2) sides by auto
  then show "sorted_on m2 lo hi"
    by (rule sorted_on_join) (simp_all add: below_def above_def lt gt)
qed

lemma q_sort_in_ok:
  assumes "coo_wf n m" and "0 \<le> lo" and "hi < int n"
  shows "\<exists>m'. q_sort_in m lo hi = Some m' \<and> moved n m lo hi m' \<and> sorted_on m' lo hi"
  using assms
proof (induction "nat (hi - lo)" arbitrary: m lo hi rule: less_induct)
  case (less lo hi m)
  note unfold = q_sort_in.simps[of m lo hi]
  show ?case
  proof (cases "hi \<le> lo")
    case True
    have "key_at m j \<le> key_at m k" if "lo \<le> j \<and> j \<le> k \<and> k \<le> hi" for j k
    proof -
      have "j = k" using that True by linarith
      then show ?thesis by simp
    qed
    then have "sorted_on m lo hi" by (simp add: sorted_on_def)
    then show ?thesis using True less(2) by (auto simp: unfold intro: moved_refl)
  next
    case False
    obtain i j v where m: "m = (i, j, v)" by (cases m)
    have len: "length i = n" "length j = n" "length v = n" using less(2) by (auto simp: m coo_wf_def)
    have b0: "below m lo lo (key_at m hi)" "above m hi hi (key_at m hi)"
      by (auto simp: below_def above_def)
    obtain l m1 where sw: "sweep m hi lo hi = Some (l, m1)" and wf1: "coo_wf n m1" and l: "lo \<le> l" "l \<le> hi"
      and ms: "mset (entries m1) = mset (entries m)"
      and same: "\<forall>k. k < nat lo \<or> nat hi \<le> k \<longrightarrow> entries m1 ! k = entries m ! k"
      and part: "below m1 lo l (key_at m hi)" "above m1 l hi (key_at m hi)"
      using sweep_ok[OF less(2,3) order_refl _ order_refl less(4) b0] False by auto
    obtain i1 j1 v1 where m1: "m1 = (i1, j1, v1)" by (cases m1)
    have len1: "length i1 = n" "length j1 = n" "length v1 = n" using wf1 by (auto simp: m1 coo_wf_def)
    have lt: "0 \<le> l" "nat l < n" "0 \<le> hi" "nat hi < n" using l less(3,4) by auto
    have "entries m1 ! nat hi = entries m ! nat hi" using same by simp
    then have piv: "i1 ! nat hi = i ! nat hi" "j1 ! nat hi = j ! nat hi" "v1 ! nat hi = v ! nat hi"
      using entries_nth[of n i j v "nat hi"] entries_nth[of n i1 j1 v1 "nat hi"] less(2) wf1 lt(4)
      by (auto simp: m m1)
    let ?sw = "\<lambda>xs. xs[nat hi := xs ! nat l, nat l := xs ! nat hi]"
    define m2 where "m2 = (?sw i1, ?sw j1, ?sw v1)"
    have e2: "entries m2 = (entries m1)[nat hi := entries m1 ! nat l, nat l := entries m1 ! nat hi]"
      using lt len1 by (auto simp: m2_def m1 entries_def list_eq_iff_nth_eq nth_list_update)
    have wf2: "coo_wf n m2" using len1 by (simp add: m2_def coo_wf_def)
    have mv2: "moved n m lo hi m2"
      unfolding moved_def
    proof (intro conjI allI impI)
      show "mset (entries m2) = mset (entries m)"
        unfolding e2 ms[symmetric] using lt wf1 by (intro mset_swap) auto
      fix k assume "int k < lo \<or> hi < int k"
      then show "entries m2 ! k = entries m ! k"
        using same l lt by (auto simp: e2 nth_list_update)
    qed (use less(2) wf2 in auto)
    have key2: "key_at m2 k = key_at m1 (if k = hi then l else if k = l then hi else k)" if "0 \<le> k" for k
      using key_at_swap[OF e2 wf1 lt(3) _ lt(1)] lt that by auto
    have pl: "key_at m2 l = key_at m hi"
      using key2[of l] same lt by (simp add: key_at_def)
    have part2: "below m2 lo l (key_at m2 l)" "above m2 (l + 1) hi (key_at m2 l)"
      using part l less(3) unfolding pl by (auto simp: below_def above_def key2)
    have run: "q_sort_in m lo hi =
      (if l - lo < hi - l then q_sort_in m2 lo (l - 1) \<bind> (\<lambda>m. q_sort_in m (l + 1) hi)
       else q_sort_in m2 (l + 1) hi \<bind> (\<lambda>m. q_sort_in m lo (l - 1)))"
      using False sw[unfolded m m1] lt len len1 piv
      by (subst unfold) (simp add: m m2_def rdi_Some wri_Some Let_def)
    have small: "nat (l - 1 - lo) < nat (hi - lo)" "nat (hi - (l + 1)) < nat (hi - lo)"
      using False l by auto
    show ?thesis
    proof (cases "l - lo < hi - l")
      case True
      obtain m3 where m3: "q_sort_in m2 lo (l - 1) = Some m3" "moved n m2 lo (l - 1) m3" "sorted_on m3 lo (l - 1)"
        using less(1)[OF small(1) wf2] less(3,4) l by auto
      obtain m4 where m4: "q_sort_in m3 (l + 1) hi = Some m4" "moved n m3 (l + 1) hi m4" "sorted_on m4 (l + 1) hi"
        using less(1)[OF small(2), of m3] m3(2) less(3,4) l by (auto simp: moved_def)
      have "moved n m2 lo hi m4 \<and> sorted_on m4 lo hi"
        by (rule sides_sorted[OF part2 less(3) l less(4) m3(2,3) m4(2,3)]) simp
      then show ?thesis
        using run True m3 m4 moved_trans[OF mv2, of lo hi m4 lo hi] by auto
    next
      case right: False
      obtain m3 where m3: "q_sort_in m2 (l + 1) hi = Some m3" "moved n m2 (l + 1) hi m3" "sorted_on m3 (l + 1) hi"
        using less(1)[OF small(2) wf2] less(3,4) l by auto
      obtain m4 where m4: "q_sort_in m3 lo (l - 1) = Some m4" "moved n m3 lo (l - 1) m4" "sorted_on m4 lo (l - 1)"
        using less(1)[OF small(1), of m3] m3(2) less(3,4) l by (auto simp: moved_def)
      have "moved n m2 lo hi m4 \<and> sorted_on m4 lo hi"
        by (rule sides_sorted[OF part2 less(3) l less(4) m3(2,3) m4(2,3)]) simp
      then show ?thesis
        using run right m3 m4 moved_trans[OF mv2, of lo hi m4 lo hi] by auto
    qed
  qed
qed

text \<open>The stored triples, by position.\<close>

definition triples :: "('v, 'f) sparse_matrix \<Rightarrow> (position \<times> 'v) list" where
  "triples M = entries (I_row_indices M, J_col_indices M, V_values M)"

text \<open>
  C15: \<^verbatim>\<open>sortInCOO\<close> always returns, inside its vectors, and leaves the same triples ordered by
  row and then column; nothing but the coordinate arrays changes.
\<close>

theorem sortInCOO_correct:
  assumes "nnz M = int n" and "length (I_row_indices M) = n" and "length (J_col_indices M) = n"
    and "length (V_values M) = n"
  shows "\<exists>N. sortInCOO M = Some N \<and> mset (triples N) = mset (triples M) \<and> sorted (map fst (triples N)) \<and>
    N = M \<lparr> I_row_indices := I_row_indices N, J_col_indices := J_col_indices N, V_values := V_values N \<rparr>"
proof -
  have wf: "coo_wf n (I_row_indices M, J_col_indices M, V_values M)"
    using assms by (simp add: coo_wf_def)
  obtain i j v where run: "q_sort_in (I_row_indices M, J_col_indices M, V_values M) 0 (nnz M - 1) = Some (i, j, v)"
    and mv: "moved n (I_row_indices M, J_col_indices M, V_values M) 0 (nnz M - 1) (i, j, v)"
    and srt: "sorted_on (i, j, v) 0 (nnz M - 1)"
    using q_sort_in_ok[OF wf, of 0 "nnz M - 1"] assms(1) by (metis diff_ge_0_iff_ge zle_diff1_eq order_refl prod_cases3)
  have len: "length (entries (i, j, v)) = n" using mv by (simp add: moved_def)
  have "sorted (map fst (entries (i, j, v)))"
    unfolding sorted_iff_nth_mono
  proof (intro allI impI)
    fix a b assume "a \<le> b" "b < length (map fst (entries (i, j, v)))"
    then show "map fst (entries (i, j, v)) ! a \<le> map fst (entries (i, j, v)) ! b"
      using srt[unfolded sorted_on_def, rule_format, of "int a" "int b"] len assms(1) by (simp add: key_at_def)
  qed
  then show ?thesis
    using run mv by (simp add: sortInCOO_def triples_def moved_def)
qed

definition example_coo :: "(int, int) sparse_matrix" where
  "example_coo = sm_new \<lparr> rows := 3, cols := 3, nnz := 4, I_row_indices := [3, 1, 2, 1],
     J_col_indices := [1, 3, 2, 1], V_values := [30, 13, 22, 11] \<rparr>"

lemma sortInCOO_correct_witness:
  "\<exists>N. sortInCOO example_coo = Some N \<and> mset (triples N) = mset (triples example_coo) \<and>
    sorted (map fst (triples N)) \<and>
    N = example_coo \<lparr> I_row_indices := I_row_indices N, J_col_indices := J_col_indices N, V_values := V_values N \<rparr>"
  by (rule sortInCOO_correct[of _ 4]) (simp_all add: example_coo_def)

end
