(* ===== verification/SparseEdit.thy ===== *)
theory SparseEdit
  imports SparseMatrix
begin

text \<open>
  Operations of \<^verbatim>\<open>SparseMatrix.cpp\<close> that build one CSR matrix from others: \<^verbatim>\<open>RemoveLower\<close>,
  \<^verbatim>\<open>MatAppend\<close>, the two row selections and the two sub-block functions.  Each is
  shown to stay inside its arrays, to keep the CSR form, and to do on the rows what it should.
\<close>

section \<open>RemoveLower\<close>

text \<open>The bodies of the loops over rows and over the entries of a row, on the output arrays and \<^verbatim>\<open>l_nnz\<close>.\<close>

definition remove_lower_col ::
  "('v, 'f) sparse_matrix \<Rightarrow> nat \<Rightarrow> int \<Rightarrow> int \<Rightarrow> int list \<times> 'v list \<times> int \<Rightarrow> (int list \<times> 'v list \<times> int) option" where
  "remove_lower_col M row start col = (\<lambda>(tj, tv, l_nnz). do {
     let i = start - 1 + col;
     j \<leftarrow> rdi (CSR_J_col_indices M) i;
     if int row < j then do {
       v \<leftarrow> rdi (CSR_V_values M) i;
       Some (tj @ [j], tv @ [v], l_nnz + 1)
     } else Some (tj, tv, l_nnz)
   })"

definition remove_lower_row ::
  "('v, 'f) sparse_matrix \<Rightarrow> nat \<Rightarrow> int list \<times> int list \<times> 'v list \<times> int \<Rightarrow>
     (int list \<times> int list \<times> 'v list \<times> int) option" where
  "remove_lower_row M row = (\<lambda>(ti, tj, tv, l_nnz). do {
     let ti = ti @ [l_nnz + 1];
     a \<leftarrow> rd (CSR_I_row_indices M) row;
     b \<leftarrow> rd (CSR_I_row_indices M) (row + 1);
     let cols_in_row = b - a;
     (tj, tv, l_nnz) \<leftarrow> for_each [0..cols_in_row - 1] (remove_lower_col M row a) (tj, tv, l_nnz);
     Some (ti, tj, tv, l_nnz)
   })"

definition RemoveLower :: "('v, 'f) sparse_matrix \<Rightarrow> ('v, 'f) sparse_matrix option" where
  "RemoveLower M =
    (if \<not> (rows M \<noteq> 0 \<and> cols M \<noteq> 0) then Some M
     else if CSR_I_row_indices M = [] then None
     else do {
       (ti, tj, tv, l_nnz) \<leftarrow>
         for_each [0..<length (CSR_I_row_indices M) - 1] (remove_lower_row M) ([], [], [], 0);
       let ti = ti @ [l_nnz + 1];
       Some (M \<lparr> nnz := l_nnz, mat_type := CHR ''S'',
         mtype := (case mtype M of REAL_UNSYMMETRIC \<Rightarrow> REAL_SYMMETRIC_INDEFINITE | m \<Rightarrow> m),
         CSR_I_row_indices := ti, CSR_J_col_indices := tj, CSR_V_values := tv \<rparr>)
     })"

text \<open>On rows: row \<open>r\<close> keeps the columns from the diagonal on.\<close>

definition upper_rows :: "'v sparse_rows \<Rightarrow> 'v sparse_rows" where
  "upper_rows rws = map (\<lambda>(r, row). filter (\<lambda>e. int r < fst e) row) (enumerate 0 rws)"

lemma length_upper_rows [simp]: "length (upper_rows rws) = length rws"
  by (simp add: upper_rows_def)

lemma enumerate_snoc: "enumerate n (xs @ [x]) = enumerate n xs @ [(n + length xs, x)]"
  by (simp add: enumerate_append_eq)

lemma remove_lower_row_rep:
  assumes rep: "csr_rep M rws" and r: "r < length rws"
  shows "remove_lower_row M r (ti, tj, tv, l) =
    (let kept = filter (\<lambda>e. int r < fst e) (rws ! r) in
      Some (ti @ [l + 1], tj @ map fst kept, tv @ map snd kept, l + int (length kept)))"
proof -
  have "for_each [0..int (length (rws ! r)) - 1] (remove_lower_col M r (csr_ptrs rws ! r)) s =
      for_each (rws ! r) (\<lambda>e (js, vs, n).
        if int r < fst e then Some (js @ [fst e], vs @ [snd e], n + 1) else Some (js, vs, n)) s" for s
    by (rule for_each_positions)
      (auto simp: remove_lower_col_def csr_rep_entry[OF rep r])
  then show ?thesis
    using for_each_push[where P = "\<lambda>j. int r < j" and g = "\<lambda>j. j" and row = "rws ! r"]
      csr_rep_ptrs[OF rep] csr_ptrs_Suc[OF r] r
    by (simp add: remove_lower_row_def Let_def comp_def)
qed

lemma RemoveLower_rep:
  assumes rep: "csr_rep M rws" and "rows M \<noteq> 0" and "cols M \<noteq> 0"
  shows "\<exists>N. RemoveLower M = Some N \<and> csr_rep N (upper_rows rws) \<and> mat_type N = CHR ''S'' \<and>
    rows N = rows M \<and> cols N = cols M"
proof -
  have I: "CSR_I_row_indices M = csr_ptrs rws" using rep by (simp add: csr_rep_def)
  define inv where "inv = (\<lambda>r (ti, tj, tv, l). let out = upper_rows (take r rws) in
      ti = csr_starts out \<and> tj = map fst (concat out) \<and> tv = map snd (concat out) \<and>
      l = int (length (concat out)))"
  have "\<exists>s. for_each [0..<length rws] (remove_lower_row M) ([], [], [], 0) = Some s \<and> inv (length rws) s"
  proof (rule for_each_upt[where I = inv])
    show "inv 0 ([], [], [], 0)" by (simp add: inv_def upper_rows_def)
    fix r s assume r: "r < length rws" and "inv r s"
    then show "\<exists>u. remove_lower_row M r s = Some u \<and> inv (Suc r) u"
      by (cases s) (simp add: inv_def remove_lower_row_rep[OF rep r] take_Suc_conv_app_nth
          upper_rows_def enumerate_snoc csr_ptrs_def Let_def)
  qed simp
  then obtain ti tj tv l where
    run: "for_each [0..<length rws] (remove_lower_row M) ([], [], [], 0) = Some (ti, tj, tv, l)"
    and res: "inv (length rws) (ti, tj, tv, l)" by (metis prod_cases4)
  have "list_all (\<lambda>e. 1 \<le> fst e \<and> fst e \<le> cols M) (concat (upper_rows rws))"
    using rep by (fastforce simp: csr_rep_def list_all_iff upper_rows_def in_set_enumerate_eq)
  with assms(2,3) rep run res I show ?thesis
    by (simp add: RemoveLower_def inv_def csr_rep_def csr_ptrs_def Let_def)
qed

section \<open>MatAppend\<close>

definition MatAppend :: "('v, 'f) sparse_matrix \<Rightarrow> ('v, 'f) sparse_matrix \<Rightarrow> ('v, 'f) sparse_matrix option" where
  "MatAppend this A =
    (if nnz A \<noteq> 0 then
       if nnz this = 0 \<and> rows this = 0 \<and> cols this = 0 then
         Some (this \<lparr> rows := rows A, cols := cols A, nnz := nnz A, mat_type := mat_type A,
           mtype := REAL_UNSYMMETRIC, CSR_I_row_indices := CSR_I_row_indices A,
           CSR_J_col_indices := CSR_J_col_indices A, CSR_V_values := CSR_V_values A \<rparr>)
       else do {
         last_row \<leftarrow> rdi (CSR_I_row_indices this) (int (length (CSR_I_row_indices this)) - 1);
         Some (this \<lparr> rows := rows this + rows A, nnz := nnz this + nnz A, mat_type := CHR ''G'',
           mtype := REAL_UNSYMMETRIC,
           CSR_I_row_indices := CSR_I_row_indices this @
             map (\<lambda>i. last_row + CSR_I_row_indices A ! i - 1) [1..<length (CSR_I_row_indices A)],
           CSR_J_col_indices := CSR_J_col_indices this @ CSR_J_col_indices A,
           CSR_V_values := CSR_V_values this @ CSR_V_values A \<rparr>)
       }
     else Some this)"

lemma map_nth_tl: "map (\<lambda>i. f (xs ! i)) [1..<length xs] = map f (tl xs)"
  by (rule nth_equalityI) (auto simp: nth_tl)

lemma MatAppend_rep:
  assumes "csr_rep M rws" and "csr_rep A new" and "cols A \<le> cols M" and "rows M \<noteq> 0" and "nnz A \<noteq> 0"
  shows "\<exists>N. MatAppend M A = Some N \<and> csr_rep N (rws @ new) \<and> cols N = cols M"
proof -
  have last: "rdi (csr_ptrs rws) (int (length rws)) = Some (1 + int (length (concat rws)))"
    by (simp add: rdi_of_nat rd_Some csr_ptrs_def nth_append)
  have "list_all (\<lambda>e. 1 \<le> fst e \<and> fst e \<le> cols M) (concat new)"
    using assms(2,3) by (auto simp: csr_rep_def list_all_iff simp del: set_concat)
  with assms show ?thesis
    using last map_nth_tl[of "\<lambda>p. 1 + int (length (concat rws)) + p - 1" "csr_ptrs new"]
    by (auto simp: MatAppend_def csr_rep_def csr_ptrs_append)
qed

section \<open>Selecting rows\<close>

text \<open>\<^verbatim>\<open>std::fill(begin() + a, begin() + b, v)\<close>.\<close>

definition fill_i :: "'a list \<Rightarrow> int \<Rightarrow> int \<Rightarrow> 'a \<Rightarrow> 'a list option" where
  "fill_i xs a b v = (if 0 \<le> a \<and> a \<le> b \<and> b \<le> int (length xs)
     then Some (take (nat a) xs @ replicate (nat b - nat a) v @ drop (nat b) xs) else None)"

definition create_row ::
  "('v, 'f) sparse_matrix \<Rightarrow> int \<Rightarrow> int list \<times> int list \<times> 'v list \<times> int \<times> int \<Rightarrow>
     (int list \<times> int list \<times> 'v list \<times> int \<times> int) option" where
  "create_row A_in row_to_add = (\<lambda>(is, js, vs, next_index, row_fill). do {
     let old_index = next_index;
     let next_index = row_to_add;
     is \<leftarrow> fill_i is old_index next_index row_fill;
     A_in_start_index \<leftarrow> (if row_to_add > 0
        then do { p \<leftarrow> rdi (CSR_I_row_indices A_in) (row_to_add - 1); Some (p - 1) } else Some 0);
     q \<leftarrow> rdi (CSR_I_row_indices A_in) (row_to_add + 1 - 1);
     let A_in_end_index = q - 1;
     newj \<leftarrow> range_i (CSR_J_col_indices A_in) A_in_start_index A_in_end_index;
     newv \<leftarrow> range_i (CSR_V_values A_in) A_in_start_index A_in_end_index;
     let js = js @ newj;
     Some (is, js, vs @ newv, next_index, 1 + int (length js))
   })"

definition CreateMatFromRowsFromMatrix ::
  "('v, 'f) sparse_matrix \<Rightarrow> ('v, 'f) sparse_matrix \<Rightarrow> int list \<Rightarrow> ('v, 'f) sparse_matrix option" where
  "CreateMatFromRowsFromMatrix this A_in rows_to_add = do {
     is \<leftarrow> vresize (rows A_in + 1) 0 (CSR_I_row_indices this);
     (is, js, vs, next_index, row_fill) \<leftarrow> for_each rows_to_add (create_row A_in)
        (is, CSR_J_col_indices this, CSR_V_values this, 0, 1);
     is \<leftarrow> fill_i is next_index (rows A_in + 1) row_fill;
     Some (this \<lparr> rows := rows A_in, cols := cols A_in, mat_type := mat_type A_in, mtype := REAL_UNSYMMETRIC,
       CSR_I_row_indices := is, CSR_J_col_indices := js, CSR_V_values := vs, nnz := int (length vs) \<rparr>)
   }"

text \<open>On rows: the listed rows (one-based) are kept, the others become empty.\<close>

definition select_rows :: "int list \<Rightarrow> 'v sparse_rows \<Rightarrow> nat \<Rightarrow> 'v sparse_rows" where
  "select_rows sel rws n = map (\<lambda>r. if int r + 1 \<in> set sel then rws ! r else []) [0..<n]"

lemma length_select_rows [simp]: "length (select_rows sel rws n) = n"
  by (simp add: select_rows_def)

lemma csr_ptrs_empty_rows:
  "csr_ptrs (rws @ replicate k []) = csr_starts rws @ replicate (Suc k) (1 + int (length (concat rws)))"
proof (induction k)
  case (Suc k)
  have "rws @ replicate (Suc k) [] = (rws @ replicate k []) @ [[]]"
    by (simp add: replicate_append_same)
  then show ?case using Suc by (simp only: csr_ptrs_snoc) (simp add: replicate_append_same[symmetric])
qed (simp add: csr_ptrs_def)

lemma csr_starts_empty_rows:
  "csr_starts (rws @ replicate k [] @ [row]) = csr_starts rws @ replicate (Suc k) (1 + int (length (concat rws)))"
  using csr_ptrs_empty_rows[of rws k] csr_starts_snoc[of "rws @ replicate k []" row] by simp

lemma select_rows_extend:
  assumes "\<forall>r \<in> set sel. r \<le> int n" and "n \<le> m"
  shows "select_rows sel rws m = select_rows sel rws n @ replicate (m - n) []"
proof (rule nth_equalityI)
  fix i assume "i < length (select_rows sel rws m)"
  then show "select_rows sel rws m ! i = (select_rows sel rws n @ replicate (m - n) []) ! i"
    using assms by (cases "i < n") (auto simp: select_rows_def nth_append)
qed (use assms in simp)

lemma select_rows_snoc:
  assumes "\<forall>r \<in> set sel. r \<le> int n" and "n < m"
  shows "select_rows (sel @ [int m]) rws m = select_rows sel rws n @ replicate (m - 1 - n) [] @ [rws ! (m - 1)]"
proof -
  obtain k where m: "m = Suc k" using assms(2) by (cases m) auto
  have "select_rows (sel @ [int m]) rws m = select_rows (sel @ [int m]) rws k @ [rws ! k]"
    by (simp add: select_rows_def m)
  also have "select_rows (sel @ [int m]) rws k = select_rows sel rws k"
    by (auto simp: select_rows_def m)
  also have "\<dots> = select_rows sel rws n @ replicate (k - n) []"
    using assms m by (intro select_rows_extend) auto
  finally show ?thesis by (simp add: m)
qed

definition create_inv :: "'v sparse_rows \<Rightarrow> int list \<Rightarrow> int list \<times> int list \<times> 'v list \<times> int \<times> int \<Rightarrow> bool" where
  "create_inv rws sel = (\<lambda>(is, js, vs, next_index, row_fill).
     let n = nat next_index; out = select_rows sel rws n in
     0 \<le> next_index \<and> n \<le> length rws \<and> (\<forall>r \<in> set sel. r \<le> next_index) \<and>
     next_index = (if sel = [] then 0 else last sel) \<and>
     length is = Suc (length rws) \<and> take n is = csr_starts out \<and>
     js = map fst (concat out) \<and> vs = map snd (concat out) \<and> row_fill = 1 + int (length (concat out)))"

lemma create_row_rep:
  assumes rep: "csr_rep A rws" and inv: "create_inv rws sel s"
    and r: "1 \<le> r" "r \<le> int (length rws)" "sel = [] \<or> last sel < r"
  shows "\<exists>u. create_row A r s = Some u \<and> create_inv rws (sel @ [r]) u"
proof -
  obtain ix js vs next_index row_fill where s: "s = (ix, js, vs, next_index, row_fill)" by (cases s)
  define n where "n = nat next_index"
  define m where "m = nat r"
  define out where "out = select_rows sel rws n"
  have n: "next_index = int n" "n < m" "m \<le> length rws" "r = int m" "0 < m"
    using inv r by (auto simp: s create_inv_def Let_def n_def m_def split: if_splits)
  have sel: "\<forall>r \<in> set sel. r \<le> int n" and tk: "take n ix = csr_starts out"
    and js: "js = map fst (concat out)" and vs: "vs = map snd (concat out)"
    and fl: "row_fill = 1 + int (length (concat out))" and len: "length ix = Suc (length rws)"
    using inv n by (auto simp: s create_inv_def Let_def out_def)
  have fill: "fill_i ix next_index r row_fill =
      Some (csr_starts out @ replicate (m - n) row_fill @ drop m ix)"
    using n len tk by (simp add: fill_i_def)
  have new: "select_rows (sel @ [r]) rws m = out @ replicate (m - 1 - n) [] @ [rws ! (m - 1)]"
    unfolding out_def n(4) by (rule select_rows_snoc[OF sel n(2)])
  have st: "csr_starts (select_rows (sel @ [r]) rws m) = csr_starts out @ replicate (m - n) row_fill"
    unfolding new csr_starts_empty_rows fl using n(2) by (simp add: Suc_diff_Suc)
  obtain k where k: "m = Suc k" "k < length rws" using n(3,5) by (cases m) auto
  have "rdi (CSR_I_row_indices A) (r - 1) = Some (csr_ptrs rws ! k)"
    "rdi (CSR_I_row_indices A) r = Some (csr_ptrs rws ! Suc k)"
    using csr_rep_ptrs[OF rep, of k] csr_rep_ptrs[OF rep, of m] k n(4)
    by (simp_all add: rdi_def nat_add_distrib)
  then have "create_row A r s = Some (csr_starts out @ replicate (m - n) row_fill @ drop m ix,
      js @ map fst (rws ! k), vs @ map snd (rws ! k), r, 1 + int (length js + length (rws ! k)))"
    using r(1) fill csr_rep_range[OF rep k(2)] by (simp add: create_row_def s)
  moreover have "take m (csr_starts out @ replicate (m - n) row_fill @ drop m ix) =
      csr_starts (select_rows (sel @ [r]) rws m)"
    using st n(2) tk len length_select_rows[of sel rws n] by (simp add: out_def)
  moreover have "concat (select_rows (sel @ [r]) rws m) = concat out @ rws ! k"
    unfolding new using k by simp
  ultimately show ?thesis
    using n sel len js vs length_select_rows[of sel rws n]
    by (auto simp: create_inv_def Let_def out_def dest: less_imp_le)
qed

lemma CreateMatFromRows_rep:
  assumes rep: "csr_rep A rws" and "CSR_J_col_indices M = []" and "CSR_V_values M = []"
    and "sorted_wrt (<) sel" and "\<forall>r \<in> set sel. 1 \<le> r \<and> r \<le> rows A"
  shows "\<exists>N. CreateMatFromRowsFromMatrix M A sel = Some N \<and>
    csr_rep N (select_rows sel rws (length rws)) \<and> cols N = cols A"
proof -
  have ra: "rows A = int (length rws)" using rep by (simp add: csr_rep_def)
  obtain ix where ix: "vresize (rows A + 1) 0 (CSR_I_row_indices M) = Some ix"
    "length ix = Suc (length rws)"
    by (simp add: vresize_def ra nat_add_distrib min_def)
  have "\<exists>s. for_each sel (create_row A) (ix, [], [], 0, 1) = Some s \<and> create_inv rws sel s"
  proof (rule for_each_list[where I = "create_inv rws"])
    show "create_inv rws [] (ix, [], [], 0, 1)"
      using ix by (simp add: create_inv_def select_rows_def)
    fix d r rest s
    assume sel: "sel = d @ r # rest" and "create_inv rws d s"
    moreover have "d = [] \<or> last d < r"
      using assms(4) by (cases d rule: rev_cases) (auto simp: sel sorted_wrt_append)
    ultimately show "\<exists>u. create_row A r s = Some u \<and> create_inv rws (d @ [r]) u"
      using assms(5) ra by (intro create_row_rep[OF rep]) (auto simp: sel)
  qed
  then obtain is' js vs next_index row_fill where
    run: "for_each sel (create_row A) (ix, [], [], 0, 1) = Some (is', js, vs, next_index, row_fill)"
    and inv: "create_inv rws sel (is', js, vs, next_index, row_fill)" by (metis prod_cases5)
  define n where "n = nat next_index"
  define out where "out = select_rows sel rws n"
  have n: "next_index = int n" "n \<le> length rws" and le: "\<forall>r \<in> set sel. r \<le> int n"
    and tk: "take n is' = csr_starts out" and len: "length is' = Suc (length rws)"
    and js: "js = map fst (concat out)" and vs: "vs = map snd (concat out)"
    and fl: "row_fill = 1 + int (length (concat out))"
    using inv by (auto simp: create_inv_def Let_def n_def out_def)
  let ?all = "select_rows sel rws (length rws)"
  have all: "?all = out @ replicate (length rws - n) []"
    unfolding out_def by (rule select_rows_extend[OF le n(2)])
  have "fill_i is' next_index (rows A + 1) row_fill = Some (csr_ptrs ?all)"
    unfolding all csr_ptrs_empty_rows using n len tk fl ra
    by (simp add: fill_i_def nat_add_distrib Suc_diff_le flip: replicate_append_same)
  moreover have "list_all (\<lambda>e. 1 \<le> fst e \<and> fst e \<le> cols A) (concat out)"
    using rep n(2) by (fastforce simp: csr_rep_def list_all_iff out_def select_rows_def split: if_splits)
  ultimately show ?thesis
    using run ix assms(2,3) js vs ra n(2) length_select_rows[of sel rws n, folded out_def]
    by (auto simp: CreateMatFromRowsFromMatrix_def csr_rep_def all)
qed

text \<open>The variant that keeps only the listed rows, in the listed order.\<close>

definition create_new_row ::
  "('v, 'f) sparse_matrix \<Rightarrow> int \<Rightarrow> int list \<times> int list \<times> 'v list \<times> int \<Rightarrow>
     (int list \<times> int list \<times> 'v list \<times> int) option" where
  "create_new_row A_in row_to_add = (\<lambda>(is, js, vs, row_fill). do {
     let is = is @ [row_fill];
     p \<leftarrow> rdi (CSR_I_row_indices A_in) (row_to_add - 1);
     let A_in_start_index = p - 1;
     q \<leftarrow> rdi (CSR_I_row_indices A_in) (row_to_add + 1 - 1);
     let A_in_end_index = q - 1;
     newj \<leftarrow> range_i (CSR_J_col_indices A_in) A_in_start_index A_in_end_index;
     newv \<leftarrow> range_i (CSR_V_values A_in) A_in_start_index A_in_end_index;
     let js = js @ newj;
     Some (is, js, vs @ newv, 1 + int (length js))
   })"

definition CreateMatFromRowsFromMatrix_NewSize ::
  "('v, 'f) sparse_matrix \<Rightarrow> ('v, 'f) sparse_matrix \<Rightarrow> int list \<Rightarrow> ('v, 'f) sparse_matrix option" where
  "CreateMatFromRowsFromMatrix_NewSize this A_in rows_to_add =
    (if nnz A_in > 0 then do {
       (is, js, vs, row_fill) \<leftarrow> for_each rows_to_add (create_new_row A_in)
          (CSR_I_row_indices this, CSR_J_col_indices this, CSR_V_values this, 1);
       Some (this \<lparr> rows := int (length rows_to_add), cols := cols A_in, mat_type := mat_type A_in,
         mtype := REAL_UNSYMMETRIC, CSR_I_row_indices := is @ [row_fill],
         CSR_J_col_indices := js, CSR_V_values := vs, nnz := int (length vs) \<rparr>)
     } else Some this)"

lemma create_new_row_rep:
  assumes rep: "csr_rep A rws" and r: "1 \<le> r" "r \<le> int (length rws)"
  shows "create_new_row A r (ix, js, vs, f) =
    (let row = rws ! (nat r - 1) in
      Some (ix @ [f], js @ map fst row, vs @ map snd row, 1 + int (length js + length row)))"
proof -
  obtain k where k: "r = int (Suc k)" "k < length rws"
  proof
    show "r = int (Suc (nat (r - 1)))" "nat (r - 1) < length rws" using r by auto
  qed
  then have "rdi (CSR_I_row_indices A) (r - 1) = Some (csr_ptrs rws ! k)"
    "rdi (CSR_I_row_indices A) r = Some (csr_ptrs rws ! Suc k)"
    using csr_rep_ptrs[OF rep, of k] csr_rep_ptrs[OF rep, of "Suc k"] by (simp_all add: rdi_def nat_add_distrib)
  then show ?thesis
    using csr_rep_range[OF rep k(2)] k(1) by (simp add: create_new_row_def Let_def nat_add_distrib)
qed

lemma CreateMatFromRows_NewSize_rep:
  assumes rep: "csr_rep A rws" and new: "CSR_I_row_indices M = []" "CSR_J_col_indices M = []" "CSR_V_values M = []"
    and sel: "\<forall>r \<in> set sel. 1 \<le> r \<and> r \<le> rows A" and "nnz A > 0"
  shows "\<exists>N. CreateMatFromRowsFromMatrix_NewSize M A sel = Some N \<and>
    csr_rep N (map (\<lambda>r. rws ! (nat r - 1)) sel) \<and> cols N = cols A"
proof -
  let ?row = "\<lambda>r. rws ! (nat r - 1)"
  have ra: "rows A = int (length rws)" using rep by (simp add: csr_rep_def)
  define inv where "inv = (\<lambda>d (ix, js, vs, f). let out = map ?row d in ix = csr_starts out \<and>
      js = map fst (concat out) \<and> vs = map snd (concat out) \<and> f = 1 + int (length (concat out)))"
  have "\<exists>s. for_each sel (create_new_row A) ([], [], [], 1) = Some s \<and> inv sel s"
  proof (rule for_each_list[where I = inv])
    show "inv [] ([], [], [], 1)" by (simp add: inv_def)
    fix d r rest s
    assume "sel = d @ r # rest" and "inv d s"
    with sel ra show "\<exists>u. create_new_row A r s = Some u \<and> inv (d @ [r]) u"
      by (cases s) (auto simp: inv_def Let_def create_new_row_rep[OF rep] csr_ptrs_def)
  qed
  then obtain ix js vs f where
    "for_each sel (create_new_row A) ([], [], [], 1) = Some (ix, js, vs, f)" "inv sel (ix, js, vs, f)"
    by (metis prod_cases4)
  moreover have "list_all (\<lambda>e. 1 \<le> fst e \<and> fst e \<le> cols A) (concat (map ?row sel))"
    using rep sel by (fastforce simp: csr_rep_def list_all_iff)
  ultimately show ?thesis
    using new assms(6)
    by (simp add: CreateMatFromRowsFromMatrix_NewSize_def csr_rep_def inv_def Let_def csr_ptrs_def)
qed

section \<open>Sub-blocks\<close>

text \<open>
  The test of both passes over the entries, the counting pass and the filling pass of the
  sub-block functions; positions and columns are read relative to the index base \<open>offset\<close>.
\<close>

definition in_block :: "('v, 'f) sparse_matrix \<Rightarrow> int \<Rightarrow> int \<Rightarrow> int \<Rightarrow> int \<Rightarrow> bool option" where
  "in_block A_in offset j_start j_size j = do {
     c \<leftarrow> rdi (CSR_J_col_indices A_in) (j - offset);
     Some (j_start \<le> c - offset \<and> c - offset < j_start + j_size)
   }"

definition block_count ::
  "('v, 'f) sparse_matrix \<Rightarrow> int \<Rightarrow> int \<Rightarrow> int \<Rightarrow> int \<Rightarrow> int \<Rightarrow> int option" where
  "block_count A_in offset i_start i_size j_start j_size =
     for_each [0..i_size - 1] (\<lambda>i nnz_new. do {
       a \<leftarrow> rdi (CSR_I_row_indices A_in) (i + i_start);
       b \<leftarrow> rdi (CSR_I_row_indices A_in) (i + i_start + 1);
       for_each [a..b - 1] (\<lambda>j nnz_new. do {
         yes \<leftarrow> in_block A_in offset j_start j_size j;
         Some (if yes then nnz_new + 1 else nnz_new)
       }) nnz_new
     }) 0"

definition block_entry ::
  "('v, 'f) sparse_matrix \<Rightarrow> int \<Rightarrow> int \<Rightarrow> int \<Rightarrow> int \<Rightarrow> int list \<times> 'v list \<times> int \<Rightarrow>
     (int list \<times> 'v list \<times> int) option" where
  "block_entry A_in offset j_start j_size j = (\<lambda>(js, vs, ijcnt). do {
     yes \<leftarrow> in_block A_in offset j_start j_size j;
     if yes then do {
       c \<leftarrow> rdi (CSR_J_col_indices A_in) (j - offset);
       js \<leftarrow> wri js ijcnt (c - j_start);
       v \<leftarrow> rdi (CSR_V_values A_in) (j - offset);
       vs \<leftarrow> wri vs ijcnt v;
       Some (js, vs, ijcnt + 1)
     } else Some (js, vs, ijcnt)
   })"

definition block_fill ::
  "('v, 'f) sparse_matrix \<Rightarrow> int \<Rightarrow> int \<Rightarrow> int \<Rightarrow> int \<Rightarrow> int \<Rightarrow> int list \<times> int list \<times> 'v list \<Rightarrow>
     (int list \<times> int list \<times> 'v list \<times> int) option" where
  "block_fill A_in offset i_start i_size j_start j_size = (\<lambda>(is, js, vs). do {
     is \<leftarrow> wri is 0 offset;
     for_each [0..i_size - 1] (\<lambda>i (is, js, vs, ijcnt). do {
       a \<leftarrow> rdi (CSR_I_row_indices A_in) (i + i_start);
       b \<leftarrow> rdi (CSR_I_row_indices A_in) (i + i_start + 1);
       (js, vs, ijcnt) \<leftarrow> for_each [a..b - 1] (block_entry A_in offset j_start j_size) (js, vs, ijcnt);
       is \<leftarrow> wri is (i + 1) (offset + ijcnt);
       Some (is, js, vs, ijcnt)
     }) (is, js, vs, 0)
   })"

text \<open>\<open>zero\<close> is the value-initialised element the vectors are resized with.\<close>

definition getSubBlockmatrix_rs ::
  "'v \<Rightarrow> ('v, 'f) sparse_matrix \<Rightarrow> ('v, 'f) sparse_matrix \<Rightarrow> int \<Rightarrow> int \<Rightarrow> int \<Rightarrow> int \<Rightarrow>
     ('v, 'f) sparse_matrix option" where
  "getSubBlockmatrix_rs zero A_in A_out i_start i_size j_start j_size = do {
     p0 \<leftarrow> rd (CSR_I_row_indices A_in) 0;
     let offset = (if p0 \<noteq> 0 then 1 else 0);
     nnz_new \<leftarrow> block_count A_in offset i_start i_size j_start j_size;
     vs \<leftarrow> vresize nnz_new zero (CSR_V_values A_out);
     js \<leftarrow> vresize nnz_new 0 (CSR_J_col_indices A_out);
     is \<leftarrow> vresize (i_size + 1) 0 (CSR_I_row_indices A_out);
     (is, js, vs, ijcnt) \<leftarrow> block_fill A_in offset i_start i_size j_start j_size (is, js, vs);
     Some (A_out \<lparr> rows := i_size, cols := j_size, nnz := nnz_new, mat_type := CHR ''G'',
       CSR_I_row_indices := is, CSR_J_col_indices := js, CSR_V_values := vs \<rparr>)
   }"

definition getSubDiagBlockmatrix ::
  "'v \<Rightarrow> ('v, 'f) sparse_matrix \<Rightarrow> ('v, 'f) sparse_matrix \<Rightarrow> int \<Rightarrow> int \<Rightarrow> ('v, 'f) sparse_matrix option" where
  "getSubDiagBlockmatrix zero A_in A_out i_start size_rr = do {
     p0 \<leftarrow> rd (CSR_I_row_indices A_in) 0;
     let offset = (if p0 \<noteq> 0 then 1 else 0);
     nnz_new \<leftarrow> block_count A_in offset i_start size_rr i_start size_rr;
     vs \<leftarrow> vresize nnz_new zero (CSR_V_values A_out);
     js \<leftarrow> vresize nnz_new 0 (CSR_J_col_indices A_out);
     is \<leftarrow> vresize (size_rr + 1) 0 (CSR_I_row_indices A_out);
     (is, js, vs, ijcnt) \<leftarrow> block_fill A_in offset i_start size_rr i_start size_rr (is, js, vs);
     Some (A_out \<lparr> rows := size_rr, cols := size_rr, nnz := nnz_new, mat_type := mat_type A_in,
       CSR_I_row_indices := is, CSR_J_col_indices := js, CSR_V_values := vs \<rparr>)
   }"

text \<open>On rows: a window of rows, cut to a window of columns that is then moved to the front.\<close>

definition block_row :: "int \<Rightarrow> int \<Rightarrow> (int \<times> 'v) list \<Rightarrow> (int \<times> 'v) list" where
  "block_row j_start j_size row =
     map (\<lambda>e. (fst e - j_start, snd e)) (filter (\<lambda>e. j_start \<le> fst e - 1 \<and> fst e - 1 < j_start + j_size) row)"

definition block_rows :: "nat \<Rightarrow> nat \<Rightarrow> int \<Rightarrow> int \<Rightarrow> 'v sparse_rows \<Rightarrow> 'v sparse_rows" where
  "block_rows i_start i_size j_start j_size rws =
     map (block_row j_start j_size) (take i_size (drop i_start rws))"

lemma wri_append: "i = int (length xs) \<Longrightarrow> wri (xs @ y # ys) i x = Some (xs @ x # ys)"
  by (simp add: wri_def wr_Some)

lemma for_each_write:
  assumes "length vs = length js" and "n = int (length js)"
    and "length (filter P row) \<le> length rj" and "length (filter P row) \<le> length rv"
  shows "for_each row (\<lambda>e (js, vs, n). if P e then do {
       js \<leftarrow> wri js n (g e); vs \<leftarrow> wri vs n (snd e); Some (js, vs, n + 1) } else Some (js, vs, n))
       (js @ rj, vs @ rv, n) =
     (let kept = filter P row; k = length kept in
       Some (js @ map g kept @ drop k rj, vs @ map snd kept @ drop k rv, n + int k))"
  using assms
proof (induction row arbitrary: js vs rj rv n)
  case (Cons e row)
  show ?case
  proof (cases "P e")
    case True
    then obtain a rj' b rv' where r: "rj = a # rj'" "rv = b # rv'"
      using Cons.prems(3,4) by (cases rj; cases rv) auto
    show ?thesis
      using Cons.IH[of "vs @ [snd e]" "js @ [g e]" "n + 1" rj' rv'] Cons.prems True
      by (simp add: r wri_append Let_def)
  qed (use Cons in simp)
qed (simp add: Let_def)

lemma in_block_rep:
  assumes "csr_rep A rws" and "r < length rws" and "c < length (rws ! r)"
  shows "in_block A 1 j_start j_size (csr_ptrs rws ! r + int c) =
     Some (j_start \<le> fst (rws ! r ! c) - 1 \<and> fst (rws ! r ! c) - 1 < j_start + j_size)"
  by (simp add: in_block_def csr_rep_entry[OF assms])

lemma block_entry_row:
  assumes rep: "csr_rep A rws" and r: "r < length rws"
    and "length vs = length js" and "n = int (length js)"
    and "length (block_row j_start j_size (rws ! r)) \<le> length rj"
    and "length (block_row j_start j_size (rws ! r)) \<le> length rv"
  shows "for_each [csr_ptrs rws ! r..csr_ptrs rws ! Suc r - 1] (block_entry A 1 j_start j_size) (js @ rj, vs @ rv, n) =
     (let out = block_row j_start j_size (rws ! r); k = length out in
       Some (js @ map fst out @ drop k rj, vs @ map snd out @ drop k rv, n + int k))"
proof -
  let ?P = "\<lambda>e. j_start \<le> fst e - 1 \<and> fst e - 1 < j_start + j_size"
  have "for_each [csr_ptrs rws ! r..csr_ptrs rws ! Suc r - 1] (block_entry A 1 j_start j_size) s =
      for_each (rws ! r) (\<lambda>e (js, vs, n). if ?P e then do {
        js \<leftarrow> wri js n (fst e - j_start); vs \<leftarrow> wri vs n (snd e); Some (js, vs, n + 1) } else Some (js, vs, n)) s" for s
  proof (rule for_each_positions)
    fix c s assume "c < length (rws ! r)"
    then show "block_entry A 1 j_start j_size (csr_ptrs rws ! r + int c) s =
        (\<lambda>e (js, vs, n). if ?P e then do {
        js \<leftarrow> wri js n (fst e - j_start); vs \<leftarrow> wri vs n (snd e); Some (js, vs, n + 1) } else Some (js, vs, n))
         (rws ! r ! c) s"
      using in_block_rep[OF rep r, of c]
      by (cases s) (simp add: block_entry_def csr_rep_entry[OF rep r] split: if_split)
  qed (simp add: csr_ptrs_Suc[OF r])
  then show ?thesis
    using for_each_write[OF assms(3,4), of ?P "rws ! r" rj rv "\<lambda>e. fst e - j_start"] assms(5,6)
    by (simp add: block_row_def Let_def comp_def)
qed

lemma block_count_rep:
  assumes rep: "csr_rep A rws" and "i0 + n \<le> length rws"
  shows "block_count A 1 (int i0) (int n) j_start j_size =
     Some (int (length (concat (block_rows i0 n j_start j_size rws))))"
proof -
  let ?P = "\<lambda>e. j_start \<le> fst e - 1 \<and> fst e - 1 < j_start + j_size"
  let ?f = "\<lambda>i m. m + int (length (block_row j_start j_size (rws ! (i0 + i))))"
  have row: "for_each [csr_ptrs rws ! r..csr_ptrs rws ! Suc r - 1] (\<lambda>j m. do {
         yes \<leftarrow> in_block A 1 j_start j_size j; Some (if yes then m + 1 else m) }) m =
       Some (m + int (length (block_row j_start j_size (rws ! r))))" if r: "r < length rws" for r m
    using for_each_count[of "rws ! r" "\<lambda>j. j_start \<le> j - 1 \<and> j - 1 < j_start + j_size" m]
    by (subst for_each_positions[where xs = "rws ! r" and f = "\<lambda>e n. Some (if ?P e then n + 1 else n)"])
      (simp_all add: csr_ptrs_Suc[OF r] in_block_rep[OF rep r] block_row_def comp_def)
  have "block_count A 1 (int i0) (int n) j_start j_size = Some (fold ?f [0..<n] 0)"
    unfolding block_count_def using upto_shift[of 0 n]
  proof (simp add: for_each_map, intro for_each_pure)
    fix i m assume "i \<in> set [0..<n]"
    then have r: "i0 + i < length rws" using assms(2) by simp
    then have "rdi (CSR_I_row_indices A) (int i + int i0) = Some (csr_ptrs rws ! (i0 + i))"
      "rdi (CSR_I_row_indices A) (int i + int i0 + 1) = Some (csr_ptrs rws ! Suc (i0 + i))"
      using csr_rep_ptrs[OF rep, of "i0 + i"] csr_rep_ptrs[OF rep, of "Suc (i0 + i)"]
      by (simp_all add: rdi_def nat_add_distrib add.commute)
    then show "do {
       a \<leftarrow> rdi (CSR_I_row_indices A) (int i + int i0);
       b \<leftarrow> rdi (CSR_I_row_indices A) (int i + int i0 + 1);
       for_each [a..b - 1] (\<lambda>j nnz_new. do {
         yes \<leftarrow> in_block A 1 j_start j_size j;
         Some (if yes then nnz_new + 1 else nnz_new)
       }) m } = Some (?f i m)"
      using row[OF r] by simp
  qed
  also have "fold ?f [0..<k] 0 = int (length (concat (block_rows i0 k j_start j_size rws)))" if "k \<le> n" for k
    using that assms(2)
    by (induction k) (auto simp: block_rows_def take_Suc_conv_app_nth)
  finally show ?thesis by simp
qed

lemma block_rows_Suc:
  "i0 + i < length rws \<Longrightarrow>
   block_rows i0 (Suc i) j_start j_size rws =
     block_rows i0 i j_start j_size rws @ [block_row j_start j_size (rws ! (i0 + i))]"
  by (simp add: block_rows_def take_Suc_conv_app_nth)

lemma block_rows_length_mono:
  assumes "i \<le> n"
  shows "length (concat (block_rows i0 i j_start j_size rws)) \<le> length (concat (block_rows i0 n j_start j_size rws))"
proof -
  obtain k where n: "n = i + k" using assms le_Suc_ex by blast
  show ?thesis unfolding n by (simp add: block_rows_def take_add)
qed

lemma length_block_rows [simp]:
  "i0 + n \<le> length rws \<Longrightarrow> length (block_rows i0 n j_start j_size rws) = n"
  by (simp add: block_rows_def)

lemma block_fill_rep:
  assumes rep: "csr_rep A rws" and n: "i0 + n \<le> length rws"
    and "length ix = Suc n" and "length js = length (concat (block_rows i0 n j_start j_size rws))"
    and "length vs = length js"
  shows "block_fill A 1 (int i0) (int n) j_start j_size (ix, js, vs) =
    (let out = block_rows i0 n j_start j_size rws in
      Some (csr_ptrs out, map fst (concat out), map snd (concat out), int (length (concat out))))"
proof -
  let ?out = "\<lambda>i. block_rows i0 i j_start j_size rws"
  let ?body = "\<lambda>i (is, js, vs, ijcnt). do {
       a \<leftarrow> rdi (CSR_I_row_indices A) (i + int i0);
       b \<leftarrow> rdi (CSR_I_row_indices A) (i + int i0 + 1);
       (js, vs, ijcnt) \<leftarrow> for_each [a..b - 1] (block_entry A 1 j_start j_size) (js, vs, ijcnt);
       is \<leftarrow> wri is (i + 1) (1 + ijcnt);
       Some (is, js, vs, ijcnt)
     }"
  define inv where "inv = (\<lambda>i (is, js', vs', cnt). \<exists>rj rv. length is = Suc n \<and>
     take (Suc i) is = csr_ptrs (?out i) \<and> js' = map fst (concat (?out i)) @ rj \<and>
     vs' = map snd (concat (?out i)) @ rv \<and> length js' = length js \<and> length vs' = length js \<and>
     cnt = int (length (concat (?out i))))"
  have "\<exists>s. for_each [0..<n] (\<lambda>i. ?body (int i)) (ix[0 := 1], js, vs, 0) = Some s \<and> inv n s"
  proof (rule for_each_upt[where I = inv])
    show "inv 0 (ix[0 := 1], js, vs, 0)"
      using assms(3,5) by (cases ix) (auto simp: inv_def block_rows_def)
    fix i s assume i: "i < n" and "inv i s"
    then obtain is1 rj rv where s: "s = (is1, map fst (concat (?out i)) @ rj, map snd (concat (?out i)) @ rv,
        int (length (concat (?out i))))" and len: "length is1 = Suc n"
      and tk: "take (Suc i) is1 = csr_ptrs (?out i)"
      and rj: "length (concat (?out i)) + length rj = length js"
      and rv: "length (concat (?out i)) + length rv = length js"
      by (cases s) (auto simp: inv_def)
    have r: "i0 + i < length rws" using i n by simp
    have rd: "rdi (CSR_I_row_indices A) (int i + int i0) = Some (csr_ptrs rws ! (i0 + i))"
      "rdi (CSR_I_row_indices A) (int i + int i0 + 1) = Some (csr_ptrs rws ! Suc (i0 + i))"
      using csr_rep_ptrs[OF rep, of "i0 + i"] csr_rep_ptrs[OF rep, of "Suc (i0 + i)"] r
      by (simp_all add: rdi_def nat_add_distrib add.commute)
    define new where "new = block_row j_start j_size (rws ! (i0 + i))"
    have out: "?out (Suc i) = ?out i @ [new]"
      unfolding new_def by (rule block_rows_Suc[OF r])
    have "length (concat (?out i)) + length new \<le> length js"
      using block_rows_length_mono[of "Suc i" n] i out assms(4) by (metis Suc_leI concat.simps concat_append
          append_Nil2 length_append)
    then have fit: "length new \<le> length rj" "length new \<le> length rv" using rj rv by auto
    have ent: "for_each [csr_ptrs rws ! (i0 + i)..csr_ptrs rws ! Suc (i0 + i) - 1] (block_entry A 1 j_start j_size)
        (map fst (concat (?out i)) @ rj, map snd (concat (?out i)) @ rv, int (length (concat (?out i)))) =
      Some (map fst (concat (?out (Suc i))) @ drop (length new) rj,
        map snd (concat (?out (Suc i))) @ drop (length new) rv, int (length (concat (?out (Suc i)))))"
      using fit unfolding new_def
      by (subst block_entry_row[OF rep r]) (simp_all add: Let_def block_rows_Suc[OF r])
    have wr: "wri is1 (int i + 1) (1 + int (length (concat (?out (Suc i))))) =
        Some (is1[Suc i := 1 + int (length (concat (?out (Suc i))))])"
      using i len by (simp add: wri_def wr_Some nat_add_distrib)
    have step: "?body (int i) s = Some (is1[Suc i := 1 + int (length (concat (?out (Suc i))))],
        map fst (concat (?out (Suc i))) @ drop (length new) rj,
        map snd (concat (?out (Suc i))) @ drop (length new) rv, int (length (concat (?out (Suc i)))))"
      by (simp only: s rd ent wr prod.case bind.bind_lunit)
    show "\<exists>u. ?body (int i) s = Some u \<and> inv (Suc i) u"
      unfolding step using rj rv fit i len tk
      by (simp add: inv_def out csr_ptrs_snoc take_Suc_conv_app_nth[of "Suc i"])
  qed simp
  then obtain s where run: "for_each [0..<n] (\<lambda>i. ?body (int i)) (ix[0 := 1], js, vs, 0) = Some s"
    and "inv n s" by blast
  moreover have "wri ix 0 1 = Some (ix[0 := 1])" using assms(3) by (simp add: wri_def wr_Some)
  ultimately show ?thesis
    using assms(4) upto_shift[of 0 n]
    by (cases s) (auto simp: block_fill_def for_each_map inv_def Let_def)
qed

lemma block_rows_columns:
  "list_all (\<lambda>e. 1 \<le> fst e \<and> fst e \<le> j_size) (concat (block_rows i0 n j_start j_size rws))"
  by (auto simp: block_rows_def block_row_def list_all_iff)

lemma getSubBlock_parts:
  assumes rep: "csr_rep A rws" and n: "i0 + n \<le> length rws"
    and out: "out = block_rows i0 n j_start j_size rws" and k: "k = int (length (concat out))"
  shows "block_count A 1 (int i0) (int n) j_start j_size = Some k"
    and "\<exists>vs js ix. vresize k zero (CSR_V_values B) = Some vs \<and> vresize k 0 (CSR_J_col_indices B) = Some js \<and>
      vresize (int n + 1) 0 (CSR_I_row_indices B) = Some ix \<and>
      block_fill A 1 (int i0) (int n) j_start j_size (ix, js, vs) =
        Some (csr_ptrs out, map fst (concat out), map snd (concat out), k)"
proof -
  show "block_count A 1 (int i0) (int n) j_start j_size = Some k"
    using block_count_rep[OF rep n] by (simp only: out k)
  obtain vs where vs: "vresize k zero (CSR_V_values B) = Some vs" "length vs = length (concat out)"
    using k by (simp add: vresize_def min_def)
  obtain js where js: "vresize k 0 (CSR_J_col_indices B) = Some js" "length js = length (concat out)"
    using k by (simp add: vresize_def min_def)
  obtain ix where ix: "vresize (int n + 1) 0 (CSR_I_row_indices B) = Some ix" "length ix = Suc n"
    by (simp add: vresize_def nat_add_distrib min_def)
  have "block_fill A 1 (int i0) (int n) j_start j_size (ix, js, vs) =
      Some (csr_ptrs out, map fst (concat out), map snd (concat out), k)"
    using block_fill_rep[OF rep n, of ix js j_start j_size vs] vs js ix by (simp only: out k Let_def)
  with vs js ix show "\<exists>vs js ix. vresize k zero (CSR_V_values B) = Some vs \<and> vresize k 0 (CSR_J_col_indices B) = Some js \<and>
      vresize (int n + 1) 0 (CSR_I_row_indices B) = Some ix \<and>
      block_fill A 1 (int i0) (int n) j_start j_size (ix, js, vs) =
        Some (csr_ptrs out, map fst (concat out), map snd (concat out), k)" by blast
qed

lemma csr_rep_first: "csr_rep A rws \<Longrightarrow> rd (CSR_I_row_indices A) 0 = Some 1"
  using csr_rep_ptrs[of A rws 0] csr_ptrs_nth[of 0 rws] by simp

lemma getSubBlockmatrix_rs_rep:
  assumes "csr_rep A rws" and "i0 + n \<le> length rws"
  shows "\<exists>N. getSubBlockmatrix_rs zero A B (int i0) (int n) j_start j_size = Some N \<and>
    csr_rep N (block_rows i0 n j_start j_size rws) \<and> cols N = j_size"
proof -
  let ?k = "int (length (concat (block_rows i0 n j_start j_size rws)))"
  note parts = getSubBlock_parts[OF assms refl refl, of j_start j_size]
  from parts(2)[of zero B] obtain vs js ix where
    "vresize ?k zero (CSR_V_values B) = Some vs" "vresize ?k 0 (CSR_J_col_indices B) = Some js"
    "vresize (int n + 1) 0 (CSR_I_row_indices B) = Some ix"
    "block_fill A 1 (int i0) (int n) j_start j_size (ix, js, vs) =
        Some (csr_ptrs (block_rows i0 n j_start j_size rws), map fst (concat (block_rows i0 n j_start j_size rws)),
          map snd (concat (block_rows i0 n j_start j_size rws)), ?k)" by blast
  then show ?thesis
    using parts(1) csr_rep_first[OF assms(1)] assms(2) block_rows_columns
    by (simp add: getSubBlockmatrix_rs_def csr_rep_def)
qed

lemma getSubDiagBlockmatrix_rep:
  assumes "csr_rep A rws" and "i0 + n \<le> length rws"
  shows "\<exists>N. getSubDiagBlockmatrix zero A B (int i0) (int n) = Some N \<and>
    csr_rep N (block_rows i0 n (int i0) (int n) rws) \<and> cols N = int n"
proof -
  let ?b = "block_rows i0 n (int i0) (int n) rws"
  note parts = getSubBlock_parts[OF assms refl refl, of "int i0" "int n"]
  from parts(2)[of zero B] obtain vs js ix where
    "vresize (int (length (concat ?b))) zero (CSR_V_values B) = Some vs"
    "vresize (int (length (concat ?b))) 0 (CSR_J_col_indices B) = Some js"
    "vresize (int n + 1) 0 (CSR_I_row_indices B) = Some ix"
    "block_fill A 1 (int i0) (int n) (int i0) (int n) (ix, js, vs) =
        Some (csr_ptrs ?b, map fst (concat ?b), map snd (concat ?b), int (length (concat ?b)))" by blast
  then show ?thesis
    using parts(1) csr_rep_first[OF assms(1)] assms(2) block_rows_columns
    by (simp add: getSubDiagBlockmatrix_def csr_rep_def)
qed

section \<open>Properties\<close>

text \<open>
  C23: \<^verbatim>\<open>RemoveLower\<close> stays inside the arrays of a well-formed CSR matrix, keeps it well-formed,
  and leaves in every row exactly the entries on and above the diagonal, in their order.
\<close>

theorem RemoveLower_correct:
  assumes "csr_wf M"
  shows "\<exists>N. RemoveLower M = Some N \<and> csr_wf N \<and> csr_rows N = upper_rows (csr_rows M)"
proof (cases "rows M \<noteq> 0 \<and> cols M \<noteq> 0")
  case True
  then show ?thesis
    using RemoveLower_rep[OF csr_wf_rep[OF assms]] csr_rep_wf csr_rep_rows by metis
next
  case False
  have rep: "csr_rep M (csr_rows M)" by (rule csr_wf_rep[OF assms])
  have "concat (csr_rows M) = []" if "cols M = 0"
    using rep that by (cases "concat (csr_rows M)") (auto simp: csr_rep_def)
  moreover have "csr_rows M = []" if "rows M = 0" using that by (simp add: csr_rows_def)
  ultimately have "filter P (csr_rows M ! r) = csr_rows M ! r" if "r < length (csr_rows M)" for r P
    using False nth_mem[OF that] that by (metis concat_eq_Nil_conv filter.simps(1) list.set(1) empty_iff)
  then have "upper_rows (csr_rows M) = csr_rows M"
    by (intro nth_equalityI) (auto simp: upper_rows_def nth_enumerate_eq)
  then show ?thesis using False assms by (auto simp: RemoveLower_def)
qed

definition example_csr :: "(int, int) sparse_matrix" where
  "example_csr = sm_new \<lparr> rows := 3, cols := 3, nnz := 5, CSR_I_row_indices := [1, 3, 4, 6],
     CSR_J_col_indices := [1, 3, 2, 1, 3], CSR_V_values := [10, 20, 30, 40, 50] \<rparr>"

lemma example_csr_rep: "csr_rep example_csr [[(1, 10), (3, 20)], [(2, 30)], [(1, 40), (3, 50)]]"
  by (simp add: csr_rep_def example_csr_def sm_new_def csr_ptrs_def csr_starts_def psum_def upt_rec)

lemma example_csr_facts:
  "csr_wf example_csr" "rows example_csr = 3" "cols example_csr = 3" "nnz example_csr = 5"
  using csr_rep_wf[OF example_csr_rep] by (simp_all add: example_csr_def)

lemma RemoveLower_correct_witness:
  "\<exists>N. RemoveLower example_csr = Some N \<and> csr_wf N \<and> csr_rows N = upper_rows (csr_rows example_csr)"
  by (rule RemoveLower_correct) (rule example_csr_facts)

text \<open>
  C25: \<^verbatim>\<open>MatAppend\<close> puts the rows of a matrix with entries below the rows of another, takes the
  rows over when the target is new, and forgets the rows of a matrix without entries.
\<close>

theorem MatAppend_correct:
  assumes "csr_wf M" and "csr_wf A" and "cols A \<le> cols M" and "rows M \<noteq> 0"
  shows "(\<exists>N. MatAppend M A = Some N \<and> csr_wf N \<and> cols N = cols M \<and>
      csr_rows N = (if nnz A = 0 then csr_rows M else csr_rows M @ csr_rows A)) \<and>
    (\<exists>N. MatAppend sm_new A = Some N \<and>
      csr_rows N = (if nnz A = 0 then [] else csr_rows A) \<and> csr_wf N = (nnz A \<noteq> 0))"
proof
  show "\<exists>N. MatAppend M A = Some N \<and> csr_wf N \<and> cols N = cols M \<and>
      csr_rows N = (if nnz A = 0 then csr_rows M else csr_rows M @ csr_rows A)"
    using MatAppend_rep[OF csr_wf_rep csr_wf_rep, of M A] assms csr_rep_iff
    by (cases "nnz A = 0") (auto simp: MatAppend_def)
  show "\<exists>N. MatAppend sm_new A = Some N \<and>
      csr_rows N = (if nnz A = 0 then [] else csr_rows A) \<and> csr_wf N = (nnz A \<noteq> 0)"
    using assms(2) by (auto simp: MatAppend_def sm_new_def csr_rows_def csr_wf_def)
qed

lemma MatAppend_correct_witness:
  "(\<exists>N. MatAppend example_csr example_csr = Some N \<and> csr_wf N \<and> cols N = cols example_csr \<and>
      csr_rows N = (if nnz example_csr = 0 then csr_rows example_csr else csr_rows example_csr @ csr_rows example_csr)) \<and>
    (\<exists>N. MatAppend (sm_new :: (int, int) sparse_matrix) example_csr = Some N \<and>
      csr_rows N = (if nnz example_csr = 0 then [] else csr_rows example_csr) \<and> csr_wf N = (nnz example_csr \<noteq> 0))"
  by (rule MatAppend_correct)
    (simp_all add: example_csr_facts)

text \<open>
  Both row selections copy exactly the listed rows: \<^verbatim>\<open>CreateMatFromRowsFromMatrix\<close> keeps the
  size and leaves the other rows empty, \<^verbatim>\<open>_NewSize\<close> lists them in the given order.
\<close>

theorem CreateMatFromRows_correct:
  assumes "csr_wf A" and "0 < nnz A" and "sorted_wrt (<) sel" and "list_all (\<lambda>r. 1 \<le> r \<and> r \<le> rows A) sel"
  shows "(\<exists>N. CreateMatFromRowsFromMatrix sm_new A sel = Some N \<and> csr_wf N \<and>
      csr_rows N = select_rows sel (csr_rows A) (nat (rows A))) \<and>
    (\<exists>N. CreateMatFromRowsFromMatrix_NewSize sm_new A sel = Some N \<and> csr_wf N \<and>
      csr_rows N = map (\<lambda>r. csr_rows A ! (nat r - 1)) sel)"
proof -
  have new: "CSR_I_row_indices (sm_new :: ('a, 'b) sparse_matrix) = []"
    "CSR_J_col_indices (sm_new :: ('a, 'b) sparse_matrix) = []"
    "CSR_V_values (sm_new :: ('a, 'b) sparse_matrix) = []"
    by (simp_all add: sm_new_def)
  have sel: "\<forall>r \<in> set sel. 1 \<le> r \<and> r \<le> rows A" using assms(4) by (simp add: list_all_iff)
  show ?thesis
    using CreateMatFromRows_rep[OF csr_wf_rep[OF assms(1)] new(2,3) assms(3) sel]
      CreateMatFromRows_NewSize_rep[OF csr_wf_rep[OF assms(1)] new sel assms(2)] csr_rep_iff
    by (metis length_csr_rows)
qed

lemma CreateMatFromRows_correct_witness:
  "(\<exists>N. CreateMatFromRowsFromMatrix sm_new example_csr [1, 3] = Some N \<and> csr_wf N \<and>
      csr_rows N = select_rows [1, 3] (csr_rows example_csr) (nat (rows example_csr))) \<and>
    (\<exists>N. CreateMatFromRowsFromMatrix_NewSize sm_new example_csr [1, 3] = Some N \<and> csr_wf N \<and>
      csr_rows N = map (\<lambda>r. csr_rows example_csr ! (nat r - 1)) [1, 3])"
  by (rule CreateMatFromRows_correct)
    (simp_all add: example_csr_facts)

text \<open>
  C24: The sub-block functions allocate exactly as many entries as they write and return the
  requested window of rows and columns, moved to the front, whatever the target held before.
\<close>

theorem getSubBlock_correct:
  assumes "csr_wf A" and "int i0 + int n \<le> rows A"
  shows "(\<exists>N. getSubBlockmatrix_rs zero A B (int i0) (int n) j_start j_size = Some N \<and> csr_wf N \<and>
      csr_rows N = block_rows i0 n j_start j_size (csr_rows A)) \<and>
    (\<exists>N. getSubDiagBlockmatrix zero A B (int i0) (int n) = Some N \<and> csr_wf N \<and>
      csr_rows N = block_rows i0 n (int i0) (int n) (csr_rows A))"
proof -
  have n: "i0 + n \<le> length (csr_rows A)" using assms by (simp add: csr_wf_def)
  show ?thesis
    using getSubBlockmatrix_rs_rep[OF csr_wf_rep[OF assms(1)] n, of zero B j_start j_size]
      getSubDiagBlockmatrix_rep[OF csr_wf_rep[OF assms(1)] n, of zero B] csr_rep_iff by metis
qed

lemma getSubBlock_correct_witness:
  "(\<exists>N. getSubBlockmatrix_rs 0 example_csr sm_new (int 1) (int 2) 0 2 = Some N \<and> csr_wf N \<and>
      csr_rows N = block_rows 1 2 0 2 (csr_rows example_csr)) \<and>
    (\<exists>N. getSubDiagBlockmatrix 0 example_csr sm_new (int 1) (int 2) = Some N \<and> csr_wf N \<and>
      csr_rows N = block_rows 1 2 (int 1) (int 2) (csr_rows example_csr))"
  by (rule getSubBlock_correct)
    (simp_all add: example_csr_facts)

end
