(* ===== verification/SparseOps.thy ===== *)
theory SparseOps
  imports Complex_Main SparseEdit
begin

text \<open>
  Operations of \<^verbatim>\<open>SparseMatrix.cpp\<close> on the values of a CSR matrix: scaling, comparison and
  the accesses to the diagonal.
\<close>

section \<open>Comparison\<close>

text \<open>
  The loop \<^verbatim>\<open>for (i = 0; i < xs.size(); i++) if (xs[i] != ys[i]) tmp = 1\<close>; it reads
  \<open>ys\<close> without looking at its size.
\<close>

definition differ :: "'a list \<Rightarrow> 'a list \<Rightarrow> int \<Rightarrow> int option" where
  "differ xs ys = for_each [0..<length xs] (\<lambda>i tmp. do {
     x \<leftarrow> rd xs i; y \<leftarrow> rd ys i; Some (if x \<noteq> y then 1 else tmp) })"

definition MatCompare :: "('v, 'f) sparse_matrix \<Rightarrow> ('v, 'f) sparse_matrix \<Rightarrow> int option" where
  "MatCompare this A =
    (if cols this = cols A \<and> rows this = rows A \<and> nnz this = nnz A \<and> mat_type this = mat_type A then do {
       tmp1 \<leftarrow> differ (CSR_I_row_indices this) (CSR_I_row_indices A) 0;
       tmp1 \<leftarrow> differ (CSR_J_col_indices this) (CSR_J_col_indices A) tmp1;
       tmp2 \<leftarrow> differ (CSR_V_values this) (CSR_V_values A) 0;
       Some (1000 * tmp1 + tmp2)
     } else Some (- 1))"

definition MatCompareCOO :: "('v, 'f) sparse_matrix \<Rightarrow> ('v, 'f) sparse_matrix \<Rightarrow> int option" where
  "MatCompareCOO this A =
    (if cols this = cols A \<and> rows this = rows A \<and> nnz this = nnz A \<and> mat_type this = mat_type A then do {
       tmp1 \<leftarrow> differ (I_row_indices this) (I_row_indices A) 0;
       tmp2 \<leftarrow> differ (J_col_indices this) (J_col_indices A) 0;
       tmp3 \<leftarrow> differ (V_values this) (V_values A) 0;
       Some (100 * tmp1 + 10 * tmp2 + tmp3)
     } else Some (- 1))"

lemma differ_eq:
  assumes "length ys = length xs"
  shows "differ xs ys tmp = Some (if xs = ys then tmp else 1)"
proof -
  define inv where "inv = (\<lambda>i t. t = (if take i xs = take i ys then tmp else (1 :: int)))"
  have "\<exists>t. for_each [0..<length xs] (\<lambda>i tmp. do {
     x \<leftarrow> rd xs i; y \<leftarrow> rd ys i; Some (if x \<noteq> y then 1 else tmp) }) tmp = Some t \<and> inv (length xs) t"
    by (rule for_each_upt[where I = inv])
      (auto simp: inv_def rd_Some assms take_Suc_conv_app_nth)
  then show ?thesis using assms by (auto simp: differ_def inv_def)
qed

text \<open>
  On well-formed CSR matrices \<^verbatim>\<open>MatCompare\<close> returns 0 exactly when size, type and rows agree,
  -1 when size, number of entries or type differ, and otherwise a positive code.
\<close>

theorem MatCompare_correct:
  assumes "csr_wf M" and "csr_wf A"
  shows "\<exists>code. MatCompare M A = Some code \<and>
    (code = 0) = (cols M = cols A \<and> rows M = rows A \<and> mat_type M = mat_type A \<and> csr_rows M = csr_rows A) \<and>
    (code = - 1) = (cols M \<noteq> cols A \<or> rows M \<noteq> rows A \<or> nnz M \<noteq> nnz A \<or> mat_type M \<noteq> mat_type A) \<and>
    - 1 \<le> code"
proof (cases "cols M = cols A \<and> rows M = rows A \<and> nnz M = nnz A \<and> mat_type M = mat_type A")
  case True
  let ?arrays = "CSR_I_row_indices M = CSR_I_row_indices A \<and> CSR_J_col_indices M = CSR_J_col_indices A \<and>
    CSR_V_values M = CSR_V_values A"
  have len: "length (CSR_I_row_indices A) = length (CSR_I_row_indices M)"
    "length (CSR_J_col_indices A) = length (CSR_J_col_indices M)"
    "length (CSR_V_values A) = length (CSR_V_values M)"
    using assms True by (auto simp: csr_wf_def)
  have arrays: "(csr_rows M = csr_rows A) = ?arrays"
  proof
    assume "csr_rows M = csr_rows A"
    then show ?arrays
      using csr_wf_rep[OF assms(1)] csr_wf_rep[OF assms(2)] by (simp add: csr_rep_def)
  qed (use True in \<open>simp add: csr_rows_def\<close>)
  have "MatCompare M A = Some
      (1000 * (if CSR_J_col_indices M = CSR_J_col_indices A
        then if CSR_I_row_indices M = CSR_I_row_indices A then 0 else 1 else 1) +
       (if CSR_V_values M = CSR_V_values A then 0 else 1))"
    using True by (simp add: MatCompare_def differ_eq[OF len(1)] differ_eq[OF len(2)] differ_eq[OF len(3)])
  then show ?thesis using True unfolding arrays by auto
next
  case False
  moreover have "nnz M = nnz A" if "csr_rows M = csr_rows A"
    using csr_wf_rep[OF assms(1)] csr_wf_rep[OF assms(2)] that by (simp add: csr_rep_def)
  ultimately show ?thesis by (auto simp: MatCompare_def)
qed

lemma MatCompare_correct_witness:
  "\<exists>code. MatCompare example_csr example_csr = Some code \<and>
    (code = 0) = (cols example_csr = cols example_csr \<and> rows example_csr = rows example_csr \<and>
      mat_type example_csr = mat_type example_csr \<and> csr_rows example_csr = csr_rows example_csr) \<and>
    (code = - 1) = (cols example_csr \<noteq> cols example_csr \<or> rows example_csr \<noteq> rows example_csr \<or>
      nnz example_csr \<noteq> nnz example_csr \<or> mat_type example_csr \<noteq> mat_type example_csr) \<and>
    - 1 \<le> code"
  by (rule MatCompare_correct) (simp_all add: example_csr_facts)

section \<open>Scaling\<close>

definition MatScale :: "'v :: times \<Rightarrow> ('v, 'f) sparse_matrix \<Rightarrow> ('v, 'f) sparse_matrix" where
  "MatScale alpha M = M \<lparr> CSR_V_values :=
     fold (\<lambda>i vs. vs[i := alpha * vs ! i]) [0..<length (CSR_V_values M)] (CSR_V_values M) \<rparr>"

lemma fold_update_map:
  "n \<le> length xs \<Longrightarrow> fold (\<lambda>i vs. vs[i := f (vs ! i)]) [0..<n] xs = map f (take n xs) @ drop n xs"
proof (induction n)
  case (Suc n)
  then have "drop n xs = xs ! n # drop (Suc n) xs" by (simp add: Cons_nth_drop_Suc)
  with Suc show ?case by (simp add: take_Suc_conv_app_nth nth_append list_update_append)
qed simp

lemma MatScale_values: "CSR_V_values (MatScale alpha M) = map ((*) alpha) (CSR_V_values M)"
  using fold_update_map[of "length (CSR_V_values M)" "CSR_V_values M" "(*) alpha"]
  by (simp add: MatScale_def)

definition map_values :: "('v \<Rightarrow> 'w) \<Rightarrow> 'v sparse_rows \<Rightarrow> 'w sparse_rows" where
  "map_values f = map (map (\<lambda>e. (fst e, f (snd e))))"

lemma csr_ptrs_map_values [simp]: "csr_ptrs (map_values f rws) = csr_ptrs rws"
  by (simp add: csr_ptrs_def csr_starts_def map_values_def comp_def length_concat)

lemma concat_map_values: "concat (map_values f rws) = map (\<lambda>e. (fst e, f (snd e))) (concat rws)"
  by (simp add: map_values_def map_concat)

lemma MatScale_rep: "csr_rep M rws \<Longrightarrow> csr_rep (MatScale alpha M) (map_values ((*) alpha) rws)"
  by (simp add: csr_rep_def MatScale_values concat_map_values comp_def list_all_iff)
    (simp add: MatScale_def map_values_def length_concat comp_def)

section \<open>The diagonal\<close>

text \<open>
  The three searches for the diagonal read \<^verbatim>\<open>*it\<close> without comparing \<open>it\<close> to the end of the row.
\<close>

definition diagonal_entry :: "'v \<Rightarrow> ('v, 'f) sparse_matrix \<Rightarrow> int \<Rightarrow> 'v option" where
  "diagonal_entry zero M i = do {
     a \<leftarrow> rdi (CSR_I_row_indices M) i;
     b \<leftarrow> rdi (CSR_I_row_indices M) (i + 1);
     range_i (CSR_J_col_indices M) (a - 1) (b - 1);
     let it = lower_bound (nat (a - 1)) (nat (b - 1)) (i + 1) (CSR_J_col_indices M);
     c \<leftarrow> rd (CSR_J_col_indices M) it;
     if c = i + 1 then rd (CSR_V_values M) it else Some zero
   }"

definition getDiagonal :: "'v \<Rightarrow> ('v, 'f) sparse_matrix \<Rightarrow> 'v list option" where
  "getDiagonal zero M = for_each [0..rows M - 1] (\<lambda>i diagonal. do {
     v \<leftarrow> diagonal_entry zero M i; Some (diagonal @ [v]) }) []"

text \<open>\<open>lowest\<close> is the initial \<^verbatim>\<open>-1e10\<close>.\<close>

definition getDiagonalMaximum :: "'v :: ord \<Rightarrow> 'v \<Rightarrow> ('v, 'f) sparse_matrix \<Rightarrow> 'v option" where
  "getDiagonalMaximum lowest zero M = for_each [0..rows M - 1] (\<lambda>i max. do {
     tmp \<leftarrow> diagonal_entry zero M i; Some (if max < tmp then tmp else max) }) lowest"

definition getDiagonalAbsMaximum :: "('v :: {ord, zero, abs}, 'f) sparse_matrix \<Rightarrow> 'v option" where
  "getDiagonalAbsMaximum M = for_each [0..rows M - 1] (\<lambda>i max. do {
     tmp \<leftarrow> diagonal_entry 0 M i; Some (if max < \<bar>tmp\<bar> then \<bar>tmp\<bar> else max) }) 0"

text \<open>Of a symmetric matrix, whose rows start at the diagonal.\<close>

definition GetMeanOfDiagonalOfSymmetricMatrix :: "('v :: field, 'f) sparse_matrix \<Rightarrow> 'v option" where
  "GetMeanOfDiagonalOfSymmetricMatrix M =
    (if CSR_I_row_indices M = [] then None else do {
       (sum, count) \<leftarrow> for_each [0..<length (CSR_I_row_indices M) - 1] (\<lambda>i (sum, count). do {
           p \<leftarrow> rd (CSR_I_row_indices M) i;
           val \<leftarrow> rdi (CSR_V_values M) (p - 1);
           Some (sum + val, count + 1)
         }) (0, 0 :: int);
       Some (sum / of_int count)
     })"

definition GetMaxOfDiagonalOfSymmetricMatrix :: "('v :: {ord, zero}, 'f) sparse_matrix \<Rightarrow> 'v option" where
  "GetMaxOfDiagonalOfSymmetricMatrix M =
    (if CSR_I_row_indices M = [] then None else
       for_each [0..<length (CSR_I_row_indices M) - 1] (\<lambda>i vmax. do {
         p \<leftarrow> rd (CSR_I_row_indices M) i;
         v \<leftarrow> rdi (CSR_V_values M) (p - 1);
         Some (if vmax < v then v else vmax)
       }) 0)"

definition SetDiagonalOfSymmetricMatrix :: "'v \<Rightarrow> ('v, 'f) sparse_matrix \<Rightarrow> ('v, 'f) sparse_matrix option" where
  "SetDiagonalOfSymmetricMatrix val M =
    (if CSR_I_row_indices M = [] then None else do {
       vs \<leftarrow> for_each [0..<length (CSR_I_row_indices M) - 1] (\<lambda>i vs. do {
           p \<leftarrow> rd (CSR_I_row_indices M) i;
           wri vs (p - 1) val
         }) (CSR_V_values M);
       Some (M \<lparr> CSR_V_values := vs \<rparr>)
     })"

text \<open>The value at a column of a row.\<close>

definition entry :: "'v \<Rightarrow> (int \<times> 'v) list \<Rightarrow> int \<Rightarrow> 'v" where
  "entry zero row c = (case map_of row c of Some v \<Rightarrow> v | None \<Rightarrow> zero)"

lemma diagonal_entry_rep:
  assumes rep: "csr_rep M rws" and i: "i < length rws" and srt: "sorted (map fst (rws ! i))"
    and ex: "e \<in> set (rws ! i)" "int i < fst e"
  shows "diagonal_entry zero M (int i) = Some (entry zero (rws ! i) (int i + 1))"
proof -
  let ?row = "rws ! i" and ?p = "psum (map length rws) i" and ?v = "int i + 1"
  define k where "k = length (takeWhile (\<lambda>x. x < ?v) (map fst ?row))"
  have k: "k < length ?row"
  proof (rule ccontr)
    assume "\<not> k < length ?row"
    then have "takeWhile (\<lambda>x. x < ?v) (map fst ?row) = map fst ?row"
      unfolding k_def by (metis length_map length_takeWhile_le linorder_le_less_linear
          order_antisym takeWhile_eq_take take_all_iff)
    then have "\<forall>x \<in> set (map fst ?row). x < ?v" by (metis takeWhile_eq_all_conv)
    then show False using ex by fastforce
  qed
  have lo: "fst (?row ! j) < ?v" if "j < k" for j
  proof -
    have "takeWhile (\<lambda>x. x < ?v) (map fst ?row) ! j < ?v"
      using that set_takeWhileD nth_mem unfolding k_def by fastforce
    then show ?thesis using that k takeWhile_nth[of j "\<lambda>x. x < ?v" "map fst ?row"] by (simp add: k_def)
  qed
  have hi: "?v \<le> fst (?row ! k)"
    using nth_length_takeWhile[of "\<lambda>x. x < ?v" "map fst ?row"] k by (simp add: k_def)
  have reads: "rdi (CSR_I_row_indices M) (int i) = Some (csr_ptrs rws ! i)"
    "rdi (CSR_I_row_indices M) (int i + 1) = Some (csr_ptrs rws ! Suc i)"
    using csr_rep_ptrs[OF rep, of i] csr_rep_ptrs[OF rep, of "Suc i"] i by (simp_all add: rdi_def nat_add_distrib)
  have it: "lower_bound (nat (csr_ptrs rws ! i - 1)) (nat (csr_ptrs rws ! Suc i - 1)) ?v (CSR_J_col_indices M) = ?p + k"
    using rep i concat_at_psum[OF i]
    by (simp add: lower_bound_def csr_rep_def csr_ptrs_nth vspan_map k_def)
  have val: "rd (CSR_J_col_indices M) (?p + k) = Some (fst (?row ! k))"
    "rd (CSR_V_values M) (?p + k) = Some (snd (?row ! k))"
    using rep nth_concat_psum[OF i k] nth_concat_bound[OF i k] by (simp_all add: csr_rep_def rd_Some)
  have run: "diagonal_entry zero M (int i) = Some (if fst (?row ! k) = ?v then snd (?row ! k) else zero)"
    using reads it val csr_rep_range[OF rep i] by (simp add: diagonal_entry_def)
  have row: "?row = take k ?row @ ?row ! k # drop (Suc k) ?row"
    using k by (simp add: id_take_nth_drop)
  have none: "map_of (take k ?row) ?v = None"
    using lo k by (force simp: map_of_eq_None_iff in_set_conv_nth)
  show ?thesis
  proof (cases "fst (?row ! k) = ?v")
    case True
    have "map_of ?row ?v = Some (snd (?row ! k))"
      using True none by (subst row) (simp add: map_add_def)
    then show ?thesis using True run by (simp add: entry_def)
  next
    case False
    have gt: "?v < fst (?row ! j)" if "k \<le> j" "j < length ?row" for j
      using hi False sorted_nth_mono[OF srt, of k j] that by simp
    have "?v < fst x" if "x \<in> set (drop k ?row)" for x
    proof -
      obtain j where "j < length ?row - k" "x = ?row ! (k + j)" using \<open>x \<in> set (drop k ?row)\<close>
        by (auto simp: in_set_conv_nth)
      then show ?thesis using gt[of "k + j"] by simp
    qed
    then have "map_of (drop k ?row) ?v = None"
      by (force simp: map_of_eq_None_iff)
    then have "map_of ?row ?v = None"
      using none append_take_drop_id[of k ?row] by (metis map_add_None map_of_append)
    then show ?thesis using False run by (simp add: entry_def)
  qed
qed

text \<open>A row that the searches handle: sorted, with an entry on or right of the diagonal.\<close>

definition reaches_diagonal :: "'v sparse_rows \<Rightarrow> nat \<Rightarrow> bool" where
  "reaches_diagonal rws i \<longleftrightarrow> sorted (map fst (rws ! i)) \<and> list_ex (\<lambda>e. int i < fst e) (rws ! i)"

definition diagonal_of :: "'v \<Rightarrow> 'v sparse_rows \<Rightarrow> 'v list" where
  "diagonal_of zero rws = map (\<lambda>i. entry zero (rws ! i) (int i + 1)) [0..<length rws]"

text \<open>Each search is a fold over the true diagonal.\<close>

lemma diagonal_loop:
  assumes wf: "csr_wf M" and "list_all (reaches_diagonal (csr_rows M)) [0..<length (csr_rows M)]"
  shows "for_each [0..rows M - 1] (\<lambda>i s. do { v \<leftarrow> diagonal_entry zero M i; Some (f v s) }) s =
    Some (fold f (diagonal_of zero (csr_rows M)) s)"
proof -
  have rows: "rows M = int (nat (rows M))" using wf by (simp add: csr_wf_def)
  have "for_each [0..rows M - 1] (\<lambda>i s. do { v \<leftarrow> diagonal_entry zero M i; Some (f v s) }) s =
      for_each [0..<nat (rows M)] (\<lambda>i s. do { v \<leftarrow> diagonal_entry zero M (int i); Some (f v s) }) s"
    using upto_shift[of 0 "nat (rows M)"] rows by (simp add: for_each_map)
  also have "\<dots> = Some (fold (\<lambda>i. f (entry zero (csr_rows M ! i) (int i + 1))) [0..<nat (rows M)] s)"
  proof (rule for_each_pure)
    fix i t assume "i \<in> set [0..<nat (rows M)]"
    then have i: "i < length (csr_rows M)" "reaches_diagonal (csr_rows M) i"
      using assms(2) by (auto simp: list_all_iff)
    then show "do { v \<leftarrow> diagonal_entry zero M (int i); Some (f v t) } =
        Some (f (entry zero (csr_rows M ! i) (int i + 1)) t)"
      using diagonal_entry_rep[OF csr_wf_rep[OF wf] i(1)]
      by (auto simp: reaches_diagonal_def list_ex_iff)
  qed
  finally show ?thesis by (simp add: diagonal_of_def fold_map comp_def)
qed

lemma fold_snoc: "fold (\<lambda>v vs. vs @ [v]) xs ys = ys @ xs"
  by (induction xs arbitrary: ys) auto

text \<open>
  C28: When every row is sorted and has an entry on or right of its diagonal, the searches of
  \<^verbatim>\<open>getDiagonal\<close> and of the two maxima find the diagonal, with zero where it is not stored.
\<close>

theorem getDiagonal_correct:
  fixes M :: "('v :: linordered_idom, 'f) sparse_matrix"
  assumes "csr_wf M" and "list_all (reaches_diagonal (csr_rows M)) [0..<length (csr_rows M)]"
  shows "getDiagonal 0 M = Some (diagonal_of 0 (csr_rows M)) \<and>
    getDiagonalMaximum lowest 0 M = Some (fold max (diagonal_of 0 (csr_rows M)) lowest) \<and>
    getDiagonalAbsMaximum M = Some (fold max (map abs (diagonal_of 0 (csr_rows M))) 0)"
proof -
  have "(\<lambda>tmp m. if m < tmp then tmp else m) = (max :: 'v \<Rightarrow> 'v \<Rightarrow> 'v)"
    by (intro ext) (simp add: max_def)
  moreover have "(\<lambda>tmp m. if m < \<bar>tmp\<bar> then \<bar>tmp\<bar> else m) = (\<lambda>tmp. max \<bar>tmp :: 'v\<bar>)"
    by (intro ext) (simp add: max_def)
  ultimately show ?thesis
    using diagonal_loop[OF assms, of 0 "\<lambda>v d. d @ [v]" "[]"]
      diagonal_loop[OF assms, of 0 "\<lambda>tmp m. if m < tmp then tmp else m" lowest]
      diagonal_loop[OF assms, of 0 "\<lambda>tmp m. if m < \<bar>tmp\<bar> then \<bar>tmp\<bar> else m" 0]
    by (simp add: getDiagonal_def getDiagonalMaximum_def getDiagonalAbsMaximum_def fold_snoc fold_map comp_def)
qed

lemma getDiagonal_correct_witness:
  "getDiagonal 0 example_csr = Some (diagonal_of 0 (csr_rows example_csr)) \<and>
    getDiagonalMaximum (- 1000) 0 example_csr = Some (fold max (diagonal_of 0 (csr_rows example_csr)) (- 1000)) \<and>
    getDiagonalAbsMaximum example_csr = Some (fold max (map abs (diagonal_of 0 (csr_rows example_csr))) 0)"
  by (rule getDiagonal_correct)
    (simp_all add: example_csr_facts csr_rep_rows[OF example_csr_rep] reaches_diagonal_def numeral_eq_Suc)

text \<open>
  Without such an entry \<^verbatim>\<open>getDiagonal\<close> takes the first entry of the next row for the
  diagonal, or reads behind the last column index.
\<close>

definition no_diagonal :: "int sparse_rows \<Rightarrow> (int, int) sparse_matrix" where
  "no_diagonal rws = sm_new \<lparr> rows := int (length rws), cols := int (length rws), nnz := int (length (concat rws)),
     CSR_I_row_indices := csr_ptrs rws, CSR_J_col_indices := map fst (concat rws),
     CSR_V_values := map snd (concat rws) \<rparr>"

theorem getDiagonal_reads_next_row:
  "csr_wf (no_diagonal [[], [(1, 7), (2, 5)]]) \<and> csr_wf (no_diagonal [[(1, 5)], [(1, 3)]]) \<and>
   diagonal_of 0 (csr_rows (no_diagonal [[], [(1, 7), (2, 5)]])) = [0, 5] \<and>
   getDiagonal 0 (no_diagonal [[], [(1, 7), (2, 5)]]) = Some [7, 5] \<and>
   getDiagonal 0 (no_diagonal [[(1, 5)], [(1, 3)]]) = None"
  by code_simp

lemma first_entry:
  assumes "csr_rep M rws" and "i < length rws" and "rws ! i \<noteq> []"
  shows "csr_ptrs rws ! i - 1 = int (psum (map length rws) i)"
    and "psum (map length rws) i < length (CSR_V_values M)"
    and "CSR_V_values M ! psum (map length rws) i = snd (hd (rws ! i))"
proof -
  have c: "0 < length (rws ! i)" using assms(3) by simp
  show "csr_ptrs rws ! i - 1 = int (psum (map length rws) i)" using assms(2) by (simp add: csr_ptrs_nth)
  show "psum (map length rws) i < length (CSR_V_values M)"
    and "CSR_V_values M ! psum (map length rws) i = snd (hd (rws ! i))"
    using nth_concat_bound[OF assms(2) c] nth_concat_psum[OF assms(2) c] assms(1,3)
    by (simp_all add: csr_rep_def hd_conv_nth)
qed

lemma fold_nth: "fold (\<lambda>i. f (xs ! i)) [0..<length xs] s = fold f xs s"
proof -
  have "fold f xs s = fold f (map ((!) xs) [0..<length xs]) s" by (simp add: map_nth)
  then show ?thesis by (simp add: fold_map comp_def del: map_nth)
qed

lemma GetMaxOfDiagonal_rep:
  fixes M :: "('v :: {linorder, zero}, 'f) sparse_matrix"
  assumes rep: "csr_rep M rws" and ne: "\<forall>row \<in> set rws. row \<noteq> []"
  shows "GetMaxOfDiagonalOfSymmetricMatrix M = Some (fold max (map (snd \<circ> hd) rws) 0)"
proof -
  have n: "length (CSR_I_row_indices M) = Suc (length rws)" using rep by (simp add: csr_rep_def)
  have "for_each [0..<length rws] (\<lambda>i vmax. do {
         p \<leftarrow> rd (CSR_I_row_indices M) i;
         v \<leftarrow> rdi (CSR_V_values M) (p - 1);
         Some (if vmax < v then v else vmax) }) 0 =
      Some (fold (\<lambda>i. max (snd (hd (rws ! i)))) [0..<length rws] 0)"
  proof (rule for_each_pure)
    fix i t assume "i \<in> set [0..<length rws]"
    then have i: "i < length rws" "rws ! i \<noteq> []" using ne by auto
    show "do { p \<leftarrow> rd (CSR_I_row_indices M) i; v \<leftarrow> rdi (CSR_V_values M) (p - 1);
         Some (if t < v then v else t) } = Some (max (snd (hd (rws ! i))) t)"
      using csr_rep_ptrs[OF rep, of i] first_entry[OF rep i] i(1)
      by (auto simp: rdi_of_nat rd_Some max_def)
  qed
  moreover have "fold (\<lambda>i. max (snd (hd (rws ! i)))) [0..<length rws] 0 = fold max (map (snd \<circ> hd) rws) 0"
    using fold_nth[of "\<lambda>row. max (snd (hd row))" rws 0] by (simp add: fold_map comp_def)
  ultimately show ?thesis using n by (auto simp: GetMaxOfDiagonalOfSymmetricMatrix_def)
qed

lemma GetMeanOfDiagonal_rep:
  fixes M :: "('v :: field, 'f) sparse_matrix"
  assumes rep: "csr_rep M rws" and ne: "\<forall>row \<in> set rws. row \<noteq> []"
  shows "GetMeanOfDiagonalOfSymmetricMatrix M =
    Some (sum_list (map (snd \<circ> hd) rws) / of_nat (length rws))"
proof -
  have n: "length (CSR_I_row_indices M) = Suc (length rws)" using rep by (simp add: csr_rep_def)
  let ?body = "\<lambda>i (sum, count). do {
           p \<leftarrow> rd (CSR_I_row_indices M) i;
           val \<leftarrow> rdi (CSR_V_values M) (p - 1);
           Some (sum + val, count + 1) }"
  define inv where "inv = (\<lambda>i (s, c). s = sum_list (map (snd \<circ> hd) (take i rws)) \<and> c = int i)"
  have "\<exists>t. for_each [0..<length rws] ?body (0, 0) = Some t \<and> inv (length rws) t"
  proof (rule for_each_upt[where I = inv])
    fix i t assume i: "i < length rws" and t: "inv i t"
    have "rws ! i \<noteq> []" using ne i by auto
    with i t show "\<exists>u. ?body i t = Some u \<and> inv (Suc i) u"
      using csr_rep_ptrs[OF rep, of i] first_entry[OF rep i]
      by (cases t) (auto simp: rdi_of_nat rd_Some inv_def take_Suc_conv_app_nth)
  qed (auto simp: inv_def)
  then show ?thesis using n
    by (auto simp: GetMeanOfDiagonalOfSymmetricMatrix_def inv_def)
qed

definition set_first :: "'v \<Rightarrow> (int \<times> 'v) list \<Rightarrow> (int \<times> 'v) list" where
  "set_first val row = (fst (hd row), val) # tl row"

lemma SetDiagonal_rep:
  assumes rep: "csr_rep M rws" and ne: "\<forall>row \<in> set rws. row \<noteq> []"
  shows "\<exists>N. SetDiagonalOfSymmetricMatrix val M = Some N \<and> csr_rep N (map (set_first val) rws)"
proof -
  have n: "length (CSR_I_row_indices M) = Suc (length rws)" using rep by (simp add: csr_rep_def)
  let ?body = "\<lambda>i vs. do { p \<leftarrow> rd (CSR_I_row_indices M) i; wri vs (p - 1) val }"
  let ?rows = "\<lambda>i. map (set_first val) (take i rws) @ drop i rws"
  have len_take: "map length (map (set_first val) (take i rws)) = map length (take i rws)" for i
    using ne by (auto simp: set_first_def dest: in_set_takeD)
  define inv where "inv = (\<lambda>i vs. vs = map snd (concat (?rows i)))"
  have "\<exists>t. for_each [0..<length rws] ?body (CSR_V_values M) = Some t \<and> inv (length rws) t"
  proof (rule for_each_upt[where I = inv])
    show "inv 0 (CSR_V_values M)" using rep by (simp add: inv_def csr_rep_def)
    fix i vs assume i: "i < length rws" and vs: "inv i vs"
    obtain e r where row: "rws ! i = e # r" using ne i by (metis list.exhaust nth_mem)
    have d: "drop i rws = (e # r) # drop (Suc i) rws" using i row by (metis Cons_nth_drop_Suc)
    let ?pre = "map snd (concat (map (set_first val) (take i rws)))"
    have len: "psum (map length rws) i = length ?pre"
      using len_take[of i] by (simp add: psum_def length_concat take_map del: map_map)
    have old: "vs = ?pre @ snd e # map snd (r @ concat (drop (Suc i) rws))"
      using vs d by (simp add: inv_def)
    moreover have "vs[psum (map length rws) i := val] = ?pre @ val # map snd (r @ concat (drop (Suc i) rws))"
      unfolding old len by (rule list_update_length)
    moreover have "psum (map length rws) i < length vs" unfolding old len by simp
    moreover have "map snd (concat (?rows (Suc i))) = ?pre @ val # map snd (r @ concat (drop (Suc i) rws))"
      using i row by (simp add: take_Suc_conv_app_nth set_first_def)
    ultimately show "\<exists>u. ?body i vs = Some u \<and> inv (Suc i) u"
      using csr_rep_ptrs[OF rep, of i] i first_entry(1)[OF rep i] row
      by (simp add: inv_def wri_def wr_Some)
  qed simp
  then obtain vs where run: "for_each [0..<length rws] ?body (CSR_V_values M) = Some vs"
    and "inv (length rws) vs" by blast
  then have vs: "vs = map snd (concat (map (set_first val) rws))" by (simp add: inv_def)
  have fsts: "map fst (concat (map (set_first val) rws)) = map fst (concat rws)"
    using ne by (induction rws) (auto simp: set_first_def neq_Nil_conv)
  have cnt: "length (concat (map (set_first val) rws)) = length (concat rws)"
    using arg_cong[OF fsts, of length] by simp
  then have ptrs: "csr_ptrs (map (set_first val) rws) = csr_ptrs rws"
    using len_take[of "length rws"] by (simp add: csr_ptrs_def csr_starts_def del: map_map)
  have "list_all (\<lambda>c. 1 \<le> c \<and> c \<le> cols M) (map fst (concat rws))"
    using rep by (simp add: csr_rep_def list_all_iff)
  then have "list_all (\<lambda>e. 1 \<le> fst e \<and> fst e \<le> cols M) (concat (map (set_first val) rws))"
    unfolding fsts[symmetric] by (simp add: list_all_iff del: set_concat)
  then show ?thesis
    using run n rep fsts vs cnt ptrs csr_ptrs_def[of rws]
    by (auto simp: SetDiagonalOfSymmetricMatrix_def csr_rep_def)
qed

text \<open>
  On a matrix whose rows all start with their diagonal entry, as \<^verbatim>\<open>RemoveLower\<close> leaves them,
  the accesses of the symmetric format read and overwrite exactly the first entry of each row.
\<close>

theorem symmetric_diagonal_correct:
  fixes M :: "('v :: linordered_field, 'f) sparse_matrix"
  assumes "csr_wf M" and "list_all (\<lambda>row. row \<noteq> []) (csr_rows M)"
  shows "GetMaxOfDiagonalOfSymmetricMatrix M = Some (fold max (map (snd \<circ> hd) (csr_rows M)) 0) \<and>
    GetMeanOfDiagonalOfSymmetricMatrix M =
      Some (sum_list (map (snd \<circ> hd) (csr_rows M)) / of_nat (length (csr_rows M))) \<and>
    (\<exists>N. SetDiagonalOfSymmetricMatrix val M = Some N \<and> csr_wf N \<and>
      csr_rows N = map (set_first val) (csr_rows M))"
proof -
  have ne: "\<forall>row \<in> set (csr_rows M). row \<noteq> []" using assms(2) by (simp add: list_all_iff)
  note rep = csr_wf_rep[OF assms(1)]
  show ?thesis
    using GetMaxOfDiagonal_rep[OF rep ne] GetMeanOfDiagonal_rep[OF rep ne] SetDiagonal_rep[OF rep ne, of val]
      csr_rep_iff by metis
qed

definition example_upper :: "(real, real) sparse_matrix" where
  "example_upper = sm_new \<lparr> rows := 2, cols := 2, nnz := 3, CSR_I_row_indices := [1, 3, 4],
     CSR_J_col_indices := [1, 2, 2], CSR_V_values := [4, 1, 6] \<rparr>"

lemma example_upper_rep: "csr_rep example_upper [[(1, 4), (2, 1)], [(2, 6)]]"
  by (simp add: csr_rep_def example_upper_def sm_new_def csr_ptrs_def csr_starts_def psum_def upt_rec)

lemma symmetric_diagonal_correct_witness:
  "GetMaxOfDiagonalOfSymmetricMatrix example_upper = Some (fold max (map (snd \<circ> hd) (csr_rows example_upper)) 0) \<and>
    GetMeanOfDiagonalOfSymmetricMatrix example_upper =
      Some (sum_list (map (snd \<circ> hd) (csr_rows example_upper)) / of_nat (length (csr_rows example_upper))) \<and>
    (\<exists>N. SetDiagonalOfSymmetricMatrix 9 example_upper = Some N \<and> csr_wf N \<and>
      csr_rows N = map (set_first 9) (csr_rows example_upper))"
  by (rule symmetric_diagonal_correct)
    (simp_all add: csr_rep_wf[OF example_upper_rep] csr_rep_rows[OF example_upper_rep])

end
