(* ===== verification/SparseConvert.thy ===== *)
theory SparseConvert
  imports CooSort SparseEdit
begin

text \<open>
  Conversions between the formats of \<^verbatim>\<open>SparseMatrix.cpp\<close>, the matrices built from them, and
  transposition.  The conversions themselves are MKL routines, which are parameters here:
  \<open>csrcoo2\<close> and \<open>csrcoo0\<close> are \<^verbatim>\<open>mkl_dcsrcoo\<close> with \<^verbatim>\<open>job[0]\<close> 2 and 0, \<open>csrcsc\<close> is
  \<^verbatim>\<open>mkl_dcsrcsc\<close> on a square matrix; the locale \<open>mkl\<close> states what is documented of them.
\<close>

type_synonym 'v csr = "int list \<times> int list \<times> 'v list"

section \<open>Triples\<close>

definition csr_arrays :: "'v sparse_rows \<Rightarrow> 'v csr" where
  "csr_arrays rws = (csr_ptrs rws, map fst (concat rws), map snd (concat rws))"

definition row_triples :: "nat \<times> (int \<times> 'v) list \<Rightarrow> (position \<times> 'v) list" where
  "row_triples = (\<lambda>(r, row). map (\<lambda>e. (At (int r + 1) (fst e), snd e)) row)"

text \<open>The entries of a matrix with their one-based positions.\<close>

definition csr_triples :: "'v sparse_rows \<Rightarrow> (position \<times> 'v) list" where
  "csr_triples rws = concat (map row_triples (enumerate 0 rws))"

definition flip :: "position \<times> 'v \<Rightarrow> position \<times> 'v" where
  "flip e = (At (col_of (fst e)) (row_of (fst e)), snd e)"

lemma flip_flip [simp]: "flip (flip e) = e"
  by (cases e) (simp add: flip_def)

lemma csr_triples_snoc: "csr_triples (rws @ [row]) = csr_triples rws @ row_triples (length rws, row)"
  by (simp add: csr_triples_def enumerate_snoc)

lemma csr_triples_pad [simp]: "csr_triples (rws @ replicate k []) = csr_triples rws"
proof (induction k)
  case (Suc k)
  have "rws @ replicate (Suc k) [] = (rws @ replicate k []) @ [[]]" by (simp add: replicate_append_same)
  then show ?case using Suc by (simp only: csr_triples_snoc) (simp add: row_triples_def)
qed simp

lemma in_csr_triples:
  "x \<in> set (csr_triples rws) \<longleftrightarrow> (\<exists>r < length rws. \<exists>e \<in> set (rws ! r). x = (At (int r + 1) (fst e), snd e))"
proof (induction rws rule: rev_induct)
  case (snoc row rws)
  have "(\<exists>r < Suc n. P r) = ((\<exists>r < n. P r) \<or> P n)" for P and n :: nat
    using less_Suc_eq by auto
  with snoc show ?case
    by (auto simp: csr_triples_snoc row_triples_def nth_append)
qed (simp add: csr_triples_def)

lemma length_csr_triples [simp]: "length (csr_triples rws) = length (concat rws)"
  by (induction rws rule: rev_induct) (auto simp: csr_triples_snoc row_triples_def, simp add: csr_triples_def)

section \<open>The code\<close>

definition ConvertToCSRwithSort ::
  "(int \<Rightarrow> 'v coo \<Rightarrow> 'v csr) \<Rightarrow> int \<Rightarrow> ('v, 'f) sparse_matrix \<Rightarrow> ('v, 'f) sparse_matrix option" where
  "ConvertToCSRwithSort csrcoo2 clearCOO M =
    (if nnz M < 0 \<or> rows M + 1 < 0 then None else do {
       v \<leftarrow> range_i (V_values M) 0 (nnz M);
       i \<leftarrow> range_i (I_row_indices M) 0 (nnz M);
       j \<leftarrow> range_i (J_col_indices M) 0 (nnz M);
       let (is, js, vs) = csrcoo2 (rows M) (i, j, v);
       let M = M \<lparr> CSR_I_row_indices := is, CSR_J_col_indices := js, CSR_V_values := vs \<rparr>;
       Some (if clearCOO = 1
         then M \<lparr> V_values := [], I_row_indices := [], J_col_indices := [] \<rparr> else M)
     })"

text \<open>The body of \<^verbatim>\<open>ConvertToCSR\<close> repeats that of \<^verbatim>\<open>ConvertToCSRwithSort\<close>.\<close>

definition ConvertToCSR ::
  "(int \<Rightarrow> 'v coo \<Rightarrow> 'v csr) \<Rightarrow> int \<Rightarrow> ('v, 'f) sparse_matrix \<Rightarrow> ('v, 'f) sparse_matrix option" where
  "ConvertToCSR csrcoo2 clearCOO M =
    (if nnz M < 0 \<or> rows M + 1 < 0 then None else do {
       v \<leftarrow> range_i (V_values M) 0 (nnz M);
       i \<leftarrow> range_i (I_row_indices M) 0 (nnz M);
       j \<leftarrow> range_i (J_col_indices M) 0 (nnz M);
       let (is, js, vs) = csrcoo2 (rows M) (i, j, v);
       let M = M \<lparr> CSR_I_row_indices := is, CSR_J_col_indices := js, CSR_V_values := vs \<rparr>;
       Some (if clearCOO = 1
         then M \<lparr> V_values := [], I_row_indices := [], J_col_indices := [] \<rparr> else M)
     })"

definition ConvertToCOO ::
  "'v \<Rightarrow> (int \<Rightarrow> 'v csr \<Rightarrow> 'v coo) \<Rightarrow> int \<Rightarrow> ('v, 'f) sparse_matrix \<Rightarrow> ('v, 'f) sparse_matrix option" where
  "ConvertToCOO zero csrcoo0 clearCSR M = do {
     v \<leftarrow> vresize (nnz M) zero (V_values M);
     j \<leftarrow> vresize (nnz M) 0 (J_col_indices M);
     i \<leftarrow> vresize (nnz M) 0 (I_row_indices M);
     let M = M \<lparr> V_values := v, J_col_indices := j, I_row_indices := i \<rparr>;
     if \<not> (rows M \<noteq> 0 \<and> cols M \<noteq> 0) then Some M
     else do {
       let (is, js, vs) = csrcoo0 (rows M) (CSR_I_row_indices M, CSR_J_col_indices M, CSR_V_values M);
       let M = M \<lparr> I_row_indices := is, J_col_indices := js, V_values := vs \<rparr>;
       Some (if clearCSR = 1
         then M \<lparr> CSR_I_row_indices := [], CSR_J_col_indices := [], CSR_V_values := [] \<rparr> else M)
     }
   }"

definition CreateEye ::
  "(int \<Rightarrow> 'v coo \<Rightarrow> 'v csr) \<Rightarrow> int \<Rightarrow> 'v \<Rightarrow> int \<Rightarrow> int \<Rightarrow> ('v, 'f) sparse_matrix \<Rightarrow> ('v, 'f) sparse_matrix option" where
  "CreateEye csrcoo2 n val offset_row offset_col M =
     ConvertToCSR csrcoo2 1 (M \<lparr>
       J_col_indices := J_col_indices M @ map (\<lambda>i. offset_col + i + 1) [0..n - 1],
       I_row_indices := I_row_indices M @ map (\<lambda>i. offset_row + i + 1) [0..n - 1],
       V_values := V_values M @ map (\<lambda>i. val) [0..n - 1],
       rows := offset_row + n, cols := offset_col + n, nnz := n,
       mat_type := CHR ''G'', mtype := REAL_UNSYMMETRIC \<rparr>)"

text \<open>The overload without offsets puts 1.0 on the diagonal.\<close>

definition CreateEye_unit ::
  "(int \<Rightarrow> 'v coo \<Rightarrow> 'v csr) \<Rightarrow> int \<Rightarrow> ('v :: one, 'f) sparse_matrix \<Rightarrow> ('v, 'f) sparse_matrix option" where
  "CreateEye_unit csrcoo2 n M =
     ConvertToCSR csrcoo2 1 (M \<lparr>
       J_col_indices := J_col_indices M @ map (\<lambda>i. i + 1) [0..n - 1],
       I_row_indices := I_row_indices M @ map (\<lambda>i. i + 1) [0..n - 1],
       V_values := V_values M @ map (\<lambda>i. 1) [0..n - 1],
       rows := n, cols := n, nnz := n, mat_type := CHR ''G'', mtype := REAL_UNSYMMETRIC \<rparr>)"

definition TestEye ::
  "(int \<Rightarrow> 'v coo \<Rightarrow> 'v csr) \<Rightarrow> int \<Rightarrow> ('v :: ring_1, 'f) sparse_matrix \<Rightarrow> ('v, 'f) sparse_matrix option" where
  "TestEye csrcoo2 n M =
     ConvertToCSR csrcoo2 1 (M \<lparr>
       J_col_indices := J_col_indices M @ map (\<lambda>i. i + 1) [0..n - 1],
       I_row_indices := I_row_indices M @ map (\<lambda>i. i + 1) [0..n - 1],
       V_values := V_values M @ map (\<lambda>i. of_int i + 1) [0..n - 1],
       rows := n, cols := n, nnz := n, mat_type := CHR ''G'', mtype := REAL_UNSYMMETRIC \<rparr>)"

definition TestMatRow ::
  "(int \<Rightarrow> 'v coo \<Rightarrow> 'v csr) \<Rightarrow> int \<Rightarrow> int \<Rightarrow> ('v :: ring_1, 'f) sparse_matrix \<Rightarrow> ('v, 'f) sparse_matrix option" where
  "TestMatRow csrcoo2 n row_index M =
     ConvertToCSR csrcoo2 1 (M \<lparr>
       J_col_indices := J_col_indices M @ map (\<lambda>i. i + 1) [0..n - 1],
       I_row_indices := I_row_indices M @ map (\<lambda>i. row_index) [0..n - 1],
       V_values := V_values M @ map (\<lambda>i. of_int i + 1) [0..n - 1],
       rows := n, cols := n, nnz := n, mat_type := CHR ''G'' \<rparr>)"

definition MatTransposeCOO :: "('v, 'f) sparse_matrix \<Rightarrow> ('v, 'f) sparse_matrix" where
  "MatTransposeCOO M = M \<lparr> I_row_indices := J_col_indices M, J_col_indices := I_row_indices M,
     rows := cols M, cols := rows M \<rparr>"

text \<open>Transposition in place.\<close>

definition MatTranspose ::
  "(int \<Rightarrow> 'v csr \<Rightarrow> 'v csr) \<Rightarrow> ('v, 'f) sparse_matrix \<Rightarrow> ('v, 'f) sparse_matrix option" where
  "MatTranspose csrcsc M = do {
     is \<leftarrow> (if cols M > rows M then do {
         x \<leftarrow> rdi (CSR_I_row_indices M) (int (length (CSR_I_row_indices M)) - 1);
         vresize (cols M + 1) x (CSR_I_row_indices M)
       } else Some (CSR_I_row_indices M));
     let m = (if cols M > rows M then cols M else rows M);
     let M = M \<lparr> rows := cols M, cols := rows M \<rparr>;
     let (tis, tjs, tvs) = csrcsc m (is, CSR_J_col_indices M, CSR_V_values M);
     tis \<leftarrow> (if cols M > rows M then vresize (rows M + 1) 0 tis else Some tis);
     Some (M \<lparr> CSR_I_row_indices := tis, CSR_J_col_indices := tjs, CSR_V_values := tvs \<rparr>)
   }"

text \<open>Transposition into \<open>A_out\<close>; the row pointers of the source are padded meanwhile.\<close>

definition MatTranspose_to ::
  "(int \<Rightarrow> 'v csr \<Rightarrow> 'v csr) \<Rightarrow> ('v, 'f) sparse_matrix \<Rightarrow> ('v, 'f) sparse_matrix \<Rightarrow>
     (('v, 'f) sparse_matrix \<times> ('v, 'f) sparse_matrix) option" where
  "MatTranspose_to csrcsc M A_out = do {
     let row_size_backup = int (length (CSR_I_row_indices M));
     is \<leftarrow> (if cols M > rows M then do {
         x \<leftarrow> rdi (CSR_I_row_indices M) (int (length (CSR_I_row_indices M)) - 1);
         vresize (cols M + 1) x (CSR_I_row_indices M)
       } else Some (CSR_I_row_indices M));
     let m = (if cols M > rows M then cols M else rows M);
     let (ois, ojs, ovs) = csrcsc m (is, CSR_J_col_indices M, CSR_V_values M);
     is \<leftarrow> (if cols M > rows M then vresize row_size_backup 0 is else Some is);
     ois \<leftarrow> (if cols M > rows M then Some ois else vresize (cols M + 1) 0 ois);
     Some (M \<lparr> CSR_I_row_indices := is \<rparr>,
       A_out \<lparr> cols := rows M, rows := cols M, nnz := nnz M, mat_type := mat_type M,
         CSR_I_row_indices := ois, CSR_J_col_indices := ojs, CSR_V_values := ovs \<rparr>)
   }"

section \<open>What is documented of MKL\<close>

text \<open>
  On one-based indices inside the matrix: conversion to CSR keeps the triples and sorts every
  row by column; conversion to coordinates lists the entries row by row; conversion of a
  square matrix to compressed columns gives the rows of the transposed matrix.
\<close>

locale mkl =
  fixes csrcoo2 :: "int \<Rightarrow> 'v coo \<Rightarrow> 'v csr"
    and csrcoo0 :: "int \<Rightarrow> 'v csr \<Rightarrow> 'v coo"
    and csrcsc :: "int \<Rightarrow> 'v csr \<Rightarrow> 'v csr"
  assumes coo_to_csr: "coo_wf k (i, j, v) \<Longrightarrow> \<forall>x \<in> set i. 1 \<le> x \<and> x \<le> int n \<Longrightarrow>
      \<exists>rws. csrcoo2 (int n) (i, j, v) = csr_arrays rws \<and> length rws = n \<and>
        mset (csr_triples rws) = mset (entries (i, j, v)) \<and> (\<forall>row \<in> set rws. sorted (map fst row))"
    and csr_to_coo: "coo_wf (length (concat rws)) (csrcoo0 (int (length rws)) (csr_arrays rws)) \<and>
      entries (csrcoo0 (int (length rws)) (csr_arrays rws)) = csr_triples rws"
    and csr_to_csc: "\<forall>x \<in> set (csr_triples rws). 1 \<le> col_of (fst x) \<and> col_of (fst x) \<le> int (length rws) \<Longrightarrow>
      \<exists>out. csrcsc (int (length rws)) (csr_arrays rws) = csr_arrays out \<and> length out = length rws \<and>
        mset (csr_triples out) = mset (map flip (csr_triples rws))"

text \<open>An implementation of the three routines, by sorting the triples into rows.\<close>

definition bucket :: "nat \<Rightarrow> (position \<times> 'v) list \<Rightarrow> 'v sparse_rows" where
  "bucket n es = map (\<lambda>r. map (\<lambda>e. (col_of (fst e), snd e)) (filter (\<lambda>e. row_of (fst e) = int r + 1) es)) [0..<n]"

definition rows_of_csr :: "int \<Rightarrow> 'v csr \<Rightarrow> 'v sparse_rows" where
  "rows_of_csr n = (\<lambda>(is, js, vs). csr_rows ((sm_new :: ('v, unit) sparse_matrix)
     \<lparr> rows := n, CSR_I_row_indices := is, CSR_J_col_indices := js, CSR_V_values := vs \<rparr>))"

definition ref_csrcoo2 :: "int \<Rightarrow> 'v coo \<Rightarrow> 'v csr" where
  "ref_csrcoo2 n m = csr_arrays (map (sort_key fst) (bucket (nat n) (entries m)))"

definition ref_csrcoo0 :: "int \<Rightarrow> 'v csr \<Rightarrow> 'v coo" where
  "ref_csrcoo0 n m = (let es = csr_triples (rows_of_csr n m) in
     (map (row_of \<circ> fst) es, map (col_of \<circ> fst) es, map snd es))"

definition ref_csrcsc :: "int \<Rightarrow> 'v csr \<Rightarrow> 'v csr" where
  "ref_csrcsc n m = csr_arrays (bucket (nat n) (map flip (csr_triples (rows_of_csr n m))))"

lemma rows_of_csr_arrays [simp]: "rows_of_csr (int (length rws)) (csr_arrays rws) = rws"
proof (rule nth_equalityI)
  show "length (rows_of_csr (int (length rws)) (csr_arrays rws)) = length rws"
    by (simp add: rows_of_csr_def csr_arrays_def)
  fix r assume "r < length (rows_of_csr (int (length rws)) (csr_arrays rws))"
  then have "r < length rws" by (simp add: rows_of_csr_def csr_arrays_def)
  then show "rows_of_csr (int (length rws)) (csr_arrays rws) ! r = rws ! r"
    by (simp add: rows_of_csr_def csr_arrays_def csr_rows_def csr_ptrs_nth vspan_map zip_map_fst_snd concat_at_psum)
qed

lemma row_triples_bucket:
  "row_triples (r, map (\<lambda>e. (col_of (fst e), snd e)) (filter (\<lambda>e. row_of (fst e) = int r + 1) es)) =
   filter (\<lambda>e. row_of (fst e) = int r + 1) es"
  by (induction es) (auto simp: row_triples_def intro: prod_eqI position.expand)

lemma mset_csr_triples_rows:
  assumes "length rws = length rws'" and "\<And>r. r < length rws \<Longrightarrow> mset (rws ! r) = mset (rws' ! r)"
  shows "mset (csr_triples rws) = mset (csr_triples rws')"
  using assms
proof (induction rws arbitrary: rws' rule: rev_induct)
  case (snoc x xs)
  then obtain ys y where rws': "rws' = ys @ [y]" by (cases rws' rule: rev_cases) auto
  have "mset (xs ! r) = mset (ys ! r)" if "r < length xs" for r
    using snoc.prems(1) snoc.prems(2)[of r] that by (simp add: nth_append rws')
  then have "mset (csr_triples xs) = mset (csr_triples ys)"
    using snoc.IH[of ys] snoc.prems(1) by (simp add: rws')
  moreover have "mset x = mset y"
    using snoc.prems(1) snoc.prems(2)[of "length xs"] by (simp add: rws' nth_append)
  ultimately show ?case
    using snoc.prems(1) by (simp add: csr_triples_snoc row_triples_def rws')
qed auto

lemma mset_bucket_upto:
  "mset (csr_triples (bucket n es)) = filter_mset (\<lambda>e. 1 \<le> row_of (fst e) \<and> row_of (fst e) \<le> int n) (mset es)"
proof (induction n)
  case 0
  then show ?case by (simp add: bucket_def csr_triples_def)
next
  case (Suc n)
  have split: "(1 \<le> row_of (fst e) \<and> row_of (fst e) \<le> int (Suc n)) =
      ((1 \<le> row_of (fst e) \<and> row_of (fst e) \<le> int n) \<or> row_of (fst e) = int n + 1)" for e :: "position \<times> 'a"
    by auto
  have "mset (csr_triples (bucket (Suc n) es)) = mset (csr_triples (bucket n es)) +
      filter_mset (\<lambda>e. row_of (fst e) = int n + 1) (mset es)"
    by (simp add: bucket_def csr_triples_snoc row_triples_bucket mset_filter)
  also have "\<dots> = filter_mset (\<lambda>e. 1 \<le> row_of (fst e) \<and> row_of (fst e) \<le> int (Suc n)) (mset es)"
    unfolding Suc.IH by (rule multiset_eqI) (auto simp: split)
  finally show ?case .
qed

lemma mset_bucket:
  assumes "\<forall>e \<in> set es. 1 \<le> row_of (fst e) \<and> row_of (fst e) \<le> int n"
  shows "mset (csr_triples (bucket n es)) = mset es"
proof -
  have "filter_mset (\<lambda>e. 1 \<le> row_of (fst e) \<and> row_of (fst e) \<le> int n) (mset es) = mset es"
    using assms by (intro filter_mset_eq_conv[THEN iffD2]) auto
  then show ?thesis by (simp add: mset_bucket_upto)
qed

interpretation ref: mkl ref_csrcoo2 ref_csrcoo0 ref_csrcsc
proof
  fix k i j n and v :: "'v list"
  assume wf: "coo_wf k (i, j, v)" and i: "\<forall>x \<in> set i. 1 \<le> x \<and> x \<le> int n"
  have in_rows: "\<forall>e \<in> set (entries (i, j, v)). 1 \<le> row_of (fst e) \<and> row_of (fst e) \<le> int n"
    using i by (auto simp: entries_def dest!: set_zip_leftD)
  have "mset (csr_triples (map (sort_key fst) (bucket n (entries (i, j, v))))) = mset (entries (i, j, v))"
    using mset_bucket[OF in_rows] mset_csr_triples_rows[of "map (sort_key fst) (bucket n (entries (i, j, v)))"
        "bucket n (entries (i, j, v))"] by (simp add: bucket_def)
  then show "\<exists>rws. ref_csrcoo2 (int n) (i, j, v) = csr_arrays rws \<and> length rws = n \<and>
        mset (csr_triples rws) = mset (entries (i, j, v)) \<and> (\<forall>row \<in> set rws. sorted (map fst row))"
    by (intro exI[of _ "map (sort_key fst) (bucket n (entries (i, j, v)))"])
      (auto simp: ref_csrcoo2_def bucket_def)
next
  fix rws :: "'v sparse_rows"
  show "coo_wf (length (concat rws)) (ref_csrcoo0 (int (length rws)) (csr_arrays rws)) \<and>
      entries (ref_csrcoo0 (int (length rws)) (csr_arrays rws)) = csr_triples rws"
    by (auto simp: ref_csrcoo0_def Let_def coo_wf_def entries_def list_eq_iff_nth_eq intro!: prod_eqI position.expand)
next
  fix rws :: "'v sparse_rows"
  assume "\<forall>x \<in> set (csr_triples rws). 1 \<le> col_of (fst x) \<and> col_of (fst x) \<le> int (length rws)"
  then have "mset (csr_triples (bucket (length rws) (map flip (csr_triples rws)))) = mset (map flip (csr_triples rws))"
    by (intro mset_bucket) (auto simp: flip_def)
  then show "\<exists>out. ref_csrcsc (int (length rws)) (csr_arrays rws) = csr_arrays out \<and> length out = length rws \<and>
        mset (csr_triples out) = mset (map flip (csr_triples rws))"
    by (intro exI[of _ "bucket (length rws) (map flip (csr_triples rws))"])
      (auto simp: ref_csrcsc_def bucket_def)
qed

section \<open>Rows are determined by their triples\<close>

lemma filter_csr_triples:
  "r < length rws \<Longrightarrow> filter (\<lambda>e. row_of (fst e) = int r + 1) (csr_triples rws) = row_triples (r, rws ! r)"
proof (induction rws rule: rev_induct)
  case (snoc row rws)
  have none: "filter (\<lambda>e. row_of (fst e) = int (length rws) + 1) (csr_triples rws) = []"
    by (auto simp: filter_empty_conv in_csr_triples)
  have row: "filter (\<lambda>e. row_of (fst e) = int r + 1) (row_triples (m, row)) =
      (if r = m then row_triples (m, row) else [])" for r m
    by (auto simp: row_triples_def filter_empty_conv intro: filter_True)
  show ?case
    using snoc none by (cases "r = length rws") (auto simp: csr_triples_snoc row nth_append)
qed simp

lemma row_of_triples: "map (\<lambda>e. (col_of (fst e), snd e)) (row_triples (r, row)) = row"
  by (auto simp: row_triples_def comp_def)

definition strict_row :: "(int \<times> 'v) list \<Rightarrow> bool" where
  "strict_row row \<longleftrightarrow> sorted_wrt (<) (map fst row)"

lemma csr_rows_unique:
  assumes "length as = length bs" and "mset (csr_triples as) = mset (csr_triples bs)"
    and "\<forall>row \<in> set as. sorted (map fst row)" and "\<forall>row \<in> set bs. strict_row row"
  shows "as = bs"
proof (rule nth_equalityI)
  fix r assume r: "r < length as"
  let ?row = "\<lambda>es. image_mset (\<lambda>e. (col_of (fst e), snd e)) (filter_mset (\<lambda>e. row_of (fst e) = int r + 1) es)"
  have "mset (as ! r) = ?row (mset (csr_triples as))" "mset (bs ! r) = ?row (mset (csr_triples bs))"
    using r assms(1) by (simp_all add: mset_filter[symmetric] filter_csr_triples mset_map[symmetric] row_of_triples
        del: mset_map mset_filter)
  then have ms: "mset (as ! r) = mset (bs ! r)" using assms(2) by simp
  have b: "sorted (map fst (bs ! r))" "distinct (map fst (bs ! r))"
    using assms(1,4) r by (auto simp: strict_row_def strict_sorted_iff)
  have "mset (map fst (as ! r)) = mset (map fst (bs ! r))" using ms by simp
  then have d: "distinct (map fst (as ! r))" using b(2) by (metis mset_eq_imp_distinct_iff)
  have "set (as ! r) = set (bs ! r)" using ms by (metis set_mset_mset)
  moreover have "inj_on fst (set (as ! r) \<union> set (bs ! r))"
    using calculation b(2) by (simp add: distinct_map)
  ultimately show "as ! r = bs ! r"
    using assms(3) r d b by (intro map_sorted_distinct_set_unique[of fst]) auto
qed (rule assms(1))

lemma csr_rep_arrays:
  assumes "csr_arrays rws = (is, js, vs)" and "rows M = int (length rws)" and "nnz M = int (length (csr_triples rws))"
    and "\<forall>x \<in> set (csr_triples rws). 1 \<le> col_of (fst x) \<and> col_of (fst x) \<le> cols M"
  shows "csr_rep (M \<lparr> CSR_I_row_indices := is, CSR_J_col_indices := js, CSR_V_values := vs \<rparr>) rws"
proof -
  have "1 \<le> fst e \<and> fst e \<le> cols M" if "e \<in> set (concat rws)" for e
  proof -
    obtain row where "row \<in> set rws" "e \<in> set row" using \<open>e \<in> set (concat rws)\<close> by auto
    then obtain r where "r < length rws" "e \<in> set (rws ! r)" by (metis in_set_conv_nth)
    then have "(At (int r + 1) (fst e), snd e) \<in> set (csr_triples rws)" by (auto simp: in_csr_triples)
    then show ?thesis using assms(4) by fastforce
  qed
  then show ?thesis using assms by (auto simp: csr_arrays_def csr_rep_def list_all_iff simp del: set_concat)
qed

lemma csr_rep_triples_columns:
  assumes "csr_rep M rws" and "x \<in> set (csr_triples rws)"
  shows "1 \<le> col_of (fst x) \<and> col_of (fst x) \<le> cols M"
proof -
  obtain r e where "r < length rws" "e \<in> set (rws ! r)" "x = (At (int r + 1) (fst e), snd e)"
    using assms(2) by (auto simp: in_csr_triples)
  then show ?thesis using assms(1) by (auto simp: csr_rep_def list_all_iff)
qed

lemma csr_rep_csr_arrays:
  "csr_rep M rws \<Longrightarrow> (CSR_I_row_indices M, CSR_J_col_indices M, CSR_V_values M) = csr_arrays rws"
  by (simp add: csr_rep_def csr_arrays_def)

lemma in_entriesD:
  assumes "x \<in> set (entries (i, j, v))"
  shows "row_of (fst x) \<in> set i" and "col_of (fst x) \<in> set j"
proof -
  have "fst x \<in> set (map2 At i j)" 
    using set_zip_leftD[of "fst x" "snd x" "map2 At i j" v] assms by (simp only: entries_def prod.case prod.collapse)
  then show "row_of (fst x) \<in> set i" and "col_of (fst x) \<in> set j"
    by (auto dest: set_zip_leftD set_zip_rightD)
qed

text \<open>A coordinate matrix whose indices lie inside it.\<close>

definition coo_inside :: "('v, 'f) sparse_matrix \<Rightarrow> bool" where
  "coo_inside M \<longleftrightarrow> 0 \<le> rows M \<and> int (length (I_row_indices M)) = nnz M \<and> int (length (J_col_indices M)) = nnz M \<and>
     int (length (V_values M)) = nnz M \<and> list_all (\<lambda>x. 1 \<le> x \<and> x \<le> rows M) (I_row_indices M) \<and>
     list_all (\<lambda>x. 1 \<le> x \<and> x \<le> cols M) (J_col_indices M)"

context mkl
begin

lemma ConvertToCSR_ok:
  assumes "coo_inside M"
  shows "\<exists>N. ConvertToCSR csrcoo2 clear M = Some N \<and> csr_wf N \<and> rows N = rows M \<and> cols N = cols M \<and>
    mset (csr_triples (csr_rows N)) = mset (triples M) \<and> (\<forall>row \<in> set (csr_rows N). sorted (map fst row)) \<and>
    triples N = (if clear = 1 then [] else triples M)"
proof -
  define k where "k = length (I_row_indices M)"
  define n where "n = nat (rows M)"
  have len: "nnz M = int k" "length (J_col_indices M) = k" "length (V_values M) = k" "rows M = int n"
    using assms by (auto simp: coo_inside_def k_def n_def)
  have wf: "coo_wf k (I_row_indices M, J_col_indices M, V_values M)"
    using len by (simp add: coo_wf_def k_def)
  have "\<forall>x \<in> set (I_row_indices M). 1 \<le> x \<and> x \<le> int n"
    using assms len by (simp add: coo_inside_def list_all_iff)
  from coo_to_csr[OF wf this] obtain rws where
    rws: "csrcoo2 (int n) (I_row_indices M, J_col_indices M, V_values M) = csr_arrays rws" "length rws = n"
    "mset (csr_triples rws) = mset (triples M)" "\<forall>row \<in> set rws. sorted (map fst row)"
    by (auto simp: triples_def)
  obtain is' js vs where arr: "csr_arrays rws = (is', js, vs)" by (cases "csr_arrays rws")
  have set_eq: "set (csr_triples rws) = set (triples M)" using rws(3) by (metis set_mset_mset)
  have "1 \<le> col_of (fst x) \<and> col_of (fst x) \<le> cols M" if "x \<in> set (csr_triples rws)" for x
    using that assms in_entriesD unfolding set_eq triples_def coo_inside_def list_all_iff by metis
  moreover have "length (csr_triples rws) = k"
    using rws(3) wf by (metis length_entries mset_eq_length triples_def)
  ultimately have "csr_rep (M \<lparr> CSR_I_row_indices := is', CSR_J_col_indices := js, CSR_V_values := vs \<rparr>) rws"
    using rws(2) len by (intro csr_rep_arrays[OF arr]) auto
  then have rep: "csr_rep (M \<lparr> CSR_I_row_indices := is', CSR_J_col_indices := js, CSR_V_values := vs,
      V_values := v, I_row_indices := i, J_col_indices := j \<rparr>) rws" for v i j
    by (simp add: csr_rep_def)
  have "range_i (V_values M) 0 (nnz M) = Some (V_values M)" "range_i (I_row_indices M) 0 (nnz M) = Some (I_row_indices M)"
    "range_i (J_col_indices M) 0 (nnz M) = Some (J_col_indices M)"
    using len by (auto simp: range_i_def k_def vspan_def)
  then have run: "ConvertToCSR csrcoo2 clear M = Some (M \<lparr> CSR_I_row_indices := is', CSR_J_col_indices := js,
      CSR_V_values := vs, V_values := (if clear = 1 then [] else V_values M),
      I_row_indices := (if clear = 1 then [] else I_row_indices M),
      J_col_indices := (if clear = 1 then [] else J_col_indices M) \<rparr>)"
    using len rws(1) arr by (simp add: ConvertToCSR_def)
  show ?thesis
    using rep csr_rep_wf[OF rep] csr_rep_rows[OF rep] rws
    by (intro exI[of _ "M \<lparr> CSR_I_row_indices := is', CSR_J_col_indices := js,
      CSR_V_values := vs, V_values := (if clear = 1 then [] else V_values M),
      I_row_indices := (if clear = 1 then [] else I_row_indices M),
      J_col_indices := (if clear = 1 then [] else J_col_indices M) \<rparr>"])
      (simp add: run, simp add: triples_def entries_def)
qed

end

context mkl
begin

lemma ConvertToCOO_ok:
  assumes wf: "csr_wf M" and "rows M \<noteq> 0" and "cols M \<noteq> 0"
  shows "\<exists>N. ConvertToCOO zero csrcoo0 clear M = Some N \<and> triples N = csr_triples (csr_rows M) \<and>
    rows N = rows M \<and> cols N = cols M \<and> coo_inside N"
proof -
  let ?rws = "csr_rows M"
  note rep = csr_wf_rep[OF wf]
  have n: "rows M = int (length ?rws)" using rep by (simp add: csr_rep_def)
  have nnz: "nnz M = int (length (concat ?rws))" using rep by (simp add: csr_rep_def)
  obtain i j v where arr: "csrcoo0 (int (length ?rws)) (csr_arrays ?rws) = (i, j, v)"
    by (cases "csrcoo0 (int (length ?rws)) (csr_arrays ?rws)")
  have wf': "coo_wf (length (concat ?rws)) (i, j, v)" and ent: "entries (i, j, v) = csr_triples ?rws"
    using csr_to_coo[of ?rws] unfolding arr by auto
  have "map (row_of \<circ> fst) (entries (i, j, v)) = i" "map (col_of \<circ> fst) (entries (i, j, v)) = j"
    using wf' by (auto simp: coo_wf_def entries_def list_eq_iff_nth_eq)
  then have i: "i = map (row_of \<circ> fst) (csr_triples ?rws)" and j: "j = map (col_of \<circ> fst) (csr_triples ?rws)"
    by (simp_all only: ent)
  have "\<forall>x \<in> set i. 1 \<le> x \<and> x \<le> rows M" unfolding i n by (auto simp: in_csr_triples)
  moreover have "\<forall>x \<in> set j. 1 \<le> x \<and> x \<le> cols M"
    unfolding j using csr_rep_triples_columns[OF rep] by auto
  ultimately have inside: "coo_inside (M \<lparr> I_row_indices := i, J_col_indices := j, V_values := v \<rparr>)"
    using wf' nnz wf by (simp add: coo_inside_def coo_wf_def list_all_iff csr_wf_def)
  have arr': "csrcoo0 (rows M) (CSR_I_row_indices M, CSR_J_col_indices M, CSR_V_values M) = (i, j, v)"
    using arr unfolding n[symmetric] csr_rep_csr_arrays[OF rep] .
  obtain v' j' i' where "vresize (nnz M) zero (V_values M) = Some v'" "vresize (nnz M) 0 (J_col_indices M) = Some j'"
      "vresize (nnz M) 0 (I_row_indices M) = Some i'"
    by (simp add: nnz vresize_def)
  then have "ConvertToCOO zero csrcoo0 clear M = Some (let N = M \<lparr> I_row_indices := i, J_col_indices := j, V_values := v \<rparr> in
      if clear = 1 then N \<lparr> CSR_I_row_indices := [], CSR_J_col_indices := [], CSR_V_values := [] \<rparr> else N)"
    using assms(2,3) arr' by (simp add: ConvertToCOO_def Let_def)
  moreover have "triples (M \<lparr> I_row_indices := i, J_col_indices := j, V_values := v, CSR_I_row_indices := a,
      CSR_J_col_indices := b, CSR_V_values := c \<rparr>) = csr_triples ?rws" for a b c
    by (simp add: triples_def ent)
  ultimately show ?thesis
    using inside by (auto simp: Let_def coo_inside_def triples_def ent)
qed

lemma transpose_ok:
  assumes wf: "csr_wf M" and "0 \<le> cols M"
  obtains out where "length out = nat (cols M)"
    and "mset (csr_triples out) = mset (map flip (csr_triples (csr_rows M)))"
    and "csrcsc (max (rows M) (cols M)) (csr_arrays (csr_rows M @ replicate (nat (cols M) - nat (rows M)) [])) =
      csr_arrays (out @ replicate (nat (rows M) - nat (cols M)) [])"
proof -
  let ?rws = "csr_rows M"
  let ?m = "max (nat (rows M)) (nat (cols M))"
  let ?pad = "?rws @ replicate (nat (cols M) - nat (rows M)) []"
  note rep = csr_wf_rep[OF wf]
  have m: "length ?pad = ?m" by simp
  have "\<forall>x \<in> set (csr_triples ?pad). 1 \<le> col_of (fst x) \<and> col_of (fst x) \<le> int (length ?pad)"
    using csr_rep_triples_columns[OF rep] assms(2) by fastforce
  from csr_to_csc[OF this] obtain out where
    out: "csrcsc (int ?m) (csr_arrays ?pad) = csr_arrays out" "length out = ?m"
    "mset (csr_triples out) = mset (map flip (csr_triples ?rws))"
    unfolding m by auto
  have set_out: "set (csr_triples out) = flip ` set (csr_triples ?rws)"
    using out(3) by (metis set_map set_mset_mset)
  have empty: "out ! r = []" if "nat (cols M) \<le> r" "r < length out" for r
  proof (rule ccontr)
    assume "out ! r \<noteq> []"
    then obtain e where "e \<in> set (out ! r)" by (cases "out ! r") auto
    then have "(At (int r + 1) (fst e), snd e) \<in> set (csr_triples out)"
      using that(2) by (auto simp: in_csr_triples)
    then obtain x where "x \<in> set (csr_triples ?rws)" "col_of (fst x) = int r + 1"
      by (auto simp: set_out flip_def)
    then show False using csr_rep_triples_columns[OF rep] that(1) by fastforce
  qed
  have split: "out = take (nat (cols M)) out @ replicate (nat (rows M) - nat (cols M)) []"
    by (rule nth_equalityI) (use out(2) empty in \<open>auto simp: nth_append max_def split: if_splits\<close>)
  have "mset (csr_triples (take (nat (cols M)) out)) = mset (map flip (csr_triples ?rws))"
    using out(3) split csr_triples_pad by metis
  moreover have "int ?m = max (rows M) (cols M)" using wf assms(2) by (simp add: csr_wf_def of_nat_max)
  ultimately show thesis using out(1,2) split that[of "take (nat (cols M)) out"] by simp
qed

end

context mkl
begin

lemma padded_ptrs:
  assumes wf: "csr_wf M"
  shows "(if cols M > rows M then do {
         x \<leftarrow> rdi (CSR_I_row_indices M) (int (length (CSR_I_row_indices M)) - 1);
         vresize (cols M + 1) x (CSR_I_row_indices M)
       } else Some (CSR_I_row_indices M)) =
    Some (csr_ptrs (csr_rows M @ replicate (nat (cols M) - nat (rows M)) []))"
proof -
  let ?I = "CSR_I_row_indices M" and ?rws = "csr_rows M"
  have I: "?I = csr_ptrs ?rws" and r: "0 \<le> rows M" using csr_wf_rep[OF wf] wf by (auto simp: csr_rep_def csr_wf_def)
  have last: "rdi ?I (int (length ?I) - 1) = Some (1 + int (length (concat ?rws)))"
    unfolding I by (simp add: rdi_def rd_Some csr_ptrs_def nth_append)
  have "vresize (cols M + 1) (1 + int (length (concat ?rws))) ?I =
      Some (csr_ptrs (?rws @ replicate (nat (cols M) - nat (rows M)) []))" if "rows M < cols M"
  proof -
    have l: "length ?I = Suc (nat (rows M))" using wf by (simp add: csr_wf_def)
    then have "vresize (cols M + 1) (1 + int (length (concat ?rws))) ?I =
        Some (?I @ replicate (nat (cols M) - nat (rows M)) (1 + int (length (concat ?rws))))"
      using that r by (simp add: vresize_def nat_add_distrib)
    then show ?thesis unfolding csr_ptrs_empty_rows by (simp add: I csr_ptrs_def)
  qed
  then show ?thesis using last I by auto
qed

lemma cut_ptrs:
  "vresize (int (length out) + 1) x (csr_ptrs (out @ replicate k [])) = Some (csr_ptrs out)"
  unfolding csr_ptrs_empty_rows by (simp add: vresize_def csr_ptrs_def nat_add_distrib)

lemma MatTranspose_ok:
  assumes wf: "csr_wf M" and c: "0 \<le> cols M"
  obtains N where "MatTranspose csrcsc M = Some N"
    and "MatTranspose_to csrcsc M A = Some (M, A \<lparr> cols := rows M, rows := cols M, nnz := nnz M, mat_type := mat_type M,
      CSR_I_row_indices := CSR_I_row_indices N, CSR_J_col_indices := CSR_J_col_indices N,
      CSR_V_values := CSR_V_values N \<rparr>)"
    and "csr_wf N" and "rows N = cols M" and "cols N = rows M"
    and "mset (csr_triples (csr_rows N)) = mset (map flip (csr_triples (csr_rows M)))"
proof -
  let ?rws = "csr_rows M"
  note rep = csr_wf_rep[OF wf]
  obtain out where out: "length out = nat (cols M)"
    "mset (csr_triples out) = mset (map flip (csr_triples ?rws))"
    "csrcsc (max (rows M) (cols M)) (csr_arrays (?rws @ replicate (nat (cols M) - nat (rows M)) [])) =
      csr_arrays (out @ replicate (nat (rows M) - nat (cols M)) [])"
    by (rule transpose_ok[OF wf c])
  have r: "0 \<le> rows M" using wf by (simp add: csr_wf_def)
  have mx: "(if cols M > rows M then cols M else rows M) = max (rows M) (cols M)" by (simp add: max_def)
  have ptrs: "csr_ptrs ?rws = CSR_I_row_indices M" using rep by (simp only: csr_rep_def)
  have same: "M \<lparr> CSR_I_row_indices := CSR_I_row_indices M \<rparr> = M" by simp
  have arr: "csrcsc (max (rows M) (cols M))
      (csr_ptrs (?rws @ replicate (nat (cols M) - nat (rows M)) []), CSR_J_col_indices M, CSR_V_values M) =
      (csr_ptrs (out @ replicate (nat (rows M) - nat (cols M)) []), map fst (concat out), map snd (concat out))"
    using out(3) rep by (simp add: csr_arrays_def csr_rep_def)
  have cut: "vresize (cols M + 1) 0 (csr_ptrs (out @ replicate (nat (rows M) - nat (cols M)) [])) = Some (csr_ptrs out)"
    using cut_ptrs[of out 0] out(1) c by simp
  have restore: "vresize (int (length (CSR_I_row_indices M))) 0
      (csr_ptrs (?rws @ replicate (nat (cols M) - nat (rows M)) [])) = Some (CSR_I_row_indices M)"
    using cut_ptrs[of ?rws 0] rep by (simp add: csr_rep_def add.commute)
  define N where "N = M \<lparr> rows := cols M, cols := rows M, CSR_I_row_indices := csr_ptrs out,
      CSR_J_col_indices := map fst (concat out), CSR_V_values := map snd (concat out) \<rparr>"
  have run: "MatTranspose csrcsc M = Some N"
    using padded_ptrs[OF wf] arr cut unfolding mx MatTranspose_def N_def
    by (cases "rows M > cols M") (auto simp: Let_def)
  have run_to: "MatTranspose_to csrcsc M A = Some (M, A \<lparr> cols := rows M, rows := cols M, nnz := nnz M,
      mat_type := mat_type M, CSR_I_row_indices := CSR_I_row_indices N, CSR_J_col_indices := CSR_J_col_indices N,
      CSR_V_values := CSR_V_values N \<rparr>)"
    unfolding MatTranspose_to_def Let_def mx padded_ptrs[OF wf] bind.bind_lunit arr prod.case
    using cut restore by (cases "cols M > rows M") (simp_all add: N_def ptrs)
  have nnz: "nnz M = int (length (csr_triples out))"
    using mset_eq_length[OF out(2)] rep by (simp add: csr_rep_def)
  have "\<forall>x \<in> set (csr_triples out). 1 \<le> col_of (fst x) \<and> col_of (fst x) \<le> rows M"
  proof
    fix x assume "x \<in> set (csr_triples out)"
    then have "x \<in> flip ` set (csr_triples ?rws)" using out(2) by (metis set_map set_mset_mset)
    then show "1 \<le> col_of (fst x) \<and> col_of (fst x) \<le> rows M"
      using rep by (auto simp: in_csr_triples flip_def csr_rep_def)
  qed
  then have "csr_rep N out"
    using csr_rep_arrays[of out "csr_ptrs out" _ _ "M \<lparr> rows := cols M, cols := rows M \<rparr>"] out(1) c nnz
    by (simp add: csr_arrays_def N_def)
  then have "csr_wf N" "csr_rows N = out" using csr_rep_wf csr_rep_rows by blast+
  moreover have "rows N = cols M" "cols N = rows M" by (simp_all add: N_def)
  ultimately show thesis using that[OF run run_to] out(2) by simp
qed

end

section \<open>Properties\<close>

text \<open>
  C27: A round trip through coordinate format, each conversion clearing its source, gives back
  the same rows when every row is sorted by column without duplicates.
\<close>

theorem csr_coo_roundtrip:
  assumes "mkl csrcoo2 csrcoo0 csrcsc" and "csr_wf M" and "rows M \<noteq> 0" and "cols M \<noteq> 0"
    and "list_all strict_row (csr_rows M)"
  shows "\<exists>N P. ConvertToCOO zero csrcoo0 1 M = Some N \<and> ConvertToCSR csrcoo2 1 N = Some P \<and>
    csr_wf P \<and> csr_rows P = csr_rows M \<and> triples P = []"
proof -
  obtain N where N: "ConvertToCOO zero csrcoo0 1 M = Some N" "triples N = csr_triples (csr_rows M)"
    "rows N = rows M" "coo_inside N"
    using mkl.ConvertToCOO_ok[OF assms(1-4), of zero 1] by blast
  obtain P where P: "ConvertToCSR csrcoo2 1 N = Some P" "csr_wf P" "rows P = rows N"
    "mset (csr_triples (csr_rows P)) = mset (triples N)" "\<forall>row \<in> set (csr_rows P). sorted (map fst row)"
    "triples P = []"
    using mkl.ConvertToCSR_ok[OF assms(1) N(4), of 1] by auto
  have "csr_rows P = csr_rows M"
    using P N assms(5) by (intro csr_rows_unique) (auto simp: list_all_iff)
  then show ?thesis using N P by blast
qed

lemma csr_coo_roundtrip_witness:
  "\<exists>N P. ConvertToCOO 0 ref_csrcoo0 1 example_csr = Some N \<and> ConvertToCSR ref_csrcoo2 1 N = Some P \<and>
    csr_wf P \<and> csr_rows P = csr_rows example_csr \<and> triples P = []"
  by (rule csr_coo_roundtrip[OF ref.mkl_axioms])
    (simp_all add: example_csr_facts csr_rep_rows[OF example_csr_rep] strict_row_def)

text \<open>
  C26: Transposition exchanges size and positions of all entries and keeps the CSR form, for
  rectangular matrices of either shape; transposing into another matrix gives the same arrays
  and leaves the source, whose row pointers it pads meanwhile, as it was.
\<close>

theorem MatTranspose_correct:
  assumes "mkl csrcoo2 csrcoo0 csrcsc" and "csr_wf M" and "0 \<le> cols M"
  shows "\<exists>N. MatTranspose csrcsc M = Some N \<and> csr_wf N \<and> rows N = cols M \<and> cols N = rows M \<and>
    mset (csr_triples (csr_rows N)) = mset (map flip (csr_triples (csr_rows M))) \<and>
    MatTranspose_to csrcsc M A = Some (M, A \<lparr> cols := rows M, rows := cols M, nnz := nnz M, mat_type := mat_type M,
      CSR_I_row_indices := CSR_I_row_indices N, CSR_J_col_indices := CSR_J_col_indices N,
      CSR_V_values := CSR_V_values N \<rparr>)"
  using mkl.MatTranspose_ok[OF assms, of A] by metis

lemma MatTranspose_correct_witness:
  "\<exists>N. MatTranspose ref_csrcsc example_csr = Some N \<and> csr_wf N \<and> rows N = cols example_csr \<and> cols N = rows example_csr \<and>
    mset (csr_triples (csr_rows N)) = mset (map flip (csr_triples (csr_rows example_csr))) \<and>
    MatTranspose_to ref_csrcsc example_csr sm_new = Some (example_csr, sm_new \<lparr> cols := rows example_csr,
      rows := cols example_csr, nnz := nnz example_csr, mat_type := mat_type example_csr,
      CSR_I_row_indices := CSR_I_row_indices N, CSR_J_col_indices := CSR_J_col_indices N,
      CSR_V_values := CSR_V_values N \<rparr>)"
  by (rule MatTranspose_correct[OF ref.mkl_axioms]) (simp_all add: example_csr_facts)

text \<open>Identity-like matrices; \<open>eye\<close> is the list of expected rows.\<close>

definition eye :: "nat \<Rightarrow> (nat \<Rightarrow> 'v) \<Rightarrow> nat \<Rightarrow> nat \<Rightarrow> 'v sparse_rows" where
  "eye n val offset_row offset_col =
     replicate offset_row [] @ map (\<lambda>i. [(int (offset_col + i) + 1, val i)]) [0..<n]"

lemma csr_triples_eye:
  "csr_triples (eye n val orow ocol) = map (\<lambda>i. (At (int (orow + i) + 1) (int (ocol + i) + 1), val i)) [0..<n]"
proof (induction n)
  case 0
  then show ?case using csr_triples_pad[of "[]" orow] by (simp add: eye_def csr_triples_def)
next
  case (Suc n)
  have "eye (Suc n) val orow ocol = eye n val orow ocol @ [[(int (ocol + n) + 1, val n)]]" by (simp add: eye_def)
  with Suc show ?case by (simp only: csr_triples_snoc) (simp add: row_triples_def eye_def)
qed

lemma eye_converted:
  assumes "mkl csrcoo2 csrcoo0 csrcsc"
    and "nnz M = int n" and "rows M = int (orow + n)" and "cols M = int (ocol + n)"
    and "I_row_indices M = map (\<lambda>i. int orow + int i + 1) [0..<n]"
    and "J_col_indices M = map (\<lambda>i. int ocol + int i + 1) [0..<n]"
    and "V_values M = map val [0..<n]"
  shows "\<exists>N. ConvertToCSR csrcoo2 1 M = Some N \<and> csr_wf N \<and> csr_rows N = eye n val orow ocol \<and>
    cols N = int (ocol + n)"
proof -
  have inside: "coo_inside M" using assms(2-) by (auto simp: coo_inside_def list_all_iff)
  from mkl.ConvertToCSR_ok[OF assms(1) inside, of 1] obtain N where N:
    "ConvertToCSR csrcoo2 1 M = Some N" "csr_wf N" "rows N = rows M" "cols N = cols M"
    "mset (csr_triples (csr_rows N)) = mset (triples M)" "\<forall>row \<in> set (csr_rows N). sorted (map fst row)"
    by auto
  have "triples M = csr_triples (eye n val orow ocol)"
    unfolding csr_triples_eye using assms(2-)
    by (auto simp: triples_def entries_def list_eq_iff_nth_eq)
  then have "csr_rows N = eye n val orow ocol"
    using N assms(3) by (intro csr_rows_unique) (auto simp: eye_def strict_row_def)
  with N assms(4) show ?thesis by auto
qed

text \<open>
  On a new matrix, \<^verbatim>\<open>CreateEye\<close> builds a diagonal block below and right of its offsets and
  \<^verbatim>\<open>TestEye\<close> the diagonal 1, 2, ..., n.
\<close>

theorem CreateEye_correct:
  fixes val :: "'v :: ring_1"
  assumes "mkl csrcoo2 csrcoo0 csrcsc"
  shows "(\<exists>N :: ('v, 'f) sparse_matrix. CreateEye csrcoo2 (int n) val (int orow) (int ocol) sm_new = Some N \<and> csr_wf N \<and>
      csr_rows N = eye n (\<lambda>i. val) orow ocol \<and> cols N = int (ocol + n)) \<and>
    (\<exists>N :: ('v, 'f) sparse_matrix. CreateEye_unit csrcoo2 (int n) sm_new = Some N \<and> csr_wf N \<and>
      csr_rows N = eye n (\<lambda>i. 1) 0 0 \<and> cols N = int n) \<and>
    (\<exists>N :: ('v, 'f) sparse_matrix. TestEye csrcoo2 (int n) sm_new = Some N \<and> csr_wf N \<and>
      csr_rows N = eye n (\<lambda>i. of_nat i + 1) 0 0 \<and> cols N = int n)"
proof -
  have ints: "[0..int n - 1] = map int [0..<n]" using upto_shift[of 0 n] by simp
  note eye = eye_converted[OF assms, where n = n]
  show ?thesis
    unfolding CreateEye_def CreateEye_unit_def TestEye_def ints
    apply (intro conjI)
    subgoal by (rule eye) (simp_all add: sm_new_def comp_def)
    subgoal by (rule eye[where orow = 0 and ocol = 0, simplified]) (simp_all add: sm_new_def comp_def)
    subgoal by (rule eye[where orow = 0 and ocol = 0, simplified]) (simp_all add: sm_new_def comp_def)
    done
qed

lemma CreateEye_correct_witness:
  "(\<exists>N :: (int, int) sparse_matrix. CreateEye ref_csrcoo2 (int 2) 7 (int 1) (int 3) sm_new = Some N \<and> csr_wf N \<and>
      csr_rows N = eye 2 (\<lambda>i. 7) 1 3 \<and> cols N = int (3 + 2)) \<and>
    (\<exists>N :: (int, int) sparse_matrix. CreateEye_unit ref_csrcoo2 (int 2) sm_new = Some N \<and> csr_wf N \<and>
      csr_rows N = eye 2 (\<lambda>i. 1) 0 0 \<and> cols N = int 2) \<and>
    (\<exists>N :: (int, int) sparse_matrix. TestEye ref_csrcoo2 (int 2) sm_new = Some N \<and> csr_wf N \<and>
      csr_rows N = eye 2 (\<lambda>i. of_nat i + 1) 0 0 \<and> cols N = int 2)"
  by (rule CreateEye_correct[OF ref.mkl_axioms])

end
