(* ===== verification/Communication.thy ===== *)
theory Communication
  imports Prelude
begin

text \<open>
  The collective operations of \<^verbatim>\<open>src/basis/utilities/communication.hpp\<close>.  A definition is what
  one process computes; what MPI hands to it (received messages, scanned and broadcast values)
  is a parameter, and the theorems state the documented behaviour of MPI as hypotheses.
  \<open>rank\<close> and \<open>gsize\<close> are the rank and the size of the process group.
\<close>

section \<open>Balancing a distributed vector\<close>

text \<open>
  The lambda \<^verbatim>\<open>fill\<close> of \<^verbatim>\<open>Communication::balance\<close>: how the own range of \<open>from\<close> is cut by the
  ranges of \<open>target\<close>.  A subtraction that would wrap around is \<open>None\<close>.
\<close>

function fill_loop ::
  "nat list \<Rightarrow> nat \<Rightarrow> nat \<Rightarrow> nat \<Rightarrow> nat \<Rightarrow> nat list \<Rightarrow> nat list \<Rightarrow> (nat list \<times> nat list) option" where
  "fill_loop target tIndex restSize tOffset offset sizes disp =
    (if restSize \<noteq> 0 then do {
       a \<leftarrow> rd target tIndex;
       b \<leftarrow> rd target (tIndex + 1);
       if b < a + tOffset then None
       else if restSize < b - a - tOffset then do {
         sizes \<leftarrow> wr sizes tIndex restSize;
         disp \<leftarrow> wr disp tIndex offset;
         Some (sizes, disp)
       } else do {
         sizes \<leftarrow> wr sizes tIndex (b - a - tOffset);
         disp \<leftarrow> wr disp tIndex offset;
         let s = b - a - tOffset;
         fill_loop target (tIndex + 1) (restSize - s) 0 (offset + s) sizes disp
       }
     } else Some (sizes, disp))"
  by pat_completeness auto
termination
  by (relation "measure (\<lambda>(target, tIndex, _). length target - tIndex)") (auto simp: rd_eq_Some_iff)

declare fill_loop.simps [simp del]

definition fill :: "nat \<Rightarrow> nat \<Rightarrow> nat list \<Rightarrow> nat list \<Rightarrow> (nat list \<times> nat list) option" where
  "fill rank gsize from target = do {
     a \<leftarrow> rd from rank;
     b \<leftarrow> rd from (rank + 1);
     let it = lower_bound 0 (length target) (a + 1) target;
     if b < a \<or> it = 0 then None else do {
       let restSize = b - a;
       let tIndex = it - 1;
       c \<leftarrow> rd target tIndex;
       if a < c then None
       else fill_loop target tIndex restSize (a - c) 0 (replicate gsize 0) (replicate gsize 0)
     }
   }"

text \<open>The common part of two ranges.\<close>

definition overlap :: "nat \<Rightarrow> nat \<Rightarrow> nat \<Rightarrow> nat \<Rightarrow> nat" where
  "overlap a b c d = min b d - max a c"

definition filled :: "nat \<Rightarrow> nat \<Rightarrow> nat list \<Rightarrow> nat \<Rightarrow> nat list \<Rightarrow> nat list \<Rightarrow> bool" where
  "filled a b target k sizes disp \<longleftrightarrow>
     (\<forall>t < k. sizes ! t = overlap a b (target ! t) (target ! Suc t) \<and>
       (sizes ! t \<noteq> 0 \<longrightarrow> disp ! t = max a (target ! t) - a))"

lemma filled_Suc:
  "filled a b target (Suc k) sizes disp \<longleftrightarrow> filled a b target k sizes disp \<and>
     sizes ! k = overlap a b (target ! k) (target ! Suc k) \<and>
     (sizes ! k \<noteq> 0 \<longrightarrow> disp ! k = max a (target ! k) - a)"
  by (auto simp: filled_def less_Suc_eq)

lemma filled_update:
  "filled a b target k (sizes[k := x]) (disp[k := y]) = filled a b target k sizes disp"
  by (auto simp: filled_def)

lemma filled_rest:
  assumes "filled a b target k sizes disp" and "\<forall>t. k \<le> t \<and> t < n \<longrightarrow> sizes ! t = 0"
    and "\<forall>t. k \<le> t \<and> t < n \<longrightarrow> b \<le> target ! t"
  shows "filled a b target n sizes disp"
  unfolding filled_def
proof (intro allI impI)
  fix t assume "t < n"
  then show "sizes ! t = overlap a b (target ! t) (target ! Suc t) \<and>
      (sizes ! t \<noteq> 0 \<longrightarrow> disp ! t = max a (target ! t) - a)"
    using assms by (cases "t < k") (auto simp: filled_def overlap_def min_le_iff_disj le_max_iff_disj)
qed

lemma fill_loop_ok:
  assumes d: "is_distribution target n N" and "a \<le> b" "b \<le> N"
    and "a + offset + rest = b" and "tIndex \<le> n" and "target ! tIndex + tOffset = a + offset"
    and "max a (target ! tIndex) = a + offset" and "tIndex < n \<Longrightarrow> a + offset \<le> target ! Suc tIndex"
    and "length sizes = n" and "length disp = n"
    and "filled a b target tIndex sizes disp" and "\<forall>t. tIndex \<le> t \<and> t < n \<longrightarrow> sizes ! t = 0"
  shows "\<exists>s p. fill_loop target tIndex rest tOffset offset sizes disp = Some (s, p) \<and>
    length s = n \<and> length p = n \<and> filled a b target n s p"
  using assms(4-)
proof (induction "n - tIndex" arbitrary: tIndex rest tOffset offset sizes disp rule: less_induct)
  case (less k rest tOff off sizes disp)
  note unfold = fill_loop.simps[of target k rest tOff off sizes disp]
  have len: "length target = Suc n" and last: "target ! n = N"
    using d by (auto simp: is_distribution_def)
  have above: "target ! i \<le> target ! j" if "i \<le> j" "j \<le> n" for i j
    using is_distribution_mono[OF d that] .
  show ?case
  proof (cases "rest = 0")
    case True
    have "b \<le> target ! t" if "k < t" "t < n" for t
    proof -
      have "a + off \<le> target ! Suc k" using less.prems(5) that by simp
      also have "\<dots> \<le> target ! t" using above[of "Suc k" t] that by simp
      finally show ?thesis using less.prems(1) True by simp
    qed
    then have big: "\<forall>t. Suc k \<le> t \<and> t < n \<longrightarrow> b \<le> target ! t" by simp
    have "filled a b target n sizes disp"
    proof (cases "k < n")
      case kn: True
      have "overlap a b (target ! k) (target ! Suc k) = 0"
        using less.prems(1,4) True by (simp add: overlap_def min_le_iff_disj)
      moreover have "sizes ! k = 0" using less.prems(9) kn by simp
      ultimately have "filled a b target (Suc k) sizes disp"
        using less.prems(8) by (simp add: filled_Suc)
      moreover have "\<forall>t. Suc k \<le> t \<and> t < n \<longrightarrow> sizes ! t = 0" using less.prems(9) by simp
      ultimately show ?thesis using big by (rule filled_rest)
    next
      case False
      then show ?thesis using less.prems(2,8) by simp
    qed
    then show ?thesis using less.prems(6,7) unfold True by auto
  next
    case False
    have kn: "k < n"
    proof (rule ccontr)
      assume "\<not> k < n"
      then have "k = n" using less.prems(2) by simp
      then have "N \<le> a + off" using less.prems(4) last assms(2,3) less.prems(1) False by (auto simp: max_def split: if_splits)
      then show False using less.prems(1) assms(3) False by simp
    qed
    have up: "a + off \<le> target ! Suc k" by (rule less.prems(5)[OF kn])
    have l: "target ! Suc k - target ! k - tOff = target ! Suc k - (a + off)"
      using less.prems(3) by simp
    have reads: "rd target k = Some (target ! k)" "rd target (k + 1) = Some (target ! Suc k)"
      using kn len by (auto simp: rd_Some)
    have ov: "overlap a b (target ! k) (target ! Suc k) = min b (target ! Suc k) - (a + off)"
      using less.prems(4) by (simp add: overlap_def)
    have zero: "\<forall>t. Suc k \<le> t \<and> t < n \<longrightarrow> sizes[k := x] ! t = 0" for x using less.prems(9) by simp
    show ?thesis
    proof (cases "rest < target ! Suc k - (a + off)")
      case True
      have "filled a b target (Suc k) (sizes[k := rest]) (disp[k := off])"
        using less.prems(1,4,6-8) kn True ov by (auto simp: filled_Suc filled_update)
      moreover have "\<forall>t. Suc k \<le> t \<and> t < n \<longrightarrow> b \<le> target ! t"
      proof (intro allI impI)
        fix t assume "Suc k \<le> t \<and> t < n"
        then have "target ! Suc k \<le> target ! t" using above[of "Suc k" t] by simp
        then show "b \<le> target ! t" using less.prems(1) True by simp
      qed
      ultimately have "filled a b target n (sizes[k := rest]) (disp[k := off])"
        by (rule filled_rest[OF _ zero])
      then show ?thesis
        using False True reads up less.prems(3,6,7) kn by (simp add: unfold l wr_Some)
    next
      case no: False
      let ?s = "target ! Suc k - (a + off)"
      have "filled a b target (Suc k) (sizes[k := ?s]) (disp[k := off])"
        using less.prems(1,4,6-8) kn no ov by (auto simp: filled_Suc filled_update)
      moreover have "a + (off + ?s) + (rest - ?s) = b" "target ! Suc k + 0 = a + (off + ?s)"
        using less.prems(1) no up by auto
      moreover have "max a (target ! Suc k) = a + (off + ?s)" using up by simp
      moreover have "a + (off + ?s) \<le> target ! Suc (Suc k)" if "Suc k < n"
        using above[of "Suc k" "Suc (Suc k)"] that up by simp
      moreover have "n - Suc k < n - k" using kn by simp
      ultimately obtain s p where
        "fill_loop target (Suc k) (rest - ?s) 0 (off + ?s) (sizes[k := ?s]) (disp[k := off]) = Some (s, p)"
        "length s = n" "length p = n" "filled a b target n s p"
        using less.hyps[of "Suc k" "off + ?s" "rest - ?s" 0 "sizes[k := ?s]" "disp[k := off]"] kn less.prems(6,7) zero
        by auto
      then show ?thesis
        using False no reads up less.prems(3,6,7) kn by (simp add: unfold l wr_Some)
    qed
  qed
qed

lemma lower_bound_distribution:
  assumes d: "is_distribution target n N" and "a \<le> N"
  defines "it \<equiv> lower_bound 0 (length target) (a + 1) target"
  shows "0 < it" and "it - 1 \<le> n" and "target ! (it - 1) \<le> a"
    and "it - 1 < n \<Longrightarrow> a < target ! it"
proof -
  have len: "length target = Suc n" and first: "target ! 0 = 0" using d by (auto simp: is_distribution_def)
  have it: "it = length (takeWhile (\<lambda>x. x < a + 1) target)" by (simp add: it_def lower_bound_def)
  show pos: "0 < it"
    using len first unfolding it by (cases target) auto
  show le: "it - 1 \<le> n" using length_takeWhile_le[of "\<lambda>x. x < a + 1" target] len unfolding it by simp
  have "it - 1 < it" using pos by simp
  then have "takeWhile (\<lambda>x. x < a + 1) target ! (it - 1) < a + 1"
    unfolding it by (metis nth_mem set_takeWhileD)
  then show "target ! (it - 1) \<le> a"
    using \<open>it - 1 < it\<close> unfolding it by (simp add: takeWhile_nth)
  show "a < target ! it" if "it - 1 < n"
  proof -
    have "it < length target" using that pos len by simp
    then have "\<not> target ! it < a + 1"
      using nth_length_takeWhile[of "\<lambda>x. x < a + 1" target] unfolding it by blast
    then show ?thesis by simp
  qed
qed

lemma fill_ok:
  assumes "is_distribution from n N" and "is_distribution target n N" and "r < n"
  obtains s p where "fill r n from target = Some (s, p)" and "length s = n" and "length p = n"
    and "filled (from ! r) (from ! Suc r) target n s p"
proof -
  let ?a = "from ! r" and ?b = "from ! Suc r"
  let ?it = "lower_bound 0 (length target) (?a + 1) target"
  have le: "?a \<le> ?b" "?b \<le> N"
    using assms(3) is_distribution_mono[OF assms(1), of r "Suc r"] is_distribution_le[OF assms(1), of "Suc r"] by auto
  note lb = lower_bound_distribution[OF assms(2), of ?a]
  have aN: "?a \<le> N" using le by simp
  have below: "target ! Suc t \<le> ?a" if "t < ?it - 1" for t
  proof -
    have "target ! Suc t \<le> target ! (?it - 1)"
      using that lb(2)[OF aN] is_distribution_mono[OF assms(2), of "Suc t" "?it - 1"] by simp
    then show ?thesis using lb(3)[OF aN] by simp
  qed
  then have "filled ?a ?b target (?it - 1) (replicate n 0) (replicate n 0)"
    using lb(2)[OF aN] by (auto simp: filled_def overlap_def min_le_iff_disj le_max_iff_disj)
  then have "\<exists>s p. fill_loop target (?it - 1) (?b - ?a) (?a - target ! (?it - 1)) 0 (replicate n 0) (replicate n 0) =
      Some (s, p) \<and> length s = n \<and> length p = n \<and> filled ?a ?b target n s p"
    using le lb[OF aN] by (intro fill_loop_ok[OF assms(2) le]) (auto simp: less_imp_le)
  moreover have "rd from r = Some ?a" "rd from (r + 1) = Some ?b"
    using assms(1,3) by (auto simp: rd_Some is_distribution_def)
  moreover have "rd target (?it - 1) = Some (target ! (?it - 1))"
    using lb(2)[OF aN] assms(2) by (simp add: rd_Some is_distribution_def)
  ultimately show thesis
    using that lb(1,3)[OF aN] le by (auto simp: fill_def not_less)
qed

text \<open>
  The requests of one process: \<^verbatim>\<open>MPI_Isend\<close> of a slice of the buffer, \<^verbatim>\<open>MPI_Irecv\<close> into a
  slice of the result.  \<open>incoming r\<close> is the message MPI delivers from the process \<open>r\<close>.  A
  receive that no message matches never completes and a message longer than its receive is an
  error of MPI; both are \<open>None\<close>.
\<close>

definition isend :: "'a list \<Rightarrow> nat \<Rightarrow> nat \<Rightarrow> 'a list option" where
  "isend buffer disp s = (if disp + s \<le> length buffer then Some (vspan disp (disp + s) buffer) else None)"

definition irecv :: "'a list option \<Rightarrow> nat \<Rightarrow> nat \<Rightarrow> 'a list \<Rightarrow> 'a list option" where
  "irecv m disp s buffer = (case m of None \<Rightarrow> None
     | Some m \<Rightarrow> if length m \<le> s \<and> disp + s \<le> length buffer
         then Some (take disp buffer @ m @ drop (disp + length m) buffer) else None)"

definition balance_sends :: "nat \<Rightarrow> nat list \<Rightarrow> nat list \<Rightarrow> 'a list \<Rightarrow> (nat \<times> 'a list) list option" where
  "balance_sends gsize ssize sdisp buffer = for_each [0..<gsize] (\<lambda>r out. do {
     s \<leftarrow> rd ssize r;
     if s \<noteq> 0 then do {
       d \<leftarrow> rd sdisp r;
       m \<leftarrow> isend buffer d s;
       Some (out @ [(r, m)])
     } else Some out
   }) []"

definition balance_receives ::
  "nat \<Rightarrow> nat list \<Rightarrow> nat list \<Rightarrow> (nat \<Rightarrow> 'a list option) \<Rightarrow> 'a list \<Rightarrow> 'a list option" where
  "balance_receives gsize rsize rdisp incoming result = for_each [0..<gsize] (\<lambda>r result. do {
     s \<leftarrow> rd rsize r;
     if s \<noteq> 0 then do {
       d \<leftarrow> rd rdisp r;
       irecv (incoming r) d s result
     } else Some result
   }) result"

text \<open>
  \<^verbatim>\<open>Communication::balance\<close>: the value returned, the buffer afterwards, and the messages sent.
  \<open>items\<close> is the number of MPI items per element and \<open>dflt\<close> the value of \<^verbatim>\<open>Ttype()\<close>.
  The vector of requests has \<^verbatim>\<open>group.size + 1\<close> entries; more requests write past its end.
\<close>

definition comm_balance ::
  "nat \<Rightarrow> nat \<Rightarrow> nat \<Rightarrow> 'a \<Rightarrow> nat list \<Rightarrow> nat list \<Rightarrow> (nat \<Rightarrow> 'a list option) \<Rightarrow> 'a list \<Rightarrow>
     (bool \<times> 'a list \<times> (nat \<times> 'a list) list) option" where
  "comm_balance rank gsize items dflt cur target incoming buffer =
    (if items * length buffer > 2 ^ 30 then Some (False, buffer, [])
     else do {
       a \<leftarrow> rd target rank;
       b \<leftarrow> rd target (rank + 1);
       if b < a then None else do {
         (ssize, sdisp) \<leftarrow> fill rank gsize cur target;
         (rsize, rdisp) \<leftarrow> fill rank gsize target cur;
         if length (filter (\<lambda>s. s \<noteq> 0) rsize) + length (filter (\<lambda>s. s \<noteq> 0) ssize) > gsize + 1 then None else do {
         out \<leftarrow> balance_sends gsize ssize sdisp buffer;
         result \<leftarrow> balance_receives gsize rsize rdisp incoming (replicate (b - a) dflt);
         Some (True, result, out) }
       }
     })"

text \<open>What the process \<open>dst\<close> receives when every process has sent its messages \<open>outs\<close>.\<close>

definition deliver :: "(nat \<times> 'a list) list list \<Rightarrow> nat \<Rightarrow> nat \<Rightarrow> 'a list option" where
  "deliver outs dst src = map_of (outs ! src) dst"

definition msg_of :: "nat list \<Rightarrow> nat list \<Rightarrow> 'a list \<Rightarrow> nat \<Rightarrow> nat \<Rightarrow> 'a list" where
  "msg_of cur target xs src dst =
     vspan (max (cur ! src) (target ! dst)) (min (cur ! Suc src) (target ! Suc dst)) xs"

definition outbox :: "nat \<Rightarrow> nat list \<Rightarrow> nat list \<Rightarrow> 'a list \<Rightarrow> nat \<Rightarrow> (nat \<times> 'a list) list" where
  "outbox n cur target xs src = map (\<lambda>t. (t, msg_of cur target xs src t))
     (filter (\<lambda>t. overlap (cur ! src) (cur ! Suc src) (target ! t) (target ! Suc t) \<noteq> 0) [0..<n])"

lemma map_of_outbox:
  "map_of (outbox n cur target xs src) t =
    (if t < n \<and> overlap (cur ! src) (cur ! Suc src) (target ! t) (target ! Suc t) \<noteq> 0
     then Some (msg_of cur target xs src t) else None)"
  by (simp add: outbox_def map_of_map_restrict[unfolded restrict_map_def])

lemma vspan_vspan: "a \<le> l \<Longrightarrow> h \<le> b \<Longrightarrow> vspan (l - a) (h - a) (vspan a b xs) = vspan l h xs"
  by (simp add: vspan_def min_def) (simp add: drop_take)

lemma overlap_pos: "overlap a b c d \<noteq> 0 \<Longrightarrow> max a c + overlap a b c d = min b d"
  by (simp add: overlap_def)

lemma overlap_less: "overlap a b c d \<noteq> 0 \<Longrightarrow> a < d \<and> c < b"
proof -
  assume "overlap a b c d \<noteq> 0"
  then have "max a c < min b d" unfolding overlap_def by linarith
  then show ?thesis by simp
qed

lemma overlap_commute: "overlap a b c d = overlap c d a b"
  by (simp add: overlap_def min.commute max.commute)

lemma balance_sends_ok:
  assumes d: "is_distribution cur n N" and xs: "length xs = N" and "src < n"
    and len: "length s = n" "length p = n"
    and f: "filled (cur ! src) (cur ! Suc src) target n s p"
  shows "balance_sends n s p (vspan (cur ! src) (cur ! Suc src) xs) = Some (outbox n cur target xs src)"
proof -
  let ?a = "cur ! src" and ?b = "cur ! Suc src"
  have ab: "?a \<le> ?b" "?b \<le> length xs"
    using assms(3) xs is_distribution_mono[OF d, of src "Suc src"] is_distribution_le[OF d, of "Suc src"] by auto
  have "\<exists>out. balance_sends n s p (vspan ?a ?b xs) = Some out \<and> out = outbox n cur target xs src"
    unfolding balance_sends_def
  proof (rule for_each_upt[where I = "\<lambda>k out. out = outbox k cur target xs src"])
    fix k out assume k: "k < n" and I: "out = outbox k cur target xs src"
    let ?o = "overlap ?a ?b (target ! k) (target ! Suc k)"
    have s: "s ! k = ?o" and p: "?o \<noteq> 0 \<Longrightarrow> p ! k = max ?a (target ! k) - ?a"
      using f k by (auto simp: filled_def)
    show "\<exists>u. (do { s \<leftarrow> rd s k; if s \<noteq> 0 then do { d \<leftarrow> rd p k; m \<leftarrow> isend (vspan ?a ?b xs) d s;
        Some (out @ [(k, m)]) } else Some out }) = Some u \<and> u = outbox (Suc k) cur target xs src"
    proof (cases "?o = 0")
      case True
      then show ?thesis using k len I s by (simp add: rd_Some outbox_def)
    next
      case False
      note op = overlap_pos[OF False]
      let ?h = "min ?b (target ! Suc k)" and ?l = "max ?a (target ! k)"
      have "p ! k + ?o = ?h - ?a" using op p[OF False] by (simp add: max_def split: if_splits)
      then have "isend (vspan ?a ?b xs) (p ! k) ?o = Some (msg_of cur target xs src k)"
        using ab p[OF False] vspan_vspan[of ?a ?l ?h ?b xs] by (simp add: isend_def msg_of_def)
      then show ?thesis using k len I s False by (simp add: rd_Some outbox_def)
    qed
  qed (simp_all add: outbox_def)
  then show ?thesis by simp
qed

lemma nth_irecv:
  assumes "irecv (Some m) d (length m) ys = Some zs"
  shows "length zs = length ys" and "\<And>i. i < length ys \<Longrightarrow>
    zs ! i = (if d \<le> i \<and> i < d + length m then m ! (i - d) else ys ! i)"
  using assms by (auto simp: irecv_def nth_append nth_Cons' not_less split: if_splits)

lemma nth_msg_of:
  assumes "l < length (msg_of cur target xs src t)"
  shows "msg_of cur target xs src t ! l = xs ! (max (cur ! src) (target ! t) + l)"
  using assms unfolding msg_of_def vspan_def
  by (subst nth_take) (auto intro!: nth_drop)

lemma balance_receives_ok:
  assumes cur: "is_distribution cur n N" and tgt: "is_distribution target n N" and xs: "length xs = N"
    and "r < n" and len: "length s = n" "length p = n"
    and f: "filled (target ! r) (target ! Suc r) cur n s p"
    and msgs: "\<And>t. t < n \<Longrightarrow> s ! t \<noteq> 0 \<Longrightarrow> incoming t = Some (msg_of cur target xs t r)"
  shows "balance_receives n s p incoming (replicate (target ! Suc r - target ! r) dflt) =
    Some (vspan (target ! r) (target ! Suc r) xs)"
proof -
  let ?a = "target ! r" and ?b = "target ! Suc r"
  have ab: "?a \<le> ?b" "?b \<le> length xs"
    using assms(4) xs is_distribution_mono[OF tgt, of r "Suc r"] is_distribution_le[OF tgt, of "Suc r"] by auto
  define rcvd where "rcvd = (\<lambda>k zs. length zs = ?b - ?a \<and>
    (\<forall>i < ?b - ?a. ?a + i < cur ! k \<longrightarrow> zs ! i = xs ! (?a + i)))"
  have "\<exists>zs. balance_receives n s p incoming (replicate (?b - ?a) dflt) = Some zs \<and> rcvd n zs"
    unfolding balance_receives_def
  proof (rule for_each_upt)
    show "rcvd 0 (replicate (?b - ?a) dflt)"
      using cur by (simp add: rcvd_def is_distribution_def)
    fix k zs assume k: "k < n" and I: "rcvd k zs"
    let ?o = "overlap ?a ?b (cur ! k) (cur ! Suc k)" and ?m = "msg_of cur target xs k r"
    have s: "s ! k = ?o" and p: "?o \<noteq> 0 \<Longrightarrow> p ! k = max ?a (cur ! k) - ?a"
      using f k by (auto simp: filled_def)
    show "\<exists>zs'. (do { s \<leftarrow> rd s k; if s \<noteq> 0 then do { d \<leftarrow> rd p k; irecv (incoming k) d s zs }
        else Some zs }) = Some zs' \<and> rcvd (Suc k) zs'"
    proof (cases "?o = 0")
      case True
      then have "?a + i < cur ! k" if "i < ?b - ?a" "?a + i < cur ! Suc k" for i
        using that by (auto simp: overlap_def max_def min_def split: if_splits)
      then show ?thesis using True k len I s by (simp add: rd_Some rcvd_def)
    next
      case False
      have lm: "length ?m = ?o"
        using ab by (simp add: msg_of_def overlap_def max.commute min.commute le_trans[OF min.cobounded1])
      have fits: "p ! k + ?o \<le> length zs"
        using I p[OF False] overlap_pos[OF False] by (simp add: rcvd_def max_def min_def split: if_splits)
      then obtain zs' where zs': "irecv (Some ?m) (p ! k) (length ?m) zs = Some zs'"
        using lm by (simp add: irecv_def)
      note n = nth_irecv[OF zs']
      have "zs' ! i = xs ! (?a + i)" if "i < ?b - ?a" "?a + i < cur ! Suc k" for i
      proof (cases "?a + i < cur ! k")
        case True
        then have "\<not> p ! k \<le> i" using p[OF False] by simp
        then show ?thesis using n(2)[of i] I that(1) True by (simp add: rcvd_def)
      next
        case F: False
        then have "p ! k \<le> i" "i < p ! k + ?o"
          using p[OF False] that overlap_pos[OF False] by (auto simp: max_def min_def split: if_splits)
        moreover have "max (cur ! k) ?a + (i - p ! k) = ?a + i"
          using p[OF False] F by (simp add: max_def)
        ultimately show ?thesis using n(2)[of i] I that(1) lm
          by (simp add: rcvd_def nth_msg_of)
      qed
      then have "rcvd (Suc k) zs'" using n(1) I by (simp add: rcvd_def)
      then show ?thesis using k len s False msgs[OF k] zs' lm by (simp add: rd_Some)
    qed
  qed simp
  then obtain zs where zs: "balance_receives n s p incoming (replicate (?b - ?a) dflt) = Some zs" "rcvd n zs"
    by blast
  have "cur ! n = length xs" using cur xs by (simp add: is_distribution_def)
  then have "zs = vspan ?a ?b xs"
    using zs(2) ab by (intro nth_equalityI) (auto simp: rcvd_def nth_vspan)
  then show ?thesis using zs(1) by simp
qed

text \<open>
  The vector of requests is just large enough: a process that sends to many cannot receive
  from many, because both distributions list the processes in the same order.
\<close>

lemma requests_fit:
  assumes cur: "is_distribution cur n N" and tgt: "is_distribution target n N" and r: "r < n"
    and s: "length s = n" "filled (cur ! r) (cur ! Suc r) target n s p"
    and s': "length s' = n" "filled (target ! r) (target ! Suc r) cur n s' p'"
  shows "length (filter (\<lambda>x. x \<noteq> 0) s') + length (filter (\<lambda>x. x \<noteq> 0) s) \<le> n + 1"
proof -
  let ?S = "{t. t < n \<and> s ! t \<noteq> 0}" and ?R = "{t. t < n \<and> s' ! t \<noteq> 0}"
  have S: "cur ! r < target ! Suc t" "target ! t < cur ! Suc r" if "t \<in> ?S" for t
  proof -
    have "overlap (cur ! r) (cur ! Suc r) (target ! t) (target ! Suc t) \<noteq> 0" using s(2) that by (auto simp: filled_def)
    from overlap_less[OF this] show "cur ! r < target ! Suc t" "target ! t < cur ! Suc r" by auto
  qed
  have R: "target ! r < cur ! Suc t" "cur ! t < target ! Suc r" if "t \<in> ?R" for t
  proof -
    have "overlap (target ! r) (target ! Suc r) (cur ! t) (cur ! Suc t) \<noteq> 0" using s'(2) that by (auto simp: filled_def)
    from overlap_less[OF this] show "target ! r < cur ! Suc t" "cur ! t < target ! Suc r" by auto
  qed
  have mono: "cur ! i \<le> cur ! j" "target ! i \<le> target ! j" if "i \<le> j" "j \<le> n" for i j
    using is_distribution_mono[OF cur that] is_distribution_mono[OF tgt that] by auto
  have all: "card ?S \<le> n" "card ?R \<le> n"
    using card_mono[of "{..<n}" ?S] card_mono[of "{..<n}" ?R] by auto
  have up: "card ?S + card ?R \<le> n + 1" if "?S \<subseteq> {r..<n}" "?R \<subseteq> {..r}"
    using card_mono[OF _ that(1)] card_mono[OF _ that(2)] r by simp
  have down: "card ?S + card ?R \<le> n + 1" if "?S \<subseteq> {..r}" "?R \<subseteq> {r..<n}"
    using card_mono[OF _ that(1)] card_mono[OF _ that(2)] r by simp
  have one: "card A \<le> 1" if "A \<subseteq> {r}" for A using card_mono[OF _ that] by simp
  have S_ge: "r \<le> t" if "t \<in> ?S" "target ! r \<le> cur ! r" for t
  proof (rule ccontr)
    assume "\<not> r \<le> t" then show False using mono(2)[of "Suc t" r] S(1)[OF that(1)] that(2) r by simp
  qed
  have S_le: "t \<le> r" if "t \<in> ?S" "cur ! Suc r \<le> target ! Suc r" for t
  proof (rule ccontr)
    assume "\<not> t \<le> r" then show False using mono(2)[of "Suc r" t] S(2)[OF that(1)] that by simp
  qed
  have R_ge: "r \<le> t" if "t \<in> ?R" "cur ! r \<le> target ! r" for t
  proof (rule ccontr)
    assume "\<not> r \<le> t" then show False using mono(1)[of "Suc t" r] R(1)[OF that(1)] that(2) r by simp
  qed
  have R_le: "t \<le> r" if "t \<in> ?R" "target ! Suc r \<le> cur ! Suc r" for t
  proof (rule ccontr)
    assume "\<not> t \<le> r" then show False using mono(1)[of "Suc r" t] R(2)[OF that(1)] that by simp
  qed
  have "card ?S + card ?R \<le> n + 1"
  proof (cases "target ! r \<le> cur ! r"; cases "target ! Suc r \<le> cur ! Suc r")
    assume "target ! r \<le> cur ! r" "target ! Suc r \<le> cur ! Suc r"
    then show ?thesis using S_ge R_le by (intro up) auto
  next
    assume "target ! r \<le> cur ! r" "\<not> target ! Suc r \<le> cur ! Suc r"
    then have "?S \<subseteq> {r}" using S_ge S_le by (auto intro: antisym)
    then show ?thesis using one[of ?S] all(2) by simp
  next
    assume "\<not> target ! r \<le> cur ! r" "target ! Suc r \<le> cur ! Suc r"
    then have "?R \<subseteq> {r}" using R_ge R_le by (auto intro: antisym)
    then show ?thesis using one[of ?R] all(1) by simp
  next
    assume "\<not> target ! r \<le> cur ! r" "\<not> target ! Suc r \<le> cur ! Suc r"
    then show ?thesis using S_le R_ge by (intro down) auto
  qed
  then show ?thesis using s(1) s'(1) by (simp add: length_filter_conv_card)
qed

lemma comm_balance_ok:
  assumes cur: "is_distribution cur n N" and tgt: "is_distribution target n N" and xs: "length xs = N"
    and r: "r < n" and small: "items * N \<le> 2 ^ 30"
    and outs: "\<And>t. t < n \<Longrightarrow> outs ! t = outbox n cur target xs t"
  shows "comm_balance r n items dflt cur target (deliver outs r) (vspan (cur ! r) (cur ! Suc r) xs) =
    Some (True, vspan (target ! r) (target ! Suc r) xs, outbox n cur target xs r)"
proof -
  have le: "cur ! r \<le> cur ! Suc r" "cur ! Suc r \<le> N" "target ! r \<le> target ! Suc r" "Suc r < length target"
    using r tgt is_distribution_mono[OF cur, of r "Suc r"] is_distribution_le[OF cur, of "Suc r"]
      is_distribution_mono[OF tgt, of r "Suc r"] by (auto simp: is_distribution_def)
  have "items * (cur ! Suc r - cur ! r) \<le> items * N" using le by (intro mult_le_mono) auto
  then have guard: "\<not> items * length (vspan (cur ! r) (cur ! Suc r) xs) > 2 ^ 30"
    using le xs small by (metis length_vspan_le le_trans not_le)
  obtain s p where sp: "fill r n cur target = Some (s, p)" "length s = n" "length p = n"
    "filled (cur ! r) (cur ! Suc r) target n s p" using fill_ok[OF cur tgt r] .
  obtain s' p' where sp': "fill r n target cur = Some (s', p')" "length s' = n" "length p' = n"
    "filled (target ! r) (target ! Suc r) cur n s' p'" using fill_ok[OF tgt cur r] .
  have "deliver outs r t = Some (msg_of cur target xs t r)" if "t < n" "s' ! t \<noteq> 0" for t
    using that sp'(4) r outs by (simp add: deliver_def map_of_outbox filled_def overlap_commute)
  then have "balance_receives n s' p' (deliver outs r) (replicate (target ! Suc r - target ! r) dflt) =
      Some (vspan (target ! r) (target ! Suc r) xs)"
    by (rule balance_receives_ok[OF cur tgt xs r sp'(2-4)])
  moreover have "balance_sends n s p (vspan (cur ! r) (cur ! Suc r) xs) = Some (outbox n cur target xs r)"
    by (rule balance_sends_ok[OF cur xs r sp(2-4)])
  ultimately show ?thesis
    unfolding comm_balance_def if_not_P[OF guard]
    using le sp(1) sp'(1) requests_fit[OF cur tgt r sp(2,4) sp'(2,4)] by (simp add: rd_Some)
qed

text \<open>
  C33: Balancing a distributed vector.  Every process holds its block of the data in the current
  distribution, all processes call \<open>comm_balance\<close>, and MPI delivers each message to its
  destination.  Then every process ends with its block of the data in the target
  distribution; every send has a receive of the same length and every receive a send, so no
  process waits forever, and the vector of requests is large enough.  The guard on the size of a message does not fire when the whole data
  is below the limit.
\<close>

theorem comm_balance_correct:
  assumes "is_distribution cur n N" and "is_distribution target n N" and "length xs = N"
    and "items * N \<le> 2 ^ 30"
  shows "\<exists>outs. length outs = n \<and>
    list_all (\<lambda>r. comm_balance r n items dflt cur target (deliver outs r) (vspan (cur ! r) (cur ! Suc r) xs) =
        Some (True, vspan (target ! r) (target ! Suc r) xs, outs ! r)) [0..<n] \<and>
    list_all (\<lambda>(r, t). map_option (\<lambda>(sizes, _). sizes ! r) (fill t n cur target) =
        map_option (\<lambda>(sizes, _). sizes ! t) (fill r n target cur)) (List.product [0..<n] [0..<n])"
proof (intro exI conjI)
  let ?outs = "map (outbox n cur target xs) [0..<n]"
  show "length ?outs = n" by simp
  show "list_all (\<lambda>r. comm_balance r n items dflt cur target (deliver ?outs r) (vspan (cur ! r) (cur ! Suc r) xs) =
        Some (True, vspan (target ! r) (target ! Suc r) xs, ?outs ! r)) [0..<n]"
    using comm_balance_ok[OF assms(1-3) _ assms(4), where outs = ?outs]
    by (simp add: list_all_iff)
  have "map_option (\<lambda>(sizes, _). sizes ! r) (fill t n cur target) =
        map_option (\<lambda>(sizes, _). sizes ! t) (fill r n target cur)" if r: "r < n" and t: "t < n" for r t
  proof -
    obtain s p where "fill t n cur target = Some (s, p)" "filled (cur ! t) (cur ! Suc t) target n s p"
      using fill_ok[OF assms(1,2) t] .
    moreover obtain s' p' where "fill r n target cur = Some (s', p')"
      "filled (target ! r) (target ! Suc r) cur n s' p'" using fill_ok[OF assms(2,1) r] .
    ultimately show ?thesis using r t by (simp add: filled_def overlap_commute)
  qed
  then show "list_all (\<lambda>(r, t). map_option (\<lambda>(sizes, _). sizes ! r) (fill t n cur target) =
        map_option (\<lambda>(sizes, _). sizes ! t) (fill r n target cur)) (List.product [0..<n] [0..<n])"
    by (auto simp: list_all_iff)
qed

theorem comm_balance_correct_witness:
  "\<exists>outs. length outs = 2 \<and>
    list_all (\<lambda>r. comm_balance r 2 1 0 [0, 4, 5] [0, 2, 5] (deliver outs r) (vspan ([0, 4, 5] ! r) ([0, 4, 5] ! Suc r) [7, 8, 9, 10, 11 :: nat]) =
        Some (True, vspan ([0, 2, 5] ! r) ([0, 2, 5] ! Suc r) [7, 8, 9, 10, 11], outs ! r)) [0..<2]"
  using comm_balance_correct[of "[0, 4, 5]" 2 5 "[0, 2, 5]" "[7, 8, 9, 10, 11 :: nat]" 1 0]
  by (auto simp: is_distribution_def)

end
