(* ===== verification/Exchange.thy ===== *)
theory Exchange
  imports Communication
begin

text \<open>
  Point-to-point exchanges of \<^verbatim>\<open>src/basis/utilities/communication.hpp\<close>: messages between
  neighbours with known and unknown sizes, and messages to arbitrary targets.  The loops that
  probe for messages from any source are step relations: what is pending, and which message a
  probe finds, is up to MPI, so the theorems hold for every order of arrival.
\<close>

section \<open>Known sizes\<close>

definition too_large :: "nat \<Rightarrow> 'a list \<Rightarrow> bool" where
  "too_large items buffer \<longleftrightarrow> items * length buffer > 2 ^ 30"

text \<open>
  The functions return the value of the C++ function, the receive buffers and the messages
  sent.  \<open>incoming r\<close> is the message that MPI delivers from \<open>r\<close>.
\<close>

definition receive_known ::
  "(nat \<Rightarrow> bool) \<Rightarrow> nat list \<Rightarrow> (nat \<Rightarrow> 'a list option) \<Rightarrow> 'a list list \<Rightarrow> 'a list list option" where
  "receive_known P neighbours incoming rBuffer = for_each [0..<length neighbours] (\<lambda>n rBuffer. do {
     r \<leftarrow> rd neighbours n;
     if P r then do {
       b \<leftarrow> rd rBuffer n;
       b \<leftarrow> irecv (incoming r) 0 (length b) b;
       wr rBuffer n b
     } else Some rBuffer
   }) rBuffer"

definition send_known :: "(nat \<Rightarrow> bool) \<Rightarrow> nat list \<Rightarrow> 'a list list \<Rightarrow> (nat \<times> 'a list) list option" where
  "send_known P neighbours sBuffer = for_each [0..<length neighbours] (\<lambda>n out. do {
     r \<leftarrow> rd neighbours n;
     if P r then do {
       b \<leftarrow> rd sBuffer n;
       Some (out @ [(r, b)])
     } else Some out
   }) []"

definition exchangeKnownSize ::
  "nat \<Rightarrow> 'a list list \<Rightarrow> nat list \<Rightarrow> (nat \<Rightarrow> 'a list option) \<Rightarrow> 'a list list \<Rightarrow>
     (bool \<times> 'a list list \<times> (nat \<times> 'a list) list) option" where
  "exchangeKnownSize items sBuffer neighbours incoming rBuffer = do {
     refused \<leftarrow> for_each [0..<length neighbours] (\<lambda>n refused. do {
       s \<leftarrow> rd sBuffer n;
       r \<leftarrow> rd rBuffer n;
       Some (refused \<or> too_large items s \<or> too_large items r)
     }) False;
     if refused then Some (False, rBuffer, [])
     else do {
       out \<leftarrow> send_known (\<lambda>_. True) neighbours sBuffer;
       rBuffer \<leftarrow> receive_known (\<lambda>_. True) neighbours incoming rBuffer;
       Some (True, rBuffer, out)
     }
   }"

definition receiveLowerKnownSize ::
  "nat \<Rightarrow> nat \<Rightarrow> 'a list list \<Rightarrow> nat list \<Rightarrow> (nat \<Rightarrow> 'a list option) \<Rightarrow> 'a list list \<Rightarrow>
     (bool \<times> 'a list list \<times> (nat \<times> 'a list) list) option" where
  "receiveLowerKnownSize rank items sBuffer neighbours incoming rBuffer = do {
     refused \<leftarrow> for_each [0..<length neighbours] (\<lambda>n refused. do {
       r \<leftarrow> rd neighbours n;
       b \<leftarrow> (if rank < r then rd sBuffer n else rd rBuffer n);
       Some (refused \<or> too_large items b)
     }) False;
     if refused then Some (False, rBuffer, [])
     else do {
       out \<leftarrow> send_known (\<lambda>r. rank < r) neighbours sBuffer;
       rBuffer \<leftarrow> receive_known (\<lambda>r. r < rank) neighbours incoming rBuffer;
       Some (True, rBuffer, out)
     }
   }"

definition receiveUpperKnownSize ::
  "nat \<Rightarrow> nat \<Rightarrow> 'a list list \<Rightarrow> nat list \<Rightarrow> (nat \<Rightarrow> 'a list option) \<Rightarrow> 'a list list \<Rightarrow>
     (bool \<times> 'a list list \<times> (nat \<times> 'a list) list) option" where
  "receiveUpperKnownSize rank items sBuffer neighbours incoming rBuffer = do {
     refused \<leftarrow> for_each [0..<length neighbours] (\<lambda>n refused. do {
       r \<leftarrow> rd neighbours n;
       b \<leftarrow> (if r < rank then rd sBuffer n else rd rBuffer n);
       Some (refused \<or> too_large items b)
     }) False;
     if refused then Some (False, rBuffer, [])
     else do {
       out \<leftarrow> send_known (\<lambda>r. r < rank) neighbours sBuffer;
       rBuffer \<leftarrow> receive_known (\<lambda>r. rank < r) neighbours incoming rBuffer;
       Some (True, rBuffer, out)
     }
   }"

section \<open>Unknown sizes\<close>

text \<open>
  The state of a receive loop: the messages not yet received, the receive buffers, and the
  counter.
\<close>

record 'a probing =
  pending :: "(nat \<times> 'a list) list"
  rBuffer :: "'a list list"
  counter :: nat

definition n2i :: "nat list \<Rightarrow> nat \<Rightarrow> nat" where
  "n2i neighbours r = lower_bound 0 (length neighbours) r neighbours"

text \<open>
  The body of the loop after a successful probe: the buffer of the sender takes the size and
  the contents of the message.
\<close>

definition receive_probed :: "nat list \<Rightarrow> nat \<Rightarrow> 'a list \<Rightarrow> 'a probing \<Rightarrow> 'a probing option" where
  "receive_probed neighbours src m s = do {
     bs \<leftarrow> wr (rBuffer s) (n2i neighbours src) m;
     Some (s\<lparr>rBuffer := bs, counter := counter s + 1\<rparr>)
   }"

inductive probe_step :: "nat list \<Rightarrow> 'a probing \<Rightarrow> 'a probing \<Rightarrow> bool" for neighbours where
  no_message: "counter s < length neighbours \<Longrightarrow> probe_step neighbours s s"
| message: "counter s < length neighbours \<Longrightarrow> pending s = xs @ (src, m) # ys \<Longrightarrow>
    receive_probed neighbours src m (s\<lparr>pending := xs @ ys\<rparr>) = Some t \<Longrightarrow> probe_step neighbours s t"

inductive_cases probe_stepE: "probe_step neighbours s t"
inductive_simps probe_step_iff: "probe_step neighbours s t"

text \<open>
  What the three functions do before their loop: the guard, the messages they send, and the
  first value of the counter.
\<close>

definition exchangeUnknownSize_start ::
  "nat \<Rightarrow> 'a list list \<Rightarrow> nat list \<Rightarrow> ((nat \<times> 'a list) list \<times> nat) option option" where
  "exchangeUnknownSize_start items sBuffer neighbours = do {
     refused \<leftarrow> for_each [0..<length neighbours] (\<lambda>n refused. do {
       s \<leftarrow> rd sBuffer n;
       Some (refused \<or> too_large items s)
     }) False;
     if refused then Some None
     else do {
       out \<leftarrow> send_known (\<lambda>_. True) neighbours sBuffer;
       Some (Some (out, 0))
     }
   }"

definition exchangeUnknownSize_same_start ::
  "nat \<Rightarrow> 'a list \<Rightarrow> nat list \<Rightarrow> ((nat \<times> 'a list) list \<times> nat) option" where
  "exchangeUnknownSize_same_start items sBuffer neighbours =
    (if too_large items sBuffer then None
     else Some (map (\<lambda>r. (r, sBuffer)) neighbours, 0))"

definition receiveUpperUnknownSize_start ::
  "nat \<Rightarrow> nat \<Rightarrow> 'a list list \<Rightarrow> nat list \<Rightarrow> ((nat \<times> 'a list) list \<times> nat) option option" where
  "receiveUpperUnknownSize_start rank items sBuffer neighbours = do {
     let lower = length (takeWhile (\<lambda>r. r < rank) neighbours);
     refused \<leftarrow> for_each [0..<lower] (\<lambda>n refused. do {
       s \<leftarrow> rd sBuffer n;
       Some (refused \<or> too_large items s)
     }) False;
     if refused then Some None
     else do {
       out \<leftarrow> for_each [0..<lower] (\<lambda>n out. do {
         r \<leftarrow> rd neighbours n;
         b \<leftarrow> rd sBuffer n;
         Some (out @ [(r, b)])
       }) [];
       Some (Some (out, lower_bound 0 (length neighbours) rank neighbours))
     }
   }"

section \<open>The receive loop, for every order of arrival\<close>

lemma n2i_nth:
  assumes "sorted neighbours" and "distinct neighbours" and "i < length neighbours"
  shows "n2i neighbours (neighbours ! i) = i"
proof -
  have "takeWhile (\<lambda>r. r < neighbours ! i) neighbours = take i neighbours"
  proof (rule takeWhile_eq_take_P_nth)
    fix j assume "j < i" "j < length neighbours"
    then show "neighbours ! j < neighbours ! i"
      using assms by (metis le_neq_implies_less less_imp_le_nat nth_eq_iff_index_eq less_irrefl sorted_nth_mono)
  qed simp
  then show ?thesis using assms(3) by (simp add: n2i_def lower_bound_def)
qed

lemma n2i_props:
  assumes "sorted neighbours" and "distinct neighbours" and "r \<in> set neighbours"
  shows "n2i neighbours r < length neighbours" and "neighbours ! n2i neighbours r = r"
  using assms n2i_nth by (auto simp: in_set_conv_nth)

definition probing_ok :: "nat list \<Rightarrow> 'a list list \<Rightarrow> 'a list list \<Rightarrow> nat \<Rightarrow> 'a probing \<Rightarrow> bool" where
  "probing_ok neighbours msgs old k s \<longleftrightarrow>
     length (rBuffer s) = length neighbours \<and> counter s + length (pending s) = length neighbours \<and>
     mset (pending s) \<subseteq># mset (drop k (zip neighbours msgs)) \<and>
     (\<forall>i < length neighbours. k \<le> i \<longrightarrow> (neighbours ! i, msgs ! i) \<in> set (pending s) \<or> rBuffer s ! i = msgs ! i) \<and>
     (\<forall>i < k. rBuffer s ! i = old ! i)"

lemma pending_from_neighbour:
  assumes "probing_ok neighbours msgs old k s" and "length msgs = length neighbours"
    and "(src, m) \<in> set (pending s)"
  obtains i where "k \<le> i" "i < length neighbours" "src = neighbours ! i" "m = msgs ! i"
proof -
  have "(src, m) \<in> set (drop k (zip neighbours msgs))"
    using assms(1,3) by (auto simp: probing_ok_def dest: mset_subset_eqD)
  then obtain j where "j < length neighbours - k" "(src, m) = zip neighbours msgs ! (k + j)"
    using assms(2) by (auto simp: in_set_conv_nth)
  then show thesis using that[of "k + j"] assms(2) by simp
qed

lemma probe_step_keeps_ok:
  assumes ok: "probing_ok neighbours msgs old k s" and len: "length msgs = length neighbours"
    and sd: "sorted neighbours" "distinct neighbours" and st: "probe_step neighbours s t"
  shows "probing_ok neighbours msgs old k t"
  using st
proof cases
  case no_message
  then show ?thesis using ok by simp
next
  case (message xs src m ys)
  then obtain i where i: "k \<le> i" "i < length neighbours" "src = neighbours ! i" "m = msgs ! i"
    using pending_from_neighbour[OF ok len, of src m] by auto
  have lenb: "length (rBuffer s) = length neighbours" using ok by (simp add: probing_ok_def)
  have t: "t = s\<lparr>pending := xs @ ys, rBuffer := (rBuffer s)[i := m], counter := counter s + 1\<rparr>"
    using message(3) i(2) n2i_nth[OF sd i(2)] lenb
    by (simp add: receive_probed_def i(3) wr_Some)
  have "mset (xs @ ys) \<subseteq># mset (drop k (zip neighbours msgs))"
    using ok message(2) by (auto simp: probing_ok_def intro: subset_mset.trans[rotated])
  moreover have "(neighbours ! j, msgs ! j) \<in> set (xs @ ys) \<or> (rBuffer s)[i := m] ! j = msgs ! j"
    if "j < length neighbours" "k \<le> j" for j
  proof (cases "j = i")
    case True
    then show ?thesis using i lenb by simp
  next
    case False
    then have "neighbours ! j \<noteq> src" using i sd(2) that nth_eq_iff_index_eq by metis
    then show ?thesis using ok that False message(2) by (auto simp: probing_ok_def)
  qed
  ultimately show ?thesis
    using ok message(2) i(1) by (auto simp: probing_ok_def t)
qed

lemma probe_steps_keep_ok:
  assumes "(probe_step neighbours)\<^sup>*\<^sup>* s t" and "probing_ok neighbours msgs old k s"
    and "length msgs = length neighbours" and "sorted neighbours" and "distinct neighbours"
  shows "probing_ok neighbours msgs old k t"
  using assms(1,2) by (induction rule: rtranclp_induct) (auto intro: probe_step_keeps_ok[OF _ assms(3-5)])

lemma probe_step_progress:
  assumes ok: "probing_ok neighbours msgs old k s" and len: "length msgs = length neighbours"
    and sd: "sorted neighbours" "distinct neighbours" and more: "counter s < length neighbours"
  shows "\<exists>t. probe_step neighbours s t \<and> counter t = Suc (counter s)"
proof -
  obtain src m ys where p: "pending s = [] @ (src, m) # ys"
    using ok more by (cases "pending s") (auto simp: probing_ok_def)
  then obtain i where i: "i < length neighbours" "src = neighbours ! i"
    using pending_from_neighbour[OF ok len, of src m] by auto
  let ?u = "s\<lparr>pending := ys, rBuffer := (rBuffer s)[i := m], counter := counter s + 1\<rparr>"
  have "receive_probed neighbours src m (s\<lparr>pending := [] @ ys\<rparr>) = Some ?u"
    using ok i n2i_nth[OF sd i(1)] by (simp add: receive_probed_def probing_ok_def wr_Some)
  from probe_step.message[OF more p this] show ?thesis by auto
qed

lemma probe_loop_finishes:
  assumes "probing_ok neighbours msgs old k s" and "length msgs = length neighbours"
    and "sorted neighbours" and "distinct neighbours" and "counter s \<le> length neighbours"
  shows "\<exists>t. (probe_step neighbours)\<^sup>*\<^sup>* s t \<and> counter t = length neighbours"
  using assms(1,5)
proof (induction "length neighbours - counter s" arbitrary: s)
  case (Suc d)
  then have "counter s < length neighbours" by simp
  from probe_step_progress[OF Suc.prems(1) assms(2-4) this]
  obtain t where t: "probe_step neighbours s t" "counter t = Suc (counter s)" by blast
  have "\<exists>u. (probe_step neighbours)\<^sup>*\<^sup>* t u \<and> counter u = length neighbours"
    using Suc.hyps(2) t(2) probe_step_keeps_ok[OF Suc.prems(1) assms(2-4) t(1)] by (intro Suc.hyps(1)) auto
  then show ?case using t(1) by (meson converse_rtranclp_into_rtranclp)
qed auto

lemma probing_ok_finished:
  assumes "probing_ok neighbours msgs old k s" and "length msgs = length neighbours"
    and "length old = length neighbours" and "k \<le> length neighbours" and "counter s = length neighbours"
  shows "rBuffer s = take k old @ drop k msgs" and "pending s = []"
proof -
  show "pending s = []" using assms(1,5) by (simp add: probing_ok_def)
  then show "rBuffer s = take k old @ drop k msgs"
    using assms by (intro nth_equalityI) (auto simp: probing_ok_def nth_append not_less)
qed

lemma probing_ok_start:
  assumes "mset inbox = mset (drop k (zip neighbours msgs))" and "length msgs = length neighbours"
    and "length old = length neighbours" and "k \<le> length neighbours"
  shows "probing_ok neighbours msgs old k \<lparr>pending = inbox, rBuffer = old, counter = k\<rparr>"
proof -
  have set: "set inbox = set (drop k (zip neighbours msgs))" using assms(1) by (metis set_mset_mset)
  have "(neighbours ! i, msgs ! i) \<in> set inbox" if "i < length neighbours" "k \<le> i" for i
  proof -
    have "drop k (zip neighbours msgs) ! (i - k) = (neighbours ! i, msgs ! i)" using that assms(2) by simp
    then show ?thesis unfolding set using that assms(2) by (metis diff_less_mono length_drop length_zip min.idem nth_mem)
  qed
  moreover have "length inbox = length neighbours - k"
    using mset_eq_length[OF assms(1)] assms(2) by simp
  ultimately show ?thesis using assms by (simp add: probing_ok_def)
qed

lemma probe_step_finished: "counter s = length neighbours \<Longrightarrow> \<not> probe_step neighbours s t"
  by (simp add: probe_step_iff)

lemma probe_step_counter:
  assumes "probe_step neighbours s t" shows "counter s \<le> counter t \<and> counter t \<le> length neighbours"
  using assms by (auto simp: receive_probed_def bind_eq_Some_conv elim!: probe_stepE)

section \<open>The exchange in a whole group\<close>

text \<open>
  Neighbour lists as the callers build them: sorted, without duplicates and without the
  process itself, and symmetric.
\<close>

definition neighbourhood :: "nat \<Rightarrow> nat list list \<Rightarrow> bool" where
  "neighbourhood n nbs \<longleftrightarrow> length nbs = n \<and>
     list_all (\<lambda>p. sorted (nbs ! p) \<and> distinct (nbs ! p) \<and> p \<notin> set (nbs ! p) \<and>
       list_all (\<lambda>q. q < n \<and> p \<in> set (nbs ! q)) (nbs ! p)) [0..<n]"

lemma neighbourhoodD:
  assumes "neighbourhood n nbs" and "p < n"
  shows "sorted (nbs ! p)" "distinct (nbs ! p)" "p \<notin> set (nbs ! p)"
    and "q \<in> set (nbs ! p) \<Longrightarrow> q < n" and "q < n \<Longrightarrow> q \<in> set (nbs ! p) \<longleftrightarrow> p \<in> set (nbs ! q)"
proof -
  have all: "sorted (nbs ! r) \<and> distinct (nbs ! r) \<and> r \<notin> set (nbs ! r) \<and>
      (\<forall>s \<in> set (nbs ! r). s < n \<and> r \<in> set (nbs ! s))" if "r < n" for r
  proof -
    have "r \<in> set [0..<n]" using that by simp
    then show ?thesis using assms(1) unfolding neighbourhood_def list_all_iff by blast
  qed
  show "sorted (nbs ! p)" "distinct (nbs ! p)" "p \<notin> set (nbs ! p)"
    and "q \<in> set (nbs ! p) \<Longrightarrow> q < n"
    using all[OF assms(2)] by blast+
  show "q < n \<Longrightarrow> q \<in> set (nbs ! p) \<longleftrightarrow> p \<in> set (nbs ! q)"
    using all[of q] all[OF assms(2)] by blast
qed

text \<open>The messages sent to the process \<open>p\<close>, with their sources, in one possible order.\<close>

definition arrivals :: "(nat \<times> 'a list) list list \<Rightarrow> nat \<Rightarrow> (nat \<times> 'a list) list" where
  "arrivals outs p = concat (map (\<lambda>q. map (\<lambda>m. (q, snd m)) (filter (\<lambda>m. fst m = p) (outs ! q)))
     [0..<length outs])"

lemma filter_fst_zip:
  "distinct ks \<Longrightarrow> i < length ks \<Longrightarrow> length vs = length ks \<Longrightarrow>
    filter (\<lambda>m. fst m = ks ! i) (zip ks vs) = [(ks ! i, vs ! i)]"
proof (induction ks arbitrary: i vs)
  case (Cons k ks)
  then obtain v vs' where vs: "vs = v # vs'" "length vs' = length ks" by (cases vs) auto
  show ?case
  proof (cases i)
    case 0
    have "filter (\<lambda>m. fst m = k) (zip ks vs') = []"
      using Cons.prems(1) by (auto simp: filter_empty_conv dest: set_zip_leftD)
    then show ?thesis using 0 vs by simp
  next
    case (Suc j)
    then show ?thesis using Cons vs by auto
  qed
qed simp

lemma sorted_filter_upt:
  assumes "sorted xs" and "distinct xs" and "\<And>x. x \<in> set xs \<Longrightarrow> x < n"
  shows "filter (\<lambda>x. x \<in> set xs) [0..<n] = xs"
proof (rule sorted_distinct_set_unique)
  show "sorted (filter (\<lambda>x. x \<in> set xs) [0..<n])" by (simp add: sorted_wrt_filter)
  show "set (filter (\<lambda>x. x \<in> set xs) [0..<n]) = set xs" using assms(3) by auto
qed (use assms in simp_all)

lemma concat_map_if: "concat (map (\<lambda>q. if P q then [f q] else []) xs) = map f (filter P xs)"
  by (induction xs) auto

lemma arrivals_sends:
  assumes nb: "neighbourhood n nbs" and "\<And>q. q < n \<Longrightarrow> length (sb ! q) = length (nbs ! q)" and p: "p < n"
    and outs: "length outs = n" "\<And>q. q < n \<Longrightarrow> outs ! q = filter (\<lambda>m. P q (fst m)) (zip (nbs ! q) (sb ! q))"
  shows "arrivals outs p = map (\<lambda>q. (q, sb ! q ! n2i (nbs ! q) p)) (filter (\<lambda>q. P q p) (nbs ! p))"
proof -
  let ?f = "\<lambda>q. (q, sb ! q ! n2i (nbs ! q) p)"
  have "map (\<lambda>m. (q, snd m)) (filter (\<lambda>m. fst m = p) (outs ! q)) =
      (if P q p \<and> q \<in> set (nbs ! p) then [?f q] else [])" if q: "q < n" for q
  proof (cases "p \<in> set (nbs ! q)")
    case True
    note i = n2i_props[OF neighbourhoodD(1,2)[OF nb q] True]
    have "filter (\<lambda>m. fst m = p) (outs ! q) = filter (\<lambda>m. P q (fst m)) (filter (\<lambda>m. fst m = p) (zip (nbs ! q) (sb ! q)))"
      by (simp add: outs(2)[OF q]) (metis (mono_tags, lifting) filter_filter filter_cong)
    also have "filter (\<lambda>m. fst m = p) (zip (nbs ! q) (sb ! q)) = [(p, sb ! q ! n2i (nbs ! q) p)]"
      using filter_fst_zip[OF neighbourhoodD(2)[OF nb q] i(1), of "sb ! q"] i(2) assms(2)[OF q] by simp
    finally show ?thesis using neighbourhoodD(5)[OF nb p q] True by simp
  next
    case False
    then have "filter (\<lambda>m. fst m = p) (outs ! q) = []"
      using outs(2)[OF q] by (auto simp: filter_empty_conv dest: set_zip_leftD)
    then show ?thesis using neighbourhoodD(5)[OF nb p q] False by simp
  qed
  then have "map (\<lambda>q. map (\<lambda>m. (q, snd m)) (filter (\<lambda>m. fst m = p) (outs ! q))) [0..<n] =
      map (\<lambda>q. if P q p \<and> q \<in> set (nbs ! p) then [?f q] else []) [0..<n]"
    by (intro map_cong) auto
  then have "arrivals outs p = map ?f (filter (\<lambda>q. P q p \<and> q \<in> set (nbs ! p)) [0..<n])"
    by (simp only: arrivals_def outs(1) concat_map_if)
  also have "filter (\<lambda>q. P q p \<and> q \<in> set (nbs ! p)) [0..<n] = filter (\<lambda>q. P q p) (filter (\<lambda>q. q \<in> set (nbs ! p)) [0..<n])"
    by (simp add: conj_commute)
  also have "filter (\<lambda>q. q \<in> set (nbs ! p)) [0..<n] = nbs ! p"
    by (rule sorted_filter_upt[OF neighbourhoodD(1,2,4)[OF nb p]])
  finally show ?thesis .
qed

lemma send_known_all:
  assumes "length sBuffer = length neighbours"
  shows "send_known P neighbours sBuffer = Some (filter (\<lambda>m. P (fst m)) (zip neighbours sBuffer))"
proof -
  have "\<exists>out. send_known P neighbours sBuffer = Some out \<and>
      out = filter (\<lambda>m. P (fst m)) (take (length neighbours) (zip neighbours sBuffer))"
    unfolding send_known_def
    by (rule for_each_upt) (use assms in \<open>auto simp: rd_Some take_Suc_conv_app_nth\<close>)
  then show ?thesis using assms by simp
qed

lemma refused_iff:
  assumes "\<And>n. n < k \<Longrightarrow> body n = (\<lambda>refused. Some (refused \<or> too_large items (f n)))"
  shows "for_each [0..<k] body False = Some (\<exists>n < k. too_large items (f n))"
proof -
  have "for_each [0..<k] body False = for_each [0..<k] (\<lambda>n refused. Some (refused \<or> too_large items (f n))) False"
    using assms by (intro for_each_cong) auto
  also have "\<dots> = Some (\<exists>n < k. too_large items (f n))"
    by (induction k) (auto simp: for_each_append less_Suc_eq)
  finally show ?thesis .
qed

text \<open>What the process \<open>p\<close> is to find in its receive buffers.\<close>

definition expected :: "nat list list \<Rightarrow> 'a list list list \<Rightarrow> nat \<Rightarrow> 'a list list" where
  "expected nbs sb p = map (\<lambda>q. sb ! q ! n2i (nbs ! q) p) (nbs ! p)"

text \<open>A receive loop that starts with the messages \<open>inbox\<close> pending ends as required.\<close>

lemma receive_loop_ok:
  assumes nb: "neighbourhood n nbs" and p: "p < n" and "k \<le> length (nbs ! p)" and "length old = length (nbs ! p)"
    and "mset inbox = mset (drop k (zip (nbs ! p) (expected nbs sb p)))"
    and "(probe_step (nbs ! p))\<^sup>*\<^sup>* \<lparr>pending = inbox, rBuffer = old, counter = k\<rparr> s"
  shows "(counter s = length (nbs ! p) \<longrightarrow>
      rBuffer s = take k old @ drop k (expected nbs sb p) \<and> pending s = []) \<and>
    (\<exists>t. (probe_step (nbs ! p))\<^sup>*\<^sup>* s t \<and> counter t = length (nbs ! p))"
proof -
  let ?m = "expected nbs sb p"
  have len: "length ?m = length (nbs ! p)" by (simp add: expected_def)
  note sd = neighbourhoodD(1,2)[OF nb p]
  have ok: "probing_ok (nbs ! p) ?m old k s"
    by (rule probe_steps_keep_ok[OF assms(6) probing_ok_start[OF assms(5) len assms(4,3)] len sd])
  have "counter s \<le> length (nbs ! p)" using ok by (simp add: probing_ok_def)
  from probe_loop_finishes[OF ok len sd this] probing_ok_finished[OF ok len assms(4,3)]
  show ?thesis by blast
qed

lemma arrivals_all:
  assumes "neighbourhood n nbs" and "length sb = n" and "\<And>q. q < n \<Longrightarrow> length (sb ! q) = length (nbs ! q)"
    and "p < n"
  shows "arrivals (map2 zip nbs sb) p = zip (nbs ! p) (expected nbs sb p)"
proof -
  have len: "length nbs = n" using assms(1) by (simp add: neighbourhood_def)
  have zips: "map2 zip nbs sb ! q = zip (nbs ! q) (sb ! q)" if "q < n" for q
    using that len assms(2) by (subst nth_map) simp_all
  have "arrivals (map2 zip nbs sb) p = map (\<lambda>q. (q, sb ! q ! n2i (nbs ! q) p)) (filter (\<lambda>_. True) (nbs ! p))"
    using assms len zips by (intro arrivals_sends[where P = "\<lambda>_ _. True"]) auto
  then show ?thesis by (simp add: expected_def zip_map2 zip_same_conv_map)
qed

lemma exchangeUnknownSize_start_ok:
  assumes "length sBuffer = length neighbours" and "list_all (\<lambda>b. items * length b \<le> 2 ^ 30) sBuffer"
  shows "exchangeUnknownSize_start items sBuffer neighbours = Some (Some (zip neighbours sBuffer, 0))"
proof -
  have "for_each [0..<length neighbours] (\<lambda>n refused. do { s \<leftarrow> rd sBuffer n; Some (refused \<or> too_large items s) }) False =
      Some (\<exists>n < length neighbours. too_large items (sBuffer ! n))"
    using assms(1) by (intro refused_iff) (simp add: rd_Some)
  then show ?thesis
    using assms by (auto simp: exchangeUnknownSize_start_def send_known_all too_large_def list_all_length)
qed

lemma exchangeUnknownSize_same:
  assumes "neighbours \<noteq> []"
  shows "exchangeUnknownSize_start items (replicate (length neighbours) b) neighbours =
    Some (exchangeUnknownSize_same_start items b neighbours)"
proof (cases "too_large items b")
  case False
  then show ?thesis
    by (simp add: exchangeUnknownSize_start_ok exchangeUnknownSize_same_start_def too_large_def
        list_all_length zip_replicate2)
next
  case True
  have "for_each [0..<length neighbours] (\<lambda>n refused. do {
      s \<leftarrow> rd (replicate (length neighbours) b) n; Some (refused \<or> too_large items s) }) False =
      Some (\<exists>n < length neighbours. too_large items b)"
    by (intro refused_iff) (simp add: rd_Some)
  then show ?thesis
    using True assms by (auto simp: exchangeUnknownSize_start_def exchangeUnknownSize_same_start_def)
qed

text \<open>
  C34: The exchange with neighbours whose message sizes are unknown.  For sorted symmetric
  neighbour lists and messages below the limit, every process sends each buffer to its
  neighbour; whatever order the messages arrive in, the receive loop can always go on until the
  counter is full, and then every buffer holds the message of its neighbour.  Sending one
  buffer to everybody is the exchange with copies of this buffer.
\<close>

theorem exchangeUnknownSize_correct:
  assumes "neighbourhood n nbs" and "length sb = n" and "p < n"
    and "list_all (\<lambda>q. length (sb ! q) = length (nbs ! q) \<and> list_all (\<lambda>b. items * length b \<le> 2 ^ 30) (sb ! q)) [0..<n]"
    and "length old = length (nbs ! p)" and "mset inbox = mset (arrivals (map2 zip nbs sb) p)"
    and "(probe_step (nbs ! p))\<^sup>*\<^sup>* \<lparr>pending = inbox, rBuffer = old, counter = 0\<rparr> s"
  shows "list_all (\<lambda>q. exchangeUnknownSize_start items (sb ! q) (nbs ! q) = Some (Some (zip (nbs ! q) (sb ! q), 0))) [0..<n] \<and>
    (counter s = length (nbs ! p) \<longrightarrow> rBuffer s = expected nbs sb p \<and> pending s = []) \<and>
    (\<exists>t. (probe_step (nbs ! p))\<^sup>*\<^sup>* s t \<and> counter t = length (nbs ! p)) \<and>
    (nbs ! p \<noteq> [] \<longrightarrow> exchangeUnknownSize_start items (replicate (length (nbs ! p)) b) (nbs ! p) =
      Some (exchangeUnknownSize_same_start items b (nbs ! p)))"
proof (intro conjI)
  show "list_all (\<lambda>q. exchangeUnknownSize_start items (sb ! q) (nbs ! q) = Some (Some (zip (nbs ! q) (sb ! q), 0))) [0..<n]"
    using assms(4) by (auto simp: list_all_iff intro!: exchangeUnknownSize_start_ok)
  have "mset inbox = mset (drop 0 (zip (nbs ! p) (expected nbs sb p)))"
    using arrivals_all[OF assms(1,2) _ assms(3)] assms(4,6) by (simp add: list_all_iff)
  from receive_loop_ok[OF assms(1,3) _ assms(5) this assms(7)]
  show "counter s = length (nbs ! p) \<longrightarrow> rBuffer s = expected nbs sb p \<and> pending s = []"
    and "\<exists>t. (probe_step (nbs ! p))\<^sup>*\<^sup>* s t \<and> counter t = length (nbs ! p)" by simp_all
qed (use exchangeUnknownSize_same in blast)

theorem exchangeUnknownSize_correct_witness:
  "\<exists>t. (probe_step ([[1, 2], [0], [0]] ! 0))\<^sup>*\<^sup>*
      \<lparr>pending = [(2, [8]), (1, [7, 7 :: nat])], rBuffer = [[], []], counter = 0\<rparr> t \<and>
    counter t = length ([[1, 2], [0], [0 :: nat]] ! 0)"
proof (rule exchangeUnknownSize_correct[where n = 3 and sb = "[[[1], [2]], [[7, 7]], [[8]]]" and items = 1
      and inbox = "[(2, [8]), (1, [7, 7])]" and old = "[[], []]", THEN conjunct2, THEN conjunct2, THEN conjunct1])
  show "neighbourhood 3 [[1, 2], [0], [0]]" by code_simp
  show "mset [(2, [8]), (1, [7, 7 :: nat])] =
      mset (arrivals (map2 zip [[1, 2], [0], [0 :: nat]] [[[1], [2]], [[7, 7]], [[8]]]) 0)" by code_simp
qed (simp_all add: upt_rec)

lemma receiveUpper_start_ok:
  assumes "sorted neighbours" and "length sBuffer = length neighbours"
    and "list_all (\<lambda>b. items * length b \<le> 2 ^ 30) sBuffer"
  shows "receiveUpperUnknownSize_start rank items sBuffer neighbours =
    Some (Some (filter (\<lambda>m. fst m < rank) (zip neighbours sBuffer), length (takeWhile (\<lambda>r. r < rank) neighbours)))"
proof -
  let ?l = "length (takeWhile (\<lambda>r. r < rank) neighbours)"
  have l: "?l \<le> length neighbours" by (rule length_takeWhile_le)
  have "for_each [0..<?l] (\<lambda>n refused. do { s \<leftarrow> rd sBuffer n; Some (refused \<or> too_large items s) }) False =
      Some (\<exists>n < ?l. too_large items (sBuffer ! n))"
    using assms(2) l by (intro refused_iff) (simp add: rd_Some)
  moreover have "\<not> (\<exists>n < ?l. too_large items (sBuffer ! n))"
  proof clarify
    fix m assume "m < ?l"
    then have "m < length sBuffer" using l assms(2) by linarith
    then have "items * length (sBuffer ! m) \<le> 2 ^ 30" using assms(3) by (simp add: list_all_length)
    moreover assume "too_large items (sBuffer ! m)"
    ultimately show False by (simp add: too_large_def)
  qed
  moreover have "\<exists>out. for_each [0..<?l] (\<lambda>n out. do {
      r \<leftarrow> rd neighbours n; b \<leftarrow> rd sBuffer n; Some (out @ [(r, b)]) }) [] = Some out \<and>
      out = take ?l (zip neighbours sBuffer)"
    using assms(2) l by (intro for_each_upt) (auto simp: rd_Some take_Suc_conv_app_nth)
  moreover have "take ?l (zip neighbours sBuffer) = filter (\<lambda>m. fst m < rank) (zip neighbours sBuffer)"
    using assms(1,2)
  proof (induction neighbours arbitrary: sBuffer)
    case (Cons r rs)
    then obtain b bs where b: "sBuffer = b # bs" "length bs = length rs" by (cases sBuffer) auto
    show ?case
    proof (cases "r < rank")
      case False
      then have "filter (\<lambda>m. fst m < rank) (zip rs bs) = []"
        using Cons.prems(1) by (auto simp: filter_empty_conv dest!: set_zip_leftD)
      then show ?thesis using False b by simp
    qed (use Cons b in simp)
  qed simp
  ultimately show ?thesis
    by (auto simp: receiveUpperUnknownSize_start_def lower_bound_def)
qed

lemma filter_above:
  assumes "sorted xs" and "p \<notin> set xs"
  shows "filter (\<lambda>q. p < q) xs = drop (length (takeWhile (\<lambda>r. r < p) xs)) (xs :: nat list)"
  using assms
proof (induction xs)
  case (Cons x xs)
  show ?case
  proof (cases "x < p")
    case False
    then have "p < x" using Cons.prems(2) by simp
    then have "filter (\<lambda>q. p < q) (x # xs) = x # xs" using Cons.prems(1) by (auto intro!: filter_True)
    then show ?thesis using False by simp
  qed (use Cons in simp)
qed simp

text \<open>
  Receiving from the neighbours of higher rank.  A process sends to its lower neighbours and
  starts counting behind them; the loop can always go on until the counter is full, and then the
  buffers of the higher neighbours hold their messages and the other buffers are as before.
\<close>

theorem receiveUpperUnknownSize_correct:
  assumes "neighbourhood n nbs" and "length sb = n" and "p < n"
    and "list_all (\<lambda>q. length (sb ! q) = length (nbs ! q) \<and> list_all (\<lambda>b. items * length b \<le> 2 ^ 30) (sb ! q)) [0..<n]"
    and "length outs = n"
    and "list_all (\<lambda>q. receiveUpperUnknownSize_start q items (sb ! q) (nbs ! q) = Some (Some (outs ! q, start ! q))) [0..<n]"
    and "length old = length (nbs ! p)" and "mset inbox = mset (arrivals outs p)"
    and "(probe_step (nbs ! p))\<^sup>*\<^sup>* \<lparr>pending = inbox, rBuffer = old, counter = start ! p\<rparr> s"
  shows "(counter s = length (nbs ! p) \<longrightarrow>
      rBuffer s = take (start ! p) old @ drop (start ! p) (expected nbs sb p) \<and> pending s = []) \<and>
    (\<exists>t. (probe_step (nbs ! p))\<^sup>*\<^sup>* s t \<and> counter t = length (nbs ! p))"
proof (intro conjI)
  have st: "outs ! q = filter (\<lambda>m. fst m < q) (zip (nbs ! q) (sb ! q)) \<and>
      start ! q = length (takeWhile (\<lambda>r. r < q) (nbs ! q))" if q: "q < n" for q
  proof -
    have q': "length (sb ! q) = length (nbs ! q)" "list_all (\<lambda>b. items * length b \<le> 2 ^ 30) (sb ! q)"
      "receiveUpperUnknownSize_start q items (sb ! q) (nbs ! q) = Some (Some (outs ! q, start ! q))"
      using assms(4,6) q by (auto simp: list_all_iff)
    show ?thesis using receiveUpper_start_ok[OF neighbourhoodD(1)[OF assms(1) q] q'(1,2)] q'(3) by simp
  qed
  have lens: "length (sb ! q) = length (nbs ! q)" if "q < n" for q
    using assms(4) that by (simp add: list_all_iff)
  let ?f = "\<lambda>q. (q, sb ! q ! n2i (nbs ! q) p)"
  have "arrivals outs p = map ?f (filter (\<lambda>q. p < q) (nbs ! p))"
    using st by (intro arrivals_sends[OF assms(1) lens assms(3,5), where P = "\<lambda>q r. r < q"]) auto
  also have "\<dots> = map ?f (drop (start ! p) (nbs ! p))"
    using filter_above[OF neighbourhoodD(1,3)[OF assms(1,3)]] st[OF assms(3)] by simp
  also have "\<dots> = drop (start ! p) (zip (nbs ! p) (expected nbs sb p))"
    by (simp add: expected_def zip_map2 zip_same_conv_map drop_map)
  finally have "mset inbox = mset (drop (start ! p) (zip (nbs ! p) (expected nbs sb p)))"
    using assms(8) by simp
  moreover have "start ! p \<le> length (nbs ! p)" using st[OF assms(3)] length_takeWhile_le by simp
  ultimately show "counter s = length (nbs ! p) \<longrightarrow>
      rBuffer s = take (start ! p) old @ drop (start ! p) (expected nbs sb p) \<and> pending s = []"
    and "\<exists>t. (probe_step (nbs ! p))\<^sup>*\<^sup>* s t \<and> counter t = length (nbs ! p)"
    using receive_loop_ok[OF assms(1,3) _ assms(7) _ assms(9)] by blast+
qed

theorem receiveUpperUnknownSize_correct_witness:
  "\<exists>t. (probe_step ([[1, 2], [0], [0]] ! 0))\<^sup>*\<^sup>*
      \<lparr>pending = [(2, [8]), (1, [7, 7 :: nat])], rBuffer = [[], []], counter = [0, 1, 1] ! 0\<rparr> t \<and>
    counter t = length ([[1, 2], [0], [0 :: nat]] ! 0)"
proof (rule receiveUpperUnknownSize_correct[where n = 3 and sb = "[[[1], [2]], [[7, 7]], [[8]]]" and items = 1
      and inbox = "[(2, [8]), (1, [7, 7])]" and old = "[[], []]" and outs = "[[], [(0, [7, 7])], [(0, [8])]]", THEN conjunct2])
  show "neighbourhood 3 [[1, 2], [0], [0]]" by code_simp
  show "mset [(2, [8]), (1, [7, 7 :: nat])] = mset (arrivals [[], [(0, [7, 7])], [(0, [8])]] 0)" by code_simp
  show "list_all (\<lambda>q. receiveUpperUnknownSize_start q 1 ([[[1], [2]], [[7, 7]], [[8 :: nat]]] ! q) ([[1, 2], [0], [0]] ! q) =
      Some (Some ([[], [(0, [7, 7])], [(0, [8])]] ! q, [0, 1, 1] ! q))) [0..<3]"
    by (simp add: upt_rec receiveUpper_start_ok)
qed (simp_all add: upt_rec)

section \<open>Exchanges of known sizes\<close>

lemma receive_known_ok:
  assumes "length rb = length neighbours"
    and "\<And>n. n < length neighbours \<Longrightarrow> P (neighbours ! n) \<Longrightarrow> map_option length (incoming (neighbours ! n)) = Some (length (rb ! n))"
  shows "receive_known P neighbours incoming rb =
    Some (map (\<lambda>(r, b). if P r then the (incoming r) else b) (zip neighbours rb))"
proof -
  let ?new = "\<lambda>k. map (\<lambda>(r, b). if P r then the (incoming r) else b) (zip (take k neighbours) (take k rb)) @ drop k rb"
  have "\<exists>bs. receive_known P neighbours incoming rb = Some bs \<and> bs = ?new (length neighbours)"
    unfolding receive_known_def
  proof (rule for_each_upt)
    fix k bs assume k: "k < length neighbours" and bs: "bs = ?new k"
    have nth: "bs ! k = rb ! k" "k < length bs" using bs k assms(1) by (auto simp: nth_append)
    have upd: "bs[k := v] = map (\<lambda>(r, b). if P r then the (incoming r) else b) (zip (take k neighbours) (take k rb)) @ v # drop (Suc k) rb" for v
      using bs k assms(1) by (simp add: list_update_append Cons_nth_drop_Suc[symmetric])
    have new: "?new (Suc k) = bs[k := if P (neighbours ! k) then the (incoming (neighbours ! k)) else rb ! k]"
      using k assms(1) by (simp add: upd take_Suc_conv_app_nth)
    show "\<exists>bs'. (do { r \<leftarrow> rd neighbours k; if P r then do { b \<leftarrow> rd bs k; b \<leftarrow> irecv (incoming r) 0 (length b) b; wr bs k b }
        else Some bs }) = Some bs' \<and> bs' = ?new (Suc k)"
    proof (cases "P (neighbours ! k)")
      case True
      with assms(2)[OF k True] obtain m where m: "incoming (neighbours ! k) = Some m" "length m = length (rb ! k)" by auto
      then show ?thesis using True k nth new by (simp add: rd_Some wr_Some irecv_def)
    next
      case False
      have "?new (Suc k) = bs" unfolding new if_not_P[OF False] nth(1)[symmetric] by (rule list_update_id)
      then show ?thesis using False k bs by (simp only: rd_Some Option.bind.bind_lunit if_False) simp
    qed
  qed (use assms(1) in simp_all)
  then show ?thesis using assms(1) by simp
qed

text \<open>
  Exchanges with known sizes.  When the messages that arrive have the sizes of the receive
  buffers and none is too large, \<open>exchangeKnownSize\<close> replaces every buffer by the message of the
  neighbour, and receiving from the lower and then from the upper neighbours has the same effect
  on the buffers and sends the same messages.
\<close>

theorem exchangeKnownSize_correct:
  assumes "rank \<notin> set neighbours" and "length sb = length neighbours" and "length rb = length neighbours"
    and "list_all2 (\<lambda>r b. map_option length (incoming r) = Some (length b)) neighbours rb"
    and "list_all (\<lambda>b. items * length b \<le> 2 ^ 30) (sb @ rb)"
  shows "exchangeKnownSize items sb neighbours incoming rb =
      Some (True, map (\<lambda>r. the (incoming r)) neighbours, zip neighbours sb) \<and>
    (\<exists>rb' lower upper. receiveLowerKnownSize rank items sb neighbours incoming rb = Some (True, rb', upper) \<and>
      receiveUpperKnownSize rank items sb neighbours incoming rb' =
        Some (True, map (\<lambda>r. the (incoming r)) neighbours, lower) \<and>
      mset (lower @ upper) = mset (zip neighbours sb))"
proof (intro conjI)
  let ?k = "length neighbours"
  have inc: "map_option length (incoming (neighbours ! n)) = Some (length (rb ! n))" if "n < ?k" for n
    using assms(4) that by (auto simp: list_all2_conv_all_nth)
  have small: "\<not> too_large items (sb ! n)" "\<not> too_large items (rb ! n)" if "n < ?k" for n
    using assms(2,3,5) that by (auto simp: too_large_def list_all_iff not_less)
  define lo where "lo = map (\<lambda>(r, b). if r < rank then the (incoming r) else b) (zip neighbours rb)"
  have lo: "length lo = ?k" "n < ?k \<Longrightarrow> length (lo ! n) = length (rb ! n)" for n
    using assms(3) inc[of n] by (auto simp: lo_def)
  have all: "map (\<lambda>(r, b). the (incoming r)) (zip neighbours rb) = map (\<lambda>r. the (incoming r)) neighbours"
    using assms(3) by (intro nth_equalityI) auto
  have up: "map (\<lambda>(r, b). if rank < r then the (incoming r) else b) (zip neighbours lo) =
      map (\<lambda>r. the (incoming r)) neighbours"
    using assms(1,3) lo(1) by (intro nth_equalityI) (auto simp: lo_def not_less less_le)
  have "\<exists>a. for_each [0..<?k] (\<lambda>n refused. do { s \<leftarrow> rd sb n; r \<leftarrow> rd rb n;
      Some (refused \<or> too_large items s \<or> too_large items r) }) False = Some a \<and> \<not> a"
    using assms(2,3) small by (intro for_each_upt) (auto simp: rd_Some)
  then show "exchangeKnownSize items sb neighbours incoming rb =
      Some (True, map (\<lambda>r. the (incoming r)) neighbours, zip neighbours sb)"
    using assms(2,3) inc receive_known_ok[of rb neighbours "\<lambda>_. True" incoming]
    by (auto simp: exchangeKnownSize_def send_known_all all)
  have "\<exists>a. for_each [0..<?k] (\<lambda>n refused. do { r \<leftarrow> rd neighbours n;
      b \<leftarrow> (if rank < r then rd sb n else rd rb n); Some (refused \<or> too_large items b) }) False = Some a \<and> \<not> a"
    using assms(2,3) small by (intro for_each_upt) (auto simp: rd_Some)
  then have L: "receiveLowerKnownSize rank items sb neighbours incoming rb =
      Some (True, lo, filter (\<lambda>m. rank < fst m) (zip neighbours sb))"
    using assms(2,3) inc receive_known_ok[of rb neighbours "\<lambda>r. r < rank" incoming]
    by (auto simp: receiveLowerKnownSize_def send_known_all lo_def)
  have "\<not> too_large items (lo ! n)" if "n < ?k" for n
    using small(2)[OF that] lo(2)[OF that] by (simp add: too_large_def)
  then have "\<exists>a. for_each [0..<?k] (\<lambda>n refused. do { r \<leftarrow> rd neighbours n;
      b \<leftarrow> (if r < rank then rd sb n else rd lo n); Some (refused \<or> too_large items b) }) False = Some a \<and> \<not> a"
    using assms(2) lo small by (intro for_each_upt) (auto simp: rd_Some)
  then have U: "receiveUpperKnownSize rank items sb neighbours incoming lo =
      Some (True, map (\<lambda>r. the (incoming r)) neighbours, filter (\<lambda>m. fst m < rank) (zip neighbours sb))"
    using assms(2) lo inc receive_known_ok[of lo neighbours "\<lambda>r. rank < r" incoming]
    by (auto simp: receiveUpperKnownSize_def send_known_all up)
  have "filter (\<lambda>m. rank < fst m) (zip neighbours sb) = filter (\<lambda>m. \<not> fst m < rank) (zip neighbours sb)"
    using assms(1) by (intro filter_cong) (auto simp: not_less less_le dest: set_zip_leftD)
  then have "mset (filter (\<lambda>m. fst m < rank) (zip neighbours sb) @ filter (\<lambda>m. rank < fst m) (zip neighbours sb)) =
      mset (zip neighbours sb)"
    using multiset_partition[of "mset (zip neighbours sb)" "\<lambda>m. fst m < rank"] by simp
  with L U show "\<exists>rb' lower upper. receiveLowerKnownSize rank items sb neighbours incoming rb = Some (True, rb', upper) \<and>
      receiveUpperKnownSize rank items sb neighbours incoming rb' =
        Some (True, map (\<lambda>r. the (incoming r)) neighbours, lower) \<and>
      mset (lower @ upper) = mset (zip neighbours sb)" by blast
qed

theorem exchangeKnownSize_correct_witness:
  "exchangeKnownSize 1 [[5], [6, 6 :: nat]] [0, 2] (\<lambda>r. Some [r, r]) [[0, 0], [0, 0]] =
    Some (True, [[0, 0], [2, 2]], [(0, [5]), (2, [6, 6])])"
  using exchangeKnownSize_correct[of 1 "[0, 2]" "[[5], [6, 6 :: nat]]" "[[0, 0], [0, 0]]" "\<lambda>r. Some [r, r]" 1]
  by simp

section \<open>Messages to arbitrary targets\<close>

text \<open>
  \<^verbatim>\<open>sendVariousTargets\<close>: the counters that the processes add up to learn how many messages
  each will receive, the loop that collects them in the order of arrival, and the final sorting
  by source.
\<close>

definition svt_counters :: "nat \<Rightarrow> nat list \<Rightarrow> nat list option" where
  "svt_counters gsize targets = for_each targets (\<lambda>t c. wr c t 1) (replicate gsize 0)"

definition svt_start ::
  "nat \<Rightarrow> nat \<Rightarrow> 'a list list \<Rightarrow> nat list \<Rightarrow> ((nat \<times> 'a list) list \<times> nat list) option option" where
  "svt_start items gsize sBuffer targets = do {
     refused \<leftarrow> for_each [0..<length targets] (\<lambda>n refused. do {
       s \<leftarrow> rd sBuffer n;
       Some (refused \<or> too_large items s)
     }) False;
     if refused then Some None
     else do {
       counters \<leftarrow> svt_counters gsize targets;
       out \<leftarrow> send_known (\<lambda>_. True) targets sBuffer;
       Some (Some (out, counters))
     }
   }"

record 'a collecting =
  unread :: "(nat \<times> 'a list) list"
  tmpBuffer :: "'a list list"
  sources :: "nat list"
  received :: nat

inductive collect_step :: "nat \<Rightarrow> 'a collecting \<Rightarrow> 'a collecting \<Rightarrow> bool" for expects where
  nothing: "received s < expects \<Longrightarrow> collect_step expects s s"
| collected: "received s < expects \<Longrightarrow> unread s = xs @ (src, m) # ys \<Longrightarrow>
    collect_step expects s (s\<lparr>unread := xs @ ys, tmpBuffer := tmpBuffer s @ [m],
      sources := sources s @ [src], received := received s + 1\<rparr>)"

inductive_cases collect_stepE: "collect_step expects s t"

definition svt_finish :: "'a collecting \<Rightarrow> 'a list list \<times> nat list" where
  "svt_finish s = (let permutation = sort_key (\<lambda>i. sources s ! i) [0..<length (sources s)] in
     (map (\<lambda>i. tmpBuffer s ! i) permutation, sort (sources s)))"

lemma svt_counters_ok:
  assumes "list_all (\<lambda>t. t < gsize) targets"
  shows "svt_counters gsize targets = Some (map (\<lambda>r. if r \<in> set targets then 1 else 0) [0..<gsize])"
proof -
  have "\<exists>c. svt_counters gsize targets = Some c \<and> c = map (\<lambda>r. if r \<in> set targets then 1 else 0) [0..<gsize]"
    unfolding svt_counters_def
  proof (rule for_each_list)
    show "replicate gsize 0 = map (\<lambda>r. if r \<in> set [] then 1 else 0) [0..<gsize]"
      by (simp add: map_replicate_const)
    fix before x rest c
    assume t: "targets = before @ x # rest" and c: "c = map (\<lambda>r. if r \<in> set before then 1 else 0) [0..<gsize]"
    have "x < gsize" using assms t by simp
    moreover have "c[x := 1] = map (\<lambda>r. if r \<in> set (before @ [x]) then 1 else 0) [0..<gsize]"
      using c \<open>x < gsize\<close> by (intro nth_equalityI) (auto simp: nth_list_update)
    ultimately show "\<exists>u. wr c x 1 = Some u \<and> u = map (\<lambda>r. if r \<in> set (before @ [x]) then 1 else 0) [0..<gsize]"
      using c by (simp add: wr_Some)
  qed
  then show ?thesis by simp
qed

lemma svt_start_ok:
  assumes "length sBuffer = length targets" and "list_all (\<lambda>t. t < gsize) targets"
    and "list_all (\<lambda>b. items * length b \<le> 2 ^ 30) sBuffer"
  shows "svt_start items gsize sBuffer targets =
    Some (Some (zip targets sBuffer, map (\<lambda>r. if r \<in> set targets then 1 else 0) [0..<gsize]))"
proof -
  have "for_each [0..<length targets] (\<lambda>n refused. do { s \<leftarrow> rd sBuffer n; Some (refused \<or> too_large items s) }) False =
      Some (\<exists>n < length targets. too_large items (sBuffer ! n))"
    using assms(1) by (intro refused_iff) (simp add: rd_Some)
  then show ?thesis
    using assms by (auto simp: svt_start_def send_known_all svt_counters_ok too_large_def list_all_length)
qed

definition collecting_ok :: "(nat \<times> 'a list) list \<Rightarrow> 'a collecting \<Rightarrow> bool" where
  "collecting_ok inbox s \<longleftrightarrow> length (tmpBuffer s) = received s \<and> length (sources s) = received s \<and>
     received s + length (unread s) = length inbox \<and>
     mset (zip (sources s) (tmpBuffer s)) + mset (unread s) = mset inbox"

lemma collect_steps_ok:
  assumes "(collect_step expects)\<^sup>*\<^sup>* s t" and "collecting_ok inbox s"
  shows "collecting_ok inbox t"
  using assms
proof (induction rule: rtranclp_induct)
  case (step t u)
  from step.hyps(2) show ?case
    using step.IH[OF step.prems] by (elim collect_stepE) (auto simp: collecting_ok_def)
qed

lemma collect_finishes:
  assumes "collecting_ok inbox s"
  shows "\<exists>t. (collect_step (length inbox))\<^sup>*\<^sup>* s t \<and> received t = length inbox"
  using assms
proof (induction "length (unread s)" arbitrary: s)
  case 0
  then have "received s = length inbox" by (simp add: collecting_ok_def)
  then show ?case by blast
next
  case (Suc d)
  then obtain src m ys where u: "unread s = [] @ (src, m) # ys" by (cases "unread s") auto
  let ?t = "s\<lparr>unread := [] @ ys, tmpBuffer := tmpBuffer s @ [m], sources := sources s @ [src], received := received s + 1\<rparr>"
  have "received s < length inbox" using Suc.prems Suc.hyps(2) by (simp add: collecting_ok_def)
  then have st: "collect_step (length inbox) s ?t" using u by (rule collected)
  have "(collect_step (length inbox))\<^sup>*\<^sup>* s ?t" using st by (rule r_into_rtranclp)
  then have "collecting_ok inbox ?t" using Suc.prems by (rule collect_steps_ok)
  then have "\<exists>v. (collect_step (length inbox))\<^sup>*\<^sup>* ?t v \<and> received v = length inbox"
    using Suc.hyps(2) u by (intro Suc.hyps(1)) auto
  then show ?case using st by (meson converse_rtranclp_into_rtranclp)
qed

lemma sort_key_distinct:
  assumes "mset xs = mset ys" and "distinct (map k ys)" and "sorted (map k ys)"
  shows "sort_key k xs = ys"
  using assms by (intro sort_key_inj_key_eq) (auto simp: distinct_map dest: mset_eq_setD)

lemma svt_finish_ok:
  assumes "collecting_ok inbox s" and "received s = length inbox" and "mset inbox = mset arr"
    and "sorted (map fst arr)" and "distinct (map fst arr)"
  shows "svt_finish s = (map snd arr, map fst arr)"
proof -
  let ?z = "zip (sources s) (tmpBuffer s)"
  have len: "length (tmpBuffer s) = length (sources s)" and m: "mset ?z = mset arr"
    using assms(1-3) by (auto simp: collecting_ok_def)
  let ?p = "sort_key (\<lambda>i. sources s ! i) [0..<length (sources s)]"
  have "mset (map ((!) ?z) ?p) = mset (map ((!) ?z) [0..<length ?z])" using len by simp
  also have "\<dots> = mset arr" unfolding map_nth by (rule m)
  finally have "sort_key fst (map ((!) ?z) ?p) = arr" by (rule sort_key_distinct[OF _ assms(5,4)])
  moreover have "map fst (map ((!) ?z) ?p) = map (\<lambda>i. sources s ! i) ?p" using len by auto
  then have "sorted (map fst (map ((!) ?z) ?p))" using sorted_sort_key by metis
  ultimately have arr: "map ((!) ?z) ?p = arr" by (metis sort_key_id_if_sorted)
  have "map (\<lambda>i. tmpBuffer s ! i) ?p = map snd (map ((!) ?z) ?p)" using len by auto
  also have "\<dots> = map snd arr" unfolding arr ..
  finally have "map (\<lambda>i. tmpBuffer s ! i) ?p = map snd arr" .
  moreover have "sort (sources s) = map fst arr"
  proof (rule properties_for_sort)
    have "mset (map fst ?z) = mset (map fst arr)" using m by simp
    then show "mset (map fst arr) = mset (sources s)" using len by simp
  qed (rule assms(4))
  ultimately show ?thesis by (simp add: svt_finish_def Let_def)
qed

lemma arrivals_zip:
  assumes "length outs = n"
    and "\<And>q. q < n \<Longrightarrow> outs ! q = zip (ts ! q) (sb ! q) \<and> length (sb ! q) = length (ts ! q) \<and> distinct (ts ! q)"
  shows "map fst (arrivals outs p) = filter (\<lambda>q. p \<in> set (ts ! q)) [0..<n]"
proof -
  have "map (\<lambda>m. q) (filter (\<lambda>m. fst m = p) (outs ! q)) = (if p \<in> set (ts ! q) then [q] else [])" if q: "q < n" for q
  proof (cases "p \<in> set (ts ! q)")
    case True
    then obtain i where "i < length (ts ! q)" "ts ! q ! i = p" by (auto simp: in_set_conv_nth)
    then show ?thesis using filter_fst_zip[of "ts ! q" i "sb ! q"] assms(2)[OF q] True by auto
  next
    case False
    then show ?thesis using assms(2)[OF q] by (auto simp: filter_empty_conv dest: set_zip_leftD)
  qed
  then have "map (\<lambda>q. map (\<lambda>m. q) (filter (\<lambda>m. fst m = p) (outs ! q))) [0..<n] =
      map (\<lambda>q. if p \<in> set (ts ! q) then [q] else []) [0..<n]"
    by (intro map_cong) auto
  then show ?thesis
    by (simp only: arrivals_def assms(1) map_concat map_map comp_def fst_conv concat_map_if) simp
qed

text \<open>
  C36: Messages to arbitrary targets.  When no process names a target twice and no message is too
  large, the sum of the counters of all processes is the number of messages for this process;
  whatever order they arrive in, collecting can always go on until all are there, and the result
  is the list of messages in the order of their sources, with the sources.
\<close>

theorem sendVariousTargets_correct:
  assumes "length ts = n" and "length sb = n" and "p < n"
    and "list_all (\<lambda>q. distinct (ts ! q) \<and> list_all (\<lambda>t. t < n) (ts ! q) \<and> length (sb ! q) = length (ts ! q) \<and>
      list_all (\<lambda>b. items * length b \<le> 2 ^ 30) (sb ! q)) [0..<n]"
    and "length outs = n" and "length counters = n"
    and "list_all (\<lambda>q. svt_start items n (sb ! q) (ts ! q) = Some (Some (outs ! q, counters ! q))) [0..<n]"
    and "expects = sum_list (map (\<lambda>c. c ! p) counters)" and "mset inbox = mset (arrivals outs p)"
    and "(collect_step expects)\<^sup>*\<^sup>* \<lparr>unread = inbox, tmpBuffer = [], sources = [], received = 0\<rparr> s"
  shows "(received s = expects \<longrightarrow> unread s = [] \<and>
      svt_finish s = (map snd (arrivals outs p), filter (\<lambda>q. p \<in> set (ts ! q)) [0..<n])) \<and>
    (\<exists>t. (collect_step expects)\<^sup>*\<^sup>* s t \<and> received t = expects)"
proof (intro conjI)
  have st: "outs ! q = zip (ts ! q) (sb ! q) \<and> length (sb ! q) = length (ts ! q) \<and> distinct (ts ! q) \<and>
      counters ! q ! p = (if p \<in> set (ts ! q) then 1 else 0)" if q: "q < n" for q
  proof -
    have q': "length (sb ! q) = length (ts ! q)" "list_all (\<lambda>t. t < n) (ts ! q)" "distinct (ts ! q)"
      "list_all (\<lambda>b. items * length b \<le> 2 ^ 30) (sb ! q)"
      "svt_start items n (sb ! q) (ts ! q) = Some (Some (outs ! q, counters ! q))"
      using assms(4,7) q by (auto simp: list_all_iff)
    show ?thesis using svt_start_ok[OF q'(1,2,4)] q'(1,3,5) assms(3) by simp
  qed
  have fst: "map fst (arrivals outs p) = filter (\<lambda>q. p \<in> set (ts ! q)) [0..<n]"
    using st by (intro arrivals_zip[OF assms(5)]) blast
  have "map (\<lambda>c. c ! p) counters = map (\<lambda>q. if p \<in> set (ts ! q) then 1 else 0) [0..<n]"
    using st assms(6) by (intro nth_equalityI) auto
  then have "expects = length (filter (\<lambda>q. p \<in> set (ts ! q)) [0..<n])"
    unfolding assms(8) by (simp only: sum_list_map_filter'[symmetric] sum_list_triv) (simp add: sum_list_triv)
  also have "\<dots> = length (arrivals outs p)" using arg_cong[OF fst, of length] by simp
  finally have e: "expects = length inbox" using mset_eq_length[OF assms(9)] by simp
  have "collecting_ok inbox \<lparr>unread = inbox, tmpBuffer = [], sources = [], received = 0\<rparr>"
    by (simp add: collecting_ok_def)
  from collect_steps_ok[OF assms(10) this] have ok: "collecting_ok inbox s" .
  then show "\<exists>t. (collect_step expects)\<^sup>*\<^sup>* s t \<and> received t = expects"
    unfolding e by (rule collect_finishes)
  show "received s = expects \<longrightarrow> unread s = [] \<and>
      svt_finish s = (map snd (arrivals outs p), filter (\<lambda>q. p \<in> set (ts ! q)) [0..<n])"
  proof
    assume r: "received s = expects"
    have "svt_finish s = (map snd (arrivals outs p), map fst (arrivals outs p))"
      using r e by (intro svt_finish_ok[OF ok _ assms(9)]) (auto simp: fst sorted_wrt_filter)
    then show "unread s = [] \<and> svt_finish s = (map snd (arrivals outs p), filter (\<lambda>q. p \<in> set (ts ! q)) [0..<n])"
      using ok r e fst by (simp add: collecting_ok_def)
  qed
qed

theorem sendVariousTargets_correct_witness:
  "\<exists>t. (collect_step 2)\<^sup>*\<^sup>* \<lparr>unread = [(1, [7, 7]), (0, [5 :: nat])], tmpBuffer = [], sources = [], received = 0\<rparr> t \<and>
    received t = 2"
proof (rule sendVariousTargets_correct[where ts = "[[2], [2, 0], []]" and n = 3 and p = 2 and items = 1
      and sb = "[[[5]], [[7, 7], [9]], []]" and inbox = "[(1, [7, 7]), (0, [5])]"
      and outs = "[[(2, [5])], [(2, [7, 7]), (0, [9])], []]" and counters = "[[0, 0, 1], [1, 0, 1], [0, 0, 0]]", THEN conjunct2])
  show "mset [(1, [7, 7]), (0, [5 :: nat])] = mset (arrivals [[(2, [5])], [(2, [7, 7]), (0, [9])], []] 2)" by code_simp
qed (simp_all add: upt_rec svt_start_ok)

end
