(* ===== verification/Collective.thy ===== *)
theory Collective
  imports Communication
begin

text \<open>
  Gathering, broadcasting, all-to-all and prefix sums of \<^verbatim>\<open>communication.hpp\<close>.  Counts and
  displacements are C \<^verbatim>\<open>int\<close>s: a value that does not fit is \<open>None\<close>.  What MPI returns on a
  process is a parameter of the definitions; the theorems require what the MPI standard
  says of it.
\<close>

named_theorems collective_simps "offsets and counts of the collective operations"

definition int_of :: "nat \<Rightarrow> nat option" where
  "int_of n = (if n < 2 ^ 31 then Some n else None)"

lemma int_of_Some [collective_simps]: "n < 2 ^ 31 \<Longrightarrow> int_of n = Some n"
  by (simp add: int_of_def)

section \<open>Gathering\<close>

text \<open>The loop that turns the received sizes into offsets; the second component is their sum.\<close>

definition gather_offsets :: "nat list \<Rightarrow> (nat list \<times> nat) option" where
  "gather_offsets rSizes = for_each [0..<length rSizes] (\<lambda>i (rOffsets, s). do {
     rOffsets \<leftarrow> wr rOffsets i s;
     a \<leftarrow> rd rSizes i;
     s \<leftarrow> int_of (s + a);
     Some (rOffsets, s)
   }) (replicate (length rSizes) 0, 0)"

text \<open>
  \<^verbatim>\<open>MPI_Gatherv\<close>, \<^verbatim>\<open>MPI_Allgatherv\<close> and the receiving side of \<^verbatim>\<open>MPI_Alltoallv\<close>: the message of
  the process \<open>i\<close> goes to its offset.  \<open>items\<close> MPI items make one element.
\<close>

definition place_messages :: "nat \<Rightarrow> 'a list list \<Rightarrow> nat list \<Rightarrow> nat list \<Rightarrow> 'a list \<Rightarrow> 'a list option" where
  "place_messages items msgs rSizes rOffsets buffer = for_each [0..<length rSizes] (\<lambda>i buffer. do {
     m \<leftarrow> rd msgs i;
     s \<leftarrow> rd rSizes i;
     d \<leftarrow> rd rOffsets i;
     irecv (Some m) (d div items) (s div items) buffer
   }) buffer"

text \<open>
  \<^verbatim>\<open>gatherUnknownSize\<close>: the receive buffer and the offsets.  Only the root computes offsets; the
  other processes return zeros and leave their receive buffer alone.
\<close>

definition gatherUnknownSize ::
  "nat \<Rightarrow> nat \<Rightarrow> nat \<Rightarrow> 'a \<Rightarrow> 'a list \<Rightarrow> nat list \<Rightarrow> 'a list list \<Rightarrow> 'a list \<Rightarrow> ('a list \<times> nat list) option" where
  "gatherUnknownSize rank gsize items dflt sBuffer rSizes msgs rBuffer = do {
     size \<leftarrow> int_of (items * length sBuffer);
     if rank = 0 then do {
       (rOffsets, s) \<leftarrow> gather_offsets rSizes;
       rBuffer \<leftarrow> Some (take (s div items) rBuffer @ replicate (s div items - length rBuffer) dflt);
       rBuffer \<leftarrow> place_messages items msgs rSizes rOffsets rBuffer;
       Some (rBuffer, map (\<lambda>d. d div items) rOffsets)
     } else Some (rBuffer, map (\<lambda>d. d div items) (replicate gsize 0))
   }"

text \<open>\<^verbatim>\<open>allGatherUnknownSize\<close>: the returned value and the data afterwards.\<close>

definition allGatherUnknownSize ::
  "nat \<Rightarrow> 'a \<Rightarrow> nat list \<Rightarrow> 'a list list \<Rightarrow> 'a list \<Rightarrow> (bool \<times> 'a list) option" where
  "allGatherUnknownSize items dflt rSizes msgs data =
    (if items * length data > 2 ^ 30 then Some (False, data)
     else do {
       (rOffsets, s) \<leftarrow> gather_offsets rSizes;
       rdata \<leftarrow> place_messages items msgs rSizes rOffsets (replicate (s div items) dflt);
       Some (True, rdata)
     })"

text \<open>\<^verbatim>\<open>broadcastUnknownSize\<close> with the size and the contents that the root broadcasts.\<close>

definition broadcastUnknownSize ::
  "nat \<Rightarrow> 'a \<Rightarrow> nat \<Rightarrow> 'a list \<Rightarrow> 'a list \<Rightarrow> (bool \<times> 'a list) option" where
  "broadcastUnknownSize items dflt rootSize rootBuffer buffer =
    (if items * length buffer > 2 ^ 30 then Some (False, buffer)
     else do {
       buffer \<leftarrow> Some (take rootSize buffer @ replicate (rootSize - length buffer) dflt);
       buffer \<leftarrow> irecv (Some rootBuffer) 0 rootSize buffer;
       Some (True, buffer)
     })"

text \<open>
  \<^verbatim>\<open>allToAllV\<close>: the returned value, the receive buffer and the messages that MPI takes from the
  send buffer, in the order of their destinations.
\<close>

definition displacements :: "nat \<Rightarrow> nat list \<Rightarrow> nat list option" where
  "displacements gsize sizes = for_each [1..<gsize] (\<lambda>r disp. do {
     d \<leftarrow> rd disp (r - 1);
     s \<leftarrow> rd sizes (r - 1);
     v \<leftarrow> int_of (d + s);
     wr disp r v
   }) (replicate gsize 0)"

definition scale_sizes :: "nat \<Rightarrow> nat \<Rightarrow> nat list \<Rightarrow> nat list option" where
  "scale_sizes items gsize sizes = for_each [0..<gsize] (\<lambda>r sizes. do {
     s \<leftarrow> rd sizes r;
     v \<leftarrow> int_of (s * items);
     wr sizes r v
   }) sizes"

definition allToAllV ::
  "nat \<Rightarrow> nat \<Rightarrow> 'a list \<Rightarrow> nat list \<Rightarrow> nat list \<Rightarrow> 'a list list \<Rightarrow> 'a list \<Rightarrow> (bool \<times> 'a list \<times> 'a list list) option" where
  "allToAllV gsize items sBuffer ssize rsize msgs rBuffer =
    (if items * length sBuffer > 2 ^ 30 then Some (False, rBuffer, [])
     else do {
       ssize' \<leftarrow> scale_sizes items gsize ssize;
       rsize' \<leftarrow> scale_sizes items gsize rsize;
       sdisp \<leftarrow> displacements gsize ssize';
       rdisp \<leftarrow> displacements gsize rsize';
       out \<leftarrow> for_each [0..<gsize] (\<lambda>r out. do {
         d \<leftarrow> rd sdisp r;
         s \<leftarrow> rd ssize' r;
         m \<leftarrow> isend sBuffer (d div items) (s div items);
         Some (out @ [m])
       }) [];
       rBuffer \<leftarrow> place_messages items msgs rsize' rdisp rBuffer;
       Some (True, rBuffer, out)
     })"

section \<open>Prefix sums over the processes\<close>

text \<open>
  The user-defined operations of \<^verbatim>\<open>communication.cpp\<close>: \<open>inp\<close> is combined into \<open>outp\<close>.
\<close>

definition scan_op :: "'a :: plus list \<Rightarrow> 'a list \<Rightarrow> 'a list" where
  "scan_op inp outp = map2 (\<lambda>i x. x + i) inp outp"

text \<open>
  \<^verbatim>\<open>exscan\<close> in two parts around the broadcast: \<open>scanned\<close> is the result of \<^verbatim>\<open>MPI_Exscan\<close>, which
  is undefined on the first process, and \<open>total\<close> what the last process broadcasts.  The
  result is the value afterwards and the value returned.
\<close>

definition exscan_contribution :: "'a :: monoid_add \<Rightarrow> 'a \<Rightarrow> 'a" where
  "exscan_contribution value scanned = scanned + value"

definition exscan :: "nat \<Rightarrow> nat \<Rightarrow> 'a :: monoid_add \<Rightarrow> 'a \<Rightarrow> 'a \<Rightarrow> 'a \<times> 'a" where
  "exscan rank gsize value scanned total_sum =
    (if gsize = 1 then (0, value)
     else (if rank = 0 then 0 else scanned, total_sum))"

text \<open>
  \<^verbatim>\<open>getDistribution\<close>: \<open>gathered\<close> is the result of \<^verbatim>\<open>MPI_Allgather\<close> and \<open>last\<close> what the last process
  broadcasts.
\<close>

definition getDistribution_back :: "nat \<Rightarrow> nat \<Rightarrow> 'a :: monoid_add \<Rightarrow> 'a \<Rightarrow> 'a \<Rightarrow> 'a" where
  "getDistribution_back rank gsize value scanned total_sum =
    fst (exscan rank gsize value scanned total_sum) + value"

definition getDistribution ::
  "nat \<Rightarrow> nat \<Rightarrow> 'a :: monoid_add \<Rightarrow> 'a \<Rightarrow> 'a \<Rightarrow> 'a list \<Rightarrow> 'a \<Rightarrow> 'a list" where
  "getDistribution rank gsize value scanned total_sum gathered last_back =
    gathered @ [if rank + 1 = gsize then getDistribution_back rank gsize value scanned total_sum else last_back]"

text \<open>
  \<^verbatim>\<open>MPI_Exscan\<close> with a user-defined operation: on the process \<open>r > 0\<close> the values of the
  processes before it, combined in their order.
\<close>

definition mpi_exscan :: "('a list \<Rightarrow> 'a list \<Rightarrow> 'a list) \<Rightarrow> 'a list \<Rightarrow> nat \<Rightarrow> 'a" where
  "mpi_exscan oper vals r = foldl (\<lambda>acc v. hd (oper [acc] [v])) (hd vals) (tl (take r vals))"

lemma sum_list_take_Suc:
  "i < length xs \<Longrightarrow> sum_list (take i xs) + xs ! i = sum_list (take (Suc i) (xs :: 'a :: monoid_add list))"
  by (simp add: take_Suc_conv_app_nth)

lemma mpi_exscan_sum:
  fixes vals :: "'a :: comm_monoid_add list"
  assumes "0 < r" and "r \<le> length vals"
  shows "mpi_exscan scan_op vals r = sum_list (take r vals)"
proof -
  have *: "foldl (\<lambda>acc v. hd (scan_op [acc] [v])) a vs = a + sum_list vs" for a and vs :: "'a list"
    by (induction vs arbitrary: a) (simp_all add: scan_op_def ac_simps)
  obtain v vs where v: "take r vals = v # vs" using assms by (cases "take r vals") auto
  then have "hd vals = v" using assms by (cases vals; cases r) auto
  then show ?thesis using v * by (simp add: mpi_exscan_def)
qed

lemma exscan_ok:
  fixes sizes :: "'a :: comm_monoid_add list"
  assumes n: "n = length sizes" and r: "r < n"
    and sc: "\<And>r. 0 < r \<Longrightarrow> r < n \<Longrightarrow> scanned r = mpi_exscan scan_op sizes r"
    and t: "total_sum = exscan_contribution (sizes ! (n - 1)) (scanned (n - 1))"
  shows "exscan r n (sizes ! r) (scanned r) total_sum = (sum_list (take r sizes), sum_list sizes)"
proof (cases "n = 1")
  case True
  then show ?thesis using n r by (cases sizes) (auto simp: exscan_def)
next
  case False
  have "scanned q = sum_list (take q sizes)" if "0 < q" "q < n" for q
    using sc[OF that] mpi_exscan_sum[of q sizes] that n by simp
  moreover have "sum_list (take (n - 1) sizes) + sizes ! (n - 1) = sum_list sizes"
    using sum_list_take_Suc[of "n - 1" sizes] r n by simp
  ultimately show ?thesis
    using False r by (auto simp: exscan_def t exscan_contribution_def)
qed

text \<open>
  C37: Prefix sums over the processes.  \<^verbatim>\<open>exscan\<close> gives every process the sum of the values before
  it and returns the sum of all values, also on the first process, for which \<^verbatim>\<open>MPI_Exscan\<close>
  defines nothing; \<^verbatim>\<open>getDistribution\<close> gives every process the vector of all prefix sums,
  which is a distribution.  The values may wrap around.
\<close>

theorem getDistribution_correct:
  fixes sizes :: "'a :: comm_monoid_add list"
  assumes "n = length sizes" and "r < n"
    and "list_all (\<lambda>r. scanned r = mpi_exscan scan_op sizes r) [1..<n]"
    and "total_sum = exscan_contribution (sizes ! (n - 1)) (scanned (n - 1))"
    and "gathered = map (\<lambda>r. fst (exscan r n (sizes ! r) (scanned r) total_sum)) [0..<n]"
    and "last_back = getDistribution_back (n - 1) n (sizes ! (n - 1)) (scanned (n - 1)) total_sum"
  shows "exscan r n (sizes ! r) (scanned r) total_sum = (sum_list (take r sizes), sum_list sizes) \<and>
    getDistribution r n (sizes ! r) (scanned r) total_sum gathered last_back =
      map (\<lambda>i. sum_list (take i sizes)) [0..<Suc n]"
proof (intro conjI)
  have ex: "exscan q n (sizes ! q) (scanned q) total_sum = (sum_list (take q sizes), sum_list sizes)" if "q < n" for q
    using assms(3) by (intro exscan_ok[of n sizes q scanned total_sum] assms(1,4) that) (simp_all add: list_all_iff)
  show "exscan r n (sizes ! r) (scanned r) total_sum = (sum_list (take r sizes), sum_list sizes)" by (rule ex[OF assms(2)])
  have n: "n - 1 < n" using assms(2) by simp
  have "last_back = sum_list (take (n - 1) sizes) + sizes ! (n - 1)"
    using ex[OF n] by (simp add: assms(6) getDistribution_back_def)
  also have "\<dots> = sum_list (take (Suc (n - 1)) sizes)"
    using n unfolding assms(1) by (rule sum_list_take_Suc)
  finally have "last_back = sum_list (take n sizes)" using n by simp
  moreover have "r + 1 = n \<Longrightarrow> getDistribution_back r n (sizes ! r) (scanned r) total_sum = last_back"
    using assms(6) by auto
  moreover have "gathered = map (\<lambda>i. sum_list (take i sizes)) [0..<n]"
    unfolding assms(5) by (intro map_cong) (simp_all add: ex)
  ultimately show "getDistribution r n (sizes ! r) (scanned r) total_sum gathered last_back =
      map (\<lambda>i. sum_list (take i sizes)) [0..<Suc n]"
    by (auto simp: getDistribution_def)
qed

theorem getDistribution_correct_witness:
  "getDistribution 1 3 (5 :: 8 word) 250 4 [0, 250, 255] 4 = [0, 250, 255, 4]"
  using getDistribution_correct[of 3 "[250, 5, 5 :: 8 word]" 1 "\<lambda>r. if r = 1 then 250 else 255" 4 "[0, 250, 255]" 4]
  by (simp add: mpi_exscan_def scan_op_def upt_rec exscan_def exscan_contribution_def getDistribution_back_def)

section \<open>Gathering joins the messages\<close>

text \<open>Sizes in MPI items of messages of whole elements.\<close>

definition item_sizes :: "nat \<Rightarrow> 'a list list \<Rightarrow> nat list" where
  "item_sizes items msgs = map (\<lambda>m. items * length m) msgs"

lemma length_item_sizes [simp]: "length (item_sizes items msgs) = length msgs"
  by (simp add: item_sizes_def)

definition item_offset :: "nat \<Rightarrow> 'a list list \<Rightarrow> nat \<Rightarrow> nat" where
  "item_offset items msgs i = items * length (concat (take i msgs))"

lemma item_offset_0 [collective_simps]: "item_offset items msgs 0 = 0"
  by (simp add: item_offset_def)

lemma item_offset_Suc [collective_simps]:
  "i < length msgs \<Longrightarrow> item_offset items msgs (Suc i) = item_offset items msgs i + items * length (msgs ! i)"
  by (simp add: item_offset_def take_Suc_conv_app_nth algebra_simps)

lemma item_offset_le: "item_offset items msgs i \<le> items * length (concat msgs)"
proof -
  have "length (concat msgs) = length (concat (take i msgs)) + length (concat (drop i msgs))"
    by (metis append_take_drop_id concat_append length_append)
  then show ?thesis by (simp add: item_offset_def)
qed

lemma map_upt_update: "k < n \<Longrightarrow> (map f [0..<k] @ replicate (n - k) x)[k := f k] = map f [0..<Suc k] @ replicate (n - Suc k) x"
  by (rule nth_equalityI) (auto simp: nth_list_update nth_append less_Suc_eq)

lemma gather_offsets_ok:
  assumes "items * length (concat msgs) < 2 ^ 31"
  shows "gather_offsets (item_sizes items msgs) =
    Some (map (item_offset items msgs) [0..<length msgs], items * length (concat msgs))"
proof -
  let ?n = "length msgs" and ?o = "item_offset items msgs"
  have "\<exists>t. gather_offsets (item_sizes items msgs) = Some t \<and>
      t = (map ?o [0..<?n] @ replicate (?n - ?n) 0, ?o ?n)"
    unfolding gather_offsets_def length_item_sizes
  proof (rule for_each_upt[where I = "\<lambda>k t. t = (map ?o [0..<k] @ replicate (?n - k) 0, ?o k)"])
    fix i t assume i: "i < ?n" and t: "t = (map ?o [0..<i] @ replicate (?n - i) 0, ?o i)"
    have "?o (Suc i) < 2 ^ 31" using item_offset_le[of items msgs "Suc i"] assms by simp
    then have "int_of (?o i + items * length (msgs ! i)) = Some (?o (Suc i))"
      using i by (simp add: collective_simps)
    then show "\<exists>u. (case t of (rOffsets, s) \<Rightarrow> do {
        rOffsets \<leftarrow> wr rOffsets i s; a \<leftarrow> rd (item_sizes items msgs) i; s \<leftarrow> int_of (s + a); Some (rOffsets, s) }) = Some u \<and>
      u = (map ?o [0..<Suc i] @ replicate (?n - Suc i) 0, ?o (Suc i))"
      using i by (simp add: t wr_Some rd_Some item_sizes_def map_upt_update del: upt_Suc)
  qed (simp_all add: item_offset_0)
  then show ?thesis by (simp add: item_offset_def)
qed

lemma place_messages_ok:
  assumes "0 < items" and "length buffer = length (concat msgs)"
  shows "place_messages items msgs (item_sizes items msgs) (map (item_offset items msgs) [0..<length msgs]) buffer =
    Some (concat msgs)"
proof -
  let ?n = "length msgs" and ?l = "\<lambda>i. length (concat (take i msgs))"
  have le: "?l (Suc i) \<le> length buffer" if "i < ?n" for i
  proof -
    have "length (concat msgs) = ?l (Suc i) + length (concat (drop (Suc i) msgs))"
      by (metis append_take_drop_id concat_append length_append)
    then show ?thesis using assms(2) by simp
  qed
  have "\<exists>b. place_messages items msgs (item_sizes items msgs) (map (item_offset items msgs) [0..<?n]) buffer = Some b \<and>
      b = concat (take ?n msgs) @ drop (?l ?n) buffer"
    unfolding place_messages_def length_item_sizes
  proof (rule for_each_upt[where I = "\<lambda>k b. b = concat (take k msgs) @ drop (?l k) buffer"])
    fix i b assume i: "i < ?n" and b: "b = concat (take i msgs) @ drop (?l i) buffer"
    have "?l (Suc i) = ?l i + length (msgs ! i)" using i by (simp add: take_Suc_conv_app_nth)
    then have "irecv (Some (msgs ! i)) (?l i) (length (msgs ! i)) b = Some (concat (take (Suc i) msgs) @ drop (?l (Suc i)) buffer)"
      using i le[OF i] b by (simp add: irecv_def take_Suc_conv_app_nth add.commute)
    then show "\<exists>u. (do { m \<leftarrow> rd msgs i; s \<leftarrow> rd (item_sizes items msgs) i;
        d \<leftarrow> rd (map (item_offset items msgs) [0..<?n]) i; irecv (Some m) (d div items) (s div items) b }) = Some u \<and>
      u = concat (take (Suc i) msgs) @ drop (?l (Suc i)) buffer"
      using i assms(1) by (simp add: rd_Some item_sizes_def item_offset_def)
  qed simp_all
  then show ?thesis using assms(2) by simp
qed

lemma displacements_ok:
  assumes "items * length (concat msgs) < 2 ^ 31" and "0 < length msgs"
  shows "displacements (length msgs) (item_sizes items msgs) = Some (map (item_offset items msgs) [0..<length msgs])"
proof -
  let ?n = "length msgs" and ?o = "item_offset items msgs"
  have "\<exists>d. displacements ?n (item_sizes items msgs) = Some d \<and> d = map ?o [0..<?n] @ replicate (?n - ?n) 0"
    unfolding displacements_def
  proof (rule for_each_upt[where I = "\<lambda>k d. d = map ?o [0..<k] @ replicate (?n - k) 0"])
    show "replicate ?n 0 = map ?o [0..<1] @ replicate (?n - 1) 0"
      using assms(2) by (simp add: item_offset_0 replicate_Suc[symmetric] del: replicate_Suc)
    fix r d assume r: "1 \<le> r" "r < ?n" and d: "d = map ?o [0..<r] @ replicate (?n - r) 0"
    have "?o r < 2 ^ 31" using item_offset_le[of items msgs r] assms by simp
    moreover have "?o r = ?o (r - 1) + items * length (msgs ! (r - 1))"
      using r item_offset_Suc[of "r - 1" msgs items] by simp
    ultimately have "int_of (?o (r - 1) + items * length (msgs ! (r - 1))) = Some (?o r)"
      by (simp add: int_of_Some)
    moreover have "rd d (r - 1) = Some (?o (r - 1))" using r d by (simp add: rd_Some nth_append)
    ultimately show "\<exists>u. (do { a \<leftarrow> rd d (r - 1); s \<leftarrow> rd (item_sizes items msgs) (r - 1); v \<leftarrow> int_of (a + s); wr d r v }) = Some u \<and>
        u = map ?o [0..<Suc r] @ replicate (?n - Suc r) 0"
      using r d by (simp add: rd_Some wr_Some item_sizes_def map_upt_update del: upt_Suc)
  qed (use assms(2) in linarith)
  then show ?thesis by simp
qed

lemma scale_sizes_ok:
  assumes "items * length (concat msgs) < 2 ^ 31"
  shows "scale_sizes items (length msgs) (map length msgs) = Some (item_sizes items msgs)"
proof -
  let ?n = "length msgs"
  have "\<exists>s. scale_sizes items ?n (map length msgs) = Some s \<and>
      s = take ?n (item_sizes items msgs) @ drop ?n (map length msgs)"
    unfolding scale_sizes_def
  proof (rule for_each_upt[where I = "\<lambda>k s. s = take k (item_sizes items msgs) @ drop k (map length msgs)"])
    fix r s assume r: "r < ?n" and s: "s = take r (item_sizes items msgs) @ drop r (map length msgs)"
    have "items * length (msgs ! r) \<le> items * length (concat msgs)"
      using r by (intro mult_le_mono2) (simp add: length_concat member_le_sum_list)
    also note assms
    finally have "int_of (length (msgs ! r) * items) = Some (items * length (msgs ! r))"
      by (simp add: int_of_def mult.commute)
    moreover have "s[r := items * length (msgs ! r)] = take (Suc r) (item_sizes items msgs) @ drop (Suc r) (map length msgs)"
      using r s by (simp add: item_sizes_def list_update_append take_Suc_conv_app_nth Cons_nth_drop_Suc[symmetric])
    ultimately show "\<exists>u. (do { a \<leftarrow> rd s r; v \<leftarrow> int_of (a * items); wr s r v }) = Some u \<and>
        u = take (Suc r) (item_sizes items msgs) @ drop (Suc r) (map length msgs)"
      using r s by (simp add: rd_Some wr_Some nth_append item_sizes_def)
  qed simp_all
  then show ?thesis by (simp add: item_sizes_def)
qed

lemma resize_length: "length (take k xs @ replicate (k - length xs) x) = k"
  by simp

text \<open>
  Gathering.  When the processes contribute \<open>msgs\<close> and all counts fit into an \<^verbatim>\<open>int\<close>, the root
  receives the contributions one after another with the offset of each, all-gather gives the
  same to everybody, a process that is not the root gets only zeros as offsets, and a broadcast
  replaces any buffer by the buffer of the root.
\<close>

theorem gather_correct:
  assumes "0 < items" and "items * length (concat msgs) < 2 ^ 31" and "r < length msgs"
    and "list_all (\<lambda>m. items * length m \<le> 2 ^ 30) msgs"
  shows "gatherUnknownSize r (length msgs) items dflt (msgs ! r) (item_sizes items msgs) msgs rb =
      Some (if r = 0 then concat msgs else rb,
        map (\<lambda>i. if r = 0 then length (concat (take i msgs)) else 0) [0..<length msgs]) \<and>
    allGatherUnknownSize items dflt (item_sizes items msgs) msgs (msgs ! r) = Some (True, concat msgs) \<and>
    broadcastUnknownSize items dflt (length (msgs ! 0)) (msgs ! 0) (msgs ! r) = Some (True, msgs ! 0)"
proof (intro conjI)
  have small: "items * length (msgs ! r) \<le> 2 ^ 30" using assms(3,4) by (simp add: list_all_length)
  then have "int_of (items * length (msgs ! r)) = Some (items * length (msgs ! r))"
    by (simp add: int_of_def)
  moreover note gather_offsets_ok[OF assms(2)]
  moreover note place_messages_ok[OF assms(1) resize_length[of "length (concat msgs)" rb dflt]]
  ultimately show "gatherUnknownSize r (length msgs) items dflt (msgs ! r) (item_sizes items msgs) msgs rb =
      Some (if r = 0 then concat msgs else rb,
        map (\<lambda>i. if r = 0 then length (concat (take i msgs)) else 0) [0..<length msgs])"
    using assms(1) by (simp add: gatherUnknownSize_def item_offset_def comp_def map_replicate_trivial)
  show "allGatherUnknownSize items dflt (item_sizes items msgs) msgs (msgs ! r) = Some (True, concat msgs)"
    using assms(1) small gather_offsets_ok[OF assms(2)]
      place_messages_ok[OF assms(1) length_replicate[of "length (concat msgs)" dflt]]
    by (simp add: allGatherUnknownSize_def)
  show "broadcastUnknownSize items dflt (length (msgs ! 0)) (msgs ! 0) (msgs ! r) = Some (True, msgs ! 0)"
    using small by (simp add: broadcastUnknownSize_def irecv_def)
qed

theorem gather_correct_witness:
  "gatherUnknownSize 0 (Suc (Suc 0)) 8 0 [5, 6 :: nat] [16, 8] [[5, 6], [7]] [1] = Some ([5, 6, 7], [0, 2])"
  using gather_correct[of 8 "[[5, 6], [7 :: nat]]" 0 0 "[1]"]
  by (simp add: item_sizes_def upt_rec)

text \<open>
  C38: The all-to-all exchange.  \<open>blocks ! q ! p\<close> is what the process \<open>q\<close> has for the process
  \<open>p\<close>.  Every process hands exactly its blocks to MPI, in order, and its receive buffer becomes
  the concatenation of the blocks that the processes have for it.
\<close>

theorem allToAllV_correct:
  assumes "0 < items" and "0 < n" and "length (blocks ! r) = n"
    and "msgs = map (\<lambda>q. blocks ! q ! r) [0..<n]"
    and "items * length (concat (blocks ! r)) \<le> 2 ^ 30" and "items * length (concat msgs) < 2 ^ 31"
    and "length rBuffer = length (concat msgs)"
  shows "allToAllV n items (concat (blocks ! r)) (map length (blocks ! r)) (map length msgs) msgs rBuffer =
    Some (True, concat msgs, blocks ! r)"
proof -
  let ?b = "blocks ! r" and ?o = "item_offset items (blocks ! r)"
  have small: "items * length (concat ?b) < 2 ^ 31" using assms(5) by simp
  have n: "length msgs = n" using assms(4) by simp
  have "\<exists>out. for_each [0..<n] (\<lambda>q out. do { d \<leftarrow> rd (map ?o [0..<n]) q; s \<leftarrow> rd (item_sizes items ?b) q;
      m \<leftarrow> isend (concat ?b) (d div items) (s div items); Some (out @ [m]) }) [] = Some out \<and> out = take n ?b"
  proof (rule for_each_upt[where I = "\<lambda>k out. out = take k ?b"])
    fix q out assume q: "q < n" and out: "out = take q ?b"
    have split: "concat ?b = concat (take q ?b) @ ?b ! q @ concat (drop (Suc q) ?b)"
      using q assms(3) by (metis append_assoc concat.simps(2) concat_append id_take_nth_drop)
    then have "isend (concat ?b) (length (concat (take q ?b))) (length (?b ! q)) = Some (?b ! q)"
      unfolding isend_def vspan_def by (metis add.assoc add_diff_cancel_left' append_eq_conv_conj le_add1 length_append)
    then show "\<exists>u. (do { d \<leftarrow> rd (map ?o [0..<n]) q; s \<leftarrow> rd (item_sizes items ?b) q;
        m \<leftarrow> isend (concat ?b) (d div items) (s div items); Some (out @ [m]) }) = Some u \<and> u = take (Suc q) ?b"
      using q assms(1,3) out by (simp add: rd_Some item_sizes_def item_offset_def take_Suc_conv_app_nth)
  qed (use assms(2) in simp_all)
  then show ?thesis
    using assms(1,2,3,5) n scale_sizes_ok[OF small] scale_sizes_ok[OF assms(6)]
      displacements_ok[OF small] displacements_ok[OF assms(6)] place_messages_ok[OF assms(1,7)]
    by (simp add: allToAllV_def)
qed

theorem allToAllV_correct_witness:
  "allToAllV 2 8 [5, 6, 7 :: nat] [1, Suc (Suc 0)] [1, 1] [[5], [9]] [0, 0] = Some (True, [5, 9], [[5], [6, 7]])"
  using allToAllV_correct[of 8 2 "[[[5], [6, 7 :: nat]], [[9], []]]" 0 "[[5], [9]]" "[0, 0]"]
  by (simp add: upt_rec)

end
