(* ===== verification/Routing.thy ===== *)
theory Routing
  imports Exchange "HOL-Library.Log_Nat"
begin

text \<open>
  \<^verbatim>\<open>Communication::allToAllWithDataSizeAndTarget\<close>: messages of any length travel to their targets
  by recursive halving of the group.  A buffer is a sequence of messages sorted by target; a message
  starts with its length and its target.  \<open>route_level\<close> is one turn of the loop of one process with
  the messages that MPI delivers to it as a parameter; \<open>route_run\<close> lets all processes take their
  turns level by level, every receive waiting for a message that was really sent.
\<close>

named_theorems route_simps "buffers of messages with size and target"

section \<open>The code\<close>

text \<open>The lambda \<^verbatim>\<open>movebefore\<close>; \<open>None\<close> if it reads outside of the data or does not end.\<close>

partial_function (option) movebefore :: "nat list \<Rightarrow> nat \<Rightarrow> nat \<Rightarrow> nat \<Rightarrow> nat option" where
  "movebefore buf rank pos stop_at =
    (if pos < stop_at then do {
       t \<leftarrow> rd buf (pos + 1);
       if t < rank then do {
         s \<leftarrow> rd buf pos;
         movebefore buf rank (pos + s) stop_at
       } else Some pos
     } else Some pos)"

declare movebefore.simps [code]

definition cut_range :: "'a list \<Rightarrow> nat \<Rightarrow> nat \<Rightarrow> 'a list option" where
  "cut_range xs b e = (if b \<le> e \<and> e \<le> length xs then Some (vspan b e xs) else None)"

text \<open>The local variables of the loop.\<close>

record router =
  r_left :: nat
  r_right :: nat
  r_send :: "nat list"
  r_buffer :: "nat list"

definition running :: "router \<Rightarrow> bool" where
  "running st \<longleftrightarrow> r_left st + 1 < r_right st"

definition half :: "nat \<Rightarrow> nat \<Rightarrow> nat" where
  "half left right = left + (right - left) div 2 + (right - left) mod 2"

definition route_start :: "nat \<Rightarrow> nat \<Rightarrow> nat list \<Rightarrow> nat list \<Rightarrow> router option" where
  "route_start gsize rank sBuffer rBuf = do {
     let send = sBuffer;
     mybegin \<leftarrow> movebefore send rank 0 (length send);
     myend \<leftarrow> movebefore send (rank + 1) mybegin (length send);
     mine \<leftarrow> cut_range send mybegin myend;
     Some \<lparr>r_left = 0, r_right = gsize, r_send = send, r_buffer = rBuf @ mine\<rparr>
   }"

text \<open>The loops that merge the received messages with the kept ones, target by target.\<close>

definition lower_turn :: "nat \<Rightarrow> nat list \<Rightarrow> nat list \<Rightarrow> nat \<Rightarrow>
    nat \<times> nat \<times> nat list \<times> nat list \<Rightarrow> (nat \<times> nat \<times> nat list \<times> nat list) option" where
  "lower_turn rank recv prevsend r = (\<lambda>(recvend, sendend, send, rBuf). do {
     let recvbegin = recvend;
     recvend \<leftarrow> movebefore recv (r + 1) recvbegin (length recv);
     let sendbegin = sendend;
     sendend \<leftarrow> movebefore prevsend (r + 1) sendbegin (length prevsend);
     received \<leftarrow> cut_range recv recvbegin recvend;
     if r = rank then Some (recvend, sendend, send, rBuf @ received)
     else do {
       kept \<leftarrow> cut_range prevsend sendbegin sendend;
       Some (recvend, sendend, send @ received @ kept, rBuf)
     }
   })"

definition upper_turn :: "nat \<Rightarrow> nat list \<Rightarrow> nat \<Rightarrow> nat list \<Rightarrow> nat \<Rightarrow>
    nat \<times> nat \<times> nat \<times> nat list \<times> nat list \<Rightarrow> (nat \<times> nat \<times> nat \<times> nat list \<times> nat list) option" where
  "upper_turn rank recv recvmidsize prevsend r = (\<lambda>(recvend, recvmidend, sendend, send, rBuf). do {
     let recvbegin = recvend;
     recvend \<leftarrow> movebefore recv (r + 1) recvbegin recvmidsize;
     let recvmidbegin = recvmidend;
     recvmidend \<leftarrow> movebefore recv (r + 1) recvmidbegin (length recv);
     let sendbegin = sendend;
     sendend \<leftarrow> movebefore prevsend (r + 1) sendbegin (length prevsend);
     received \<leftarrow> cut_range recv recvbegin recvend;
     receivedmid \<leftarrow> cut_range recv recvmidbegin recvmidend;
     if r = rank then Some (recvend, recvmidend, sendend, send, rBuf @ received @ receivedmid)
     else do {
       kept \<leftarrow> cut_range prevsend sendbegin sendend;
       Some (recvend, recvmidend, sendend, send @ received @ receivedmid @ kept, rBuf)
     }
   })"

text \<open>
  One turn of the main loop.  \<open>inbox q\<close> is the message of process \<open>q\<close>, or \<open>None\<close> when there is none
  and the receive never returns; the result is \<open>False\<close> when the function gives up, the new state and
  the messages sent.
\<close>

definition route_lower :: "nat \<Rightarrow> nat \<Rightarrow> nat \<Rightarrow> (nat \<Rightarrow> nat list option) \<Rightarrow> router \<Rightarrow>
    (bool \<times> router \<times> (nat \<times> nat list) list) option" where
  "route_lower multiplier rank mid inbox st =
    (if r_right st \<le> rank + (mid - r_left st) then do {
       my \<leftarrow> movebefore (r_send st) rank 0 (length (r_send st));
       upper \<leftarrow> movebefore (r_send st) mid my (length (r_send st));
       out \<leftarrow> cut_range (r_send st) upper (length (r_send st));
       if too_large multiplier out then Some (False, st, [])
       else if length (r_send st) < my then None
       else Some (True, st\<lparr>r_send := take my (r_send st), r_right := mid\<rparr>, [(mid, out)])
     } else do {
       upper \<leftarrow> movebefore (r_send st) mid 0 (length (r_send st));
       out \<leftarrow> cut_range (r_send st) upper (length (r_send st));
       if too_large multiplier out then Some (False, st, [])
       else do {
         recv \<leftarrow> inbox (rank + (mid - r_left st));
         (_, _, send, rBuf) \<leftarrow>
           for_each [r_left st..<mid] (lower_turn rank recv (r_send st)) (0, 0, [], r_buffer st);
         Some (True, st\<lparr>r_send := send, r_buffer := rBuf, r_right := mid\<rparr>,
           [(rank + (mid - r_left st), out)])
       }
     })"

definition route_upper :: "nat \<Rightarrow> nat \<Rightarrow> nat \<Rightarrow> (nat \<Rightarrow> nat list option) \<Rightarrow> router \<Rightarrow>
    (bool \<times> router \<times> (nat \<times> nat list) list) option" where
  "route_upper multiplier rank mid inbox st = do {
     upper \<leftarrow> movebefore (r_send st) mid 0 (length (r_send st));
     recv \<leftarrow> inbox (rank - (mid - r_left st));
     out \<leftarrow> cut_range (r_send st) 0 upper;
     if too_large multiplier out then Some (False, st, [])
     else do {
       let recvmidsize = length recv;
       recv \<leftarrow> (if r_right st - mid < mid - r_left st \<and> rank = mid
         then map_option (\<lambda>m. recv @ m) (inbox (mid - 1)) else Some recv);
       sendbegin \<leftarrow> movebefore (r_send st) mid 0 (length (r_send st));
       (_, _, _, send, rBuf) \<leftarrow>
         for_each [mid..<r_right st] (upper_turn rank recv recvmidsize (r_send st))
           (0, recvmidsize, sendbegin, [], r_buffer st);
       Some (True, st\<lparr>r_send := send, r_buffer := rBuf, r_left := mid\<rparr>,
         [(rank - (mid - r_left st), out)])
     }
   }"

definition route_level :: "nat \<Rightarrow> nat \<Rightarrow> (nat \<Rightarrow> nat list option) \<Rightarrow> router \<Rightarrow>
    (bool \<times> router \<times> (nat \<times> nat list) list) option" where
  "route_level multiplier rank inbox st =
    (let mid = half (r_left st) (r_right st) in
     if rank < mid then route_lower multiplier rank mid inbox st
     else route_upper multiplier rank mid inbox st)"

text \<open>The group: one level of all processes whose loop goes on.\<close>

definition levels :: "nat \<Rightarrow> nat" where
  "levels gsize = ceillog2 gsize"

inductive route_run :: "nat \<Rightarrow> nat \<Rightarrow> nat list list \<Rightarrow> nat list list \<Rightarrow> nat \<Rightarrow> (nat \<Rightarrow> router) \<Rightarrow> bool"
  for multiplier gsize sBufs rBufs where
  enter: "route_run multiplier gsize sBufs rBufs 0 \<sigma>"
    if "\<forall>r < gsize. route_start gsize r (sBufs ! r) (rBufs ! r) = Some (\<sigma> r)"
| turn: "route_run multiplier gsize sBufs rBufs (Suc l) \<sigma>'"
    if "route_run multiplier gsize sBufs rBufs l \<sigma>" and "l < levels gsize"
      and "\<forall>r < gsize. if running (\<sigma> r)
        then route_level multiplier r (\<lambda>q. map_of (sent q) r) (\<sigma> r) = Some (True, \<sigma>' r, sent r)
        else \<sigma>' r = \<sigma> r \<and> sent r = []"

inductive_cases route_run_0 [elim!]: "route_run multiplier gsize sBufs rBufs 0 \<sigma>"
inductive_cases route_run_Suc: "route_run multiplier gsize sBufs rBufs (Suc l) \<sigma>"

section \<open>Buffers of messages\<close>

type_synonym message = "nat \<times> nat list"

definition flat :: "message list \<Rightarrow> nat list" where
  "flat ms = concat (map (\<lambda>(t, p). (2 + length p) # t # p) ms)"

definition sent_to :: "nat \<Rightarrow> message list \<Rightarrow> message list" where
  "sent_to t ms = filter (\<lambda>m. fst m = t) ms"

definition sorted_to :: "nat \<Rightarrow> nat \<Rightarrow> message list \<Rightarrow> bool" where
  "sorted_to lo hi ms \<longleftrightarrow> sorted (map fst ms) \<and> list_all (\<lambda>m. lo \<le> fst m \<and> fst m < hi) ms"

abbreviation below :: "nat \<Rightarrow> message list \<Rightarrow> message list" where
  "below r ms \<equiv> filter (\<lambda>m. fst m < r) ms"

abbreviation from_on :: "nat \<Rightarrow> message list \<Rightarrow> message list" where
  "from_on r ms \<equiv> filter (\<lambda>m. \<not> fst m < r) ms"

lemma flat_simps [route_simps]:
  "flat [] = []" "flat (m # ms) = (2 + length (snd m)) # fst m # snd m @ flat ms" "flat (ms @ ns) = flat ms @ flat ns"
  by (auto simp: flat_def split: prod.splits)

lemma sent_to_simps [route_simps]:
  "sent_to t [] = []" "sent_to t (m # ms) = (if fst m = t then m # sent_to t ms else sent_to t ms)" "sent_to t (ms @ ns) = sent_to t ms @ sent_to t ns"
  by (auto simp: sent_to_def)

lemma sent_to_filter: "sent_to t (filter P ms) = (if \<forall>m. fst m = t \<longrightarrow> P m then sent_to t ms else filter P (sent_to t ms))"
  by (induction ms) (auto simp: sent_to_def)

lemma sorted_split: "sorted (map fst ms) \<Longrightarrow> below r ms @ from_on r ms = ms"
proof (induction ms)
  case (Cons m ms)
  show ?case
  proof (cases "fst m < r")
    case False
    then have "below r ms = []" using Cons.prems by (auto simp: filter_empty_conv)
    then show ?thesis using Cons False by simp
  qed (use Cons in simp)
qed simp

lemma sorted_takeWhile: "sorted (map fst ms) \<Longrightarrow> takeWhile (\<lambda>m. fst m < r) ms = below r ms"
proof (induction ms)
  case (Cons m ms)
  show ?case
  proof (cases "fst m < r")
    case False
    then have "below r ms = []" using Cons.prems by (auto simp: filter_empty_conv)
    then show ?thesis using False by simp
  qed (use Cons in simp)
qed simp

lemma below_below:
  assumes "sorted (map fst ms)" and "p \<le> r"
  shows "below p ms @ below r (from_on p ms) = below r ms"
proof -
  have "below r ms = below r (below p ms @ from_on p ms)" using sorted_split[OF assms(1)] by simp
  also have "\<dots> = below p ms @ below r (from_on p ms)"
    using assms(2) by (auto intro!: filter_cong)
  finally show ?thesis by simp
qed

lemma below_from: "below (Suc r) (from_on r ms) = sent_to r ms"
  unfolding sent_to_def filter_filter by (rule filter_cong) auto

lemma movebefore_walk:
  "movebefore (flat (a @ b) @ c) r (length (flat a)) (length (flat (a @ b))) =
    Some (length (flat (a @ takeWhile (\<lambda>m. fst m < r) b)))"
proof (induction b arbitrary: a)
  case Nil
  then show ?case by (simp add: movebefore.simps)
next
  case (Cons m b)
  have here: "rd (flat (a @ m # b) @ c) (length (flat a)) = Some (2 + length (snd m))"
    "rd (flat (a @ m # b) @ c) (length (flat a) + 1) = Some (fst m)"
    by (simp_all add: rd_def flat_simps nth_append)
  have next_pos: "length (flat a) + (2 + length (snd m)) = length (flat (a @ [m]))" by (simp add: flat_simps)
  have "length (flat a) < length (flat (a @ m # b))" by (simp add: flat_simps)
  then show ?case
    using Cons.IH[of "a @ [m]"] here next_pos
    by (subst movebefore.simps) (simp del: length_append)
qed

lemma movebefore_flat:
  assumes "sorted (map fst ms)" and "p \<le> r"
  shows "movebefore (flat pre @ flat ms @ c) r (length (flat pre) + length (flat (below p ms)))
    (length (flat pre) + length (flat ms)) = Some (length (flat pre) + length (flat (below r ms)))"
proof -
  have srt: "sorted (map fst (from_on p ms))" using assms(1) by (rule sorted_filter)
  have whole: "flat ((pre @ below p ms) @ from_on p ms) = flat pre @ flat ms"
    by (simp only: append_assoc flat_simps(3)) (simp only: flat_simps(3)[symmetric] sorted_split[OF assms(1)])
  have front: "flat ((pre @ below p ms) @ below r (from_on p ms)) = flat pre @ flat (below r ms)"
    by (simp only: append_assoc flat_simps(3)) (simp only: flat_simps(3)[symmetric] below_below[OF assms])
  show ?thesis
    using movebefore_walk[of "pre @ below p ms" "from_on p ms" c r]
    unfolding whole front sorted_takeWhile[OF srt] flat_simps(3)[of pre "below p ms"] length_append
    by (simp only: append_assoc)
qed

lemma cut_flat:
  assumes "sorted (map fst ms)" and "p \<le> r"
  shows "cut_range (flat pre @ flat ms @ c) (length (flat pre) + length (flat (below p ms)))
    (length (flat pre) + length (flat (below r ms))) = Some (flat (below r (from_on p ms)))"
proof -
  have "flat (below r ms) = flat (below p ms) @ flat (below r (from_on p ms))"
    by (simp only: flat_simps(3)[symmetric] below_below[OF assms])
  moreover have "flat ms = flat (below r ms) @ flat (from_on r ms)"
    by (simp only: flat_simps(3)[symmetric] sorted_split[OF assms(1)])
  ultimately show ?thesis by (simp add: cut_range_def vspan_def)
qed

lemmas route_turn = movebefore_flat[where p = r and r = "Suc r" for r, OF _ le_SucI[OF order_refl]]
  cut_flat[where p = r and r = "Suc r" for r, OF _ le_SucI[OF order_refl], unfolded below_from]

text \<open>The same facts for a buffer that holds nothing else.\<close>

lemmas route_turn_whole = route_turn[where pre = "[]" and c = "[]", simplified flat_simps append_Nil append_Nil2 list.size(3) add_0]
lemmas movebefore_whole = movebefore_flat[where pre = "[]" and c = "[]", simplified flat_simps append_Nil append_Nil2 list.size(3) add_0]
lemmas cut_whole = cut_flat[where pre = "[]" and c = "[]", simplified flat_simps append_Nil append_Nil2 list.size(3) add_0]

section \<open>One level\<close>

text \<open>Messages for one target after the other, without those of the process itself.\<close>

definition merged :: "nat \<Rightarrow> nat \<Rightarrow> nat \<Rightarrow> message list list \<Rightarrow> message list" where
  "merged rank lo hi mss = concat (map (\<lambda>u. if u = rank then [] else concat (map (sent_to u) mss)) [lo..<hi])"

lemma merged_simps [route_simps]:
  "merged rank lo lo mss = []"
  "lo \<le> hi \<Longrightarrow> merged rank lo (Suc hi) mss =
    merged rank lo hi mss @ (if hi = rank then [] else concat (map (sent_to hi) mss))"
  by (auto simp: merged_def)

lemma below_start: "sorted_to lo hi ms \<Longrightarrow> below lo ms = []"
  by (auto simp: sorted_to_def list_all_iff filter_empty_conv)

lemma lower_loop:
  assumes "sorted_to lo hi R" and "sorted_to lo hi S" and "lo \<le> mid"
  shows "for_each [lo..<mid] (lower_turn rank (flat R) (flat S)) (0, 0, [], buf) =
    Some (length (flat (below mid R)), length (flat (below mid S)), flat (merged rank lo mid [R, S]),
      buf @ flat (if lo \<le> rank \<and> rank < mid then sent_to rank R else []))"
  using assms(3)
proof (induction mid)
  case (Suc mid)
  show ?case
  proof (cases "lo \<le> mid")
    case True
    have srt: "sorted (map fst R)" "sorted (map fst S)" using assms by (simp_all add: sorted_to_def)
    show ?thesis
      using Suc.IH[OF True] True
      by (auto simp: for_each_append lower_turn_def route_turn_whole srt merged_simps flat_simps)
  next
    case False
    then have "Suc mid = lo" using Suc.prems by simp
    then show ?thesis using assms by (auto simp: below_start route_simps)
  qed
qed (use assms in \<open>simp add: below_start route_simps\<close>)

lemmas route_turn_front = route_turn[where pre = "[]", simplified flat_simps append_Nil list.size(3) add_0]
lemmas route_turn_rear = route_turn[where c = "[]", simplified append_Nil2]

lemma upper_loop:
  assumes "sorted_to mid right R" and "sorted_to mid right M" and "sorted (map fst S)" and "mid \<le> hi"
  shows "for_each [mid..<hi] (upper_turn rank (flat R @ flat M) (length (flat R)) (flat S))
      (0, length (flat R), length (flat (below mid S)), [], buf) =
    Some (length (flat (below hi R)), length (flat R) + length (flat (below hi M)), length (flat (below hi S)),
      flat (merged rank mid hi [R, M, S]),
      buf @ flat (if mid \<le> rank \<and> rank < hi then sent_to rank R @ sent_to rank M else []))"
  using assms(4)
proof (induction hi)
  case (Suc hi)
  show ?case
  proof (cases "mid \<le> hi")
    case True
    have srt: "sorted (map fst R)" "sorted (map fst M)" "sorted (map fst S)" using assms by (simp_all add: sorted_to_def)
    show ?thesis
      using Suc.IH[OF True] True
      by (auto simp: for_each_append upper_turn_def route_turn_whole route_turn_front route_turn_rear srt merged_simps flat_simps)
  next
    case False
    then have "Suc hi = mid" using Suc.prems by simp
    then show ?thesis using assms by (auto simp: below_start route_simps)
  qed
qed (use assms in \<open>simp add: below_start route_simps\<close>)

text \<open>The partner of a process, and what it sends there.\<close>

definition partner :: "nat \<Rightarrow> nat \<Rightarrow> nat \<Rightarrow> nat \<Rightarrow> nat" where
  "partner lo hi mid r = (if r < mid then (if r + (mid - lo) < hi then r + (mid - lo) else mid) else r - (mid - lo))"

definition crossing :: "nat \<Rightarrow> nat \<Rightarrow> message list \<Rightarrow> message list" where
  "crossing mid r S = (if r < mid then from_on mid S else below mid S)"

lemma movebefore_all:
  assumes "sorted (map fst S)"
  shows "movebefore (flat S) r 0 (length (flat S)) = Some (length (flat (below r S)))"
  using movebefore_whole[OF assms, of 0 r] by (simp add: flat_simps)

lemma cut_sides:
  assumes "sorted (map fst S)"
  shows "cut_range (flat S) (length (flat (below r S))) (length (flat S)) = Some (flat (from_on r S))"
    and "cut_range (flat S) 0 (length (flat (below r S))) = Some (flat (below r S))"
    and "take (length (flat (below r S))) (flat S) = flat (below r S)"
    and "length (flat (below r S)) \<le> length (flat S)"
proof -
  have "flat S = flat (below r S) @ flat (from_on r S)"
    by (simp only: flat_simps(3)[symmetric] sorted_split[OF assms(1)])
  then show "cut_range (flat S) (length (flat (below r S))) (length (flat S)) = Some (flat (from_on r S))"
    and "cut_range (flat S) 0 (length (flat (below r S))) = Some (flat (below r S))"
    and "take (length (flat (below r S))) (flat S) = flat (below r S)"
    and "length (flat (below r S)) \<le> length (flat S)" by (simp_all add: cut_range_def vspan_def)
qed

lemmas side_simps = movebefore_all cut_sides movebefore_whole

lemma route_lower_out:
  assumes "r_send st = flat S" and "sorted_to (r_left st) (r_right st) S" and "r_left st \<le> rank" and "rank < mid"
    and "route_lower multiplier rank mid inbox st = Some (True, st', out)"
  shows "out = [(partner (r_left st) (r_right st) mid rank, flat (crossing mid rank S))] \<and> \<not> too_large multiplier (flat (crossing mid rank S))"
proof -
  have srt: "sorted (map fst S)" using assms(2) by (simp add: sorted_to_def)
  have le: "rank \<le> mid" using assms(4) by simp
  show ?thesis
    using assms(4,5) unfolding route_lower_def assms(1)
    by (auto simp: side_simps srt le partner_def crossing_def split: if_splits bind_splits)
qed

lemma route_upper_out:
  assumes "r_send st = flat S" and "sorted_to (r_left st) (r_right st) S" and "mid \<le> rank"
    and "route_upper multiplier rank mid inbox st = Some (True, st', out)"
  shows "out = [(partner (r_left st) (r_right st) mid rank, flat (crossing mid rank S))] \<and> \<not> too_large multiplier (flat (crossing mid rank S))"
proof -
  have srt: "sorted (map fst S)" using assms(2) by (simp add: sorted_to_def)
  show ?thesis
    using assms(3,4) unfolding route_upper_def assms(1)
    by (auto simp: side_simps srt partner_def crossing_def Let_def split: if_splits bind_splits)
qed

definition incoming :: "nat \<Rightarrow> nat \<Rightarrow> nat \<Rightarrow> (nat \<Rightarrow> message list) \<Rightarrow> nat \<Rightarrow> message list list" where
  "incoming lo hi mid S r =
    (if r < mid then (if r + (mid - lo) < hi then [S (r + (mid - lo))] else [])
     else S (r - (mid - lo)) # (if hi - mid < mid - lo \<and> r = mid then [S (mid - 1)] else []))"

definition lower_end :: "nat \<Rightarrow> nat \<Rightarrow> nat \<Rightarrow> nat" where
  "lower_end mid lo r = (if r < mid then lo else mid)"

definition upper_end :: "nat \<Rightarrow> nat \<Rightarrow> nat \<Rightarrow> nat" where
  "upper_end mid hi r = (if r < mid then mid else hi)"

definition next_state :: "nat \<Rightarrow> message list list \<Rightarrow> message list \<Rightarrow> router \<Rightarrow> router" where
  "next_state r gets S st =
    (let mid = half (r_left st) (r_right st); lo = lower_end mid (r_left st) r; hi = upper_end mid (r_right st) r in
     st\<lparr>r_left := lo, r_right := hi, r_send := flat (merged r lo hi (gets @ [S])),
       r_buffer := r_buffer st @ flat (concat (map (sent_to r) gets))\<rparr>)"

lemma half_bounds:
  assumes "lo + 1 < hi"
  shows "lo < half lo hi" and "half lo hi < hi" and "hi - half lo hi \<le> half lo hi - lo"
    and "half lo hi - lo \<le> hi - half lo hi + 1" and "half lo hi - lo - 1 = (hi - lo - 1) div 2"
proof -
  define k b where "k = (hi - lo) div 2" and "b = (hi - lo) mod 2"
  have s: "hi - lo = 2 * k + b" "b < 2" by (simp_all add: k_def b_def)
  have h: "half lo hi = lo + k + b" by (simp add: half_def k_def b_def)
  show "lo < half lo hi" "half lo hi < hi" "hi - half lo hi \<le> half lo hi - lo"
    "half lo hi - lo \<le> hi - half lo hi + 1"
    unfolding h using s assms by linarith+
  have "(2 * k + b - 1) div 2 = k + b - 1" if "1 \<le> k"
    using that s(2) by (cases k) (auto simp: less_2_cases_iff)
  moreover have "1 \<le> k" using s assms by linarith
  ultimately have "(hi - lo - 1) div 2 = k + b - 1" by (simp only: s(1))
  then show "half lo hi - lo - 1 = (hi - lo - 1) div 2" unfolding h by simp
qed

lemma merged_cong:
  assumes "\<And>u. lo \<le> u \<Longrightarrow> u < hi \<Longrightarrow> concat (map (sent_to u) xs) = concat (map (sent_to u) ys)"
  shows "merged r lo hi xs = merged r lo hi ys"
  unfolding merged_def using assms by (intro arg_cong[where f = concat] map_cong) auto

lemma sent_to_below: "u < r \<Longrightarrow> sent_to u (below r ms) = sent_to u ms"
  and sent_to_from_on: "r \<le> u \<Longrightarrow> sent_to u (from_on r ms) = sent_to u ms"
  by (auto simp: sent_to_filter)

lemma sorted_to_sides:
  assumes "sorted_to lo hi ms"
  shows "mid \<le> hi \<Longrightarrow> sorted_to lo mid (below mid ms)" and "sorted_to mid hi (from_on mid ms)"
  using assms by (auto simp: sorted_to_def list_all_iff intro: sorted_filter)

lemma below_merged:
  assumes "sorted_to lo (Suc r) S \<or> sorted (map fst S) \<and> below lo S = []" and "lo \<le> r"
  shows "merged r lo (Suc r) [S] = below r S"
proof -
  have srt: "sorted (map fst S)" and start: "below lo S = []"
    using assms(1) below_start by (auto simp: sorted_to_def)
  have "merged r lo hi [S] = below hi S" if "lo \<le> hi" "hi \<le> r" for hi
    using that
  proof (induction hi)
    case (Suc hi)
    show ?case
    proof (cases "lo \<le> hi")
      case True
      moreover have "below hi S @ sent_to hi S = below (Suc hi) S"
        using below_below[OF srt, of hi "Suc hi"] unfolding below_from by simp
      ultimately show ?thesis using Suc by (simp add: merged_simps)
    next
      case False
      then have "lo = Suc hi" using Suc.prems(1) by simp
      then show ?thesis using start by (simp add: merged_simps)
    qed
  qed (use start in \<open>simp add: merged_simps\<close>)
  from this[of r] show ?thesis using assms(2) by (simp add: merged_simps)
qed

lemma route_lower_ok:
  fixes st multiplier rank
  defines "lo \<equiv> r_left st" and "hi \<equiv> r_right st"
  defines "mid \<equiv> half (r_left st) (r_right st)"
  assumes "running st" and "r_send st = flat (S rank)" and "lo \<le> rank" and "rank < mid"
    and "\<And>q. lo \<le> q \<Longrightarrow> q < hi \<Longrightarrow> sorted_to lo hi (S q)"
    and "\<And>q. lo \<le> q \<Longrightarrow> q < hi \<Longrightarrow> partner lo hi mid q = rank \<Longrightarrow> inbox q = Some (flat (crossing mid q (S q)))"
    and "\<not> too_large multiplier (flat (crossing mid rank (S rank)))"
  shows "\<exists>out. route_lower multiplier rank mid inbox st =
    Some (True, next_state rank (incoming lo hi mid S rank) (S rank) st, out)"
proof -
  have run: "lo + 1 < hi" using assms(4) by (simp add: running_def lo_def hi_def)
  note mid = half_bounds[OF run, folded lo_def hi_def, unfolded lo_def hi_def, folded mid_def, folded lo_def hi_def]
  have S: "sorted_to lo hi (S rank)" using assms(6,7,8) mid(2) by simp
  have srt: "sorted (map fst (S rank))" using S by (simp add: sorted_to_def)
  have fold_defs: "r_left st = lo" "r_right st = hi" "half lo hi = mid" by (simp_all add: lo_def hi_def mid_def)
  have large: "\<not> too_large multiplier (flat (from_on mid (S rank)))" using assms(7,10) by (simp add: crossing_def)
  show ?thesis
  proof (cases "rank + (mid - lo) < hi")
    case True
    let ?q = "rank + (mid - lo)"
    have q2: "mid \<le> ?q" using mid(1) assms(6) by simp
    have q: "partner lo hi mid ?q = rank" using q2 by (simp add: partner_def)
    have Sq: "sorted_to lo hi (S ?q)" using assms(6,8) True by simp
    then have R: "sorted_to lo hi (below mid (S ?q))" by (auto simp: sorted_to_def list_all_iff intro: sorted_filter)
    have in_q: "inbox ?q = Some (flat (below mid (S ?q)))"
      using assms(9)[OF _ True q] assms(6) q2 by (simp add: crossing_def)
    have "merged rank lo mid [below mid (S ?q), S rank] = merged rank lo mid [S ?q, S rank]"
      by (rule merged_cong) (simp add: sent_to_below)
    moreover have "sent_to rank (below mid (S ?q)) = sent_to rank (S ?q)" using assms(7) by (simp add: sent_to_below)
    moreover note lower_loop[OF R S, of mid rank "r_buffer st"]
    ultimately show ?thesis
      using True in_q assms(5,6,7) large mid(1)
      by (simp add: route_lower_def fold_defs movebefore_all[OF srt] cut_sides[OF srt] next_state_def lower_end_def
          upper_end_def incoming_def Let_def)
  next
    case False
    then have last: "Suc rank = mid" using assms(7) mid by linarith
    have "merged rank lo mid [S rank] = below rank (S rank)"
      using below_merged[of lo rank "S rank"] srt below_start[OF S] assms(6) last by simp
    moreover have "rank \<le> mid" using assms(7) by simp
    ultimately show ?thesis
      using False assms(5,7) large
      by (simp add: route_lower_def fold_defs movebefore_all[OF srt] movebefore_whole[OF srt] cut_sides[OF srt] next_state_def
          lower_end_def upper_end_def incoming_def Let_def flat_simps leD[OF cut_sides(4)[OF srt]])
  qed
qed

lemma route_upper_ok:
  fixes st multiplier rank
  defines "lo \<equiv> r_left st" and "hi \<equiv> r_right st"
  defines "mid \<equiv> half (r_left st) (r_right st)"
  assumes "running st" and "r_send st = flat (S rank)" and "mid \<le> rank" and "rank < hi"
    and "\<And>q. lo \<le> q \<Longrightarrow> q < hi \<Longrightarrow> sorted_to lo hi (S q)"
    and "\<And>q. lo \<le> q \<Longrightarrow> q < hi \<Longrightarrow> partner lo hi mid q = rank \<Longrightarrow> inbox q = Some (flat (crossing mid q (S q)))"
    and "\<not> too_large multiplier (flat (crossing mid rank (S rank)))"
  shows "\<exists>out. route_upper multiplier rank mid inbox st =
    Some (True, next_state rank (incoming lo hi mid S rank) (S rank) st, out)"
proof -
  have run: "lo + 1 < hi" using assms(4) by (simp add: running_def lo_def hi_def)
  note mid = half_bounds[OF run, folded lo_def hi_def, unfolded lo_def hi_def, folded mid_def, folded lo_def hi_def]
  have fold_defs: "r_left st = lo" "r_right st = hi" "half lo hi = mid" by (simp_all add: lo_def hi_def mid_def)
  have S: "sorted_to lo hi (S rank)" using assms(6,7,8) mid(1) by simp
  have srt: "sorted (map fst (S rank))" using S by (simp add: sorted_to_def)
  have large: "\<not> too_large multiplier (flat (below mid (S rank)))" using assms(6,10) by (simp add: crossing_def)
  let ?q = "rank - (mid - lo)"
  have q: "lo \<le> ?q" "?q < mid" "?q + (mid - lo) = rank" "?q < hi" using assms(6,7) mid by linarith+
  have R: "sorted_to mid hi (from_on mid (S ?q))" using sorted_to_sides(2) assms(8) q by blast
  have in_q: "inbox ?q = Some (flat (from_on mid (S ?q)))"
    using assms(9)[OF q(1,4)] q(2,3) assms(7) by (simp add: partner_def crossing_def)
  have front: "sent_to rank (from_on mid (S ?q)) = sent_to rank (S ?q)" using assms(6) by (simp add: sent_to_from_on)
  show ?thesis
  proof (cases "hi - mid < mid - lo \<and> rank = mid")
    case True
    have srt': "sorted (map fst (S mid))" using srt True by simp
    have m: "lo \<le> mid - 1" "mid - 1 < mid" "mid - 1 < hi" "\<not> mid - 1 + (mid - lo) < hi" using True mid by linarith+
    have M: "sorted_to mid hi (from_on mid (S (mid - 1)))" using sorted_to_sides(2) assms(8) m by blast
    have in_m: "inbox (mid - 1) = Some (flat (from_on mid (S (mid - 1))))"
      using assms(9)[OF m(1,3)] m(2,4) True by (simp add: partner_def crossing_def)
    have "merged rank mid hi [from_on mid (S ?q), from_on mid (S (mid - 1)), S rank] =
        merged rank mid hi [S ?q, S (mid - 1), S rank]"
      by (rule merged_cong) (simp add: sent_to_from_on)
    moreover note upper_loop[OF R M srt, of hi rank "r_buffer st"]
    moreover have "sent_to rank (from_on mid (S (mid - 1))) = sent_to rank (S (mid - 1))"
      using assms(6) by (simp add: sent_to_from_on)
    ultimately show ?thesis
      using True in_q in_m assms(5) large mid(2) front
      by (simp add: route_upper_def fold_defs movebefore_all[OF srt'] cut_sides[OF srt'] next_state_def lower_end_def
          upper_end_def incoming_def Let_def)
  next
    case False
    have M: "sorted_to mid hi []" by (simp add: sorted_to_def)
    have "merged rank mid hi [from_on mid (S ?q), [], S rank] = merged rank mid hi [S ?q, S rank]"
      by (rule merged_cong) (simp add: sent_to_from_on sent_to_simps)
    moreover note upper_loop[OF R M srt, of hi rank "r_buffer st"]
    ultimately show ?thesis
      using False in_q assms(5,6,7) large mid(2) front
      by (auto simp add: route_upper_def fold_defs movebefore_all[OF srt] cut_sides[OF srt] next_state_def lower_end_def
          upper_end_def incoming_def Let_def flat_simps sent_to_simps)
  qed
qed

section \<open>What arrives where\<close>

definition amount :: "nat \<Rightarrow> message list list \<Rightarrow> message multiset" where
  "amount t xs = sum_list (map (\<lambda>ms. mset (sent_to t ms)) xs)"

lemma amount_concat: "mset (concat (map (sent_to t) xs)) = amount t xs"
  by (induction xs) (simp_all add: amount_def)

lemma sent_to_merged:
  "sent_to t (merged r lo hi xs) = (if lo \<le> t \<and> t < hi \<and> t \<noteq> r then concat (map (sent_to t) xs) else [])"
proof (induction hi)
  case (Suc hi)
  have self: "sent_to t (concat (map (sent_to u) xs)) = (if t = u then concat (map (sent_to t) xs) else [])" for u
    by (induction xs) (auto simp: sent_to_simps, auto simp: sent_to_def filter_empty_conv)
  show ?case
  proof (cases "lo \<le> hi")
    case True
    then show ?thesis using Suc by (auto simp: merged_simps sent_to_simps self)
  next
    case False
    then show ?thesis by (auto simp: merged_def sent_to_simps)
  qed
qed (auto simp: merged_def sent_to_simps)

lemma sorted_to_append:
  assumes "sorted_to lo hi ms" and "list_all (\<lambda>m. fst m = hi) ns" and "lo \<le> hi"
  shows "sorted_to lo (Suc hi) (ms @ ns)"
proof -
  have keys: "map fst ns = replicate (length ns) hi" using assms(2) by (induction ns) auto
  have "\<forall>m\<in>set ms. lo \<le> fst m \<and> fst m < hi" and srt: "sorted (map fst ms)"
    using assms(1) by (simp_all add: sorted_to_def list_all_iff)
  then have before: "\<forall>m\<in>set ms. lo \<le> fst m \<and> fst m \<le> hi" by (auto intro: less_imp_le)
  then have "sorted (map fst ms @ replicate (length ns) hi)"
    using srt by (simp add: sorted_append)
  moreover have "list_all (\<lambda>m. lo \<le> fst m \<and> fst m < Suc hi) (ms @ ns)"
    using before assms(2,3) by (auto simp: list_all_iff less_Suc_eq_le)
  ultimately show ?thesis by (simp only: sorted_to_def map_append keys simp_thms)
qed

lemma sorted_to_merged: "sorted_to lo hi (merged r lo hi xs)"
proof (induction hi)
  case (Suc hi)
  have own: "list_all (\<lambda>m. fst m = hi) (if hi = r then [] else concat (map (sent_to hi) xs))"
    by (simp add: sent_to_def list_all_iff)
  show ?case
  proof (cases "lo \<le> hi")
    case True
    then show ?thesis unfolding merged_simps(2)[OF True] by (rule sorted_to_append[OF Suc own])
  next
    case False
    then show ?thesis by (simp add: merged_def sorted_to_def)
  qed
qed (simp add: merged_def sorted_to_def)

lemma sum_shift: "(\<Sum>q\<in>{a..<b}. f (q + d)) = (\<Sum>q\<in>{a + d..<b + d}. f q)"
  for f :: "nat \<Rightarrow> 'a :: comm_monoid_add"
  by (rule sum.shift_bounds_nat_ivl[symmetric])

lemma route_level_out:
  assumes "r_send st = flat S" and "sorted_to (r_left st) (r_right st) S" and "r_left st \<le> rank"
    and "route_level multiplier rank inbox st = Some (True, st', out)"
  shows "out = [(partner (r_left st) (r_right st) (half (r_left st) (r_right st)) rank,
      flat (crossing (half (r_left st) (r_right st)) rank S))] \<and>
    \<not> too_large multiplier (flat (crossing (half (r_left st) (r_right st)) rank S))"
  using assms(4) route_lower_out[OF assms(1-3)] route_upper_out[OF assms(1,2)]
  by (auto simp: route_level_def Let_def not_less split: if_splits)

lemma route_level_ok:
  fixes st multiplier rank
  defines "lo \<equiv> r_left st" and "hi \<equiv> r_right st"
  defines "mid \<equiv> half (r_left st) (r_right st)"
  assumes "running st" and "r_send st = flat (S rank)" and "lo \<le> rank" and "rank < hi"
    and "\<And>q. lo \<le> q \<Longrightarrow> q < hi \<Longrightarrow> sorted_to lo hi (S q)"
    and "\<And>q. lo \<le> q \<Longrightarrow> q < hi \<Longrightarrow> partner lo hi mid q = rank \<Longrightarrow> inbox q = Some (flat (crossing mid q (S q)))"
    and "\<not> too_large multiplier (flat (crossing mid rank (S rank)))"
  shows "\<exists>out. route_level multiplier rank inbox st =
    Some (True, next_state rank (incoming lo hi mid S rank) (S rank) st, out)"
proof (cases "rank < mid")
  case True
  then show ?thesis
    using route_lower_ok[of st S rank inbox multiplier] assms by (simp add: route_level_def Let_def)
next
  case False
  then show ?thesis
    using route_upper_ok[of st S rank inbox multiplier] assms by (simp add: route_level_def Let_def)
qed

text \<open>Every message of a half is received on the other side.\<close>

lemma incoming_sum:
  fixes f :: "message list \<Rightarrow> 'a :: comm_monoid_add"
  assumes "lo < mid" and "mid < hi" and "hi - mid \<le> mid - lo" and "mid - lo \<le> hi - mid + 1"
  shows "(\<Sum>q\<in>{lo..<mid}. sum_list (map f (incoming lo hi mid S q))) = (\<Sum>q\<in>{mid..<hi}. f (S q))"
    and "(\<Sum>q\<in>{mid..<hi}. sum_list (map f (incoming lo hi mid S q))) = (\<Sum>q\<in>{lo..<mid}. f (S q))"
proof -
  let ?h = "mid - lo" and ?m = "lo + (hi - mid)"
  have shift: "lo + ?h = mid" "?m + ?h = hi" using assms(1,2) by simp_all
  have "(\<Sum>q\<in>{lo..<mid}. sum_list (map f (incoming lo hi mid S q))) =
      (\<Sum>q\<in>{lo..<mid}. if q \<in> {lo..<?m} then f (S (q + ?h)) else 0)"
    using shift by (intro sum.cong) (auto simp: incoming_def)
  also have "\<dots> = (\<Sum>q\<in>{lo..<?m}. f (S (q + ?h)))"
  proof -
    have "{lo..<mid} \<inter> {lo..<?m} = {lo..<?m}" using assms(1,3) by auto
    then show ?thesis by (simp only: sum.inter_restrict[symmetric] finite_atLeastLessThan)
  qed
  also have "\<dots> = (\<Sum>q\<in>{mid..<hi}. f (S q))" using sum_shift[of "\<lambda>q. f (S q)" ?h lo ?m] shift by simp
  finally show "(\<Sum>q\<in>{lo..<mid}. sum_list (map f (incoming lo hi mid S q))) = (\<Sum>q\<in>{mid..<hi}. f (S q))" .
  let ?last = "if hi - mid < ?h then f (S (mid - 1)) else 0"
  have "(\<Sum>q\<in>{mid..<hi}. sum_list (map f (incoming lo hi mid S q))) =
      (\<Sum>q\<in>{mid..<hi}. f (S (q - ?h)) + (if q = mid then ?last else 0))"
    by (intro sum.cong) (auto simp: incoming_def)
  also have "\<dots> = (\<Sum>q\<in>{mid..<hi}. f (S (q - ?h))) + ?last"
    using assms(2) by (simp add: sum.distrib sum.delta)
  also have "(\<Sum>q\<in>{mid..<hi}. f (S (q - ?h))) = (\<Sum>q\<in>{lo..<?m}. f (S q))"
    using sum_shift[of "\<lambda>q. f (S (q - ?h))" ?h lo ?m] shift by simp
  also have "(\<Sum>q\<in>{lo..<?m}. f (S q)) + ?last = (\<Sum>q\<in>{lo..<mid}. f (S q))"
  proof (cases "hi - mid < ?h")
    case True
    then have m: "mid = Suc ?m" "?m = mid - 1" using assms by linarith+
    have "(\<Sum>q\<in>{lo..<mid}. f (S q)) = (\<Sum>q\<in>{lo..<Suc ?m}. f (S q))" using m(1) by (simp only:)
    also have "\<dots> = (\<Sum>q\<in>{lo..<?m}. f (S q)) + f (S ?m)" by (rule sum.atLeastLessThan_Suc) simp
    finally show ?thesis using True m(2) by (simp only: if_True)
  next
    case False
    then have "?m = mid" using assms by linarith
    then show ?thesis using False by simp
  qed
  finally show "(\<Sum>q\<in>{mid..<hi}. sum_list (map f (incoming lo hi mid S q))) = (\<Sum>q\<in>{lo..<mid}. f (S q))" .
qed

section \<open>The group\<close>

text \<open>
  The invariant between two levels.  Every process works with the processes of its block; what it
  has to send is sorted and goes into the block; and the messages for a process are in its buffer,
  or still in the buffers of the other processes of its block, once each.
\<close>

definition routed :: "nat \<Rightarrow> nat list list \<Rightarrow> (nat \<Rightarrow> message multiset) \<Rightarrow> nat \<Rightarrow> (nat \<Rightarrow> router) \<Rightarrow>
    (nat \<Rightarrow> message list) \<Rightarrow> (nat \<Rightarrow> message list) \<Rightarrow> bool" where
  "routed n rBufs tot l \<sigma> S B \<longleftrightarrow> (\<forall>r < n.
     r_left (\<sigma> r) \<le> r \<and> r < r_right (\<sigma> r) \<and> r_right (\<sigma> r) \<le> n \<and>
     r_right (\<sigma> r) - r_left (\<sigma> r) - 1 \<le> (n - 1) div 2 ^ l \<and>
     (\<forall>q. r_left (\<sigma> r) \<le> q \<and> q < r_right (\<sigma> r) \<longrightarrow> r_left (\<sigma> q) = r_left (\<sigma> r) \<and> r_right (\<sigma> q) = r_right (\<sigma> r)) \<and>
     r_send (\<sigma> r) = flat (S r) \<and> r_buffer (\<sigma> r) = rBufs ! r @ flat (B r) \<and>
     sorted_to (r_left (\<sigma> r)) (r_right (\<sigma> r)) (S r) \<and>
     (\<Sum>q\<in>{r_left (\<sigma> r)..<r_right (\<sigma> r)} - {r}. mset (sent_to r (S q))) + mset (B r) = tot r)"

lemma routedD:
  assumes "routed n rBufs tot l \<sigma> S B" and "r < n"
  shows "r_left (\<sigma> r) \<le> r" and "r < r_right (\<sigma> r)" and "r_right (\<sigma> r) \<le> n"
    and "r_right (\<sigma> r) - r_left (\<sigma> r) - 1 \<le> (n - 1) div 2 ^ l"
    and "\<And>q. r_left (\<sigma> r) \<le> q \<Longrightarrow> q < r_right (\<sigma> r) \<Longrightarrow> r_left (\<sigma> q) = r_left (\<sigma> r)"
    and "\<And>q. r_left (\<sigma> r) \<le> q \<Longrightarrow> q < r_right (\<sigma> r) \<Longrightarrow> r_right (\<sigma> q) = r_right (\<sigma> r)"
    and "r_send (\<sigma> r) = flat (S r)" and "r_buffer (\<sigma> r) = rBufs ! r @ flat (B r)"
    and "sorted_to (r_left (\<sigma> r)) (r_right (\<sigma> r)) (S r)"
    and "(\<Sum>q\<in>{r_left (\<sigma> r)..<r_right (\<sigma> r)} - {r}. mset (sent_to r (S q))) + mset (B r) = tot r"
  using assms unfolding routed_def by blast+

text \<open>The messages a process keeps and takes in one level.\<close>

definition next_send :: "(nat \<Rightarrow> router) \<Rightarrow> (nat \<Rightarrow> message list) \<Rightarrow> nat \<Rightarrow> message list" where
  "next_send \<sigma> S r =
    (let lo = r_left (\<sigma> r); hi = r_right (\<sigma> r); mid = half lo hi in
     if running (\<sigma> r) then merged r (lower_end mid lo r) (upper_end mid hi r) (incoming lo hi mid S r @ [S r]) else S r)"

definition next_buffer :: "(nat \<Rightarrow> router) \<Rightarrow> (nat \<Rightarrow> message list) \<Rightarrow> (nat \<Rightarrow> message list) \<Rightarrow> nat \<Rightarrow> message list" where
  "next_buffer \<sigma> S B r =
    (let lo = r_left (\<sigma> r); hi = r_right (\<sigma> r); mid = half lo hi in
     if running (\<sigma> r) then B r @ concat (map (sent_to r) (incoming lo hi mid S r)) else B r)"

definition next_router :: "(nat \<Rightarrow> router) \<Rightarrow> (nat \<Rightarrow> message list) \<Rightarrow> nat \<Rightarrow> router" where
  "next_router \<sigma> S r =
    (let lo = r_left (\<sigma> r); hi = r_right (\<sigma> r); mid = half lo hi in
     if running (\<sigma> r) then next_state r (incoming lo hi mid S r) (S r) (\<sigma> r) else \<sigma> r)"

lemma next_router_simps [route_simps]:
  "r_left (next_router \<sigma> S r) = (if running (\<sigma> r) then lower_end (half (r_left (\<sigma> r)) (r_right (\<sigma> r))) (r_left (\<sigma> r)) r else r_left (\<sigma> r))"
  "r_right (next_router \<sigma> S r) = (if running (\<sigma> r) then upper_end (half (r_left (\<sigma> r)) (r_right (\<sigma> r))) (r_right (\<sigma> r)) r else r_right (\<sigma> r))"
  "r_send (\<sigma> r) = flat (S r) \<Longrightarrow> r_send (next_router \<sigma> S r) = flat (next_send \<sigma> S r)"
  "r_buffer (\<sigma> r) = b @ flat (B r) \<Longrightarrow> r_buffer (next_router \<sigma> S r) = b @ flat (next_buffer \<sigma> S B r)"
  by (auto simp: next_router_def next_state_def next_send_def next_buffer_def Let_def flat_simps)

lemma messages_kept:
  assumes "lo + 1 < hi" and "lo \<le> t" and "t < hi"
    and "(\<Sum>q\<in>{lo..<hi} - {t}. mset (sent_to t (S q))) + mset b = tot"
  defines "mid \<equiv> half lo hi"
  defines "lo' \<equiv> lower_end mid lo t" and "hi' \<equiv> upper_end mid hi t"
  shows "(\<Sum>q\<in>{lo'..<hi'} - {t}. mset (sent_to t (merged q lo' hi' (incoming lo hi mid S q @ [S q])))) +
    mset (b @ concat (map (sent_to t) (incoming lo hi mid S t))) = tot"
proof -
  note mid = half_bounds[OF assms(1), folded mid_def]
  let ?g = "\<lambda>ms. mset (sent_to t ms)"
  let ?I = "\<lambda>q. sum_list (map ?g (incoming lo hi mid S q))"
  have t: "lo' \<le> t" "t < hi'" using assms(2,3) mid by (auto simp: lo'_def hi'_def lower_end_def upper_end_def)
  define other where "other = (if t < mid then {mid..<hi} else {lo..<mid})"
  have parts: "{lo..<hi} - {t} = ({lo'..<hi'} - {t}) \<union> other" "({lo'..<hi'} - {t}) \<inter> other = {}"
    using mid assms(2,3) by (auto simp: lo'_def hi'_def lower_end_def upper_end_def other_def)
  have crossed: "(\<Sum>q\<in>{lo'..<hi'}. ?I q) = (\<Sum>q\<in>other. ?g (S q))"
    using incoming_sum[OF mid(1-4), of ?g S] by (auto simp: lo'_def hi'_def lower_end_def upper_end_def other_def)
  have "(\<Sum>q\<in>{lo'..<hi'} - {t}. ?g (merged q lo' hi' (incoming lo hi mid S q @ [S q]))) =
      (\<Sum>q\<in>{lo'..<hi'} - {t}. ?I q + ?g (S q))"
    using t by (intro sum.cong refl) (auto simp: sent_to_merged amount_concat amount_def)
  also have "\<dots> + mset (b @ concat (map (sent_to t) (incoming lo hi mid S t))) =
      (?I t + (\<Sum>q\<in>{lo'..<hi'} - {t}. ?I q)) + (\<Sum>q\<in>{lo'..<hi'} - {t}. ?g (S q)) + mset b"
    by (simp add: sum.distrib amount_concat amount_def)
  also have "?I t + (\<Sum>q\<in>{lo'..<hi'} - {t}. ?I q) = (\<Sum>q\<in>other. ?g (S q))"
    using sum.remove[of "{lo'..<hi'}" t ?I] t crossed by simp
  also have "(\<Sum>q\<in>other. ?g (S q)) + (\<Sum>q\<in>{lo'..<hi'} - {t}. ?g (S q)) = (\<Sum>q\<in>{lo..<hi} - {t}. ?g (S q))"
    unfolding parts(1) using parts(2) by (subst sum.union_disjoint) (auto simp: other_def)
  finally show ?thesis using assms(4) by simp
qed

lemma block_shrinks:
  assumes "lo + 1 < hi" and "lo \<le> r" and "r < hi" and "hi - lo - 1 \<le> (n - 1) div 2 ^ l"
  defines "mid \<equiv> half lo hi"
  shows "lower_end mid lo r \<le> r" and "r < upper_end mid hi r" and "upper_end mid hi r \<le> hi" and "lo \<le> lower_end mid lo r"
    and "upper_end mid hi r - lower_end mid lo r - 1 \<le> (n - 1) div 2 ^ Suc l"
    and "\<And>q. lower_end mid lo r \<le> q \<Longrightarrow> q < upper_end mid hi r \<Longrightarrow>
      lower_end mid lo q = lower_end mid lo r \<and> upper_end mid hi q = upper_end mid hi r"
proof -
  note mid = half_bounds[OF assms(1), folded mid_def]
  have "mid - lo - 1 \<le> (n - 1) div 2 ^ Suc l"
    using div_le_mono[OF assms(4), of 2] by (simp only: mid(5) power_Suc2 div_mult2_eq)
  then show "upper_end mid hi r - lower_end mid lo r - 1 \<le> (n - 1) div 2 ^ Suc l"
    using mid(3) by (auto simp: lower_end_def upper_end_def)
  show "lower_end mid lo r \<le> r" "r < upper_end mid hi r" "upper_end mid hi r \<le> hi" "lo \<le> lower_end mid lo r"
    using assms(2,3) mid(1,2) by (simp_all add: lower_end_def upper_end_def)
  show "lower_end mid lo q = lower_end mid lo r \<and> upper_end mid hi q = upper_end mid hi r"
    if "lower_end mid lo r \<le> q" and "q < upper_end mid hi r" for q
    using that by (auto simp: lower_end_def upper_end_def split: if_splits)
qed

lemma routed_next:
  assumes "routed n rBufs tot l \<sigma> S B" and "\<forall>r < n. \<sigma>' r = next_router \<sigma> S r"
  shows "routed n rBufs tot (Suc l) \<sigma>' (next_send \<sigma> S) (next_buffer \<sigma> S B)"
  unfolding routed_def
proof (intro allI impI)
  fix r
  assume r: "r < n"
  define lo hi mid where "lo = r_left (\<sigma> r)" and "hi = r_right (\<sigma> r)" and "mid = half lo hi"
  note inv = routedD[OF assms(1) r, folded lo_def hi_def]
  have \<sigma>': "\<sigma>' q = next_router \<sigma> S q" if "q < hi" for q using assms(2) that inv(3) by simp
  let ?goal = "r_left (\<sigma>' r) \<le> r \<and> r < r_right (\<sigma>' r) \<and> r_right (\<sigma>' r) \<le> n \<and>
     r_right (\<sigma>' r) - r_left (\<sigma>' r) - 1 \<le> (n - 1) div 2 ^ Suc l \<and>
     (\<forall>q. r_left (\<sigma>' r) \<le> q \<and> q < r_right (\<sigma>' r) \<longrightarrow> r_left (\<sigma>' q) = r_left (\<sigma>' r) \<and> r_right (\<sigma>' q) = r_right (\<sigma>' r)) \<and>
     r_send (\<sigma>' r) = flat (next_send \<sigma> S r) \<and> r_buffer (\<sigma>' r) = rBufs ! r @ flat (next_buffer \<sigma> S B r) \<and>
     sorted_to (r_left (\<sigma>' r)) (r_right (\<sigma>' r)) (next_send \<sigma> S r) \<and>
     (\<Sum>q\<in>{r_left (\<sigma>' r)..<r_right (\<sigma>' r)} - {r}. mset (sent_to r (next_send \<sigma> S q))) + mset (next_buffer \<sigma> S B r) = tot r"
  show ?goal
  proof (cases "running (\<sigma> r)")
    case False
    then have one: "hi = Suc r" "lo = r" using inv(1,2) by (simp_all add: running_def lo_def hi_def)
    then have none: "{lo..<hi} - {r} = {}" by auto
    have "\<sigma>' r = \<sigma> r" "next_send \<sigma> S r = S r" "next_buffer \<sigma> S B r = B r"
      using False \<sigma>'[OF inv(2)] by (simp_all add: next_router_def next_send_def next_buffer_def Let_def)
    then show ?thesis
      using inv(3,7-10) one none by (auto simp: lo_def[symmetric] hi_def[symmetric] le_less_Suc_eq)
  next
    case True
    then have run: "lo + 1 < hi" by (simp add: running_def lo_def hi_def)
    note block = block_shrinks[OF run inv(1,2,4), folded mid_def]
    let ?lo = "lower_end mid lo r" and ?hi = "upper_end mid hi r"
    have side: "running (\<sigma> q)" "r_left (\<sigma> q) = lo" "r_right (\<sigma> q) = hi" "\<sigma>' q = next_router \<sigma> S q"
      if "?lo \<le> q" "q < ?hi" for q
      using that inv(5,6)[of q] run \<sigma>'[of q] block(3,4) by (simp_all add: running_def)
    have ends: "r_left (\<sigma>' q) = ?lo" "r_right (\<sigma>' q) = ?hi" if "?lo \<le> q" "q < ?hi" for q
      using block(6)[OF that] side[OF that] by (simp_all add: next_router_simps mid_def)
    note ends_r = ends[OF block(1,2)]
    have sends: "next_send \<sigma> S q = merged q ?lo ?hi (incoming lo hi mid S q @ [S q])" if "?lo \<le> q" "q < ?hi" for q
      using side[OF that] block(6)[OF that] by (simp add: next_send_def Let_def mid_def)
    have buffer: "next_buffer \<sigma> S B r = B r @ concat (map (sent_to r) (incoming lo hi mid S r))"
      using True by (simp add: next_buffer_def lo_def hi_def mid_def Let_def)
    have "(\<Sum>q\<in>{?lo..<?hi} - {r}. mset (sent_to r (next_send \<sigma> S q))) + mset (next_buffer \<sigma> S B r) = tot r"
      using messages_kept[OF run inv(1,2,10), folded mid_def] buffer by (simp add: sends)
    moreover have "sorted_to ?lo ?hi (next_send \<sigma> S r)" by (simp add: sends[OF block(1,2)] sorted_to_merged)
    moreover have "r_send (\<sigma>' r) = flat (next_send \<sigma> S r)" "r_buffer (\<sigma>' r) = rBufs ! r @ flat (next_buffer \<sigma> S B r)"
      using next_router_simps(3,4) inv(7,8) side(4)[OF block(1,2)] by simp_all
    ultimately show ?thesis
      unfolding ends_r using block(1,2,3,5) inv(3) ends by (intro conjI) auto
  qed
qed

definition weight :: "message \<Rightarrow> nat" where
  "weight m = 2 + length (snd m)"

lemma length_flat: "length (flat ms) = (\<Sum>m\<in>#mset ms. weight m)"
  by (induction ms) (auto simp: flat_simps weight_def)

lemma crossing_fits:
  assumes "routed n rBufs (\<lambda>t. mset (sent_to t T)) l \<sigma> S B" and "r < n"
  defines "mid \<equiv> half (r_left (\<sigma> r)) (r_right (\<sigma> r))"
  shows "length (flat (crossing mid r (S r))) \<le> length (flat T)"
proof -
  note inv = routedD[OF assms(1,2)]
  have "mset (crossing mid r (S r)) \<subseteq># mset T"
  proof (rule mset_subset_eqI)
    fix m
    show "count (mset (crossing mid r (S r))) m \<le> count (mset T) m"
    proof (cases "m \<in> set (crossing mid r (S r))")
      case False
      then have "count (mset (crossing mid r (S r))) m = 0" by (simp only: count_mset_0_iff not_False_eq_True)
      then show ?thesis by (simp only: le0)
    next
      case True
      let ?t = "fst m"
      have t: "r \<noteq> ?t" "r_left (\<sigma> r) \<le> ?t" "?t < r_right (\<sigma> r)"
        using True inv(9) by (auto simp: crossing_def sorted_to_def list_all_iff split: if_splits)
      have same: "r_left (\<sigma> ?t) = r_left (\<sigma> r)" "r_right (\<sigma> ?t) = r_right (\<sigma> r)" using inv(5,6) t by simp_all
      have tn: "?t < n" using t(3) inv(3) by simp
      have in_block: "r \<in> {r_left (\<sigma> r)..<r_right (\<sigma> r)} - {?t}" using inv(1,2) t by simp
      have "count (mset (crossing mid r (S r))) m \<le> count (mset (sent_to ?t (S r))) m"
        by (auto simp: crossing_def sent_to_def)
      also have "\<dots> \<le> count (mset (sent_to ?t T)) m"
        using routedD(10)[OF assms(1) tn] in_block unfolding same
        by (subst (asm) sum.remove[OF _ in_block]) (auto simp: count_sum dest!: arg_cong[where f = "\<lambda>M. count M m"])
      also have "\<dots> \<le> count (mset T) m" by (simp add: sent_to_def)
      finally show ?thesis .
    qed
  qed
  then obtain rest where "mset T = mset (crossing mid r (S r)) + rest" by (auto simp: mset_subset_eq_exists_conv)
  then show ?thesis by (simp add: length_flat)
qed

lemma route_level_next:
  fixes sent
  assumes "routed n rBufs tot l \<sigma> S B" and "r < n" and "running (\<sigma> r)"
    and "\<And>q. q < n \<Longrightarrow> running (\<sigma> q) \<Longrightarrow>
      sent q = [(partner (r_left (\<sigma> q)) (r_right (\<sigma> q)) (half (r_left (\<sigma> q)) (r_right (\<sigma> q))) q,
        flat (crossing (half (r_left (\<sigma> q)) (r_right (\<sigma> q))) q (S q)))]"
    and "\<not> too_large multiplier (flat (crossing (half (r_left (\<sigma> r)) (r_right (\<sigma> r))) r (S r)))"
  shows "\<exists>out. route_level multiplier r (\<lambda>q. map_of (sent q) r) (\<sigma> r) = Some (True, next_router \<sigma> S r, out)"
proof -
  note inv = routedD[OF assms(1,2)]
  have block: "q < n" "running (\<sigma> q)" "r_left (\<sigma> q) = r_left (\<sigma> r)" "r_right (\<sigma> q) = r_right (\<sigma> r)"
    "sorted_to (r_left (\<sigma> r)) (r_right (\<sigma> r)) (S q)" if "r_left (\<sigma> r) \<le> q" "q < r_right (\<sigma> r)" for q
    using that inv(3,5,6) assms(3) routedD(9)[OF assms(1), of q] by (simp_all add: running_def)
  have "\<exists>out. route_level multiplier r (\<lambda>q. map_of (sent q) r) (\<sigma> r) = Some (True,
      next_state r (incoming (r_left (\<sigma> r)) (r_right (\<sigma> r)) (half (r_left (\<sigma> r)) (r_right (\<sigma> r))) S r) (S r) (\<sigma> r), out)"
    by (rule route_level_ok[where S = S, OF assms(3) inv(7) inv(1,2)]) (simp_all add: block assms(4,5))
  then show ?thesis using assms(3) by (simp add: next_router_def Let_def)
qed

text \<open>A level of the group: what it does, and that no process waits in vain.\<close>

lemma group_level:
  assumes "routed n rBufs tot l \<sigma> S B"
    and "\<forall>r < n. if running (\<sigma> r)
      then route_level multiplier r (\<lambda>q. map_of (sent q) r) (\<sigma> r) = Some (True, \<sigma>' r, sent r)
      else \<sigma>' r = \<sigma> r \<and> sent r = []"
  shows "\<forall>r < n. \<sigma>' r = next_router \<sigma> S r"
proof (intro allI impI)
  fix r
  assume r: "r < n"
  have out: "sent q = [(partner (r_left (\<sigma> q)) (r_right (\<sigma> q)) (half (r_left (\<sigma> q)) (r_right (\<sigma> q))) q,
        flat (crossing (half (r_left (\<sigma> q)) (r_right (\<sigma> q))) q (S q)))] \<and>
      \<not> too_large multiplier (flat (crossing (half (r_left (\<sigma> q)) (r_right (\<sigma> q))) q (S q)))"
    if q: "q < n" "running (\<sigma> q)" for q
  proof -
    have "route_level multiplier q (\<lambda>p. map_of (sent p) q) (\<sigma> q) = Some (True, \<sigma>' q, sent q)"
      using assms(2) q by simp
    from route_level_out[OF routedD(7,9,1)[OF assms(1) q(1)] this] show ?thesis .
  qed
  show "\<sigma>' r = next_router \<sigma> S r"
  proof (cases "running (\<sigma> r)")
    case True
    then show ?thesis
      using route_level_next[OF assms(1) r True, of sent multiplier] out r assms(2)[rule_format, OF r] by auto
  next
    case False
    then show ?thesis using assms(2)[rule_format, OF r] by (simp add: next_router_def Let_def)
  qed
qed

lemma group_level_exists:
  assumes "routed n rBufs (\<lambda>t. mset (sent_to t T)) l \<sigma> S B" and "\<not> too_large multiplier (flat T)"
  shows "\<exists>\<sigma>' sent. \<forall>r < n. if running (\<sigma> r)
      then route_level multiplier r (\<lambda>q. map_of (sent q) r) (\<sigma> r) = Some (True, \<sigma>' r, sent r)
      else \<sigma>' r = \<sigma> r \<and> sent r = []"
proof -
  define sent where "sent q = (if running (\<sigma> q) then
      [(partner (r_left (\<sigma> q)) (r_right (\<sigma> q)) (half (r_left (\<sigma> q)) (r_right (\<sigma> q))) q,
        flat (crossing (half (r_left (\<sigma> q)) (r_right (\<sigma> q))) q (S q)))] else [])" for q
  have "if running (\<sigma> r)
      then route_level multiplier r (\<lambda>q. map_of (sent q) r) (\<sigma> r) = Some (True, next_router \<sigma> S r, sent r)
      else next_router \<sigma> S r = \<sigma> r \<and> sent r = []" if r: "r < n" for r
  proof (cases "running (\<sigma> r)")
    case True
    have "\<not> too_large multiplier (flat (crossing (half (r_left (\<sigma> r)) (r_right (\<sigma> r))) r (S r)))"
      using crossing_fits[OF assms(1) r] assms(2) by (auto simp: too_large_def not_less intro: le_trans mult_le_mono2)
    then obtain out where out: "route_level multiplier r (\<lambda>q. map_of (sent q) r) (\<sigma> r) = Some (True, next_router \<sigma> S r, out)"
      using route_level_next[OF assms(1) r True, of sent multiplier] by (auto simp: sent_def)
    moreover have "out = sent r"
      using route_level_out[OF routedD(7,9,1)[OF assms(1) r] out] True by (simp add: sent_def)
    ultimately show ?thesis using True by simp
  next
    case False
    then show ?thesis by (simp add: next_router_def sent_def Let_def)
  qed
  then show ?thesis by blast
qed

lemma routed_start:
  assumes "length ms = n" and "list_all (sorted_to 0 n) ms"
    and "\<forall>r < n. route_start n r (map flat ms ! r) (rBufs ! r) = Some (\<sigma> r)"
  shows "routed n rBufs (\<lambda>t. mset (sent_to t (concat ms))) 0 \<sigma> ((!) ms) (\<lambda>r. sent_to r (ms ! r))"
proof -
  have all: "mset (sent_to t (concat ms)) = (\<Sum>q\<in>{0..<n}. mset (sent_to t (ms ! q)))" for t
  proof -
    have "mset (sent_to t (concat xs)) = sum_list (map (\<lambda>x. mset (sent_to t x)) xs)" for xs
      by (induction xs) (simp_all add: sent_to_simps)
    then show ?thesis using assms(1) by (simp add: sum_list_sum_nth)
  qed
  have "\<sigma> r = \<lparr>r_left = 0, r_right = n, r_send = flat (ms ! r), r_buffer = rBufs ! r @ flat (sent_to r (ms ! r))\<rparr>"
    if r: "r < n" for r
  proof -
    have "sorted (map fst (ms ! r))" using assms(1,2) r by (simp add: list_all_length sorted_to_def)
    then show ?thesis
      using assms(3)[rule_format, OF r] r assms(1)
      by (simp add: route_start_def movebefore_all route_turn_whole Let_def)
  qed
  moreover have "(\<Sum>q\<in>{0..<n} - {r}. mset (sent_to r (ms ! q))) + mset (sent_to r (ms ! r)) =
      (\<Sum>q\<in>{0..<n}. mset (sent_to r (ms ! q)))" if "r < n" for r
    using that by (subst sum.remove[of "{0..<n}" r]) simp_all
  ultimately show ?thesis using assms(1,2) by (auto simp: routed_def all list_all_length)
qed

lemma route_run_routed:
  assumes "route_run multiplier n (map flat ms) rBufs l \<sigma>" and "length ms = n" and "list_all (sorted_to 0 n) ms"
  shows "\<exists>S B. routed n rBufs (\<lambda>t. mset (sent_to t (concat ms))) l \<sigma> S B"
  using assms(1)
proof induction
  case (enter \<sigma>)
  then show ?case using routed_start[OF assms(2,3)] by blast
next
  case (turn l \<sigma> sent \<sigma>')
  then obtain S B where inv: "routed n rBufs (\<lambda>t. mset (sent_to t (concat ms))) l \<sigma> S B" by blast
  show ?case using routed_next[OF inv group_level[OF inv turn.hyps(3)]] by (intro exI)
qed

lemma routed_finished:
  assumes "routed n rBufs tot (levels n) \<sigma> S B" and "r < n"
  shows "\<not> running (\<sigma> r) \<and> r_buffer (\<sigma> r) = rBufs ! r @ flat (B r) \<and> mset (B r) = tot r"
proof -
  note inv = routedD[OF assms]
  have "n \<le> 2 ^ levels n" using ceillog2_le_iff[of n "levels n"] assms(2) by (simp add: levels_def)
  then have "(n - 1) div 2 ^ levels n = 0" using assms(2) by simp
  then have one: "r_right (\<sigma> r) = Suc r" "r_left (\<sigma> r) = r" using inv(1,2,4) by linarith+
  then show ?thesis using inv(8,10) by (simp add: running_def)
qed

text \<open>
  C35: Routing.  When every process has a buffer of messages sorted by target, the levels of
  \<^verbatim>\<open>allToAllWithDataSizeAndTarget\<close> can be entered, and after any number of them the group can go
  on: every receive of the next level finds a message that was sent, for any number of processes.
  After \<open>ceil(log2(size))\<close> levels no process goes on, and every process has appended exactly the
  messages for it, of all processes, once each.
\<close>

theorem allToAllWithDataSizeAndTarget_correct:
  assumes "length ms = n" and "list_all (sorted_to 0 n) ms" and "\<not> too_large multiplier (flat (concat ms))"
  shows "(\<exists>\<sigma>. route_run multiplier n (map flat ms) rBufs 0 \<sigma>) \<and>
    (\<forall>l \<sigma>. route_run multiplier n (map flat ms) rBufs l \<sigma> \<longrightarrow>
      (if l < levels n then \<exists>\<sigma>'. route_run multiplier n (map flat ms) rBufs (Suc l) \<sigma>'
       else list_all (\<lambda>r. \<not> running (\<sigma> r) \<and> (\<exists>own. r_buffer (\<sigma> r) = rBufs ! r @ flat own \<and>
         mset own = mset (sent_to r (concat ms)))) [0..<n]))"
proof (intro conjI allI impI)
  have "route_start n r (flat (ms ! r)) (rBufs ! r) \<noteq> None" if r: "r < n" for r
  proof -
    have "sorted (map fst (ms ! r))" using assms(1,2) r by (simp add: list_all_length sorted_to_def)
    then show ?thesis by (simp add: route_start_def movebefore_all route_turn_whole Let_def)
  qed
  then have "\<forall>r < n. route_start n r (map flat ms ! r) (rBufs ! r) = Some (the (route_start n r (map flat ms ! r) (rBufs ! r)))"
    using assms(1) by auto
  then show "\<exists>\<sigma>. route_run multiplier n (map flat ms) rBufs 0 \<sigma>" by (intro exI) (rule route_run.enter)
next
  fix l \<sigma>
  assume run: "route_run multiplier n (map flat ms) rBufs l \<sigma>"
  then obtain S B where inv: "routed n rBufs (\<lambda>t. mset (sent_to t (concat ms))) l \<sigma> S B"
    using route_run_routed[OF _ assms(1,2)] by blast
  have bound: "l \<le> levels n" using run by cases auto
  show "if l < levels n then \<exists>\<sigma>'. route_run multiplier n (map flat ms) rBufs (Suc l) \<sigma>'
       else list_all (\<lambda>r. \<not> running (\<sigma> r) \<and> (\<exists>own. r_buffer (\<sigma> r) = rBufs ! r @ flat own \<and>
         mset own = mset (sent_to r (concat ms)))) [0..<n]"
  proof (cases "l < levels n")
    case True
    obtain \<sigma>' sent where "\<forall>r < n. if running (\<sigma> r)
      then route_level multiplier r (\<lambda>q. map_of (sent q) r) (\<sigma> r) = Some (True, \<sigma>' r, sent r)
      else \<sigma>' r = \<sigma> r \<and> sent r = []"
      using group_level_exists[OF inv assms(3)] by blast
    from route_run.turn[OF run True this] show ?thesis using True by auto
  next
    case False
    then have "l = levels n" using bound by simp
    then have "\<not> running (\<sigma> r) \<and> r_buffer (\<sigma> r) = rBufs ! r @ flat (B r) \<and> mset (B r) = mset (sent_to r (concat ms))"
      if "r < n" for r using routed_finished[OF _ that] inv by blast
    then show ?thesis using False by (auto simp: list_all_length)
  qed
qed

theorem allToAllWithDataSizeAndTarget_correct_witness:
  "\<exists>\<sigma>. route_run 1 2 [[3, 1, 7], [2, 0, 3, 1, 9]] [[], []] 0 \<sigma>"
  using conjunct1[OF allToAllWithDataSizeAndTarget_correct[of "[[(1, [7])], [(0, []), (1, [9])]]" 2 1 "[[], []]"]]
  by (simp add: sorted_to_def flat_simps too_large_def)

end
