(* ===== verification/Tokenizer.thy ===== *)
theory Tokenizer
  imports Prelude "HOL-Library.Char_ord"
begin

text \<open>
  The tokenizer of configuration files, \<^verbatim>\<open>src/config/reader/tokenizer.cpp\<close>: the whole file in
  memory with a read position, the token buffer, and the line counter.  Reading at or behind the
  end of the file is undefined in C++ and \<open>None\<close> here; an error message of the program ends
  it and is the outcome \<open>GlobalError\<close>.
\<close>

named_theorems char_class_simps "classes of characters"
named_theorems token_simps "steps of the tokenizer"

section \<open>The file\<close>

record full_file =
  contents :: "char list"
  fpos :: nat

definition file_move :: "nat \<Rightarrow> full_file \<Rightarrow> full_file" where
  "file_move p f = f\<lparr>fpos := p\<rparr>"

definition file_get :: "full_file \<Rightarrow> (char \<times> full_file) option" where
  "file_get f = do { c \<leftarrow> rd (contents f) (fpos f); Some (c, f\<lparr>fpos := fpos f + 1\<rparr>) }"

definition file_peek :: "full_file \<Rightarrow> char option" where
  "file_peek f = rd (contents f) (fpos f)"

definition file_range :: "nat \<Rightarrow> nat \<Rightarrow> full_file \<Rightarrow> char list option" where
  "file_range b e f = (if b \<le> e \<and> e \<le> length (contents f) then Some (vspan b e (contents f)) else None)"

definition file_eof :: "full_file \<Rightarrow> bool" where
  "file_eof f \<longleftrightarrow> fpos f = length (contents f)"

section \<open>Classes of characters\<close>

definition isWhiteSpace :: "char \<Rightarrow> bool" where
  [char_class_simps]: "isWhiteSpace c \<longleftrightarrow> c = CHR '' '' \<or> c = CHR 0x09 \<or> c = CHR 0x0D"

definition isDelimiter :: "char \<Rightarrow> bool" where
  [char_class_simps]: "isDelimiter c \<longleftrightarrow> c = CHR '',''"

definition isAssign :: "char \<Rightarrow> bool" where
  [char_class_simps]: "isAssign c \<longleftrightarrow> c = CHR ''=''"

definition isExpressionEnd :: "char \<Rightarrow> bool" where
  [char_class_simps]: "isExpressionEnd c \<longleftrightarrow> c = CHR '';''"

definition isLineEnd :: "char \<Rightarrow> bool" where
  [char_class_simps]: "isLineEnd c \<longleftrightarrow> c = CHR 0x0A"

definition isObjectOpen :: "char \<Rightarrow> bool" where
  [char_class_simps]: "isObjectOpen c \<longleftrightarrow> c = CHR 0x7B"

definition isObjectClose :: "char \<Rightarrow> bool" where
  [char_class_simps]: "isObjectClose c \<longleftrightarrow> c = CHR 0x7D"

definition isLinkStart :: "char \<Rightarrow> bool" where
  [char_class_simps]: "isLinkStart c \<longleftrightarrow> c = CHR ''[''"

definition isLinkEnd :: "char \<Rightarrow> bool" where
  [char_class_simps]: "isLinkEnd c \<longleftrightarrow> c = CHR '']''"

definition isStringStart :: "char \<Rightarrow> bool" where
  [char_class_simps]: "isStringStart c \<longleftrightarrow> c = CHR 0x22 \<or> c = CHR 0x27"

definition isStringEnd :: "char \<Rightarrow> bool" where
  [char_class_simps]: "isStringEnd c \<longleftrightarrow> c = CHR 0x22 \<or> c = CHR 0x27"

definition isSingleCommentChar :: "char \<Rightarrow> bool" where
  [char_class_simps]: "isSingleCommentChar c \<longleftrightarrow> c = CHR ''#''"

definition isLineComment :: "char \<Rightarrow> char \<Rightarrow> bool" where
  [char_class_simps]: "isLineComment last_c c \<longleftrightarrow> last_c = CHR ''/'' \<and> c = CHR ''/''"

definition isMultiLineCommentStart :: "char \<Rightarrow> char \<Rightarrow> bool" where
  [char_class_simps]: "isMultiLineCommentStart last_c c \<longleftrightarrow> last_c = CHR ''/'' \<and> c = CHR ''*''"

definition isMultiLineCommentEnd :: "char \<Rightarrow> char \<Rightarrow> bool" where
  [char_class_simps]: "isMultiLineCommentEnd last_c c \<longleftrightarrow> last_c = CHR ''*'' \<and> c = CHR ''/''"

section \<open>The tokenizer\<close>

datatype token = STRING | LINK | DELIMITER | ASSIGN | OBJECT_OPEN | OBJECT_CLOSE
  | EXPRESSION_END | LINE_END | END

datatype outcome = Token token | GlobalError string

record tokenizer =
  cfile :: full_file
  tok :: token
  buffer :: "char list"
  line :: nat

definition tokenizer_new :: "char list \<Rightarrow> tokenizer" where
  "tokenizer_new text = \<lparr>cfile = \<lparr>contents = text, fpos = 0\<rparr>, tok = END, buffer = [], line = 1\<rparr>"

text \<open>Reading one character, and appending it to the buffer.\<close>

definition t_peek :: "tokenizer \<Rightarrow> char option" where
  "t_peek t = file_peek (cfile t)"

definition t_get :: "tokenizer \<Rightarrow> (char \<times> tokenizer) option" where
  "t_get t = do { (c, f) \<leftarrow> file_get (cfile t); Some (c, t\<lparr>cfile := f\<rparr>) }"

definition t_push :: "tokenizer \<Rightarrow> tokenizer option" where
  "t_push t = do { (c, t) \<leftarrow> t_get t; Some (t\<lparr>buffer := buffer t @ [c]\<rparr>) }"

definition count_line :: "char \<Rightarrow> tokenizer \<Rightarrow> tokenizer" where
  "count_line c t = (if isLineEnd c then t\<lparr>line := line t + 1\<rparr> else t)"

definition left_over :: "tokenizer \<Rightarrow> nat" where
  "left_over t = length (contents (cfile t)) - fpos (cfile t)"

lemma t_peek_Some: "t_peek t = Some c \<longleftrightarrow> fpos (cfile t) < length (contents (cfile t)) \<and> c = contents (cfile t) ! fpos (cfile t)"
  by (auto simp: t_peek_def file_peek_def rd_eq_Some_iff)

lemma t_get_Some: "t_get t = Some (c, u) \<longleftrightarrow>
    t_peek t = Some c \<and> u = t\<lparr>cfile := (cfile t)\<lparr>fpos := fpos (cfile t) + 1\<rparr>\<rparr>"
  by (auto simp: t_get_def t_peek_def file_get_def file_peek_def bind_eq_Some_conv)

lemma t_push_Some: "t_push t = Some u \<longleftrightarrow> (\<exists>c. t_peek t = Some c \<and>
    u = t\<lparr>cfile := (cfile t)\<lparr>fpos := fpos (cfile t) + 1\<rparr>, buffer := buffer t @ [c]\<rparr>)"
  by (auto simp: t_push_def bind_eq_Some_conv t_get_Some)

lemma t_get_left_over [termination_simp]: "t_get t = Some (c, u) \<Longrightarrow> left_over u < left_over t"
  by (auto simp: t_get_Some t_peek_Some left_over_def)

lemma t_push_left_over [termination_simp]: "t_push t = Some u \<Longrightarrow> left_over u < left_over t"
  by (auto simp: t_push_Some t_peek_Some left_over_def)

lemma left_over_count_line [simp]: "left_over (count_line c t) = left_over t"
  by (simp add: left_over_def count_line_def)

text \<open>\<^verbatim>\<open>skipWhiteSpaces\<close> reads the next character before it asks for the end of the file.\<close>

function skipWhiteSpaces :: "tokenizer \<Rightarrow> tokenizer option" where
  "skipWhiteSpaces t = do {
     c \<leftarrow> t_peek t;
     if isWhiteSpace c \<and> \<not> file_eof (cfile t) then do {
       (_, t) \<leftarrow> t_get t;
       skipWhiteSpaces t
     } else Some t
   }"
  by pat_completeness auto
termination by (relation "measure left_over") (auto simp: t_get_left_over)

declare skipWhiteSpaces.simps [simp del]

text \<open>The lambda \<^verbatim>\<open>skipLine\<close>: to the end of the line, and over all line ends.\<close>

function skip_to_line_end :: "tokenizer \<Rightarrow> tokenizer option" where
  "skip_to_line_end t = do {
     c \<leftarrow> t_peek t;
     if c \<noteq> CHR 0x0A \<and> c \<noteq> CHR 0x0D then do {
       (_, t) \<leftarrow> t_get t;
       skip_to_line_end t
     } else Some t
   }"
  by pat_completeness auto
termination by (relation "measure left_over") (auto simp: t_get_left_over)

declare skip_to_line_end.simps [simp del]

function skip_line_ends :: "tokenizer \<Rightarrow> tokenizer option" where
  "skip_line_ends t = do {
     c \<leftarrow> t_peek t;
     if c = CHR 0x0A \<or> c = CHR 0x0D then do {
       (_, t) \<leftarrow> t_get (count_line c t);
       skip_line_ends t
     } else Some t
   }"
  by pat_completeness auto
termination by (relation "measure left_over") (auto dest: t_get_left_over)

declare skip_line_ends.simps [simp del]

definition skipLine :: "tokenizer \<Rightarrow> tokenizer option" where
  "skipLine t = do { t \<leftarrow> skip_to_line_end t; skip_line_ends t }"

text \<open>The lambda \<^verbatim>\<open>specialToken\<close>.\<close>

definition specialToken :: "token \<Rightarrow> tokenizer \<Rightarrow> (outcome \<times> tokenizer) option" where
  "specialToken k t =
    (if buffer t = [] then do { t \<leftarrow> t_push t; Some (Token k, t) } else Some (Token STRING, t))"

text \<open>The comment that may span lines; \<open>last_c\<close> is the character read before.\<close>

function skip_comment :: "char \<Rightarrow> tokenizer \<Rightarrow> tokenizer option" where
  "skip_comment last_c t = do {
     c \<leftarrow> t_peek t;
     if \<not> isMultiLineCommentEnd last_c c then do {
       (c, t) \<leftarrow> t_get (count_line c t);
       skip_comment c t
     } else Some t
   }"
  by pat_completeness auto
termination by (relation "measure (\<lambda>(_, t). left_over t)") (auto dest: t_get_left_over)

declare skip_comment.simps [simp del]

text \<open>
  The loops behind the start of a link and of a string.  Both look at the next character before
  they test for the end of the file.  The result is the error message, if any.
\<close>

function link_loop :: "nat \<Rightarrow> tokenizer \<Rightarrow> (string option \<times> tokenizer) option" where
  "link_loop stacked t = do {
     c \<leftarrow> t_peek t;
     if \<not> isLinkEnd c \<or> stacked \<noteq> 0 then
       if file_eof (cfile t) then Some (Some ''missing link end character'', t)
       else do {
         let stacked = (if isLinkStart c then stacked + 1 else stacked);
         let stacked = (if isLinkEnd c then stacked - 1 else stacked);
         t \<leftarrow> t_push t;
         link_loop stacked t
       }
     else Some (None, t)
   }"
  by pat_completeness auto
termination by (relation "measure (\<lambda>(_, t). left_over t)") (auto dest: t_push_left_over)

declare link_loop.simps [simp del]

function string_loop :: "nat \<Rightarrow> tokenizer \<Rightarrow> (string option \<times> tokenizer) option" where
  "string_loop stacked t = do {
     c \<leftarrow> t_peek t;
     if \<not> isStringEnd c \<or> stacked \<noteq> 0 then
       if file_eof (cfile t) then Some (Some ''missing string end character'', t)
       else do {
         let stacked = (if isStringStart c then stacked + 1 else stacked);
         let stacked = (if isStringEnd c then stacked - 1 else stacked);
         t \<leftarrow> t_push t;
         string_loop stacked t
       }
     else Some (None, t)
   }"
  by pat_completeness auto
termination by (relation "measure (\<lambda>(_, t). left_over t)") (auto dest: t_push_left_over)

declare string_loop.simps [simp del]

text \<open>Every step keeps the file, moves forward in it, and counts lines upwards.\<close>

definition moved :: "tokenizer \<Rightarrow> tokenizer \<Rightarrow> bool" where
  "moved t u \<longleftrightarrow> contents (cfile u) = contents (cfile t) \<and> fpos (cfile t) \<le> fpos (cfile u) \<and>
     line t \<le> line u \<and> (fpos (cfile t) \<le> length (contents (cfile t)) \<longrightarrow> fpos (cfile u) \<le> length (contents (cfile t)))"

lemma t_moved_refl [simp]: "moved t t"
  by (simp add: moved_def)

lemma t_moved_trans: "moved t u \<Longrightarrow> moved u v \<Longrightarrow> moved t v"
  by (auto simp: moved_def)

lemma moved_buffer [simp]: "moved (t\<lparr>buffer := b\<rparr>) u = moved t u" "moved t (u\<lparr>buffer := b\<rparr>) = moved t u"
  and moved_tok [simp]: "moved t (u\<lparr>tok := k\<rparr>) = moved t u"
  and moved_line [simp]: "moved t (t\<lparr>line := Suc (line t)\<rparr>)"
  by (simp_all add: moved_def)

lemma left_over_buffer [simp]: "left_over (t\<lparr>buffer := b\<rparr>) = left_over t"
  and left_over_line [simp]: "left_over (t\<lparr>line := n\<rparr>) = left_over t"
  by (simp_all add: left_over_def)

lemma moved_count_line [simp]: "moved t (count_line c t)"
  by (simp add: count_line_def)

lemma moved_left_over: "moved t u \<Longrightarrow> left_over u \<le> left_over t"
  by (auto simp: moved_def left_over_def)

lemma t_get_moved: "t_get t = Some (c, u) \<Longrightarrow> moved t u"
  by (auto simp: t_get_Some t_peek_Some moved_def)

lemma t_push_moved: "t_push t = Some u \<Longrightarrow> moved t u"
  by (auto simp: t_push_Some t_peek_Some moved_def)

lemma t_get_count_moved: "t_get (count_line d t) = Some (c, u) \<Longrightarrow> moved t u"
  by (rule t_moved_trans[OF moved_count_line t_get_moved])

lemma t_get_count_left_over: "t_get (count_line d t) = Some (c, u) \<Longrightarrow> left_over u < left_over t"
  using t_get_left_over[of "count_line d t"] by simp

lemma skipWhiteSpaces_moved: "skipWhiteSpaces t = Some u \<Longrightarrow> moved t u"
proof (induction "left_over t" arbitrary: t rule: less_induct)
  case less
  from less.prems show ?case
    by (subst (asm) skipWhiteSpaces.simps)
      (auto simp: bind_eq_Some_conv split: if_splits intro: t_moved_trans[OF t_get_moved less.hyps[OF t_get_left_over]])
qed

lemma skip_to_line_end_moved:
  "skip_to_line_end t = Some u \<Longrightarrow> moved t u \<and> (\<exists>c. t_peek u = Some c \<and> (c = CHR 0x0A \<or> c = CHR 0x0D))"
proof (induction "left_over t" arbitrary: t rule: less_induct)
  case less
  obtain c where c: "t_peek t = Some c" using less.prems by (subst (asm) skip_to_line_end.simps) (auto simp: bind_eq_Some_conv)
  show ?case
  proof (cases "c = CHR 0x0A \<or> c = CHR 0x0D")
    case True
    then have "u = t" using less.prems c by (subst (asm) skip_to_line_end.simps) auto
    then show ?thesis using c True by simp
  next
    case False
    then obtain d v where v: "t_get t = Some (d, v)" "skip_to_line_end v = Some u"
      using less.prems c by (subst (asm) skip_to_line_end.simps) (auto simp: bind_eq_Some_conv)
    show ?thesis using less.hyps[OF t_get_left_over[OF v(1)] v(2)] t_moved_trans[OF t_get_moved[OF v(1)]] by blast
  qed
qed

lemma skip_line_ends_moved: "skip_line_ends t = Some u \<Longrightarrow> moved t u"
proof (induction "left_over t" arbitrary: t rule: less_induct)
  case less
  from less.prems show ?case
    by (subst (asm) skip_line_ends.simps)
      (auto simp: bind_eq_Some_conv split: if_splits
        intro: t_moved_trans[OF t_get_count_moved less.hyps[OF t_get_count_left_over]])
qed

lemma skipLine_moved:
  assumes "skipLine t = Some u" shows "moved t u" and "left_over u < left_over t"
proof -
  obtain v where v: "skip_to_line_end t = Some v" "skip_line_ends v = Some u"
    using assms by (auto simp: skipLine_def bind_eq_Some_conv)
  note e = skip_to_line_end_moved[OF v(1)]
  then obtain c where c: "t_peek v = Some c" "c = CHR 0x0A \<or> c = CHR 0x0D" by blast
  from v(2) c obtain w d where w: "t_get (count_line c v) = Some (d, w)" "skip_line_ends w = Some u"
    by (subst (asm) skip_line_ends.simps) (auto simp: bind_eq_Some_conv split: if_splits)
  show "moved t u" using e skip_line_ends_moved[OF v(2)] t_moved_trans by blast
  have "left_over w < left_over v" by (rule t_get_count_left_over[OF w(1)])
  then show "left_over u < left_over t"
    using moved_left_over[OF conjunct1[OF e]] moved_left_over[OF skip_line_ends_moved[OF w(2)]] by simp
qed

lemma skip_comment_moved: "skip_comment l t = Some u \<Longrightarrow> moved t u"
proof (induction "left_over t" arbitrary: t l rule: less_induct)
  case less
  from less.prems show ?case
    by (subst (asm) skip_comment.simps)
      (auto simp: bind_eq_Some_conv split: if_splits
        intro: t_moved_trans[OF t_get_count_moved less.hyps[OF t_get_count_left_over]])
qed

lemma link_loop_moved: "link_loop k t = Some (e, u) \<Longrightarrow> moved t u"
proof (induction "left_over t" arbitrary: t k rule: less_induct)
  case less
  from less.prems show ?case
    by (subst (asm) link_loop.simps)
      (auto simp: bind_eq_Some_conv Let_def split: if_splits
        intro: t_moved_trans[OF t_push_moved less.hyps[OF t_push_left_over]])
qed

lemma string_loop_moved: "string_loop k t = Some (e, u) \<Longrightarrow> moved t u"
proof (induction "left_over t" arbitrary: t k rule: less_induct)
  case less
  from less.prems show ?case
    by (subst (asm) string_loop.simps)
      (auto simp: bind_eq_Some_conv Let_def split: if_splits
        intro: t_moved_trans[OF t_push_moved less.hyps[OF t_push_left_over]])
qed

text \<open>The branches of the main loop for a link and for a string.\<close>

definition link_token :: "tokenizer \<Rightarrow> (outcome \<times> tokenizer) option" where
  "link_token t = do {
     (_, t) \<leftarrow> t_get t;
     (e, t) \<leftarrow> link_loop 0 t;
     case e of Some m \<Rightarrow> Some (GlobalError m, t)
     | None \<Rightarrow> do { (_, t) \<leftarrow> t_get t; Some (Token LINK, t) }
   }"

definition string_token :: "tokenizer \<Rightarrow> (outcome \<times> tokenizer) option" where
  "string_token t = do {
     let bsize = length (buffer t);
     t \<leftarrow> (if bsize \<noteq> 0 then t_push t else map_option snd (t_get t));
     (e, t) \<leftarrow> string_loop 0 t;
     case e of Some m \<Rightarrow> Some (GlobalError m, t)
     | None \<Rightarrow> do {
         t \<leftarrow> (if bsize \<noteq> 0 then t_push t else map_option snd (t_get t));
         Some (Token STRING, t)
       }
   }"

text \<open>The main loop of \<^verbatim>\<open>Tokenizer::_next\<close>.\<close>

function next_loop :: "tokenizer \<Rightarrow> (outcome \<times> tokenizer) option" where
  "next_loop t = (if file_eof (cfile t) then Some (Token (if buffer t \<noteq> [] then STRING else END), t)
    else do {
      c \<leftarrow> t_peek t;
      if isSingleCommentChar c then do {
        t \<leftarrow> skipLine t;
        if buffer t \<noteq> [] then Some (Token STRING, t)
        else do { t \<leftarrow> skipWhiteSpaces t; next_loop t }
      } else if buffer t \<noteq> [] \<and> isLineComment (last (buffer t)) c then do {
        t \<leftarrow> skipLine (t\<lparr>buffer := butlast (buffer t)\<rparr>);
        if buffer t \<noteq> [] then Some (Token STRING, t)
        else do { t \<leftarrow> skipWhiteSpaces t; next_loop t }
      } else if buffer t \<noteq> [] \<and> isMultiLineCommentStart (last (buffer t)) c then do {
        (_, t) \<leftarrow> t_get (t\<lparr>buffer := butlast (buffer t)\<rparr>);
        (l, t) \<leftarrow> t_get t;
        t \<leftarrow> skip_comment l t;
        (_, t) \<leftarrow> t_get t;
        t \<leftarrow> skipWhiteSpaces t;
        next_loop t
      } else if buffer t \<noteq> [] \<and> isWhiteSpace c then do {
        (_, t) \<leftarrow> t_get t;
        Some (Token STRING, t)
      } else if isDelimiter c then specialToken DELIMITER t
      else if isAssign c then specialToken ASSIGN t
      else if isExpressionEnd c then specialToken EXPRESSION_END t
      else if isLineEnd c then specialToken LINE_END (t\<lparr>line := line t + 1\<rparr>)
      else if isObjectOpen c then specialToken OBJECT_OPEN t
      else if isObjectClose c then specialToken OBJECT_CLOSE t
      else if isLinkStart c \<and> buffer t \<noteq> [] then Some (Token STRING, t)
      else if isLinkStart c then link_token t
      else if isStringStart c then string_token t
      else do { t \<leftarrow> t_push t; next_loop t }
    })"
  by pat_completeness auto
termination
  by (relation "measure left_over")
    (auto dest!: skipLine_moved(2) skipWhiteSpaces_moved[THEN moved_left_over] t_get_left_over t_push_left_over
      skip_comment_moved[THEN moved_left_over])

declare next_loop.simps [simp del]

definition next_token :: "tokenizer \<Rightarrow> (outcome \<times> tokenizer) option" where
  "next_token t = (if file_eof (cfile t) then Some (Token END, t)
    else do { t \<leftarrow> skipWhiteSpaces t; next_loop (t\<lparr>buffer := []\<rparr>) })"

text \<open>\<^verbatim>\<open>Tokenizer::next\<close> remembers the token.\<close>

definition tokenizer_next :: "tokenizer \<Rightarrow> (outcome \<times> tokenizer) option" where
  "tokenizer_next t = do {
     (r, t) \<leftarrow> next_token t;
     Some (r, case r of Token k \<Rightarrow> t\<lparr>tok := k\<rparr> | GlobalError _ \<Rightarrow> t)
   }"

section \<open>Every call makes progress\<close>

lemma peek_not_eof: "t_peek t = Some c \<Longrightarrow> \<not> file_eof (cfile t)"
  by (simp add: t_peek_Some file_eof_def)

lemma link_loop_no_message: "link_loop k t = Some (e, u) \<Longrightarrow> e = None"
proof (induction "left_over t" arbitrary: t k rule: less_induct)
  case less
  from less.prems show ?case
    by (subst (asm) link_loop.simps)
      (auto simp: bind_eq_Some_conv Let_def peek_not_eof split: if_splits intro: less.hyps[OF t_push_left_over])
qed

lemma string_loop_no_message: "string_loop k t = Some (e, u) \<Longrightarrow> e = None"
proof (induction "left_over t" arbitrary: t k rule: less_induct)
  case less
  from less.prems show ?case
    by (subst (asm) string_loop.simps)
      (auto simp: bind_eq_Some_conv Let_def peek_not_eof split: if_splits intro: less.hyps[OF t_push_left_over])
qed

definition good_result :: "tokenizer \<Rightarrow> outcome \<Rightarrow> tokenizer \<Rightarrow> bool" where
  "good_result t r u \<longleftrightarrow> moved t u \<and> (\<exists>k. r = Token k) \<and>
     (r = Token END \<longrightarrow> file_eof (cfile u) \<and> buffer u = []) \<and>
     (r \<noteq> Token END \<and> buffer t = [] \<longrightarrow> left_over u < left_over t)"

lemma good_result_later: "moved t v \<Longrightarrow> left_over v < left_over t \<Longrightarrow> good_result v r u \<Longrightarrow> good_result t r u"
  using t_moved_trans[of t v u] moved_left_over[of v u] by (auto simp: good_result_def)

lemma specialToken_good:
  assumes "specialToken k t = Some (r, u)" and "k \<noteq> END"
  shows "good_result t r u"
  using assms t_push_moved[of t u] t_push_left_over[of t u]
  by (auto simp: specialToken_def good_result_def bind_eq_Some_conv split: if_splits)

lemma link_token_good: "link_token t = Some (r, u) \<Longrightarrow> good_result t r u"
proof -
  assume "link_token t = Some (r, u)"
  then obtain a v e w where v: "t_get t = Some (a, v)" "link_loop 0 v = Some (e, w)"
    "(case e of Some m \<Rightarrow> Some (GlobalError m, w) | None \<Rightarrow> do { (_, t) \<leftarrow> t_get w; Some (Token LINK, t) }) = Some (r, u)"
    by (auto simp: link_token_def bind_eq_Some_conv)
  from link_loop_no_message[OF v(2)] v(3) obtain b where b: "t_get w = Some (b, u)" "r = Token LINK"
    by (auto simp: bind_eq_Some_conv)
  note m = t_get_moved[OF v(1)] link_loop_moved[OF v(2)] t_get_moved[OF b(1)]
  have "left_over u < left_over t" using t_get_left_over[OF v(1)] m(2,3)[THEN moved_left_over] by simp
  moreover have "moved t u" using m t_moved_trans by metis
  ultimately show ?thesis using b(2) by (simp add: good_result_def)
qed

lemma string_token_good: "string_token t = Some (r, u) \<Longrightarrow> good_result t r u"
proof -
  let ?read = "\<lambda>t'. if length (buffer t) \<noteq> 0 then t_push t' else map_option snd (t_get t')"
  have read: "moved x y \<and> left_over y < left_over x" if "?read x = Some y" for x y
    using that t_push_moved[of x y] t_get_moved t_push_left_over[of x y] t_get_left_over by (auto split: if_splits)
  assume "string_token t = Some (r, u)"
  then obtain v e w where v: "?read t = Some v" "string_loop 0 v = Some (e, w)"
    "(case e of Some m \<Rightarrow> Some (GlobalError m, w) | None \<Rightarrow> do { t \<leftarrow> ?read w; Some (Token STRING, t) }) = Some (r, u)"
    by (auto simp: string_token_def bind_eq_Some_conv Let_def simp del: length_0_conv length_greater_0_conv)
  from string_loop_no_message[OF v(2)] v(3) have b: "?read w = Some u" "r = Token STRING"
    by (auto simp: bind_eq_Some_conv)
  note m = read[OF v(1)] string_loop_moved[OF v(2)] read[OF b(1)]
  have "left_over u < left_over t" using m moved_left_over[OF m(2)] by simp
  moreover have "moved t u" using m t_moved_trans by metis
  ultimately show ?thesis using b(2) by (simp add: good_result_def)
qed

text \<open>The tail of the loop body, once comments are excluded.\<close>

lemma next_loop_tail:
  assumes step: "(if buffer t \<noteq> [] \<and> isWhiteSpace c then do { (_, t) \<leftarrow> t_get t; Some (Token STRING, t) }
      else if isDelimiter c then specialToken DELIMITER t
      else if isAssign c then specialToken ASSIGN t
      else if isExpressionEnd c then specialToken EXPRESSION_END t
      else if isLineEnd c then specialToken LINE_END (t\<lparr>line := line t + 1\<rparr>)
      else if isObjectOpen c then specialToken OBJECT_OPEN t
      else if isObjectClose c then specialToken OBJECT_CLOSE t
      else if isLinkStart c \<and> buffer t \<noteq> [] then Some (Token STRING, t)
      else if isLinkStart c then link_token t
      else if isStringStart c then string_token t
      else do { t \<leftarrow> t_push t; next_loop t }) = Some (r, u)"
    and IH: "\<And>v. left_over v < left_over t \<Longrightarrow> next_loop v = Some (r, u) \<Longrightarrow> good_result v r u"
  shows "good_result t r u"
proof -
  have special: "good_result t r u" if "specialToken k t = Some (r, u)" "k \<noteq> END" for k
    using specialToken_good[OF that] .
  have newline: "good_result t r u" if "specialToken LINE_END (t\<lparr>line := line t + 1\<rparr>) = Some (r, u)"
    using specialToken_good[OF that] t_moved_trans[OF moved_line] by (auto simp: good_result_def)
  have plain: "good_result t r u" if "t_push t = Some v" "next_loop v = Some (r, u)" for v
    using good_result_later[OF t_push_moved t_push_left_over IH[OF t_push_left_over]] that by blast
  have white: "good_result t r u" if "t_get t = Some (a, u)" "r = Token STRING" for a
    using that t_get_moved[of t a u] t_get_left_over[of t a u] by (simp add: good_result_def)
  have "good_result t (Token STRING) t" if "buffer t \<noteq> []" using that by (simp add: good_result_def)
  with step special newline plain white link_token_good[of t r u] string_token_good[of t r u] show ?thesis
    by (auto simp: bind_eq_Some_conv split: if_splits)
qed

lemma next_loop_good: "next_loop t = Some (r, u) \<Longrightarrow> good_result t r u"
proof (induction "left_over t" arbitrary: t rule: less_induct)
  case less
  note unfold = next_loop.simps[of t]
  have later: "good_result t r u" if "moved t v" "left_over v < left_over t" "skipWhiteSpaces v = Some x"
    "next_loop x = Some (r, u)" for v x
  proof -
    have "left_over x < left_over t" using that(2) moved_left_over[OF skipWhiteSpaces_moved[OF that(3)]] by simp
    with less.hyps[OF this that(4)] t_moved_trans[OF that(1) skipWhiteSpaces_moved[OF that(3)]] show ?thesis
      by (auto intro: good_result_later)
  qed
  have after_line: "good_result t r u" if l: "skipLine (t\<lparr>buffer := b\<rparr>) = Some v"
    and w: "(if buffer v \<noteq> [] then Some (Token STRING, v) else skipWhiteSpaces v \<bind> next_loop) = Some (r, u)" for b v
  proof -
    have m: "moved t v" "left_over v < left_over t" using skipLine_moved[OF l] by simp_all
    then show ?thesis using w later[OF m] by (auto simp: bind_eq_Some_conv good_result_def split: if_splits)
  qed
  show ?case
  proof (cases "file_eof (cfile t)")
    case True
    then show ?thesis using less.prems by (auto simp: unfold good_result_def split: if_splits)
  next
    case False
    then obtain c where c: "t_peek t = Some c" using less.prems by (auto simp: unfold bind_eq_Some_conv)
    note step = less.prems[unfolded unfold if_not_P[OF False] c Option.bind.bind_lunit]
    let ?t = "t\<lparr>buffer := butlast (buffer t)\<rparr>"
    consider (hash) "isSingleCommentChar c"
      | (slashes) "\<not> isSingleCommentChar c" "buffer t \<noteq> [] \<and> isLineComment (last (buffer t)) c"
      | (block) "\<not> isSingleCommentChar c" "\<not> (buffer t \<noteq> [] \<and> isLineComment (last (buffer t)) c)"
          "buffer t \<noteq> [] \<and> isMultiLineCommentStart (last (buffer t)) c"
      | (other) "\<not> isSingleCommentChar c" "\<not> (buffer t \<noteq> [] \<and> isLineComment (last (buffer t)) c)"
          "\<not> (buffer t \<noteq> [] \<and> isMultiLineCommentStart (last (buffer t)) c)" by blast
    then show ?thesis
    proof cases
      case hash
      then show ?thesis using step after_line[of "buffer t"] by (auto simp: bind_eq_Some_conv)
    next
      case slashes
      then show ?thesis using step after_line[of "butlast (buffer t)"]
        by (simp only: if_not_P if_P) (auto simp: bind_eq_Some_conv)
    next
      case block
      then obtain a v b w x d y z where st: "t_get ?t = Some (a, v)" "t_get v = Some (b, w)"
        "skip_comment b w = Some x" "t_get x = Some (d, y)" "skipWhiteSpaces y = Some z" "next_loop z = Some (r, u)"
        using step by (auto simp: bind_eq_Some_conv)
      note m = t_get_moved[OF st(1)] t_get_moved[OF st(2)] skip_comment_moved[OF st(3)] t_get_moved[OF st(4)]
      have "moved t y" using m t_moved_trans by (metis moved_buffer(1))
      moreover have "left_over y < left_over t"
        using t_get_left_over[OF st(1)] m(2-4)[THEN moved_left_over] by simp
      ultimately show ?thesis using later[OF _ _ st(5,6)] by blast
    next
      case other
      from step[unfolded if_not_P[OF other(1)] if_not_P[OF other(2)] if_not_P[OF other(3)]]
      show ?thesis by (rule next_loop_tail) (rule less.hyps)
    qed
  qed
qed

lemma next_token_good:
  assumes "next_token t = Some (r, u)"
  shows "moved t u \<and> (\<exists>k. r = Token k) \<and> (r = Token END \<longrightarrow> file_eof (cfile u)) \<and>
    (r \<noteq> Token END \<longrightarrow> left_over u < left_over t)"
proof (cases "file_eof (cfile t)")
  case True
  then show ?thesis using assms by (auto simp: next_token_def)
next
  case False
  then obtain v where v: "skipWhiteSpaces t = Some v" "next_loop (v\<lparr>buffer := []\<rparr>) = Some (r, u)"
    using assms by (auto simp: next_token_def bind_eq_Some_conv)
  note m = skipWhiteSpaces_moved[OF v(1)] next_loop_good[OF v(2)]
  then have "left_over v \<le> left_over t" "moved v u" by (auto simp: good_result_def moved_left_over)
  then show ?thesis using m t_moved_trans by (auto simp: good_result_def)
qed

lemma tokenizer_next_good:
  assumes "tokenizer_next t = Some (r, u)"
  shows "moved t u \<and> r = Token (tok u) \<and> (r = Token END \<longrightarrow> file_eof (cfile u)) \<and>
    (r \<noteq> Token END \<longrightarrow> left_over u < left_over t)"
  using assms next_token_good[of t]
  by (fastforce simp: tokenizer_next_def bind_eq_Some_conv left_over_def)

text \<open>The client's loop: all tokens with their values, until the end of the file.\<close>

function all_tokens :: "tokenizer \<Rightarrow> (token \<times> char list) list option" where
  "all_tokens t = do {
     (r, t) \<leftarrow> tokenizer_next t;
     case r of
       Token k \<Rightarrow> if k = END then Some [] else do { ks \<leftarrow> all_tokens t; Some ((k, buffer t) # ks) }
     | GlobalError _ \<Rightarrow> Some []
   }"
  by pat_completeness auto
termination by (relation "measure left_over") (auto dest: tokenizer_next_good)

declare all_tokens.simps [simp del]

lemma all_tokens_length: "all_tokens t = Some ks \<Longrightarrow> length ks \<le> left_over t"
proof (induction "left_over t" arbitrary: t ks rule: less_induct)
  case less
  then obtain r u where n: "tokenizer_next t = Some (r, u)" by (subst (asm) all_tokens.simps) (auto simp: bind_eq_Some_conv)
  note g = tokenizer_next_good[OF n]
  show ?case
  proof (cases "tok u = END")
    case True
    then show ?thesis using less.prems n g by (subst (asm) all_tokens.simps) auto
  next
    case False
    then obtain ks' where "all_tokens u = Some ks'" "ks = (tok u, buffer u) # ks'"
      using less.prems n g by (subst (asm) all_tokens.simps) (auto simp: bind_eq_Some_conv)
    then show ?thesis using less.hyps[of u ks'] g False by auto
  qed
qed

section \<open>Tokenizing printed items\<close>

definition rest_of :: "tokenizer \<Rightarrow> char list" where
  "rest_of t = drop (fpos (cfile t)) (contents (cfile t))"

definition adv :: "tokenizer \<Rightarrow> tokenizer" where
  "adv t = t\<lparr>cfile := (cfile t)\<lparr>fpos := fpos (cfile t) + 1\<rparr>\<rparr>"

lemma rest_of_Cons:
  assumes "rest_of t = c # r" shows "t_peek t = Some c" and "rest_of (adv t) = r"
proof -
  let ?p = "fpos (cfile t)" and ?d = "contents (cfile t)"
  have d: "drop ?p ?d = c # r" using assms by (simp add: rest_of_def)
  then have "?p < length ?d" by (metis drop_all list.distinct(1) not_le)
  then show "t_peek t = Some c" using nth_via_drop[OF d] by (simp add: t_peek_Some)
  show "rest_of (adv t) = r" using drop_drop[of 1 ?p ?d] d by (simp add: rest_of_def adv_def)
qed

lemma step_simps [token_simps]:
  assumes "rest_of t = c # r"
  shows "t_peek t = Some c" "\<not> file_eof (cfile t)" "t_get t = Some (c, adv t)"
    and "t_push t = Some (adv t\<lparr>buffer := buffer t @ [c]\<rparr>)" "rest_of (adv t) = r"
  using rest_of_Cons[OF assms] peek_not_eof[of t c] by (auto simp: t_get_Some t_push_Some adv_def)

lemma adv_simps [simp]: "buffer (adv t) = buffer t" "line (adv t) = line t" "tok (adv t) = tok t"
  by (simp_all add: adv_def)

lemma rest_of_update [simp]: "rest_of (t\<lparr>buffer := b\<rparr>) = rest_of t" "rest_of (t\<lparr>line := n\<rparr>) = rest_of t"
  "rest_of (t\<lparr>tok := k\<rparr>) = rest_of t"
  by (simp_all add: rest_of_def)

lemma skipWhiteSpaces_rest:
  assumes "rest_of t = ws @ c # r" and "list_all isWhiteSpace ws" and "\<not> isWhiteSpace c"
  shows "\<exists>u. skipWhiteSpaces t = Some u \<and> rest_of u = c # r \<and> line u = line t"
  using assms(1,2)
proof (induction ws arbitrary: t)
  case Nil
  then show ?case using assms(3) by (subst skipWhiteSpaces.simps) (auto simp: token_simps)
next
  case (Cons w ws)
  then have "\<exists>u. skipWhiteSpaces (adv t) = Some u \<and> rest_of u = c # r \<and> line u = line t"
    using Cons.IH[of "adv t"] token_simps(5)[of t w] by simp
  then show ?case using Cons.prems by (subst skipWhiteSpaces.simps) (simp add: token_simps)
qed

text \<open>Characters that continue a word, and words that start no comment.\<close>

definition plain :: "char \<Rightarrow> bool" where
  "plain c \<longleftrightarrow> \<not> isWhiteSpace c \<and> \<not> isDelimiter c \<and> \<not> isAssign c \<and> \<not> isExpressionEnd c \<and> \<not> isLineEnd c \<and>
     \<not> isObjectOpen c \<and> \<not> isObjectClose c \<and> \<not> isLinkStart c \<and> \<not> isStringStart c \<and> \<not> isSingleCommentChar c"

definition no_comment :: "char list \<Rightarrow> bool" where
  "no_comment w \<longleftrightarrow> successively (\<lambda>a b. \<not> isLineComment a b \<and> \<not> isMultiLineCommentStart a b) w"

lemma next_loop_word:
  assumes "rest_of t = w @ CHR '' '' # r" and "list_all plain w" and "no_comment (buffer t @ w)"
    and "buffer t @ w \<noteq> []"
  shows "\<exists>u. next_loop t = Some (Token STRING, u) \<and> rest_of u = r \<and> buffer u = buffer t @ w \<and> line u = line t"
  using assms
proof (induction w arbitrary: t)
  case Nil
  then show ?case
    by (subst next_loop.simps) (auto simp: token_simps char_class_simps)
next
  case (Cons c w)
  let ?u = "adv t\<lparr>buffer := buffer t @ [c]\<rparr>"
  have *: "\<not> (buffer t \<noteq> [] \<and> isLineComment (last (buffer t)) c)" "\<not> (buffer t \<noteq> [] \<and> isMultiLineCommentStart (last (buffer t)) c)"
    using Cons.prems(3) by (auto simp: no_comment_def successively_append_iff)
  have "\<exists>u. next_loop ?u = Some (Token STRING, u) \<and> rest_of u = r \<and> buffer u = buffer ?u @ w \<and> line u = line ?u"
    using Cons.prems token_simps(5)[of t c] by (intro Cons.IH) auto
  then show ?case
    using Cons.prems(1,2) * by (subst next_loop.simps) (auto simp: token_simps plain_def)
qed

fun balanced :: "nat \<Rightarrow> char list \<Rightarrow> bool" where
  "balanced k [] \<longleftrightarrow> k = 0"
| "balanced k (c # w) \<longleftrightarrow>
    (if isLinkStart c then balanced (Suc k) w else if isLinkEnd c then k \<noteq> 0 \<and> balanced (k - 1) w else balanced k w)"

lemma link_loop_rest:
  assumes "rest_of t = w @ CHR '']'' # r" and "balanced k w"
  shows "\<exists>u. link_loop k t = Some (None, u) \<and> rest_of u = CHR '']'' # r \<and> buffer u = buffer t @ w \<and> line u = line t"
  using assms
proof (induction w arbitrary: t k)
  case Nil
  then show ?case by (subst link_loop.simps) (simp add: token_simps char_class_simps)
next
  case (Cons c w)
  let ?u = "adv t\<lparr>buffer := buffer t @ [c]\<rparr>" and ?k = "if isLinkStart c then Suc k else if isLinkEnd c then k - 1 else k"
  have "\<exists>u. link_loop ?k ?u = Some (None, u) \<and> rest_of u = CHR '']'' # r \<and> buffer u = buffer ?u @ w \<and> line u = line ?u"
    using Cons.prems token_simps(5)[of t c] by (intro Cons.IH) (auto split: if_splits)
  then show ?case
    using Cons.prems by (subst link_loop.simps) (auto simp: token_simps char_class_simps split: if_splits)
qed

lemma string_loop_rest:
  assumes "rest_of t = w @ CHR 0x22 # r" and "list_all (\<lambda>c. \<not> isStringEnd c) w"
  shows "\<exists>u. string_loop 0 t = Some (None, u) \<and> rest_of u = CHR 0x22 # r \<and> buffer u = buffer t @ w \<and> line u = line t"
  using assms
proof (induction w arbitrary: t)
  case Nil
  then show ?case by (subst string_loop.simps) (simp add: token_simps char_class_simps)
next
  case (Cons c w)
  let ?u = "adv t\<lparr>buffer := buffer t @ [c]\<rparr>"
  have "\<exists>u. string_loop 0 ?u = Some (None, u) \<and> rest_of u = CHR 0x22 # r \<and> buffer u = buffer ?u @ w \<and> line u = line ?u"
    using Cons.prems token_simps(5)[of t c] by (intro Cons.IH) auto
  moreover have "\<not> isStringStart c" using Cons.prems(2) by (simp add: char_class_simps)
  ultimately show ?case
    using Cons.prems by (subst string_loop.simps) (auto simp: token_simps)
qed

datatype item = Word string | Quoted string | Linked string | Comma | Equals | Open | Close | Semicolon

fun item_ok :: "item \<Rightarrow> bool" where
  "item_ok (Word w) \<longleftrightarrow> w \<noteq> [] \<and> list_all plain w \<and> no_comment w"
| "item_ok (Quoted w) \<longleftrightarrow> list_all (\<lambda>c. \<not> isStringEnd c) w"
| "item_ok (Linked w) \<longleftrightarrow> balanced 0 w"
| "item_ok _ \<longleftrightarrow> True"

fun print_item :: "item \<Rightarrow> string" where
  "print_item (Word w) = w @ '' ''"
| "print_item (Quoted w) = CHR 0x22 # w @ [CHR 0x22, CHR '' '']"
| "print_item (Linked w) = CHR ''['' # w @ '']'' @ '' ''"
| "print_item Comma = '', ''"
| "print_item Equals = ''= ''"
| "print_item Open = [CHR 0x7B, CHR '' '']"
| "print_item Close = [CHR 0x7D, CHR '' '']"
| "print_item Semicolon = ''; ''"

fun item_token :: "item \<Rightarrow> token \<times> string" where
  "item_token (Word w) = (STRING, w)"
| "item_token (Quoted w) = (STRING, w)"
| "item_token (Linked w) = (LINK, w)"
| "item_token Comma = (DELIMITER, '','')"
| "item_token Equals = (ASSIGN, ''='')"
| "item_token Open = (OBJECT_OPEN, [CHR 0x7B])"
| "item_token Close = (OBJECT_CLOSE, [CHR 0x7D])"
| "item_token Semicolon = (EXPRESSION_END, '';'')"

text \<open>One call on a printed item; at most one blank of it stays unread.\<close>

lemma next_loop_item:
  assumes "rest_of t = print_item i @ r" and "item_ok i" and "buffer t = []"
  shows "\<exists>u ws. next_loop t = Some (Token (fst (item_token i)), u) \<and> rest_of u = ws @ r \<and>
    list_all isWhiteSpace ws \<and> buffer u = snd (item_token i) \<and> line u = line t"
proof -
  have special: "\<exists>u ws. next_loop t = Some (Token k, u) \<and> rest_of u = ws @ r \<and>
      list_all isWhiteSpace ws \<and> buffer u = [c] \<and> line u = line t"
    if "rest_of t = c # CHR '' '' # r" "(c, k) \<in> {(CHR '','', DELIMITER), (CHR ''='', ASSIGN), (CHR '';'', EXPRESSION_END),
      (CHR 0x7B, OBJECT_OPEN), (CHR 0x7D, OBJECT_CLOSE)}" for c k
  proof -
    have "next_loop t = Some (Token k, adv t\<lparr>buffer := [c]\<rparr>)"
      using that assms(3) by (subst next_loop.simps) (auto simp: token_simps char_class_simps specialToken_def)
    moreover have "rest_of (adv t) = '' '' @ r" using token_simps(5)[OF that(1)] by simp
    ultimately show ?thesis by (intro exI[of _ "adv t\<lparr>buffer := [c]\<rparr>"] exI[of _ "'' ''"]) (simp add: isWhiteSpace_def)
  qed
  show ?thesis
  proof (cases i)
    case (Word w)
    then obtain u where "next_loop t = Some (Token STRING, u)" "rest_of u = r" "buffer u = buffer t @ w" "line u = line t"
      using assms next_loop_word[of t w r] by auto
    then show ?thesis using Word assms(3) by (intro exI[of _ u] exI[of _ "[]"]) simp
  next
    case (Quoted w)
    then have r: "rest_of t = CHR 0x22 # (w @ CHR 0x22 # '' '' @ r)" using assms(1) by simp
    obtain u where u: "string_loop 0 (adv t) = Some (None, u)" "rest_of u = CHR 0x22 # '' '' @ r"
      "buffer u = buffer (adv t) @ w" "line u = line (adv t)"
      using string_loop_rest[OF token_simps(5)[OF r]] Quoted assms(2) by auto
    have "next_loop t = Some (Token STRING, adv u)"
      using r assms(3) u by (subst next_loop.simps) (auto simp: token_simps char_class_simps string_token_def)
    moreover have "rest_of (adv u) = '' '' @ r" using token_simps(5)[OF u(2)] by simp
    ultimately show ?thesis using Quoted u(3,4) assms(3)
      by (intro exI[of _ "adv u"] exI[of _ "'' ''"]) (simp add: isWhiteSpace_def)
  next
    case (Linked w)
    then have r: "rest_of t = CHR ''['' # (w @ CHR '']'' # '' '' @ r)" using assms(1) by simp
    obtain u where u: "link_loop 0 (adv t) = Some (None, u)" "rest_of u = CHR '']'' # '' '' @ r"
      "buffer u = buffer (adv t) @ w" "line u = line (adv t)"
      using link_loop_rest[OF token_simps(5)[OF r]] Linked assms(2) by auto
    have "next_loop t = Some (Token LINK, adv u)"
      using r assms(3) u by (subst next_loop.simps) (auto simp: token_simps char_class_simps link_token_def)
    moreover have "rest_of (adv u) = '' '' @ r" using token_simps(5)[OF u(2)] by simp
    ultimately show ?thesis using Linked u(3,4) assms(3)
      by (intro exI[of _ "adv u"] exI[of _ "'' ''"]) (simp add: isWhiteSpace_def)
  qed (use assms(1) special[of "CHR '',''" DELIMITER] special[of "CHR ''=''" ASSIGN] special[of "CHR '';''" EXPRESSION_END]
      special[of "CHR 0x7B" OBJECT_OPEN] special[of "CHR 0x7D" OBJECT_CLOSE] in simp_all)
qed

lemma print_item_head:
  assumes "item_ok i" obtains c s where "print_item i = c # s" and "\<not> isWhiteSpace c"
proof (cases i)
  case (Word w)
  then show ?thesis using assms that by (cases w) (auto simp: plain_def)
qed (use that in \<open>auto simp: char_class_simps\<close>)

lemma tokenizer_next_item:
  assumes "rest_of t = ws @ print_item i @ r" and "list_all isWhiteSpace ws" and "item_ok i"
  shows "\<exists>u ws'. tokenizer_next t = Some (Token (fst (item_token i)), u) \<and> rest_of u = ws' @ r \<and>
    list_all isWhiteSpace ws' \<and> buffer u = snd (item_token i) \<and> line u = line t"
proof -
  obtain c s where c: "print_item i = c # s" "\<not> isWhiteSpace c" using print_item_head[OF assms(3)] .
  then obtain v where v: "skipWhiteSpaces t = Some v" "rest_of v = print_item i @ r" "line v = line t"
    using skipWhiteSpaces_rest[of t ws c "s @ r"] assms(1,2) by auto
  obtain u ws' where u: "next_loop (v\<lparr>buffer := []\<rparr>) = Some (Token (fst (item_token i)), u)" "rest_of u = ws' @ r"
    "list_all isWhiteSpace ws'" "buffer u = snd (item_token i)" "line u = line t"
    using next_loop_item[of "v\<lparr>buffer := []\<rparr>" i r] v assms(3) by auto
  have "\<not> file_eof (cfile t)" using assms(1) c token_simps(2)[of t] by (cases ws) auto
  then have "tokenizer_next t = Some (Token (fst (item_token i)), u\<lparr>tok := fst (item_token i)\<rparr>)"
    using v(1) u(1) by (simp add: tokenizer_next_def next_token_def)
  then show ?thesis using u(2-5) by (intro exI[of _ "u\<lparr>tok := fst (item_token i)\<rparr>"] exI[of _ ws']) simp
qed

lemma fst_item_token: "fst (item_token i) \<noteq> END"
  by (cases i) auto

lemma tokenizer_next_line_end:
  assumes "rest_of t = ws @ [CHR 0x0A]" and "list_all isWhiteSpace ws"
  shows "\<exists>u. tokenizer_next t = Some (Token LINE_END, u) \<and> rest_of u = [] \<and> buffer u = [CHR 0x0A] \<and> line u = line t + 1"
proof -
  obtain v where v: "skipWhiteSpaces t = Some v" "rest_of v = [CHR 0x0A]" "line v = line t"
    using skipWhiteSpaces_rest[of t ws "CHR 0x0A" "[]"] assms by (auto simp: char_class_simps)
  let ?v = "v\<lparr>buffer := [], line := line v + 1\<rparr>"
  have r: "rest_of (v\<lparr>buffer := []\<rparr>) = [CHR 0x0A]" "rest_of ?v = [CHR 0x0A]" using v(2) by simp_all
  have "next_loop (v\<lparr>buffer := []\<rparr>) = Some (Token LINE_END, adv ?v\<lparr>buffer := [CHR 0x0A]\<rparr>)"
    using r by (subst next_loop.simps) (auto simp: token_simps char_class_simps specialToken_def)
  moreover have "\<not> file_eof (cfile t)" using assms(1) token_simps(2)[of t] by (cases ws) auto
  ultimately show ?thesis
    using v token_simps(5)[OF r(2)] by (simp add: tokenizer_next_def next_token_def)
qed

lemma all_tokens_printed:
  assumes "rest_of t = ws @ concat (map print_item is) @ [CHR 0x0A]" and "list_all isWhiteSpace ws"
    and "list_all item_ok is" and "fpos (cfile t) \<le> length (contents (cfile t))"
  shows "all_tokens t = Some (map item_token is @ [(LINE_END, [CHR 0x0A])])"
  using assms
proof (induction "is" arbitrary: t ws)
  case Nil
  then obtain u where u: "tokenizer_next t = Some (Token LINE_END, u)" "rest_of u = []" "buffer u = [CHR 0x0A]"
    using tokenizer_next_line_end[of t ws] by auto
  have "file_eof (cfile u)"
    using tokenizer_next_good[OF u(1)] u(2) Nil.prems(4) by (auto simp: moved_def rest_of_def file_eof_def)
  then have "all_tokens u = Some []"
    by (subst all_tokens.simps) (simp add: tokenizer_next_def next_token_def)
  then show ?case using u by (subst all_tokens.simps) simp
next
  case (Cons i "is")
  obtain u ws' where u: "tokenizer_next t = Some (Token (fst (item_token i)), u)"
    "rest_of u = ws' @ concat (map print_item is) @ [CHR 0x0A]" "list_all isWhiteSpace ws'" "buffer u = snd (item_token i)"
    using tokenizer_next_item[of t ws i "concat (map print_item is) @ [CHR 0x0A]"] Cons.prems by auto
  have "fpos (cfile u) \<le> length (contents (cfile u))"
    using tokenizer_next_good[OF u(1)] Cons.prems(4) by (auto simp: moved_def)
  then have "all_tokens u = Some (map item_token is @ [(LINE_END, [CHR 0x0A])])"
    using Cons.IH[OF u(2,3)] Cons.prems(3) by simp
  then show ?case using u(1,4) fst_item_token[of i] by (subst all_tokens.simps) simp
qed

text \<open>
  C16: Printing and tokenizing.  A line of words, quoted strings, links with balanced brackets
  and the punctuation of the configuration language, separated by blanks, gives back exactly
  these tokens with their values, then the end of the line.
\<close>

theorem tokenizer_roundtrip:
  assumes "list_all item_ok is"
  shows "all_tokens (tokenizer_new (concat (map print_item is) @ [CHR 0x0A])) =
    Some (map item_token is @ [(LINE_END, [CHR 0x0A])])"
  using assms by (intro all_tokens_printed[where ws = "[]"]) (simp_all add: tokenizer_new_def rest_of_def)

theorem tokenizer_roundtrip_witness:
  "all_tokens (tokenizer_new ([CHR ''A'', CHR '' '', CHR ''='', CHR '' '', CHR ''['', CHR ''x'', CHR '']'', CHR '' '', CHR 0x0A])) =
    Some [(STRING, ''A''), (ASSIGN, ''=''), (LINK, ''x''), (LINE_END, [CHR 0x0A])]"
  using tokenizer_roundtrip[of "[Word ''A'', Equals, Linked ''x'']"]
  by (simp add: plain_def char_class_simps no_comment_def)

section \<open>Files on which every call returns\<close>

text \<open>
  The text behind a link, a string, a line comment and a comment over lines, the place after its
  start given; nothing if it is not closed.  Behind a comment the code reads on until it has
  seen a character that does not belong to it, so there must be one.
\<close>

fun after_link :: "nat \<Rightarrow> char list \<Rightarrow> char list option" where
  "after_link k [] = None"
| "after_link k (c # r) = (if isLinkEnd c \<and> k = 0 then Some r
    else after_link (if isLinkStart c then k + 1 else if isLinkEnd c then k - 1 else k) r)"

fun after_string :: "char list \<Rightarrow> char list option" where
  "after_string [] = None"
| "after_string (c # r) = (if isStringEnd c then Some r else after_string r)"

definition line_break :: "char \<Rightarrow> bool" where
  "line_break c \<longleftrightarrow> c = CHR 0x0A \<or> c = CHR 0x0D"

fun after_breaks :: "char list \<Rightarrow> char list option" where
  "after_breaks [] = None"
| "after_breaks (c # r) = (if line_break c then after_breaks r else Some (c # r))"

fun after_line :: "char list \<Rightarrow> char list option" where
  "after_line [] = None"
| "after_line (c # r) = (if line_break c then after_breaks r else after_line r)"

fun after_comment :: "char \<Rightarrow> char list \<Rightarrow> char list option" where
  "after_comment l [] = None"
| "after_comment l (c # r) =
    (if isMultiLineCommentEnd l c then if r = [] then None else Some r else after_comment c r)"

definition proper_tail :: "char list \<Rightarrow> char list \<Rightarrow> bool" where
  "proper_tail r x \<longleftrightarrow> (\<exists>p. p \<noteq> [] \<and> x = p @ r)"

lemma proper_tail_Cons: "proper_tail r (c # x) \<longleftrightarrow> r = x \<or> proper_tail r x"
  by (auto simp: proper_tail_def Cons_eq_append_conv)

lemma proper_tail_shorter: "proper_tail r x \<Longrightarrow> length r < length x"
  by (auto simp: proper_tail_def)

lemma after_link_tail: "after_link k x = Some r \<Longrightarrow> proper_tail r x"
  by (induction k x rule: after_link.induct) (auto simp: proper_tail_Cons split: if_splits)

lemma after_string_tail: "after_string x = Some r \<Longrightarrow> proper_tail r x"
  by (induction x) (auto simp: proper_tail_Cons split: if_splits)

lemma after_breaks_tail: "after_breaks x = Some r \<Longrightarrow> r = x \<or> proper_tail r x"
  by (induction x) (auto simp: proper_tail_Cons split: if_splits)

lemma after_line_tail: "after_line x = Some r \<Longrightarrow> proper_tail r x"
  by (induction x) (auto simp: proper_tail_Cons dest: after_breaks_tail split: if_splits)

lemma after_comment_tail: "after_comment l x = Some r \<Longrightarrow> proper_tail r x"
  by (induction l x rule: after_comment.induct) (auto simp: proper_tail_Cons split: if_splits)

lemmas after_tail = after_link_tail after_string_tail after_line_tail after_comment_tail

lemmas after_shorter = after_tail[THEN proper_tail_shorter]

text \<open>
  A text in which everything that is opened is closed; \<open>slash\<close> says that the character before
  is a slash that may start a comment.
\<close>

function closed :: "bool \<Rightarrow> char list \<Rightarrow> bool" where
  "closed slash x = (case x of [] \<Rightarrow> True | c # r \<Rightarrow>
     if isSingleCommentChar c \<or> slash \<and> c = CHR ''/'' then
       (case after_line x of None \<Rightarrow> False | Some y \<Rightarrow> closed False y)
     else if slash \<and> c = CHR ''*'' then
       (case r of [] \<Rightarrow> False | l # r' \<Rightarrow>
         (case after_comment l r' of None \<Rightarrow> False | Some y \<Rightarrow> closed False y))
     else if isLinkStart c then (case after_link 0 r of None \<Rightarrow> False | Some y \<Rightarrow> closed False y)
     else if isStringStart c then (case after_string r of None \<Rightarrow> False | Some y \<Rightarrow> closed False y)
     else closed (c = CHR ''/'') r)"
  by pat_completeness auto
termination
  by (relation "measure (\<lambda>(_, x). length x)") (auto dest: after_shorter simp del: after_line.simps)

declare closed.simps [simp del]

definition blank_end :: "char list \<Rightarrow> bool" where
  "blank_end x \<longleftrightarrow> x \<noteq> [] \<and> isWhiteSpace (last x)"

definition complete :: "char list \<Rightarrow> bool" where
  "complete x \<longleftrightarrow> closed False x \<and> \<not> blank_end x"

lemma blank_end_tail: "proper_tail r x \<Longrightarrow> \<not> blank_end x \<Longrightarrow> \<not> blank_end r"
  by (auto simp: proper_tail_def blank_end_def)

text \<open>The functions of the code on such a text.\<close>

lemma adv_inside: "rest_of t = c # r \<Longrightarrow> fpos (cfile (adv t)) \<le> length (contents (cfile (adv t)))"
  using step_simps(1)[of t c r] by (simp add: adv_def t_peek_Some)

lemma rest_of_eof: "fpos (cfile t) \<le> length (contents (cfile t)) \<Longrightarrow> file_eof (cfile t) \<longleftrightarrow> rest_of t = []"
  by (auto simp: file_eof_def rest_of_def)

lemma after_link_loop:
  "after_link k (rest_of t) = Some r \<Longrightarrow> \<exists>u c. link_loop k t = Some (None, u) \<and> rest_of u = c # r"
proof (induction k "rest_of t" arbitrary: t rule: after_link.induct)
  case (2 k c x)
  then have c: "rest_of t = c # x" by simp
  let ?u = "adv t\<lparr>buffer := buffer t @ [c]\<rparr>"
  show ?case
  proof (cases "isLinkEnd c \<and> k = 0")
    case True
    then show ?thesis using 2(3) c by (subst link_loop.simps) (auto simp: token_simps simp flip: 2(2))
  next
    case False
    then have "after_link (if isLinkStart c then k + 1 else if isLinkEnd c then k - 1 else k) (rest_of ?u) = Some r"
      using 2(3) False token_simps(5)[OF c] by (auto simp flip: 2(2) split: if_splits)
    with 2(1)[OF False, of ?u] token_simps(5)[OF c] False show ?thesis
      using c by (subst link_loop.simps) (auto simp: token_simps char_class_simps split: if_splits)
  qed
qed simp

lemma after_string_loop:
  "after_string (rest_of t) = Some r \<Longrightarrow> \<exists>u c. string_loop 0 t = Some (None, u) \<and> rest_of u = c # r"
proof (induction "rest_of t" arbitrary: t)
  case (Cons c x)
  then have c: "rest_of t = c # x" by simp
  show ?case
  proof (cases "isStringEnd c")
    case True
    then show ?thesis using Cons(3) c by (subst string_loop.simps) (auto simp: token_simps)
  next
    case False
    then show ?thesis using Cons(1)[of "adv t\<lparr>buffer := buffer t @ [c]\<rparr>"] Cons(3) c token_simps(5)[OF c]
      by (subst string_loop.simps) (auto simp: token_simps char_class_simps)
  qed
qed simp

lemma after_breaks_rest:
  "after_breaks (rest_of t) = Some r \<Longrightarrow> \<exists>u. skip_line_ends t = Some u \<and> rest_of u = r \<and> buffer u = buffer t"
proof (induction "rest_of t" arbitrary: t)
  case (Cons c x)
  then have c: "rest_of (count_line c t) = c # x" "rest_of t = c # x" by (simp_all add: count_line_def)
  show ?case
  proof (cases "line_break c")
    case True
    then show ?thesis using Cons(1)[of "adv (count_line c t)"] Cons(3) c token_simps(3,5)[OF c(1)]
      by (subst skip_line_ends.simps) (auto simp: token_simps line_break_def count_line_def)
  next
    case False
    then show ?thesis using Cons(3) c by (subst skip_line_ends.simps) (auto simp: token_simps line_break_def)
  qed
qed simp

lemma after_line_rest:
  "after_line (rest_of t) = Some r \<Longrightarrow> \<exists>u. skipLine t = Some u \<and> rest_of u = r \<and> buffer u = buffer t"
proof (induction "rest_of t" arbitrary: t)
  case (Cons c x)
  then have c: "rest_of t = c # x" by simp
  show ?case
  proof (cases "line_break c")
    case True
    then have "skip_to_line_end t = Some t" using c by (subst skip_to_line_end.simps) (auto simp: token_simps line_break_def)
    then show ?thesis using after_breaks_rest[of t r] Cons(3) True c by (simp add: skipLine_def)
  next
    case False
    then have "skip_to_line_end t = skip_to_line_end (adv t)"
      using c by (subst skip_to_line_end.simps) (auto simp: token_simps line_break_def)
    then show ?thesis using Cons(1)[of "adv t"] Cons(3) False c token_simps(5)[OF c] by (simp add: skipLine_def)
  qed
qed simp

lemma after_comment_rest:
  "after_comment l (rest_of t) = Some r \<Longrightarrow>
    r \<noteq> [] \<and> (\<exists>u c. skip_comment l t = Some u \<and> rest_of u = c # r \<and> buffer u = buffer t)"
proof (induction "rest_of t" arbitrary: t l)
  case (Cons c x)
  then have c: "rest_of (count_line c t) = c # x" "rest_of t = c # x" by (simp_all add: count_line_def)
  show ?case
  proof (cases "isMultiLineCommentEnd l c")
    case True
    then show ?thesis using Cons(3) c by (subst skip_comment.simps) (auto simp: token_simps split: if_splits)
  next
    case False
    then have "skip_comment l t = skip_comment c (adv (count_line c t))"
      using c(2) token_simps(3)[OF c(1)] by (subst skip_comment.simps) (simp add: token_simps)
    moreover have "after_comment c (rest_of (adv (count_line c t))) = Some r"
      using Cons(3) c False token_simps(5)[OF c(1)] by simp
    moreover have "buffer (count_line c t) = buffer t" by (simp add: count_line_def)
    ultimately show ?thesis using Cons(1)[of "adv (count_line c t)" c] Cons(2) c(2) token_simps(5)[OF c(1)]
      by simp
  qed
qed simp

lemma closed_blank:
  assumes "isWhiteSpace c" shows "closed slash (c # x) = closed False x"
proof -
  have "\<not> isSingleCommentChar c" "c \<noteq> CHR ''/''" "c \<noteq> CHR ''*''" "\<not> isLinkStart c" "\<not> isStringStart c"
    using assms by (auto simp: char_class_simps)
  then show ?thesis by (simp add: closed.simps[of slash "c # x"])
qed

lemma blanks_rest:
  assumes "rest_of t \<noteq> []" and "\<not> blank_end (rest_of t)" and "closed False (rest_of t)"
  shows "\<exists>u. skipWhiteSpaces t = Some u \<and> rest_of u \<noteq> [] \<and> \<not> blank_end (rest_of u) \<and> closed False (rest_of u) \<and>
    length (rest_of u) \<le> length (rest_of t) \<and> buffer u = buffer t"
  using assms
proof (induction "rest_of t" arbitrary: t)
  case (Cons c x)
  then have c: "rest_of t = c # x" by simp
  show ?case
  proof (cases "isWhiteSpace c")
    case False
    then show ?thesis using Cons.prems c by (subst skipWhiteSpaces.simps) (simp add: token_simps)
  next
    case True
    then have "x \<noteq> []" "\<not> blank_end x" "closed False x"
      using Cons.prems c closed_blank[of c False x] by (auto simp: blank_end_def)
    then show ?thesis using Cons(1)[of "adv t"] True c token_simps(5)[OF c]
      by (subst skipWhiteSpaces.simps) (auto simp: token_simps)
  qed
qed simp

lemma after_line_not_Nil: "after_line x = Some r \<Longrightarrow> r \<noteq> []"
proof (induction x)
  case (Cons c x)
  have "after_breaks y = Some r \<Longrightarrow> r \<noteq> []" for y by (induction y) (auto split: if_splits)
  with Cons show ?case by (auto split: if_splits)
qed simp

lemma rest_of_inside: "rest_of t \<noteq> [] \<Longrightarrow> fpos (cfile t) \<le> length (contents (cfile t))"
  by (auto simp: rest_of_def)

definition slash_last :: "tokenizer \<Rightarrow> bool" where
  "slash_last t \<longleftrightarrow> buffer t \<noteq> [] \<and> last (buffer t) = CHR ''/''"

lemma no_comment_butlast:
  "no_comment b \<Longrightarrow> b \<noteq> [] \<Longrightarrow> last b = CHR ''/'' \<Longrightarrow>
    no_comment (butlast b) \<and> (butlast b \<noteq> [] \<longrightarrow> last (butlast b) \<noteq> CHR ''/'')"
  by (cases b rule: rev_cases) (auto simp: no_comment_def successively_append_iff char_class_simps)

lemma no_comment_push:
  "no_comment b \<Longrightarrow> \<not> (b \<noteq> [] \<and> isLineComment (last b) c) \<Longrightarrow>
    \<not> (b \<noteq> [] \<and> isMultiLineCommentStart (last b) c) \<Longrightarrow> no_comment (b @ [c])"
  by (auto simp: no_comment_def successively_append_iff)

definition returns :: "(outcome \<times> tokenizer) option \<Rightarrow> bool" where
  "returns m \<longleftrightarrow> (\<exists>r u. m = Some (r, u) \<and> complete (rest_of u))"

lemma returns_Some [simp]: "returns (Some (r, u)) = complete (rest_of u)"
  by (simp add: returns_def)

text \<open>The branch of a character that is part of no comment.\<close>

lemma next_loop_char:
  assumes c: "rest_of t = c # x" and no: "\<not> isSingleCommentChar c"
      "\<not> (buffer t \<noteq> [] \<and> isLineComment (last (buffer t)) c)"
      "\<not> (buffer t \<noteq> [] \<and> isMultiLineCommentStart (last (buffer t)) c)"
    and closed: "closed (slash_last t) (c # x)" and blank: "\<not> blank_end (c # x)"
    and IH: "\<And>v. rest_of v = x \<Longrightarrow> buffer v = buffer t @ [c] \<Longrightarrow> closed (c = CHR ''/'') x \<Longrightarrow>
      fpos (cfile v) \<le> length (contents (cfile v)) \<Longrightarrow> returns (next_loop v)"
  shows "returns (next_loop t)"
proof -
  have slash: "\<not> (slash_last t \<and> c = CHR ''/'')" "\<not> (slash_last t \<and> c = CHR ''*'')"
    using no(2,3) by (auto simp: slash_last_def char_class_simps)
  have tail: "\<not> blank_end y" if "y = x \<or> proper_tail y x" for y
    using that blank blank_end_tail[of y "c # x"] by (auto simp: proper_tail_Cons)
  note cl = closed[unfolded closed.simps[of _ "c # x"] list.case if_not_P[OF slash(2)]] slash(1) no(1)
  have again: "closed False (c # x)"
    using cl by (simp add: closed.simps[of False "c # x"] split: if_splits)
  have special: "returns (specialToken k v)"
    if "closed False x" "rest_of v = c # x" "buffer v = buffer t" for k v
    using that again blank tail[of x] token_simps(5)[OF that(2)]
    by (auto simp: specialToken_def token_simps[OF that(2)] complete_def)
  have link: "returns (link_token t)" if start: "isLinkStart c"
  proof -
    obtain y where y: "after_link 0 (rest_of (adv t)) = Some y" "closed False y"
      using cl start token_simps(5)[OF c] by (cases "after_link 0 x") auto
    obtain u d where u: "link_loop 0 (adv t) = Some (None, u)" "rest_of u = d # y" using after_link_loop[OF y(1)] by blast
    then show ?thesis using y(2) tail[of y] after_link_tail[OF y(1)] token_simps(5)[OF c]
      by (simp add: link_token_def token_simps[OF c] token_simps[OF u(2)] complete_def)
  qed
  have string: "returns (string_token t)" if start: "isStringStart c"
  proof -
    let ?v = "if buffer t \<noteq> [] then adv t\<lparr>buffer := buffer t @ [c]\<rparr> else adv t"
    have v: "rest_of ?v = x" using token_simps(5)[OF c] by simp
    have "\<not> isLinkStart c" using start by (auto simp: char_class_simps)
    then obtain y where y: "after_string (rest_of ?v) = Some y" "closed False y"
      using cl start unfolding v by (cases "after_string x") auto
    obtain u d where u: "string_loop 0 ?v = Some (None, u)" "rest_of u = d # y" using after_string_loop[OF y(1)] by blast
    then show ?thesis using y(2) tail[of y] after_string_tail[OF y(1)] v
      by (cases "buffer t = []") (simp_all add: string_token_def token_simps[OF c] token_simps[OF u(2)] complete_def)
  qed
  have plain: "closed (c = CHR ''/'') x" if "\<not> isLinkStart c" "\<not> isStringStart c"
    using cl that by simp
  have push: "returns (t_push t \<bind> next_loop)" if "closed (c = CHR ''/'') x"
    using IH[of "adv t\<lparr>buffer := buffer t @ [c]\<rparr>"] that token_simps(4,5)[OF c] adv_inside[OF c] by simp
  have white: "returns (t_get t \<bind> (\<lambda>(_, t). Some (Token STRING, t)))" if "closed False x"
    using that tail[of x] token_simps(3,5)[OF c] by (simp add: complete_def)
  have stop: "complete (rest_of t)" using again blank c by (simp add: complete_def)
  note unfold = next_loop.simps[of t] token_simps(1)[OF c] Option.bind.bind_lunit if_not_P[OF no(1)] if_not_P[OF no(2)]
    if_not_P[OF no(3)] if_not_P[OF token_simps(2)[OF c]]
  show ?thesis
  proof (cases "isWhiteSpace c \<or> isDelimiter c \<or> isAssign c \<or> isExpressionEnd c \<or> isLineEnd c \<or> isObjectOpen c \<or> isObjectClose c")
    case True
    then have l: "\<not> isLinkStart c" "\<not> isStringStart c" and x: "closed False x" using plain by (auto simp: char_class_simps)
    have "returns (specialToken LINE_END (t\<lparr>line := line t + 1\<rparr>))" using c by (intro special[OF x]) simp_all
    then show ?thesis unfolding unfold using special[OF x c refl] white[OF x] push[OF plain[OF l]] l
      by (simp only: if_split) blast
  next
    case False
    then show ?thesis unfolding unfold using push plain stop link string by (simp only: if_split de_Morgan_disj returns_Some) blast
  qed
qed

text \<open>The branches of the comments, and the main loop.\<close>

lemma next_loop_skip:
  assumes "rest_of v \<noteq> []" and "complete (rest_of v)" and "length (rest_of v) < n"
    and IH: "\<And>w. length (rest_of w) < n \<Longrightarrow> complete (rest_of w) \<Longrightarrow> rest_of w \<noteq> [] \<Longrightarrow> buffer w = buffer v \<Longrightarrow>
      returns (next_loop w)"
  shows "returns (skipWhiteSpaces v \<bind> next_loop)"
proof -
  obtain w where w: "skipWhiteSpaces v = Some w" "rest_of w \<noteq> []" "\<not> blank_end (rest_of w)" "closed False (rest_of w)"
    "length (rest_of w) \<le> length (rest_of v)" "buffer w = buffer v"
    using blanks_rest[OF assms(1)] assms(2) by (auto simp: complete_def)
  then show ?thesis using IH[of w] assms(3) by (simp add: complete_def)
qed

lemma next_loop_line:
  assumes l: "after_line (rest_of t) = Some y" "closed False y" and blank: "\<not> blank_end (rest_of t)"
    and IH: "\<And>w. length (rest_of w) < length (rest_of t) \<Longrightarrow> complete (rest_of w) \<Longrightarrow> rest_of w \<noteq> [] \<Longrightarrow> buffer w = [] \<Longrightarrow>
      returns (next_loop w)"
  shows "returns (do { t \<leftarrow> skipLine t; if buffer t \<noteq> [] then Some (Token STRING, t) else do { t \<leftarrow> skipWhiteSpaces t; next_loop t } })"
proof -
  obtain u where u: "skipLine t = Some u" "rest_of u = y" using after_line_rest[OF l(1)] by blast
  have y: "complete y" "y \<noteq> []" "length y < length (rest_of t)"
    using l(2) after_line_not_Nil[OF l(1)] blank_end_tail[OF after_line_tail[OF l(1)] blank] after_shorter(3)[OF l(1)]
    by (simp_all add: complete_def)
  show ?thesis using u y next_loop_skip[of u "length (rest_of t)"] IH by auto
qed

lemma next_loop_block:
  assumes r: "rest_of t = c # l # x" and y: "after_comment l x = Some y" "closed False y" and blank: "\<not> blank_end (rest_of t)"
    and IH: "\<And>w. length (rest_of w) < length (rest_of t) \<Longrightarrow> complete (rest_of w) \<Longrightarrow> rest_of w \<noteq> [] \<Longrightarrow> buffer w = buffer t \<Longrightarrow>
      returns (next_loop w)"
  shows "returns (do { (_, t) \<leftarrow> t_get t; (l, t) \<leftarrow> t_get t; t \<leftarrow> skip_comment l t; (_, t) \<leftarrow> t_get t;
    t \<leftarrow> skipWhiteSpaces t; next_loop t })"
proof -
  have r': "rest_of (adv t) = l # x" "rest_of (adv (adv t)) = x"
    using token_simps(5)[OF r] token_simps(5)[of "adv t" l x] by simp_all
  obtain w d where w: "skip_comment l (adv (adv t)) = Some w" "rest_of w = d # y" "buffer w = buffer t" "y \<noteq> []"
    using after_comment_rest[of l "adv (adv t)" y] y(1) r'(2) by auto
  have tl: "proper_tail y (rest_of t)" using after_comment_tail[OF y(1)] r by (simp add: proper_tail_Cons)
  have "returns (skipWhiteSpaces (adv w) \<bind> next_loop)"
  proof (rule next_loop_skip[where n = "length (rest_of t)"])
    show "rest_of (adv w) \<noteq> []" "complete (rest_of (adv w))" "length (rest_of (adv w)) < length (rest_of t)"
      using w(2,4) y(2) token_simps(5)[OF w(2)] blank_end_tail[OF tl blank] proper_tail_shorter[OF tl]
      by (simp_all add: complete_def)
  qed (rule IH, simp_all add: w(3))
  then show ?thesis using token_simps(3)[OF r] token_simps(3)[OF r'(1)] w(1) token_simps(3)[OF w(2)] by simp
qed

lemma next_loop_returns:
  assumes "closed (slash_last t) (rest_of t)" and "\<not> blank_end (rest_of t)" and "no_comment (buffer t)"
    and "fpos (cfile t) \<le> length (contents (cfile t))"
  shows "returns (next_loop t)"
  using assms
proof (induction "length (rest_of t)" arbitrary: t rule: less_induct)
  case less
  show ?case
  proof (cases "rest_of t")
    case Nil
    then show ?thesis using rest_of_eof[OF less.prems(4)] less.prems(1)
      by (subst next_loop.simps) (simp add: complete_def closed.simps[of _ "[]"] blank_end_def)
  next
    case (Cons c x)
    have later: "returns (next_loop w)" if "length (rest_of w) < length (rest_of t)" "complete (rest_of w)" "rest_of w \<noteq> []"
      "no_comment (buffer w)" "\<not> slash_last w" for w
      using less.hyps[of w] that rest_of_inside[of w] by (simp add: complete_def)
    have empty: "no_comment [] \<and> \<not> slash_last w" if "buffer w = []" for w
      using that by (simp add: no_comment_def slash_last_def)
    let ?pop = "t\<lparr>buffer := butlast (buffer t)\<rparr>"
    have pop: "no_comment (butlast (buffer t)) \<and> (buffer w = butlast (buffer t) \<longrightarrow> \<not> slash_last w)" if "slash_last t" for w
      using that no_comment_butlast[OF less.prems(3)] by (auto simp: slash_last_def)
    note cl = less.prems(1)[unfolded Cons closed.simps[of _ "c # x"] list.case]
    have line: "returns (do { t \<leftarrow> skipLine v; if buffer t \<noteq> [] then Some (Token STRING, t) else do { t \<leftarrow> skipWhiteSpaces t; next_loop t } })"
      if c: "isSingleCommentChar c \<or> slash_last t \<and> c = CHR ''/''" and v: "rest_of v = rest_of t" for v
    proof -
      obtain y where "after_line (rest_of v) = Some y" "closed False y"
        using cl c v Cons by (cases "after_line (c # x)") (simp_all del: after_line.simps)
      then show ?thesis using less.prems(2) later empty v by (intro next_loop_line[of v y]) auto
    qed
    note unfold = next_loop.simps[of t] token_simps(1)[OF Cons] Option.bind.bind_lunit if_not_P[OF token_simps(2)[OF Cons]]
    consider (hash) "isSingleCommentChar c"
      | (slashes) "\<not> isSingleCommentChar c" "buffer t \<noteq> [] \<and> isLineComment (last (buffer t)) c"
      | (block) "\<not> isSingleCommentChar c" "\<not> (buffer t \<noteq> [] \<and> isLineComment (last (buffer t)) c)"
          "buffer t \<noteq> [] \<and> isMultiLineCommentStart (last (buffer t)) c"
      | (other) "\<not> isSingleCommentChar c" "\<not> (buffer t \<noteq> [] \<and> isLineComment (last (buffer t)) c)"
          "\<not> (buffer t \<noteq> [] \<and> isMultiLineCommentStart (last (buffer t)) c)" by blast
    then show ?thesis
    proof cases
      case hash
      then show ?thesis unfolding unfold if_P[OF hash] by (intro line) simp_all
    next
      case slashes
      then show ?thesis unfolding unfold if_not_P[OF slashes(1)] if_P[OF slashes(2)]
        by (intro line) (simp_all add: slash_last_def char_class_simps)
    next
      case block
      then have s: "slash_last t" "c = CHR ''*''" by (simp_all add: slash_last_def char_class_simps)
      then obtain l x' y where x: "x = l # x'" "after_comment l x' = Some y" "closed False y"
        using cl block(1) by (cases x; cases "after_comment (hd x) (tl x)") (auto simp del: after_comment.simps)
      have "rest_of ?pop = c # l # x'" using Cons x(1) by simp
      then have "returns (do { (_, t) \<leftarrow> t_get ?pop; (l, t) \<leftarrow> t_get t; t \<leftarrow> skip_comment l t; (_, t) \<leftarrow> t_get t;
          t \<leftarrow> skipWhiteSpaces t; next_loop t })"
        using x(2,3) less.prems(2) later pop[OF s(1)] by (intro next_loop_block) auto
      then show ?thesis unfolding unfold if_not_P[OF block(1)] if_not_P[OF block(2)] if_P[OF block(3)] .
    next
      case other
      show ?thesis
      proof (rule next_loop_char[OF Cons other])
        show "closed (slash_last t) (c # x)" "\<not> blank_end (c # x)" using less.prems(1,2) Cons by simp_all
        show "returns (next_loop v)" if v: "rest_of v = x" "buffer v = buffer t @ [c]" "closed (c = CHR ''/'') x"
          "fpos (cfile v) \<le> length (contents (cfile v))" for v
        proof (rule less.hyps)
          show "length (rest_of v) < length (rest_of t)" using v(1) Cons by simp
          show "closed (slash_last v) (rest_of v)" using v(1-3) by (simp add: slash_last_def)
          show "\<not> blank_end (rest_of v)" using less.prems(2) Cons v(1) by (auto simp: blank_end_def)
          show "no_comment (buffer v)" using no_comment_push[OF less.prems(3) other(2,3)] v(2) by simp
        qed (rule v(4))
      qed
    qed
  qed
qed

lemma tokenizer_next_returns:
  assumes "complete (rest_of t)" and "fpos (cfile t) \<le> length (contents (cfile t))"
  shows "returns (tokenizer_next t)"
proof (cases "rest_of t = []")
  case True
  then show ?thesis using rest_of_eof[OF assms(2)] assms(1) by (simp add: tokenizer_next_def next_token_def)
next
  case False
  then obtain v where v: "skipWhiteSpaces t = Some v" "rest_of v \<noteq> []" "\<not> blank_end (rest_of v)" "closed False (rest_of v)"
    using blanks_rest[of t] assms(1) by (auto simp: complete_def)
  have "returns (next_loop (v\<lparr>buffer := []\<rparr>))"
    using v(2-4) rest_of_inside[OF v(2)] by (intro next_loop_returns) (simp_all add: slash_last_def no_comment_def)
  then show ?thesis using False rest_of_eof[OF assms(2)] v(1)
    by (auto simp: tokenizer_next_def next_token_def returns_def split: outcome.split)
qed

lemma tokenizer_next_complete:
  assumes "complete (rest_of t)" and "fpos (cfile t) \<le> length (contents (cfile t))"
  obtains u where "tokenizer_next t = Some (Token (tok u), u)" and "complete (rest_of u)"
    and "fpos (cfile u) \<le> length (contents (cfile u))"
proof -
  obtain r u where u: "tokenizer_next t = Some (r, u)" "complete (rest_of u)"
    using tokenizer_next_returns[OF assms] by (auto simp: returns_def)
  then show thesis using that[of u] tokenizer_next_good[OF u(1)] assms(2) by (auto simp: moved_def)
qed

lemma all_tokens_complete:
  assumes "complete (rest_of t)" and "fpos (cfile t) \<le> length (contents (cfile t))"
  shows "\<exists>ks. all_tokens t = Some ks"
  using assms
proof (induction "left_over t" arbitrary: t rule: less_induct)
  case less
  obtain u where u: "tokenizer_next t = Some (Token (tok u), u)" "complete (rest_of u)" "fpos (cfile u) \<le> length (contents (cfile u))"
    using tokenizer_next_complete[OF less.prems] .
  show ?case
  proof (cases "tok u = END")
    case True
    then show ?thesis using u(1) by (subst all_tokens.simps) simp
  next
    case False
    then show ?thesis using less.hyps[OF _ u(2,3)] tokenizer_next_good[OF u(1)] u(1) by (subst all_tokens.simps) auto
  qed
qed

text \<open>
  C17: The tokenizer is total on complete files and makes progress.  A file is complete if every
  link, string and comment in it is closed, no comment is in its last line, and its last
  character is no blank.  On such a file every call returns a token and leaves a complete rest;
  it keeps the file and never moves back, neither in the file nor in the line count; it reports
  the end only at the end of the file and consumes at least one character with every other token.
  So a client that asks for tokens until the end gets its list, of at most as many tokens as the
  file has characters.  No call ends in the messages about missing end characters: in a file
  without the end character the loops read behind the end of the file before they test for it,
  and the call has no result, as for an unclosed link and an unclosed string at the end.
\<close>

theorem tokenizer_progress:
  assumes "complete (rest_of t)" and "fpos (cfile t) \<le> length (contents (cfile t))"
  shows "\<exists>u ks. tokenizer_next t = Some (Token (tok u), u) \<and> complete (rest_of u) \<and>
    contents (cfile u) = contents (cfile t) \<and> line t \<le> line u \<and>
    (if tok u = END then file_eof (cfile u)
     else fpos (cfile t) < fpos (cfile u) \<and> fpos (cfile u) \<le> length (contents (cfile u))) \<and>
    all_tokens t = Some ks \<and> length ks \<le> length (contents (cfile t)) - fpos (cfile t)"
proof -
  obtain u where u: "tokenizer_next t = Some (Token (tok u), u)" "complete (rest_of u)"
    using tokenizer_next_complete[OF assms] .
  obtain ks where "all_tokens t = Some ks" using all_tokens_complete[OF assms] ..
  with u assms(2) tokenizer_next_good[OF u(1)] all_tokens_length[of t ks] show ?thesis
    by (auto simp: moved_def left_over_def)
qed

theorem tokenizer_progress_witness:
  "let t = tokenizer_new (''a/*c*/ = [x[y]] // k'' @ [CHR 0x0A, CHR 0x22] @ ''z '' @ [CHR 0x22, CHR '';'', CHR 0x0A]) in
    \<exists>u ks. tokenizer_next t = Some (Token (tok u), u) \<and> complete (rest_of u) \<and> fpos (cfile t) < fpos (cfile u) \<and>
      all_tokens t = Some ks \<and> map snd ks = [''a'', ''='', ''x[y]'', ''z '', '';'', [CHR 0x0A]]"
proof -
  let ?t = "tokenizer_new (''a/*c*/ = [x[y]] // k'' @ [CHR 0x0A, CHR 0x22] @ ''z '' @ [CHR 0x22, CHR '';'', CHR 0x0A])"
  have c: "complete (rest_of ?t)" by code_simp
  have e: "map_option (map snd) (all_tokens ?t) = Some [''a'', ''='', ''x[y]'', ''z '', '';'', [CHR 0x0A]]" by code_simp
  have k: "map_option (\<lambda>(_, u). tok u) (tokenizer_next ?t) = Some STRING" by code_simp
  show ?thesis using tokenizer_progress[OF c] e k by (auto simp: Let_def tokenizer_new_def)
qed

text \<open>Without the end character the loops leave the file and have no result.\<close>

lemma unclosed_link: "after_link k (rest_of t) = None \<Longrightarrow> link_loop k t = None"
proof (induction "rest_of t" arbitrary: t k)
  case Nil
  then have "t_peek t = None" by (simp add: rest_of_def t_peek_def file_peek_def rd_def)
  then show ?case by (subst link_loop.simps) simp
next
  case (Cons c x)
  then have c: "rest_of t = c # x" by simp
  have "after_link (if isLinkStart c then k + 1 else if isLinkEnd c then k - 1 else k) x = None" "\<not> (isLinkEnd c \<and> k = 0)"
    using Cons.prems by (auto simp: c split: if_splits)
  then show ?case using Cons(1)[of "adv t\<lparr>buffer := buffer t @ [c]\<rparr>"] token_simps(5)[OF c]
    by (subst link_loop.simps) (auto simp: token_simps[OF c] Let_def char_class_simps split: if_splits)
qed

lemma unclosed_string: "after_string (rest_of t) = None \<Longrightarrow> string_loop 0 t = None"
proof (induction "rest_of t" arbitrary: t)
  case Nil
  then have "t_peek t = None" by (simp add: rest_of_def t_peek_def file_peek_def rd_def)
  then show ?case by (subst string_loop.simps) simp
next
  case (Cons c x)
  then have c: "rest_of t = c # x" by simp
  have n: "after_string x = None" "\<not> isStringEnd c" "\<not> isStringStart c"
    using Cons.prems by (auto simp: c char_class_simps split: if_splits)
  then show ?case using Cons(1)[of "adv t\<lparr>buffer := buffer t @ [c]\<rparr>"] token_simps(5)[OF c]
    by (subst string_loop.simps) (simp add: token_simps[OF c] Let_def)
qed

section \<open>The line counter\<close>

text \<open>
  A line end directly behind a word is counted when it ends the word and again when it is
  read itself.
\<close>

lemma line_end_behind_word:
  assumes "rest_of t = CHR 0x0A # r" and "buffer t \<noteq> []"
  shows "next_loop t = Some (Token STRING, t\<lparr>line := line t + 1\<rparr>)"
  using assms by (subst next_loop.simps) (auto simp: token_simps char_class_simps specialToken_def)

lemma line_counted_twice:
  assumes "rest_of t = [CHR 0x0A]" and "buffer t \<noteq> []"
  shows "\<exists>u v. next_loop t = Some (Token STRING, u) \<and> tokenizer_next u = Some (Token LINE_END, v) \<and> line v = line t + 2"
  using line_end_behind_word[OF assms] tokenizer_next_line_end[of "t\<lparr>line := line t + 1\<rparr>" "[]"] assms(1) by auto

section \<open>The context of an error\<close>

text \<open>
  \<^verbatim>\<open>Tokenizer::lastLines\<close>: the last lines up to the read position.  The inner loop reads until
  it has passed a line end; the read position is not restored.
\<close>

function read_line :: "full_file \<Rightarrow> full_file option" where
  "read_line f = do { (c, f) \<leftarrow> file_get f; if c \<noteq> CHR 0x0A then read_line f else Some f }"
  by pat_completeness auto
termination
  by (relation "measure (\<lambda>f. length (contents f) - fpos f)") (auto simp: file_get_def bind_eq_Some_conv rd_eq_Some_iff)

declare read_line.simps [simp del]

lemma read_line_moves: "read_line f = Some g \<Longrightarrow> contents g = contents f \<and> fpos f < fpos g \<and> fpos g \<le> length (contents f)"
proof (induction "length (contents f) - fpos f" arbitrary: f rule: less_induct)
  case less
  then obtain c h where h: "file_get f = Some (c, h)" "(if c \<noteq> CHR 0x0A then read_line h else Some h) = Some g"
    by (subst (asm) (3) read_line.simps) (auto simp: bind_eq_Some_conv)
  then have m: "contents h = contents f" "fpos h = fpos f + 1" "fpos f < length (contents f)"
    by (auto simp: file_get_def bind_eq_Some_conv rd_eq_Some_iff)
  show ?case
  proof (cases "c = CHR 0x0A")
    case True
    then show ?thesis using h(2) m by simp
  next
    case False
    have "length (contents h) - fpos h < length (contents f) - fpos f" using m by simp
    then show ?thesis using less.hyps[of h] h(2) m False by simp
  qed
qed

function collect_lines ::
  "nat \<Rightarrow> nat \<Rightarrow> full_file \<Rightarrow> string list \<Rightarrow> nat \<Rightarrow> (full_file \<times> string list \<times> nat) option" where
  "collect_lines number current f lines n =
    (if fpos f < current then do {
       let b = fpos f;
       f \<leftarrow> read_line f;
       l \<leftarrow> file_range b (fpos f) f;
       let lines = lines @ [l];
       let lines = (if length lines > number then tl lines else lines);
       collect_lines number current f lines (n + 1)
     } else Some (f, lines, n))"
  by pat_completeness auto
termination
  by (relation "measure (\<lambda>(_, _, f, _). length (contents f) - fpos f)") (auto dest!: read_line_moves)

declare collect_lines.simps [simp del]

fun nat_string :: "nat \<Rightarrow> string" where
  "nat_string n = (if n < 10 then [char_of (48 + n)] else nat_string (n div 10) @ [char_of (48 + n mod 10)])"

declare nat_string.simps [simp del]

definition setw4 :: "nat \<Rightarrow> string" where
  "setw4 n = (let s = nat_string n in replicate (4 - length s) CHR '' '' @ s)"

definition lastLines :: "nat \<Rightarrow> tokenizer \<Rightarrow> (string \<times> tokenizer) option" where
  "lastLines number t = do {
     let current = fpos (cfile t);
     (f, lines, n) \<leftarrow> collect_lines number current (file_move 0 (cfile t)) [] 1;
     let n = (if n < number then 0 else n - number);
     let (ss, n) = fold (\<lambda>l (ss, n). (ss @ setw4 n @ '':'' @ l @ [CHR 0x0A], n + 1)) lines ([], n);
     let ss = ss @ setw4 n @ '':'';
     if fpos f > current then Some (ss, t\<lparr>cfile := f\<rparr>)
     else Some (ss @ ''^'', t\<lparr>cfile := f\<rparr>)
   }"

lemma collect_lines_moves:
  "collect_lines number current f ls n = Some (g, ls', n') \<Longrightarrow> contents g = contents f \<and> current \<le> fpos g \<and> n \<le> n' \<and>
    (length ls \<le> number \<longrightarrow> length ls' \<le> number)"
proof (induction "length (contents f) - fpos f" arbitrary: f ls n rule: less_induct)
  case less
  show ?case
  proof (cases "fpos f < current")
    case False
    then show ?thesis using less.prems by (subst (asm) collect_lines.simps) auto
  next
    case True
    then obtain h l where h: "read_line f = Some h" "collect_lines number current h
        (if length (ls @ [l]) > number then tl (ls @ [l]) else ls @ [l]) (n + 1) = Some (g, ls', n')"
      using less.prems by (subst (asm) collect_lines.simps) (auto simp: bind_eq_Some_conv Let_def)
    note m = read_line_moves[OF h(1)]
    have "length (contents h) - fpos h < length (contents f) - fpos f" using m by auto
    from less.hyps[OF this h(2)] m show ?thesis by (auto split: if_splits)
  qed
qed

lemma lastLines_moves:
  assumes "lastLines number t = Some (s, u)"
  shows "contents (cfile u) = contents (cfile t) \<and> fpos (cfile t) \<le> fpos (cfile u)"
proof -
  let ?c = "collect_lines number (fpos (cfile t)) (file_move 0 (cfile t)) [] 1"
  obtain f ls n where c: "?c = Some (f, ls, n)"
    using assms by (cases ?c) (auto simp: lastLines_def)
  have "u = t\<lparr>cfile := f\<rparr>"
    using assms by (simp add: lastLines_def c[simplified] Let_def split: prod.splits if_splits)
  then show ?thesis using collect_lines_moves[OF c] by (simp add: file_move_def)
qed

end
