(* ===== verification/StringParser.thy ===== *)
theory StringParser
  imports Prelude "HOL-Library.Char_ord" "HOL-Library.Sublist" "HOL-Library.List_Lexorder"
begin

text \<open>
  String comparison and splitting, \<^verbatim>\<open>src/basis/utilities/parser.h\<close> and \<^verbatim>\<open>parser.cpp\<close>.  Strings are
  lists of characters; \<^verbatim>\<open>tolower\<close> and \<^verbatim>\<open>toupper\<close> are those of the C locale, and characters
  compare as the signed \<^verbatim>\<open>char\<close>s of the supported platforms.  \<^verbatim>\<open>npos\<close> is \<open>None\<close>.
\<close>

named_theorems compare_simps "comparison of characters"

section \<open>Characters\<close>

definition char_int :: "char \<Rightarrow> int" where
  "char_int c = (let n = int (of_char c) in if n < 128 then n else n - 256)"

definition tolower :: "char \<Rightarrow> int" where
  "tolower c = (let n = char_int c in if 65 \<le> n \<and> n \<le> 90 then n + 32 else n)"

definition toupper :: "char \<Rightarrow> char" where
  "toupper c = (let n = (of_char c :: nat) in if 97 \<le> n \<and> n \<le> 122 then char_of (n - 32) else c)"

definition char_less :: "char \<Rightarrow> char \<Rightarrow> bool" where
  [compare_simps]: "char_less c1 c2 \<longleftrightarrow> char_int c1 < char_int c2"

definition char_caseInsensitive :: "char \<Rightarrow> char \<Rightarrow> bool" where
  [compare_simps]: "char_caseInsensitive c1 c2 \<longleftrightarrow> tolower c1 < tolower c2"

definition char_equals :: "char \<Rightarrow> char \<Rightarrow> bool" where
  [compare_simps]: "char_equals c1 c2 \<longleftrightarrow> tolower c1 = tolower c2"

section \<open>The algorithms of the standard library\<close>

text \<open>\<^verbatim>\<open>std::equal\<close> with three iterators: reading behind the second range is \<open>None\<close>.\<close>

fun std_equal :: "('a \<Rightarrow> 'a \<Rightarrow> bool) \<Rightarrow> 'a list \<Rightarrow> 'a list \<Rightarrow> bool option" where
  "std_equal P [] ys = Some True"
| "std_equal P (x # xs) [] = None"
| "std_equal P (x # xs) (y # ys) = (if P x y then std_equal P xs ys else Some False)"

fun lexicographical_compare :: "('a \<Rightarrow> 'a \<Rightarrow> bool) \<Rightarrow> 'a list \<Rightarrow> 'a list \<Rightarrow> bool" where
  "lexicographical_compare lt xs [] \<longleftrightarrow> False"
| "lexicographical_compare lt [] (y # ys) \<longleftrightarrow> True"
| "lexicographical_compare lt (x # xs) (y # ys) \<longleftrightarrow>
    lt x y \<or> (\<not> lt y x \<and> lexicographical_compare lt xs ys)"

definition first_index :: "('a \<Rightarrow> bool) \<Rightarrow> 'a list \<Rightarrow> nat option" where
  "first_index P xs = (let k = length (takeWhile (\<lambda>x. \<not> P x) xs) in if k < length xs then Some k else None)"

definition find_first_of :: "string \<Rightarrow> string \<Rightarrow> nat option" where
  "find_first_of s cs = first_index (\<lambda>c. c \<in> set cs) s"

definition find_first_not_of :: "string \<Rightarrow> string \<Rightarrow> nat option" where
  "find_first_not_of s cs = first_index (\<lambda>c. c \<notin> set cs) s"

definition find_last_not_of :: "string \<Rightarrow> string \<Rightarrow> nat option" where
  "find_last_not_of s cs = map_option (\<lambda>k. length s - 1 - k) (find_first_not_of (rev s) cs)"

fun str_contains :: "'a list \<Rightarrow> 'a list \<Rightarrow> bool" where
  "str_contains [] v \<longleftrightarrow> v = []"
| "str_contains (c # s) v \<longleftrightarrow> take (length v) (c # s) = v \<or> str_contains s v"

text \<open>\<^verbatim>\<open>erase(0, k)\<close>, \<^verbatim>\<open>erase(k, npos)\<close> and \<^verbatim>\<open>substr(0, k)\<close>.\<close>

definition erase_front :: "nat option \<Rightarrow> 'a list \<Rightarrow> 'a list" where
  "erase_front k s = (case k of None \<Rightarrow> [] | Some k \<Rightarrow> drop k s)"

definition keep_front :: "nat option \<Rightarrow> 'a list \<Rightarrow> 'a list" where
  "keep_front k s = (case k of None \<Rightarrow> s | Some k \<Rightarrow> take k s)"

section \<open>StringCompare\<close>

definition caseSensitiveEq :: "string \<Rightarrow> string \<Rightarrow> bool option" where
  "caseSensitiveEq s1 s2 = (if length s1 = length s2 then std_equal (=) s1 s2 else Some False)"

definition caseInsensitiveEq :: "string \<Rightarrow> string \<Rightarrow> bool option" where
  "caseInsensitiveEq s1 s2 = (if length s1 = length s2 then std_equal char_equals s1 s2 else Some False)"

definition caseSensitive :: "string \<Rightarrow> string \<Rightarrow> bool" where
  "caseSensitive s1 s2 \<longleftrightarrow> lexicographical_compare char_less s1 s2"

definition caseInsensitive :: "string \<Rightarrow> string \<Rightarrow> bool" where
  "caseInsensitive s1 s2 \<longleftrightarrow> lexicographical_compare char_caseInsensitive s1 s2"

definition caseSensitivePreffix :: "string \<Rightarrow> string \<Rightarrow> bool option" where
  "caseSensitivePreffix s1 s2 = std_equal (=) s1 s2"

definition caseInsensitivePreffix :: "string \<Rightarrow> string \<Rightarrow> bool option" where
  "caseInsensitivePreffix s1 s2 = (if length s1 \<le> length s2 then std_equal char_equals s1 s2 else Some False)"

definition caseSensitiveSuffix :: "string \<Rightarrow> string \<Rightarrow> bool option" where
  "caseSensitiveSuffix s1 s2 = (if length s1 \<ge> length s2
     then std_equal (=) (drop (length s1 - length s2) s1) s2 else Some False)"

definition caseInsensitiveSuffix :: "string \<Rightarrow> string \<Rightarrow> bool option" where
  "caseInsensitiveSuffix s1 s2 = (if length s1 \<ge> length s2
     then std_equal char_equals (drop (length s1 - length s2) s1) s2 else Some False)"

definition contains :: "string \<Rightarrow> string list \<Rightarrow> bool" where
  "contains s variables \<longleftrightarrow> list_ex (\<lambda>v. str_contains (map tolower s) (map tolower v)) variables"

section \<open>Parser\<close>

definition getLine :: "string \<Rightarrow> string option" where
  "getLine text = map_option (\<lambda>k. take (k + 1) text) (first_index (\<lambda>c. c = CHR 0x0A) text)"

definition uppercase :: "string \<Rightarrow> string" where
  "uppercase s = map toupper s"

definition blanks :: string where
  "blanks = [CHR '' '', CHR 0x0D, CHR 0x09, CHR 0x0A]"

definition strip :: "string \<Rightarrow> string" where
  "strip text = (let
     result = erase_front (find_first_not_of text blanks) text;
     result = take (case find_last_not_of result blanks of None \<Rightarrow> 0 | Some k \<Rightarrow> k + 1) result
   in keep_front (first_index (\<lambda>c. c = CHR ''#'') result) result)"

text \<open>One turn of the loop of \<^verbatim>\<open>Parser::split\<close> leaves this remainder.\<close>

definition split_rest :: "string \<Rightarrow> bool \<Rightarrow> string \<Rightarrow> string" where
  "split_rest separator skipMultiple s = (case find_first_of s separator of
     None \<Rightarrow> []
   | Some k \<Rightarrow> if skipMultiple
       then let s = erase_front (find_first_of s separator) s in erase_front (find_first_not_of s separator) s
       else erase_front (Some (k + 1)) s)"

lemma first_index_Some: "first_index P xs = Some k \<Longrightarrow> k < length xs \<and> P (xs ! k)"
  using nth_length_takeWhile[of "\<lambda>x. \<not> P x" xs] by (auto simp: first_index_def Let_def split: if_splits)

lemma drop_first_index: "erase_front (first_index P xs) xs = dropWhile (\<lambda>x. \<not> P x) xs"
proof -
  have "drop (length (takeWhile (\<lambda>x. \<not> P x) xs)) xs = dropWhile (\<lambda>x. \<not> P x) xs"
    by (metis append_eq_conv_conj takeWhile_dropWhile_id)
  moreover have "\<not> length (takeWhile (\<lambda>x. \<not> P x) xs) < length xs \<Longrightarrow> dropWhile (\<lambda>x. \<not> P x) xs = []"
    by (metis calculation drop_all not_le)
  ultimately show ?thesis by (auto simp: erase_front_def first_index_def Let_def)
qed

lemma keep_first_index: "keep_front (first_index P xs) xs = takeWhile (\<lambda>x. \<not> P x) xs"
proof -
  have "take (length (takeWhile (\<lambda>x. \<not> P x) xs)) xs = takeWhile (\<lambda>x. \<not> P x) xs"
    by (metis append_eq_conv_conj takeWhile_dropWhile_id)
  moreover have "\<not> length (takeWhile (\<lambda>x. \<not> P x) xs) < length xs \<Longrightarrow> takeWhile (\<lambda>x. \<not> P x) xs = xs"
    by (metis calculation not_le take_all)
  ultimately show ?thesis by (auto simp: keep_front_def first_index_def Let_def)
qed

lemma first_index_None: "first_index P xs = None \<longleftrightarrow> list_all (\<lambda>x. \<not> P x) xs"
proof -
  have "length (takeWhile (\<lambda>x. \<not> P x) xs) = length xs \<longleftrightarrow> list_all (\<lambda>x. \<not> P x) xs"
    by (metis list_all_iff takeWhile_eq_all_conv takeWhile_eq_take take_all_iff le_refl)
  then show ?thesis
    using length_takeWhile_le[of "\<lambda>x. \<not> P x" xs] by (auto simp: first_index_def Let_def not_less)
qed

lemma split_rest_shorter: "s \<noteq> [] \<Longrightarrow> length (split_rest separator skipMultiple s) < length s"
proof -
  assume s: "s \<noteq> []"
  show ?thesis
  proof (cases "find_first_of s separator")
    case None
    then show ?thesis using s by (simp add: split_rest_def)
  next
    case (Some k)
    then have k: "k < length s" "s ! k \<in> set separator"
      using first_index_Some by (auto simp: find_first_of_def)
    then have d: "drop k s = s ! k # drop (Suc k) s" by (simp add: Cons_nth_drop_Suc)
    have "length (dropWhile (\<lambda>c. c \<in> set separator) (drop k s)) \<le> length (drop (Suc k) s)"
      using k(2) length_dropWhile_le[of "\<lambda>c. c \<in> set separator" "drop (Suc k) s"] by (simp add: d)
    then show ?thesis using Some k
      by (auto simp: split_rest_def erase_front_def[of "Some _"] find_first_not_of_def drop_first_index Let_def)
  qed
qed

function split_loop :: "string \<Rightarrow> bool \<Rightarrow> string \<Rightarrow> string list" where
  "split_loop separator skipMultiple reminder =
    (if reminder \<noteq> [] then
       keep_front (find_first_of reminder separator) reminder #
       split_loop separator skipMultiple (split_rest separator skipMultiple reminder)
     else [])"
  by pat_completeness auto
termination by (relation "measure (\<lambda>(_, _, s). length s)") (auto simp: split_rest_shorter)

declare split_loop.simps [simp del]

definition split_string :: "string \<Rightarrow> string \<Rightarrow> bool \<Rightarrow> string list" where
  "split_string text separator skipMultiple =
    (if length text = 0 then [[]] else split_loop separator skipMultiple text)"

section \<open>Comparison is an order\<close>

lemma lexicographical_compare_key:
  fixes f :: "'a \<Rightarrow> int"
  shows "lexicographical_compare (\<lambda>a b. f a < f b) xs ys \<longleftrightarrow> map f xs < map f ys"
  by (induction "\<lambda>a b. f a < f b" xs ys rule: lexicographical_compare.induct)
    (auto simp: not_less order.order_iff_strict)

lemma std_equal_key:
  "length xs \<le> length ys \<Longrightarrow> std_equal (\<lambda>a b. f a = f b) xs ys = Some (prefix (map f xs) (map f ys))"
  by (induction "\<lambda>a b. f a = f b" xs ys rule: std_equal.induct) auto

lemma std_equal_eq:
  "std_equal (=) xs ys = (if strict_prefix ys xs then None else Some (prefix xs ys))"
  by (induction "(=) :: 'a \<Rightarrow> 'a \<Rightarrow> bool" xs ys rule: std_equal.induct) auto

lemma str_contains_iff: "str_contains s v \<longleftrightarrow> sublist v s"
proof (induction s)
  case (Cons c s)
  have "take (length v) (c # s) = v \<longleftrightarrow> prefix v (c # s)" by (auto simp: prefix_def) (metis append_eq_conv_conj append_take_drop_id)
  then show ?case using Cons by (simp add: sublist_Cons_right)
qed simp

lemma char_keys: "char_less = (\<lambda>a b. char_int a < char_int b)"
  "char_caseInsensitive = (\<lambda>a b. tolower a < tolower b)" "char_equals = (\<lambda>a b. tolower a = tolower b)"
  by (auto simp: compare_simps fun_eq_iff)

lemma char_int_inject: "char_int a = char_int b \<longleftrightarrow> a = b"
proof
  assume eq: "char_int a = char_int b"
  define m n where "m = (of_char a :: nat)" and "n = (of_char b :: nat)"
  have "m < 256" "n < 256" using nat_of_char_less_256 by (simp_all add: m_def n_def)
  then have "m = n" using eq unfolding char_int_def m_def[symmetric] n_def[symmetric] Let_def by (simp split: if_splits)
  then show "a = b" by (simp add: m_def n_def)
qed simp

text \<open>
  C29: String comparison.  \<^verbatim>\<open>StringCompare\<close>, the order of the parameter maps, is the lexicographic
  order of the lower-case strings: a strict total preorder whose equivalence is
  \<^verbatim>\<open>caseInsensitiveEq\<close>.  The prefix and suffix tests are what they say, except that
  \<^verbatim>\<open>caseSensitivePreffix\<close> reads behind the second string when that is a proper prefix of the
  first.
\<close>

theorem string_compare_correct:
  "(caseInsensitive s1 s2 \<longleftrightarrow> map tolower s1 < map tolower s2) \<and>
    caseInsensitiveEq s1 s2 = Some (\<not> caseInsensitive s1 s2 \<and> \<not> caseInsensitive s2 s1) \<and>
    (caseSensitive s1 s2 \<longleftrightarrow> map char_int s1 < map char_int s2) \<and>
    caseSensitiveEq s1 s2 = Some (s1 = s2) \<and>
    caseInsensitivePreffix s1 s2 = Some (prefix (map tolower s1) (map tolower s2)) \<and>
    caseSensitivePreffix s1 s2 = (if strict_prefix s2 s1 then None else Some (prefix s1 s2)) \<and>
    caseSensitiveSuffix s1 s2 = Some (suffix s2 s1) \<and>
    caseInsensitiveSuffix s1 s2 = Some (suffix (map tolower s2) (map tolower s1)) \<and>
    (contains s1 vs \<longleftrightarrow> list_ex (\<lambda>v. sublist (map tolower v) (map tolower s1)) vs)"
proof -
  have ins: "caseInsensitive s t \<longleftrightarrow> map tolower s < map tolower t" for s t
    by (simp add: caseInsensitive_def char_keys lexicographical_compare_key)
  have same: "prefix xs ys \<longleftrightarrow> xs = ys" if "length xs = length ys" for xs ys :: "'b list"
    using that by (auto simp: prefix_def)
  have eq: "caseInsensitiveEq s1 s2 = Some (map tolower s1 = map tolower s2)"
    by (cases "length s1 = length s2")
      (auto simp: caseInsensitiveEq_def char_keys std_equal_key same dest: map_eq_imp_length_eq)
  have sens: "caseSensitiveEq s1 s2 = Some (s1 = s2)"
    by (cases "length s1 = length s2") (auto simp: caseSensitiveEq_def std_equal_eq same strict_prefix_def)
  have pre: "caseInsensitivePreffix s1 s2 = Some (prefix (map tolower s1) (map tolower s2))"
    by (auto simp: caseInsensitivePreffix_def char_keys std_equal_key dest: prefix_length_le)
  have drop: "suffix ys xs \<longleftrightarrow> length ys \<le> length xs \<and> drop (length xs - length ys) xs = ys" for xs ys :: "'b list"
    by (auto simp: suffix_def) (metis append_take_drop_id)
  have suf: "caseSensitiveSuffix s1 s2 = Some (suffix s2 s1)"
    by (auto simp: caseSensitiveSuffix_def std_equal_eq drop same strict_prefix_def)
  have isuf: "caseInsensitiveSuffix s1 s2 = Some (suffix (map tolower s2) (map tolower s1))"
    by (auto simp: caseInsensitiveSuffix_def char_keys std_equal_key drop same drop_map)
  show ?thesis
    using ins eq sens pre suf isuf
    by (auto simp: caseSensitive_def char_keys lexicographical_compare_key caseSensitivePreffix_def std_equal_eq
        contains_def str_contains_iff)
qed

section \<open>Splitting and stripping\<close>

lemma find_none: "list_all (\<lambda>c. c \<notin> set sep) f \<Longrightarrow> find_first_of f sep = None"
  by (simp add: find_first_of_def first_index_None)

lemma find_field:
  assumes "list_all (\<lambda>c. c \<notin> set sep) f" and "c \<in> set sep"
  shows "find_first_of (f @ c # r) sep = Some (length f)"
  using assms by (simp add: find_first_of_def first_index_def takeWhile_append2 list_all_iff Let_def)

lemma split_loop_fields:
  assumes "list_all (\<lambda>c. c \<notin> set sep) f" and "f \<noteq> []"
    and "list_all (\<lambda>(g, f). g \<noteq> [] \<and> list_all (\<lambda>c. c \<in> set sep) g \<and> list_all (\<lambda>c. c \<notin> set sep) f \<and> f \<noteq> [] \<and>
      (skip \<or> length g = 1)) gfs"
  shows "split_loop sep skip (f @ concat (map (\<lambda>(g, f). g @ f) gfs)) = f # map snd gfs"
  using assms
proof (induction gfs arbitrary: f)
  case Nil
  then have "find_first_of f sep = None" by (intro find_none) simp
  then show ?case using Nil.prems(2)
    by (subst split_loop.simps) (simp add: keep_front_def split_rest_def split_loop.simps[of _ _ "[]"])
next
  case (Cons gf gfs)
  obtain c g f' where gf: "gf = (c # g, f')" using Cons.prems(3) by (cases gf; cases "fst gf") auto
  let ?r = "f' @ concat (map (\<lambda>(g, f). g @ f) gfs)"
  have c: "c \<in> set sep" and g: "list_all (\<lambda>c. c \<in> set sep) g" and f': "list_all (\<lambda>c. c \<notin> set sep) f'" "f' \<noteq> []"
    and one: "skip \<or> g = []" using Cons.prems(3) gf by auto
  have k: "find_first_of (f @ c # g @ ?r) sep = Some (length f)" using find_field[OF Cons.prems(1) c] .
  obtain d f'' where d: "f' = d # f''" using f'(2) by (cases f') auto
  have "dropWhile (\<lambda>x. x \<in> set sep) (c # g @ ?r) = ?r"
    using c g f'(1) d by (simp add: dropWhile_append2 list_all_iff)
  then have "split_rest sep skip (f @ c # g @ ?r) = ?r"
    using one k by (auto simp: split_rest_def find_first_not_of_def drop_first_index erase_front_def[of "Some _"])
  moreover have "split_loop sep skip ?r = f' # map snd gfs" using Cons.prems(3) gf f' by (intro Cons.IH) auto
  moreover have "split_loop sep skip (f @ c # g @ ?r) = keep_front (Some (length f)) (f @ c # g @ ?r) #
      split_loop sep skip (split_rest sep skip (f @ c # g @ ?r))"
    using k by (subst split_loop.simps) simp
  ultimately show ?case by (simp add: gf keep_front_def)
qed

lemma strip_text:
  assumes "list_all (\<lambda>c. c \<in> set blanks) (b1 @ b2)" and "s \<noteq> []" and "hd s \<notin> set blanks" and "last s \<notin> set blanks"
  shows "strip (b1 @ s @ b2) = takeWhile (\<lambda>c. c \<noteq> CHR ''#'') s"
proof -
  have front: "erase_front (find_first_not_of (b1 @ s @ b2) blanks) (b1 @ s @ b2) = s @ b2"
    using assms(1-3) unfolding find_first_not_of_def drop_first_index
    by (cases s) (auto simp: dropWhile_append2 list_all_iff)
  have "find_first_not_of (rev b2 @ rev s) blanks = Some (length b2)"
  proof -
    obtain ys y where s: "s = ys @ [y]" "y \<notin> set blanks" using assms(2,4) by (cases s rule: rev_cases) auto
    have "takeWhile (\<lambda>c. c \<in> set blanks) (rev b2 @ y # rev ys) = rev b2"
      using assms(1) s(2) by (subst takeWhile_append2) (auto simp: list_all_iff)
    then show ?thesis by (simp add: find_first_not_of_def first_index_def s(1) Let_def)
  qed
  then have "find_last_not_of (s @ b2) blanks = Some (length s - 1)"
    using assms(2) by (simp add: find_last_not_of_def)
  then show ?thesis
    using assms(2) by (simp add: strip_def front Let_def keep_first_index)
qed

text \<open>
  C30: Splitting.  Fields without separators that are joined by runs of separators are found again,
  also without \<open>skipMultiple\<close> when every run is a single separator; \<^verbatim>\<open>strip\<close> removes the blanks
  around a text without a comment, and everything from the comment sign on.
\<close>

theorem split_strip_correct:
  assumes "list_all (\<lambda>c. c \<notin> set sep) f" and "f \<noteq> []"
    and "list_all (\<lambda>(g, f). g \<noteq> [] \<and> list_all (\<lambda>c. c \<in> set sep) g \<and> list_all (\<lambda>c. c \<notin> set sep) f \<and> f \<noteq> [] \<and>
      (skip \<or> length g = 1)) gfs"
    and "list_all (\<lambda>c. c \<in> set blanks) (b1 @ b2)" and "s \<noteq> []" and "hd s \<notin> set blanks" and "last s \<notin> set blanks"
  shows "split_string (f @ concat (map (\<lambda>(g, f). g @ f) gfs)) sep skip = f # map snd gfs \<and>
    strip (b1 @ s @ b2) = takeWhile (\<lambda>c. c \<noteq> CHR ''#'') s"
proof
  show "split_string (f @ concat (map (\<lambda>(g, f). g @ f) gfs)) sep skip = f # map snd gfs"
    using split_loop_fields[OF assms(1-3)] assms(2) by (simp add: split_string_def)
  show "strip (b1 @ s @ b2) = takeWhile (\<lambda>c. c \<noteq> CHR ''#'') s"
    using assms(4-7) by (rule strip_text)
qed

theorem split_strip_correct_witness:
  "split_string ''ab,,c'' '','' True = [''ab'', ''c''] \<and> strip '' x = 1 '' = ''x = 1''"
  using split_strip_correct[of "'',''" "''ab''" True "[('',,'', ''c'')]" "'' ''" "'' ''" "''x = 1''"]
  by (simp add: blanks_def)

end
