(* ===== verification/Evaluator.thy ===== *)
theory Evaluator
  imports Complex_Main Prelude
begin

text \<open>
  Material tables, \<^verbatim>\<open>src/basis/evaluator/tableevaluator.cpp\<close> and
  \<^verbatim>\<open>tableinterpolationevaluator.cpp\<close>, over any linearly ordered field.  \<open>to_string\<close> stands for
  \<^verbatim>\<open>std::to_string\<close> of a floating-point number.
\<close>

section \<open>Tables of values\<close>

datatype table_property = TEMPERATURE | TIME

record 'a table_evaluator =
  dimension :: nat
  table :: "'a list list list"
  properties :: "table_property list"
  axis :: "'a list list"
  temperatureDependency :: bool
  timeDependency :: bool

definition table_evaluator_new ::
  "'a list list list \<Rightarrow> table_property list \<Rightarrow> 'a list list \<Rightarrow> 'a table_evaluator" where
  "table_evaluator_new tab props axes = \<lparr>dimension = length props, table = tab, properties = props, axis = axes,
     temperatureDependency = list_ex (\<lambda>p. p = TEMPERATURE) props,
     timeDependency = list_ex (\<lambda>p. p = TIME) props\<rparr>"

text \<open>\<^verbatim>\<open>std::find(begin, end, v) - begin\<close>.\<close>

definition std_find :: "'a \<Rightarrow> 'a list \<Rightarrow> nat" where
  "std_find v xs = length (takeWhile (\<lambda>x. x \<noteq> v) xs)"

definition table_cell :: "'a table_evaluator \<Rightarrow> 'a list \<Rightarrow> 'a \<Rightarrow> nat \<Rightarrow> nat list option" where
  "table_cell ev tbegin time j = for_each [0..<dimension ev] (\<lambda>i cell. do {
     p \<leftarrow> rd (properties ev) i;
     xs \<leftarrow> rd (axis ev) i;
     v \<leftarrow> (case p of TEMPERATURE \<Rightarrow> rd tbegin j | TIME \<Rightarrow> Some time);
     wr cell i (std_find v xs)
   }) (replicate (dimension ev) 0)"

definition table_entry :: "'a table_evaluator \<Rightarrow> nat list \<Rightarrow> 'a option" where
  "table_entry ev cell = do {
     c0 \<leftarrow> (if dimension ev > 0 then rd cell 0 else Some 0);
     c1 \<leftarrow> (if dimension ev > 1 then rd cell 1 else Some 0);
     c2 \<leftarrow> (if dimension ev > 2 then rd cell 2 else Some 0);
     t \<leftarrow> rd (table ev) c0;
     t \<leftarrow> rd t c1;
     rd t c2
   }"

definition table_evaluate ::
  "'a table_evaluator \<Rightarrow> nat \<Rightarrow> nat \<Rightarrow> 'a list \<Rightarrow> 'a \<Rightarrow> 'a list \<Rightarrow> 'a list option" where
  "table_evaluate ev size_n increment tbegin time results = for_each [0..<size_n] (\<lambda>j results. do {
     cell \<leftarrow> table_cell ev tbegin time j;
     v \<leftarrow> table_entry ev cell;
     wr results (j * increment) v
   }) results"

text \<open>The expression for the parser; the cell is never moved from the first entry of the table.\<close>

definition getproperty :: "table_property \<Rightarrow> string" where
  "getproperty p = (case p of TEMPERATURE \<Rightarrow> ''TEMPERATURE'' | TIME \<Rightarrow> ''TIME'')"

fun addAxis ::
  "('a \<Rightarrow> string) \<Rightarrow> string \<Rightarrow> (string \<times> 'a list) list \<Rightarrow> string option" where
  "addAxis to_string leaf [] = Some leaf"
| "addAxis to_string leaf ((prop, vals) # axes) = do {
     body \<leftarrow> addAxis to_string leaf axes;
     if vals = [] then None
     else Some (''if(('' @ prop @ ''<'' @ to_string (hd vals) @ ''), '' @ body @ '') + '' @
       concat (map (\<lambda>(a, b). ''if(('' @ prop @ ''<='' @ to_string a @ '' and '' @ prop @ ''<'' @ to_string b @ ''), '' @
         body @ '') + '') (zip vals (tl vals))) @
       ''if(('' @ to_string (last vals) @ ''<'' @ prop @ ''), '' @ body @ '')'')
   }"

definition table_getEXPRTKForm :: "('a \<Rightarrow> string) \<Rightarrow> 'a table_evaluator \<Rightarrow> string option" where
  "table_getEXPRTKForm to_string ev =
    (if dimension ev = 0 \<or> length (axis ev) < dimension ev then None
     else do {
       v \<leftarrow> table_entry ev (replicate (dimension ev) 0);
       addAxis to_string (to_string v @ '', 0'')
         (zip (map getproperty (properties ev)) (take (dimension ev) (axis ev)))
     })"

section \<open>Interpolation\<close>

text \<open>
  The body of the loop of \<^verbatim>\<open>TableInterpolationEvaluator::evaluate\<close> for one point; the flag says
  that the loop over the points is left.
\<close>

definition interpolate ::
  "('a :: linordered_field \<times> 'a) list \<Rightarrow> nat \<Rightarrow> 'a list \<Rightarrow> nat \<Rightarrow> 'a list \<Rightarrow> (bool \<times> 'a list) option" where
  "interpolate tab increment tbegin i results = do {
     t \<leftarrow> rd tbegin i;
     (a0, v0) \<leftarrow> rd tab 0;
     if t < a0 then do {
       results \<leftarrow> wr results (i * increment) v0;
       Some (True, results)
     } else do {
       (_, results) \<leftarrow> for_each [0..<length tab - 1] (\<lambda>j (found, results).
         if found then Some (found, results) else do {
           (a, va) \<leftarrow> rd tab j;
           (b, vb) \<leftarrow> rd tab (j + 1);
           if a < t \<and> t < b then do {
             results \<leftarrow> wr results (i * increment) (va + (vb - va) * (t - a) / (b - a));
             Some (True, results)
           } else Some (False, results)
         }) (False, results);
       (_, v) \<leftarrow> rd tab (length tab - 1);
       results \<leftarrow> wr results (i * increment) v;
       Some (False, results)
     }
   }"

fun interpolation_loop ::
  "('a :: linordered_field \<times> 'a) list \<Rightarrow> nat \<Rightarrow> 'a list \<Rightarrow> nat list \<Rightarrow> 'a list \<Rightarrow> 'a list option" where
  "interpolation_loop tab increment tbegin [] results = Some results"
| "interpolation_loop tab increment tbegin (i # is) results = do {
     (stop, results) \<leftarrow> interpolate tab increment tbegin i results;
     if stop then Some results else interpolation_loop tab increment tbegin is results
   }"

definition interpolation_evaluate ::
  "('a :: linordered_field \<times> 'a) list \<Rightarrow> nat \<Rightarrow> nat \<Rightarrow> 'a list \<Rightarrow> 'a list \<Rightarrow> 'a list option" where
  "interpolation_evaluate tab size_n increment tbegin results =
     interpolation_loop tab increment tbegin [0..<size_n] results"

definition interpolation_getEXPRTKForm ::
  "('a :: linordered_field \<Rightarrow> string) \<Rightarrow> ('a \<times> 'a) list \<Rightarrow> string option" where
  "interpolation_getEXPRTKForm to_string tab =
    (if tab = [] then None
     else Some (''if((TEMPERATURE<'' @ to_string (fst (hd tab)) @ ''), '' @ to_string (snd (hd tab)) @ '', 0) + '' @
       concat (map (\<lambda>((a, va), (b, vb)).
         ''if((TEMPERATURE<='' @ to_string a @ '' and '' @ to_string b @ ''<TEMPERATURE), '' @
         to_string va @ ''+'' @ to_string (vb - va) @ ''*(TEMPERATURE - '' @ to_string a @ ''/'' @ to_string (b - a) @ '')'' @
         '', 0) + '') (zip tab (tl tab))) @
       ''if(('' @ to_string (fst (last tab)) @ ''<TEMPERATURE), '' @ to_string (snd (last tab)) @ '', 0)''))"

section \<open>What the interpolation computes\<close>

lemma interpolate_above:
  fixes tab :: "('a :: linordered_field \<times> 'a) list"
  assumes "tab \<noteq> []" and "i < length tbegin" and "i * increment < length results" and "fst (hd tab) \<le> tbegin ! i"
  shows "interpolate tab increment tbegin i results = Some (False, results[i * increment := snd (last tab)])"
proof -
  let ?k = "i * increment" and ?t = "tbegin ! i"
  let ?body = "\<lambda>j (found, results).
         if found then Some (found, results) else do {
           (a, va) \<leftarrow> rd tab j;
           (b, vb) \<leftarrow> rd tab (j + 1);
           if a < ?t \<and> ?t < b then do {
             results \<leftarrow> wr results ?k (va + (vb - va) * (?t - a) / (b - a));
             Some (True, results)
           } else Some (False, results)
         }"
  have "\<exists>s. for_each [0..<length tab - 1] ?body (False, results) = Some s \<and> (\<exists>x. snd s = results[?k := x])"
  proof (rule for_each_upt)
    show "\<exists>x. snd (False, results) = results[?k := x]" by (metis list_update_id snd_conv)
    fix j and s :: "bool \<times> 'a list" assume j: "j < length tab - 1" and "\<exists>x. snd s = results[?k := x]"
    then obtain f x where s: "s = (f, results[?k := x])" by (cases s) auto
    obtain a va b vb where t: "tab ! j = (a, va)" "tab ! Suc j = (b, vb)" by (metis surj_pair)
    have w: "wr (results[?k := x]) ?k y = Some (results[?k := y])" for y using assms(3) by (simp add: wr_Some)
    show "\<exists>u. ?body j s = Some u \<and> (\<exists>x. snd u = results[?k := x])"
      using j t w by (auto simp: s rd_Some)
  qed simp
  then obtain f x where loop: "for_each [0..<length tab - 1] ?body (False, results) = Some (f, results[?k := x])" by auto
  obtain a0 v0 where t0: "tab ! 0 = (a0, v0)" "a0 \<le> ?t" using assms(1,4) by (cases "hd tab") (auto simp: hd_conv_nth)
  have l: "last tab = tab ! (length tab - 1)" using assms(1) by (simp add: last_conv_nth)
  obtain a v where tl: "tab ! (length tab - 1) = (a, v)" by (cases "tab ! (length tab - 1)")
  show ?thesis
    using assms(1-3) t0 loop tl by (simp add: interpolate_def rd_Some wr_Some not_less[THEN iffD2] l)
qed

text \<open>
  C40: Interpolation has no effect.  For points that are not below the table,
  \<^verbatim>\<open>TableInterpolationEvaluator::evaluate\<close> stores the last value of the table for every point:
  the value interpolated in the inner loop is overwritten, because its \<^verbatim>\<open>break\<close> leaves the inner
  loop only.  The first point below the table gets the first value, and the points behind it
  keep their old results, because that \<^verbatim>\<open>break\<close> leaves the outer loop.
\<close>

theorem interpolation_ineffective:
  assumes "tab \<noteq> []" and "0 < increment" and "n \<le> size_n" and "size_n \<le> length tbegin"
    and "size_n * increment \<le> length results" and "list_all (\<lambda>t. fst (hd tab) \<le> t) (take n tbegin)"
    and "n = size_n \<or> tbegin ! n < fst (hd tab)"
  shows "interpolation_evaluate tab size_n increment tbegin results =
    (let results = fold (\<lambda>i results. results[i * increment := snd (last tab)]) [0..<n] results in
     Some (if n = size_n then results else results[n * increment := snd (hd tab)]))"
proof -
  let ?f = "\<lambda>i results. results[i * increment := snd (last tab)]"
  have bound: "i * increment < length results" if "i < size_n" for i
  proof -
    have "i * increment < size_n * increment" using that assms(2) by simp
    also note assms(5)
    finally show ?thesis .
  qed
  have len: "length (fold ?f is rs) = length rs" for "is" rs by (induction "is" arbitrary: rs) auto
  have loop: "interpolation_loop tab increment tbegin ([k..<n] @ is) rs =
      interpolation_loop tab increment tbegin is (fold ?f [k..<n] rs)" if "length rs = length results" for k "is" rs
    using that
  proof (induction "n - k" arbitrary: k rs)
    case (Suc d)
    then have k: "k < n" by simp
    then have "fst (hd tab) \<le> tbegin ! k" using assms(3,4,6) by (auto simp: list_all_length)
    then have "interpolate tab increment tbegin k rs = Some (False, ?f k rs)"
      using k assms(1,3,4) bound[of k] Suc.prems by (intro interpolate_above) auto
    then show ?case using Suc.hyps(1)[of "Suc k" "?f k rs"] Suc.hyps(2) Suc.prems k by (simp add: upt_conv_Cons)
  qed simp
  have split: "[0..<size_n] = [0..<n] @ [n..<size_n]" using upt_add_eq_append[of 0 n "size_n - n"] assms(3) by simp
  show ?thesis
  proof (cases "n = size_n")
    case True
    then show ?thesis using loop[of results 0 "[]"] by (simp add: interpolation_evaluate_def)
  next
    case False
    then have n: "n < size_n" using assms(3) by simp
    have below: "tbegin ! n < fst (tab ! 0)" using assms(1,7) False by (simp add: hd_conv_nth)
    have "interpolate tab increment tbegin n rs = Some (True, rs[n * increment := snd (hd tab)])"
      if "length rs = length results" for rs
      using below n assms(1,4) bound[OF n] that
      by (cases "tab ! 0") (simp add: interpolate_def rd_Some wr_Some hd_conv_nth)
    then show ?thesis
      using loop[of results 0 "[n..<size_n]"] n False
      by (simp add: interpolation_evaluate_def split upt_conv_Cons len)
  qed
qed

theorem interpolation_ineffective_witness:
  "interpolation_evaluate [(0, 0), (10, 100 :: real)] 2 1 [5, 5] [0, 0] = Some [100, 100]"
  using interpolation_ineffective[of "[(0, 0), (10, 100 :: real)]" 1 2 2 "[5, 5]" "[0, 0]"]
  by (simp add: upt_rec)

section \<open>What the table lookup computes\<close>

lemma std_find_nth: "v \<in> set xs \<Longrightarrow> std_find v xs < length xs \<and> xs ! std_find v xs = v"
  unfolding std_find_def by (induction xs) auto

lemma table_cell_ok:
  assumes "length (properties ev) = dimension ev" and "length (axis ev) = dimension ev" and "j < length tbegin"
  shows "table_cell ev tbegin time j = Some (map (\<lambda>i.
    std_find (case properties ev ! i of TEMPERATURE \<Rightarrow> tbegin ! j | TIME \<Rightarrow> time) (axis ev ! i)) [0..<dimension ev])"
proof -
  let ?v = "\<lambda>i. case properties ev ! i of TEMPERATURE \<Rightarrow> tbegin ! j | TIME \<Rightarrow> time"
  let ?I = "\<lambda>k cell. length cell = dimension ev \<and> (\<forall>i < k. cell ! i = std_find (?v i) (axis ev ! i))"
  have "\<exists>cell. table_cell ev tbegin time j = Some cell \<and> ?I (dimension ev) cell"
    unfolding table_cell_def
  proof (rule for_each_upt[where I = ?I])
    fix i cell assume i: "i < dimension ev" and I: "?I i cell"
    then have "(case properties ev ! i of TEMPERATURE \<Rightarrow> rd tbegin j | TIME \<Rightarrow> Some time) = Some (?v i)"
      using assms(3) by (auto simp: rd_Some split: table_property.splits)
    then show "\<exists>u. (do { p \<leftarrow> rd (properties ev) i; xs \<leftarrow> rd (axis ev) i;
        v \<leftarrow> (case p of TEMPERATURE \<Rightarrow> rd tbegin j | TIME \<Rightarrow> Some time); wr cell i (std_find v xs) }) = Some u \<and> ?I (Suc i) u"
      using i I assms(1,2) by (auto simp: rd_Some wr_Some less_Suc_eq)
  qed simp_all
  then show ?thesis by (auto intro!: nth_equalityI)
qed

end
