(* ===== verification/BasisMatrix.thy ===== *)
theory BasisMatrix
  imports SparseMatrix
begin

text \<open>
  The matrices of \<^verbatim>\<open>src/basis/matrices\<close> through which the assembler hands its entries to the
  solver: a vector of (column, value) pairs per row, compressed rows, a dense matrix, and the
  solver's object.  Values are added without rounding.  Indices are unbounded.
\<close>

named_theorems vvp_simps "entries of a row"

section \<open>Vectors of value pairs\<close>

record 'v vvp =
  v_rows :: nat
  v_columns :: nat
  v_values :: "(int \<times> 'v) list list"

definition vvp_new :: "nat \<Rightarrow> nat \<Rightarrow> 'v vvp" where
  "vvp_new r c = \<lparr>v_rows = r, v_columns = c, v_values = replicate r []\<rparr>"

definition vvp_resize :: "nat \<Rightarrow> nat \<Rightarrow> 'v vvp \<Rightarrow> 'v vvp" where
  "vvp_resize r c m = m\<lparr>v_rows := r, v_columns := c,
     v_values := take r (v_values m) @ replicate (r - length (v_values m)) []\<rparr>"

text \<open>The body of \<^verbatim>\<open>operator()\<close> and \<^verbatim>\<open>set\<close>: room for the position, and a new entry.\<close>

definition vvp_push :: "nat \<Rightarrow> nat \<Rightarrow> 'v \<Rightarrow> 'v vvp \<Rightarrow> 'v vvp option" where
  "vvp_push row column value m = do {
     let m = (if length (v_values m) \<le> row
       then m\<lparr>v_values := v_values m @ replicate (row + 1 - length (v_values m)) [], v_rows := row + 1\<rparr> else m);
     let m = (if v_columns m \<le> column then m\<lparr>v_columns := column + 1\<rparr> else m);
     r \<leftarrow> rd (v_values m) row;
     vs \<leftarrow> wr (v_values m) row (r @ [(int column, value)]);
     Some (m\<lparr>v_values := vs\<rparr>)
   }"

text \<open>\<^verbatim>\<open>m(row, column) = value\<close> and \<^verbatim>\<open>m(row, column) += value\<close> store into the new entry.\<close>

definition vvp_at :: "nat \<Rightarrow> nat \<Rightarrow> 'v :: zero \<Rightarrow> 'v vvp \<Rightarrow> 'v vvp option" where
  "vvp_at row column value m = do {
     m \<leftarrow> vvp_push row column 0 m;
     r \<leftarrow> rd (v_values m) row;
     if r = [] then None
     else do { vs \<leftarrow> wr (v_values m) row (butlast r @ [(fst (last r), value)]); Some (m\<lparr>v_values := vs\<rparr>) }
   }"

definition vvp_set :: "nat \<Rightarrow> nat \<Rightarrow> 'v :: zero \<Rightarrow> 'v vvp \<Rightarrow> 'v vvp option" where
  "vvp_set row column value m = (if value \<noteq> 0 then vvp_push row column value m else Some m)"

definition vvp_get :: "'v :: monoid_add vvp \<Rightarrow> nat \<Rightarrow> nat \<Rightarrow> 'v option" where
  "vvp_get m row column = do {
     r \<leftarrow> rd (v_values m) row;
     for_each [0..<length r] (\<lambda>i value. do {
       e \<leftarrow> rd r i;
       Some (if fst e = int column then value + snd e else value)
     }) 0
   }"

definition vvp_nonZeroValues :: "'v vvp \<Rightarrow> nat option" where
  "vvp_nonZeroValues m = for_each [0..<v_rows m] (\<lambda>row s. do { r \<leftarrow> rd (v_values m) row; Some (s + length r) }) 0"

definition vvp_sort :: "'v vvp \<Rightarrow> 'v vvp option" where
  "vvp_sort m = do {
     vs \<leftarrow> for_each [0..<v_rows m] (\<lambda>row vs. do { r \<leftarrow> rd vs row; wr vs row (sort_key fst r) }) (v_values m);
     Some (m\<lparr>v_values := vs\<rparr>)
   }"

text \<open>
  \<^verbatim>\<open>shrink\<close> adds up equal columns in place.  The order of equal columns after \<^verbatim>\<open>std::sort\<close> is
  left open by the standard; it does not change the sums.
\<close>

definition shrink_row :: "(int \<times> 'v :: comm_monoid_add) list \<Rightarrow> (int \<times> 'v) list option" where
  "shrink_row r = do {
     let r = sort_key fst r;
     (r, unique) \<leftarrow> for_each [1..<length r] (\<lambda>j (r, unique). do {
       a \<leftarrow> rd r (j - 1);
       b \<leftarrow> rd r j;
       if fst a = fst b then do {
         u \<leftarrow> rd r unique;
         r \<leftarrow> wr r unique (fst u, snd u + snd b);
         Some (r, unique)
       } else do {
         r \<leftarrow> wr r (unique + 1) b;
         Some (r, unique + 1)
       }
     }) (r, 0);
     Some (take (unique + 1) r @ replicate (unique + 1 - length r) (0, 0))
   }"

definition vvp_shrink :: "'v :: comm_monoid_add vvp \<Rightarrow> 'v vvp option" where
  "vvp_shrink m = do {
     vs \<leftarrow> for_each [0..<v_rows m] (\<lambda>row vs. do { r \<leftarrow> rd vs row; r \<leftarrow> shrink_row r; wr vs row r }) (v_values m);
     Some (m\<lparr>v_values := vs\<rparr>)
   }"

section \<open>Compressed rows\<close>

record 'v csr =
  c_rows :: nat
  c_columns :: nat
  c_indexing :: int
  c_rowPtrs :: "int list"
  c_columnIndices :: "int list"
  c_values :: "'v list"

definition csr_new :: "nat \<Rightarrow> nat \<Rightarrow> 'v csr" where
  "csr_new r c = \<lparr>c_rows = r, c_columns = c, c_indexing = 1, c_rowPtrs = replicate (r + 1) 1,
     c_columnIndices = [], c_values = []\<rparr>"

definition csr_resize :: "nat \<Rightarrow> nat \<Rightarrow> 'v csr \<Rightarrow> 'v csr option" where
  "csr_resize r c m = (if c_rowPtrs m = [] then None
     else Some (m\<lparr>c_rows := r, c_columns := c, c_rowPtrs := take (r + 1) (c_rowPtrs m) @
       replicate (r + 1 - length (c_rowPtrs m)) (last (c_rowPtrs m))\<rparr>))"

text \<open>The constructor from pairs; it shrinks its argument, which is returned too.\<close>

definition csr_of_vvp :: "'v :: comm_monoid_add vvp \<Rightarrow> ('v csr \<times> 'v vvp) option" where
  "csr_of_vvp other = do {
     other \<leftarrow> vvp_shrink other;
     let indexing = 1;
     (ptrs, js, vs) \<leftarrow> for_each [0..<v_rows other] (\<lambda>row (ptrs, js, vs). do {
       r \<leftarrow> rd (v_values other) row;
       (js, vs) \<leftarrow> for_each [0..<length r] (\<lambda>column (js, vs). do {
         e \<leftarrow> rd r column;
         Some (js @ [fst e + indexing], vs @ [snd e])
       }) (js, vs);
       Some (ptrs @ [int (length vs) + indexing], js, vs)
     }) ([indexing], [], []);
     Some (\<lparr>c_rows = v_rows other, c_columns = v_columns other, c_indexing = indexing,
       c_rowPtrs = ptrs, c_columnIndices = js, c_values = vs\<rparr>, other)
   }"

text \<open>Assignment of pairs copies the size and takes over the three vectors.\<close>

definition csr_assign_vvp :: "'v :: comm_monoid_add vvp \<Rightarrow> 'v csr \<Rightarrow> ('v csr \<times> 'v vvp) option" where
  "csr_assign_vvp other this = do {
     (tmp, other) \<leftarrow> csr_of_vvp other;
     Some (this\<lparr>c_rows := c_rows tmp, c_columns := c_columns tmp, c_rowPtrs := c_rowPtrs tmp,
       c_columnIndices := c_columnIndices tmp, c_values := c_values tmp\<rparr>, other)
   }"

fun csr_scan :: "'v :: zero csr \<Rightarrow> int \<Rightarrow> int list \<Rightarrow> 'v option" where
  "csr_scan m column [] = Some 0"
| "csr_scan m column (i # is) = do {
     c \<leftarrow> rdi (c_columnIndices m) (i - c_indexing m);
     if c = column + c_indexing m then rdi (c_values m) (i - c_indexing m) else csr_scan m column is
   }"

definition csr_get :: "'v :: zero csr \<Rightarrow> nat \<Rightarrow> nat \<Rightarrow> 'v option" where
  "csr_get m row column = do {
     a \<leftarrow> rd (c_rowPtrs m) row;
     b \<leftarrow> rd (c_rowPtrs m) (row + 1);
     csr_scan m (int column) [a..b - 1]
   }"

section \<open>Dense matrices\<close>

record 'v dense =
  d_rows :: nat
  d_columns :: nat
  d_values :: "'v list"

definition dense_new :: "nat \<Rightarrow> nat \<Rightarrow> 'v :: zero dense" where
  "dense_new r c = \<lparr>d_rows = r, d_columns = c, d_values = replicate (r * c) 0\<rparr>"

definition dense_get :: "'v dense \<Rightarrow> nat \<Rightarrow> nat \<Rightarrow> 'v option" where
  "dense_get m row column = rd (d_values m) (row * d_columns m + column)"

definition dense_set :: "nat \<Rightarrow> nat \<Rightarrow> 'v \<Rightarrow> 'v dense \<Rightarrow> 'v dense option" where
  "dense_set row column value m = do {
     vs \<leftarrow> wr (d_values m) (row * d_columns m + column) value;
     Some (m\<lparr>d_values := vs\<rparr>)
   }"

definition dense_resize :: "nat \<Rightarrow> nat \<Rightarrow> 'v :: zero dense \<Rightarrow> 'v dense" where
  "dense_resize r c m = m\<lparr>d_rows := r, d_columns := c,
     d_values := take (r * c) (d_values m) @ replicate (r * c - length (d_values m)) 0\<rparr>"

definition dense_fill :: "'v \<Rightarrow> 'v dense \<Rightarrow> 'v dense" where
  "dense_fill value m = m\<lparr>d_values := replicate (length (d_values m)) value\<rparr>"

definition dense_nonZeroValues :: "'v :: zero dense \<Rightarrow> nat" where
  "dense_nonZeroValues m = length (filter (\<lambda>v. v \<noteq> 0) (d_values m))"

definition dense_add :: "'v :: plus dense \<Rightarrow> 'v dense \<Rightarrow> 'v dense option" where
  "dense_add other this = for_each [0..<d_rows other] (\<lambda>r m.
     for_each [0..<d_columns other] (\<lambda>c m. do {
       a \<leftarrow> dense_get m r c;
       b \<leftarrow> dense_get other r c;
       dense_set r c (a + b) m
     }) m) this"

definition dense_of_csr :: "'v :: zero csr \<Rightarrow> 'v dense option" where
  "dense_of_csr other = for_each [0..<c_rows other] (\<lambda>r m. do {
     a \<leftarrow> rd (c_rowPtrs other) r;
     b \<leftarrow> rd (c_rowPtrs other) (r + 1);
     for_each [a..b - 1] (\<lambda>i m. do {
       c \<leftarrow> rdi (c_columnIndices other) (i - c_indexing other);
       v \<leftarrow> rdi (c_values other) (i - c_indexing other);
       if c - c_indexing other < 0 then None else dense_set r (nat (c - c_indexing other)) v m
     }) m
   }) (dense_new (c_rows other) (c_columns other))"

section \<open>The object of the solver\<close>

text \<open>\<^verbatim>\<open>SparseMatrix::operator=(const SparseCSRMatrix&)\<close>; \<^verbatim>\<open>resize\<close> fills with zeros.\<close>

definition sm_assign_csr ::
  "'v :: zero csr \<Rightarrow> ('v, 'f) sparse_matrix \<Rightarrow> ('v, 'f) sparse_matrix option" where
  "sm_assign_csr A this = do {
     last_ptr \<leftarrow> rd (c_rowPtrs A) (c_rows A);
     first \<leftarrow> rd (c_rowPtrs A) 0;
     let offset = (if first \<noteq> 0 then 0 else 1);
     let n = last_ptr - first;
     is \<leftarrow> vresize (int (c_rows A) + 1) 0 (CSR_I_row_indices this);
     js \<leftarrow> vresize n 0 (CSR_J_col_indices this);
     vs \<leftarrow> vresize n 0 (CSR_V_values this);
     is \<leftarrow> for_each [0..<length is] (\<lambda>i is. do { p \<leftarrow> rd (c_rowPtrs A) i; wr is i (p + offset) }) is;
     js \<leftarrow> for_each [0..<length js] (\<lambda>i js. do { c \<leftarrow> rd (c_columnIndices A) i; wr js i (c + offset) }) js;
     src \<leftarrow> range_i (c_values A) 0 n;
     Some (this\<lparr>rows := int (c_rows A), cols := int (c_columns A), nnz := n, mat_type := CHR ''G'',
       mtype := REAL_UNSYMMETRIC, USE_FLOAT := False,
       CSR_I_row_indices := is, CSR_J_col_indices := js, CSR_V_values := src @ drop (length src) vs,
       d_dense_values := 0, d_x_in := 0, d_y_out := 0,
       d_dense_values_fl := 0, d_x_in_fl := 0, d_y_out_fl := 0\<rparr>)
   }"

text \<open>
  The constructor from compressed rows runs on a new object and takes the type from its argument;
  it leaves \<^verbatim>\<open>uplo\<close> and \<^verbatim>\<open>extern_lda\<close> uninitialised.
\<close>

definition sm_of_csr :: "char \<Rightarrow> int \<Rightarrow> 'v :: zero csr \<Rightarrow> char \<Rightarrow> ('v, 'f) sparse_matrix option" where
  "sm_of_csr raw raw_lda A type_in = map_option (\<lambda>M. M\<lparr>mat_type := type_in\<rparr>)
     (sm_assign_csr A (sm_new\<lparr>uplo := raw, extern_lda := raw_lda\<rparr>))"

section \<open>Entries of a row\<close>

definition row_sum :: "(int \<times> 'v :: comm_monoid_add) list \<Rightarrow> int \<Rightarrow> 'v" where
  "row_sum r c = sum_list (map snd (filter (\<lambda>e. fst e = c) r))"

lemma row_sum_simps [vvp_simps]:
  "row_sum [] c = 0" "row_sum (e # r) c = (if fst e = c then snd e + row_sum r c else row_sum r c)"
  "row_sum (r @ r') c = row_sum r c + row_sum r' c"
  by (simp_all add: row_sum_def)

lemma row_sum_mset: "mset r = mset r' \<Longrightarrow> row_sum r = row_sum r'"
proof
  fix c assume "mset r = mset r'"
  then have "mset (map snd (filter (\<lambda>e. fst e = c) r)) = mset (map snd (filter (\<lambda>e. fst e = c) r'))" by simp
  then show "row_sum r c = row_sum r' c" unfolding row_sum_def by (metis sum_mset_sum_list)
qed

lemma row_sum_update:
  assumes "u < length r" and "fst (r ! u) = fst e"
  shows "row_sum (r[u := (fst (r ! u), snd (r ! u) + snd e)]) c = row_sum r c + (if fst e = c then snd e else 0)"
proof -
  have "row_sum r c = row_sum (take u r) c + row_sum (r ! u # drop (Suc u) r) c"
    using arg_cong[OF id_take_nth_drop[OF assms(1)], of "\<lambda>x. row_sum x c"] by (simp only: vvp_simps(3))
  then show ?thesis
    using assms(2) by (simp add: upd_conv_take_nth_drop[OF assms(1)] vvp_simps ac_simps)
qed

lemma row_sum_take_Suc: "j < length r \<Longrightarrow> row_sum (take (Suc j) r) c = row_sum (take j r) c + (if fst (r ! j) = c then snd (r ! j) else 0)"
  by (simp add: take_Suc_conv_app_nth vvp_simps)

lemma vvp_get_sum: "row < length (v_values m) \<Longrightarrow> vvp_get m row column = Some (row_sum (v_values m ! row) (int column))"
proof -
  assume row: "row < length (v_values m)"
  let ?r = "v_values m ! row"
  have "\<exists>v. for_each [0..<length ?r] (\<lambda>i value. do { e \<leftarrow> rd ?r i;
      Some (if fst e = int column then value + snd e else value) }) 0 = Some v \<and> v = row_sum (take (length ?r) ?r) (int column)"
    by (rule for_each_upt[where I = "\<lambda>k v. v = row_sum (take k ?r) (int column)"])
      (auto simp: vvp_simps rd_Some row_sum_take_Suc)
  then show ?thesis using row by (simp add: vvp_get_def rd_Some)
qed

text \<open>The loop of \<open>shrink_row\<close>: the merged entries in front, the rest as sorted behind.\<close>

definition shrunk :: "(int \<times> 'v :: comm_monoid_add) list \<Rightarrow> nat \<Rightarrow> (int \<times> 'v) list \<times> nat \<Rightarrow> bool" where
  "shrunk s j st \<longleftrightarrow> (case st of (r, u) \<Rightarrow> length r = length s \<and> u < j \<and> drop j r = drop j s \<and>
     fst (r ! (j - 1)) = fst (s ! (j - 1)) \<and> fst (r ! u) = fst (s ! (j - 1)) \<and>
     sorted_wrt (<) (map fst (take (u + 1) r)) \<and> row_sum (take (u + 1) r) = row_sum (take j s) \<and>
     fst ` set (take (u + 1) r) = fst ` set (take j s))"

lemma shrink_step:
  assumes j: "1 \<le> j" "j < length s" and srt: "sorted (map fst s)" and I: "shrunk s j (r, u)"
  shows "if fst (r ! (j - 1)) = fst (r ! j)
    then shrunk s (Suc j) (r[u := (fst (r ! u), snd (r ! u) + snd (r ! j))], u)
    else shrunk s (Suc j) (r[u + 1 := r ! j], u + 1)"
proof -
  have len: "length r = length s" and u: "u < j" and rest: "drop j r = drop j s"
    and f: "fst (r ! (j - 1)) = fst (s ! (j - 1))" "fst (r ! u) = fst (s ! (j - 1))"
    and so: "sorted_wrt (<) (map fst (take (u + 1) r))" and sum: "row_sum (take (u + 1) r) = row_sum (take j s)"
    and st: "fst ` set (take (u + 1) r) = fst ` set (take j s)"
    using I by (auto simp: shrunk_def)
  have rj: "r ! j = s ! j" using rest len j by (metis hd_drop_conv_nth)
  have rest': "drop (Suc j) r = drop (Suc j) s" using rest by (metis drop_Suc tl_drop)
  have le: "fst (s ! (j - 1)) \<le> fst (s ! j)" using sorted_nth_mono[OF srt, of "j - 1" j] j by simp
  show ?thesis
  proof (cases "fst (r ! (j - 1)) = fst (r ! j)")
    case True
    let ?e = "(fst (r ! u), snd (r ! u) + snd (r ! j))"
    have tk: "take (u + 1) (r[u := ?e]) = (take (u + 1) r)[u := ?e]" by (simp add: take_update_swap)
    have "row_sum (take (u + 1) (r[u := ?e])) c = row_sum (take (Suc j) s) c" for c
    proof -
      have "row_sum ((take (u + 1) r)[u := ?e]) c = row_sum (take (u + 1) r) c + (if fst (r ! j) = c then snd (r ! j) else 0)"
        using row_sum_update[of u "take (u + 1) r" "r ! j" c] True f u j len by simp
      then show ?thesis unfolding tk row_sum_take_Suc[OF j(2)] sum by (simp only: rj)
    qed
    moreover have "map fst (take (u + 1) (r[u := ?e])) = map fst (take (u + 1) r)"
      unfolding tk using u j len by (intro nth_equalityI) (auto simp: nth_list_update)
    moreover have "fst ` set (take (Suc j) s) = fst ` set (take j s)"
    proof -
      have "s ! (j - 1) \<in> set (take j s)" using j by (auto simp: in_set_conv_nth intro!: exI[of _ "j - 1"])
      then have "fst (s ! j) \<in> fst ` set (take j s)" using True f rj by (metis imageI)
      then show ?thesis using j by (simp add: take_Suc_conv_app_nth insert_absorb)
    qed
    ultimately show ?thesis
      using True f rj u j len rest' so st by (auto simp: shrunk_def nth_list_update simp flip: set_map)
  next
    case False
    then have lt: "fst (r ! u) < fst (s ! j)" using le f rj by simp
    have tk: "take (Suc (Suc u)) (r[Suc u := s ! j]) = take (Suc u) r @ [s ! j]"
      using u j len by (simp add: take_Suc_conv_app_nth)
    have at_j: "r[Suc u := s ! j] ! j = s ! j" using rj len j by (cases "Suc u = j") simp_all
    have last: "take (u + 1) r = take u r @ [r ! u]" using u j len by (simp add: take_Suc_conv_app_nth)
    have "sorted_wrt (<) (map fst (take (u + 1) r @ [s ! j]))"
    proof -
      have "sorted_wrt (<) (map fst (take u r) @ [fst (r ! u)])" using so unfolding last by simp
      then have "x < fst (s ! j)" if "x \<in> set (map fst (take (u + 1) r))" for x
        using that lt unfolding last by (fastforce simp: sorted_wrt_append)
      then show ?thesis using so by (simp add: sorted_wrt_append)
    qed
    moreover have "row_sum (take (u + 1) r @ [s ! j]) = row_sum (take (Suc j) s)"
      using sum j by (auto simp: vvp_simps row_sum_take_Suc fun_eq_iff)
    moreover have "fst ` set (take (u + 1) r @ [s ! j]) = fst ` set (take (Suc j) s)"
      using st j by (simp add: take_Suc_conv_app_nth)
    ultimately show ?thesis
      using False f u j len rest' unfolding rj by (simp add: shrunk_def tk at_j)
  qed
qed

lemma shrink_row_ok:
  "\<exists>s. shrink_row r = Some s \<and> sorted_wrt (<) (map fst s) \<and> row_sum s = row_sum r \<and>
    fst ` set s = (if r = [] then {0} else fst ` set r)"
proof (cases "r = []")
  case True
  then show ?thesis by (simp add: shrink_row_def row_sum_def fun_eq_iff)
next
  case False
  define s where "s = sort_key fst r"
  have s: "length s = length r" "mset s = mset r" "sorted (map fst s)" "s \<noteq> []" "set s = set r"
    using False by (simp_all add: s_def) (metis False length_0_conv length_sort)
  let ?body = "\<lambda>j (r, unique). do {
       a \<leftarrow> rd r (j - 1);
       b \<leftarrow> rd r j;
       if fst a = fst b then do {
         u \<leftarrow> rd r unique;
         r \<leftarrow> wr r unique (fst u, snd u + snd b);
         Some (r, unique)
       } else do {
         r \<leftarrow> wr r (unique + 1) b;
         Some (r, unique + 1)
       }
     }"
  have "\<exists>t. for_each [1..<length s] ?body (s, 0) = Some t \<and> shrunk s (length s) t"
  proof (rule for_each_upt)
    show "1 \<le> length s" using s(4) by (simp add: Suc_le_eq)
    have "take 1 s = [hd s]" "s ! 0 = hd s" using s(4) by (cases s; simp)+
    then show "shrunk s 1 (s, 0)" by (simp add: shrunk_def)
    fix j t assume j: "1 \<le> j" "j < length s" and I: "shrunk s j t"
    obtain q u where t: "t = (q, u)" by (cases t)
    have len: "length q = length s" "u < j" using I by (auto simp: shrunk_def t)
    show "\<exists>v. ?body j t = Some v \<and> shrunk s (Suc j) v"
      using shrink_step[OF j s(3) I[unfolded t]] j len by (auto simp: t rd_Some wr_Some)
  qed
  then obtain q u where q: "for_each [1..<length s] ?body (s, 0) = Some (q, u)" "shrunk s (length s) (q, u)" by auto
  then have "shrink_row r = Some (take (u + 1) q)"
    by (simp add: shrink_row_def s_def[symmetric] Let_def shrunk_def)
  moreover have "row_sum s = row_sum r" by (rule row_sum_mset[OF s(2)])
  ultimately show ?thesis using q(2) False s(5) by (simp add: shrunk_def)
qed

definition vvp_ok :: "'v vvp \<Rightarrow> bool" where
  "vvp_ok m \<longleftrightarrow> length (v_values m) = v_rows m \<and>
     list_all (list_all (\<lambda>e. 0 \<le> fst e \<and> fst e < int (v_columns m))) (v_values m)"

lemma vvp_shrink_ok:
  assumes "length (v_values m) = v_rows m"
  shows "\<exists>m'. vvp_shrink m = Some m' \<and> v_rows m' = v_rows m \<and> v_columns m' = v_columns m \<and>
    v_values m' = map (the \<circ> shrink_row) (v_values m)"
proof -
  let ?I = "\<lambda>k vs. vs = map (the \<circ> shrink_row) (take k (v_values m)) @ drop k (v_values m)"
  have "\<exists>vs. for_each [0..<v_rows m] (\<lambda>row vs. do { r \<leftarrow> rd vs row; r \<leftarrow> shrink_row r; wr vs row r }) (v_values m) = Some vs \<and>
      ?I (v_rows m) vs"
  proof (rule for_each_upt[where I = ?I])
    fix k vs assume k: "k < v_rows m" and I: "?I k vs"
    have "vs ! k = v_values m ! k" "k < length vs" using I k assms by (auto simp: nth_append)
    moreover obtain s where "shrink_row (v_values m ! k) = Some s" using shrink_row_ok by blast
    moreover have "vs[k := x] = map (the \<circ> shrink_row) (take k (v_values m)) @ x # drop (Suc k) (v_values m)" for x
      using I k assms by (simp add: list_update_append Cons_nth_drop_Suc[symmetric])
    ultimately show "\<exists>vs'. (do { r \<leftarrow> rd vs k; r \<leftarrow> shrink_row r; wr vs k r }) = Some vs' \<and> ?I (Suc k) vs'"
      using k assms by (simp add: rd_Some wr_Some take_Suc_conv_app_nth)
  qed simp_all
  then show ?thesis using assms by (auto simp: vvp_shrink_def)
qed

lemma shrink_row_facts:
  shows "sorted_wrt (<) (map fst (the (shrink_row r)))" and "row_sum (the (shrink_row r)) = row_sum r"
    and "fst ` set (the (shrink_row r)) = (if r = [] then {0} else fst ` set r)"
proof -
  obtain s where "shrink_row r = Some s" "sorted_wrt (<) (map fst s)" "row_sum s = row_sum r"
    "fst ` set s = (if r = [] then {0} else fst ` set r)" using shrink_row_ok[of r] by blast
  then show "sorted_wrt (<) (map fst (the (shrink_row r)))" and "row_sum (the (shrink_row r)) = row_sum r"
    and "fst ` set (the (shrink_row r)) = (if r = [] then {0} else fst ` set r)" by simp_all
qed

section \<open>Compressed rows of a vector of pairs\<close>

definition csr_holds :: "'v csr \<Rightarrow> 'v sparse_rows \<Rightarrow> bool" where
  "csr_holds A rws \<longleftrightarrow> c_rows A = length rws \<and> c_indexing A = 1 \<and> c_rowPtrs A = csr_ptrs rws \<and>
     c_columnIndices A = map fst (concat rws) \<and> c_values A = map snd (concat rws)"

definition one_based :: "(int \<times> 'v) list list \<Rightarrow> 'v sparse_rows" where
  "one_based rws = map (map (\<lambda>e. (fst e + 1, snd e))) rws"

lemma csr_of_vvp_ok:
  assumes "length (v_values m) = v_rows m"
  shows "\<exists>A m'. csr_of_vvp m = Some (A, m') \<and> v_rows m' = v_rows m \<and> v_columns m' = v_columns m \<and>
    v_values m' = map (the \<circ> shrink_row) (v_values m) \<and>
    csr_holds A (one_based (v_values m')) \<and> c_columns A = v_columns m"
proof -
  obtain m' where m': "vvp_shrink m = Some m'" "v_rows m' = v_rows m" "v_columns m' = v_columns m"
    "v_values m' = map (the \<circ> shrink_row) (v_values m)" using vvp_shrink_ok[OF assms] by blast
  have len: "length (v_values m') = v_rows m'" using m' assms by simp
  let ?rws = "one_based (v_values m')"
  let ?I = "\<lambda>k st. st = (csr_ptrs (take k ?rws), map fst (concat (take k ?rws)), map snd (concat (take k ?rws)))"
  have inner: "for_each [0..<length r] (\<lambda>column (js, vs). do { e \<leftarrow> rd r column; Some (js @ [fst e + 1], vs @ [snd e]) }) (js, vs) =
      Some (js @ map (\<lambda>e. fst e + 1) r, vs @ map snd r)" for r :: "(int \<times> 'a) list" and js vs
  proof -
    have "\<exists>t. for_each [0..<length r] (\<lambda>column (js, vs). do { e \<leftarrow> rd r column; Some (js @ [fst e + 1], vs @ [snd e]) }) (js, vs) = Some t \<and>
        t = (js @ map (\<lambda>e. fst e + 1) (take (length r) r), vs @ map snd (take (length r) r))"
      by (rule for_each_upt[where I = "\<lambda>k t. t = (js @ map (\<lambda>e. fst e + 1) (take k r), vs @ map snd (take k r))"])
        (auto simp: rd_Some take_Suc_conv_app_nth)
    then show ?thesis by simp
  qed
  have "\<exists>st. for_each [0..<v_rows m'] (\<lambda>row (ptrs, js, vs). do {
       r \<leftarrow> rd (v_values m') row;
       (js, vs) \<leftarrow> for_each [0..<length r] (\<lambda>column (js, vs). do {
         e \<leftarrow> rd r column;
         Some (js @ [fst e + 1], vs @ [snd e])
       }) (js, vs);
       Some (ptrs @ [int (length vs) + 1], js, vs)
     }) ([1], [], []) = Some st \<and> ?I (v_rows m') st"
  proof (rule for_each_upt[where I = ?I])
    fix k and st :: "int list \<times> int list \<times> 'a list" assume k: "k < v_rows m'" and st: "?I k st"
    let ?r = "v_values m' ! k"
    have take: "take (Suc k) ?rws = take k ?rws @ [map (\<lambda>e. (fst e + 1, snd e)) ?r]"
      using k len by (simp add: one_based_def take_Suc_conv_app_nth)
    show "\<exists>u. (case st of (ptrs, js, vs) \<Rightarrow> do {
       r \<leftarrow> rd (v_values m') k;
       (js, vs) \<leftarrow> for_each [0..<length r] (\<lambda>column (js, vs). do {
         e \<leftarrow> rd r column;
         Some (js @ [fst e + 1], vs @ [snd e])
       }) (js, vs);
       Some (ptrs @ [int (length vs) + 1], js, vs)
     }) = Some u \<and> ?I (Suc k) u"
      using k len by (simp add: st rd_Some inner take csr_ptrs_snoc comp_def)
  qed simp_all
  moreover have "take (v_rows m') ?rws = ?rws" using len by (simp add: one_based_def)
  ultimately have "csr_of_vvp m = Some (\<lparr>c_rows = v_rows m', c_columns = v_columns m', c_indexing = 1,
      c_rowPtrs = csr_ptrs ?rws, c_columnIndices = map fst (concat ?rws), c_values = map snd (concat ?rws)\<rparr>, m')"
    by (simp add: csr_of_vvp_def m'(1))
  then show ?thesis using m' len by (simp add: csr_holds_def one_based_def)
qed

lemma csr_holds_entry:
  assumes "csr_holds A rws" and "r < length rws" and "c < length (rws ! r)"
  shows "rdi (c_columnIndices A) (csr_ptrs rws ! r + int c - c_indexing A) = Some (fst (rws ! r ! c))"
    and "rdi (c_values A) (csr_ptrs rws ! r + int c - c_indexing A) = Some (snd (rws ! r ! c))"
proof -
  have "csr_ptrs rws ! r + int c - c_indexing A = int (psum (map length rws) r + c)"
    using assms(1,2) by (simp add: csr_ptrs_nth csr_holds_def)
  then show "rdi (c_columnIndices A) (csr_ptrs rws ! r + int c - c_indexing A) = Some (fst (rws ! r ! c))"
    and "rdi (c_values A) (csr_ptrs rws ! r + int c - c_indexing A) = Some (snd (rws ! r ! c))"
    using assms(1) nth_concat_psum[OF assms(2,3)] nth_concat_bound[OF assms(2,3)]
    by (simp_all only: csr_holds_def rdi_of_nat rd_Some length_map nth_map)
qed

lemma row_sum_absent: "c \<notin> fst ` set r \<Longrightarrow> row_sum r c = 0"
  by (induction r) (auto simp: vvp_simps)

lemma csr_scan_row:
  assumes A: "csr_holds A rws" and r: "r < length rws" and srt: "sorted_wrt (<) (map fst (rws ! r))"
    and "k \<le> length (rws ! r)"
  shows "csr_scan A c (map (\<lambda>j. csr_ptrs rws ! r + int j) [k..<length (rws ! r)]) =
    Some (row_sum (drop k (rws ! r)) (c + 1))"
  using assms(4)
proof (induction "length (rws ! r) - k" arbitrary: k)
  case 0
  then show ?case by (simp add: vvp_simps)
next
  case (Suc d)
  then have k: "k < length (rws ! r)" by simp
  let ?row = "rws ! r"
  have d: "drop k ?row = ?row ! k # drop (Suc k) ?row" using k by (simp add: Cons_nth_drop_Suc)
  have "fst (?row ! k) \<notin> fst ` set (drop (Suc k) ?row)"
  proof -
    have "sorted_wrt (<) (map fst (drop k ?row))" using sorted_wrt_drop[OF srt, of k] by (simp add: drop_map)
    then show ?thesis unfolding d by auto
  qed
  then have one: "fst (?row ! k) = c + 1 \<Longrightarrow> row_sum (drop (Suc k) ?row) (c + 1) = 0" by (auto intro: row_sum_absent)
  have "c_indexing A = 1" using A by (simp add: csr_holds_def)
  moreover have "csr_scan A c (map (\<lambda>j. csr_ptrs rws ! r + int j) [Suc k..<length ?row]) = Some (row_sum (drop (Suc k) ?row) (c + 1))"
    using Suc by (intro Suc.hyps(1)) auto
  ultimately show ?case
    using csr_holds_entry[OF A r k] one k by (simp add: upt_conv_Cons d vvp_simps)
qed

lemma csr_get_sum:
  assumes A: "csr_holds A rws" and r: "r < length rws" and srt: "sorted_wrt (<) (map fst (rws ! r))"
  shows "csr_get A r c = Some (row_sum (rws ! r) (int c + 1))"
proof -
  have "[csr_ptrs rws ! r..csr_ptrs rws ! Suc r - 1] = map (\<lambda>j. csr_ptrs rws ! r + int j) [0..<length (rws ! r)]"
    using csr_ptrs_Suc[OF r] by (simp add: upto_shift)
  then show ?thesis
    using A r csr_scan_row[OF A r srt, of 0] by (simp add: csr_get_def csr_holds_def rd_Some)
qed

text \<open>The solver's object holds the same rows.\<close>

lemma copy_shifted:
  assumes "length ys = length xs"
  shows "for_each [0..<length ys] (\<lambda>i ys. do { v \<leftarrow> rd xs i; wr ys i (v + (0 :: int)) }) ys = Some xs"
proof -
  have "\<exists>zs. for_each [0..<length ys] (\<lambda>i ys. do { v \<leftarrow> rd xs i; wr ys i (v + (0 :: int)) }) ys = Some zs \<and>
      zs = take (length ys) xs @ drop (length ys) ys"
    by (rule for_each_upt[where I = "\<lambda>k zs. zs = take k xs @ drop k ys"])
      (use assms in \<open>auto simp: rd_Some wr_Some list_update_append take_Suc_conv_app_nth Cons_nth_drop_Suc[symmetric]\<close>)
  then show ?thesis using assms by simp
qed

lemma sm_assign_csr_ok:
  assumes A: "csr_holds A rws" and cols: "list_all (\<lambda>e. 1 \<le> fst e \<and> fst e \<le> int (c_columns A)) (concat rws)"
  shows "\<exists>M. sm_assign_csr A this = Some M \<and> csr_rep M rws \<and> mat_type M = CHR ''G''"
proof -
  let ?n = "length (concat rws)"
  have p: "rd (c_rowPtrs A) (c_rows A) = Some (1 + int ?n)" "rd (c_rowPtrs A) 0 = Some 1"
    using A csr_ptrs_nth[of 0 rws] csr_ptrs_nth[of "length rws" rws] psum_length[of "map length rws"]
    by (simp_all add: csr_holds_def rd_Some sum_list_lengths)
  obtain ps where ps: "vresize (int (c_rows A) + 1) 0 (CSR_I_row_indices this) = Some ps" "length ps = length (c_rowPtrs A)"
    using A by (auto simp: vresize_def csr_holds_def nat_add_distrib)
  obtain js where js: "vresize (int ?n) 0 (CSR_J_col_indices this) = Some js" "length js = length (c_columnIndices A)"
    using A by (auto simp: vresize_def csr_holds_def)
  obtain vs where vs: "vresize (int ?n) 0 (CSR_V_values this) = Some vs" "length vs = ?n"
    by (auto simp: vresize_def)
  have "range_i (c_values A) 0 (int ?n) = Some (c_values A)" "length (c_values A) = ?n"
    using A by (auto simp: range_i_def csr_holds_def vspan_def)
  then show ?thesis
    using p ps js vs A cols copy_shifted[OF ps(2)] copy_shifted[OF js(2)]
    by (simp add: sm_assign_csr_def Let_def csr_rep_def csr_holds_def)
qed

section \<open>The dense matrix\<close>

lemma cell_bound:
  assumes "r < R" and "c < C" shows "r * C + c < R * (C :: nat)"
proof -
  have "r * C + c < Suc r * C" using assms(2) by simp
  also have "\<dots> \<le> R * C" using assms(1) by (intro mult_le_mono1) simp
  finally show ?thesis .
qed

lemma cell_inj: "c < C \<Longrightarrow> c' < C \<Longrightarrow> r * C + c = r' * C + c' \<longleftrightarrow> r = r' \<and> c = (c' :: nat)"
  by (metis add_left_cancel div_mult_self3 div_less add.right_neutral less_nat_zero_code nat_neq_iff)

definition dense_upto :: "nat \<Rightarrow> nat \<Rightarrow> 'v :: comm_monoid_add sparse_rows \<Rightarrow> nat \<Rightarrow> 'v dense \<Rightarrow> bool" where
  "dense_upto R C rws k m \<longleftrightarrow> d_rows m = R \<and> d_columns m = C \<and> length (d_values m) = R * C \<and>
     (\<forall>r < R. \<forall>c < C. d_values m ! (r * C + c) = (if r < k then row_sum (rws ! r) (int c + 1) else 0))"

lemma dense_row_ok:
  fixes rws :: "'v :: comm_monoid_add sparse_rows"
  assumes m: "dense_upto R C rws k m" and k: "k < R"
    and srt: "sorted_wrt (<) (map fst (rws ! k))" and cols: "list_all (\<lambda>e. 1 \<le> fst e \<and> fst e \<le> int C) (rws ! k)"
  shows "\<exists>m'. for_each (rws ! k) (\<lambda>e m. if fst e - 1 < 0 then None else dense_set k (nat (fst e - 1)) (snd e) m) m = Some m' \<and>
    dense_upto R C rws (Suc k) m'"
proof -
  let ?I = "\<lambda>seen (m :: 'v dense). d_rows m = R \<and> d_columns m = C \<and> length (d_values m) = R * C \<and>
     (\<forall>r < R. \<forall>c < C. d_values m ! (r * C + c) =
        (if r < k then row_sum (rws ! r) (int c + 1) else if r = k then row_sum seen (int c + 1) else 0))"
  have "\<exists>m'. for_each (rws ! k) (\<lambda>e m. if fst e - 1 < 0 then None else dense_set k (nat (fst e - 1)) (snd e) m) m = Some m' \<and>
      ?I (rws ! k) m'"
  proof (rule for_each_list[where I = ?I])
    show "?I [] m" using m by (auto simp: dense_upto_def vvp_simps)
    fix seen e rest u assume s: "rws ! k = seen @ e # rest" and I: "?I seen u"
    have e: "1 \<le> fst e" "fst e \<le> int C" using cols s by auto
    let ?i = "nat (fst e - 1)"
    have i: "?i < C" "int ?i + 1 = fst e" using e by auto
    have "fst e \<notin> fst ` set seen" using srt s by (auto simp: sorted_wrt_append)
    then have fresh: "row_sum seen (fst e) = 0" by (rule row_sum_absent)
    have "dense_set k ?i (snd e) u = Some (u\<lparr>d_values := (d_values u)[k * C + ?i := snd e]\<rparr>)"
      using I cell_bound[OF k i(1)] by (simp add: dense_set_def wr_Some)
    moreover have "(d_values u)[k * C + ?i := snd e] ! (r * C + c) =
        (if r < k then row_sum (rws ! r) (int c + 1) else if r = k then row_sum (seen @ [e]) (int c + 1) else 0)"
      if "r < R" "c < C" for r c
    proof (cases "r = k \<and> c = ?i")
      case True
      then show ?thesis using I cell_bound[OF k i(1)] i fresh by (simp add: vvp_simps)
    next
      case False
      then have "k * C + ?i \<noteq> r * C + c" using cell_inj[OF i(1) that(2), of k r] by metis
      then have "(d_values u)[k * C + ?i := snd e] ! (r * C + c) = d_values u ! (r * C + c)" by simp
      moreover have "r = k \<Longrightarrow> row_sum (seen @ [e]) (int c + 1) = row_sum seen (int c + 1)"
        using False i(2) by (auto simp: vvp_simps)
      ultimately show ?thesis using I that by simp
    qed
    ultimately show "\<exists>v. (if fst e - 1 < 0 then None else dense_set k ?i (snd e) u) = Some v \<and> ?I (seen @ [e]) v"
      using e(1) I by auto
  qed
  then show ?thesis by (auto simp: dense_upto_def less_Suc_eq)
qed

lemma dense_of_csr_ok:
  assumes A: "csr_holds A rws" and srt: "list_all (\<lambda>r. sorted_wrt (<) (map fst r)) rws"
    and cols: "list_all (list_all (\<lambda>e. 1 \<le> fst e \<and> fst e \<le> int (c_columns A))) rws"
  shows "\<exists>m. dense_of_csr A = Some m \<and> dense_upto (length rws) (c_columns A) rws (length rws) m"
proof -
  have R: "c_rows A = length rws" and ind: "c_indexing A = 1" using A by (simp_all add: csr_holds_def)
  show ?thesis
    unfolding dense_of_csr_def R
  proof (rule for_each_upt[where I = "dense_upto (length rws) (c_columns A) rws"])
    show "dense_upto (length rws) (c_columns A) rws 0 (dense_new (length rws) (c_columns A))"
      by (auto simp: dense_upto_def dense_new_def cell_bound)
    fix k m assume k: "k < length rws" and m: "dense_upto (length rws) (c_columns A) rws k m"
    let ?body = "\<lambda>i m. do {
      c \<leftarrow> rdi (c_columnIndices A) (i - c_indexing A);
      v \<leftarrow> rdi (c_values A) (i - c_indexing A);
      if c - c_indexing A < 0 then None else dense_set k (nat (c - c_indexing A)) v m
    }"
    have "for_each [csr_ptrs rws ! k..csr_ptrs rws ! Suc k - 1] ?body m =
        for_each (rws ! k) (\<lambda>e m. if fst e - 1 < 0 then None else dense_set k (nat (fst e - 1)) (snd e) m) m"
      using csr_holds_entry[OF A k] ind by (intro for_each_positions csr_ptrs_Suc[OF k]) simp
    moreover have "sorted_wrt (<) (map fst (rws ! k))" "list_all (\<lambda>e. 1 \<le> fst e \<and> fst e \<le> int (c_columns A)) (rws ! k)"
      using srt cols k by (simp_all add: list_all_length)
    ultimately show "\<exists>u. (do {
        a \<leftarrow> rd (c_rowPtrs A) k;
        b \<leftarrow> rd (c_rowPtrs A) (k + 1);
        for_each [a..b - 1] ?body m
      }) = Some u \<and> dense_upto (length rws) (c_columns A) rws (Suc k) u"
      using dense_row_ok[OF m k] A k by (simp add: csr_holds_def rd_Some)
  qed simp
qed

lemma row_sum_one_based: "row_sum (map (\<lambda>e. (fst e + 1, snd e)) r) (c + 1) = row_sum r c"
  by (induction r) (auto simp: vvp_simps)

text \<open>
  C22: From the assembler to the solver.  A vector of (column, value) pairs, in which a position
  may occur many times, is turned into compressed rows.  Every position then holds the sum of its
  entries, in the shrunk pairs, in the compressed rows and in the dense matrix made of them; the
  solver's object gets a well-formed matrix with the same rows, whatever it held before.  The
  rows have strictly increasing columns.  A matrix with rows needs a column, because an empty row
  gets an entry in its first column.
\<close>

theorem assembled_matrix_correct:
  assumes "vvp_ok m" and "0 < v_columns m"
  shows "\<exists>A m' D M. csr_of_vvp m = Some (A, m') \<and> dense_of_csr A = Some D \<and> sm_assign_csr A this = Some M \<and>
    map (\<lambda>r. map (vvp_get m' r) [0..<v_columns m]) [0..<v_rows m] = map (\<lambda>r. map (vvp_get m r) [0..<v_columns m]) [0..<v_rows m] \<and>
    map (\<lambda>r. map (csr_get A r) [0..<v_columns m]) [0..<v_rows m] = map (\<lambda>r. map (vvp_get m r) [0..<v_columns m]) [0..<v_rows m] \<and>
    map (\<lambda>r. map (dense_get D r) [0..<v_columns m]) [0..<v_rows m] = map (\<lambda>r. map (vvp_get m r) [0..<v_columns m]) [0..<v_rows m] \<and>
    csr_rep M (one_based (v_values m')) \<and> list_all (\<lambda>r. sorted_wrt (<) (map fst r)) (v_values m')"
proof -
  have len: "length (v_values m) = v_rows m" using assms(1) by (simp add: vvp_ok_def)
  obtain A m' where A: "csr_of_vvp m = Some (A, m')" "v_rows m' = v_rows m" "v_values m' = map (the \<circ> shrink_row) (v_values m)"
    "csr_holds A (one_based (v_values m'))" "c_columns A = v_columns m" using csr_of_vvp_ok[OF len] by blast
  let ?rws = "one_based (v_values m')" and ?v = "\<lambda>r c. row_sum (v_values m ! r) (int c)"
  have n: "length ?rws = v_rows m" using A(3) len by (simp add: one_based_def)
  have srt: "list_all (\<lambda>r. sorted_wrt (<) (map fst r)) (v_values m')"
    by (simp add: A(3) list_all_iff shrink_row_facts(1))
  then have srt': "list_all (\<lambda>r. sorted_wrt (<) (map fst r)) ?rws"
    by (auto simp: list_all_iff one_based_def sorted_wrt_map elim!: sorted_wrt_mono_rel[rotated])
  have "list_all (\<lambda>e. 1 \<le> fst e \<and> fst e \<le> int (c_columns A)) (map (\<lambda>e. (fst e + 1, snd e)) (the (shrink_row r)))"
    if "r \<in> set (v_values m)" for r
  proof -
    have r: "\<forall>c \<in> fst ` set r. 0 \<le> c \<and> c < int (v_columns m)" using assms(1) that by (auto simp: vvp_ok_def list_all_iff)
    have "0 \<le> c \<and> c < int (v_columns m)" if "c \<in> fst ` set (the (shrink_row r))" for c
      using that r assms(2) unfolding shrink_row_facts(3) by (cases "r = []") auto
    then have "0 \<le> fst e \<and> fst e < int (v_columns m)" if "e \<in> set (the (shrink_row r))" for e using that by blast
    then show ?thesis using A(5) by (fastforce simp: list_all_iff)
  qed
  then have cols: "list_all (list_all (\<lambda>e. 1 \<le> fst e \<and> fst e \<le> int (c_columns A))) ?rws"
    using A(3) by (simp add: one_based_def list_all_iff)
  have row: "row_sum (?rws ! r) (c + 1) = row_sum (v_values m ! r) c" if "r < v_rows m" for r c
    using that A(3) len by (simp add: one_based_def row_sum_one_based shrink_row_facts(2))
  obtain D where D: "dense_of_csr A = Some D" "dense_upto (v_rows m) (v_columns m) ?rws (v_rows m) D"
    using dense_of_csr_ok[OF A(4) srt' cols] n A(5) by auto
  obtain M where M: "sm_assign_csr A this = Some M" "csr_rep M ?rws"
    using sm_assign_csr_ok[OF A(4), of this] cols by (auto simp: list_all_iff)
  have "vvp_get m r c = Some (?v r c)" "vvp_get m' r c = Some (?v r c)" if "r < v_rows m" for r c
    using that A(3) len shrink_row_facts(2)[of "v_values m ! r"] by (simp_all add: vvp_get_sum)
  moreover have "csr_get A r c = Some (?v r c)" if "r < v_rows m" for r c
    using csr_get_sum[OF A(4), of r c] srt' row[OF that] that n by (simp add: list_all_length)
  moreover have "dense_get D r c = Some (?v r c)" if "r < v_rows m" "c < v_columns m" for r c
    using D(2) that row[OF that(1)] cell_bound[OF that] by (simp add: dense_get_def rd_Some dense_upto_def)
  ultimately show ?thesis using A(1) D(1) M srt by (auto intro!: exI)
qed

theorem assembled_matrix_correct_witness:
  "\<exists>A m' D M. csr_of_vvp \<lparr>v_rows = 2, v_columns = 2, v_values = [[(1, 5), (0, 1), (1, 2)], []]\<rparr> = Some (A, m') \<and>
    dense_of_csr A = Some D \<and> sm_assign_csr A (sm_new :: (int, int) sparse_matrix) = Some M \<and>
    csr_rep M (one_based (v_values m'))"
  using assembled_matrix_correct[of "\<lparr>v_rows = 2, v_columns = 2, v_values = [[(1, 5), (0, 1), (1, 2 :: int)], []]\<rparr>"
      "sm_new :: (int, int) sparse_matrix"]
  by (auto simp: vvp_ok_def)

end
