(* ===== verification/SpaceFilling.thy ===== *)
theory SpaceFilling
  imports HilbertWord Esutils
begin

text \<open>
  The refined space-filling curve of \<^verbatim>\<open>src/input/sfc/spacefillingcurve.cpp\<close>.  The curve numbers the
  buckets of a grid with \<open>2 ^ depth\<close> cells in every direction; a bucket that holds too many elements
  is refined into its 4 or 8 parts, so the buckets that are not refined are the leaves of a tree.
  The state keeps the refined buckets of every level twice: as indices on the curve and as
  positions in the grid.
\<close>

named_theorems sfc_simps "the refinement of the curve"

section \<open>The state and the levels\<close>

record sfc =
  sfc_dimension :: nat
  sfc_depth :: nat
  refinedsfc :: "nat list list"
  refinedxyz :: "nat list list"

definition bucketSize :: "sfc \<Rightarrow> nat" where
  "bucketSize s = (if sfc_dimension s = 2 then 4 else 8)"

definition buckets :: "sfc \<Rightarrow> nat \<Rightarrow> nat" where
  "buckets s depth = (2 ^ depth) ^ sfc_dimension s"

definition setLevel :: "nat \<Rightarrow> sfc \<Rightarrow> sfc" where
  "setLevel depth s = s\<lparr>refinedsfc := take (depth + 1) (refinedsfc s) @ replicate (depth + 1 - length (refinedsfc s)) []\<rparr>"

definition hasLevel :: "sfc \<Rightarrow> nat \<Rightarrow> bool" where
  "hasLevel s depth \<longleftrightarrow> depth < length (refinedsfc s) \<and> refinedsfc s ! depth \<noteq> []"

definition recurce :: "nat \<Rightarrow> sfc \<Rightarrow> sfc option" where
  "recurce index s = (if refinedsfc s = [] then None
     else Some (s\<lparr>refinedsfc := butlast (refinedsfc s) @ [last (refinedsfc s) @ [index]]\<rparr>))"

definition finishLevel :: "nat \<Rightarrow> sfc \<Rightarrow> sfc option" where
  "finishLevel depth s = do {
     level \<leftarrow> rd (refinedsfc s) depth;
     level \<leftarrow> sortAndRemoveDuplicity 0 level 0;
     levels \<leftarrow> wr (refinedsfc s) depth level;
     Some (s\<lparr>refinedsfc := levels\<rparr>)
   }"

section \<open>The walk over the leaves\<close>

text \<open>The number of finest buckets in a bucket of level \<open>i\<close>: \<^verbatim>\<open>c\<close> after \<open>i\<close> divisions.\<close>

definition coarsening :: "sfc \<Rightarrow> nat \<Rightarrow> nat" where
  "coarsening s i = ((\<lambda>c. c div bucketSize s) ^^ i) (buckets s (sfc_depth s))"

text \<open>The initial positions in the refined buckets, and the first loop for one bucket.\<close>

definition start_indices :: "sfc \<Rightarrow> nat \<Rightarrow> nat list option" where
  "start_indices s begin_at = for_each [0..<length (refinedsfc s)] (\<lambda>i rindices. do {
     cells \<leftarrow> rd (refinedsfc s) i;
     if coarsening s i = 0 then None
     else Some (rindices @ [lower_bound 0 (length cells) (begin_at div coarsening s i) cells])
   }) []"

definition move_indices :: "sfc \<Rightarrow> nat \<Rightarrow> nat list \<Rightarrow> nat list option" where
  "move_indices s bucket rindices = for_each [0..<length (refinedsfc s)] (\<lambda>i rindices. do {
     cells \<leftarrow> rd (refinedsfc s) i;
     r \<leftarrow> rd rindices i;
     if r \<noteq> length cells then do {
       v \<leftarrow> rd cells r;
       if coarsening s i = 0 then None
       else if v < bucket div coarsening s i then wr rindices i (r + 1)
       else Some rindices
     } else Some rindices
   }) rindices"

text \<open>The second loop: how deep the bucket is refined.\<close>

function descend :: "sfc \<Rightarrow> nat \<Rightarrow> nat list \<Rightarrow> nat \<Rightarrow> nat \<Rightarrow> (nat \<times> nat) option" where
  "descend s bucket rindices depth step =
    (if depth < sfc_depth s then do {
       r \<leftarrow> rd rindices depth;
       cells \<leftarrow> rd (refinedsfc s) depth;
       if r \<noteq> length cells then do {
         v \<leftarrow> rd cells r;
         if step = 0 then None
         else if v = bucket div step then descend s bucket rindices (depth + 1) (step div bucketSize s)
         else Some (depth, step)
       } else Some (depth, step)
     } else Some (depth, step))"
  by pat_completeness auto
termination by (relation "measure (\<lambda>(s, _, _, depth, _). sfc_depth s - depth)") auto

declare descend.simps [simp del]

text \<open>
  The main loop, with the list of the arguments of \<^verbatim>\<open>callback\<close> as its result; \<open>None\<close> if it reads out
  of range, divides by zero or does not end.
\<close>

partial_function (option) iterate_loop :: "sfc \<Rightarrow> nat \<Rightarrow> nat list \<Rightarrow> nat \<Rightarrow> (nat \<times> nat) list \<Rightarrow> (nat \<times> nat) list option" where
  "iterate_loop s bucket rindices end_at calls =
    (if bucket < end_at then do {
       rindices \<leftarrow> move_indices s bucket rindices;
       (depth, step) \<leftarrow> descend s bucket rindices 0 (coarsening s 0);
       if step = 0 then None
       else iterate_loop s (bucket + step) rindices end_at (calls @ [(depth, bucket div step)])
     } else Some calls)"

declare iterate_loop.simps [code]

definition iterateBuckets :: "sfc \<Rightarrow> nat \<Rightarrow> nat \<Rightarrow> (nat \<times> nat) list option" where
  "iterateBuckets s begin_at end_at = do {
     rindices \<leftarrow> start_indices s begin_at;
     iterate_loop s begin_at rindices end_at []
   }"

section \<open>The refinement tree\<close>

text \<open>
  The refined buckets of a level are ascending, the parts of refined buckets only, and the levels
  end with an empty one or with the finest buckets.
\<close>

definition sfc_ok :: "sfc \<Rightarrow> bool" where
  "sfc_ok s \<longleftrightarrow> sfc_dimension s \<in> {2, 3} \<and> refinedsfc s \<noteq> [] \<and> length (refinedsfc s) \<le> Suc (sfc_depth s) \<and>
     (length (refinedsfc s) = Suc (sfc_depth s) \<or> last (refinedsfc s) = []) \<and>
     list_all (sorted_wrt (<)) (refinedsfc s) \<and> set (refinedsfc s ! 0) \<subseteq> {0} \<and>
     (\<forall>i v. Suc i < length (refinedsfc s) \<longrightarrow> v \<in> set (refinedsfc s ! Suc i) \<longrightarrow>
        v div bucketSize s \<in> set (refinedsfc s ! i))"

definition refined :: "sfc \<Rightarrow> nat \<Rightarrow> nat \<Rightarrow> bool" where
  "refined s d v \<longleftrightarrow> d < length (refinedsfc s) \<and> v \<in> set (refinedsfc s ! d)"

text \<open>A leaf: a bucket of a refined one that is not refined itself, or one of the finest.\<close>

definition leaf :: "sfc \<Rightarrow> nat \<Rightarrow> nat \<Rightarrow> bool" where
  "leaf s d v \<longleftrightarrow> d \<le> sfc_depth s \<and> (\<forall>k < d. refined s k (v div bucketSize s ^ (d - k))) \<and>
     (d < sfc_depth s \<longrightarrow> \<not> refined s d v)"

lemma bucketSize_power: "sfc_dimension s \<in> {2, 3} \<Longrightarrow> bucketSize s = 2 ^ sfc_dimension s"
  by (auto simp: bucketSize_def)

lemma coarsening_power:
  assumes "sfc_dimension s \<in> {2, 3}" and "i \<le> sfc_depth s"
  shows "coarsening s i = bucketSize s ^ (sfc_depth s - i)"
  using assms(2)
proof (induction i)
  case 0
  then show ?case
    using bucketSize_power[OF assms(1)] by (simp add: coarsening_def buckets_def power_mult[symmetric] mult.commute)
next
  case (Suc i)
  then have "coarsening s (Suc i) = bucketSize s ^ Suc (sfc_depth s - Suc i) div bucketSize s"
    by (simp add: coarsening_def Suc_diff_Suc)
  then show ?case by (simp add: bucketSize_def)
qed

lemma bucketSize_pos: "0 < bucketSize s"
  by (simp add: bucketSize_def)

lemma sfc_okD:
  assumes "sfc_ok s"
  shows "sfc_dimension s \<in> {2, 3}" and "0 < length (refinedsfc s)" and "length (refinedsfc s) \<le> Suc (sfc_depth s)"
    and "length (refinedsfc s) = Suc (sfc_depth s) \<or> refinedsfc s ! (length (refinedsfc s) - 1) = []"
    and "\<And>i. i < length (refinedsfc s) \<Longrightarrow> sorted_wrt (<) (refinedsfc s ! i)"
    and "\<And>i v. refined s (Suc i) v \<Longrightarrow> refined s i (v div bucketSize s)"
  using assms by (auto simp: sfc_ok_def last_conv_nth list_all_length refined_def)

lemma coarsening_pos:
  assumes "sfc_ok s" and "i \<le> sfc_depth s"
  shows "0 < coarsening s i"
  using coarsening_power[OF sfc_okD(1)[OF assms(1)] assms(2)] bucketSize_pos by simp

lemma coarsening_split:
  assumes "sfc_ok s" and "i \<le> j" and "j \<le> sfc_depth s"
  shows "coarsening s i = coarsening s j * bucketSize s ^ (j - i)"
  using assms(2,3) by (simp add: coarsening_power[OF sfc_okD(1)[OF assms(1)]] power_add[symmetric])

lemma refined_ancestor:
  assumes "sfc_ok s" and "refined s (d + k) v"
  shows "refined s d (v div bucketSize s ^ k)"
  using assms(2)
proof (induction k arbitrary: v)
  case (Suc k)
  then have "refined s (d + k) (v div bucketSize s)" using sfc_okD(6)[OF assms(1)] by simp
  from Suc.IH[OF this] show ?case by (simp add: div_mult2_eq mult.commute)
qed simp

text \<open>The position that \<^verbatim>\<open>rindices\<close> has in a level for a bucket.\<close>

definition place_in :: "sfc \<Rightarrow> nat \<Rightarrow> nat \<Rightarrow> nat" where
  "place_in s b i = length (takeWhile (\<lambda>v. v < b div coarsening s i) (refinedsfc s ! i))"

lemma takeWhile_place:
  fixes xs :: "nat list"
  assumes "sorted_wrt (<) xs"
  shows "length (takeWhile (\<lambda>v. v < w) xs) \<noteq> length xs \<and> xs ! length (takeWhile (\<lambda>v. v < w) xs) = w \<longleftrightarrow> w \<in> set xs"
  using assms
proof (induction xs)
  case (Cons x xs)
  then show ?case by (cases "x < w") auto
qed simp

lemma takeWhile_step:
  fixes xs :: "nat list"
  assumes "sorted_wrt (<) xs" and "v \<le> w"
    and "\<And>a b. a \<in> set xs \<Longrightarrow> b \<in> set xs \<Longrightarrow> v \<le> a \<Longrightarrow> a < w \<Longrightarrow> v \<le> b \<Longrightarrow> b < w \<Longrightarrow> a = b"
  defines "p \<equiv> length (takeWhile (\<lambda>u. u < v) xs)"
  shows "length (takeWhile (\<lambda>u. u < w) xs) = (if p \<noteq> length xs \<and> xs ! p < w then p + 1 else p)"
  using assms(1-3) unfolding p_def
proof (induction xs)
  case (Cons x xs)
  show ?case
  proof (cases "x < v")
    case True
    then show ?thesis using Cons by auto
  next
    case False
    have "takeWhile (\<lambda>u. u < w) xs = []" if "x < w"
    proof (cases xs)
      case ys: (Cons y ys)
      have "\<not> y < w"
      proof
        assume "y < w"
        then show False using Cons.prems(1) Cons.prems(3)[of x y] False that ys by (auto simp: not_less)
      qed
      then show ?thesis using ys by simp
    qed simp
    then show ?thesis using False by auto
  qed
qed simp

lemma start_indices_ok:
  assumes "sfc_ok s"
  shows "start_indices s b = Some (map (place_in s b) [0..<length (refinedsfc s)])"
proof -
  have "for_each [0..<n] (\<lambda>i rindices. do {
     cells \<leftarrow> rd (refinedsfc s) i;
     if coarsening s i = 0 then None
     else Some (rindices @ [lower_bound 0 (length cells) (b div coarsening s i) cells])
   }) [] = Some (map (place_in s b) [0..<n])" if "n \<le> length (refinedsfc s)" for n
    using that
  proof (induction n)
    case (Suc n)
    then have "n \<le> sfc_depth s" using sfc_okD(3)[OF assms] by simp
    then show ?case
      using Suc coarsening_pos[OF assms, of n] by (simp add: for_each_append rd_Some lower_bound_def place_in_def)
  qed simp
  then show ?thesis by (simp add: start_indices_def)
qed

text \<open>From one bucket to the next at most one refined bucket of every level is passed.\<close>

definition one_passed :: "sfc \<Rightarrow> nat \<Rightarrow> nat \<Rightarrow> bool" where
  "one_passed s b0 b \<longleftrightarrow> b0 \<le> b \<and> (\<forall>i u v. refined s i u \<longrightarrow> refined s i v \<longrightarrow>
     b0 div coarsening s i \<le> u \<longrightarrow> u < b div coarsening s i \<longrightarrow> b0 div coarsening s i \<le> v \<longrightarrow> v < b div coarsening s i \<longrightarrow> u = v)"

lemma move_indices_ok:
  assumes "sfc_ok s" and "one_passed s b0 b"
  shows "move_indices s b (map (place_in s b0) [0..<length (refinedsfc s)]) =
    Some (map (place_in s b) [0..<length (refinedsfc s)])"
proof -
  let ?L = "length (refinedsfc s)"
  let ?r = "\<lambda>n. map (place_in s b) [0..<n] @ map (place_in s b0) [n..<?L]"
  have "for_each [0..<n] (\<lambda>i rindices. do {
     cells \<leftarrow> rd (refinedsfc s) i;
     r \<leftarrow> rd rindices i;
     if r \<noteq> length cells then do {
       v \<leftarrow> rd cells r;
       if coarsening s i = 0 then None
       else if v < b div coarsening s i then wr rindices i (r + 1)
       else Some rindices
     } else Some rindices
   }) (?r 0) = Some (?r n)" if "n \<le> ?L" for n
    using that
  proof (induction n)
    case (Suc n)
    let ?cells = "refinedsfc s ! n" and ?c = "coarsening s n"
    have n: "n < ?L" "n \<le> sfc_depth s" using Suc.prems sfc_okD(3)[OF assms(1)] by simp_all
    have step: "place_in s b n = (if place_in s b0 n \<noteq> length ?cells \<and> ?cells ! place_in s b0 n < b div ?c
        then place_in s b0 n + 1 else place_in s b0 n)"
      unfolding place_in_def
    proof (rule takeWhile_step[OF sfc_okD(5)[OF assms(1) n(1)]])
      show "b0 div ?c \<le> b div ?c" using assms(2) by (simp add: one_passed_def div_le_mono)
      show "x = y" if "x \<in> set ?cells" "y \<in> set ?cells" "b0 div ?c \<le> x" "x < b div ?c" "b0 div ?c \<le> y" "y < b div ?c" for x y
        using assms(2) n(1) that unfolding one_passed_def refined_def by blast
    qed
    have split: "?r n = map (place_in s b) [0..<n] @ place_in s b0 n # map (place_in s b0) [Suc n..<?L]"
      using n(1) by (simp add: upt_rec[of n])
    have le: "place_in s b0 n \<le> length ?cells" unfolding place_in_def by (rule length_takeWhile_le)
    have "rd (?r n) n = Some (place_in s b0 n)" "\<And>v. wr (?r n) n v = Some ((?r n)[n := v])"
      "(?r n)[n := place_in s b n] = ?r (Suc n)"
      using n(1) by (simp_all add: split rd_def wr_def nth_append list_update_append)
    moreover have "?r n = ?r (Suc n)" if "place_in s b n = place_in s b0 n" using that by (simp add: split)
    ultimately show ?case
      using Suc n(1) coarsening_pos[OF assms(1) n(2)] step le
      by (auto simp: for_each_append rd_Some)
  qed simp
  from this[of ?L] show ?thesis by (simp add: move_indices_def)
qed

lemma descend_ok:
  assumes "sfc_ok s" and "d \<le> sfc_depth s" and "\<And>k. k < d \<Longrightarrow> refined s k (b div coarsening s k)"
  shows "\<exists>e. descend s b (map (place_in s b) [0..<length (refinedsfc s)]) d (coarsening s d) = Some (e, coarsening s e) \<and>
    leaf s e (b div coarsening s e)"
  using assms(2,3)
proof (induction "sfc_depth s - d" arbitrary: d rule: less_induct)
  case less
  note ok = sfc_okD[OF assms(1)]
  have ancestors: "refined s k (b div coarsening s d div bucketSize s ^ (d - k))" if "k < d" for k
    using less.prems(2)[OF that] coarsening_split[OF assms(1), of k d] that less.prems(1) by (simp add: div_mult2_eq)
  show ?case
  proof (cases "d < sfc_depth s")
    case False
    then have "leaf s d (b div coarsening s d)" using less.prems(1) ancestors by (simp add: leaf_def)
    then show ?thesis using False by (subst descend.simps) simp
  next
    case True
    have d: "d < length (refinedsfc s)"
    proof (cases d)
      case 0
      then show ?thesis using ok(2) by simp
    next
      case (Suc k)
      then have k: "refined s k (b div coarsening s k)" using less.prems(2) by simp
      then have "k < length (refinedsfc s)" "refinedsfc s ! k \<noteq> []" by (auto simp: refined_def)
      moreover have False if "Suc k = length (refinedsfc s)"
      proof -
        have "length (refinedsfc s) - 1 = k" using that by simp
        then show False using ok(4) that True Suc \<open>refinedsfc s ! k \<noteq> []\<close> by simp
      qed
      ultimately show ?thesis using Suc by (cases "Suc k = length (refinedsfc s)") auto
    qed
    let ?cells = "refinedsfc s ! d" and ?v = "b div coarsening s d" and ?p = "place_in s b d"
    have found: "?p \<noteq> length ?cells \<and> ?cells ! ?p = ?v \<longleftrightarrow> refined s d ?v"
      using takeWhile_place[OF ok(5)[OF d]] d by (simp add: place_in_def refined_def)
    have le: "?p \<le> length ?cells" unfolding place_in_def by (rule length_takeWhile_le)
    have pos: "0 < coarsening s d" using coarsening_pos[OF assms(1) less.prems(1)] .
    show ?thesis
    proof (cases "refined s d ?v")
      case False
      then have "leaf s d ?v" using less.prems(1) ancestors by (simp add: leaf_def)
      moreover have "descend s b (map (place_in s b) [0..<length (refinedsfc s)]) d (coarsening s d) = Some (d, coarsening s d)"
        using True d pos le found False by (subst descend.simps) (auto simp: rd_Some)
      ultimately show ?thesis by blast
    next
      case here: True
      have down: "coarsening s d div bucketSize s = coarsening s (Suc d)"
        using coarsening_split[OF assms(1), of d "Suc d"] True bucketSize_pos[of s] by simp
      have "refined s k (b div coarsening s k)" if "k < Suc d" for k
        using that here less.prems(2) by (cases "k = d") simp_all
      from less.hyps[of "Suc d", OF diff_less_mono2[OF lessI True] _ this] obtain e where
        e: "descend s b (map (place_in s b) [0..<length (refinedsfc s)]) (Suc d) (coarsening s (Suc d)) = Some (e, coarsening s e)"
        "leaf s e (b div coarsening s e)" using True by auto
      have "descend s b (map (place_in s b) [0..<length (refinedsfc s)]) d (coarsening s d) = Some (e, coarsening s e)"
        using True d pos le found here e(1) down by (subst descend.simps) (auto simp: rd_Some)
      then show ?thesis using e(2) by blast
    qed
  qed
qed

text \<open>The leaves tile the curve.\<close>

lemma leaf_unique:
  assumes "sfc_ok s" and "leaf s d (b div coarsening s d)" and "leaf s e (b div coarsening s e)"
  shows "d = e"
proof -
  have False if "leaf s d (b div coarsening s d)" "leaf s e (b div coarsening s e)" "d < e" for d e
  proof -
    have e: "e \<le> sfc_depth s" using that(2) by (simp add: leaf_def)
    have "refined s d (b div coarsening s e div bucketSize s ^ (e - d))" using that(2,3) by (simp add: leaf_def)
    then have "refined s d (b div coarsening s d)"
      using coarsening_split[OF assms(1), of d e] that(3) e by (simp add: div_mult2_eq)
    then show False using that(1,3) e by (simp add: leaf_def)
  qed
  from this[of d e] this[of e d] assms(2,3) show ?thesis by (cases d e rule: linorder_cases) auto
qed

lemma leaf_exists:
  assumes "sfc_ok s"
  obtains d where "leaf s d (b div coarsening s d)"
  using descend_ok[OF assms, of 0 b] by auto

lemma one_passed_leaf:
  assumes "sfc_ok s" and "leaf s d (b div coarsening s d)" and "coarsening s d dvd b"
  shows "one_passed s b (b + coarsening s d)"
  unfolding one_passed_def
proof (intro conjI allI impI)
  fix i u v
  assume ref: "refined s i u" "refined s i v"
    and between: "b div coarsening s i \<le> u" "u < (b + coarsening s d) div coarsening s i"
      "b div coarsening s i \<le> v" "v < (b + coarsening s d) div coarsening s i"
  have d: "d \<le> sfc_depth s" using assms(2) by (simp add: leaf_def)
  have i: "i \<le> sfc_depth s" using ref(1) sfc_okD(3)[OF assms(1)] by (simp add: refined_def)
  show "u = v"
  proof (cases "i \<le> d")
    case True
    have "coarsening s d \<le> coarsening s i"
      using coarsening_split[OF assms(1) True d] bucketSize_pos[of s] by simp
    then have "(b + coarsening s d) div coarsening s i \<le> (b + coarsening s i) div coarsening s i"
      by (intro div_le_mono) simp
    also have "(b + coarsening s i) div coarsening s i = Suc (b div coarsening s i)"
      using coarsening_pos[OF assms(1) i] by (simp only: div_add_self2 neq0_conv Suc_eq_plus1)
    finally show ?thesis using between by linarith
  next
    case False
    then have split: "coarsening s d = coarsening s i * bucketSize s ^ (i - d)"
      using coarsening_split[OF assms(1), of d i] i by simp
    let ?B = "bucketSize s ^ (i - d)"
    have "refined s d (u div ?B)" using refined_ancestor[OF assms(1), of d "i - d" u] ref(1) False by simp
    moreover have "u div ?B = b div coarsening s d"
    proof -
      obtain q where q: "b = coarsening s d * q" using assms(3) by (auto simp: dvd_def)
      then have b: "b = coarsening s i * (?B * q)" by (simp add: split mult.assoc)
      have pos: "0 < coarsening s i" using coarsening_pos[OF assms(1) i] .
      have "b + coarsening s d = coarsening s i * (?B * q + ?B)" by (simp add: b split algebra_simps)
      then have "?B * q \<le> u" "u < ?B * q + ?B" using between(1,2) b pos by simp_all
      then have "u div ?B = q" by (intro div_nat_eqI) (simp_all add: mult.commute)
      then show ?thesis using q coarsening_pos[OF assms(1) d] by simp
    qed
    ultimately show ?thesis using assms(2) False i by (auto simp: leaf_def)
  qed
qed simp

text \<open>A border: the first bucket of a leaf, or the end of the curve.\<close>

definition border :: "sfc \<Rightarrow> nat \<Rightarrow> bool" where
  "border s b \<longleftrightarrow> b = buckets s (sfc_depth s) \<or> (\<exists>d \<le> sfc_depth s. leaf s d (b div coarsening s d) \<and> coarsening s d dvd b)"

lemma border_dvd:
  assumes "sfc_ok s" and "border s b" and "leaf s d (a div coarsening s d)" and "coarsening s d dvd a"
    and "a < b" and "b \<le> buckets s (sfc_depth s)"
  shows "a + coarsening s d \<le> b"
proof (rule ccontr)
  assume "\<not> a + coarsening s d \<le> b"
  then have inside: "b < a + coarsening s d" by simp
  have d: "d \<le> sfc_depth s" using assms(3) by (simp add: leaf_def)
  have pos: "0 < coarsening s d" using coarsening_pos[OF assms(1) d] .
  obtain q where q: "a = coarsening s d * q" using assms(4) by (auto simp: dvd_def)
  have same: "b div coarsening s d = q" "a div coarsening s d = q"
    using inside assms(5) pos by (auto simp: q mult.commute intro: div_nat_eqI)
  have not_dvd: "\<not> coarsening s d dvd b"
  proof
    assume "coarsening s d dvd b"
    then have "b = coarsening s d * q" using same(1) by auto
    then show False using assms(5) q by simp
  qed
  show False
  proof (cases "b = buckets s (sfc_depth s)")
    case True
    have "buckets s (sfc_depth s) = coarsening s 0" by (simp add: coarsening_def)
    then show False using not_dvd True coarsening_split[OF assms(1), of 0 d] d by simp
  next
    case False
    then obtain e where e: "leaf s e (b div coarsening s e)" "coarsening s e dvd b"
      using assms(2) by (auto simp: border_def)
    have "leaf s d (b div coarsening s d)" using assms(3) same by simp
    then show False using leaf_unique[OF assms(1) e(1)] e(2) not_dvd by simp
  qed
qed

lemma border_next:
  assumes "sfc_ok s" and "leaf s d (a div coarsening s d)" and "coarsening s d dvd a"
    and "a + coarsening s d < buckets s (sfc_depth s)"
  shows "border s (a + coarsening s d)"
proof -
  let ?b = "a + coarsening s d"
  have d: "d \<le> sfc_depth s" using assms(2) by (simp add: leaf_def)
  obtain e where e: "leaf s e (?b div coarsening s e)" using leaf_exists[OF assms(1)] .
  then have e_le: "e \<le> sfc_depth s" by (simp add: leaf_def)
  have "coarsening s e dvd ?b"
  proof (cases "d \<le> e")
    case True
    then have "coarsening s e dvd coarsening s d" using coarsening_split[OF assms(1) True e_le] by simp
    then show ?thesis using assms(3) by (intro dvd_add) (auto intro: dvd_trans)
  next
    case False
    then have split: "coarsening s e = coarsening s d * bucketSize s ^ (d - e)"
      using coarsening_split[OF assms(1), of e d] d by simp
    obtain q where q: "a = coarsening s d * q" using assms(3) by (auto simp: dvd_def)
    have pos: "0 < coarsening s d" using coarsening_pos[OF assms(1) d] .
    let ?B = "bucketSize s ^ (d - e)"
    have divs: "a div coarsening s e = q div ?B" "?b div coarsening s e = Suc q div ?B"
      using pos by (simp_all add: q split div_mult2_eq)
    show ?thesis
    proof (rule ccontr)
      assume "\<not> coarsening s e dvd ?b"
      then have "\<not> ?B dvd Suc q" using pos by (simp add: q split mult_Suc_right[symmetric] add.commute del: mult_Suc_right)
      then have "Suc q div ?B = q div ?B" by (simp add: div_Suc dvd_eq_mod_eq_0)
      then have "leaf s e (a div coarsening s e)" using e divs by simp
      then show False using leaf_unique[OF assms(1,2)] False by simp
    qed
  qed
  then show ?thesis using e e_le by (auto simp: border_def)
qed

lemma iterate_loop_ok:
  assumes "sfc_ok s" and "border s e" and "e \<le> buckets s (sfc_depth s)" and "border s b" and "b \<le> e"
    and "one_passed s b0 b"
  shows "\<exists>new. iterate_loop s b (map (place_in s b0) [0..<length (refinedsfc s)]) e calls = Some (calls @ new) \<and>
    list_all (\<lambda>(d, v). leaf s d v) new \<and>
    concat (map (\<lambda>(d, v). [v * coarsening s d..<(v + 1) * coarsening s d]) new) = [b..<e]"
  using assms(4-6)
proof (induction "e - b" arbitrary: b b0 calls rule: less_induct)
  case less
  show ?case
  proof (cases "b < e")
    case False
    then show ?thesis using less.prems by (subst iterate_loop.simps) simp
  next
    case True
    then have b: "b < buckets s (sfc_depth s)" using assms(3) by simp
    obtain d where d: "leaf s d (b div coarsening s d)" "coarsening s d dvd b"
      using less.prems(1) b by (auto simp: border_def)
    then have d_le: "d \<le> sfc_depth s" by (simp add: leaf_def)
    obtain d' where d': "descend s b (map (place_in s b) [0..<length (refinedsfc s)]) 0 (coarsening s 0) = Some (d', coarsening s d')"
      "leaf s d' (b div coarsening s d')" using descend_ok[OF assms(1), of 0 b] by auto
    then have same: "d' = d" using leaf_unique[OF assms(1) d'(2) d(1)] by simp
    have pos: "0 < coarsening s d" using coarsening_pos[OF assms(1) d_le] .
    let ?b = "b + coarsening s d"
    have dec: "e - ?b < e - b" using True pos by simp
    have next_le: "?b \<le> e" using border_dvd[OF assms(1,2) d True assms(3)] .
    have next_border: "border s ?b"
    proof (cases "?b < buckets s (sfc_depth s)")
      case True
      then show ?thesis using border_next[OF assms(1) d] by simp
    next
      case False
      then show ?thesis using next_le assms(3) by (simp add: border_def)
    qed
    obtain new where new: "iterate_loop s ?b (map (place_in s b) [0..<length (refinedsfc s)]) e (calls @ [(d, b div coarsening s d)]) =
        Some ((calls @ [(d, b div coarsening s d)]) @ new)"
      "list_all (\<lambda>(d, v). leaf s d v) new"
      "concat (map (\<lambda>(d, v). [v * coarsening s d..<(v + 1) * coarsening s d]) new) = [?b..<e]"
      using less.hyps[OF dec, of b "calls @ [(d, b div coarsening s d)]"] next_border next_le one_passed_leaf[OF assms(1) d] pos True by auto
    have "iterate_loop s b (map (place_in s b0) [0..<length (refinedsfc s)]) e calls = Some (calls @ (d, b div coarsening s d) # new)"
      using True move_indices_ok[OF assms(1) less.prems(3)] d'(1) new(1) pos by (subst iterate_loop.simps) (simp add: same)
    moreover have "[b div coarsening s d * coarsening s d..<(b div coarsening s d + 1) * coarsening s d] = [b..<?b]"
      using d(2) by (simp add: add.commute)
    then have "concat (map (\<lambda>(d, v). [v * coarsening s d..<(v + 1) * coarsening s d]) ((d, b div coarsening s d) # new)) = [b..<e]"
      using new(3) next_le upt_add_eq_append[of b ?b "e - ?b"] by simp
    ultimately show ?thesis using new(2) d(1) by (intro exI[of _ "(d, b div coarsening s d) # new"]) simp
  qed
qed

text \<open>
  C10: The walk over the buckets.  Between two borders of leaves, \<^verbatim>\<open>iterateBuckets\<close> ends without
  reading out of range, and it calls back with exactly the leaves in the order of the curve: the
  ranges of finest buckets that they stand for tile the range.
\<close>

theorem iterateBuckets_correct:
  assumes "sfc_ok s" and "border s b" and "border s e" and "b \<le> e" and "e \<le> buckets s (sfc_depth s)"
  shows "\<exists>calls. iterateBuckets s b e = Some calls \<and> list_all (\<lambda>(d, v). leaf s d v) calls \<and>
    concat (map (\<lambda>(d, v). [v * coarsening s d..<(v + 1) * coarsening s d]) calls) = [b..<e]"
proof -
  have "one_passed s b b" by (simp add: one_passed_def)
  from iterate_loop_ok[OF assms(1,3,5,2,4) this, of "[]"] show ?thesis
    by (simp add: iterateBuckets_def start_indices_ok[OF assms(1)])
qed

text \<open>A planar curve of depth 2 whose second quarter is divided.\<close>

definition example_sfc :: sfc where
  "example_sfc = \<lparr>sfc_dimension = 2, sfc_depth = 2, refinedsfc = [[0], [1], []], refinedxyz = []\<rparr>"

lemma example_sfc_ok: "sfc_ok example_sfc"
  by (auto simp: sfc_ok_def example_sfc_def bucketSize_def nth_Cons split: nat.splits)

lemma example_sfc_borders: "border example_sfc 0" "border example_sfc 16"
proof -
  have "leaf example_sfc 1 0"
    by (auto simp: leaf_def example_sfc_def bucketSize_def refined_def)
  moreover have "coarsening example_sfc 1 = 4" by (simp add: coarsening_def example_sfc_def bucketSize_def buckets_def)
  ultimately show "border example_sfc 0"
    unfolding border_def by (intro disjI2 exI[of _ 1]) (simp add: example_sfc_def)
  show "border example_sfc 16" by (simp add: border_def example_sfc_def buckets_def)
qed

theorem iterateBuckets_correct_witness:
  "\<exists>calls. iterateBuckets example_sfc 0 16 = Some calls \<and> list_all (\<lambda>(d, v). leaf example_sfc d v) calls \<and>
    concat (map (\<lambda>(d, v). [v * coarsening example_sfc d..<(v + 1) * coarsening example_sfc d]) calls) = [0..<16]"
  by (rule iterateBuckets_correct[OF example_sfc_ok example_sfc_borders]) (simp_all add: example_sfc_def buckets_def)

end
