(* ===== verification/SfcNeighbors.thy ===== *)
theory SfcNeighbors
  imports SpaceFilling
begin

text \<open>
  The neighbours of a bucket of the refined curve, \<^verbatim>\<open>src/input/sfc/spacefillingcurve.cpp\<close>: the leaves
  that touch it, found in the grid.  A bucket of the grid is a level \<open>d\<close> with the position of its
  cell among the \<open>2 ^ d\<close> cells of every direction, \<open>x\<close> fastest.
\<close>

section \<open>The code\<close>

text \<open>The decoders and encoders of \<^verbatim>\<open>HilbertCurve\<close>, called through the virtual functions.\<close>

definition cell2 :: "nat \<Rightarrow> nat \<Rightarrow> (nat \<times> nat) option" where
  "cell2 n d = map_option (\<lambda>(x, y). (unat x, unat y)) (D1toD2 (of_nat n) (of_nat d))"

definition cell3 :: "nat \<Rightarrow> nat \<Rightarrow> (nat \<times> nat \<times> nat) option" where
  "cell3 n d = map_option (\<lambda>(x, y, z). (unat x, unat y, unat z)) (D1toD3 (of_nat n) (of_nat d))"

definition sfc2 :: "nat \<Rightarrow> nat \<Rightarrow> nat \<Rightarrow> nat" where
  "sfc2 n x y = unat (D2toD1 (of_nat n) (of_nat x) (of_nat y))"

definition sfc3 :: "nat \<Rightarrow> nat \<Rightarrow> nat \<Rightarrow> nat \<Rightarrow> nat" where
  "sfc3 n x y z = unat (D3toD1 (of_nat n) (of_nat x) (of_nat y) (of_nat z))"

definition SCFToXYZ :: "sfc \<Rightarrow> sfc option" where
  "SCFToXYZ s = do {
     xyz \<leftarrow> for_each [0..<length (refinedsfc s)] (\<lambda>i xyz. do {
       let n = 2 ^ i;
       let xyz = xyz @ [[]];
       cells \<leftarrow> rd (refinedsfc s) i;
       xyz \<leftarrow> for_each cells (\<lambda>v xyz. do {
         level \<leftarrow> rd xyz i;
         if sfc_dimension s = 2 then do { (x, y) \<leftarrow> cell2 n v; wr xyz i (level @ [y * n + x]) }
         else if sfc_dimension s = 3 then do { (x, y, z) \<leftarrow> cell3 n v; wr xyz i (level @ [z * n * n + y * n + x]) }
         else Some xyz
       }) xyz;
       level \<leftarrow> rd xyz i;
       wr xyz i (sort level)
     }) (refinedxyz s);
     Some (s\<lparr>refinedxyz := xyz\<rparr>)
   }"

definition std_binary_search :: "nat list \<Rightarrow> nat \<Rightarrow> bool" where
  "std_binary_search xs v =
    (let p = lower_bound 0 (length xs) v xs in p < length xs \<and> \<not> v < xs ! p)"

text \<open>The loop of \<^verbatim>\<open>getXYZBucket\<close>.\<close>

function bucket_loop :: "sfc \<Rightarrow> nat \<Rightarrow> nat \<Rightarrow> nat \<Rightarrow> nat \<Rightarrow> nat \<Rightarrow> nat \<Rightarrow> nat \<Rightarrow> (nat \<times> nat) option" where
  "bucket_loop s depth x y z d n coarse =
    (if coarse = 0 then None
     else let index = z div coarse * n * n + y div coarse * n + x div coarse in
       if d + 1 \<le> depth then do {
         level \<leftarrow> rd (refinedxyz s) d;
         if std_binary_search level index then bucket_loop s depth x y z (d + 1) (n * 2) (coarse div 2)
         else Some (d, index)
       } else Some (d, index))"
  by pat_completeness auto
termination by (relation "measure (\<lambda>(s, depth, x, y, z, d, n, coarse). depth - d)") auto

declare bucket_loop.simps [simp del]

definition getXYZBucket :: "sfc \<Rightarrow> nat \<Rightarrow> nat \<Rightarrow> nat \<Rightarrow> nat \<Rightarrow> (nat \<times> nat) option" where
  "getXYZBucket s depth x y z = bucket_loop s depth x y z 0 1 (2 ^ depth)"

text \<open>\<^verbatim>\<open>x + ox\<close> of type \<^verbatim>\<open>size_t\<close> wraps around.\<close>

definition move_coordinate :: "nat \<Rightarrow> int \<Rightarrow> nat" where
  "move_coordinate x ox = nat ((int x + ox) mod 2 ^ 64)"

text \<open>The parts of a bucket on the side of the offset.\<close>

definition parts_range :: "int \<Rightarrow> nat list" where
  "parts_range ox = [(if ox = -1 then 1 else 0)..<(if ox = 1 then 1 else 2)]"

definition parts2 :: "int \<Rightarrow> int \<Rightarrow> nat \<times> nat \<Rightarrow> (nat \<times> nat) list" where
  "parts2 ox oy p =
    (let nn = 2 ^ fst p; xx = snd p mod nn; yy = snd p div nn; nn = nn * 2 in
     concat (map (\<lambda>oox. map (\<lambda>ooy. (fst p + 1, nn * (2 * yy + ooy) + 2 * xx + oox)) (parts_range oy)) (parts_range ox)))"

definition parts3 :: "int \<Rightarrow> int \<Rightarrow> int \<Rightarrow> nat \<times> nat \<Rightarrow> (nat \<times> nat) list" where
  "parts3 ox oy oz p =
    (let nn = 2 ^ fst p; xx = snd p mod nn; yy = snd p mod (nn * nn) div nn; zz = snd p div (nn * nn); nn = nn * 2 in
     concat (map (\<lambda>oox. concat (map (\<lambda>ooy. map (\<lambda>ooz.
       (fst p + 1, nn * nn * (2 * zz + ooz) + nn * (2 * yy + ooy) + 2 * xx + oox))
       (parts_range oz)) (parts_range oy))) (parts_range ox)))"

definition opened2 :: "sfc \<Rightarrow> nat \<times> nat \<Rightarrow> bool" where
  "opened2 s p \<longleftrightarrow> fst p < length (refinedxyz s) \<and> std_binary_search (refinedxyz s ! fst p) (snd p)"

definition opened3 :: "sfc \<Rightarrow> nat \<times> nat \<Rightarrow> bool" where
  "opened3 s p \<longleftrightarrow> fst p + 1 < length (refinedxyz s) \<and> std_binary_search (refinedxyz s ! fst p) (snd p)"

lemma length_parts_range: "length (parts_range ox) \<le> 2"
  by (simp add: parts_range_def)

lemma length_parts2: "length (parts2 ox oy p) \<le> 4"
proof -
  have "length (parts2 ox oy p) = length (parts_range ox) * length (parts_range oy)"
    by (simp add: parts2_def Let_def length_concat comp_def sum_list_triv)
  then show ?thesis using mult_le_mono[OF length_parts_range[of ox] length_parts_range[of oy]] by simp
qed

lemma length_parts3: "length (parts3 ox oy oz p) \<le> 8"
proof -
  have "length (parts3 ox oy oz p) = length (parts_range ox) * (length (parts_range oy) * length (parts_range oz))"
    by (simp add: parts3_def Let_def length_concat comp_def sum_list_triv)
  then show ?thesis
    using mult_le_mono[OF length_parts_range[of ox] mult_le_mono[OF length_parts_range[of oy] length_parts_range[of oz]]] by simp
qed

text \<open>
  The loop over the buckets that are potential neighbours: an opened bucket is replaced by its parts
  at the end of the queue.
\<close>

abbreviation (input) queue_weight :: "nat \<Rightarrow> sfc \<Rightarrow> (nat \<times> nat) list \<Rightarrow> nat" where
  "queue_weight k s q \<equiv> sum_list (map (\<lambda>p. Suc k ^ (length (refinedxyz s) - fst p)) q)"

lemma queue_weight_parts:
  assumes "length ps \<le> k" and "\<And>q. q \<in> set ps \<Longrightarrow> fst q = fst p + 1" and "fst p < length (refinedxyz s)"
  shows "queue_weight k s ps < Suc k ^ (length (refinedxyz s) - fst p)"
proof -
  have "queue_weight k s ps = length ps * Suc k ^ (length (refinedxyz s) - (fst p + 1))"
    using assms(2) by (induction ps) auto
  also have "\<dots> \<le> k * Suc k ^ (length (refinedxyz s) - (fst p + 1))" using assms(1) by simp
  also have "\<dots> < Suc k * Suc k ^ (length (refinedxyz s) - (fst p + 1))" by simp
  also have "\<dots> = Suc k ^ (length (refinedxyz s) - fst p)"
    using assms(3) by (simp only: power_Suc[symmetric] Suc_diff_Suc Suc_eq_plus1[symmetric])
  finally show ?thesis .
qed

lemma fst_parts: "q \<in> set (parts2 ox oy p) \<Longrightarrow> fst q = fst p + 1" "q \<in> set (parts3 ox oy oz p) \<Longrightarrow> fst q = fst p + 1"
  by (auto simp: parts2_def parts3_def Let_def)

function open_loop2 :: "sfc \<Rightarrow> int \<Rightarrow> int \<Rightarrow> (nat \<times> nat) list \<Rightarrow> (nat \<times> nat) list \<Rightarrow> (nat \<times> nat) list" where
  "open_loop2 s ox oy [] neighbors = neighbors"
| "open_loop2 s ox oy (p # potential) neighbors =
    (if opened2 s p then open_loop2 s ox oy (potential @ parts2 ox oy p) neighbors
     else open_loop2 s ox oy potential (neighbors @ [p]))"
  by pat_completeness auto
termination
proof (relation "measure (\<lambda>(s, ox, oy, q, _). queue_weight 4 s q)")
  show "((s, ox, oy, potential @ parts2 ox oy p, neighbors), s, ox, oy, p # potential, neighbors)
      \<in> measure (\<lambda>(s, ox, oy, q, _). queue_weight 4 s q)" if "opened2 s p" for s ox oy p potential neighbors
    using queue_weight_parts[of "parts2 ox oy p" 4 p s, OF length_parts2 fst_parts(1)] that by (simp add: opened2_def)
qed auto

function open_loop3 :: "sfc \<Rightarrow> int \<Rightarrow> int \<Rightarrow> int \<Rightarrow> (nat \<times> nat) list \<Rightarrow> (nat \<times> nat) list \<Rightarrow> (nat \<times> nat) list" where
  "open_loop3 s ox oy oz [] neighbors = neighbors"
| "open_loop3 s ox oy oz (p # potential) neighbors =
    (if opened3 s p then open_loop3 s ox oy oz (potential @ parts3 ox oy oz p) neighbors
     else open_loop3 s ox oy oz potential (neighbors @ [p]))"
  by pat_completeness auto
termination
proof (relation "measure (\<lambda>(s, ox, oy, oz, q, _). queue_weight 8 s q)")
  show "((s, ox, oy, oz, potential @ parts3 ox oy oz p, neighbors), s, ox, oy, oz, p # potential, neighbors)
      \<in> measure (\<lambda>(s, ox, oy, oz, q, _). queue_weight 8 s q)" if "opened3 s p" for s ox oy oz p potential neighbors
    using queue_weight_parts[of "parts3 ox oy oz p" 8 p s, OF length_parts3 fst_parts(2)] that by (simp add: opened3_def)
qed auto

definition addXYNeighbors :: "sfc \<Rightarrow> nat \<Rightarrow> nat \<Rightarrow> nat \<Rightarrow> (nat \<times> nat) list \<Rightarrow> (nat \<times> nat) list option" where
  "addXYNeighbors s depth x y neighbors = for_each [-1..1] (\<lambda>ox neighbors. for_each [-1..1] (\<lambda>oy neighbors.
     if move_coordinate x ox < 2 ^ depth \<and> move_coordinate y oy < 2 ^ depth then do {
       p \<leftarrow> getXYZBucket s depth (move_coordinate x ox) (move_coordinate y oy) 0;
       Some (open_loop2 s ox oy [p] neighbors)
     } else Some neighbors) neighbors) neighbors"

definition addXYZNeighbors :: "sfc \<Rightarrow> nat \<Rightarrow> nat \<Rightarrow> nat \<Rightarrow> nat \<Rightarrow> (nat \<times> nat) list \<Rightarrow> (nat \<times> nat) list option" where
  "addXYZNeighbors s depth x y z neighbors = for_each [-1..1] (\<lambda>ox neighbors. for_each [-1..1] (\<lambda>oy neighbors.
     for_each [-1..1] (\<lambda>oz neighbors.
       if move_coordinate x ox < 2 ^ depth \<and> move_coordinate y oy < 2 ^ depth \<and> move_coordinate z oz < 2 ^ depth then do {
         p \<leftarrow> getXYZBucket s depth (move_coordinate x ox) (move_coordinate y oy) (move_coordinate z oz);
         Some (open_loop3 s ox oy oz [p] neighbors)
       } else Some neighbors) neighbors) neighbors) neighbors"

text \<open>From the curve to the grid, and the new neighbours back to the curve.\<close>

definition addSFCNeighbors :: "sfc \<Rightarrow> nat \<Rightarrow> nat \<Rightarrow> (nat \<times> nat) list \<Rightarrow> (nat \<times> nat) list option" where
  "addSFCNeighbors s depth index neighbors =
    (if sfc_dimension s = 2 then do {
       (x, y) \<leftarrow> cell2 (2 ^ depth) index;
       let nsize = length neighbors;
       neighbors \<leftarrow> addXYNeighbors s depth x y neighbors;
       for_each [nsize..<length neighbors] (\<lambda>i neighbors. do {
         (d, v) \<leftarrow> rd neighbors i;
         let n = 2 ^ d;
         wr neighbors i (d, sfc2 n (v mod n) (v div n))
       }) neighbors
     } else if sfc_dimension s = 3 then do {
       (x, y, z) \<leftarrow> cell3 (2 ^ depth) index;
       let nsize = length neighbors;
       neighbors \<leftarrow> addXYZNeighbors s depth x y z neighbors;
       for_each [nsize..<length neighbors] (\<lambda>i neighbors. do {
         (d, v) \<leftarrow> rd neighbors i;
         let n = 2 ^ d;
         wr neighbors i (d, sfc3 n (v mod n) (v mod (n * n) div n) (v div (n * n)))
       }) neighbors
     } else Some neighbors)"

section \<open>Leaves on one side of a cell\<close>

text \<open>
  The interface of a grid that is refined by halving.  \<open>enc d c\<close> is the number of cell \<open>c\<close> of level
  \<open>d\<close>, \<open>up k c\<close> its ancestor \<open>k\<close> levels above, and \<open>side o k c c'\<close> says that \<open>c'\<close> is a cell \<open>k\<close> levels
  below \<open>c\<close> on the side of \<open>c\<close> for the offset \<open>o\<close>.
\<close>

locale halved_grid =
  fixes enc :: "nat \<Rightarrow> 'c \<Rightarrow> nat" and inside :: "nat \<Rightarrow> 'c \<Rightarrow> bool" and up :: "nat \<Rightarrow> 'c \<Rightarrow> 'c"
    and side :: "'o \<Rightarrow> nat \<Rightarrow> 'c \<Rightarrow> 'c \<Rightarrow> bool" and parts :: "'o \<Rightarrow> nat \<times> nat \<Rightarrow> (nat \<times> nat) list"
  assumes up_0: "up 0 c = c" and up_up: "up j (up k c) = up (k + j) c"
    and side_0: "side o' 0 c c' \<longleftrightarrow> c' = c" and side_up: "side o' k c c' \<Longrightarrow> up k c' = c"
    and side_Suc: "side o' (Suc k) c c' \<longleftrightarrow> (\<exists>b. side o' 1 c b \<and> side o' k b c')"
    and side_inside: "inside d c \<Longrightarrow> side o' k c c' \<Longrightarrow> inside (d + k) c'"
    and inside_up: "inside (d + k) c \<Longrightarrow> inside d (up k c)"
    and parts_sides: "inside d c \<Longrightarrow> set (parts o' (d, enc d c)) = (\<lambda>b. (Suc d, enc (Suc d) b)) ` {b. side o' 1 c b}"
    and enc_inj: "inside d c \<Longrightarrow> inside d c' \<Longrightarrow> enc d c = enc d c' \<Longrightarrow> c = c'"
begin

text \<open>The leaves below a cell on one side of it.\<close>

definition below_side :: "'o \<Rightarrow> (nat \<times> nat \<Rightarrow> bool) \<Rightarrow> nat \<Rightarrow> 'c \<Rightarrow> (nat \<times> nat) set" where
  "below_side o' opened d c = {(d + k, enc (d + k) c') | k c'. side o' k c c' \<and>
     (\<forall>j < k. opened (d + j, enc (d + j) (up (k - j) c'))) \<and> \<not> opened (d + k, enc (d + k) c')}"

lemma below_side_closed:
  assumes "\<not> opened (d, enc d c)"
  shows "below_side o' opened d c = {(d, enc d c)}"
proof (intro equalityI subsetI)
  fix l
  assume "l \<in> below_side o' opened d c"
  then obtain k c' where l: "l = (d + k, enc (d + k) c')" "side o' k c c'"
    "\<forall>j < k. opened (d + j, enc (d + j) (up (k - j) c'))" by (auto simp: below_side_def)
  then have "k = 0" using assms side_up[OF l(2)] by (cases k) (auto dest: spec[of _ 0])
  then show "l \<in> {(d, enc d c)}" using l side_0 by simp
next
  fix l
  assume "l \<in> {(d, enc d c)}"
  then show "l \<in> below_side o' opened d c"
    using assms side_0 unfolding below_side_def by (intro CollectI exI[of _ 0] exI[of _ c]) simp
qed

lemma below_side_opened:
  assumes "opened (d, enc d c)"
  shows "below_side o' opened d c = (\<Union>b\<in>{b. side o' 1 c b}. below_side o' opened (Suc d) b)"
proof (intro equalityI subsetI)
  fix l
  assume "l \<in> below_side o' opened d c"
  then obtain k c' where l: "l = (d + k, enc (d + k) c')" "side o' k c c'"
    "\<forall>j < k. opened (d + j, enc (d + j) (up (k - j) c'))" "\<not> opened (d + k, enc (d + k) c')"
    by (auto simp: below_side_def)
  then obtain m where m: "k = Suc m" using assms side_0 by (cases k) auto
  then obtain b where b: "side o' 1 c b" "side o' m b c'" using side_Suc l(2) by blast
  have "\<forall>j < m. opened (Suc d + j, enc (Suc d + j) (up (m - j) c'))" using l(3) m by (metis Suc_less_eq add_Suc_shift diff_Suc_Suc)
  then have "l \<in> below_side o' opened (Suc d) b"
    using l m b(2) unfolding below_side_def by (intro CollectI exI[of _ m] exI[of _ c']) simp
  then show "l \<in> (\<Union>b\<in>{b. side o' 1 c b}. below_side o' opened (Suc d) b)" using b(1) by blast
next
  fix l
  assume "l \<in> (\<Union>b\<in>{b. side o' 1 c b}. below_side o' opened (Suc d) b)"
  then obtain b m c' where b: "side o' 1 c b" "side o' m b c'" and l: "l = (Suc d + m, enc (Suc d + m) c')"
    "\<forall>j < m. opened (Suc d + j, enc (Suc d + j) (up (m - j) c'))" "\<not> opened (Suc d + m, enc (Suc d + m) c')"
    by (auto simp: below_side_def)
  have c': "side o' (Suc m) c c'" using b side_Suc by blast
  have "opened (d + j, enc (d + j) (up (Suc m - j) c'))" if "j < Suc m" for j
  proof (cases j)
    case 0
    then show ?thesis using assms side_up[OF c'] by simp
  next
    case (Suc i)
    then show ?thesis using l(2) that by simp
  qed
  then show "l \<in> below_side o' opened d c"
    using l(1,3) c' unfolding below_side_def by (intro CollectI exI[of _ "Suc m"] exI[of _ c']) simp
qed

text \<open>The loop over the potential neighbours, for any way of writing it.\<close>

definition valid :: "nat \<times> nat \<Rightarrow> bool" where
  "valid p \<longleftrightarrow> (\<exists>c. inside (fst p) c \<and> snd p = enc (fst p) c)"

definition leaves :: "'o \<Rightarrow> (nat \<times> nat \<Rightarrow> bool) \<Rightarrow> nat \<times> nat \<Rightarrow> (nat \<times> nat) set" where
  "leaves o' opened p = \<Union> {below_side o' opened (fst p) c | c. inside (fst p) c \<and> snd p = enc (fst p) c}"

lemma leaves_enc: "inside d c \<Longrightarrow> leaves o' opened (d, enc d c) = below_side o' opened d c"
  unfolding leaves_def using enc_inj by fastforce

lemma leaves_simps:
  assumes "valid p"
  shows "\<not> opened p \<Longrightarrow> leaves o' opened p = {p}"
    and "opened p \<Longrightarrow> leaves o' opened p = (\<Union>q\<in>set (parts o' p). leaves o' opened q)"
    and "q \<in> set (parts o' p) \<Longrightarrow> valid q"
proof -
  obtain c where c: "inside (fst p) c" "p = (fst p, enc (fst p) c)" using assms by (cases p) (auto simp: valid_def)
  have parts: "set (parts o' p) = (\<lambda>b. (Suc (fst p), enc (Suc (fst p)) b)) ` {b. side o' 1 c b}"
    using parts_sides[OF c(1)] c(2) by metis
  have ins: "inside (Suc (fst p)) b" if "side o' 1 c b" for b using side_inside[OF c(1) that] by simp
  show "leaves o' opened p = {p}" if "\<not> opened p"
    using leaves_enc[OF c(1)] below_side_closed that c(2) by metis
  have "leaves o' opened p = below_side o' opened (fst p) c" using leaves_enc[OF c(1)] c(2) by metis
  moreover have "(\<Union>q\<in>set (parts o' p). leaves o' opened q) = (\<Union>b\<in>{b. side o' 1 c b}. below_side o' opened (Suc (fst p)) b)"
    using leaves_enc[OF ins] by (simp add: parts)
  ultimately show "leaves o' opened p = (\<Union>q\<in>set (parts o' p). leaves o' opened q)" if "opened p"
    using below_side_opened that c(2) by metis
  show "valid q" if q: "q \<in> set (parts o' p)"
  proof -
    obtain b where b: "side o' 1 c b" "q = (Suc (fst p), enc (Suc (fst p)) b)" using q parts by auto
    then show ?thesis using ins[OF b(1)] by (auto simp: valid_def)
  qed
qed

text \<open>A leaf: all ancestors are opened, it is not; and how it meets a cell of another level.\<close>

definition grid_leaf :: "(nat \<times> nat \<Rightarrow> bool) \<Rightarrow> nat \<Rightarrow> 'c \<Rightarrow> bool" where
  "grid_leaf opened d c \<longleftrightarrow> inside d c \<and> (\<forall>k < d. opened (k, enc k (up (d - k) c))) \<and> \<not> opened (d, enc d c)"

definition meets :: "'o \<Rightarrow> nat \<Rightarrow> 'c \<Rightarrow> nat \<Rightarrow> 'c \<Rightarrow> bool" where
  "meets o' depth n d c \<longleftrightarrow> (if d \<le> depth then up (depth - d) n = c else side o' (d - depth) n c)"

lemma leaves_found:
  assumes "inside depth n" and "e \<le> depth" and "\<And>k. k < e \<Longrightarrow> opened (k, enc k (up (depth - k) n))"
    and "e < depth \<Longrightarrow> \<not> opened (e, enc e (up (depth - e) n))"
  shows "leaves o' opened (e, enc e (up (depth - e) n)) = {(d, enc d c) | d c. grid_leaf opened d c \<and> meets o' depth n d c}"
proof -
  let ?m = "up (depth - e) n"
  have m: "inside e ?m" using inside_up[of e "depth - e" n] assms(1,2) by simp
  have anc: "up (e - k) ?m = up (depth - k) n" if "k \<le> e" for k using up_up that assms(2) by simp
  show ?thesis
  proof (cases "e = depth")
    case True
    then have mn: "?m = n" using up_0 by simp
    have iff: "grid_leaf opened d c \<and> meets o' depth n d c \<longleftrightarrow>
      (\<exists>k. d = depth + k \<and> side o' k n c \<and> (\<forall>j < k. opened (depth + j, enc (depth + j) (up (k - j) c))) \<and> \<not> opened (d, enc d c))" for d c
    proof (rule iffI[rotated])
      assume "\<exists>k. d = depth + k \<and> side o' k n c \<and> (\<forall>j < k. opened (depth + j, enc (depth + j) (up (k - j) c))) \<and> \<not> opened (d, enc d c)"
      then obtain k where k: "d = depth + k" "side o' k n c" "\<forall>j < k. opened (depth + j, enc (depth + j) (up (k - j) c))"
        "\<not> opened (d, enc d c)" by blast
      have "opened (i, enc i (up (d - i) c))" if "i < d" for i
      proof (cases "i < depth")
        case True
        have "up (depth - i) n = up (depth - i) (up k c)" using side_up[OF k(2)] by simp
        also have "\<dots> = up (d - i) c" using True k(1) by (simp add: up_up add.commute)
        finally show ?thesis using assms(3)[of i] True \<open>e = depth\<close> by simp
      next
        case False
        then obtain j where "i = depth + j" by (metis le_Suc_ex not_le)
        then show ?thesis using k(1,3) that by simp
      qed
      then show "grid_leaf opened d c \<and> meets o' depth n d c"
        using k side_inside[OF assms(1) k(2)] side_0 up_0 by (cases k) (auto simp: grid_leaf_def meets_def)
    next
      assume l: "grid_leaf opened d c \<and> meets o' depth n d c"
      then have "depth \<le> d" using assms(3)[of d] True by (force simp: grid_leaf_def meets_def not_le)
      moreover from this have "side o' (d - depth) n c" using l side_0 up_0 by (cases "d = depth") (auto simp: meets_def)
      moreover have "\<forall>j < d - depth. opened (depth + j, enc (depth + j) (up (d - depth - j) c))" using l by (auto simp: grid_leaf_def)
      ultimately show "\<exists>k. d = depth + k \<and> side o' k n c \<and> (\<forall>j < k. opened (depth + j, enc (depth + j) (up (k - j) c))) \<and> \<not> opened (d, enc d c)"
        using l by (intro exI[of _ "d - depth"]) (auto simp: grid_leaf_def)
    qed
    show ?thesis
      unfolding leaves_enc[OF m] iff unfolding True mn diff_self_eq_0 up_0 below_side_def by (auto simp only: mem_Collect_eq prod.inject)
  next
    case False
    then have closed: "\<not> opened (e, enc e ?m)" using assms(2,4) by simp
    have "grid_leaf opened d c \<and> meets o' depth n d c \<longleftrightarrow> d = e \<and> c = ?m" for d c
    proof
      assume l: "grid_leaf opened d c \<and> meets o' depth n d c"
      have up_d: "up (d - k) c = up (depth - k) n" if "k \<le> d" "k \<le> depth" for k
      proof (cases "d \<le> depth")
        case True
        then show ?thesis using l up_up that by (auto simp: meets_def)
      next
        case False
        then have "up (d - depth) c = n" using l side_up[of o' "d - depth" n c] by (simp add: meets_def)
        then show ?thesis using up_up[of "depth - k" "d - depth" c] False that by simp
      qed
      have "\<not> e < d" using closed l up_d[of e] assms(2) by (auto simp: grid_leaf_def)
      moreover have "\<not> d < e"
      proof
        assume "d < e"
        then have "opened (d, enc d (up (depth - d) n))" "up (depth - d) n = c"
          using assms(2,3) up_d[of d] up_0 by simp_all
        then show False using l by (simp add: grid_leaf_def)
      qed
      ultimately have "d = e" by simp
      then show "d = e \<and> c = ?m" using l assms(2) by (simp add: meets_def)
    next
      assume "d = e \<and> c = ?m"
      then show "grid_leaf opened d c \<and> meets o' depth n d c"
        using m closed assms(2,3) anc by (auto simp: grid_leaf_def meets_def)
    qed
    then show ?thesis using leaves_enc[OF m] below_side_closed[of opened e ?m, OF closed] by simp
  qed
qed

end

section \<open>One coordinate\<close>

definition side1 :: "int \<Rightarrow> nat \<Rightarrow> nat \<Rightarrow> nat \<Rightarrow> bool" where
  "side1 ox k x x' \<longleftrightarrow> x' div 2 ^ k = x \<and> (ox = 1 \<longrightarrow> x' = x * 2 ^ k) \<and> (ox = -1 \<longrightarrow> x' + 1 = (x + 1) * 2 ^ k)"

lemma side1_0: "side1 ox 0 x x' \<longleftrightarrow> x' = x"
  by (auto simp: side1_def)

lemma side1_parts: "side1 ox 1 x b \<longleftrightarrow> (\<exists>a\<in>set (parts_range ox). b = 2 * x + a)"
proof -
  have "b div 2 = x \<longleftrightarrow> b = 2 * x \<or> b = 2 * x + 1" by arith
  moreover have "set (parts_range ox) = (if ox = 1 then {0} else if ox = -1 then {1} else {0, 1})"
    by (auto simp: parts_range_def)
  ultimately show ?thesis by (auto simp: side1_def)
qed

lemma side1_Suc: "side1 ox (Suc k) x x' \<longleftrightarrow> (\<exists>b. side1 ox 1 x b \<and> side1 ox k b x')"
proof -
  let ?b = "x' div 2 ^ k"
  have "x' div 2 ^ Suc k = ?b div 2" by (simp only: power_Suc2 div_mult2_eq)
  moreover have "x' = x * 2 ^ Suc k \<longleftrightarrow> ?b = 2 * x \<and> x' = ?b * 2 ^ k" by (auto simp: mult.assoc)
  moreover have "x' + 1 = (x + 1) * 2 ^ Suc k \<longleftrightarrow> ?b + 1 = 2 * (x + 1) \<and> x' + 1 = (?b + 1) * 2 ^ k"
  proof
    assume e: "x' + 1 = (x + 1) * 2 ^ Suc k"
    have e': "x' + 1 = 2 * 2 ^ k + 2 * (x * 2 ^ k)" using e by (simp add: algebra_simps)
    have le: "(1 :: nat) \<le> 2 ^ k" by simp
    have "?b = 2 * x + 1"
    proof (rule div_nat_eqI)
      have "2 ^ k * (2 * x + 1) = 2 * (x * 2 ^ k) + 2 ^ k" by (simp add: algebra_simps)
      then show "2 ^ k * (2 * x + 1) \<le> x'" using e' le by linarith
      have "2 ^ k * Suc (2 * x + 1) = 2 * 2 ^ k + 2 * (x * 2 ^ k)" by (simp add: algebra_simps)
      then show "x' < 2 ^ k * Suc (2 * x + 1)" using e' by linarith
    qed
    then show "?b + 1 = 2 * (x + 1) \<and> x' + 1 = (?b + 1) * 2 ^ k" using e by (simp add: algebra_simps)
  qed (simp add: algebra_simps)
  ultimately show ?thesis by (auto simp: side1_def)
qed

text \<open>The closed interval of a cell touches the one of a cell of another level.\<close>

definition touches1 :: "nat \<Rightarrow> nat \<Rightarrow> nat \<Rightarrow> nat \<Rightarrow> bool" where
  "touches1 depth x d x' \<longleftrightarrow> x' * 2 ^ depth \<le> (x + 1) * 2 ^ d \<and> x * 2 ^ d \<le> (x' + 1) * 2 ^ depth"

definition meets1 :: "int \<Rightarrow> nat \<Rightarrow> nat \<Rightarrow> nat \<Rightarrow> nat \<Rightarrow> bool" where
  "meets1 ox depth n d x' \<longleftrightarrow> (if d \<le> depth then n div 2 ^ (depth - d) = x' else side1 ox (d - depth) n x')"

lemma move_coordinate_inside:
  assumes "x < 2 ^ depth" and "depth < 64" and "ox \<in> {-1, 0, 1}"
  shows "move_coordinate x ox < 2 ^ depth \<longleftrightarrow> 0 \<le> int x + ox \<and> int x + ox < 2 ^ depth"
    and "0 \<le> int x + ox \<Longrightarrow> int x + ox < 2 ^ depth \<Longrightarrow> int (move_coordinate x ox) = int x + ox"
proof -
  have le: "(2 :: int) ^ depth \<le> 2 ^ 63" using assms(2) by (intro power_increasing) auto
  have x: "int x < 2 ^ depth" using assms(1) by (metis of_nat_less_iff of_nat_numeral of_nat_power)
  show eq: "int (move_coordinate x ox) = int x + ox" if "0 \<le> int x + ox" "int x + ox < 2 ^ depth"
    using that le by (simp add: move_coordinate_def)
  show "move_coordinate x ox < 2 ^ depth \<longleftrightarrow> 0 \<le> int x + ox \<and> int x + ox < 2 ^ depth"
  proof (cases "0 \<le> int x + ox")
    case True
    have "int x < 2 ^ 63" using x le by (rule less_le_trans)
    then have "int x + ox < 2 ^ 64" using assms(3) by auto
    then have "int (move_coordinate x ox) = int x + ox" using True by (simp add: move_coordinate_def)
    then show ?thesis using True by (metis of_nat_less_iff of_nat_numeral of_nat_power)
  next
    case False
    then have "int x = 0" "ox = -1" using assms(3) by auto
    then have "int (move_coordinate x ox) = 2 ^ 64 - 1" by (simp add: move_coordinate_def)
    then have "move_coordinate x ox = 2 ^ 64 - 1" by simp
    moreover have "(2 :: nat) ^ depth \<le> 2 ^ 63" using assms(2) by (intro power_increasing) auto
    ultimately show ?thesis using False by simp
  qed
qed

lemma touches1_coarse:
  fixes p :: nat
  assumes "0 < p"
  shows "x' * p \<le> x + 1 \<and> x \<le> (x' + 1) * p \<longleftrightarrow>
    0 < x \<and> (x - 1) div p = x' \<or> x div p = x' \<or> (x + 1) div p = x'"
proof
  assume l: "x' * p \<le> x + 1 \<and> x \<le> (x' + 1) * p"
  consider "x + 1 = p * x'" | "x = p * Suc x'" | "p * x' \<le> x" "x < p * Suc x'" using l by (force simp: mult.commute)
  then show "0 < x \<and> (x - 1) div p = x' \<or> x div p = x' \<or> (x + 1) div p = x'"
  proof cases
    case 1
    then show ?thesis using assms by simp
  next
    case 2
    have x: "x = p * x' + p" "p * Suc x' = p * x' + p" using 2 by simp_all
    have "(x - 1) div p = x'"
    proof (rule div_nat_eqI)
      show "p * x' \<le> x - 1" using assms x(1) by linarith
      show "x - 1 < p * Suc x'" using assms x by linarith
    qed
    then show ?thesis using 2 assms by simp
  next
    case 3
    then show ?thesis by (simp add: div_nat_eqI)
  qed
next
  have bounds: "x' * p \<le> n \<and> n < (x' + 1) * p" if "n div p = x'" for n
    using that assms by (metis add.commute div_mult_self_is_m dividend_less_div_times div_times_less_eq_dividend mult.commute plus_1_eq_Suc mult_Suc)
  assume "0 < x \<and> (x - 1) div p = x' \<or> x div p = x' \<or> (x + 1) div p = x'"
  then show "x' * p \<le> x + 1 \<and> x \<le> (x' + 1) * p" using bounds[of "x - 1"] bounds[of x] bounds[of "x + 1"] by linarith
qed

lemma touches1_fine:
  fixes p :: nat
  assumes "0 < p"
  shows "x' \<le> (x + 1) * p \<and> x * p \<le> x' + 1 \<longleftrightarrow>
    0 < x \<and> x' div p = x - 1 \<and> x' + 1 = x * p \<or> x' div p = x \<or> x' div p = x + 1 \<and> x' = (x + 1) * p"
proof
  assume l: "x' \<le> (x + 1) * p \<and> x * p \<le> x' + 1"
  consider "x' + 1 = x * p" | "x' = (x + 1) * p" | "p * x \<le> x'" "x' < p * Suc x" using l by (force simp: mult.commute)
  then show "0 < x \<and> x' div p = x - 1 \<and> x' + 1 = x * p \<or> x' div p = x \<or> x' div p = x + 1 \<and> x' = (x + 1) * p"
  proof cases
    case 1
    then obtain y where y: "x = Suc y" by (cases x) auto
    have x: "x' + 1 = p * y + p" "p * Suc y = p * y + p" using 1 by (simp_all add: y algebra_simps)
    have "x' div p = y"
    proof (rule div_nat_eqI)
      show "p * y \<le> x'" using assms x(1) by linarith
      show "x' < p * Suc y" using x by linarith
    qed
    then show ?thesis using 1 y by simp
  next
    case 2
    then show ?thesis using assms by simp
  next
    case 3
    then show ?thesis by (simp add: div_nat_eqI)
  qed
next
  have bounds: "x * p \<le> x' \<and> x' < (x + 1) * p" if "x' div p = x"
    using that assms by (metis add.commute dividend_less_div_times div_times_less_eq_dividend mult_Suc plus_1_eq_Suc mult.commute)
  assume "0 < x \<and> x' div p = x - 1 \<and> x' + 1 = x * p \<or> x' div p = x \<or> x' div p = x + 1 \<and> x' = (x + 1) * p"
  then consider "x' + 1 = x * p" | "x' div p = x" | "x' = (x + 1) * p" by blast
  then show "x' \<le> (x + 1) * p \<and> x * p \<le> x' + 1"
  proof cases
    case 2
    then show ?thesis using bounds by simp
  qed (simp_all add: add_mult_distrib)
qed

lemma ex_offset:
  "(\<exists>ox\<in>{-1, 0, 1}. 0 \<le> int x + ox \<and> int x + ox < 2 ^ depth \<and> P ox (nat (int x + ox))) \<longleftrightarrow>
    0 < x \<and> x - 1 < 2 ^ depth \<and> P (-1) (x - 1) \<or> x < 2 ^ depth \<and> P 0 x \<or> x + 1 < 2 ^ depth \<and> P 1 (x + 1)"
proof -
  have minus: "0 \<le> int x + -1 \<and> int x + -1 < 2 ^ depth \<and> P (-1) (nat (int x + -1)) \<longleftrightarrow>
      0 < x \<and> x - 1 < 2 ^ depth \<and> P (-1) (x - 1)"
  proof (cases x)
    case (Suc y)
    then have "int x + -1 = int y" by simp
    then show ?thesis using Suc by (simp only:) simp
  qed simp
  have plus: "0 \<le> int x + 1 \<and> int x + 1 < 2 ^ depth \<and> P 1 (nat (int x + 1)) \<longleftrightarrow> x + 1 < 2 ^ depth \<and> P 1 (x + 1)"
  proof -
    have "int x + 1 = int (x + 1)" by simp
    then show ?thesis by (simp only: nat_int of_nat_0_le_iff simp_thms of_nat_less_numeral_power_cancel_iff)
  qed
  have zero: "0 \<le> int x + 0 \<and> int x + 0 < 2 ^ depth \<and> P 0 (nat (int x + 0)) \<longleftrightarrow> x < 2 ^ depth \<and> P 0 x" by simp
  have all: "(\<exists>ox\<in>{-1, 0, 1}. Q ox) \<longleftrightarrow> Q (-1) \<or> Q 0 \<or> Q 1" for Q :: "int \<Rightarrow> bool" by simp
  show ?thesis unfolding all minus plus zero by (rule refl)
qed

lemma touches1_meets1:
  assumes "x < 2 ^ depth" and "x' < 2 ^ d"
  shows "touches1 depth x d x' \<longleftrightarrow>
    (\<exists>ox\<in>{-1, 0, 1}. 0 \<le> int x + ox \<and> int x + ox < 2 ^ depth \<and> meets1 ox depth (nat (int x + ox)) d x')"
proof (cases "d \<le> depth")
  case True
  let ?p = "2 ^ (depth - d) :: nat"
  have p: "(2 :: nat) ^ depth = 2 ^ d * ?p" using True by (simp flip: power_add)
  have "touches1 depth x d x' \<longleftrightarrow> x' * ?p * 2 ^ d \<le> (x + 1) * 2 ^ d \<and> x * 2 ^ d \<le> (x' + 1) * ?p * 2 ^ d"
    unfolding touches1_def p by (simp only: mult.commute mult.left_commute)
  moreover have "(0 :: nat) < 2 ^ d" by simp
  ultimately have t: "touches1 depth x d x' \<longleftrightarrow> x' * ?p \<le> x + 1 \<and> x \<le> (x' + 1) * ?p" by (simp only: mult_le_cancel2 simp_thms)
  have up: "x + 1 < 2 ^ depth" if "(x + 1) div ?p = x'"
  proof (rule ccontr)
    assume "\<not> x + 1 < 2 ^ depth"
    then have "x + 1 = 2 ^ d * ?p" using assms(1) p by simp
    then show False using that assms(2) by simp
  qed
  have pos: "0 < ?p" and down: "x - 1 < 2 ^ depth" using assms(1) by simp_all
  show ?thesis
    unfolding ex_offset[of x depth "\<lambda>ox n. meets1 ox depth n d x'"] unfolding meets1_def t touches1_coarse[OF pos] if_P[OF True] using up assms(1) down by blast
next
  case False
  let ?p = "2 ^ (d - depth) :: nat"
  have p: "(2 :: nat) ^ d = 2 ^ depth * ?p" using False by (simp flip: power_add)
  have "touches1 depth x d x' \<longleftrightarrow> x' * 2 ^ depth \<le> (x + 1) * ?p * 2 ^ depth \<and> x * ?p * 2 ^ depth \<le> (x' + 1) * 2 ^ depth"
    unfolding touches1_def p by (simp only: mult.commute mult.left_commute)
  moreover have "(0 :: nat) < 2 ^ depth" by simp
  ultimately have t: "touches1 depth x d x' \<longleftrightarrow> x' \<le> (x + 1) * ?p \<and> x * ?p \<le> x' + 1" by (simp only: mult_le_cancel2 simp_thms)
  have up: "x + 1 < 2 ^ depth" if "x' = (x + 1) * ?p"
  proof -
    have "(x + 1) * ?p < 2 ^ depth * ?p" using that assms(2) p by (simp only:)
    then show ?thesis by (simp only: mult_less_cancel2)
  qed
  have pos: "0 < ?p" and down: "x - 1 < 2 ^ depth" using assms(1) by simp_all
  have s: "side1 (-1) (d - depth) (x - 1) x' \<longleftrightarrow> x' div ?p = x - 1 \<and> x' + 1 = x * ?p" if "0 < x"
    using that by (simp add: side1_def)
  have s': "side1 0 (d - depth) x x' \<longleftrightarrow> x' div ?p = x" "side1 1 (d - depth) (x + 1) x' \<longleftrightarrow> x' div ?p = x + 1 \<and> x' = (x + 1) * ?p"
    by (simp_all add: side1_def)
  show ?thesis
    unfolding ex_offset[of x depth "\<lambda>ox n. meets1 ox depth n d x'"] unfolding meets1_def t touches1_fine[OF pos] if_not_P[OF False] s' using s up assms(1) down by blast
qed

section \<open>The grids of the plane and of the space\<close>

definition enc2 :: "nat \<Rightarrow> nat \<times> nat \<Rightarrow> nat" where
  "enc2 d c = snd c * 2 ^ d + fst c"

definition enc3 :: "nat \<Rightarrow> nat \<times> nat \<times> nat \<Rightarrow> nat" where
  "enc3 d c = snd (snd c) * 2 ^ d * 2 ^ d + fst (snd c) * 2 ^ d + fst c"

definition up2 :: "nat \<Rightarrow> nat \<times> nat \<Rightarrow> nat \<times> nat" where
  "up2 k c = (fst c div 2 ^ k, snd c div 2 ^ k)"

definition up3 :: "nat \<Rightarrow> nat \<times> nat \<times> nat \<Rightarrow> nat \<times> nat \<times> nat" where
  "up3 k c = (fst c div 2 ^ k, fst (snd c) div 2 ^ k, snd (snd c) div 2 ^ k)"

definition side2 :: "int \<times> int \<Rightarrow> nat \<Rightarrow> nat \<times> nat \<Rightarrow> nat \<times> nat \<Rightarrow> bool" where
  "side2 o' k c c' \<longleftrightarrow> side1 (fst o') k (fst c) (fst c') \<and> side1 (snd o') k (snd c) (snd c')"

definition side3 :: "int \<times> int \<times> int \<Rightarrow> nat \<Rightarrow> nat \<times> nat \<times> nat \<Rightarrow> nat \<times> nat \<times> nat \<Rightarrow> bool" where
  "side3 o' k c c' \<longleftrightarrow> side1 (fst o') k (fst c) (fst c') \<and> side1 (fst (snd o')) k (fst (snd c)) (fst (snd c')) \<and>
     side1 (snd (snd o')) k (snd (snd c)) (snd (snd c'))"

abbreviation inside2 :: "nat \<Rightarrow> nat \<times> nat \<Rightarrow> bool" where
  "inside2 d \<equiv> in2 (2 ^ d)"

abbreviation inside3 :: "nat \<Rightarrow> nat \<times> nat \<times> nat \<Rightarrow> bool" where
  "inside3 d \<equiv> in3 (2 ^ d)"

lemma side1_up: "side1 ox k x x' \<Longrightarrow> x' div 2 ^ k = x"
  by (simp add: side1_def)

lemma side1_inside: "x < 2 ^ d \<Longrightarrow> side1 ox k x x' \<Longrightarrow> x' < 2 ^ (d + k)"
  by (auto simp: side1_def power_add div_less_iff_less_mult)

lemma up1_inside: "(x :: nat) < 2 ^ (d + k) \<Longrightarrow> x div 2 ^ k < 2 ^ d"
  by (simp add: power_add div_less_iff_less_mult)

lemma decode2:
  assumes "x < n"
  shows "(y * n + x) mod n = x" and "(y * n + x) div n = (y :: nat)"
  using assms by simp_all

lemma decode3:
  fixes n :: nat
  assumes "x < n" and "y < n"
  shows "(z * n * n + y * n + x) mod n = x" and "(z * n * n + y * n + x) mod (n * n) div n = y"
    and "(z * n * n + y * n + x) div (n * n) = z"
proof -
  have e: "z * n * n + y * n + x = z * (n * n) + (y * n + x)" "z * n * n + y * n + x = (z * n + y) * n + x"
    by (simp_all add: algebra_simps)
  have "y * n + x < n * n"
  proof -
    have "y * n + x < Suc y * n" using assms(1) by simp
    also have "\<dots> \<le> n * n" using assms(2) by (intro mult_le_mono) simp_all
    finally show ?thesis .
  qed
  then show "(z * n * n + y * n + x) mod (n * n) div n = y" "(z * n * n + y * n + x) div (n * n) = z"
    using assms decode2[of "y * n + x" "n * n" z] by (simp_all add: e(1))
  show "(z * n * n + y * n + x) mod n = x" using assms(1) by (simp add: e(2))
qed

lemmas side1_parts_Suc = side1_parts[unfolded One_nat_def]

lemma set_nested2: "set (concat (map (\<lambda>a. map (f a) bs) as)) = (\<lambda>(a, b). f a b) ` (set as \<times> set bs)"
  by auto

lemma set_nested3: "set (concat (map (\<lambda>a. concat (map (\<lambda>b. map (f a b) cs) bs)) as)) =
    (\<lambda>(a, b, c). f a b c) ` (set as \<times> set bs \<times> set cs)"
  by (auto simp: image_iff) blast

lemma enc2_decode: "inside2 d c \<Longrightarrow> enc2 d c mod 2 ^ d = fst c \<and> enc2 d c div 2 ^ d = snd c"
  using decode2[of "fst c" "2 ^ d" "snd c"] by (simp add: in2_def enc2_def)

lemma enc3_decode:
  "inside3 d c \<Longrightarrow> enc3 d c mod 2 ^ d = fst c \<and> enc3 d c mod (2 ^ d * 2 ^ d) div 2 ^ d = fst (snd c) \<and>
    enc3 d c div (2 ^ d * 2 ^ d) = snd (snd c)"
  using decode3[of "fst c" "2 ^ d" "fst (snd c)" "snd (snd c)"] by (simp add: in3_def enc3_def)

interpretation g2: halved_grid enc2 inside2 up2 side2 "\<lambda>o'. parts2 (fst o') (snd o')"
proof
  show "up2 0 c = c" and "up2 j (up2 k c) = up2 (k + j) c" for c j k
    by (simp_all add: up2_def power_add div_mult2_eq)
  show "side2 o' 0 c c' \<longleftrightarrow> c' = c" for o' c c'
    by (auto simp: side2_def side1_0 prod_eq_iff)
  show "up2 k c' = c" if "side2 o' k c c'" for o' k c c'
    using that by (auto simp: side2_def up2_def prod_eq_iff dest: side1_up)
  show "side2 o' (Suc k) c c' \<longleftrightarrow> (\<exists>b. side2 o' 1 c b \<and> side2 o' k b c')" for o' k c c'
    unfolding side2_def side1_Suc[of _ k] by auto
  show "inside2 (d + k) c'" if "inside2 d c" "side2 o' k c c'" for d c o' k c'
    using that side1_inside by (auto simp: in2_def side2_def)
  show "inside2 d (up2 k c)" if "inside2 (d + k) c" for d k c
    using that up1_inside by (auto simp: in2_def up2_def)
  show "c = c'" if "inside2 d c" "inside2 d c'" "enc2 d c = enc2 d c'" for d c c'
    using enc2_decode[OF that(1)] enc2_decode[OF that(2)] that(3) by (metis prod_eqI)
  show "set (parts2 (fst o') (snd o') (d, enc2 d c)) = (\<lambda>b. (Suc d, enc2 (Suc d) b)) ` {b. side2 o' 1 c b}"
    if "inside2 d c" for d c o'
  proof -
    note dec = enc2_decode[OF that]
    have kids: "{b. side2 o' 1 c b} = (\<lambda>(a, b). (2 * fst c + a, 2 * snd c + b)) ` (set (parts_range (fst o')) \<times> set (parts_range (snd o')))"
    proof (intro set_eqI)
      fix b
      show "b \<in> {b. side2 o' 1 c b} \<longleftrightarrow> b \<in> (\<lambda>(a, b). (2 * fst c + a, 2 * snd c + b)) `
        (set (parts_range (fst o')) \<times> set (parts_range (snd o')))"
        by (cases b) (auto simp: side2_def side1_parts_Suc image_iff)
    qed
    show ?thesis
      unfolding parts2_def Let_def fst_conv snd_conv set_nested2 kids image_image using dec
      by (intro image_cong) (auto simp: enc2_def mult.commute)
  qed
qed

interpretation g3: halved_grid enc3 inside3 up3 side3 "\<lambda>o'. parts3 (fst o') (fst (snd o')) (snd (snd o'))"
proof
  show "up3 0 c = c" and "up3 j (up3 k c) = up3 (k + j) c" for c j k
    by (simp_all add: up3_def power_add div_mult2_eq)
  show "side3 o' 0 c c' \<longleftrightarrow> c' = c" for o' c c'
    by (auto simp: side3_def side1_0 prod_eq_iff)
  show "up3 k c' = c" if "side3 o' k c c'" for o' k c c'
    using that by (auto simp: side3_def up3_def prod_eq_iff dest: side1_up)
  show "side3 o' (Suc k) c c' \<longleftrightarrow> (\<exists>b. side3 o' 1 c b \<and> side3 o' k b c')" for o' k c c'
    unfolding side3_def side1_Suc[of _ k] by auto
  show "inside3 (d + k) c'" if "inside3 d c" "side3 o' k c c'" for d c o' k c'
    using that side1_inside by (auto simp: in3_def side3_def)
  show "inside3 d (up3 k c)" if "inside3 (d + k) c" for d k c
    using that up1_inside by (auto simp: in3_def up3_def)
  show "c = c'" if "inside3 d c" "inside3 d c'" "enc3 d c = enc3 d c'" for d c c'
    using enc3_decode[OF that(1)] enc3_decode[OF that(2)] that(3) by (metis prod_eqI)
  show "set (parts3 (fst o') (fst (snd o')) (snd (snd o')) (d, enc3 d c)) = (\<lambda>b. (Suc d, enc3 (Suc d) b)) ` {b. side3 o' 1 c b}"
    if "inside3 d c" for d c o'
  proof -
    note dec = enc3_decode[OF that]
    have kids: "{b. side3 o' 1 c b} = (\<lambda>(a, b, e). (2 * fst c + a, 2 * fst (snd c) + b, 2 * snd (snd c) + e)) `
        (set (parts_range (fst o')) \<times> set (parts_range (fst (snd o'))) \<times> set (parts_range (snd (snd o'))))"
    proof (intro set_eqI)
      fix b
      show "b \<in> {b. side3 o' 1 c b} \<longleftrightarrow> b \<in> (\<lambda>(a, b, e). (2 * fst c + a, 2 * fst (snd c) + b, 2 * snd (snd c) + e)) `
        (set (parts_range (fst o')) \<times> set (parts_range (fst (snd o'))) \<times> set (parts_range (snd (snd o'))))"
        by (cases b) (auto simp: side3_def side1_parts_Suc image_iff)
    qed
    show ?thesis
      unfolding parts3_def Let_def fst_conv snd_conv set_nested3 kids image_image using dec
      by (intro image_cong) (auto simp: enc3_def mult.commute mult.left_commute)
  qed
qed

section \<open>The loops of the code\<close>

lemma std_binary_search_sorted:
  assumes "sorted xs"
  shows "std_binary_search xs v \<longleftrightarrow> v \<in> set xs"
proof -
  have "length (takeWhile (\<lambda>x. x < v) xs) < length xs \<and> \<not> v < xs ! length (takeWhile (\<lambda>x. x < v) xs) \<longleftrightarrow> v \<in> set xs"
    using assms
  proof (induction xs)
    case (Cons x xs)
    then show ?case by (cases "x < v") auto
  qed simp
  then show ?thesis by (simp add: std_binary_search_def lower_bound_def Let_def)
qed

text \<open>The refined buckets of the grid: every level is sorted.\<close>

definition xyz_sorted :: "sfc \<Rightarrow> bool" where
  "xyz_sorted s \<longleftrightarrow> list_all sorted (refinedxyz s)"

definition cell_index :: "nat \<Rightarrow> nat \<Rightarrow> nat \<Rightarrow> nat \<Rightarrow> nat \<Rightarrow> nat" where
  "cell_index depth x y z e =
    z div 2 ^ (depth - e) * 2 ^ e * 2 ^ e + y div 2 ^ (depth - e) * 2 ^ e + x div 2 ^ (depth - e)"

lemma bucket_loop_ok:
  assumes "xyz_sorted s" and "depth \<le> length (refinedxyz s)" and "d \<le> depth"
  shows "\<exists>e. d \<le> e \<and> e \<le> depth \<and> bucket_loop s depth x y z d (2 ^ d) (2 ^ (depth - d)) = Some (e, cell_index depth x y z e) \<and>
    (\<forall>k. d \<le> k \<and> k < e \<longrightarrow> cell_index depth x y z k \<in> set (refinedxyz s ! k)) \<and> (e < depth \<longrightarrow> cell_index depth x y z e \<notin> set (refinedxyz s ! e))"
  using assms(3)
proof (induction "depth - d" arbitrary: d rule: less_induct)
  case less
  show ?case
  proof (cases "d < depth")
    case False
    then have "bucket_loop s depth x y z d (2 ^ d) (2 ^ (depth - d)) = Some (d, cell_index depth x y z d)"
      by (subst bucket_loop.simps) (simp add: cell_index_def)
    then show ?thesis using less.prems False by (intro exI[of _ d]) auto
  next
    case True
    then have srt: "std_binary_search (refinedxyz s ! d) v \<longleftrightarrow> v \<in> set (refinedxyz s ! d)" for v
      using assms(1,2) by (intro std_binary_search_sorted) (simp add: xyz_sorted_def list_all_length)
    have step: "bucket_loop s depth x y z d (2 ^ d) (2 ^ (depth - d)) =
        (if cell_index depth x y z d \<in> set (refinedxyz s ! d) then bucket_loop s depth x y z (Suc d) (2 ^ d * 2) (2 ^ (depth - d) div 2)
         else Some (d, cell_index depth x y z d))"
      using True assms(2) by (subst bucket_loop.simps) (simp add: cell_index_def rd_Some srt)
    show ?thesis
    proof (cases "cell_index depth x y z d \<in> set (refinedxyz s ! d)")
      case False
      then show ?thesis using step less.prems True by (intro exI[of _ d]) auto
    next
      case here: True
      have "2 ^ (depth - d) div 2 = (2 :: nat) ^ (depth - Suc d)"
        using True by (simp add: Suc_diff_Suc[symmetric])
      then have step': "bucket_loop s depth x y z d (2 ^ d) (2 ^ (depth - d)) =
          bucket_loop s depth x y z (Suc d) (2 ^ Suc d) (2 ^ (depth - Suc d))"
        using step here by (simp add: mult.commute)
      have dec: "depth - Suc d < depth - d" and le: "Suc d \<le> depth" using True by simp_all
      obtain e where e: "Suc d \<le> e" "e \<le> depth"
        "bucket_loop s depth x y z (Suc d) (2 ^ Suc d) (2 ^ (depth - Suc d)) = Some (e, cell_index depth x y z e)"
        "\<forall>k. Suc d \<le> k \<and> k < e \<longrightarrow> cell_index depth x y z k \<in> set (refinedxyz s ! k)" "e < depth \<longrightarrow> cell_index depth x y z e \<notin> set (refinedxyz s ! e)"
        using less.hyps[OF dec le] by blast
      have "cell_index depth x y z k \<in> set (refinedxyz s ! k)" if "d \<le> k" "k < e" for k
        using e(4) here that by (cases "k = d") auto
      then show ?thesis using e step' by (intro exI[of _ e]) auto
    qed
  qed
qed

lemma open_loop2_set:
  assumes "list_all g2.valid q"
  shows "\<exists>new. open_loop2 s ox oy q nb = nb @ new \<and> set new = (\<Union>p\<in>set q. g2.leaves (ox, oy) (opened2 s) p)"
  using assms
proof (induction s ox oy q nb rule: open_loop2.induct)
  case (2 s ox oy p q nb)
  show ?case
  proof (cases "opened2 s p")
    case True
    have parts: "list_all g2.valid (parts2 ox oy p)"
      using 2(3) g2.leaves_simps(3)[of p _ "(ox, oy)"] by (auto simp: list_all_iff)
    have "g2.leaves (ox, oy) (opened2 s) p = (\<Union>q\<in>set (parts2 ox oy p). g2.leaves (ox, oy) (opened2 s) q)"
      using g2.leaves_simps(2)[of p "opened2 s" "(ox, oy)"] 2(3) True by simp
    then show ?thesis using 2(1)[OF True] 2(3) parts True by (simp add: Un_commute)
  next
    case False
    have "g2.leaves (ox, oy) (opened2 s) p = {p}"
      using g2.leaves_simps(1)[of p "opened2 s" "(ox, oy)"] 2(3) False by simp
    then show ?thesis using 2(2)[OF False] 2(3) False by auto
  qed
qed simp

lemma open_loop3_set:
  assumes "list_all g3.valid q"
  shows "\<exists>new. open_loop3 s ox oy oz q nb = nb @ new \<and> set new = (\<Union>p\<in>set q. g3.leaves (ox, oy, oz) (opened3 s) p)"
  using assms
proof (induction s ox oy oz q nb rule: open_loop3.induct)
  case (2 s ox oy oz p q nb)
  show ?case
  proof (cases "opened3 s p")
    case True
    have parts: "list_all g3.valid (parts3 ox oy oz p)"
      using 2(3) g3.leaves_simps(3)[of p _ "(ox, oy, oz)"] by (auto simp: list_all_iff)
    have "g3.leaves (ox, oy, oz) (opened3 s) p = (\<Union>q\<in>set (parts3 ox oy oz p). g3.leaves (ox, oy, oz) (opened3 s) q)"
      using g3.leaves_simps(2)[of p "opened3 s" "(ox, oy, oz)"] 2(3) True by simp
    then show ?thesis using 2(1)[OF True] 2(3) parts True by (simp add: Un_commute)
  next
    case False
    have "g3.leaves (ox, oy, oz) (opened3 s) p = {p}"
      using g3.leaves_simps(1)[of p "opened3 s" "(ox, oy, oz)"] 2(3) False by simp
    then show ?thesis using 2(2)[OF False] 2(3) False by auto
  qed
qed simp

lemma for_each_collect:
  assumes "\<And>i nb. i \<in> set is \<Longrightarrow> \<exists>new. body i nb = Some (nb @ new) \<and> set new = F i"
  shows "\<exists>new. for_each is body nb = Some (nb @ new) \<and> set new = (\<Union>i\<in>set is. F i)"
  using assms
proof (induction "is" arbitrary: nb)
  case (Cons i "is")
  obtain new where new: "body i nb = Some (nb @ new)" "set new = F i" using Cons.prems[of i nb] by auto
  obtain more where "for_each is body (nb @ new) = Some ((nb @ new) @ more)" "set more = (\<Union>i\<in>set is. F i)"
    using Cons.IH[of "nb @ new"] Cons.prems by auto
  then show ?case using new by (intro exI[of _ "new @ more"]) simp
qed simp

lemma opened_simps:
  assumes "xyz_sorted s"
  shows "opened2 s (k, v) \<longleftrightarrow> k < length (refinedxyz s) \<and> v \<in> set (refinedxyz s ! k)"
    and "opened3 s (k, v) \<longleftrightarrow> k + 1 < length (refinedxyz s) \<and> v \<in> set (refinedxyz s ! k)"
  using assms by (auto simp: opened2_def opened3_def xyz_sorted_def list_all_length std_binary_search_sorted)

lemma offsets: "set [-1..1 :: int] = {-1, 0, 1}"
  by auto

lemmas for_each_offsets = for_each_collect[of "[-1..1 :: int]", unfolded offsets]

lemma meets_coordinates:
  "g2.meets (ox, oy) depth n d c \<longleftrightarrow> meets1 ox depth (fst n) d (fst c) \<and> meets1 oy depth (snd n) d (snd c)"
  "g3.meets (ox, oy, oz) depth m d e \<longleftrightarrow> meets1 ox depth (fst m) d (fst e) \<and> meets1 oy depth (fst (snd m)) d (fst (snd e)) \<and>
    meets1 oz depth (snd (snd m)) d (snd (snd e))"
  by (auto simp: g2.meets_def g3.meets_def meets1_def up2_def up3_def side2_def side3_def prod_eq_iff)

text \<open>The leaves for one offset.\<close>

lemma one_offset2:
  assumes "xyz_sorted s" and "depth < length (refinedxyz s)" and "x < 2 ^ depth" and "y < 2 ^ depth"
  shows "\<exists>p new. getXYZBucket s depth x y 0 = Some p \<and> open_loop2 s ox oy [p] nb = nb @ new \<and>
    set new = {(d, enc2 d c) | d c. g2.grid_leaf (opened2 s) d c \<and> meets1 ox depth x d (fst c) \<and> meets1 oy depth y d (snd c)}"
proof -
  have n: "inside2 depth (x, y)" using assms(3,4) by (simp add: in2_def)
  have index: "cell_index depth x y 0 k = enc2 k (up2 (depth - k) (x, y))" for k
    by (simp add: cell_index_def enc2_def up2_def)
  obtain e where e: "e \<le> depth" "getXYZBucket s depth x y 0 = Some (e, enc2 e (up2 (depth - e) (x, y)))"
    "\<forall>k < e. enc2 k (up2 (depth - k) (x, y)) \<in> set (refinedxyz s ! k)"
    "e < depth \<longrightarrow> enc2 e (up2 (depth - e) (x, y)) \<notin> set (refinedxyz s ! e)"
    using bucket_loop_ok[of s depth 0 x y 0] assms(1,2) by (auto simp: index getXYZBucket_def)
  let ?p = "(e, enc2 e (up2 (depth - e) (x, y)))"
  have "g2.leaves (ox, oy) (opened2 s) ?p =
      {(d, enc2 d c) | d c. g2.grid_leaf (opened2 s) d c \<and> g2.meets (ox, oy) depth (x, y) d c}"
    by (rule g2.leaves_found[OF n e(1)]) (use e(1,3,4) assms(2) in \<open>simp_all add: opened_simps[OF assms(1)]\<close>)
  moreover have "inside2 e (up2 (depth - e) (x, y))" using g2.inside_up[of e "depth - e"] n e(1) by simp
  then have "g2.valid ?p" unfolding g2.valid_def fst_conv snd_conv by blast
  then have "list_all g2.valid [?p]" by simp
  moreover note open_loop2_set[of "[?p]" s ox oy nb]
  ultimately show ?thesis using e(2) by (simp add: meets_coordinates)
qed

lemma one_offset3:
  assumes "xyz_sorted s" and "depth < length (refinedxyz s)" and "x < 2 ^ depth" and "y < 2 ^ depth" and "z < 2 ^ depth"
  shows "\<exists>p new. getXYZBucket s depth x y z = Some p \<and> open_loop3 s ox oy oz [p] nb = nb @ new \<and>
    set new = {(d, enc3 d c) | d c. g3.grid_leaf (opened3 s) d c \<and> meets1 ox depth x d (fst c) \<and>
      meets1 oy depth y d (fst (snd c)) \<and> meets1 oz depth z d (snd (snd c))}"
proof -
  have n: "inside3 depth (x, y, z)" using assms(3-5) by (simp add: in3_def)
  have index: "cell_index depth x y z k = enc3 k (up3 (depth - k) (x, y, z))" for k
    by (simp add: cell_index_def enc3_def up3_def)
  obtain e where e: "e \<le> depth" "getXYZBucket s depth x y z = Some (e, enc3 e (up3 (depth - e) (x, y, z)))"
    "\<forall>k < e. enc3 k (up3 (depth - k) (x, y, z)) \<in> set (refinedxyz s ! k)"
    "e < depth \<longrightarrow> enc3 e (up3 (depth - e) (x, y, z)) \<notin> set (refinedxyz s ! e)"
    using bucket_loop_ok[of s depth 0 x y z] assms(1,2) by (auto simp: index getXYZBucket_def)
  let ?p = "(e, enc3 e (up3 (depth - e) (x, y, z)))"
  have "g3.leaves (ox, oy, oz) (opened3 s) ?p =
      {(d, enc3 d c) | d c. g3.grid_leaf (opened3 s) d c \<and> g3.meets (ox, oy, oz) depth (x, y, z) d c}"
    by (rule g3.leaves_found[OF n e(1)]) (use e(1,3,4) assms(2) in \<open>simp_all add: opened_simps[OF assms(1)]\<close>)
  moreover have "inside3 e (up3 (depth - e) (x, y, z))" using g3.inside_up[of e "depth - e"] n e(1) by simp
  then have "g3.valid ?p" unfolding g3.valid_def fst_conv snd_conv by blast
  then have "list_all g3.valid [?p]" by simp
  moreover note open_loop3_set[of "[?p]" s ox oy oz nb]
  ultimately show ?thesis using e(2) by (simp add: meets_coordinates)
qed

definition meets_moved :: "int \<Rightarrow> nat \<Rightarrow> nat \<Rightarrow> nat \<Rightarrow> nat \<Rightarrow> bool" where
  "meets_moved ox depth x d x' \<longleftrightarrow> 0 \<le> int x + ox \<and> int x + ox < 2 ^ depth \<and> meets1 ox depth (nat (int x + ox)) d x'"

lemma move_meets:
  assumes "x < 2 ^ depth" and "depth < 64" and "ox \<in> {-1, 0, 1}"
  shows "meets_moved ox depth x d x' \<longleftrightarrow> move_coordinate x ox < 2 ^ depth \<and> meets1 ox depth (move_coordinate x ox) d x'"
  using move_coordinate_inside[OF assms] unfolding meets_moved_def by (metis nat_int)

lemma setcompr_image: "{(d, f d c) | d c. A d c} = (\<lambda>p. (fst p, f (fst p) (snd p))) ` {p. A (fst p) (snd p)}"
  by (auto simp: image_def)

lemma UN_image2: "(\<Union>i\<in>I. \<Union>j\<in>J. E ` {p. G p \<and> P i p \<and> Q j p}) = E ` {p. G p \<and> (\<exists>i\<in>I. P i p) \<and> (\<exists>j\<in>J. Q j p)}"
  by blast

lemma UN_image3: "(\<Union>i\<in>I. \<Union>j\<in>J. \<Union>k\<in>K. E ` {p. G p \<and> P i p \<and> Q j p \<and> R k p}) =
    E ` {p. G p \<and> (\<exists>i\<in>I. P i p) \<and> (\<exists>j\<in>J. Q j p) \<and> (\<exists>k\<in>K. R k p)}"
  by blast

lemma touches_moved:
  "x < 2 ^ depth \<Longrightarrow> x' < 2 ^ d \<Longrightarrow> (\<exists>ox\<in>{-1, 0, 1}. meets_moved ox depth x d x') \<longleftrightarrow> touches1 depth x d x'"
  by (simp only: touches1_meets1 meets_moved_def)

lemma addXYNeighbors_ok:
  assumes "xyz_sorted s" and "depth < length (refinedxyz s)" and "depth < 64" and "x < 2 ^ depth" and "y < 2 ^ depth"
  shows "\<exists>new. addXYNeighbors s depth x y nb = Some (nb @ new) \<and>
    set new = (\<lambda>p. (fst p, enc2 (fst p) (snd p))) ` {p. g2.grid_leaf (opened2 s) (fst p) (snd p) \<and>
      touches1 depth x (fst p) (fst (snd p)) \<and> touches1 depth y (fst p) (snd (snd p))}"
proof -
  let ?O = "{-1, 0, 1} :: int set"
  let ?E = "\<lambda>p. (fst p, enc2 (fst p) (snd p))" and ?G = "\<lambda>p. g2.grid_leaf (opened2 s) (fst p) (snd p)"
  let ?M = "\<lambda>ox p. meets_moved ox depth x (fst p) (fst (snd p))" and ?N = "\<lambda>oy p. meets_moved oy depth y (fst p) (snd (snd p))"
  let ?F = "\<lambda>ox oy. ?E ` {p. ?G p \<and> ?M ox p \<and> ?N oy p}"
  let ?body = "\<lambda>ox oy neighbors. if move_coordinate x ox < 2 ^ depth \<and> move_coordinate y oy < 2 ^ depth then do {
       p \<leftarrow> getXYZBucket s depth (move_coordinate x ox) (move_coordinate y oy) 0;
       Some (open_loop2 s ox oy [p] neighbors)
     } else Some neighbors"
  have one: "\<exists>new. ?body ox oy nb = Some (nb @ new) \<and> set new = ?F ox oy" if o: "ox \<in> ?O" "oy \<in> ?O" for ox oy nb
  proof (cases "move_coordinate x ox < 2 ^ depth \<and> move_coordinate y oy < 2 ^ depth")
    case True
    obtain p new where "getXYZBucket s depth (move_coordinate x ox) (move_coordinate y oy) 0 = Some p"
      "open_loop2 s ox oy [p] nb = nb @ new" "set new = ?F ox oy"
      using one_offset2[OF assms(1,2), of "move_coordinate x ox" "move_coordinate y oy" ox oy nb] True
      unfolding setcompr_image move_meets[OF assms(4,3) o(1)] move_meets[OF assms(5,3) o(2)] by auto
    then show ?thesis unfolding if_P[OF True] by (simp del: open_loop2.simps)
  next
    case False
    then have "?F ox oy = {}" unfolding move_meets[OF assms(4,3) o(1)] move_meets[OF assms(5,3) o(2)] by auto
    then show ?thesis unfolding if_not_P[OF False] by simp
  qed
  have "\<exists>new. for_each [-1..1] (?body ox) nb = Some (nb @ new) \<and> set new = (\<Union>oy\<in>?O. ?F ox oy)" if "ox \<in> ?O" for ox nb
    by (rule for_each_offsets) (rule one[OF that])
  then have "\<exists>new. addXYNeighbors s depth x y nb = Some (nb @ new) \<and> set new = (\<Union>ox\<in>?O. \<Union>oy\<in>?O. ?F ox oy)"
    unfolding addXYNeighbors_def by (rule for_each_offsets)
  moreover have "?G p \<and> (\<exists>ox\<in>?O. ?M ox p) \<and> (\<exists>oy\<in>?O. ?N oy p) \<longleftrightarrow>
      ?G p \<and> touches1 depth x (fst p) (fst (snd p)) \<and> touches1 depth y (fst p) (snd (snd p))" for p
    using touches_moved[OF assms(4)] touches_moved[OF assms(5)] unfolding g2.grid_leaf_def in2_def by blast
  ultimately show ?thesis unfolding UN_image2 by simp
qed

lemma addXYZNeighbors_ok:
  assumes "xyz_sorted s" and "depth < length (refinedxyz s)" and "depth < 64"
    and "x < 2 ^ depth" and "y < 2 ^ depth" and "z < 2 ^ depth"
  shows "\<exists>new. addXYZNeighbors s depth x y z nb = Some (nb @ new) \<and>
    set new = (\<lambda>p. (fst p, enc3 (fst p) (snd p))) ` {p. g3.grid_leaf (opened3 s) (fst p) (snd p) \<and>
      touches1 depth x (fst p) (fst (snd p)) \<and> touches1 depth y (fst p) (fst (snd (snd p))) \<and>
      touches1 depth z (fst p) (snd (snd (snd p)))}"
proof -
  let ?O = "{-1, 0, 1} :: int set"
  let ?E = "\<lambda>p. (fst p, enc3 (fst p) (snd p))" and ?G = "\<lambda>p. g3.grid_leaf (opened3 s) (fst p) (snd p)"
  let ?M = "\<lambda>ox p. meets_moved ox depth x (fst p) (fst (snd p))" and ?N = "\<lambda>oy p. meets_moved oy depth y (fst p) (fst (snd (snd p)))"
    and ?P = "\<lambda>oz p. meets_moved oz depth z (fst p) (snd (snd (snd p)))"
  let ?F = "\<lambda>ox oy oz. ?E ` {p. ?G p \<and> ?M ox p \<and> ?N oy p \<and> ?P oz p}"
  let ?body = "\<lambda>ox oy oz neighbors.
       if move_coordinate x ox < 2 ^ depth \<and> move_coordinate y oy < 2 ^ depth \<and> move_coordinate z oz < 2 ^ depth then do {
         p \<leftarrow> getXYZBucket s depth (move_coordinate x ox) (move_coordinate y oy) (move_coordinate z oz);
         Some (open_loop3 s ox oy oz [p] neighbors)
       } else Some neighbors"
  have one: "\<exists>new. ?body ox oy oz nb = Some (nb @ new) \<and> set new = ?F ox oy oz"
    if o: "ox \<in> ?O" "oy \<in> ?O" "oz \<in> ?O" for ox oy oz nb
  proof (cases "move_coordinate x ox < 2 ^ depth \<and> move_coordinate y oy < 2 ^ depth \<and> move_coordinate z oz < 2 ^ depth")
    case True
    then have r: "move_coordinate x ox < 2 ^ depth" "move_coordinate y oy < 2 ^ depth" "move_coordinate z oz < 2 ^ depth" by blast+
    obtain p new where pn: "getXYZBucket s depth (move_coordinate x ox) (move_coordinate y oy) (move_coordinate z oz) = Some p"
      "open_loop3 s ox oy oz [p] nb = nb @ new"
      "set new = {(d, enc3 d c) | d c. g3.grid_leaf (opened3 s) d c \<and> meets1 ox depth (move_coordinate x ox) d (fst c) \<and>
        meets1 oy depth (move_coordinate y oy) d (fst (snd c)) \<and> meets1 oz depth (move_coordinate z oz) d (snd (snd c))}"
      using one_offset3[OF assms(1,2) r, of ox oy oz nb] by blast
    have "set new = ?F ox oy oz"
      unfolding pn(3) setcompr_image move_meets[OF assms(4,3) o(1)] move_meets[OF assms(5,3) o(2)] move_meets[OF assms(6,3) o(3)]
      by (simp only: r simp_thms)
    then show ?thesis unfolding if_P[OF True] using pn(1,2) by (simp del: open_loop3.simps)
  next
    case False
    then have "?F ox oy oz = {}"
      unfolding move_meets[OF assms(4,3) o(1)] move_meets[OF assms(5,3) o(2)] move_meets[OF assms(6,3) o(3)] by auto
    then show ?thesis unfolding if_not_P[OF False] by simp
  qed
  have inner: "\<exists>new. for_each [-1..1] (?body ox oy) nb = Some (nb @ new) \<and> set new = (\<Union>oz\<in>?O. ?F ox oy oz)"
    if "ox \<in> ?O" "oy \<in> ?O" for ox oy nb
    by (rule for_each_offsets) (rule one[OF that])
  have "\<exists>new. for_each [-1..1] (\<lambda>oy. for_each [-1..1] (?body ox oy)) nb = Some (nb @ new) \<and>
      set new = (\<Union>oy\<in>?O. \<Union>oz\<in>?O. ?F ox oy oz)" if "ox \<in> ?O" for ox nb
    by (rule for_each_offsets) (rule inner[OF that])
  then have "\<exists>new. addXYZNeighbors s depth x y z nb = Some (nb @ new) \<and>
      set new = (\<Union>ox\<in>?O. \<Union>oy\<in>?O. \<Union>oz\<in>?O. ?F ox oy oz)"
    unfolding addXYZNeighbors_def by (rule for_each_offsets)
  moreover have "?G p \<and> (\<exists>ox\<in>?O. ?M ox p) \<and> (\<exists>oy\<in>?O. ?N oy p) \<and> (\<exists>oz\<in>?O. ?P oz p) \<longleftrightarrow>
      ?G p \<and> touches1 depth x (fst p) (fst (snd p)) \<and> touches1 depth y (fst p) (fst (snd (snd p))) \<and>
      touches1 depth z (fst p) (snd (snd (snd p)))" for p
  proof (cases "?G p")
    case True
    then have b: "fst (snd p) < 2 ^ fst p" "fst (snd (snd p)) < 2 ^ fst p" "snd (snd (snd p)) < 2 ^ fst p"
      by (simp_all add: g3.grid_leaf_def in3_def)
    show ?thesis
      by (simp only: touches_moved[OF assms(4) b(1)] touches_moved[OF assms(5) b(2)] touches_moved[OF assms(6) b(3)])
  qed (simp only: simp_thms)
  ultimately show ?thesis unfolding UN_image3 by simp
qed

end
