(* ===== verification/SfcTree.thy ===== *)
theory SfcTree
  imports SfcNeighbors
begin

text \<open>
  The refined curve and the refined grid of \<^verbatim>\<open>spacefillingcurve.cpp\<close> are the same tree: halving a cell
  of the Hilbert curve divides its index by the number of parts.  So the neighbours that are found
  in the grid are the leaves of the curve that touch the bucket.
\<close>

section \<open>The curve is nested\<close>

lemma reflect_half: "x < 2 * s \<Longrightarrow> (2 * s - Suc x) div 2 = s - Suc (x div 2)" for s :: nat
  by arith

lemma place2_half: "in2 (2 * s) p \<Longrightarrow> up2 1 (place2 (2 * s) q p) = place2 s q (up2 1 p)"
  by (cases p) (auto simp: up2_def place2_def rot2_def in2_def reflect_half mult.assoc)

lemma place3_half: "in3 (2 * s) p \<Longrightarrow> up3 1 (place3 (2 * s) q p) = place3 s q (up3 1 p)"
  by (cases p) (auto simp: up3_def place3_def rot3_def in3_def reflect_half mult.assoc)

lemma curve2_half: "up2 1 (curve2 (Suc k) d) = curve2 k (d div 4)"
proof (induction k)
  case 0
  have "in2 2 (curve2 1 d)" using curve2_in[of 1 d] by simp
  then show ?case by (simp add: up2_def in2_def prod_eq_iff)
next
  case (Suc k)
  have "up2 1 (curve2 (Suc (Suc k)) d) = place2 (2 ^ k) (d div 4 ^ Suc k) (up2 1 (curve2 (Suc k) d))"
    using place2_half[of "2 ^ k" "curve2 (Suc k) d" "d div 4 ^ Suc k"] curve2_in[of "Suc k" d] by simp
  then show ?case by (simp add: Suc.IH[simplified] div_mult2_eq)
qed

lemma curve3_half: "up3 1 (curve3 (Suc k) d) = curve3 k (d div 8)"
proof (induction k)
  case 0
  have "in3 2 (curve3 1 d)" using curve3_in[of 1 d] by simp
  then show ?case by (simp add: up3_def in3_def prod_eq_iff)
next
  case (Suc k)
  have "up3 1 (curve3 (Suc (Suc k)) d) = place3 (2 ^ k) (d div 8 ^ Suc k) (up3 1 (curve3 (Suc k) d))"
    using place3_half[of "2 ^ k" "curve3 (Suc k) d" "d div 8 ^ Suc k"] curve3_in[of "Suc k" d] by simp
  then show ?case by (simp add: Suc.IH[simplified] div_mult2_eq)
qed

lemma curve2_up: "up2 j (curve2 (k + j) d) = curve2 k (d div 4 ^ j)"
proof (induction j arbitrary: d)
  case (Suc j)
  have "up2 (Suc j) (curve2 (k + Suc j) d) = up2 j (up2 1 (curve2 (Suc (k + j)) d))"
    by (simp add: g2.up_up[simplified])
  then show ?case by (simp only: curve2_half Suc.IH) (simp add: div_mult2_eq)
qed (simp add: up2_def)

lemma curve3_up: "up3 j (curve3 (k + j) d) = curve3 k (d div 8 ^ j)"
proof (induction j arbitrary: d)
  case (Suc j)
  have "up3 (Suc j) (curve3 (k + Suc j) d) = up3 j (up3 1 (curve3 (Suc (k + j)) d))"
    by (simp add: g3.up_up[simplified])
  then show ?case by (simp only: curve3_half Suc.IH) (simp add: div_mult2_eq)
qed (simp add: up3_def)

section \<open>Decoding and encoding\<close>

lemma unat_u64: "n < 2 ^ 64 \<Longrightarrow> unat (of_nat n :: u64) = n"
  by (simp add: unat_of_nat)

lemma cell2_curve:
  assumes "k \<le> 31" and "d < 4 ^ k"
  shows "cell2 (2 ^ k) d = Some (curve2 k d)"
proof -
  have "(4 :: nat) ^ k \<le> 4 ^ 31" using assms(1) by (intro power_increasing) auto
  then have d: "unat (of_nat d :: u64) = d" using assms(2) by (intro unat_u64) simp
  obtain x y where "D1toD2 (2 ^ k) (of_nat d) = Some (x, y)" "(unat x, unat y) = curve2 k d"
    using D1toD2_eq[of k "of_nat d"] assms(1) d by auto
  then show ?thesis by (simp add: cell2_def)
qed

lemma cell3_curve:
  assumes "k \<le> 20" and "d < 8 ^ k"
  shows "cell3 (2 ^ k) d = Some (curve3 k d)"
proof -
  have "(8 :: nat) ^ k \<le> 8 ^ 20" using assms(1) by (intro power_increasing) auto
  then have d: "unat (of_nat d :: u64) = d" using assms(2) by (intro unat_u64) simp
  obtain x y z where "D1toD3 (2 ^ k) (of_nat d) = Some (x, y, z)" "(unat x, unat y, unat z) = curve3 k d"
    using D1toD3_eq[of k "of_nat d"] assms(1) d by auto
  then show ?thesis by (simp add: cell3_def)
qed

lemma sfc2_index:
  assumes "k \<le> 31" and "inside2 k c"
  shows "sfc2 (2 ^ k) (fst c) (snd c) = index2 k c"
proof -
  have "(2 :: nat) ^ k \<le> 2 ^ 31" using assms(1) by (intro power_increasing) auto
  then have "unat (of_nat (fst c) :: u64) = fst c" "unat (of_nat (snd c) :: u64) = snd c"
    using assms(2) by (auto simp: in2_def intro!: unat_u64)
  then show ?thesis using unat_D2toD1[of k "of_nat (fst c)" "of_nat (snd c)"] assms by (simp add: sfc2_def in2_def)
qed

lemma sfc3_index:
  assumes "k \<le> 20" and "inside3 k c"
  shows "sfc3 (2 ^ k) (fst c) (fst (snd c)) (snd (snd c)) = index3 k c"
proof -
  have "(2 :: nat) ^ k \<le> 2 ^ 20" using assms(1) by (intro power_increasing) auto
  then have "unat (of_nat (fst c) :: u64) = fst c" "unat (of_nat (fst (snd c)) :: u64) = fst (snd c)"
    "unat (of_nat (snd (snd c)) :: u64) = snd (snd c)"
    using assms(2) by (auto simp: in3_def intro!: unat_u64)
  then show ?thesis
    using unat_D3toD1[of k "of_nat (fst c)" "of_nat (fst (snd c))" "of_nat (snd (snd c))"] assms by (simp add: sfc3_def in3_def)
qed

section \<open>The grid made from the curve\<close>

lemma refined_bound:
  assumes "sfc_ok s" and "refined s i v"
  shows "v < bucketSize s ^ i"
  using assms(2)
proof (induction i arbitrary: v)
  case 0
  then show ?case using assms(1) by (auto simp: sfc_ok_def refined_def)
next
  case (Suc i)
  then have "v div bucketSize s < bucketSize s ^ i" using sfc_okD(6)[OF assms(1)] by blast
  then show ?case using bucketSize_pos[of s] by (simp add: div_less_iff_less_mult mult.commute)
qed

text \<open>The position of a bucket in the grid of its level.\<close>

definition grid_index :: "sfc \<Rightarrow> nat \<Rightarrow> nat \<Rightarrow> nat" where
  "grid_index s i v = (if sfc_dimension s = 2 then enc2 i (curve2 i v) else enc3 i (curve3 i v))"

lemma SCFToXYZ_ok:
  assumes "sfc_ok s" and "refinedxyz s = []" and "sfc_depth s \<le> 20"
  shows "SCFToXYZ s = Some (s\<lparr>refinedxyz := map (\<lambda>i. sort (map (grid_index s i) (refinedsfc s ! i))) [0..<length (refinedsfc s)]\<rparr>)"
proof -
  let ?level = "\<lambda>i. map (grid_index s i) (refinedsfc s ! i)"
  let ?add = "\<lambda>i v xyz. do {
         level \<leftarrow> rd xyz i;
         if sfc_dimension s = 2 then do { (x, y) \<leftarrow> cell2 (2 ^ i) v; wr xyz i (level @ [y * 2 ^ i + x]) }
         else if sfc_dimension s = 3 then do { (x, y, z) \<leftarrow> cell3 (2 ^ i) v; wr xyz i (level @ [z * 2 ^ i * 2 ^ i + y * 2 ^ i + x]) }
         else Some xyz }"
  have dim: "sfc_dimension s = 2 \<or> sfc_dimension s = 3" using sfc_okD(1)[OF assms(1)] by simp
  have inner: "for_each vs (?add i) (xyz @ [level]) = Some (xyz @ [level @ map (grid_index s i) vs])"
    if "i < length (refinedsfc s)" "length xyz = i" "set vs \<subseteq> set (refinedsfc s ! i)" for i xyz level vs
    using that(3)
  proof (induction vs arbitrary: level)
    case (Cons v vs)
    have "refined s i v" using Cons.prems that(1) by (simp add: refined_def)
    then have v: "v < bucketSize s ^ i" using refined_bound[OF assms(1)] by blast
    have i: "i \<le> 20" using that(1) sfc_okD(3)[OF assms(1)] assms(3) by simp
    have "?add i v (xyz @ [level]) = Some (xyz @ [level @ [grid_index s i v]])"
    proof (cases "sfc_dimension s = 2")
      case True
      then have "cell2 (2 ^ i) v = Some (curve2 i v)" using v i by (intro cell2_curve) (simp_all add: bucketSize_def)
      then show ?thesis using True that(2) by (simp add: rd_def wr_def nth_append list_update_append grid_index_def enc2_def split: prod.splits)
    next
      case False
      then have "cell3 (2 ^ i) v = Some (curve3 i v)" using v i by (intro cell3_curve) (simp_all add: bucketSize_def)
      then show ?thesis using False dim that(2) by (simp add: rd_def wr_def nth_append list_update_append grid_index_def enc3_def split: prod.splits)
    qed
    then show ?case using Cons by simp
  qed simp
  have "for_each [0..<n] (\<lambda>i xyz. do {
       let n = 2 ^ i;
       let xyz = xyz @ [[]];
       cells \<leftarrow> rd (refinedsfc s) i;
       xyz \<leftarrow> for_each cells (?add i) xyz;
       level \<leftarrow> rd xyz i;
       wr xyz i (sort level)
     }) [] = Some (map (\<lambda>i. sort (?level i)) [0..<n])" if "n \<le> length (refinedsfc s)" for n
    using that
  proof (induction n)
    case (Suc n)
    then show ?case
      using inner[of n "map (\<lambda>i. sort (?level i)) [0..<n]" "refinedsfc s ! n" "[]"]
      by (simp add: for_each_append rd_Some Let_def) (simp add: rd_def wr_def nth_append list_update_append)
  qed simp
  from this[of "length (refinedsfc s)"] show ?thesis by (simp add: SCFToXYZ_def assms(2) Let_def)
qed

section \<open>Leaves of the curve and of the grid\<close>

text \<open>A bucket of the tree that is not divided.\<close>

definition tree_leaf :: "sfc \<Rightarrow> nat \<Rightarrow> nat \<Rightarrow> bool" where
  "tree_leaf s d v \<longleftrightarrow> leaf s d v \<and> v < bucketSize s ^ d"

definition buckets_touch :: "sfc \<Rightarrow> nat \<Rightarrow> nat \<Rightarrow> nat \<Rightarrow> nat \<Rightarrow> bool" where
  "buckets_touch s depth u d v \<longleftrightarrow>
     (if sfc_dimension s = 2
      then touches1 depth (fst (curve2 depth u)) d (fst (curve2 d v)) \<and> touches1 depth (snd (curve2 depth u)) d (snd (curve2 d v))
      else touches1 depth (fst (curve3 depth u)) d (fst (curve3 d v)) \<and>
        touches1 depth (fst (snd (curve3 depth u))) d (fst (snd (curve3 d v))) \<and>
        touches1 depth (snd (snd (curve3 depth u))) d (snd (snd (curve3 d v))))"

lemma leaf_level:
  assumes "sfc_ok s" and "leaf s d v"
  shows "d < length (refinedsfc s)"
proof (cases d)
  case 0
  then show ?thesis using sfc_okD(2)[OF assms(1)] by simp
next
  case (Suc k)
  have le: "Suc k \<le> sfc_depth s" using assms(2) Suc by (simp add: leaf_def)
  have "refined s k (v div bucketSize s ^ (d - k))" using assms(2) Suc unfolding leaf_def by blast
  then have k: "k < length (refinedsfc s)" "refinedsfc s ! k \<noteq> []" by (auto simp: refined_def)
  have "Suc k \<noteq> length (refinedsfc s)"
  proof
    assume last: "Suc k = length (refinedsfc s)"
    then have "length (refinedsfc s) - 1 = k" by simp
    then show False using sfc_okD(4)[OF assms(1)] last le k(2) by simp
  qed
  then show ?thesis using k(1) Suc by simp
qed

lemma for_each_rewrite:
  assumes "\<And>i ns. body i ns = rd ns i \<bind> (\<lambda>p. wr ns i (f p))"
  shows "for_each [length nb..<length (nb @ new)] body (nb @ new) = Some (nb @ map f new)"
proof -
  have "for_each [length nb..<length nb + n] body (nb @ new) = Some (nb @ map f (take n new) @ drop n new)"
    if "n \<le> length new" for n
    using that
  proof (induction n)
    case (Suc n)
    then have n: "n < length new" by simp
    have "drop n new = new ! n # drop (Suc n) new" "take (Suc n) new = take n new @ [new ! n]"
      using n by (simp_all add: Cons_nth_drop_Suc take_Suc_conv_app_nth)
    then show ?case using Suc.IH n
      by (simp add: for_each_append assms rd_def wr_def nth_append list_update_append min_def)
  qed simp
  from this[of "length new"] show ?thesis by simp
qed

text \<open>The opened buckets of the grid, and its leaves.\<close>

lemma grid_leaf_index:
  assumes opened: "\<And>k v. v < b ^ k \<Longrightarrow> opened (k, enc k (curve k v)) \<longleftrightarrow> k < sfc_depth s \<and> refined s k v"
    and curve_up: "\<And>k. k \<le> d \<Longrightarrow> up (d - k) c = curve k (index c div b ^ (d - k))"
    and b: "b = bucketSize s" and index: "index c < b ^ d"
  shows "(\<forall>k < d. opened (k, enc k (up (d - k) c))) \<and> \<not> opened (d, enc d (curve d (index c))) \<longleftrightarrow> leaf s d (index c)"
proof -
  have less: "index c div b ^ (d - k) < b ^ k" if "k \<le> d" for k
    using index that bucketSize_pos[of s] b by (simp add: div_less_iff_less_mult flip: power_add)
  have each: "opened (k, enc k (up (d - k) c)) \<longleftrightarrow> k < sfc_depth s \<and> refined s k (index c div b ^ (d - k))" if "k < d" for k
    unfolding curve_up[OF less_imp_le[OF that]] by (rule opened[OF less[OF less_imp_le[OF that]]])
  have "d \<le> sfc_depth s" if "\<forall>k < d. k < sfc_depth s" using that by (meson not_le less_irrefl)
  then have "(\<forall>k < d. opened (k, enc k (up (d - k) c))) \<longleftrightarrow>
      d \<le> sfc_depth s \<and> (\<forall>k < d. refined s k (index c div b ^ (d - k)))"
    using each by (auto dest: order_less_le_trans)
  then show ?thesis unfolding opened[OF index] leaf_def b by blast
qed

lemma grid_level_member:
  assumes "inj_on (grid_index s k) {..<bucketSize s ^ k}" and "sfc_ok s" and "k < length (refinedsfc s)" and "v < bucketSize s ^ k"
  shows "grid_index s k v \<in> grid_index s k ` set (refinedsfc s ! k) \<longleftrightarrow> refined s k v"
proof -
  have "set (refinedsfc s ! k) \<subseteq> {..<bucketSize s ^ k}"
    using refined_bound[OF assms(2)] assms(3) by (auto simp: refined_def)
  then show ?thesis using inj_on_image_mem_iff[OF assms(1)] assms(3,4) by (simp add: refined_def)
qed

lemma grid_index_inj:
  assumes "sfc_ok s"
  shows "inj_on (grid_index s k) {..<bucketSize s ^ k}"
proof (rule inj_onI)
  fix u v
  assume uv: "u \<in> {..<bucketSize s ^ k}" "v \<in> {..<bucketSize s ^ k}" "grid_index s k u = grid_index s k v"
  show "u = v"
  proof (cases "sfc_dimension s = 2")
    case True
    then have "enc2 k (curve2 k u) = enc2 k (curve2 k v)" using uv(3) by (simp add: grid_index_def)
    then have same: "curve2 k u = curve2 k v" by (rule g2.enc_inj[OF curve2_in curve2_in])
    have "u < 4 ^ k" "v < 4 ^ k" using uv(1,2) True by (simp_all add: bucketSize_def)
    then show ?thesis using same index2_curve2 by metis
  next
    case False
    then have "enc3 k (curve3 k u) = enc3 k (curve3 k v)" using uv(3) by (simp add: grid_index_def)
    then have same: "curve3 k u = curve3 k v" by (rule g3.enc_inj[OF curve3_in curve3_in])
    have "u < 8 ^ k" "v < 8 ^ k" using uv(1,2) False by (simp_all add: bucketSize_def)
    then show ?thesis using same index3_curve3 by metis
  qed
qed

definition with_grid :: "sfc \<Rightarrow> sfc" where
  "with_grid s = s\<lparr>refinedxyz := map (\<lambda>i. sort (map (grid_index s i) (refinedsfc s ! i))) [0..<length (refinedsfc s)]\<rparr>"

lemma with_grid_simps [simp]:
  "length (refinedxyz (with_grid s)) = length (refinedsfc s)" "sfc_dimension (with_grid s) = sfc_dimension s"
  "xyz_sorted (with_grid s)"
  by (simp_all add: with_grid_def xyz_sorted_def list_all_iff)

lemma opened_index:
  assumes "sfc_ok s" and "v < bucketSize s ^ k"
  shows "opened2 (with_grid s) (k, grid_index s k v) \<longleftrightarrow> refined s k v"
    and "opened3 (with_grid s) (k, grid_index s k v) \<longleftrightarrow> k < sfc_depth s \<and> refined s k v"
proof -
  have "grid_index s k v \<in> set (refinedxyz (with_grid s) ! k) \<longleftrightarrow> refined s k v" if "k < length (refinedsfc s)"
    using grid_level_member[OF grid_index_inj[OF assms(1)] assms(1) that assms(2)] that by (simp add: with_grid_def)
  moreover have "k < length (refinedsfc s)" if "refined s k v" using that by (simp add: refined_def)
  moreover have "k + 1 < length (refinedsfc s) \<longleftrightarrow> k < sfc_depth s" if "refined s k v"
  proof -
    have k: "k < length (refinedsfc s)" "refinedsfc s ! k \<noteq> []" using that by (auto simp: refined_def)
    have "length (refinedsfc s) = Suc (sfc_depth s)" if "Suc k = length (refinedsfc s)"
    proof -
      have "length (refinedsfc s) - 1 = k" using that by simp
      then show ?thesis using sfc_okD(4)[OF assms(1)] k(2) by simp
    qed
    then show ?thesis using k(1) sfc_okD(3)[OF assms(1)] by (cases "Suc k = length (refinedsfc s)") auto
  qed
  moreover have "k < length (refinedsfc s)" if "k + 1 < length (refinedsfc s)" using that by simp
  ultimately show "opened2 (with_grid s) (k, grid_index s k v) \<longleftrightarrow> refined s k v"
    and "opened3 (with_grid s) (k, grid_index s k v) \<longleftrightarrow> k < sfc_depth s \<and> refined s k v"
    unfolding opened_simps[OF with_grid_simps(3)] with_grid_simps(1) by blast+
qed

lemma grid_leaf2:
  assumes "sfc_ok s" and "sfc_dimension s = 2" and "\<not> hasLevel s (sfc_depth s)"
  shows "g2.grid_leaf (opened2 (with_grid s)) d c \<longleftrightarrow> inside2 d c \<and> tree_leaf s d (index2 d c)"
proof (cases "inside2 d c")
  case True
  note c = curve2_index2[OF True]
  have b: "4 = bucketSize s" using assms(2) by (simp add: bucketSize_def)
  have opened: "opened2 (with_grid s) (k, enc2 k (curve2 k v)) \<longleftrightarrow> k < sfc_depth s \<and> refined s k v" if "v < 4 ^ k" for k v
  proof -
    have "v < bucketSize s ^ k" using that b by simp
    from opened_index(1)[OF assms(1) this] have "opened2 (with_grid s) (k, enc2 k (curve2 k v)) \<longleftrightarrow> refined s k v"
      using assms(2) by (simp add: grid_index_def)
    moreover have "k < sfc_depth s" if "refined s k v"
      using that assms(3) sfc_okD(3)[OF assms(1)] by (cases "k = sfc_depth s") (auto simp: refined_def hasLevel_def)
    ultimately show ?thesis by blast
  qed
  have up: "up2 (d - k) c = curve2 k (index2 d c div 4 ^ (d - k))" if "k \<le> d" for k
    using curve2_up[of "d - k" k "index2 d c"] that c by simp
  have "(\<forall>k < d. opened2 (with_grid s) (k, enc2 k (up2 (d - k) c))) \<and> \<not> opened2 (with_grid s) (d, enc2 d (curve2 d (index2 d c))) \<longleftrightarrow>
      leaf s d (index2 d c)"
    by (rule grid_leaf_index[where b = 4 and opened = "opened2 (with_grid s)" and enc = enc2 and curve = curve2 and up = up2 and
        index = "index2 d", OF opened up b index2_less])
  moreover have "index2 d c < bucketSize s ^ d" using index2_less[of d c] b by simp
  ultimately show ?thesis using True by (simp add: g2.grid_leaf_def tree_leaf_def c)
qed (simp add: g2.grid_leaf_def)

lemma grid_leaf3:
  assumes "sfc_ok s" and "sfc_dimension s = 3"
  shows "g3.grid_leaf (opened3 (with_grid s)) d c \<longleftrightarrow> inside3 d c \<and> tree_leaf s d (index3 d c)"
proof (cases "inside3 d c")
  case True
  note c = curve3_index3[OF True]
  have b: "8 = bucketSize s" using assms(2) by (simp add: bucketSize_def)
  have opened: "opened3 (with_grid s) (k, enc3 k (curve3 k v)) \<longleftrightarrow> k < sfc_depth s \<and> refined s k v" if "v < 8 ^ k" for k v
  proof -
    have "v < bucketSize s ^ k" using that b by simp
    from opened_index(2)[OF assms(1) this] show ?thesis using assms(2) by (simp add: grid_index_def)
  qed
  have up: "up3 (d - k) c = curve3 k (index3 d c div 8 ^ (d - k))" if "k \<le> d" for k
    using curve3_up[of "d - k" k "index3 d c"] that c by simp
  have "(\<forall>k < d. opened3 (with_grid s) (k, enc3 k (up3 (d - k) c))) \<and> \<not> opened3 (with_grid s) (d, enc3 d (curve3 d (index3 d c))) \<longleftrightarrow>
      leaf s d (index3 d c)"
    by (rule grid_leaf_index[where b = 8 and opened = "opened3 (with_grid s)" and enc = enc3 and curve = curve3 and up = up3 and
        index = "index3 d", OF opened up b index3_less])
  moreover have "index3 d c < bucketSize s ^ d" using index3_less[of d c] b by simp
  ultimately show ?thesis using True by (simp add: g3.grid_leaf_def tree_leaf_def c)
qed (simp add: g3.grid_leaf_def)

section \<open>The neighbours\<close>

lemma addSFCNeighbors_planar:
  assumes "sfc_ok s" and "sfc_dimension s = 2" and "sfc_depth s \<le> 20" and "\<not> hasLevel s (sfc_depth s)" and "tree_leaf s depth index"
  shows "\<exists>new. addSFCNeighbors (with_grid s) depth index nb = Some (nb @ new) \<and>
    set new = {(d, v). tree_leaf s d v \<and> buckets_touch s depth index d v}"
proof -
  let ?t = "with_grid s"
  have leaf: "leaf s depth index" and index: "index < 4 ^ depth"
    using assms(2,5) by (simp_all add: tree_leaf_def bucketSize_def)
  have depth: "depth < length (refinedsfc s)" "depth \<le> 20"
    using leaf_level[OF assms(1) leaf] sfc_okD(3)[OF assms(1)] assms(3) by simp_all
  obtain x y where xy: "curve2 depth index = (x, y)" by (cases "curve2 depth index")
  have bounds: "x < 2 ^ depth" "y < 2 ^ depth" using curve2_in[of depth index] xy by (simp_all add: in2_def)
  have cell: "cell2 (2 ^ depth) index = Some (x, y)" using cell2_curve[OF _ index] depth(2) xy by simp
  obtain new where new: "addXYNeighbors ?t depth x y nb = Some (nb @ new)"
    and found: "set new = (\<lambda>p. (fst p, enc2 (fst p) (snd p))) ` {p. g2.grid_leaf (opened2 ?t) (fst p) (snd p) \<and>
      touches1 depth x (fst p) (fst (snd p)) \<and> touches1 depth y (fst p) (snd (snd p))}"
    using addXYNeighbors_ok[of ?t depth x y nb] depth bounds by auto
  let ?f = "\<lambda>(d, v). (d, sfc2 (2 ^ d) (v mod 2 ^ d) (v div 2 ^ d))"
  have "addSFCNeighbors ?t depth index nb = Some (nb @ map ?f new)"
    unfolding addSFCNeighbors_def
    using for_each_rewrite[of _ ?f nb new, OF refl] by (simp add: assms(2) cell new Let_def case_prod_beta')
  moreover have coded: "?f (d, enc2 d c) = (d, index2 d c)" if leaf: "g2.grid_leaf (opened2 ?t) d c" for d c
  proof -
    have c: "inside2 d c" "tree_leaf s d (index2 d c)" using leaf grid_leaf2[OF assms(1,2,4)] by simp_all
    then have "d \<le> 20" using assms(3) by (simp add: tree_leaf_def leaf_def)
    then show ?thesis using sfc2_index[of d c] enc2_decode[OF c(1)] c(1) by simp
  qed
  moreover have "set (map ?f new) = {(d, v). tree_leaf s d v \<and> buckets_touch s depth index d v}"
  proof (intro equalityI subsetI)
    fix l
    assume "l \<in> set (map ?f new)"
    then obtain d c where c: "l = ?f (d, enc2 d c)" "g2.grid_leaf (opened2 ?t) d c"
      "touches1 depth x d (fst c)" "touches1 depth y d (snd c)" by (auto simp: found)
    then have "inside2 d c" "tree_leaf s d (index2 d c)" using grid_leaf2[OF assms(1,2,4)] by simp_all
    then show "l \<in> {(d, v). tree_leaf s d v \<and> buckets_touch s depth index d v}"
      using c(3,4) unfolding c(1) coded[OF c(2)] by (simp add: buckets_touch_def assms(2) curve2_index2 xy)
  next
    fix l
    assume "l \<in> {(d, v). tree_leaf s d v \<and> buckets_touch s depth index d v}"
    then obtain d v where l: "l = (d, v)" "tree_leaf s d v" "buckets_touch s depth index d v" by auto
    let ?c = "curve2 d v"
    have v: "index2 d ?c = v" using l(2) assms(2) by (intro index2_curve2) (simp add: tree_leaf_def bucketSize_def)
    have c: "g2.grid_leaf (opened2 ?t) d ?c" using grid_leaf2[OF assms(1,2,4)] curve2_in l(2) v by simp
    have "(d, enc2 d ?c) \<in> set new"
      using c l(3) unfolding found by (intro image_eqI[of _ _ "(d, ?c)"]) (simp_all add: buckets_touch_def assms(2) xy)
    then have "?f (d, enc2 d ?c) \<in> set (map ?f new)" unfolding set_map by (rule imageI)
    then show "l \<in> set (map ?f new)" unfolding coded[OF c] v l(1) .
  qed
  ultimately show ?thesis by blast
qed

lemma addSFCNeighbors_spatial:
  assumes "sfc_ok s" and "sfc_dimension s = 3" and "sfc_depth s \<le> 20" and "tree_leaf s depth index"
  shows "\<exists>new. addSFCNeighbors (with_grid s) depth index nb = Some (nb @ new) \<and>
    set new = {(d, v). tree_leaf s d v \<and> buckets_touch s depth index d v}"
proof -
  let ?t = "with_grid s"
  have leaf: "leaf s depth index" and index: "index < 8 ^ depth"
    using assms(2,4) by (simp_all add: tree_leaf_def bucketSize_def)
  have depth: "depth < length (refinedsfc s)" "depth \<le> 20"
    using leaf_level[OF assms(1) leaf] sfc_okD(3)[OF assms(1)] assms(3) by simp_all
  obtain x y z where xyz: "curve3 depth index = (x, y, z)" by (cases "curve3 depth index")
  have bounds: "x < 2 ^ depth" "y < 2 ^ depth" "z < 2 ^ depth"
    using curve3_in[of depth index] xyz by (simp_all add: in3_def)
  have cell: "cell3 (2 ^ depth) index = Some (x, y, z)" using cell3_curve[OF depth(2) index] xyz by simp
  obtain new where new: "addXYZNeighbors ?t depth x y z nb = Some (nb @ new)"
    and found: "set new = (\<lambda>p. (fst p, enc3 (fst p) (snd p))) ` {p. g3.grid_leaf (opened3 ?t) (fst p) (snd p) \<and>
      touches1 depth x (fst p) (fst (snd p)) \<and> touches1 depth y (fst p) (fst (snd (snd p))) \<and>
      touches1 depth z (fst p) (snd (snd (snd p)))}"
    using addXYZNeighbors_ok[of ?t depth x y z nb] depth bounds by auto
  let ?f = "\<lambda>(d, v). (d, sfc3 (2 ^ d) (v mod 2 ^ d) (v mod (2 ^ d * 2 ^ d) div 2 ^ d) (v div (2 ^ d * 2 ^ d)))"
  have "addSFCNeighbors ?t depth index nb = Some (nb @ map ?f new)"
    unfolding addSFCNeighbors_def
    using for_each_rewrite[of _ ?f nb new, OF refl] by (simp add: assms(2) cell new Let_def case_prod_beta')
  moreover have coded: "?f (d, enc3 d c) = (d, index3 d c)" if leaf: "g3.grid_leaf (opened3 ?t) d c" for d c
  proof -
    have c: "inside3 d c" "tree_leaf s d (index3 d c)" using leaf grid_leaf3[OF assms(1,2)] by simp_all
    then have "d \<le> 20" using assms(3) by (simp add: tree_leaf_def leaf_def)
    then show ?thesis using sfc3_index[of d c] enc3_decode[OF c(1)] c(1) by simp
  qed
  moreover have "set (map ?f new) = {(d, v). tree_leaf s d v \<and> buckets_touch s depth index d v}"
  proof (intro equalityI subsetI)
    fix l
    assume "l \<in> set (map ?f new)"
    then obtain d c where c: "l = ?f (d, enc3 d c)" "g3.grid_leaf (opened3 ?t) d c"
      "touches1 depth x d (fst c)" "touches1 depth y d (fst (snd c))" "touches1 depth z d (snd (snd c))"
      by (auto simp: found)
    then have "inside3 d c" "tree_leaf s d (index3 d c)" using grid_leaf3[OF assms(1,2)] by simp_all
    then show "l \<in> {(d, v). tree_leaf s d v \<and> buckets_touch s depth index d v}"
      using c(3-5) unfolding c(1) coded[OF c(2)] by (simp add: buckets_touch_def assms(2) curve3_index3 xyz)
  next
    fix l
    assume "l \<in> {(d, v). tree_leaf s d v \<and> buckets_touch s depth index d v}"
    then obtain d v where l: "l = (d, v)" "tree_leaf s d v" "buckets_touch s depth index d v" by auto
    let ?c = "curve3 d v"
    have v: "index3 d ?c = v" using l(2) assms(2) by (intro index3_curve3) (simp add: tree_leaf_def bucketSize_def)
    have c: "g3.grid_leaf (opened3 ?t) d ?c" using grid_leaf3[OF assms(1,2)] curve3_in l(2) v by simp
    have "(d, enc3 d ?c) \<in> set new"
      using c l(3) unfolding found by (intro image_eqI[of _ _ "(d, ?c)"]) (simp_all add: buckets_touch_def assms(2) xyz)
    then have "?f (d, enc3 d ?c) \<in> set (map ?f new)" unfolding set_map by (rule imageI)
    then show "l \<in> set (map ?f new)" unfolding coded[OF c] v l(1) .
  qed
  ultimately show ?thesis by blast
qed

text \<open>
  C11: The neighbours on the refined curve.  For a leaf of a well-formed tree \<^verbatim>\<open>SCFToXYZ\<close> followed by
  \<^verbatim>\<open>addSFCNeighbors\<close> ends without reading out of range and appends exactly the leaves whose closed
  cells touch the cell of the bucket, itself included, for every dimension.  In the plane the
  finest level must not be refined: there the code tests the level without the bound that the
  spatial version has.
\<close>

theorem addSFCNeighbors_correct:
  assumes "sfc_ok s" and "refinedxyz s = []" and "sfc_depth s \<le> 20" and "sfc_dimension s = 2 \<Longrightarrow> \<not> hasLevel s (sfc_depth s)"
    and "tree_leaf s depth index"
  shows "\<exists>t new. SCFToXYZ s = Some t \<and> addSFCNeighbors t depth index neighbors = Some (neighbors @ new) \<and>
    set new = {(d, v). tree_leaf s d v \<and> buckets_touch s depth index d v}"
proof -
  have "\<exists>new. addSFCNeighbors (with_grid s) depth index neighbors = Some (neighbors @ new) \<and>
      set new = {(d, v). tree_leaf s d v \<and> buckets_touch s depth index d v}"
    using addSFCNeighbors_planar[OF assms(1) _ assms(3,4,5)] addSFCNeighbors_spatial[OF assms(1) _ assms(3,5)]
      sfc_okD(1)[OF assms(1)] by blast
  then show ?thesis using SCFToXYZ_ok[OF assms(1-3)] by (auto simp: with_grid_def)
qed

theorem addSFCNeighbors_correct_witness:
  "\<exists>t new. SCFToXYZ example_sfc = Some t \<and> addSFCNeighbors t 1 0 [(7, 7)] = Some ([(7, 7)] @ new) \<and>
    set new = {(d, v). tree_leaf example_sfc d v \<and> buckets_touch example_sfc 1 0 d v}"
proof (rule addSFCNeighbors_correct[OF example_sfc_ok])
  show "tree_leaf example_sfc 1 0"
    by (auto simp: tree_leaf_def leaf_def example_sfc_def bucketSize_def refined_def)
qed (simp_all add: example_sfc_def hasLevel_def)

end
