(* ===== verification/Clusterize.thy ===== *)
theory Clusterize
  imports SpaceFilling Collective
begin

text \<open>
  How the elements are distributed over the processes: \<^verbatim>\<open>RandomInput::clusterize\<close> of
  \<^verbatim>\<open>src/input/randominput.cpp\<close>.  Every process knows the buckets of its elements on the finest level
  of the space-filling curve.  The curve is refined level by level, by histograms that are summed
  over all processes, until the borders between the processes are close to the perfect
  distribution.  After every reduction all processes hold the same numbers, so one refined curve
  and one vector of borders stand for those of all processes.  \<^verbatim>\<open>MPI_Allreduce\<close> is a parameter.
\<close>

section \<open>The code\<close>

text \<open>\<^verbatim>\<open>_sum\<close> of \<^verbatim>\<open>communication.cpp\<close>: \<open>inp\<close> is added to \<open>outp\<close>.\<close>

definition sum_op :: "nat list \<Rightarrow> nat list \<Rightarrow> nat list" where
  "sum_op inp outp = map2 (\<lambda>i x. x + i) inp outp"

text \<open>The level up to which the histograms are prepared; the loop increments it before the test fails.\<close>

partial_function (option) preprocessed_depth :: "sfc \<Rightarrow> nat \<Rightarrow> nat \<Rightarrow> nat option" where
  "preprocessed_depth s mpisize depth =
    (if buckets s depth < mpisize then preprocessed_depth s mpisize (depth + 1) else Some (depth + 1))"

declare preprocessed_depth.simps [code]

text \<open>The offsets of the elements of one process in the buckets of every prepared level.\<close>

definition local_histogram :: "sfc \<Rightarrow> nat \<Rightarrow> nat list \<Rightarrow> nat list list option" where
  "local_histogram s depth eBuckets = do {
     let bstep = buckets s (sfc_depth s) div buckets s depth;
     let bucketSum = map (\<lambda>d. replicate (buckets s (d + 1) + 1) 0) [0..<depth];
     finest \<leftarrow> rd bucketSum (depth - 1);
     finest \<leftarrow> for_each eBuckets (\<lambda>e sums.
       if bstep = 0 then None
       else do { c \<leftarrow> rd sums (e div bstep); wr sums (e div bstep) (c + 1) }) finest;
     bucketSum \<leftarrow> wr bucketSum (depth - 1) (snd (sizesToOffsets finest));
     for_each (rev [0..<depth - 1]) (\<lambda>d bucketSum. do {
       level \<leftarrow> rd bucketSum d;
       level \<leftarrow> for_each [0..<length level] (\<lambda>b level. do {
         finer \<leftarrow> rd bucketSum (d + 1);
         c \<leftarrow> rd finer (bucketSize s * b);
         wr level b c
       }) level;
       wr bucketSum d level
     }) bucketSum
   }"

text \<open>
  The histogram of the refined buckets of a level: \<open>bucketSize + 1\<close> offsets each.  All entries of
  the resized vector are written.
\<close>

definition preprocessed_counts :: "sfc \<Rightarrow> nat \<Rightarrow> nat list list \<Rightarrow> nat list option" where
  "preprocessed_counts s LEVEL bucketSum = do {
     refined \<leftarrow> rd (refinedsfc s) LEVEL;
     for_each [0..<length refined] (\<lambda>b scounts. for_each [0..<bucketSize s + 1] (\<lambda>i scounts. do {
       sums \<leftarrow> rd bucketSum LEVEL;
       v \<leftarrow> rd refined b;
       c \<leftarrow> rd sums (bucketSize s * v + i);
       wr scounts (b * (bucketSize s + 1) + i) c
     }) scounts) (replicate (length refined * (bucketSize s + 1)) 0)
   }"

text \<open>
  The loop over the parts of a bucket: the first part where the number of elements before it is
  not below the target by the tolerance or more.
\<close>

function next_part :: "nat list \<Rightarrow> nat \<Rightarrow> nat \<Rightarrow> nat \<Rightarrow> nat \<Rightarrow> nat \<Rightarrow> nat option" where
  "next_part rcounts boffset bsize goal tolerance i =
    (if i \<le> bsize then do {
       c \<leftarrow> rd rcounts (boffset + i);
       if c < goal \<and> tolerance \<le> goal - c then next_part rcounts boffset bsize goal tolerance (i + 1)
       else Some i
     } else Some i)"
  by pat_completeness auto
termination by (relation "measure (\<lambda>(_, _, bsize, _, _, i). Suc bsize - i)") auto

declare next_part.simps [simp del]

text \<open>
  The border of process \<open>r\<close> in the bucket \<open>v\<close>.  If the part before the border has too many elements,
  it is refined; \<open>None\<close> if that part does not exist.  Only the second loop of \<^verbatim>\<open>clusterize\<close> uses the
  indices of the refined parts.
\<close>

definition place_border ::
  "nat \<Rightarrow> nat \<Rightarrow> nat \<Rightarrow> nat \<Rightarrow> nat \<Rightarrow> nat list \<Rightarrow> nat list \<Rightarrow> nat \<Rightarrow>
   nat \<times> sfc \<times> nat list \<times> nat list \<Rightarrow> (nat \<times> sfc \<times> nat list \<times> nat list) option" where
  "place_border bsize coarsenig v boffset tolerance targets rcounts r = (\<lambda>(i, s, borders, refinedindices). do {
     goal \<leftarrow> rd targets r;
     i \<leftarrow> next_part rcounts boffset bsize goal tolerance i;
     borders \<leftarrow> wr borders r (coarsenig * (bsize * v + i));
     c \<leftarrow> rd rcounts (boffset + i);
     if goal < c \<and> tolerance < c - goal then
       (if i = 0 then None
        else do { s \<leftarrow> recurce (bsize * v + i - 1) s; Some (i, s, borders, refinedindices @ [boffset + i - 1]) })
     else Some (i, s, borders, refinedindices)
   })"

definition split_bucket ::
  "nat \<Rightarrow> nat \<Rightarrow> nat \<Rightarrow> nat \<Rightarrow> nat list \<Rightarrow> nat list \<Rightarrow> nat \<Rightarrow>
   sfc \<times> nat list \<times> nat list \<Rightarrow> (sfc \<times> nat list \<times> nat list) option" where
  "split_bucket bsize LEVEL coarsenig tolerance targets rcounts b = (\<lambda>(s, borders, refinedindices). do {
     refined \<leftarrow> rd (refinedsfc s) LEVEL;
     v \<leftarrow> rd refined b;
     let boffset = b * (bsize + 1);
     c_first \<leftarrow> rd rcounts boffset;
     c_last \<leftarrow> rd rcounts (boffset + bsize);
     let rbegin = lower_bound 0 (length targets) c_first targets;
     let rend = lower_bound 0 (length targets) c_last targets;
     (i, state) \<leftarrow> for_each [rbegin..<rend] (place_border bsize coarsenig v boffset tolerance targets rcounts)
       (0, s, borders, refinedindices);
     Some state
   })"

definition split_level ::
  "sfc \<Rightarrow> nat \<Rightarrow> nat \<Rightarrow> nat \<Rightarrow> nat list \<Rightarrow> nat list \<Rightarrow> nat list \<Rightarrow> (sfc \<times> nat list \<times> nat list) option" where
  "split_level s LEVEL coarsenig tolerance targets rcounts borders = do {
     refined \<leftarrow> rd (refinedsfc s) LEVEL;
     for_each [0..<length refined] (split_bucket (bucketSize s) LEVEL coarsenig tolerance targets rcounts)
       (setLevel (LEVEL + 1) s, borders, [])
   }"

text \<open>The first loop: levels with prepared histograms.\<close>

function preprocessed_loop ::
  "((nat list \<Rightarrow> nat list \<Rightarrow> nat list) \<Rightarrow> nat list list \<Rightarrow> nat list) \<Rightarrow> nat \<Rightarrow> nat list \<Rightarrow> nat \<Rightarrow> nat list list list \<Rightarrow>
   nat \<Rightarrow> nat \<Rightarrow> sfc \<Rightarrow> nat list \<Rightarrow> (nat \<times> nat \<times> sfc \<times> nat list) option" where
  "preprocessed_loop allreduce tolerance targets depth sums LEVEL coarsenig s borders = do {
     let coarsenig = coarsenig div bucketSize s;
     scounts \<leftarrow> those (map (preprocessed_counts s LEVEL) sums);
     (s, borders, refinedindices) \<leftarrow> split_level s LEVEL coarsenig tolerance targets (allreduce sum_op scounts) borders;
     s \<leftarrow> finishLevel (LEVEL + 1) s;
     if LEVEL + 1 < depth \<and> hasLevel s (LEVEL + 1)
     then preprocessed_loop allreduce tolerance targets depth sums (LEVEL + 1) coarsenig s borders
     else Some (LEVEL + 1, coarsenig, s, borders)
   }"
  by pat_completeness auto
termination by (relation "measure (\<lambda>(_, _, _, depth, _, LEVEL, _). depth - LEVEL)") auto

declare preprocessed_loop.simps [simp del]

text \<open>The second loop: the histograms are counted in the sorted elements of a process.\<close>

definition permuted_buckets :: "nat list \<Rightarrow> nat list" where
  "permuted_buckets eBuckets = map (\<lambda>i. eBuckets ! i) (sort_key (\<lambda>i. eBuckets ! i) [0..<length eBuckets])"

definition adhoc_start :: "sfc \<Rightarrow> nat \<Rightarrow> nat list list \<Rightarrow> nat list option" where
  "adhoc_start s LEVEL bucketSum = do {
     refined \<leftarrow> rd (refinedsfc s) LEVEL;
     for_each [0..<length refined] (\<lambda>b scounts. do {
       sums \<leftarrow> rd bucketSum (LEVEL - 1);
       v \<leftarrow> rd refined b;
       c \<leftarrow> rd sums v;
       wr scounts (b * (bucketSize s + 1)) c
     }) (replicate (length refined * (bucketSize s + 1)) 0)
   }"

function adhoc_take :: "nat list \<Rightarrow> nat \<Rightarrow> nat \<Rightarrow> nat \<Rightarrow> nat list \<Rightarrow> (nat \<times> nat list) option" where
  "adhoc_take keys bound pos e scounts =
    (if e < length keys \<and> keys ! e < bound then do {
       c \<leftarrow> rd scounts pos;
       scounts \<leftarrow> wr scounts pos (c + 1);
       adhoc_take keys bound pos (e + 1) scounts
     } else Some (e, scounts))"
  by pat_completeness auto
termination by (relation "measure (\<lambda>(keys, _, _, e, _). length keys - e)") auto

declare adhoc_take.simps [simp del]

definition adhoc_counts :: "sfc \<Rightarrow> nat \<Rightarrow> nat \<Rightarrow> nat list \<Rightarrow> nat list \<Rightarrow> nat list option" where
  "adhoc_counts s LEVEL coarsenig keys scounts = do {
     refined \<leftarrow> rd (refinedsfc s) LEVEL;
     for_each [0..<length refined] (\<lambda>b scounts. do {
       v \<leftarrow> rd refined b;
       let e = lower_bound 0 (length keys) (coarsenig * bucketSize s * v) keys;
       (e, scounts) \<leftarrow> for_each [0..<bucketSize s] (\<lambda>i (e, scounts). do {
         let index = b * (bucketSize s + 1) + i;
         (e, scounts) \<leftarrow> adhoc_take keys (coarsenig * bucketSize s * v + (i + 1) * coarsenig) (index + 1) e scounts;
         c \<leftarrow> rd scounts index;
         c' \<leftarrow> rd scounts (index + 1);
         scounts \<leftarrow> wr scounts (index + 1) (c' + c);
         Some (e, scounts)
       }) (e, scounts);
       Some scounts
     }) scounts
   }"

definition adhoc_next :: "sfc \<Rightarrow> nat \<Rightarrow> nat list \<Rightarrow> nat list \<Rightarrow> nat list option" where
  "adhoc_next s LEVEL refinedindices rcounts = do {
     refined \<leftarrow> rd (refinedsfc s) LEVEL;
     for_each [0..<length refined] (\<lambda>b scounts. do {
       k \<leftarrow> rd refinedindices b;
       c \<leftarrow> rd rcounts k;
       wr scounts (b * (bucketSize s + 1)) c
     }) (replicate (length refined * (bucketSize s + 1)) 0)
   }"

function adhoc_loop ::
  "((nat list \<Rightarrow> nat list \<Rightarrow> nat list) \<Rightarrow> nat list list \<Rightarrow> nat list) \<Rightarrow> nat \<Rightarrow> nat \<Rightarrow> nat list \<Rightarrow> nat list list \<Rightarrow>
   nat \<Rightarrow> nat \<Rightarrow> sfc \<Rightarrow> nat list \<Rightarrow> nat list list \<Rightarrow> (nat \<times> sfc \<times> nat list) option" where
  "adhoc_loop allreduce SFCDEPTH tolerance targets keys LEVEL coarsenig s borders scounts =
    (if LEVEL < SFCDEPTH \<and> hasLevel s LEVEL then do {
       let coarsenig = coarsenig div bucketSize s;
       scounts \<leftarrow> those (map2 (adhoc_counts s LEVEL coarsenig) keys scounts);
       (s, borders, refinedindices) \<leftarrow> split_level s LEVEL coarsenig tolerance targets (allreduce sum_op scounts) borders;
       s \<leftarrow> finishLevel (LEVEL + 1) s;
       refinedindices \<leftarrow> sortAndRemoveDuplicity 0 refinedindices 0;
       scounts \<leftarrow> those (map (adhoc_next s (LEVEL + 1) refinedindices) scounts);
       adhoc_loop allreduce SFCDEPTH tolerance targets keys (LEVEL + 1) coarsenig s borders scounts
     } else Some (LEVEL, s, borders))"
  by pat_completeness auto
termination by (relation "measure (\<lambda>(_, SFCDEPTH, _, _, _, LEVEL, _). SFCDEPTH - LEVEL)") auto

declare adhoc_loop.simps [simp del]

text \<open>
  The part of \<^verbatim>\<open>clusterize\<close> between the sorting of the buckets and the exchange of the elements:
  \<open>procs\<close> has the buckets of the elements of every process.
\<close>

definition cluster_borders ::
  "((nat list \<Rightarrow> nat list \<Rightarrow> nat list) \<Rightarrow> nat list list \<Rightarrow> nat list) \<Rightarrow> nat \<Rightarrow> nat \<Rightarrow> nat list \<Rightarrow> nat list list \<Rightarrow> sfc \<Rightarrow>
   (nat \<times> sfc \<times> nat list) option" where
  "cluster_borders allreduce SFCDEPTH tolerance targets procs s = do {
     depth \<leftarrow> preprocessed_depth s (length procs) 2;
     sums \<leftarrow> those (map (local_histogram s depth) procs);
     let borders = (replicate (length procs + 1) (buckets s (sfc_depth s)))[0 := 0];
     (LEVEL, coarsenig, s, borders) \<leftarrow>
       preprocessed_loop allreduce tolerance targets depth sums 0 (buckets s (sfc_depth s)) s borders;
     scounts \<leftarrow> those (map (adhoc_start s LEVEL) sums);
     adhoc_loop allreduce SFCDEPTH tolerance targets (map permuted_buckets procs) LEVEL coarsenig s borders scounts
   }"

section \<open>Counting the elements before a position\<close>

definition below :: "nat list \<Rightarrow> nat \<Rightarrow> nat" where
  "below es x = length (filter (\<lambda>e. e < x) es)"

lemma below_mono: "x \<le> y \<Longrightarrow> below es x \<le> below es y"
  by (induction es) (auto simp: below_def)

lemma below_all: "\<forall>e \<in> set es. e < x \<Longrightarrow> below es x = length es"
  by (simp add: below_def)

lemma below_0 [simp]: "below es 0 = 0"
  by (simp add: below_def)

lemma below_mset: "mset xs = mset ys \<Longrightarrow> below xs x = below ys x"
  unfolding below_def by (metis mset_filter size_mset)

lemma below_sorted:
  assumes "sorted xs"
  shows "k < below xs x \<longleftrightarrow> k < length xs \<and> xs ! k < x"
  using assms
proof (induction xs arbitrary: k)
  case (Cons a xs)
  show ?case
  proof (cases "a < x")
    case True
    then have "below (a # xs) x = Suc (below xs x)" by (simp add: below_def)
    then show ?thesis using Cons True by (cases k) auto
  next
    case False
    then have "filter (\<lambda>e. e < x) (a # xs) = []" using Cons.prems by (auto simp: filter_empty_conv)
    then have "below (a # xs) x = 0" unfolding below_def by simp
    moreover have "\<not> (a # xs) ! k < x" if "k < length (a # xs)"
      using nth_mem[OF that] Cons.prems False by auto
    ultimately show ?thesis by auto
  qed
qed (simp add: below_def)

lemma lower_bound_below:
  assumes "sorted xs"
  shows "lower_bound 0 (length xs) x xs = below xs x"
proof -
  have "takeWhile (\<lambda>a. a < x) xs = filter (\<lambda>a. a < x) xs"
    using assms
  proof (induction xs)
    case (Cons a xs)
    then show ?case by (cases "a < x") (auto intro!: filter_False[symmetric])
  qed simp
  then show ?thesis by (simp add: lower_bound_def below_def vspan_def)
qed

lemma permuted_buckets_eq: "permuted_buckets es = sort es"
proof (rule properties_for_sort[symmetric])
  show "sorted (permuted_buckets es)" by (simp add: permuted_buckets_def)
  have "mset (permuted_buckets es) = image_mset ((!) es) (mset [0..<length es])" by (simp add: permuted_buckets_def)
  also have "\<dots> = mset (map ((!) es) [0..<length es])" by (simp only: mset_map)
  also have "\<dots> = mset es" by (simp only: map_nth)
  finally show "mset (permuted_buckets es) = mset es" .
qed

section \<open>Blocks of counts\<close>

lemma fill_range:
  assumes "\<And>i t. i < n \<Longrightarrow> length t = length xs \<Longrightarrow> body i t = wr t (a + i) (g i)" and "a + n \<le> length xs"
  shows "for_each [0..<n] body xs = Some (take a xs @ map g [0..<n] @ drop (a + n) xs)"
proof -
  have "for_each [0..<k] body xs = Some (take a xs @ map g [0..<k] @ drop (a + k) xs)" if "k \<le> n" for k
    using that
  proof (induction k)
    case (Suc k)
    then have "a + k < length xs" using assms(2) by simp
    then have "drop (a + k) xs = xs ! (a + k) # drop (a + Suc k) xs" by (simp add: Cons_nth_drop_Suc)
    then show ?case using Suc assms by (simp add: for_each_append wr_def list_update_append)
  qed simp
  from this[of n] show ?thesis by simp
qed

lemma fill_count_blocks:
  assumes "\<And>b t. b < n \<Longrightarrow> length t = n * m \<Longrightarrow> body b t = Some (take (b * m) t @ g b @ drop (b * m + m) t)"
    and "\<And>b. b < n \<Longrightarrow> length (g b) = m" and "length xs = n * m"
  shows "for_each [0..<n] body xs = Some (concat (map g [0..<n]))"
proof -
  have "for_each [0..<k] body xs = Some (concat (map g [0..<k]) @ drop (k * m) xs) \<and> length (concat (map g [0..<k])) = k * m"
    if "k \<le> n" for k
    using that
  proof (induction k)
    case (Suc k)
    then have k: "k < n" and le: "k * m + m \<le> n * m" by (auto simp flip: mult_Suc simp: add.commute intro: mult_le_mono1)
    then show ?case using Suc assms k le by (auto simp add: for_each_append add.commute)
  qed simp
  from this[of n] assms(3) show ?thesis by simp
qed

text \<open>The counts of the \<open>bs\<close> parts of buckets: offsets \<open>f\<close> of all positions where a part starts or ends.\<close>

definition cell_counts :: "nat \<Rightarrow> nat \<Rightarrow> nat list \<Rightarrow> (nat \<Rightarrow> nat) \<Rightarrow> nat list" where
  "cell_counts bs c vs f = concat (map (\<lambda>v. map (\<lambda>i. f ((bs * v + i) * c)) [0..<bs + 1]) vs)"

definition first_counts :: "nat \<Rightarrow> nat \<Rightarrow> nat list \<Rightarrow> (nat \<Rightarrow> nat) \<Rightarrow> nat list" where
  "first_counts bs c vs f = concat (map (\<lambda>v. f (v * c) # replicate bs 0) vs)"

lemma block_nth:
  assumes "\<And>x. x \<in> set xs \<Longrightarrow> length (g x) = m" and "b < length xs" and "i < m"
  shows "concat (map g xs) ! (b * m + i) = g (xs ! b) ! i"
  using assms
proof (induction xs arbitrary: b)
  case (Cons x xs)
  then show ?case by (cases b) (auto simp: nth_append add.assoc)
qed simp

lemma length_blocks: "(\<And>x. x \<in> set xs \<Longrightarrow> length (g x) = m) \<Longrightarrow> length (concat (map g xs)) = length xs * m"
  by (induction xs) auto

lemma length_cell_counts [simp]: "length (cell_counts bs c vs f) = length vs * (bs + 1)"
  unfolding cell_counts_def by (rule length_blocks) simp

lemma length_first_counts [simp]: "length (first_counts bs c vs f) = length vs * (bs + 1)"
  unfolding first_counts_def by (rule length_blocks) simp

lemma cell_counts_nth:
  assumes "b < length vs" and "i \<le> bs"
  shows "cell_counts bs c vs f ! (b * (bs + 1) + i) = f ((bs * vs ! b + i) * c)"
  using block_nth[of vs "\<lambda>v. map (\<lambda>i. f ((bs * v + i) * c)) [0..<bs + 1]" "bs + 1" b i] assms
  by (simp add: cell_counts_def del: upt_Suc)

lemma map_nth_upt: "map (\<lambda>b. g (xs ! b)) [0..<length xs] = map g xs"
  by (rule nth_equalityI) simp_all

section \<open>The histograms\<close>

lemma buckets_power: "sfc_dimension s \<in> {2, 3} \<Longrightarrow> buckets s d = bucketSize s ^ d"
  using bucketSize_power[of s] by (simp add: buckets_def power_mult[symmetric] mult.commute)

lemma buckets_div:
  assumes "sfc_dimension s \<in> {2, 3}" and "d \<le> sfc_depth s"
  shows "buckets s (sfc_depth s) div buckets s d = coarsening s d"
  using assms bucketSize_pos[of s]
  by (simp add: buckets_power coarsening_power power_diff)

lemma coarsening_next:
  assumes "sfc_dimension s \<in> {2, 3}" and "k < sfc_depth s"
  shows "coarsening s k = bucketSize s * coarsening s (Suc k)" and "coarsening s k div bucketSize s = coarsening s (Suc k)"
proof -
  have "sfc_depth s - k = Suc (sfc_depth s - Suc k)" using assms(2) by simp
  then show "coarsening s k = bucketSize s * coarsening s (Suc k)"
    using coarsening_power[OF assms(1), of k] coarsening_power[OF assms(1), of "Suc k"] assms(2) by simp
  then show "coarsening s k div bucketSize s = coarsening s (Suc k)" using bucketSize_pos[of s] by simp
qed

lemma count_loop:
  assumes "\<forall>e \<in> set es. e div c < length h" and "0 < c"
  shows "for_each es (\<lambda>e sums. if c = 0 then None else do { x \<leftarrow> rd sums (e div c); wr sums (e div c) (x + 1) }) h =
    Some (map (\<lambda>q. h ! q + length (filter (\<lambda>e. e div c = q) es)) [0..<length h])"
  using assms(1)
proof (induction es arbitrary: h)
  case Nil
  then show ?case by (simp add: map_nth)
next
  case (Cons e es)
  have "map (\<lambda>q. h[e div c := Suc (h ! (e div c))] ! q + length (filter (\<lambda>e. e div c = q) es)) [0..<length h] =
      map (\<lambda>q. h ! q + length (filter (\<lambda>e. e div c = q) (e # es))) [0..<length h]"
    by (rule map_cong[OF refl]) (auto simp: nth_list_update)
  then show ?case using Cons assms(2) by (simp add: rd_Some wr_Some)
qed

lemma psum_counts:
  "q \<le> n \<Longrightarrow> psum (map (\<lambda>q. length (filter (\<lambda>e. e div c = q) es)) [0..<n]) q = length (filter (\<lambda>e. e div c < q) es)"
proof (induction q)
  case (Suc q)
  have "length (filter (\<lambda>e. e div c < Suc q) es) =
      length (filter (\<lambda>e. e div c < q) es) + length (filter (\<lambda>e. e div c = q) es)"
    by (induction es) auto
  then show ?case using Suc by (simp add: psum_Suc)
qed simp

definition histogram_ok :: "sfc \<Rightarrow> nat \<Rightarrow> nat list \<Rightarrow> nat list list \<Rightarrow> bool" where
  "histogram_ok s depth es sums \<longleftrightarrow> length sums = depth \<and> (\<forall>d < depth. length (sums ! d) = buckets s (d + 1) + 1 \<and>
     (\<forall>q \<le> buckets s (d + 1). sums ! d ! q = below es (q * coarsening s (d + 1))))"

lemma coarser_levels:
  assumes "sfc_dimension s \<in> {2, 3}" and "n < depth" and "depth \<le> sfc_depth s" and "length sums = depth"
    and "\<And>d. d < depth \<Longrightarrow> length (sums ! d) = buckets s (d + 1) + 1"
    and "\<And>d q. n \<le> d \<Longrightarrow> d < depth \<Longrightarrow> q \<le> buckets s (d + 1) \<Longrightarrow> sums ! d ! q = below es (q * coarsening s (d + 1))"
  shows "\<exists>sums'. for_each (rev [0..<n]) (\<lambda>d bucketSum. do {
       level \<leftarrow> rd bucketSum d;
       level \<leftarrow> for_each [0..<length level] (\<lambda>b level. do {
         finer \<leftarrow> rd bucketSum (d + 1);
         c \<leftarrow> rd finer (bucketSize s * b);
         wr level b c
       }) level;
       wr bucketSum d level
     }) sums = Some sums' \<and> histogram_ok s depth es sums'"
  using assms(2,4-6)
proof (induction n arbitrary: sums)
  case 0
  then show ?case by (simp add: histogram_ok_def)
next
  case (Suc n)
  let ?g = "\<lambda>b. sums ! (n + 1) ! (bucketSize s * b)"
  have step: "buckets s (n + 2) = bucketSize s * buckets s (n + 1)" using assms(1) by (simp add: buckets_power)
  have read: "bucketSize s * b < length (sums ! (n + 1))" if "b < length (sums ! n)" for b
  proof -
    have "b \<le> buckets s (n + 1)" using that Suc.prems(1) Suc.prems(3)[of n] by simp
    then have "bucketSize s * b \<le> buckets s (n + 2)" unfolding step by simp
    then show ?thesis using Suc.prems(1) Suc.prems(3)[of "n + 1"] by simp
  qed
  have "for_each [0..<length (sums ! n)] (\<lambda>b level. do {
         finer \<leftarrow> rd sums (n + 1); c \<leftarrow> rd finer (bucketSize s * b); wr level b c }) (sums ! n) =
      Some (map ?g [0..<length (sums ! n)])"
    using fill_range[of "length (sums ! n)" "sums ! n" _ 0 ?g] read Suc.prems(1,2) by (simp add: rd_Some)
  moreover let ?sums = "sums[n := map ?g [0..<length (sums ! n)]]"
  have "\<exists>sums'. for_each (rev [0..<n]) (\<lambda>d bucketSum. do {
       level \<leftarrow> rd bucketSum d;
       level \<leftarrow> for_each [0..<length level] (\<lambda>b level. do {
         finer \<leftarrow> rd bucketSum (d + 1);
         c \<leftarrow> rd finer (bucketSize s * b);
         wr level b c
       }) level;
       wr bucketSum d level
     }) ?sums = Some sums' \<and> histogram_ok s depth es sums'"
  proof (rule Suc.IH)
    show "n < depth" and "length ?sums = depth" using Suc.prems(1,2) by simp_all
    show "length (?sums ! d) = buckets s (d + 1) + 1" if "d < depth" for d
      using that Suc.prems(2,3) by (cases "d = n") simp_all
    show "?sums ! d ! q = below es (q * coarsening s (d + 1))" if d: "n \<le> d" "d < depth" "q \<le> buckets s (d + 1)" for d q
    proof (cases "d = n")
      case True
      have "bucketSize s * q \<le> buckets s (n + 1 + 1)" using d(3) True step by simp
      then have "?g q = below es (bucketSize s * q * coarsening s (n + 1 + 1))"
        using Suc.prems(4)[of "n + 1"] Suc.prems(1) by simp
      moreover have "coarsening s (n + 1) = coarsening s (n + 1 + 1) * bucketSize s"
        using coarsening_next(1)[OF assms(1), of "n + 1"] Suc.prems(1) assms(3) by simp
      ultimately show ?thesis using True d Suc.prems(2,3) by (simp add: ac_simps del: upt_Suc)
    next
      case False
      then show ?thesis using d Suc.prems(4) by simp
    qed
  qed
  ultimately show ?case using Suc.prems(1,2) by (simp add: rd_Some wr_Some)
qed

lemma local_histogram_ok:
  assumes "sfc_dimension s \<in> {2, 3}" and "0 < depth" and "depth \<le> sfc_depth s"
    and "\<forall>e \<in> set es. e < buckets s (sfc_depth s)"
  shows "\<exists>sums. local_histogram s depth es = Some sums \<and> histogram_ok s depth es sums"
proof -
  let ?c = "coarsening s depth"
  have pos: "0 < ?c" using coarsening_power[OF assms(1,3)] bucketSize_pos[of s] by simp
  have all: "buckets s (sfc_depth s) = buckets s depth * ?c"
    using assms(1,3) by (simp add: buckets_power coarsening_power flip: power_add)
  let ?zeros = "map (\<lambda>d. replicate (buckets s (d + 1) + 1) 0) [0..<depth] :: nat list list"
  let ?n = "buckets s depth + 1"
  let ?counts = "map (\<lambda>q. length (filter (\<lambda>e. e div ?c = q) es)) [0..<?n]"
  have finest: "?zeros ! (depth - 1) = replicate ?n 0" using assms(2) by (simp add: nth_append)
  have small: "\<forall>e \<in> set es. e div ?c < ?n"
    using assms(4) pos by (auto simp: all div_less_iff_less_mult intro: less_SucI)
  have counted: "for_each es (\<lambda>e sums. if ?c = 0 then None else do { x \<leftarrow> rd sums (e div ?c); wr sums (e div ?c) (x + 1) })
      (replicate ?n 0) = Some ?counts"
  proof -
    have "map (\<lambda>q. replicate ?n 0 ! q + length (filter (\<lambda>e. e div ?c = q) es)) [0..<?n] = ?counts"
      by (rule map_cong[OF refl]) (simp only: set_upt atLeastLessThan_iff nth_replicate add_0)
    then show ?thesis using count_loop[of es ?c "replicate ?n 0"] small pos by (simp del: replicate_Suc upt_Suc)
  qed
  let ?sums = "?zeros[depth - 1 := map (psum ?counts) [0..<?n]]"
  have "\<exists>sums. for_each (rev [0..<depth - 1]) (\<lambda>d bucketSum. do {
       level \<leftarrow> rd bucketSum d;
       level \<leftarrow> for_each [0..<length level] (\<lambda>b level. do {
         finer \<leftarrow> rd bucketSum (d + 1);
         c \<leftarrow> rd finer (bucketSize s * b);
         wr level b c
       }) level;
       wr bucketSum d level
     }) ?sums = Some sums \<and> histogram_ok s depth es sums"
  proof (rule coarser_levels[OF assms(1) _ assms(3)])
    show "depth - 1 < depth" and "length ?sums = depth" using assms(2) by simp_all
    show "length (?sums ! d) = buckets s (d + 1) + 1" if "d < depth" for d
      using that assms(2) by (cases "d = depth - 1") (simp_all del: upt_Suc replicate_Suc)
    show "?sums ! d ! q = below es (q * coarsening s (d + 1))" if d: "depth - 1 \<le> d" "d < depth" "q \<le> buckets s (d + 1)" for d q
    proof -
      have e: "d = depth - 1" "d + 1 = depth" using d assms(2) by simp_all
      then have q: "q < ?n" using d(3) by simp
      have "?sums ! d ! q = psum ?counts q" using e(1) q assms(2) by (simp del: upt_Suc)
      also have "\<dots> = length (filter (\<lambda>e. e div ?c < q) es)" using psum_counts[of q ?n ?c es] q by (simp del: upt_Suc)
      also have "\<dots> = below es (q * ?c)" using pos by (simp add: below_def div_less_iff_less_mult)
      finally show ?thesis using e(2) by simp
    qed
  qed
  then show ?thesis
    using counted assms(2) finest buckets_div[OF assms(1,3)]
    by (simp add: local_histogram_def Let_def rd_Some wr_Some sizesToOffsets_eq del: upt_Suc replicate_Suc)
qed

lemma block_end: "b < n \<Longrightarrow> b * m + m \<le> n * (m :: nat)"
  by (metis Suc_leI add.commute mult_Suc mult_le_mono1)

lemma cell_counts_blocks:
  "cell_counts bs c vs f = concat (map (\<lambda>b. map (\<lambda>i. f ((bs * vs ! b + i) * c)) [0..<bs + 1]) [0..<length vs])"
  unfolding cell_counts_def by (rule arg_cong[OF map_nth_upt[symmetric]])

lemma first_counts_blocks:
  "first_counts bs c vs f = concat (map (\<lambda>b. f (vs ! b * c) # replicate bs 0) [0..<length vs])"
  unfolding first_counts_def by (rule arg_cong[OF map_nth_upt[symmetric]])

lemma preprocessed_counts_ok:
  assumes "sfc_dimension s \<in> {2, 3}" and "histogram_ok s depth es sums" and "LEVEL < depth"
    and "LEVEL < length (refinedsfc s)" and "\<forall>v \<in> set (refinedsfc s ! LEVEL). v < bucketSize s ^ LEVEL"
  shows "preprocessed_counts s LEVEL sums =
    Some (cell_counts (bucketSize s) (coarsening s (LEVEL + 1)) (refinedsfc s ! LEVEL) (below es))"
proof -
  let ?vs = "refinedsfc s ! LEVEL" and ?bs = "bucketSize s"
  let ?g = "\<lambda>b i. below es ((?bs * ?vs ! b + i) * coarsening s (LEVEL + 1))"
  have read: "?bs * ?vs ! b + i \<le> buckets s (LEVEL + 1)" if "b < length ?vs" "i < ?bs + 1" for b i
  proof -
    have "?vs ! b < ?bs ^ LEVEL" using assms(5) that(1) by simp
    then have "?bs * ?vs ! b + ?bs \<le> ?bs * ?bs ^ LEVEL" using block_end[of "?vs ! b" "?bs ^ LEVEL" ?bs] by (simp add: mult.commute)
    then show ?thesis using that(2) assms(1) by (simp add: buckets_power)
  qed
  have entry: "(do { sums \<leftarrow> rd sums LEVEL; v \<leftarrow> rd ?vs b; c \<leftarrow> rd sums (?bs * v + i); wr t (b * (?bs + 1) + i) c }) =
      wr t (b * (?bs + 1) + i) (?g b i)" if "b < length ?vs" "i < ?bs + 1" for b i t
    using read[OF that] that(1) assms(2,3) by (simp add: histogram_ok_def rd_Some)
  have "for_each [0..<length ?vs] (\<lambda>b scounts. for_each [0..<?bs + 1] (\<lambda>i scounts. do {
       sums \<leftarrow> rd sums LEVEL; v \<leftarrow> rd ?vs b; c \<leftarrow> rd sums (?bs * v + i);
       wr scounts (b * (?bs + 1) + i) c }) scounts) (replicate (length ?vs * (?bs + 1)) 0) =
      Some (concat (map (\<lambda>b. map (?g b) [0..<?bs + 1]) [0..<length ?vs]))"
  proof (rule fill_count_blocks)
    fix b and t :: "nat list"
    assume b: "b < length ?vs" "length t = length ?vs * (?bs + 1)"
    have "b * (?bs + 1) + (?bs + 1) \<le> length t" unfolding b(2) by (rule block_end[OF b(1)])
    then show "for_each [0..<?bs + 1] (\<lambda>i scounts. do {
       sums \<leftarrow> rd sums LEVEL; v \<leftarrow> rd ?vs b; c \<leftarrow> rd sums (?bs * v + i);
       wr scounts (b * (?bs + 1) + i) c }) t =
       Some (take (b * (?bs + 1)) t @ map (?g b) [0..<?bs + 1] @ drop (b * (?bs + 1) + (?bs + 1)) t)"
      using entry[OF b(1)] by (intro fill_range) simp_all
  qed simp_all
  then show ?thesis
    unfolding preprocessed_counts_def cell_counts_blocks rd_Some[OF assms(4)] bind.bind_lunit by simp
qed

lemma fill_firsts:
  fixes g :: "nat \<Rightarrow> nat"
  assumes "\<And>b t. b < n \<Longrightarrow> body b t = wr t (b * (m + 1)) (g b)"
  shows "for_each [0..<n] body (replicate (n * (m + 1)) 0) = Some (concat (map (\<lambda>b. g b # replicate m 0) [0..<n]))"
proof -
  have "for_each [0..<k] body (replicate (n * (m + 1)) 0) =
      Some (concat (map (\<lambda>b. g b # replicate m 0) [0..<k]) @ replicate ((n - k) * (m + 1)) 0)" if "k \<le> n" for k
    using that
  proof (induction k)
    case (Suc k)
    have len: "length (concat (map (\<lambda>b. g b # replicate m 0) [0..<k])) = k * (m + 1)"
      by (subst length_blocks[where m = "m + 1"]) simp_all
    obtain l where l: "n - k = Suc l" "n - Suc k = l" using Suc.prems by (cases "n - k") auto
    then have "(n - k) * (m + 1) = Suc (m + (n - Suc k) * (m + 1))" by simp
    then have "replicate ((n - k) * (m + 1)) (0 :: nat) = 0 # replicate m 0 @ replicate ((n - Suc k) * (m + 1)) 0"
      by (simp add: replicate_add)
    then show ?case using Suc assms[of k] len by (simp add: for_each_append wr_def list_update_append)
  qed simp
  from this[of n] show ?thesis by simp
qed

lemma adhoc_start_ok:
  assumes "sfc_dimension s \<in> {2, 3}" and "histogram_ok s depth es sums" and "0 < LEVEL" and "LEVEL \<le> depth"
    and "LEVEL < length (refinedsfc s)" and "\<forall>v \<in> set (refinedsfc s ! LEVEL). v < bucketSize s ^ LEVEL"
  shows "adhoc_start s LEVEL sums = Some (first_counts (bucketSize s) (coarsening s LEVEL) (refinedsfc s ! LEVEL) (below es))"
proof -
  let ?vs = "refinedsfc s ! LEVEL"
  have level: "LEVEL - 1 < depth" "LEVEL - 1 + 1 = LEVEL" using assms(3,4) by simp_all
  then have sums: "length (sums ! (LEVEL - 1)) = buckets s LEVEL + 1" "length sums = depth"
    "q \<le> buckets s LEVEL \<Longrightarrow> sums ! (LEVEL - 1) ! q = below es (q * coarsening s LEVEL)" for q
    using assms(2) unfolding histogram_ok_def by metis+
  have read: "rd sums (LEVEL - 1) = Some (sums ! (LEVEL - 1))"
    "v \<in> set ?vs \<Longrightarrow> rd (sums ! (LEVEL - 1)) v = Some (below es (v * coarsening s LEVEL))" for v
    using level(1) sums assms(6) by (auto simp: rd_def buckets_power[OF assms(1)] dest: bspec less_imp_le)
  have "for_each [0..<length ?vs] (\<lambda>b scounts. do {
       sums \<leftarrow> rd sums (LEVEL - 1); v \<leftarrow> rd ?vs b; c \<leftarrow> rd sums v; wr scounts (b * (bucketSize s + 1)) c })
       (replicate (length ?vs * (bucketSize s + 1)) 0) =
      Some (concat (map (\<lambda>b. below es (?vs ! b * coarsening s LEVEL) # replicate (bucketSize s) 0) [0..<length ?vs]))"
    by (rule fill_firsts) (simp add: read[unfolded One_nat_def] rd_Some)
  then show ?thesis unfolding adhoc_start_def first_counts_blocks rd_Some[OF assms(5)] bind.bind_lunit by simp
qed

lemma adhoc_next_ok:
  assumes "LEVEL < length (refinedsfc s)" and "length refinedindices = length (refinedsfc s ! LEVEL)"
    and "\<And>b. b < length refinedindices \<Longrightarrow> refinedindices ! b < length rcounts \<and> rcounts ! (refinedindices ! b) = f (refinedsfc s ! LEVEL ! b * c)"
  shows "adhoc_next s LEVEL refinedindices rcounts = Some (first_counts (bucketSize s) c (refinedsfc s ! LEVEL) f)"
proof -
  let ?vs = "refinedsfc s ! LEVEL"
  have "for_each [0..<length ?vs] (\<lambda>b scounts. do {
       k \<leftarrow> rd refinedindices b; c \<leftarrow> rd rcounts k; wr scounts (b * (bucketSize s + 1)) c })
       (replicate (length ?vs * (bucketSize s + 1)) 0) =
      Some (concat (map (\<lambda>b. f (?vs ! b * c) # replicate (bucketSize s) 0) [0..<length ?vs]))"
    by (rule fill_firsts) (use assms(2,3) in \<open>simp add: rd_Some\<close>)
  then show ?thesis unfolding adhoc_next_def first_counts_blocks rd_Some[OF assms(1)] bind.bind_lunit by simp
qed

lemma adhoc_take_ok:
  assumes "sorted keys" and "e \<le> below keys bound" and "pos < length scounts"
  shows "adhoc_take keys bound pos e scounts =
    Some (below keys bound, scounts[pos := scounts ! pos + (below keys bound - e)])"
  using assms(2,3)
proof (induction "below keys bound - e" arbitrary: e scounts)
  case 0
  then have "e = below keys bound" by simp
  then show ?case using below_sorted[OF assms(1), of e bound] by (subst adhoc_take.simps) auto
next
  case (Suc n)
  then have e: "e < below keys bound" by simp
  then have "e < length keys \<and> keys ! e < bound" using below_sorted[OF assms(1)] by blast
  have "adhoc_take keys bound pos (e + 1) (scounts[pos := scounts ! pos + 1]) =
      Some (below keys bound, scounts[pos := scounts ! pos + 1 + (below keys bound - (e + 1))])"
    using Suc.hyps(1)[of "e + 1" "scounts[pos := scounts ! pos + 1]"] Suc.hyps(2) Suc.prems e by simp
  moreover have "scounts ! pos + 1 + (below keys bound - (e + 1)) = scounts ! pos + (below keys bound - e)" using e by simp
  ultimately have "adhoc_take keys bound pos (e + 1) (scounts[pos := scounts ! pos + 1]) =
      Some (below keys bound, scounts[pos := scounts ! pos + (below keys bound - e)])" by (simp only:)
  then show ?case using Suc.prems(2) \<open>e < length keys \<and> keys ! e < bound\<close>
    by (subst adhoc_take.simps) (simp only: rd_Some wr_Some if_P bind.bind_lunit simp_thms)
qed

lemma transform_blocks:
  assumes "\<And>b pre post. b < n \<Longrightarrow> length pre = b * m \<Longrightarrow> body b (pre @ g0 b @ post) = Some (pre @ g1 b @ post)"
    and "\<And>b. b < n \<Longrightarrow> length (g1 b) = m"
  shows "for_each [0..<n] body (concat (map g0 [0..<n])) = Some (concat (map g1 [0..<n]))"
proof -
  have "for_each [0..<k] body (concat (map g0 [0..<n])) =
      Some (concat (map g1 [0..<k]) @ concat (map g0 [k..<n])) \<and> length (concat (map g1 [0..<k])) = k * m" if "k \<le> n" for k
    using that
  proof (induction k)
    case (Suc k)
    then have "concat (map g0 [k..<n]) = g0 k @ concat (map g0 [Suc k..<n])" by (simp add: upt_conv_Cons)
    then show ?case using Suc assms by (simp add: for_each_append)
  qed simp
  from this[of n] show ?thesis by simp
qed

lemma adhoc_block:
  assumes "sorted keys" and "length pre = k"
  shows "\<exists>e. for_each [0..<bs] (\<lambda>i (e, scounts). do {
         let index = k + i;
         (e, scounts) \<leftarrow> adhoc_take keys (start + (i + 1) * c) (index + 1) e scounts;
         x \<leftarrow> rd scounts index;
         y \<leftarrow> rd scounts (index + 1);
         scounts \<leftarrow> wr scounts (index + 1) (y + x);
         Some (e, scounts)
       }) (below keys start, pre @ (below keys start # replicate bs 0) @ post) =
    Some (e, pre @ map (\<lambda>j. below keys (start + j * c)) [0..<bs + 1] @ post)"
proof -
  let ?f = "\<lambda>j. below keys (start + j * c)"
  let ?sc = "\<lambda>i. pre @ map ?f [0..<i + 1] @ replicate (bs - i) 0 @ post"
  let ?body = "\<lambda>i (e, scounts). do {
         let index = k + i;
         (e, scounts) \<leftarrow> adhoc_take keys (start + (i + 1) * c) (index + 1) e scounts;
         x \<leftarrow> rd scounts index;
         y \<leftarrow> rd scounts (index + 1);
         scounts \<leftarrow> wr scounts (index + 1) (y + x);
         Some (e, scounts)
       }"
  have "\<exists>st. for_each [0..<bs] ?body (?f 0, ?sc 0) = Some st \<and> st = (?f bs, ?sc bs)"
  proof (rule for_each_upt[where I = "\<lambda>i st. st = (?f i, ?sc i)"])
    fix i st
    assume i: "i < bs" and st: "st = (?f i, ?sc i)"
    have le: "?f i \<le> ?f (i + 1)" by (rule below_mono) simp
    have len: "k + i + 1 < length (?sc i)" using i assms(2) by simp
    have zero: "?sc i ! (k + i + 1) = 0" and at_i: "?sc i ! (k + i) = ?f i"
      using i assms(2) by (simp_all add: nth_append del: upt_Suc)
    have "replicate (bs - i) (0 :: nat) = 0 # replicate (bs - Suc i) 0" using i by (metis Suc_diff_Suc replicate_Suc)
    then have upd: "(?sc i)[k + i + 1 := ?f (i + 1)] = ?sc (Suc i)"
      using i assms(2) by (simp add: list_update_append)
    have "adhoc_take keys (start + (i + 1) * c) (k + i + 1) (?f i) (?sc i) =
        Some (?f (i + 1), (?sc i)[k + i + 1 := ?f (i + 1) - ?f i])"
      using adhoc_take_ok[OF assms(1) le len] zero by simp
    then have "?body i (?f i, ?sc i) = Some (?f (i + 1), (?sc i)[k + i + 1 := ?f (i + 1)])"
      using len at_i le by (simp add: rd_def wr_def Let_def del: upt_Suc)
    then show "\<exists>u. ?body i st = Some u \<and> u = (?f (Suc i), ?sc (Suc i))" unfolding st upd by simp
  qed simp_all
  then show ?thesis by (intro exI[of _ "?f bs"]) simp
qed

lemma adhoc_counts_ok:
  assumes "sorted keys" and "LEVEL < length (refinedsfc s)"
  shows "adhoc_counts s LEVEL c keys (first_counts (bucketSize s) (c * bucketSize s) (refinedsfc s ! LEVEL) (below keys)) =
    Some (cell_counts (bucketSize s) c (refinedsfc s ! LEVEL) (below keys))"
proof -
  let ?vs = "refinedsfc s ! LEVEL" and ?bs = "bucketSize s"
  let ?body = "\<lambda>b scounts. do {
       v \<leftarrow> rd ?vs b;
       let e = lower_bound 0 (length keys) (c * ?bs * v) keys;
       (e, scounts) \<leftarrow> for_each [0..<?bs] (\<lambda>i (e, scounts). do {
         let index = b * (?bs + 1) + i;
         (e, scounts) \<leftarrow> adhoc_take keys (c * ?bs * v + (i + 1) * c) (index + 1) e scounts;
         x \<leftarrow> rd scounts index;
         y \<leftarrow> rd scounts (index + 1);
         scounts \<leftarrow> wr scounts (index + 1) (y + x);
         Some (e, scounts)
       }) (e, scounts);
       Some scounts }"
  have "for_each [0..<length ?vs] ?body (concat (map (\<lambda>b. below keys (?vs ! b * (c * ?bs)) # replicate ?bs 0) [0..<length ?vs])) =
      Some (concat (map (\<lambda>b. map (\<lambda>i. below keys ((?bs * ?vs ! b + i) * c)) [0..<?bs + 1]) [0..<length ?vs]))"
  proof (rule transform_blocks)
    fix b and pre post :: "nat list"
    assume b: "b < length ?vs" "length pre = b * (?bs + 1)"
    obtain e where "for_each [0..<?bs] (\<lambda>i (e, scounts). do {
         let index = b * (?bs + 1) + i;
         (e, scounts) \<leftarrow> adhoc_take keys (c * ?bs * ?vs ! b + (i + 1) * c) (index + 1) e scounts;
         x \<leftarrow> rd scounts index;
         y \<leftarrow> rd scounts (index + 1);
         scounts \<leftarrow> wr scounts (index + 1) (y + x);
         Some (e, scounts)
       }) (below keys (c * ?bs * ?vs ! b), pre @ (below keys (c * ?bs * ?vs ! b) # replicate ?bs 0) @ post) =
      Some (e, pre @ map (\<lambda>j. below keys (c * ?bs * ?vs ! b + j * c)) [0..<?bs + 1] @ post)"
      using adhoc_block[OF assms(1) b(2)] by blast
    then show "?body b (pre @ (below keys (?vs ! b * (c * ?bs)) # replicate ?bs 0) @ post) =
        Some (pre @ map (\<lambda>i. below keys ((?bs * ?vs ! b + i) * c)) [0..<?bs + 1] @ post)"
      by (simp add: rd_Some[OF b(1)] lower_bound_below[OF assms(1)] algebra_simps del: upt_Suc)
  qed simp
  then show ?thesis
    unfolding adhoc_counts_def cell_counts_blocks first_counts_blocks rd_Some[OF assms(2)] bind.bind_lunit by simp
qed

end
