(* ===== verification/ClusterLevels.thy ===== *)
theory ClusterLevels
  imports Clusterize
begin

text \<open>
  One level of \<^verbatim>\<open>clusterize\<close>: what \<open>split_level\<close> does to the borders and to the refined buckets, for
  the number \<open>C x\<close> of all elements before the position \<open>x\<close> on the finest level.
\<close>

section \<open>The borders in one bucket\<close>

definition passes :: "nat \<Rightarrow> nat \<Rightarrow> nat \<Rightarrow> bool" where
  "passes tolerance t x \<longleftrightarrow> x < t \<and> tolerance \<le> t - x"

text \<open>
  The part of the bucket \<open>v\<close> where the border for the target \<open>t\<close> is placed, \<open>c\<close> finest buckets to a
  part; and the targets that lie in the bucket.
\<close>

definition part_of :: "(nat \<Rightarrow> nat) \<Rightarrow> nat \<Rightarrow> nat \<Rightarrow> nat \<Rightarrow> nat \<Rightarrow> nat \<Rightarrow> nat" where
  "part_of C c bs tolerance v t = (LEAST i. \<not> passes tolerance t (C ((bs * v + i) * c)))"

definition in_bucket :: "(nat \<Rightarrow> nat) \<Rightarrow> nat \<Rightarrow> nat \<Rightarrow> nat \<Rightarrow> nat \<Rightarrow> bool" where
  "in_bucket C c bs v t \<longleftrightarrow> C (bs * v * c) \<le> t \<and> t < C ((bs * v + bs) * c)"

definition too_many :: "(nat \<Rightarrow> nat) \<Rightarrow> nat \<Rightarrow> nat \<Rightarrow> nat \<Rightarrow> nat \<Rightarrow> nat \<Rightarrow> bool" where
  "too_many C c bs tolerance v t \<longleftrightarrow> tolerance < C ((bs * v + part_of C c bs tolerance v t) * c) - t"

definition split_parts :: "(nat \<Rightarrow> nat) \<Rightarrow> nat \<Rightarrow> nat \<Rightarrow> nat \<Rightarrow> nat list \<Rightarrow> nat \<Rightarrow> nat list" where
  "split_parts C c bs tolerance targets v =
     map (\<lambda>r. part_of C c bs tolerance v (targets ! r) - 1)
       (filter (\<lambda>r. in_bucket C c bs v (targets ! r) \<and> too_many C c bs tolerance v (targets ! r)) [0..<length targets])"

definition new_border :: "(nat \<Rightarrow> nat) \<Rightarrow> nat \<Rightarrow> nat \<Rightarrow> nat \<Rightarrow> nat list \<Rightarrow> nat \<Rightarrow> nat list \<Rightarrow> nat list" where
  "new_border C c bs tolerance targets v borders =
     map (\<lambda>r. if in_bucket C c bs v (targets ! r) then c * (bs * v + part_of C c bs tolerance v (targets ! r)) else borders ! r)
       [0..<length targets]"

definition append_last :: "sfc \<Rightarrow> nat list \<Rightarrow> sfc" where
  "append_last s xs = s\<lparr>refinedsfc := butlast (refinedsfc s) @ [last (refinedsfc s) @ xs]\<rparr>"

lemma append_last_simps [simp]:
  "refinedsfc (append_last s xs) \<noteq> []" "append_last (append_last s xs) ys = append_last s (xs @ ys)"
  "bucketSize (append_last s xs) = bucketSize s"
  by (simp_all add: append_last_def bucketSize_def)

lemma append_last_level: "L + 1 < length (refinedsfc s) \<Longrightarrow> rd (refinedsfc (append_last s xs)) L = rd (refinedsfc s) L"
  by (auto simp: append_last_def rd_def nth_append nth_butlast)

lemma append_last_Nil: "refinedsfc s \<noteq> [] \<Longrightarrow> append_last s [] = s"
  by (simp add: append_last_def)

lemma length_append_last [simp]: "refinedsfc s \<noteq> [] \<Longrightarrow> length (refinedsfc (append_last s xs)) = length (refinedsfc s)"
  by (simp add: append_last_def)

lemma recurce_append: "refinedsfc s \<noteq> [] \<Longrightarrow> recurce v s = Some (append_last s [v])"
  by (simp add: recurce_def append_last_def)

lemma passes_antimono: "passes tolerance t x \<Longrightarrow> y \<le> x \<Longrightarrow> passes tolerance t y"
  by (auto simp: passes_def)

lemma passes_mono: "passes tolerance t x \<Longrightarrow> t \<le> u \<Longrightarrow> passes tolerance u x"
  by (auto simp: passes_def)

lemma part_of_le: "\<not> passes tolerance t (C ((bs * v + i) * c)) \<Longrightarrow> part_of C c bs tolerance v t \<le> i"
  unfolding part_of_def by (rule Least_le)

lemma before_part: "i < part_of C c bs tolerance v t \<Longrightarrow> passes tolerance t (C ((bs * v + i) * c))"
  unfolding part_of_def using not_less_Least by blast

lemma at_part:
  assumes "t \<le> C ((bs * v + i) * c)"
  shows "\<not> passes tolerance t (C ((bs * v + part_of C c bs tolerance v t) * c))"
  unfolding part_of_def by (rule LeastI[of _ i]) (use assms in \<open>simp add: passes_def\<close>)

lemma part_of_bucket: "in_bucket C c bs v t \<Longrightarrow> part_of C c bs tolerance v t \<le> bs"
  by (rule part_of_le) (simp add: in_bucket_def passes_def)

lemma part_of_mono: "t \<le> u \<Longrightarrow> u \<le> C ((bs * v + i) * c) \<Longrightarrow> part_of C c bs tolerance v t \<le> part_of C c bs tolerance v u"
  using at_part[of u C bs v i c tolerance] passes_mono by (intro part_of_le) blast

lemma too_many_part:
  assumes "in_bucket C c bs v t" and "too_many C c bs tolerance v t"
  shows "0 < part_of C c bs tolerance v t"
proof (rule ccontr)
  assume "\<not> 0 < part_of C c bs tolerance v t"
  then have "C ((bs * v + part_of C c bs tolerance v t) * c) \<le> t" using assms(1) by (simp add: in_bucket_def)
  then show False using assms(2) by (simp add: too_many_def)
qed

lemma next_part_ok:
  assumes "\<And>j. j \<le> bs \<Longrightarrow> rd rcounts (boffset + j) = Some (P j)" and "m \<le> bs" and "i \<le> m"
    and "\<And>j. i \<le> j \<Longrightarrow> j < m \<Longrightarrow> passes tolerance t (P j)" and "\<not> passes tolerance t (P m)"
  shows "next_part rcounts boffset bs t tolerance i = Some m"
  using assms(3,4)
proof (induction "m - i" arbitrary: i)
  case 0
  then have "i = m" by simp
  then show ?case using assms(1)[of m] assms(2,5) by (subst next_part.simps) (auto simp: passes_def)
next
  case (Suc n)
  then have i: "i < m" by simp
  then have "next_part rcounts boffset bs t tolerance (i + 1) = Some m"
    using Suc.hyps(1)[of "i + 1"] Suc.hyps(2) Suc.prems(2) by simp
  then show ?case using i Suc.prems(2)[of i] assms(1)[of i] assms(2) by (subst next_part.simps) (simp add: passes_def)
qed

lemma place_borders_ok:
  assumes "sorted targets" and "length borders = length targets" and "refinedsfc s \<noteq> []" and "mono C"
    and counts: "\<And>j. j \<le> bs \<Longrightarrow> rd rcounts (boffset + j) = Some (C ((bs * v + j) * c))"
    and k: "below targets (C (bs * v * c)) \<le> k" "k \<le> below targets (C ((bs * v + bs) * c))"
  shows "\<exists>i. for_each [below targets (C (bs * v * c))..<k] (place_border bs c v boffset tolerance targets rcounts) (0, s, borders, indices) =
      Some (i, append_last s (map (\<lambda>r. bs * v + (part_of C c bs tolerance v (targets ! r) - 1))
            (filter (\<lambda>r. too_many C c bs tolerance v (targets ! r)) [below targets (C (bs * v * c))..<k])),
          map (\<lambda>r. if below targets (C (bs * v * c)) \<le> r \<and> r < k
            then c * (bs * v + part_of C c bs tolerance v (targets ! r)) else borders ! r) [0..<length targets],
          indices @ map (\<lambda>r. boffset + (part_of C c bs tolerance v (targets ! r) - 1))
            (filter (\<lambda>r. too_many C c bs tolerance v (targets ! r)) [below targets (C (bs * v * c))..<k])) \<and>
    (\<forall>r. k \<le> r \<longrightarrow> r < below targets (C ((bs * v + bs) * c)) \<longrightarrow> i \<le> part_of C c bs tolerance v (targets ! r)) "
proof -
  let ?first = "below targets (C (bs * v * c))" and ?last = "below targets (C ((bs * v + bs) * c))"
  let ?part = "\<lambda>r. part_of C c bs tolerance v (targets ! r)" and ?many = "\<lambda>r. too_many C c bs tolerance v (targets ! r)"
  let ?new = "\<lambda>k. map (\<lambda>r. if ?first \<le> r \<and> r < k then c * (bs * v + ?part r) else borders ! r) [0..<length targets]"
  let ?refined = "\<lambda>k. filter ?many [?first..<k]"
  have inside: "in_bucket C c bs v (targets ! r)" "r < length targets" if "?first \<le> r" "r < ?last" for r
    using below_sorted[OF assms(1), of r "C (bs * v * c)"] below_sorted[OF assms(1), of r "C ((bs * v + bs) * c)"] that
    by (auto simp: in_bucket_def)
  show ?thesis
    using k
  proof (induction k rule: dec_induct)
    case base
    have "map (\<lambda>r. if ?first \<le> r \<and> r < ?first then c * (bs * v + ?part r) else borders ! r) [0..<length targets] = borders"
      using assms(2) by (intro nth_equalityI) simp_all
    then show ?case using append_last_Nil[OF assms(3)] by simp
  next
    case (step k)
    then have k: "?first \<le> k" "k < ?last" by simp_all
    note here = inside[OF k]
    obtain i where i: "for_each [?first..<k] (place_border bs c v boffset tolerance targets rcounts) (0, s, borders, indices) =
        Some (i, append_last s (map (\<lambda>r. bs * v + (?part r - 1)) (?refined k)), ?new k,
          indices @ map (\<lambda>r. boffset + (?part r - 1)) (?refined k))"
      "\<And>r. k \<le> r \<Longrightarrow> r < ?last \<Longrightarrow> i \<le> ?part r" using step by auto
    have part: "next_part rcounts boffset bs (targets ! k) tolerance i = Some (?part k)"
    proof (rule next_part_ok[OF counts])
      show "?part k \<le> bs" by (rule part_of_bucket[OF here(1)])
      show "i \<le> ?part k" using i(2)[of k] k by simp
      show "passes tolerance (targets ! k) (C ((bs * v + j) * c))" if "j < ?part k" for j by (rule before_part[OF that])
      show "\<not> passes tolerance (targets ! k) (C ((bs * v + ?part k) * c))"
        using here(1) by (intro at_part[where i = bs]) (simp add: in_bucket_def)
    qed simp
    have upd: "wr (?new k) k (c * (bs * v + ?part k)) = Some (?new (Suc k))"
      using here(2) k(1) by (auto simp: wr_def intro!: nth_equalityI simp: nth_list_update less_Suc_eq)
    have count: "rd rcounts (boffset + ?part k) = Some (C ((bs * v + ?part k) * c))"
      by (rule counts) (rule part_of_bucket[OF here(1)])
    have many: "targets ! k < C ((bs * v + ?part k) * c) \<and> tolerance < C ((bs * v + ?part k) * c) - targets ! k \<longleftrightarrow> ?many k"
      by (auto simp: too_many_def)
    have one: "place_border bs c v boffset tolerance targets rcounts k (i, append_last s xs, ?new k, idx) =
        Some (?part k, append_last s (xs @ (if ?many k then [bs * v + (?part k - 1)] else [])), ?new (Suc k),
          idx @ (if ?many k then [boffset + (?part k - 1)] else []))" for xs idx
    proof (cases "?many k")
      case True
      have pos: "0 < ?part k" by (rule too_many_part[OF here(1) True])
      show ?thesis
        unfolding place_border_def prod.case rd_Some[OF here(2)] bind.bind_lunit part upd count many
        using True pos by (simp add: recurce_append)
    next
      case False
      then show ?thesis
        unfolding place_border_def prod.case rd_Some[OF here(2)] bind.bind_lunit part upd count many by simp
    qed
    have later: "?part k \<le> ?part r" if "Suc k \<le> r" "r < ?last" for r
    proof (rule part_of_mono[where i = bs])
      show "targets ! k \<le> targets ! r" using sorted_nth_mono[OF assms(1), of k r] that inside(2)[of r] k by simp
      show "targets ! r \<le> C ((bs * v + bs) * c)" using inside(1)[of r] that k by (simp add: in_bucket_def)
    qed
    have parts: "?refined (Suc k) = ?refined k @ (if ?many k then [k] else [])" using k(1) by simp
    have "[?first..<Suc k] = [?first..<k] @ [k]" using k(1) by simp
    then show ?case
      using later unfolding parts map_append
      by (intro exI[of _ "?part k"]) (simp only: for_each_append i(1) bind.bind_lunit for_each.simps one, simp)
  qed
qed

lemma split_bucket_ok:
  assumes "sorted targets" and "length borders = length targets" and "mono C"
    and "rd (refinedsfc s) L = Some vs" and "b < length vs"
  shows "split_bucket bs L c tolerance targets (cell_counts bs c vs C) b (s, borders, indices) =
    Some (append_last s (map (\<lambda>j. bs * vs ! b + j) (split_parts C c bs tolerance targets (vs ! b))),
      new_border C c bs tolerance targets (vs ! b) borders,
      indices @ map (\<lambda>j. b * (bs + 1) + j) (split_parts C c bs tolerance targets (vs ! b)))"
proof -
  let ?v = "vs ! b" and ?t = "\<lambda>r. targets ! r"
  let ?first = "below targets (C (bs * ?v * c))" and ?last = "below targets (C ((bs * ?v + bs) * c))"
  let ?many = "\<lambda>r. too_many C c bs tolerance ?v (?t r)" and ?part = "\<lambda>r. part_of C c bs tolerance ?v (?t r)"
  have le: "?first \<le> ?last"
    by (rule below_mono, rule monoD[OF assms(3)]) (simp add: algebra_simps)
  have range: "?first \<le> r \<and> r < ?last \<longleftrightarrow> in_bucket C c bs ?v (?t r)" if "r < length targets" for r
    using below_sorted[OF assms(1), of r "C (bs * ?v * c)"] below_sorted[OF assms(1), of r "C ((bs * ?v + bs) * c)"] that
    by (auto simp: in_bucket_def)
  have last: "?last \<le> length targets" unfolding below_def by (rule length_filter_le)
  have refined: "filter ?many [?first..<?last] = filter (\<lambda>r. in_bucket C c bs ?v (?t r) \<and> ?many r) [0..<length targets]"
  proof -
    have "[0..<length targets] = [0..<?first] @ [?first..<?last] @ [?last..<length targets]"
      using le last by (metis le_add_diff_inverse upt_add_eq_append zero_le le_trans)
    moreover have "\<not> in_bucket C c bs ?v (?t r)" if "r < ?first" for r
      using range[of r] that le last by auto
    then have "filter (\<lambda>r. in_bucket C c bs ?v (?t r) \<and> ?many r) [0..<?first] = []"
      by (auto simp: filter_empty_conv)
    moreover have "\<not> in_bucket C c bs ?v (?t r)" if "?last \<le> r" "r < length targets" for r
      using range[OF that(2)] that(1) by simp
    then have "filter (\<lambda>r. in_bucket C c bs ?v (?t r) \<and> ?many r) [?last..<length targets] = []"
      by (auto simp: filter_empty_conv)
    moreover have "in_bucket C c bs ?v (?t r)" if "?first \<le> r" "r < ?last" for r
      using range[of r] last that by simp
    then have "filter (\<lambda>r. in_bucket C c bs ?v (?t r) \<and> ?many r) [?first..<?last] = filter ?many [?first..<?last]"
      by (intro filter_cong) auto
    ultimately show ?thesis by simp
  qed
  have counts: "rd (cell_counts bs c vs C) (b * (bs + 1) + j) = Some (C ((bs * ?v + j) * c))" if "j \<le> bs" for j
    using cell_counts_nth[OF assms(5) that] block_end[OF assms(5), of "bs + 1"] that by (simp add: rd_def)
  have borders: "map (\<lambda>r. if ?first \<le> r \<and> r < ?last then c * (bs * ?v + ?part r) else borders ! r) [0..<length targets] =
      new_border C c bs tolerance targets ?v borders"
    unfolding new_border_def by (rule map_cong[OF refl]) (simp add: range)
  have s: "refinedsfc s \<noteq> []" using assms(4) by (auto simp: rd_def)
  obtain i where "for_each [?first..<?last] (place_border bs c ?v (b * (bs + 1)) tolerance targets (cell_counts bs c vs C)) (0, s, borders, indices) =
      Some (i, append_last s (map (\<lambda>r. bs * ?v + (?part r - 1)) (filter ?many [?first..<?last])), new_border C c bs tolerance targets ?v borders,
        indices @ map (\<lambda>r. b * (bs + 1) + (?part r - 1)) (filter ?many [?first..<?last]))"
    using place_borders_ok[where indices = indices and tolerance = tolerance, OF assms(1,2) s assms(3) counts le order.refl] unfolding borders by blast
  moreover have "rd (cell_counts bs c vs C) (b * (bs + 1)) = Some (C (bs * ?v * c))" using counts[of 0] by simp
  moreover note counts[OF order.refl]
  moreover have "lower_bound 0 (length targets) x targets = below targets x" for x by (rule lower_bound_below[OF assms(1)])
  ultimately show ?thesis
    unfolding split_bucket_def prod.case assms(4) rd_Some[OF assms(5)] bind.bind_lunit Let_def refined split_parts_def map_map comp_def
    by simp
qed

lemma length_new_border [simp]: "length (new_border C c bs tolerance targets v borders) = length targets"
  by (simp add: new_border_def)

text \<open>The new refined buckets, the new borders and the indices of the refined parts after a level.\<close>

definition level_parts :: "(nat \<Rightarrow> nat) \<Rightarrow> nat \<Rightarrow> nat \<Rightarrow> nat \<Rightarrow> nat list \<Rightarrow> nat list \<Rightarrow> nat list" where
  "level_parts C c bs tolerance targets vs = concat (map (\<lambda>v. map (\<lambda>j. bs * v + j) (split_parts C c bs tolerance targets v)) vs)"

definition level_borders :: "(nat \<Rightarrow> nat) \<Rightarrow> nat \<Rightarrow> nat \<Rightarrow> nat \<Rightarrow> nat list \<Rightarrow> nat list \<Rightarrow> nat list \<Rightarrow> nat list" where
  "level_borders C c bs tolerance targets vs borders = fold (new_border C c bs tolerance targets) vs borders"

definition level_indices :: "(nat \<Rightarrow> nat) \<Rightarrow> nat \<Rightarrow> nat \<Rightarrow> nat \<Rightarrow> nat list \<Rightarrow> nat list \<Rightarrow> nat list" where
  "level_indices C c bs tolerance targets vs =
     concat (map (\<lambda>b. map (\<lambda>j. b * (bs + 1) + j) (split_parts C c bs tolerance targets (vs ! b))) [0..<length vs])"

lemma setLevel_next: "length (refinedsfc s) = L + 1 \<Longrightarrow> refinedsfc (setLevel (L + 1) s) = refinedsfc s @ [[]]"
  by (simp add: setLevel_def)

lemma split_level_ok:
  assumes "sorted targets" and "length borders = length targets" and "mono C" and "length (refinedsfc s) = L + 1"
  shows "split_level s L c tolerance targets (cell_counts (bucketSize s) c (refinedsfc s ! L) C) borders =
    Some (append_last (setLevel (L + 1) s) (level_parts C c (bucketSize s) tolerance targets (refinedsfc s ! L)),
      level_borders C c (bucketSize s) tolerance targets (refinedsfc s ! L) borders,
      level_indices C c (bucketSize s) tolerance targets (refinedsfc s ! L))"
proof -
  let ?vs = "refinedsfc s ! L" and ?bs = "bucketSize s" and ?s = "setLevel (L + 1) s"
  let ?parts = "split_parts C c ?bs tolerance targets"
  have s: "refinedsfc ?s = refinedsfc s @ [[]]" by (rule setLevel_next[OF assms(4)])
  then have level: "rd (refinedsfc (append_last ?s xs)) L = Some ?vs" for xs
    using append_last_level[of L ?s xs] assms(4) by (simp add: rd_def nth_append)
  have "for_each [0..<k] (split_bucket ?bs L c tolerance targets (cell_counts ?bs c ?vs C)) (append_last ?s [], borders, []) =
      Some (append_last ?s (level_parts C c ?bs tolerance targets (take k ?vs)),
        level_borders C c ?bs tolerance targets (take k ?vs) borders,
        concat (map (\<lambda>b. map (\<lambda>j. b * (?bs + 1) + j) (?parts (?vs ! b))) [0..<k])) \<and>
      length (level_borders C c ?bs tolerance targets (take k ?vs) borders) = length targets" if "k \<le> length ?vs" for k
    using that
  proof (induction k)
    case 0
    then show ?case using assms(2) by (simp add: level_parts_def level_borders_def)
  next
    case (Suc k)
    then have k: "k < length ?vs" by simp
    have IH: "for_each [0..<k] (split_bucket ?bs L c tolerance targets (cell_counts ?bs c ?vs C)) (append_last ?s [], borders, []) =
      Some (append_last ?s (level_parts C c ?bs tolerance targets (take k ?vs)),
        level_borders C c ?bs tolerance targets (take k ?vs) borders,
        concat (map (\<lambda>b. map (\<lambda>j. b * (?bs + 1) + j) (?parts (?vs ! b))) [0..<k]))"
      "length (level_borders C c ?bs tolerance targets (take k ?vs) borders) = length targets"
      using Suc.IH k by simp_all
    have upto: "[0..<Suc k] = [0..<k] @ [k]" "take (Suc k) ?vs = take k ?vs @ [?vs ! k]"
      using k by (simp_all add: take_Suc_conv_app_nth)
    show ?case
      unfolding upto for_each_append IH(1) bind.bind_lunit for_each.simps
        split_bucket_ok[OF assms(1) IH(2) assms(3) level k, of ?bs c tolerance]
      using IH(2) by (simp add: level_parts_def level_borders_def)
  qed
  from this[of "length ?vs"] have "for_each [0..<length ?vs] (split_bucket ?bs L c tolerance targets (cell_counts ?bs c ?vs C)) (?s, borders, []) =
      Some (append_last ?s (level_parts C c ?bs tolerance targets ?vs), level_borders C c ?bs tolerance targets ?vs borders,
        level_indices C c ?bs tolerance targets ?vs)"
    using s by (simp add: append_last_Nil level_indices_def)
  then show ?thesis using assms(4) by (simp add: split_level_def rd_def)
qed

end
