(* ===== verification/ClusterCorrect.thy ===== *)
theory ClusterCorrect
  imports ClusterLevels
begin

text \<open>
  The result of \<^verbatim>\<open>clusterize\<close>: the refined curve is a tree, and the borders between the processes
  are ordered borders of its leaves that are close to the targets.
\<close>

section \<open>The borders after a level\<close>

lemma in_bucket_unique:
  assumes "mono C" and "in_bucket C c bs u t" and "in_bucket C c bs v t"
  shows "u = v"
proof -
  have False if "in_bucket C c bs u t" "in_bucket C c bs v t" "u < v" for u v
  proof -
    have "bs * u + bs \<le> bs * v" using that(3) by (metis Suc_leI mult_Suc_right add.commute mult_le_mono2)
    then have "C ((bs * u + bs) * c) \<le> C (bs * v * c)" by (intro monoD[OF assms(1)] mult_le_mono1)
    then show False using that(1,2) by (simp add: in_bucket_def)
  qed
  then show ?thesis using assms(2,3) by (meson linorder_cases)
qed

lemma length_level_borders: "length borders = length targets \<Longrightarrow> length (level_borders C c bs tolerance targets vs borders) = length targets"
  by (induction vs arbitrary: borders) (simp_all add: level_borders_def)

lemma level_borders_outside:
  assumes "r < length targets" and "\<And>v. v \<in> set vs \<Longrightarrow> \<not> in_bucket C c bs v (targets ! r)"
  shows "level_borders C c bs tolerance targets vs borders ! r = borders ! r"
  using assms(2)
proof (induction vs arbitrary: borders)
  case (Cons v vs)
  then have "level_borders C c bs tolerance targets (v # vs) borders ! r = new_border C c bs tolerance targets v borders ! r"
    by (simp add: level_borders_def)
  also have "\<dots> = borders ! r" using Cons.prems[of v] assms(1) by (simp add: new_border_def)
  finally show ?case .
qed (simp add: level_borders_def)

lemma level_borders_inside:
  assumes "mono C" and "r < length targets" and "v \<in> set vs" and "in_bucket C c bs v (targets ! r)"
  shows "level_borders C c bs tolerance targets vs borders ! r = c * (bs * v + part_of C c bs tolerance v (targets ! r))"
proof -
  obtain pre post where vs: "vs = pre @ v # post" "v \<notin> set post" using split_list_last[OF assms(3)] by blast
  let ?b = "level_borders C c bs tolerance targets pre borders"
  have "\<not> in_bucket C c bs u (targets ! r)" if "u \<in> set post" for u
    using in_bucket_unique[OF assms(1) _ assms(4)] that vs(2) by blast
  from level_borders_outside[OF assms(2) this]
  have "level_borders C c bs tolerance targets vs borders ! r = new_border C c bs tolerance targets v ?b ! r"
    unfolding level_borders_def vs(1) by simp
  then show ?thesis using assms(2,4) by (simp add: new_border_def)
qed

section \<open>The invariant\<close>

definition curve_levels :: "sfc \<Rightarrow> nat \<Rightarrow> bool" where
  "curve_levels s L \<longleftrightarrow> sfc_dimension s \<in> {2, 3} \<and> length (refinedsfc s) = Suc L \<and> L \<le> sfc_depth s \<and>
     list_all (sorted_wrt (<)) (refinedsfc s) \<and> set (refinedsfc s ! 0) \<subseteq> {0} \<and>
     (\<forall>i v. Suc i < length (refinedsfc s) \<longrightarrow> v \<in> set (refinedsfc s ! Suc i) \<longrightarrow>
        v div bucketSize s \<in> set (refinedsfc s ! i))"

lemma curve_levels_bound:
  assumes "curve_levels s L" and "i \<le> L" and "v \<in> set (refinedsfc s ! i)"
  shows "v < bucketSize s ^ i"
  using assms(2,3)
proof (induction i arbitrary: v)
  case 0
  then show ?case using assms(1) by (auto simp: curve_levels_def)
next
  case (Suc i)
  then have "v div bucketSize s \<in> set (refinedsfc s ! i)" using assms(1) by (auto simp: curve_levels_def)
  then have "v div bucketSize s < bucketSize s ^ i" using Suc by simp
  then show ?case using bucketSize_pos[of s] by (simp add: div_less_iff_less_mult mult.commute)
qed

lemma curve_levels_ok:
  assumes "curve_levels s L" and "L = sfc_depth s \<or> \<not> hasLevel s L"
  shows "sfc_ok s"
proof -
  have len: "length (refinedsfc s) = Suc L" using assms(1) by (simp add: curve_levels_def)
  then have "refinedsfc s \<noteq> []" by auto
  then have "last (refinedsfc s) = refinedsfc s ! L" using len by (simp add: last_conv_nth)
  then have "length (refinedsfc s) = Suc (sfc_depth s) \<or> last (refinedsfc s) = []"
    using assms(2) len by (auto simp: hasLevel_def)
  then show ?thesis using assms(1) \<open>refinedsfc s \<noteq> []\<close> unfolding curve_levels_def sfc_ok_def by simp
qed

text \<open>Where the borders lie: starts and ends of parts of refined buckets.\<close>

definition cut_position :: "sfc \<Rightarrow> nat \<Rightarrow> bool" where
  "cut_position s p \<longleftrightarrow> p = 0 \<or> p = buckets s (sfc_depth s) \<or>
     (\<exists>d v i. d < sfc_depth s \<and> refined s d v \<and> i \<le> bucketSize s \<and> p = coarsening s (d + 1) * (bucketSize s * v + i))"

definition cluster_inv :: "(nat \<Rightarrow> nat) \<Rightarrow> nat \<Rightarrow> nat list \<Rightarrow> nat \<Rightarrow> sfc \<Rightarrow> nat list \<Rightarrow> bool" where
  "cluster_inv C tolerance targets L s borders \<longleftrightarrow> curve_levels s L \<and> length borders = length targets \<and> sorted borders \<and>
     (\<forall>r < length targets. cut_position s (borders ! r) \<and> \<not> passes tolerance (targets ! r) (C (borders ! r)) \<and>
        (\<forall>v \<in> set (refinedsfc s ! L).
           (targets ! r < C (v * coarsening s L) \<longrightarrow> borders ! r \<le> v * coarsening s L) \<and>
           (C ((v + 1) * coarsening s L) \<le> targets ! r \<longrightarrow> (v + 1) * coarsening s L \<le> borders ! r)) \<and>
        (C (borders ! r) \<le> targets ! r + tolerance \<or>
         (\<exists>v \<in> set (refinedsfc s ! L). C (v * coarsening s L) \<le> targets ! r \<and> targets ! r < C ((v + 1) * coarsening s L))))"

definition next_level :: "(nat \<Rightarrow> nat) \<Rightarrow> nat \<Rightarrow> nat list \<Rightarrow> nat \<Rightarrow> sfc \<Rightarrow> sfc" where
  "next_level C tolerance targets L s = s\<lparr>refinedsfc := refinedsfc s @
     [sorted_list_of_set (set (level_parts C (coarsening s (L + 1)) (bucketSize s) tolerance targets (refinedsfc s ! L)))]\<rparr>"

lemma next_level_simps [simp]:
  "sfc_dimension (next_level C tolerance targets L s) = sfc_dimension s"
  "sfc_depth (next_level C tolerance targets L s) = sfc_depth s"
  "bucketSize (next_level C tolerance targets L s) = bucketSize s"
  "buckets (next_level C tolerance targets L s) d = buckets s d"
  "coarsening (next_level C tolerance targets L s) d = coarsening s d"
  by (simp_all add: next_level_def bucketSize_def buckets_def coarsening_def)

text \<open>A refined part: some border in the bucket has too many elements before it.\<close>

lemma split_partsE:
  assumes "j \<in> set (split_parts C c bs tolerance targets v)"
  obtains r where "r < length targets" and "in_bucket C c bs v (targets ! r)"
    and "Suc j = part_of C c bs tolerance v (targets ! r)" and "targets ! r + tolerance < C ((bs * v + Suc j) * c)"
    and "C ((bs * v + j) * c) < targets ! r" and "j < bs"
proof -
  obtain r where r: "r < length targets" "in_bucket C c bs v (targets ! r)" "too_many C c bs tolerance v (targets ! r)"
    and j: "j = part_of C c bs tolerance v (targets ! r) - 1"
    using assms by (auto simp: split_parts_def)
  then have Suc: "Suc j = part_of C c bs tolerance v (targets ! r)" using too_many_part[OF r(2,3)] by simp
  then have "passes tolerance (targets ! r) (C ((bs * v + j) * c))" by (intro before_part) simp
  moreover have "Suc j \<le> bs" unfolding Suc by (rule part_of_bucket[OF r(2)])
  ultimately show thesis using that[OF r(1,2) Suc] r(3) by (simp add: too_many_def passes_def Suc[symmetric] del: mult_Suc_right)
qed

lemma split_partsI:
  assumes "r < length targets" and "in_bucket C c bs v (targets ! r)"
    and "targets ! r + tolerance < C ((bs * v + part_of C c bs tolerance v (targets ! r)) * c)"
  shows "part_of C c bs tolerance v (targets ! r) - 1 \<in> set (split_parts C c bs tolerance targets v)"
    and "0 < part_of C c bs tolerance v (targets ! r)"
proof -
  have many: "too_many C c bs tolerance v (targets ! r)" using assms(3) by (simp add: too_many_def)
  then show "0 < part_of C c bs tolerance v (targets ! r)" by (rule too_many_part[OF assms(2)])
  show "part_of C c bs tolerance v (targets ! r) - 1 \<in> set (split_parts C c bs tolerance targets v)"
    using assms(1,2) many unfolding split_parts_def by auto
qed

lemma curve_levels_next:
  assumes "curve_levels s L" and "L < sfc_depth s"
  shows "curve_levels (next_level C tolerance targets L s) (L + 1)"
proof -
  let ?bs = "bucketSize s" and ?c = "coarsening s (L + 1)"
  have parent: "w div ?bs \<in> set (refinedsfc s ! L)" if "w \<in> set (level_parts C ?c ?bs tolerance targets (refinedsfc s ! L))" for w
  proof -
    obtain v j where v: "v \<in> set (refinedsfc s ! L)" "w = ?bs * v + j" "j \<in> set (split_parts C ?c ?bs tolerance targets v)"
      using \<open>w \<in> _\<close> by (auto simp: level_parts_def)
    then have "j < ?bs" using split_partsE[OF v(3)] by blast
    then show ?thesis using v(1,2) by simp
  qed
  have "list_all (sorted_wrt (<)) (refinedsfc (next_level C tolerance targets L s))"
    using assms(1) by (simp add: curve_levels_def next_level_def)
  moreover have "\<forall>i v. Suc i < length (refinedsfc (next_level C tolerance targets L s)) \<longrightarrow>
      v \<in> set (refinedsfc (next_level C tolerance targets L s) ! Suc i) \<longrightarrow>
      v div ?bs \<in> set (refinedsfc (next_level C tolerance targets L s) ! i)"
    using assms(1) parent by (auto simp: curve_levels_def next_level_def nth_append less_Suc_eq)
  ultimately show ?thesis
    using assms by (simp add: curve_levels_def next_level_def nth_append bucketSize_def)
qed

section \<open>A level keeps the invariant\<close>

lemma cluster_invD:
  assumes "cluster_inv C tolerance targets L s borders"
  shows "curve_levels s L" and "length borders = length targets" and "sorted borders"
    and "r < length targets \<Longrightarrow> cut_position s (borders ! r)"
    and "r < length targets \<Longrightarrow> \<not> passes tolerance (targets ! r) (C (borders ! r))"
    and "r < length targets \<Longrightarrow> v \<in> set (refinedsfc s ! L) \<Longrightarrow> targets ! r < C (v * coarsening s L) \<Longrightarrow> borders ! r \<le> v * coarsening s L"
    and "r < length targets \<Longrightarrow> v \<in> set (refinedsfc s ! L) \<Longrightarrow> C ((v + 1) * coarsening s L) \<le> targets ! r \<Longrightarrow> (v + 1) * coarsening s L \<le> borders ! r"
    and "r < length targets \<Longrightarrow> C (borders ! r) \<le> targets ! r + tolerance \<or>
         (\<exists>v \<in> set (refinedsfc s ! L). C (v * coarsening s L) \<le> targets ! r \<and> targets ! r < C ((v + 1) * coarsening s L))"
  using assms unfolding cluster_inv_def by blast+

lemma part_positions:
  assumes "sfc_dimension s \<in> {2, 3}" and "L < sfc_depth s"
  shows "v * coarsening s L = bucketSize s * v * coarsening s (L + 1)"
    and "(v + 1) * coarsening s L = (bucketSize s * v + bucketSize s) * coarsening s (L + 1)"
  using coarsening_next(1)[OF assms] by (simp_all add: algebra_simps)

lemma level_border_range:
  assumes "mono C" and "r < length targets" and "v \<in> set vs" and "in_bucket C c bs v (targets ! r)"
  shows "bs * v * c \<le> level_borders C c bs tolerance targets vs borders ! r"
    and "level_borders C c bs tolerance targets vs borders ! r \<le> (bs * v + bs) * c"
  using part_of_bucket[OF assms(4), of tolerance]
  by (simp_all add: level_borders_inside[OF assms] mult.commute[of c] add_mult_distrib del: mult_Suc)

lemma level_border_side:
  assumes "mono C" and "cluster_inv C tolerance targets L s borders" and "L < sfc_depth s"
    and "r < length targets" and "v \<in> set (refinedsfc s ! L)"
  defines "bs \<equiv> bucketSize s" and "c \<equiv> coarsening s (L + 1)"
  defines "new \<equiv> level_borders C c bs tolerance targets (refinedsfc s ! L) borders ! r"
  shows "targets ! r < C (bs * v * c) \<Longrightarrow> new \<le> bs * v * c"
    and "C ((bs * v + bs) * c) \<le> targets ! r \<Longrightarrow> (bs * v + bs) * c \<le> new"
proof -
  note inv = cluster_invD[OF assms(2)]
  have dim: "sfc_dimension s \<in> {2, 3}" using inv(1) by (simp add: curve_levels_def)
  note pos = part_positions[OF dim assms(3), folded bs_def c_def]
  have next_to: "bs * u + bs \<le> bs * w" if "u < w" for u w
    using that by (metis Suc_leI mult_Suc_right add.commute mult_le_mono2)
  have "(targets ! r < C (bs * v * c) \<longrightarrow> new \<le> bs * v * c) \<and> (C ((bs * v + bs) * c) \<le> targets ! r \<longrightarrow> (bs * v + bs) * c \<le> new)"
  proof (cases "\<exists>u \<in> set (refinedsfc s ! L). in_bucket C c bs u (targets ! r)")
    case True
    then obtain u where u: "u \<in> set (refinedsfc s ! L)" "in_bucket C c bs u (targets ! r)" by blast
    have range: "bs * u * c \<le> new" "new \<le> (bs * u + bs) * c"
      unfolding new_def using level_border_range[OF assms(1,4) u] by simp_all
    have "(bs * u + bs) * c \<le> bs * v * c" if t: "targets ! r < C (bs * v * c)"
    proof -
      have "\<not> v \<le> u"
      proof
        assume "v \<le> u"
        then have "C (bs * v * c) \<le> C (bs * u * c)" by (intro monoD[OF assms(1)] mult_le_mono) simp_all
        then show False using t u(2) by (simp add: in_bucket_def)
      qed
      then show ?thesis using next_to[of u v] by (intro mult_le_mono1) simp
    qed
    moreover have "(bs * v + bs) * c \<le> bs * u * c" if t: "C ((bs * v + bs) * c) \<le> targets ! r"
    proof -
      have "\<not> u \<le> v"
      proof
        assume "u \<le> v"
        then have "C ((bs * u + bs) * c) \<le> C ((bs * v + bs) * c)" by (intro monoD[OF assms(1)] mult_le_mono) simp_all
        then show False using t u(2) by (simp add: in_bucket_def)
      qed
      then show ?thesis using next_to[of v u] by (intro mult_le_mono1) simp
    qed
    ultimately show ?thesis using range by linarith
  next
    case False
    then have "new = borders ! r" unfolding new_def using level_borders_outside[OF assms(4)] by blast
    then show ?thesis using inv(6)[OF assms(4,5), unfolded pos(1)] inv(7)[OF assms(4,5), unfolded pos(2)] by blast
  qed
  then show "targets ! r < C (bs * v * c) \<Longrightarrow> new \<le> bs * v * c"
    and "C ((bs * v + bs) * c) \<le> targets ! r \<Longrightarrow> (bs * v + bs) * c \<le> new" by blast+
qed

lemma level_borders_sorted:
  assumes "mono C" and "sorted targets" and "cluster_inv C tolerance targets L s borders" and "L < sfc_depth s"
  shows "sorted (level_borders C (coarsening s (L + 1)) (bucketSize s) tolerance targets (refinedsfc s ! L) borders)"
proof -
  let ?bs = "bucketSize s" and ?c = "coarsening s (L + 1)" and ?vs = "refinedsfc s ! L"
  let ?new = "level_borders C ?c ?bs tolerance targets ?vs borders"
  let ?in = "in_bucket C ?c ?bs"
  note inv = cluster_invD[OF assms(3)]
  have len: "length ?new = length targets" by (rule length_level_borders[OF inv(2)])
  show ?thesis
    unfolding sorted_iff_nth_mono len
  proof (intro allI impI)
    fix q r
    assume qr: "q \<le> r" "r < length targets"
    then have q: "q < length targets" by simp
    have t: "targets ! q \<le> targets ! r" using sorted_nth_mono[OF assms(2)] qr by simp
    note side = level_border_side[OF assms(1,3,4)]
    show "?new ! q \<le> ?new ! r"
    proof (cases "\<exists>v \<in> set ?vs. ?in v (targets ! q)")
      case True
      then obtain v where v: "v \<in> set ?vs" "?in v (targets ! q)" by blast
      show ?thesis
      proof (cases "?in v (targets ! r)")
        case True
        have "targets ! r \<le> C ((?bs * v + ?bs) * ?c)" using True by (simp add: in_bucket_def)
        then show ?thesis
          using part_of_mono[OF t] unfolding level_borders_inside[OF assms(1) q v] level_borders_inside[OF assms(1) qr(2) v(1) True]
          by simp
      next
        case False
        then have "C ((?bs * v + ?bs) * ?c) \<le> targets ! r" using v(2) t by (simp add: in_bucket_def)
        then show ?thesis
          using side(2)[OF qr(2) v(1)] level_border_range(2)[OF assms(1) q v] by (meson order_trans)
      qed
    next
      case out: False
      then have old: "?new ! q = borders ! q" using level_borders_outside[OF q] by blast
      show ?thesis
      proof (cases "\<exists>v \<in> set ?vs. ?in v (targets ! r)")
        case True
        then obtain v where v: "v \<in> set ?vs" "?in v (targets ! r)" by blast
        then have "targets ! q < C (?bs * v * ?c)" using t out by (auto simp: in_bucket_def)
        then show ?thesis
          using side(1)[OF q v(1)] level_border_range(1)[OF assms(1) qr(2) v] by (meson order_trans)
      next
        case False
        then have "?new ! r = borders ! r" using level_borders_outside[OF qr(2)] by blast
        then show ?thesis using old sorted_nth_mono[OF inv(3)] qr inv(2) by simp
      qed
    qed
  qed
qed

lemma next_level_refined:
  assumes "length (refinedsfc s) = Suc L"
  shows "refinedsfc (next_level C tolerance targets L s) ! (L + 1) = sorted_list_of_set (set (level_parts C (coarsening s (L + 1)) (bucketSize s) tolerance targets (refinedsfc s ! L)))"
    and "refined s d v \<Longrightarrow> refined (next_level C tolerance targets L s) d v"
  using assms by (auto simp: next_level_def nth_append refined_def)

lemma cut_position_next:
  assumes "length (refinedsfc s) = Suc L" and "cut_position s p"
  shows "cut_position (next_level C tolerance targets L s) p"
  using assms(2) next_level_refined(2)[OF assms(1)] unfolding cut_position_def next_level_simps by blast

lemma level_partsE:
  assumes "w \<in> set (level_parts C c bs tolerance targets vs)"
  obtains v j where "v \<in> set vs" and "w = bs * v + j" and "j \<in> set (split_parts C c bs tolerance targets v)"
  using assms by (auto simp: level_parts_def)

lemma part_side:
  fixes borders :: "nat list"
  assumes "mono C" and "in_bucket C c bs v t" and "r < length targets" and "v \<in> set vs" and "t = targets ! r"
    and "j \<in> set (split_parts C c bs tolerance targets v)"
  defines "new \<equiv> level_borders C c bs tolerance targets vs borders ! r"
  shows "t < C ((bs * v + j) * c) \<Longrightarrow> new \<le> (bs * v + j) * c"
    and "C ((bs * v + j + 1) * c) \<le> t \<Longrightarrow> (bs * v + j + 1) * c \<le> new"
proof -
  let ?m = "part_of C c bs tolerance v t"
  have new: "new = (bs * v + ?m) * c"
    unfolding new_def using level_borders_inside[OF assms(1,3,4) assms(2)[unfolded assms(5)]] by (simp add: assms(5) mult.commute)
  show "new \<le> (bs * v + j) * c" if "t < C ((bs * v + j) * c)"
  proof -
    have "?m \<le> j" by (rule part_of_le) (use that in \<open>simp add: passes_def\<close>)
    then show ?thesis unfolding new by (intro mult_le_mono1) simp
  qed
  show "(bs * v + j + 1) * c \<le> new" if t: "C ((bs * v + j + 1) * c) \<le> t"
  proof -
    obtain q where q: "targets ! q + tolerance < C ((bs * v + Suc j) * c)" "C ((bs * v + j) * c) < targets ! q"
      using split_partsE[OF assms(6)] by metis
    have "passes tolerance t (C ((bs * v + j) * c))" using q t by (simp add: passes_def)
    moreover have "C ((bs * v + ?m) * c) \<le> C ((bs * v + j) * c)" if "?m \<le> j"
      using that by (intro monoD[OF assms(1)] mult_le_mono1) simp
    moreover have "\<not> passes tolerance t (C ((bs * v + ?m) * c))"
      using assms(2) by (intro at_part[where i = bs]) (simp add: in_bucket_def)
    ultimately have "j < ?m" using passes_antimono by (meson not_le)
    then show ?thesis unfolding new by (intro mult_le_mono1) simp
  qed
qed

lemma cluster_inv_next:
  assumes "mono C" and "sorted targets" and "cluster_inv C tolerance targets L s borders" and "L < sfc_depth s"
  shows "cluster_inv C tolerance targets (L + 1) (next_level C tolerance targets L s)
    (level_borders C (coarsening s (L + 1)) (bucketSize s) tolerance targets (refinedsfc s ! L) borders)"
proof -
  let ?bs = "bucketSize s" and ?c = "coarsening s (L + 1)" and ?vs = "refinedsfc s ! L" and ?s = "next_level C tolerance targets L s"
  let ?new = "level_borders C ?c ?bs tolerance targets ?vs borders"
  let ?in = "in_bucket C ?c ?bs" and ?ws = "refinedsfc ?s ! (L + 1)"
  note inv = cluster_invD[OF assms(3)]
  have dim: "sfc_dimension s \<in> {2, 3}" and len: "length (refinedsfc s) = Suc L" using inv(1) by (simp_all add: curve_levels_def)
  note pos = part_positions[OF dim assms(4)]
  have ws: "set ?ws = set (level_parts C ?c ?bs tolerance targets ?vs)" unfolding next_level_refined(1)[OF len] by simp
  have "cut_position ?s (?new ! r) \<and> \<not> passes tolerance (targets ! r) (C (?new ! r)) \<and>
      (C (?new ! r) \<le> targets ! r + tolerance \<or>
        (\<exists>w \<in> set ?ws. C (w * ?c) \<le> targets ! r \<and> targets ! r < C ((w + 1) * ?c)))" if r: "r < length targets" for r
  proof (cases "\<exists>v \<in> set ?vs. ?in v (targets ! r)")
    case True
    then obtain v where v: "v \<in> set ?vs" "?in v (targets ! r)" by blast
    let ?m = "part_of C ?c ?bs tolerance v (targets ! r)"
    have new: "?new ! r = ?c * (?bs * v + ?m)" by (rule level_borders_inside[OF assms(1) r v])
    have "refined ?s L v" by (rule next_level_refined(2)[OF len]) (use v(1) len in \<open>simp add: refined_def\<close>)
    then have cut: "cut_position ?s (?new ! r)"
      using assms(4) part_of_bucket[OF v(2), of tolerance] unfolding new cut_position_def next_level_simps by blast
    have stop: "\<not> passes tolerance (targets ! r) (C ((?bs * v + ?m) * ?c))"
      using v(2) by (intro at_part[where i = ?bs]) (simp add: in_bucket_def)
    have "\<exists>w \<in> set ?ws. C (w * ?c) \<le> targets ! r \<and> targets ! r < C ((w + 1) * ?c)"
      if many: "targets ! r + tolerance < C ((?bs * v + ?m) * ?c)"
    proof (intro bexI conjI)
      note m = split_partsI[OF r v(2) many]
      let ?w = "?bs * v + (?m - 1)"
      show "?w \<in> set ?ws" using m(1) v(1) unfolding ws level_parts_def by auto
      show "C (?w * ?c) \<le> targets ! r" using before_part[of "?m - 1" C ?c ?bs tolerance v "targets ! r"] m(2) by (simp add: passes_def)
      have "?w + 1 = ?bs * v + ?m" using m(2) by simp
      then show "targets ! r < C ((?w + 1) * ?c)" using many by (simp only:)
    qed
    moreover have "?new ! r = (?bs * v + ?m) * ?c" unfolding new by (rule mult.commute)
    ultimately show ?thesis using cut stop not_le by metis
  next
    case False
    have new: "?new ! r = borders ! r" by (rule level_borders_outside[OF r]) (use False in blast)
    have "\<not> (\<exists>v \<in> set ?vs. C (v * coarsening s L) \<le> targets ! r \<and> targets ! r < C ((v + 1) * coarsening s L))"
      using False unfolding in_bucket_def pos(2) by (simp add: pos(1))
    then show ?thesis using inv(4,5,8)[OF r] cut_position_next[OF len] unfolding new by blast
  qed
  moreover have "(targets ! r < C (w * ?c) \<longrightarrow> ?new ! r \<le> w * ?c) \<and> (C ((w + 1) * ?c) \<le> targets ! r \<longrightarrow> (w + 1) * ?c \<le> ?new ! r)"
    if r: "r < length targets" and w: "w \<in> set ?ws" for r w
  proof -
    obtain v j where v: "v \<in> set ?vs" "w = ?bs * v + j" "j \<in> set (split_parts C ?c ?bs tolerance targets v)"
      using level_partsE[of w] w unfolding ws by metis
    then have j: "j < ?bs" using split_partsE by metis
    show ?thesis
    proof (cases "?in v (targets ! r)")
      case True
      then show ?thesis using part_side[OF assms(1) True r v(1) refl v(3)] unfolding v(2) by blast
    next
      case False
      have le: "?bs * v * ?c \<le> w * ?c" "(w + 1) * ?c \<le> (?bs * v + ?bs) * ?c"
        unfolding v(2) using j by (intro mult_le_mono1; simp)+
      then have mono: "C (?bs * v * ?c) \<le> C (w * ?c)" "C ((w + 1) * ?c) \<le> C ((?bs * v + ?bs) * ?c)" "C (w * ?c) \<le> C ((w + 1) * ?c)"
        by (intro monoD[OF assms(1)]; simp)+
      have "?new ! r \<le> w * ?c" if t: "targets ! r < C (w * ?c)"
      proof -
        have "targets ! r < C (?bs * v * ?c)" using False t mono by (auto simp: in_bucket_def)
        then show ?thesis using level_border_side(1)[OF assms(1,3,4) r v(1)] le(1) by (meson order_trans)
      qed
      moreover have "(w + 1) * ?c \<le> ?new ! r" if t: "C ((w + 1) * ?c) \<le> targets ! r"
      proof -
        have "C ((?bs * v + ?bs) * ?c) \<le> targets ! r" using False t mono by (auto simp: in_bucket_def)
        then show ?thesis using level_border_side(2)[OF assms(1,3,4) r v(1)] le(2) by (meson order_trans)
      qed
      ultimately show ?thesis by blast
    qed
  qed
  ultimately show ?thesis
    unfolding cluster_inv_def next_level_simps
    using curve_levels_next[OF inv(1) assms(4)] length_level_borders[OF inv(2)] level_borders_sorted[OF assms] by blast
qed

section \<open>The sums over the processes\<close>

text \<open>
  What \<^verbatim>\<open>MPI_Allreduce\<close> returns for a user-defined operation: the contributions combined in the order
  of the processes.
\<close>

definition mpi_allreduce :: "((nat list \<Rightarrow> nat list \<Rightarrow> nat list) \<Rightarrow> nat list list \<Rightarrow> nat list) \<Rightarrow> bool" where
  "mpi_allreduce allreduce \<longleftrightarrow> (\<forall>oper x xs. allreduce oper (x # xs) = foldl (\<lambda>acc y. oper y acc) x xs)"

definition total_below :: "nat list list \<Rightarrow> nat \<Rightarrow> nat" where
  "total_below procs x = sum_list (map (\<lambda>es. below es x) procs)"

lemma mono_total_below: "mono (total_below procs)"
  unfolding total_below_def by (intro monoI sum_list_mono below_mono)

lemma total_below_0 [simp]: "total_below procs 0 = 0"
  by (induction procs) (simp_all add: total_below_def)

lemma total_below_all:
  "\<forall>es \<in> set procs. \<forall>e \<in> set es. e < x \<Longrightarrow> total_below procs x = sum_list (map length procs)"
  by (induction procs) (simp_all add: total_below_def below_all)

definition cell_positions :: "nat \<Rightarrow> nat \<Rightarrow> nat list \<Rightarrow> nat list" where
  "cell_positions bs c vs = concat (map (\<lambda>v. map (\<lambda>i. (bs * v + i) * c) [0..<bs + 1]) vs)"

lemma cell_counts_map: "cell_counts bs c vs f = map f (cell_positions bs c vs)"
  by (simp add: cell_counts_def cell_positions_def map_concat comp_def del: upt_Suc)

lemma allreduce_counts:
  assumes "mpi_allreduce allreduce" and "procs \<noteq> []"
  shows "allreduce sum_op (map (\<lambda>es. cell_counts bs c vs (below es)) procs) = cell_counts bs c vs (total_below procs)"
proof -
  have sum: "foldl (\<lambda>acc y. sum_op y acc) (cell_counts bs c vs f) (map (\<lambda>es. cell_counts bs c vs (below es)) ps) =
      cell_counts bs c vs (\<lambda>x. f x + total_below ps x)" for f ps
  proof (induction ps arbitrary: f)
    case Nil
    then show ?case by (simp add: total_below_def)
  next
    case (Cons es ps)
    have "sum_op (cell_counts bs c vs (below es)) (cell_counts bs c vs f) = cell_counts bs c vs (\<lambda>x. f x + below es x)"
      by (simp add: sum_op_def cell_counts_map map2_map_map)
    then show ?case using Cons by (simp add: total_below_def add.assoc)
  qed
  obtain p ps where "procs = p # ps" using assms(2) by (cases procs) auto
  then show ?thesis using assms(1) sum[of "below p" ps] by (simp add: mpi_allreduce_def total_below_def[abs_def])
qed

lemma those_counts: "(\<And>x. x \<in> set xs \<Longrightarrow> f x = Some (g x)) \<Longrightarrow> those (map f xs) = Some (map g xs)"
  by (induction xs) simp_all

section \<open>The loops\<close>

lemma finish_split:
  assumes "length (refinedsfc s) = Suc L"
  shows "finishLevel (L + 1) (append_last (setLevel (L + 1) s)
      (level_parts C (coarsening s (L + 1)) (bucketSize s) tolerance targets (refinedsfc s ! L))) =
    Some (next_level C tolerance targets L s)"
proof -
  have "refinedsfc (setLevel (L + 1) s) = refinedsfc s @ [[]]" using setLevel_next[of s L] assms by simp
  then show ?thesis
    using assms by (simp add: finishLevel_def append_last_def rd_def wr_def nth_append list_update_append
        sortAndRemoveDuplicity_eq next_level_def setLevel_def)
qed

lemma histogram_ok_next [simp]: "histogram_ok (next_level C tolerance targets L s) depth es sums \<longleftrightarrow> histogram_ok s depth es sums"
  by (simp add: histogram_ok_def)

lemma preprocessed_loop_ok:
  assumes "mpi_allreduce allreduce" and "procs \<noteq> []" and "sorted targets" and "depth \<le> sfc_depth s"
    and "cluster_inv (total_below procs) tolerance targets L s borders" and "L < depth"
    and "\<And>es. es \<in> set procs \<Longrightarrow> histogram_ok s depth es (H es)"
  shows "\<exists>L' s' borders'. preprocessed_loop allreduce tolerance targets depth (map H procs) L (coarsening s L) s borders =
      Some (L', coarsening s L', s', borders') \<and> 0 < L' \<and> L' \<le> depth \<and>
    cluster_inv (total_below procs) tolerance targets L' s' borders' \<and>
    sfc_dimension s' = sfc_dimension s \<and> sfc_depth s' = sfc_depth s"
  using assms(4-)
proof (induction "depth - L" arbitrary: L s borders rule: less_induct)
  case less
  let ?C = "total_below procs" and ?bs = "bucketSize s" and ?c = "coarsening s (L + 1)" and ?s = "next_level (total_below procs) tolerance targets L s"
  let ?new = "level_borders ?C ?c ?bs tolerance targets (refinedsfc s ! L) borders"
  note inv = cluster_invD[OF less.prems(2)]
  have L: "L < sfc_depth s" using less.prems(1,3) by simp
  have dim: "sfc_dimension s \<in> {2, 3}" and len: "length (refinedsfc s) = Suc L" using inv(1) by (simp_all add: curve_levels_def)
  have half: "coarsening s L div ?bs = ?c" using coarsening_next(2)[OF dim L] by simp
  have "those (map (preprocessed_counts s L) (map H procs)) = Some (map (\<lambda>es. cell_counts ?bs ?c (refinedsfc s ! L) (below es)) procs)"
    unfolding map_map comp_def
  proof (rule those_counts)
    fix es
    assume "es \<in> set procs"
    then show "preprocessed_counts s L (H es) = Some (cell_counts ?bs ?c (refinedsfc s ! L) (below es))"
      using preprocessed_counts_ok[OF dim less.prems(4) less.prems(3)] len curve_levels_bound[OF inv(1)] by simp
  qed
  moreover have "split_level s L ?c tolerance targets (cell_counts ?bs ?c (refinedsfc s ! L) ?C) borders =
      Some (append_last (setLevel (L + 1) s) (level_parts ?C ?c ?bs tolerance targets (refinedsfc s ! L)), ?new,
        level_indices ?C ?c ?bs tolerance targets (refinedsfc s ! L))"
    using split_level_ok[OF assms(3) inv(2) mono_total_below, of s L] len by simp
  moreover note allreduce_counts[OF assms(1,2)] finish_split[OF len]
  ultimately have loop: "preprocessed_loop allreduce tolerance targets depth (map H procs) L (coarsening s L) s borders =
      (if L + 1 < depth \<and> hasLevel ?s (L + 1)
       then preprocessed_loop allreduce tolerance targets depth (map H procs) (L + 1) ?c ?s ?new
       else Some (L + 1, ?c, ?s, ?new))"
    by (subst preprocessed_loop.simps) (simp only: half Let_def bind.bind_lunit prod.case)
  have step: "cluster_inv ?C tolerance targets (L + 1) ?s ?new" by (rule cluster_inv_next[OF mono_total_below assms(3) less.prems(2) L])
  show ?case
  proof (cases "L + 1 < depth \<and> hasLevel ?s (L + 1)")
    case True
    then have "\<exists>L' s' borders'. preprocessed_loop allreduce tolerance targets depth (map H procs) (L + 1) (coarsening ?s (L + 1)) ?s ?new =
        Some (L', coarsening ?s L', s', borders') \<and> 0 < L' \<and> L' \<le> depth \<and> cluster_inv ?C tolerance targets L' s' borders' \<and>
        sfc_dimension s' = sfc_dimension ?s \<and> sfc_depth s' = sfc_depth ?s"
      using less.prems(1,3,4) by (intro less.hyps[OF _ _ step]) (simp_all add: diff_less_mono2)
    then show ?thesis unfolding loop if_P[OF True] by simp
  next
    case False
    then show ?thesis unfolding loop if_not_P[OF False] using step less.prems(3) by (intro exI[of _ "L + 1"]) simp
  qed
qed

text \<open>The refined parts of a level in order: their indices in the histogram and their buckets.\<close>

definition part_bucket :: "nat \<Rightarrow> nat list \<Rightarrow> nat \<Rightarrow> nat" where
  "part_bucket bs vs k = bs * vs ! (k div (bs + 1)) + k mod (bs + 1)"

lemma level_indicesE:
  assumes "k \<in> set (level_indices C c bs tolerance targets vs)"
  obtains b j where "b < length vs" and "j < bs" and "k = b * (bs + 1) + j" and "part_bucket bs vs k = bs * vs ! b + j"
    and "j \<in> set (split_parts C c bs tolerance targets (vs ! b))"
proof -
  obtain b j where b: "b < length vs" "k = b * (bs + 1) + j" and j: "j \<in> set (split_parts C c bs tolerance targets (vs ! b))"
    using assms by (auto simp: level_indices_def)
  have "j < bs" using split_partsE[OF j] by metis
  then have "k div (bs + 1) = b" "k mod (bs + 1) = j" unfolding b(2) by (simp_all del: add_Suc_right add_0_right mult_Suc_right)
  then show thesis using that[OF b(1) \<open>j < bs\<close> b(2) _ j] by (simp add: part_bucket_def)
qed

lemma part_bucket_mono:
  assumes "sorted_wrt (<) vs" and "k \<in> set (level_indices C c bs tolerance targets vs)"
    and "l \<in> set (level_indices C c bs tolerance targets vs)" and "k < l"
  shows "part_bucket bs vs k < part_bucket bs vs l"
proof -
  obtain b j where k: "b < length vs" "j < bs" "k = b * (bs + 1) + j" "part_bucket bs vs k = bs * vs ! b + j"
    using level_indicesE[OF assms(2)] by metis
  obtain d i where l: "d < length vs" "i < bs" "l = d * (bs + 1) + i" "part_bucket bs vs l = bs * vs ! d + i"
    using level_indicesE[OF assms(3)] by metis
  have "b \<le> d"
  proof (rule ccontr)
    assume "\<not> b \<le> d"
    then have "d * (bs + 1) + (bs + 1) \<le> b * (bs + 1)" by (intro block_end) simp
    then show False using assms(4) k(3) l(2,3) by simp
  qed
  show ?thesis
  proof (cases "b = d")
    case True
    then show ?thesis using assms(4) k(3,4) l(3,4) by simp
  next
    case False
    then have "vs ! b < vs ! d" using \<open>b \<le> d\<close> l(1) sorted_wrt_nth_less[OF assms(1)] by simp
    then have "vs ! b * bs + bs \<le> vs ! d * bs" by (rule block_end)
    then show ?thesis using k(2,4) l(4) by (simp add: mult.commute)
  qed
qed

lemma level_parts_indices:
  assumes "sorted_wrt (<) vs"
  shows "sorted_list_of_set (set (level_parts C c bs tolerance targets vs)) =
    map (part_bucket bs vs) (sorted_list_of_set (set (level_indices C c bs tolerance targets vs)))"
proof -
  let ?K = "set (level_indices C c bs tolerance targets vs)"
  have "set (level_parts C c bs tolerance targets vs) = part_bucket bs vs ` ?K"
  proof (intro equalityI subsetI)
    fix w
    assume "w \<in> set (level_parts C c bs tolerance targets vs)"
    then obtain v j where v: "v \<in> set vs" "w = bs * v + j" "j \<in> set (split_parts C c bs tolerance targets v)" by (rule level_partsE)
    then obtain b where b: "b < length vs" "v = vs ! b" by (auto simp: in_set_conv_nth)
    then have k: "b * (bs + 1) + j \<in> ?K" using v(3) unfolding level_indices_def by auto
    have "j < bs" using split_partsE[OF v(3)] by metis
    then have "part_bucket bs vs (b * (bs + 1) + j) = w"
      unfolding part_bucket_def v(2) b(2) by (simp del: add_Suc_right add_0_right mult_Suc_right)
    then show "w \<in> part_bucket bs vs ` ?K" using k by blast
  next
    fix w
    assume "w \<in> part_bucket bs vs ` ?K"
    then obtain k where k: "k \<in> ?K" "w = part_bucket bs vs k" by blast
    obtain b j where "b < length vs" "w = bs * vs ! b + j" "j \<in> set (split_parts C c bs tolerance targets (vs ! b))"
      using level_indicesE[OF k(1)] k(2) by metis
    then show "w \<in> set (level_parts C c bs tolerance targets vs)" by (auto simp: level_parts_def)
  qed
  moreover have "sorted_wrt (<) (map (part_bucket bs vs) (sorted_list_of_set ?K))"
    unfolding sorted_wrt_map
    by (rule sorted_wrt_mono_rel[OF _ strict_sorted_list_of_set]) (simp add: part_bucket_mono[OF assms])
  ultimately show ?thesis by (intro strict_sorted_equal) simp_all
qed

lemma part_count:
  assumes "k \<in> set (level_indices C c bs tolerance targets vs)"
  shows "k < length (cell_counts bs c vs f)" and "cell_counts bs c vs f ! k = f (part_bucket bs vs k * c)"
proof -
  obtain b j where k: "b < length vs" "j < bs" "k = b * (bs + 1) + j" "part_bucket bs vs k = bs * vs ! b + j"
    using level_indicesE[OF assms] by metis
  have "b * (bs + 1) + (bs + 1) \<le> length vs * (bs + 1)" by (rule block_end[OF k(1)])
  then show "k < length (cell_counts bs c vs f)" using k(2,3) by simp
  show "cell_counts bs c vs f ! k = f (part_bucket bs vs k * c)"
    using cell_counts_nth[OF k(1) less_imp_le[OF k(2)], of c f] unfolding k(4) unfolding k(3) .
qed

lemma adhoc_loop_ok:
  assumes "mpi_allreduce allreduce" and "procs \<noteq> []" and "sorted targets"
    and "cluster_inv (total_below procs) tolerance targets L s borders"
  shows "\<exists>L' s' borders'. adhoc_loop allreduce (sfc_depth s) tolerance targets (map permuted_buckets procs) L (coarsening s L) s borders
      (map (\<lambda>es. first_counts (bucketSize s) (coarsening s L) (refinedsfc s ! L) (below es)) procs) = Some (L', s', borders') \<and>
    cluster_inv (total_below procs) tolerance targets L' s' borders' \<and> sfc_dimension s' = sfc_dimension s \<and>
    sfc_depth s' = sfc_depth s \<and> (L' = sfc_depth s' \<or> \<not> hasLevel s' L')"
  using assms(4)
proof (induction "sfc_depth s - L" arbitrary: L s borders rule: less_induct)
  case less
  let ?C = "total_below procs" and ?bs = "bucketSize s" and ?c = "coarsening s (L + 1)" and ?s = "next_level (total_below procs) tolerance targets L s"
  let ?vs = "refinedsfc s ! L"
  let ?new = "level_borders ?C ?c ?bs tolerance targets ?vs borders"
  let ?counts = "map (\<lambda>es. first_counts ?bs (coarsening s L) ?vs (below es)) procs"
  let ?I = "sorted_list_of_set (set (level_indices ?C ?c ?bs tolerance targets ?vs))"
  note inv = cluster_invD[OF less.prems]
  have dim: "sfc_dimension s \<in> {2, 3}" and len: "length (refinedsfc s) = Suc L" and L: "L \<le> sfc_depth s"
    and strict: "sorted_wrt (<) ?vs" using inv(1) by (auto simp: curve_levels_def list_all_length)
  show ?case
  proof (cases "L < sfc_depth s \<and> hasLevel s L")
    case False
    then show ?thesis using less.prems L by (subst adhoc_loop.simps) auto
  next
    case True
    then have half: "coarsening s L div ?bs = ?c" and twice: "coarsening s L = ?c * ?bs"
      using coarsening_next[OF dim, of L] by (simp_all add: mult.commute)
    have "those (map2 (adhoc_counts s L ?c) (map permuted_buckets procs) ?counts) =
        Some (map (\<lambda>es. cell_counts ?bs ?c ?vs (below es)) procs)"
      unfolding map2_map_map
    proof (rule those_counts)
      fix es
      have "adhoc_counts s L ?c (sort es) (first_counts ?bs (?c * ?bs) ?vs (below (sort es))) = Some (cell_counts ?bs ?c ?vs (below (sort es)))"
        by (rule adhoc_counts_ok) (simp_all add: len)
      moreover have "below (sort es) = below es" by (rule ext) (rule below_mset, simp)
      ultimately show "adhoc_counts s L ?c (permuted_buckets es) (first_counts ?bs (coarsening s L) ?vs (below es)) =
          Some (cell_counts ?bs ?c ?vs (below es))" by (simp add: permuted_buckets_eq twice)
    qed
    moreover have "split_level s L ?c tolerance targets (cell_counts ?bs ?c ?vs ?C) borders =
        Some (append_last (setLevel (L + 1) s) (level_parts ?C ?c ?bs tolerance targets ?vs), ?new, level_indices ?C ?c ?bs tolerance targets ?vs)"
      using split_level_ok[OF assms(3) inv(2) mono_total_below, of s L] len by simp
    moreover have "sortAndRemoveDuplicity 0 (level_indices ?C ?c ?bs tolerance targets ?vs) 0 = Some ?I"
      by (simp add: sortAndRemoveDuplicity_eq)
    moreover have W: "refinedsfc ?s ! (L + 1) = map (part_bucket ?bs ?vs) ?I" "length (refinedsfc ?s) = Suc (L + 1)"
      unfolding next_level_refined(1)[OF len] level_parts_indices[OF strict] by (simp_all add: next_level_def len)
    have "those (map (adhoc_next ?s (L + 1) ?I) (map (\<lambda>es. cell_counts ?bs ?c ?vs (below es)) procs)) =
        Some (map (\<lambda>es. first_counts ?bs ?c (refinedsfc ?s ! (L + 1)) (below es)) procs)"
      unfolding map_map comp_def
    proof (rule those_counts)
      fix es
      have "adhoc_next ?s (L + 1) ?I (cell_counts ?bs ?c ?vs (below es)) = Some (first_counts (bucketSize ?s) ?c (refinedsfc ?s ! (L + 1)) (below es))"
      proof (rule adhoc_next_ok)
        show "L + 1 < length (refinedsfc ?s)" using W(2) by simp
        show "length ?I = length (refinedsfc ?s ! (L + 1))" unfolding W(1) by simp
        fix b
        assume b: "b < length ?I"
        then have "?I ! b \<in> set ?I" by (rule nth_mem)
        then have "?I ! b \<in> set (level_indices ?C ?c ?bs tolerance targets ?vs)" by simp
        from part_count[OF this] show "?I ! b < length (cell_counts ?bs ?c ?vs (below es)) \<and>
            cell_counts ?bs ?c ?vs (below es) ! (?I ! b) = below es (refinedsfc ?s ! (L + 1) ! b * ?c)"
          unfolding W(1) nth_map[OF b] by blast
      qed
      then show "adhoc_next ?s (L + 1) ?I (cell_counts ?bs ?c ?vs (below es)) = Some (first_counts ?bs ?c (refinedsfc ?s ! (L + 1)) (below es))"
        by simp
    qed
    moreover note allreduce_counts[OF assms(1,2)] finish_split[OF len]
    ultimately have loop: "adhoc_loop allreduce (sfc_depth s) tolerance targets (map permuted_buckets procs) L (coarsening s L) s borders ?counts =
        adhoc_loop allreduce (sfc_depth s) tolerance targets (map permuted_buckets procs) (L + 1) ?c ?s ?new
          (map (\<lambda>es. first_counts ?bs ?c (refinedsfc ?s ! (L + 1)) (below es)) procs)"
      by (subst adhoc_loop.simps) (simp only: True half Let_def bind.bind_lunit prod.case simp_thms if_True)
    have step: "cluster_inv ?C tolerance targets (L + 1) ?s ?new"
      by (rule cluster_inv_next[OF mono_total_below assms(3) less.prems]) (use True in simp)
    have "sfc_depth ?s - (L + 1) < sfc_depth s - L" using True by (simp add: diff_less_mono2)
    from less.hyps[OF this step] show ?thesis unfolding loop next_level_simps .
  qed
qed

section \<open>The result\<close>

lemma preprocessed_depth_ok:
  assumes "d \<le> m" and "n \<le> buckets s m"
  shows "\<exists>depth. preprocessed_depth s n d = Some depth \<and> d < depth \<and> depth \<le> m + 1"
  using assms(1)
proof (induction "m - d" arbitrary: d rule: less_induct)
  case less
  show ?case
  proof (cases "buckets s d < n")
    case True
    then have "d < m" using less.prems assms(2) by (cases "d = m") auto
    then have "\<exists>depth. preprocessed_depth s n (d + 1) = Some depth \<and> d + 1 < depth \<and> depth \<le> m + 1"
      by (intro less.hyps) simp_all
    then show ?thesis using True by (subst preprocessed_depth.simps) auto
  next
    case False
    then show ?thesis using less.prems by (subst preprocessed_depth.simps) simp
  qed
qed

lemma cut_position_border:
  assumes "sfc_ok s" and "cut_position s p"
  shows "border s p"
proof -
  obtain e where e: "leaf s e (p div coarsening s e)" using leaf_exists[OF assms(1)] .
  then have e_le: "e \<le> sfc_depth s" by (simp add: leaf_def)
  have "coarsening s e dvd p" if d: "d < sfc_depth s" "refined s d v" "i \<le> bucketSize s"
    and p: "p = coarsening s (d + 1) * (bucketSize s * v + i)" for d v i
  proof (cases "d < e")
    case True
    then have "coarsening s e dvd coarsening s (d + 1)" using coarsening_split[OF assms(1), of "d + 1" e] e_le by simp
    then show ?thesis unfolding p by (rule dvd_mult2)
  next
    case False
    let ?c = "coarsening s d" and ?B = "bucketSize s ^ (d - e)"
    have ce: "coarsening s e = ?c * ?B" using coarsening_split[OF assms(1), of e d] False d(1) by simp
    have cd: "?c = bucketSize s * coarsening s (d + 1)"
      using coarsening_next(1)[OF sfc_okD(1)[OF assms(1)] d(1)] by simp
    have pos: "0 < ?c" "0 < coarsening s e" using coarsening_pos[OF assms(1)] d(1) e_le by simp_all
    have low: "v * ?c \<le> p" and high: "p \<le> (v + 1) * ?c"
      using d(3) unfolding p cd by (simp_all add: algebra_simps)
    show ?thesis
    proof (rule ccontr)
      assume no: "\<not> coarsening s e dvd p"
      let ?q = "p div coarsening s e"
      have "?q * coarsening s e \<noteq> p" using no by (metis dvd_triv_right)
      then have "?q * coarsening s e < p" using div_times_less_eq_dividend[of p "coarsening s e"] by (simp add: le_neq_implies_less)
      then have "?c * (?q * ?B) < ?c * (v + 1)" using high unfolding ce by (simp add: ac_simps)
      then have "?q * ?B < v + 1" by (rule mult_less_cancel1[THEN iffD1, THEN conjunct2])
      then have "?q * ?B \<le> v" by simp
      then have "?q \<le> v div ?B" using bucketSize_pos[of s] by (simp add: less_eq_div_iff_mult_less_eq)
      moreover have "v div ?B = (v * ?c) div coarsening s e" unfolding ce using pos(1) by (simp add: mult.commute)
      then have "v div ?B \<le> ?q" using div_le_mono[OF low] by simp
      ultimately have "refined s e ?q" using refined_ancestor[OF assms(1), of e "d - e" v] d(2) False by simp
      then show False using e d(1) False by (simp add: leaf_def)
    qed
  qed
  then show ?thesis using assms(2) e e_le unfolding cut_position_def border_def by auto
qed

lemma cluster_inv_start:
  assumes "sfc_dimension s \<in> {2, 3}" and "refinedsfc s = [[0]]" and "0 < sum_list (map length procs)"
    and "\<forall>es \<in> set procs. \<forall>e \<in> set es. e < buckets s (sfc_depth s)"
    and "is_distribution targets (length procs) (sum_list (map length procs))"
  shows "cluster_inv (total_below procs) tolerance targets 0 s ((replicate (length procs + 1) (buckets s (sfc_depth s)))[0 := 0])"
proof -
  let ?C = "total_below procs" and ?n = "length procs" and ?N = "buckets s (sfc_depth s)" and ?total = "sum_list (map length procs)"
  let ?borders = "(replicate (?n + 1) ?N)[0 := 0]"
  have targets: "length targets = ?n + 1" "targets ! 0 = 0" using assms(5) by (simp_all add: is_distribution_def)
  have c0: "coarsening s 0 = ?N" by (simp add: coarsening_def)
  have all: "?C ?N = ?total" by (rule total_below_all[OF assms(4)])
  have b: "?borders ! 0 = 0" "\<And>r. 0 < r \<Longrightarrow> r \<le> ?n \<Longrightarrow> ?borders ! r = ?N" by simp_all
  have t_le: "targets ! r \<le> ?total" if "r \<le> ?n" for r using is_distribution_le[OF assms(5) that] .
  have t_pos: "0 < r" if "r \<le> ?n" "?total \<le> targets ! r" for r
    using that targets(2) assms(3) by (metis gr0I not_less)
  show ?thesis
    unfolding cluster_inv_def
  proof (intro conjI allI impI)
    show "curve_levels s 0" using assms(1,2) by (simp add: curve_levels_def)
    show "length ?borders = length targets" using targets(1) by simp
    show "sorted ?borders" by simp
    fix r
    assume "r < length targets"
    then have r: "r \<le> ?n" using targets(1) by simp
    show "cut_position s (?borders ! r)" using b r by (cases "r = 0") (simp_all add: cut_position_def)
    show "\<not> passes tolerance (targets ! r) (?C (?borders ! r))"
      using b r targets(2) t_le[OF r] all by (cases "r = 0") (simp_all add: passes_def)
    show "\<forall>v \<in> set (refinedsfc s ! 0). (targets ! r < ?C (v * coarsening s 0) \<longrightarrow> ?borders ! r \<le> v * coarsening s 0) \<and>
        (?C ((v + 1) * coarsening s 0) \<le> targets ! r \<longrightarrow> (v + 1) * coarsening s 0 \<le> ?borders ! r)"
      using t_pos[OF r] b(2)[OF _ r] assms(2) by (simp add: c0 all)
    show "?C (?borders ! r) \<le> targets ! r + tolerance \<or>
        (\<exists>v \<in> set (refinedsfc s ! 0). ?C (v * coarsening s 0) \<le> targets ! r \<and> targets ! r < ?C ((v + 1) * coarsening s 0))"
      using b r all assms(2,3) targets(2) by (cases "r = 0") (auto simp: c0)
  qed
qed

lemma cluster_inv_result:
  assumes "cluster_inv C tolerance targets L s borders" and "L = sfc_depth s \<or> \<not> hasLevel s L"
  shows "sfc_ok s \<and> list_all (border s) borders \<and>
    list_all2 (\<lambda>t b. (t \<le> C b \<or> t < C b + tolerance) \<and>
      (C b \<le> t + tolerance \<or> (\<exists>v. refined s (sfc_depth s) v \<and> C v \<le> t \<and> t < C (v + 1)))) targets borders"
proof -
  note inv = cluster_invD[OF assms(1)]
  have ok: "sfc_ok s" by (rule curve_levels_ok[OF inv(1) assms(2)])
  have "list_all (border s) borders"
    using inv(2,4) cut_position_border[OF ok] by (simp add: list_all_length)
  moreover have "(targets ! r \<le> C (borders ! r) \<or> targets ! r < C (borders ! r) + tolerance) \<and>
      (C (borders ! r) \<le> targets ! r + tolerance \<or>
       (\<exists>v. refined s (sfc_depth s) v \<and> C v \<le> targets ! r \<and> targets ! r < C (v + 1)))" if r: "r < length targets" for r
  proof
    show "targets ! r \<le> C (borders ! r) \<or> targets ! r < C (borders ! r) + tolerance"
      using inv(5)[OF r] by (auto simp: passes_def)
    show "C (borders ! r) \<le> targets ! r + tolerance \<or>
       (\<exists>v. refined s (sfc_depth s) v \<and> C v \<le> targets ! r \<and> targets ! r < C (v + 1))"
    proof (cases "hasLevel s L")
      case True
      then have "L = sfc_depth s" using assms(2) by blast
      moreover have "coarsening s (sfc_depth s) = 1" using coarsening_power[OF sfc_okD(1)[OF ok]] by simp
      ultimately show ?thesis using inv(8)[OF r] True by (auto simp: refined_def hasLevel_def)
    next
      case False
      then have "refinedsfc s ! L = []" using inv(1) by (simp add: hasLevel_def curve_levels_def)
      then show ?thesis using inv(8)[OF r] by simp
    qed
  qed
  ultimately show ?thesis using ok inv(2) by (simp add: list_all2_conv_all_nth)
qed

text \<open>
  C12: The distribution of the elements over the processes.  For every number of elements on every
  process the part of \<^verbatim>\<open>clusterize\<close> that chooses the borders returns without reading or writing out
  of range, for an \<^verbatim>\<open>MPI_Allreduce\<close> that combines the contributions in the order of the processes.
  The refined curve is a well-formed tree; the borders are ordered and borders of its leaves, so
  \<^verbatim>\<open>iterateBuckets\<close> can walk from one to the next; and every border has a number of elements before
  it that differs from the target by at most the tolerance, unless a bucket of the finest level
  has the target inside.
\<close>

theorem cluster_borders_correct:
  assumes "mpi_allreduce allreduce" and "sfc_dimension s \<in> {2, 3}" and "refinedsfc s = [[0]]" and "3 \<le> sfc_depth s"
    and "length procs \<le> buckets s (sfc_depth s - 1)" and "0 < sum_list (map length procs)"
    and "list_all (list_all (\<lambda>e. e < buckets s (sfc_depth s))) procs"
    and "is_distribution targets (length procs) (sum_list (map length procs))"
  shows "\<exists>L s' borders. cluster_borders allreduce (sfc_depth s) tolerance targets procs s = Some (L, s', borders) \<and>
    sfc_ok s' \<and> length borders = length procs + 1 \<and> sorted borders \<and> list_all (border s') borders \<and>
    list_all2 (\<lambda>t b. (t \<le> total_below procs b \<or> t < total_below procs b + tolerance) \<and>
      (total_below procs b \<le> t + tolerance \<or>
       (\<exists>v. refined s' (sfc_depth s') v \<and> total_below procs v \<le> t \<and> t < total_below procs (v + 1)))) targets borders"
proof -
  let ?C = "total_below procs" and ?n = "length procs" and ?N = "buckets s (sfc_depth s)" and ?total = "sum_list (map length procs)"
  have small: "\<forall>es \<in> set procs. \<forall>e \<in> set es. e < ?N" using assms(7) by (simp add: list_all_iff)
  have procs: "procs \<noteq> []" using assms(6) by auto
  have targets: "length targets = ?n + 1" "sorted targets" "targets ! 0 = 0" "targets ! ?n = ?total"
    using assms(8) by (simp_all add: is_distribution_def)
  obtain depth where depth: "preprocessed_depth s ?n 2 = Some depth" "2 < depth" "depth \<le> sfc_depth s"
  proof -
    have "2 \<le> sfc_depth s - 1" "sfc_depth s - 1 + 1 = sfc_depth s" using assms(4) by simp_all
    then show thesis using preprocessed_depth_ok[of 2 "sfc_depth s - 1" ?n s] assms(5) that by metis
  qed
  define H where "H = (\<lambda>es. the (local_histogram s depth es))"
  have H: "local_histogram s depth es = Some (H es)" "histogram_ok s depth es (H es)" if es: "es \<in> set procs" for es
  proof -
    have "\<exists>sums. local_histogram s depth es = Some sums \<and> histogram_ok s depth es sums"
      using small es depth(2,3) by (intro local_histogram_ok[OF assms(2)]) simp_all
    then show "local_histogram s depth es = Some (H es)" "histogram_ok s depth es (H es)" by (auto simp: H_def)
  qed
  let ?borders = "(replicate (?n + 1) ?N)[0 := 0]"
  have c0: "coarsening s 0 = ?N" by (simp add: coarsening_def)
  note start = cluster_inv_start[OF assms(2,3,6) small assms(8), of tolerance]
  obtain L s1 b1 where first: "preprocessed_loop allreduce tolerance targets depth (map H procs) 0 ?N s ?borders = Some (L, coarsening s L, s1, b1)"
    "0 < L" "L \<le> depth" "cluster_inv ?C tolerance targets L s1 b1" "sfc_dimension s1 = sfc_dimension s" "sfc_depth s1 = sfc_depth s"
    using preprocessed_loop_ok[OF assms(1) procs targets(2) depth(3) start _ H(2)] depth(2) unfolding c0 by auto
  have same: "coarsening s1 d = coarsening s d" "buckets s1 d = buckets s d" "bucketSize s1 = bucketSize s" for d
    using first(5,6) by (simp_all add: coarsening_def buckets_def bucketSize_def)
  have levels: "curve_levels s1 L" by (rule cluster_invD(1)[OF first(4)])
  have adhoc: "those (map (adhoc_start s1 L) (map H procs)) =
      Some (map (\<lambda>es. first_counts (bucketSize s1) (coarsening s1 L) (refinedsfc s1 ! L) (below es)) procs)"
    unfolding map_map comp_def
  proof (rule those_counts)
    fix es
    assume "es \<in> set procs"
    then have "histogram_ok s1 depth es (H es)" using H(2) by (simp add: histogram_ok_def same)
    then show "adhoc_start s1 L (H es) = Some (first_counts (bucketSize s1) (coarsening s1 L) (refinedsfc s1 ! L) (below es))"
      using levels first(2,3) curve_levels_bound[OF levels] by (intro adhoc_start_ok) (simp_all add: curve_levels_def)
  qed
  obtain L' s' borders where last: "adhoc_loop allreduce (sfc_depth s1) tolerance targets (map permuted_buckets procs) L (coarsening s1 L) s1 b1
      (map (\<lambda>es. first_counts (bucketSize s1) (coarsening s1 L) (refinedsfc s1 ! L) (below es)) procs) = Some (L', s', borders)"
    "cluster_inv ?C tolerance targets L' s' borders" "L' = sfc_depth s' \<or> \<not> hasLevel s' L'"
    using adhoc_loop_ok[OF assms(1) procs targets(2) first(4)] by auto
  have hist: "those (map (local_histogram s depth) procs) = Some (map H procs)" by (rule those_counts) (rule H(1))
  have result: "cluster_borders allreduce (sfc_depth s) tolerance targets procs s = Some (L', s', borders)"
    by (simp only: cluster_borders_def depth(1) bind.bind_lunit Let_def hist first(1) prod.case adhoc[unfolded same(1)]
        last(1)[unfolded first(6) same(1)])
  note inv = cluster_invD[OF last(2)]
  show ?thesis using result inv(2,3) targets(1) cluster_inv_result[OF last(2,3)] by simp
qed

text \<open>The initial curve of a small grid, and a reduction in the order of the processes.\<close>

definition initial_sfc :: sfc where
  "initial_sfc = \<lparr>sfc_dimension = 2, sfc_depth = 3, refinedsfc = [[0]], refinedxyz = []\<rparr>"

definition ordered_reduce :: "(nat list \<Rightarrow> nat list \<Rightarrow> nat list) \<Rightarrow> nat list list \<Rightarrow> nat list" where
  "ordered_reduce oper xs = (case xs of [] \<Rightarrow> [] | x # ys \<Rightarrow> foldl (\<lambda>acc y. oper y acc) x ys)"

theorem cluster_borders_correct_witness:
  "\<exists>L s' borders. cluster_borders ordered_reduce (sfc_depth initial_sfc) 1 [0, 3, 5] [[0, 1, 5], [60, 61]] initial_sfc = Some (L, s', borders) \<and>
    sfc_ok s' \<and> length borders = length [[0, 1, 5], [60 :: nat, 61]] + 1 \<and> sorted borders \<and> list_all (border s') borders \<and>
    list_all2 (\<lambda>t b. (t \<le> total_below [[0, 1, 5], [60, 61]] b \<or> t < total_below [[0, 1, 5], [60, 61]] b + 1) \<and>
      (total_below [[0, 1, 5], [60, 61]] b \<le> t + 1 \<or>
       (\<exists>v. refined s' (sfc_depth s') v \<and> total_below [[0, 1, 5], [60, 61]] v \<le> t \<and> t < total_below [[0, 1, 5], [60, 61]] (v + 1)))) [0, 3, 5] borders"
  by (rule cluster_borders_correct)
    (simp_all add: mpi_allreduce_def ordered_reduce_def initial_sfc_def buckets_def is_distribution_def)

end
