(* ===== verification/ConfigValues.thy ===== *)
theory ConfigValues
  imports Tokenizer StringParser
begin

text \<open>
  The values of configuration parameters, \<^verbatim>\<open>src/config/valueholder.h\<close>: how a text is read into a
  value and how a value becomes a text, for strings, switches, sizes, integers, enumerations, flags
  and expressions.  A holder refers to a member of the configuration; here it holds the value.
  \<^verbatim>\<open>_setValue\<close> returning false is \<open>Some None\<close>, an internal error of the program or undefined
  behaviour is \<open>None\<close>.  \<open>create\<close> stands for \<^verbatim>\<open>ECFExpression::createEvaluator\<close>, which asks the
  bundled expression library; holders of floating-point numbers are not modelled.
\<close>

named_theorems holder_simps "reading and printing of values"

section \<open>Descriptions of parameters\<close>

datatype ECFDataType = BOOL | STRING_TYPE | INTEGER | POSITIVE_INTEGER | NONNEGATIVE_INTEGER | FLOAT
  | ENUM_FLAGS | OPTION | REGION | BOUNDARY_REGION | ELEMENTS_REGION | MATERIAL | LOAD_STEP
  | EXPRESSION | TENSOR | INTERVAL | SPACE | SEPARATOR

text \<open>Of the options only the names matter here; conditions are given where they are evaluated.\<close>

record metadata =
  mname :: string
  description :: "string list"
  dtypes :: "ECFDataType list"
  pattern :: "string list"
  options :: "string list"

definition getsuffix :: "nat \<Rightarrow> 'a list \<Rightarrow> 'a list" where
  "getsuffix start xs = (if start < length xs then drop start xs else [])"

definition md_suffix :: "nat \<Rightarrow> metadata \<Rightarrow> metadata" where
  "md_suffix start md = md\<lparr>description := getsuffix start (description md),
     dtypes := getsuffix start (dtypes md), pattern := getsuffix start (pattern md)\<rparr>"

section \<open>Numbers of the standard library\<close>

text \<open>
  \<^verbatim>\<open>ss >> number\<close> and \<^verbatim>\<open>ss.eof()\<close>: white space, a sign, digits.  \<open>extract_number\<close> returns the sign, the
  digits and the unread rest, or \<open>None\<close> when nothing follows the white space.
\<close>

definition is_space :: "char \<Rightarrow> bool" where
  "is_space c \<longleftrightarrow> c = CHR '' '' \<or> c = CHR 0x09 \<or> c = CHR 0x0A \<or> c = CHR 0x0B \<or> c = CHR 0x0C \<or> c = CHR 0x0D"

definition is_digit :: "char \<Rightarrow> bool" where
  "is_digit c \<longleftrightarrow> 48 \<le> (of_char c :: nat) \<and> (of_char c :: nat) \<le> 57"

definition digits_value :: "string \<Rightarrow> nat" where
  "digits_value ds = foldl (\<lambda>a c. 10 * a + (of_char c - 48)) 0 ds"

definition extract_number :: "string \<Rightarrow> (bool \<times> string \<times> string) option" where
  "extract_number s = (case dropWhile is_space s of
     [] \<Rightarrow> None
   | c # r \<Rightarrow>
       let neg = (c = CHR ''-'');
           r = (if c = CHR ''-'' \<or> c = CHR ''+'' then r else c # r)
       in Some (neg, takeWhile is_digit r, dropWhile is_digit r))"

text \<open>\<^verbatim>\<open>ECFValueHolder<size_t>::_setValue\<close>: a negative number is accepted and wraps around.\<close>

definition set_size :: "string \<Rightarrow> 64 word option" where
  "set_size s = (case extract_number s of
     None \<Rightarrow> None
   | Some (neg, ds, rest) \<Rightarrow>
       if rest = [] \<and> ds \<noteq> [] \<and> digits_value ds < 2 ^ 64
       then Some (if neg then - of_nat (digits_value ds) else of_nat (digits_value ds)) else None)"

definition set_int :: "string \<Rightarrow> 32 word option" where
  "set_int s = (case extract_number s of
     None \<Rightarrow> None
   | Some (neg, ds, rest) \<Rightarrow>
       if rest = [] \<and> ds \<noteq> [] \<and> digits_value ds \<le> (if neg then 2 ^ 31 else 2 ^ 31 - 1)
       then Some (if neg then - of_nat (digits_value ds) else of_nat (digits_value ds)) else None)"

definition int_string :: "int \<Rightarrow> string" where
  "int_string i = (if i < 0 then CHR ''-'' # nat_string (nat (- i)) else nat_string (nat i))"

section \<open>Switches\<close>

text \<open>
  The last resort of \<^verbatim>\<open>ECFValueHolder<bool>::_setValue\<close> reads a number and only asks whether all
  characters were read: zero or no digits are false, other numbers true, only white space changes nothing.
\<close>

definition ci_eq :: "string \<Rightarrow> string \<Rightarrow> bool" where
  "ci_eq s1 s2 \<longleftrightarrow> caseInsensitiveEq s1 s2 = Some True"

definition set_bool :: "bool \<Rightarrow> string \<Rightarrow> bool option" where
  "set_bool old s = (if length s = 0 then Some True
    else if ci_eq s ''FALSE'' then Some False
    else if ci_eq s ''TRUE'' then Some True
    else case extract_number s of
      None \<Rightarrow> Some old
    | Some (neg, ds, rest) \<Rightarrow> if rest = [] then Some (ds \<noteq> [] \<and> digits_value ds \<noteq> 0) else None)"

definition get_bool :: "bool \<Rightarrow> string" where
  "get_bool b = (if b then ''TRUE'' else ''FALSE'')"

section \<open>Enumerations and flags\<close>

definition option_index :: "string \<Rightarrow> string list \<Rightarrow> nat option" where
  "option_index s opts = first_index (ci_eq s) opts"

text \<open>The flags of the texts between the bars; a text that sets no new flag is an error.\<close>

fun set_flags :: "string list \<Rightarrow> string list \<Rightarrow> 32 word \<Rightarrow> 32 word option" where
  "set_flags [] opts flags = Some flags"
| "set_flags (t # ts) opts flags =
    (let new = (case option_index (strip t) opts of None \<Rightarrow> flags | Some j \<Rightarrow> set_bit j flags) in
     if new = flags then None else set_flags ts opts new)"

definition set_enum :: "metadata \<Rightarrow> string \<Rightarrow> 32 word option option" where
  "set_enum md s = (case dtypes md of
     [] \<Rightarrow> None
   | d # _ \<Rightarrow>
       if d = ENUM_FLAGS \<and> split_string s ''|'' True \<noteq> [] then
         (if 31 < length (options md) then None
          else Some (set_flags (split_string s ''|'' True) (options md) 0))
       else (case (case option_index s (options md) of Some i \<Rightarrow> Some (of_nat i) | None \<Rightarrow> set_size s) of
           None \<Rightarrow> Some None
         | Some index \<Rightarrow>
             if d = OPTION then Some (Some (ucast (index :: 64 word)))
             else if d = ENUM_FLAGS \<and> unat index < 31 then Some (Some (set_bit (unat index) 0))
             else None))"

definition get_enum :: "metadata \<Rightarrow> 32 word \<Rightarrow> string option" where
  "get_enum md v = (case dtypes md of
     [] \<Rightarrow> None
   | d # _ \<Rightarrow>
       if d = OPTION then (if sint v < 0 then None else rd (options md) (nat (sint v)))
       else if d = ENUM_FLAGS \<and> length (options md) \<le> 31 then
         Some (fold (\<lambda>(i, name) flags.
           if bit v i then (if flags \<noteq> [] then flags @ '' | '' else flags) @ name else flags)
           (enumerate 0 (options md)) [])
       else None)"

section \<open>Holders\<close>

datatype holder = StringHolder string | BoolHolder bool | SizeHolder "64 word" | IntHolder "32 word"
  | EnumHolder "32 word" | ExpressionHolder "string list" string

definition holder_get :: "metadata \<Rightarrow> holder \<Rightarrow> string option" where
  "holder_get md h = (case h of
     StringHolder s \<Rightarrow> Some s
   | BoolHolder b \<Rightarrow> Some (get_bool b)
   | SizeHolder n \<Rightarrow> Some (nat_string (unat n))
   | IntHolder i \<Rightarrow> Some (int_string (sint i))
   | EnumHolder v \<Rightarrow> get_enum md v
   | ExpressionHolder vars s \<Rightarrow> Some s)"

definition holder_set ::
  "(string list \<Rightarrow> string \<Rightarrow> bool) \<Rightarrow> metadata \<Rightarrow> holder \<Rightarrow> string \<Rightarrow> holder option option" where
  "holder_set create md h s = (case h of
     StringHolder _ \<Rightarrow> Some (Some (StringHolder s))
   | BoolHolder b \<Rightarrow> Some (map_option BoolHolder (set_bool b s))
   | SizeHolder _ \<Rightarrow> Some (map_option SizeHolder (set_size s))
   | IntHolder _ \<Rightarrow> Some (map_option IntHolder (set_int s))
   | EnumHolder _ \<Rightarrow> map_option (map_option EnumHolder) (set_enum md s)
   | ExpressionHolder vars _ \<Rightarrow> Some (let v = uppercase s in
       if create vars v then Some (ExpressionHolder vars v) else None))"

text \<open>The spelling of a value in a stored file: only texts and names of regions keep their case.\<close>

definition printed_value :: "metadata \<Rightarrow> string \<Rightarrow> string option" where
  "printed_value md v = (case dtypes md of
     [] \<Rightarrow> None
   | d # _ \<Rightarrow> Some (if d = STRING_TYPE \<or> d = BOUNDARY_REGION \<or> d = MATERIAL then v else uppercase v))"

section \<open>Printed numbers are read back\<close>

lemma is_digit_char: "k < 10 \<Longrightarrow> is_digit (char_of (48 + k))" "k < 10 \<Longrightarrow> of_char (char_of (48 + k) :: char) = 48 + (k :: nat)"
  by (simp_all add: is_digit_def)

lemma nat_string_digits: "list_all is_digit (nat_string n) \<and> nat_string n \<noteq> []"
proof (induction n rule: nat_string.induct)
  case (1 n)
  then show ?case by (subst (1 2) nat_string.simps) (simp add: is_digit_char(1))
qed

lemma digits_value_snoc: "digits_value (ds @ [c]) = 10 * digits_value ds + (of_char c - 48)"
  by (simp add: digits_value_def)

lemma digits_value_nat_string [simp]: "digits_value (nat_string n) = n"
proof (induction n rule: nat_string.induct)
  case (1 n)
  show ?case
  proof (cases "n < 10")
    case True
    then show ?thesis by (subst nat_string.simps) (simp add: digits_value_def is_digit_char(2))
  next
    case False
    have "digits_value (nat_string n) = 10 * digits_value (nat_string (n div 10)) + n mod 10"
      using False by (subst nat_string.simps) (simp add: digits_value_snoc is_digit_char(2))
    then show ?thesis using 1[OF False] by simp
  qed
qed

lemma digit_no_sign: "is_digit c \<Longrightarrow> \<not> is_space c \<and> c \<noteq> CHR ''-'' \<and> c \<noteq> CHR ''+''"
  by (auto simp: is_digit_def is_space_def)

lemma extract_nat_string: "extract_number (nat_string n) = Some (False, nat_string n, [])"
proof -
  obtain c r where n: "nat_string n = c # r" using nat_string_digits by (cases "nat_string n") auto
  then have d: "list_all is_digit (c # r)" using nat_string_digits[of n] by simp
  then have "takeWhile is_digit (c # r) = c # r" "dropWhile is_digit (c # r) = []" by (simp_all add: list_all_iff)
  then show ?thesis unfolding n extract_number_def using digit_no_sign[of c] d by simp
qed

lemma extract_minus: "extract_number (CHR ''-'' # nat_string n) = Some (True, nat_string n, [])"
  using nat_string_digits[of n] by (auto simp: extract_number_def is_space_def list_all_iff)

lemma set_size_nat_string: "set_size (nat_string (unat n)) = Some n"
  using nat_string_digits[of "unat n"] unsigned_less[of n, where 'a = nat] by (simp add: set_size_def extract_nat_string)

lemma set_int_string: "set_int (int_string (sint i)) = Some i"
proof (cases "sint i < 0")
  case True
  have "- sint i \<le> 2 ^ 31" using sint_ge[of i] by simp
  then have "nat (- sint i) \<le> 2 ^ 31" by simp
  moreover have "- of_nat (nat (- sint i)) = i" using True by simp
  ultimately show ?thesis using True nat_string_digits[of "nat (- sint i)"]
    by (simp add: set_int_def int_string_def extract_minus)
next
  case False
  have "sint i < 2 ^ 31" using sint_lt[of i] by simp
  then have "nat (sint i) \<le> 2 ^ 31 - 1" using False by simp
  then show ?thesis using False nat_string_digits[of "nat (sint i)"]
    by (simp add: set_int_def int_string_def extract_nat_string)
qed

section \<open>Upper case\<close>

lemma of_char_toupper: "of_char (toupper c) =
    (if 97 \<le> (of_char c :: nat) \<and> (of_char c :: nat) \<le> 122 then of_char c - 32 else (of_char c :: nat))"
proof (cases "97 \<le> (of_char c :: nat) \<and> (of_char c :: nat) \<le> 122")
  case True
  then have "((of_char c :: nat) - 32) mod 256 = of_char c - 32" by (intro mod_less) arith
  then show ?thesis using True by (simp add: toupper_def Let_def del: of_char_mod_256)
qed (auto simp: toupper_def Let_def)

lemma tolower_toupper [simp]: "tolower (toupper c) = tolower c"
  by (auto simp: tolower_def char_int_def of_char_toupper Let_def)

lemma ci_eq_iff: "ci_eq s t \<longleftrightarrow> map tolower s = map tolower t"
proof -
  have same: "prefix xs ys \<longleftrightarrow> xs = ys" if "length xs = length ys" for xs ys :: "int list"
    using that by (auto simp: prefix_def)
  have "caseInsensitiveEq s t = Some (map tolower s = map tolower t)"
    by (cases "length s = length t")
      (auto simp: caseInsensitiveEq_def char_keys std_equal_key same dest: map_eq_imp_length_eq)
  then show ?thesis by (simp add: ci_eq_def)
qed

lemma ci_eq_uppercase [simp]: "ci_eq (uppercase s) t = ci_eq s t" "ci_eq s (uppercase t) = ci_eq s t" "ci_eq s s"
  by (simp_all add: ci_eq_iff uppercase_def comp_def)

lemma uppercase_append [simp]: "uppercase (s @ t) = uppercase s @ uppercase t"
  and length_uppercase [simp]: "length (uppercase s) = length s"
  by (simp_all add: uppercase_def)

lemma uppercase_fixed: "list_all (\<lambda>c. \<not> (97 \<le> (of_char c :: nat) \<and> (of_char c :: nat) \<le> 122)) s \<Longrightarrow> uppercase s = s"
  by (induction s) (auto simp: uppercase_def toupper_def)

lemma uppercase_nat_string [simp]: "uppercase (nat_string n) = nat_string n"
  using nat_string_digits[of n] by (intro uppercase_fixed) (auto simp: list_all_iff is_digit_def)

lemma uppercase_int_string [simp]: "uppercase (int_string i) = int_string i"
  using uppercase_nat_string by (simp add: int_string_def uppercase_def toupper_def)

lemma uppercase_idem [simp]: "uppercase (uppercase s) = uppercase s"
proof -
  have "toupper (toupper c) = toupper c" for c
    by (subst toupper_def) (auto simp: of_char_toupper Let_def)
  then show ?thesis by (simp add: uppercase_def)
qed

section \<open>Options\<close>

lemma first_index_eq_Some:
  "first_index P xs = Some k \<longleftrightarrow> k < length xs \<and> P (xs ! k) \<and> (\<forall>j<k. \<not> P (xs ! j))"
proof -
  have "length (takeWhile (\<lambda>x. \<not> P x) xs) = k \<longleftrightarrow> P (xs ! k) \<and> (\<forall>j<k. \<not> P (xs ! j))" if k: "k < length xs" for k
  proof
    assume "length (takeWhile (\<lambda>x. \<not> P x) xs) = k"
    then show "P (xs ! k) \<and> (\<forall>j<k. \<not> P (xs ! j))"
      using k nth_length_takeWhile[of "\<lambda>x. \<not> P x" xs] set_takeWhileD takeWhile_nth by (metis nth_mem)
  next
    assume "P (xs ! k) \<and> (\<forall>j<k. \<not> P (xs ! j))"
    then show "length (takeWhile (\<lambda>x. \<not> P x) xs) = k"
      using k by (simp add: takeWhile_eq_take_P_nth[of k] )
  qed
  then show ?thesis by (auto simp: first_index_def Let_def)
qed

definition distinct_options :: "string list \<Rightarrow> bool" where
  "distinct_options opts \<longleftrightarrow> distinct (map (map tolower) opts)"

lemma option_index_nth:
  assumes "distinct_options opts" and "i < length opts" and "ci_eq s (opts ! i)"
  shows "option_index s opts = Some i"
  using assms distinct_conv_nth[of "map (map tolower) opts"]
  by (auto simp: option_index_def first_index_eq_Some ci_eq_iff distinct_options_def)

text \<open>The names between the bars, and the flags that they set.\<close>

definition join_bar :: "string list \<Rightarrow> string" where
  "join_bar names = (case names of [] \<Rightarrow> [] | n # ns \<Rightarrow> n @ concat (map (\<lambda>m. '' | '' @ m) ns))"

definition flag_pairs :: "32 word \<Rightarrow> string list \<Rightarrow> (nat \<times> string) list" where
  "flag_pairs v opts = filter (\<lambda>(i, _). bit v i) (enumerate 0 opts)"

lemma fold_flags:
  assumes "\<forall>(i, name) \<in> set ps. name \<noteq> []"
  shows "fold (\<lambda>(i, name) flags. if P i then (if flags \<noteq> [] then flags @ '' | '' else flags) @ name else flags) ps fl =
    (let names = map snd (filter (\<lambda>(i, _). P i) ps) in
     if fl = [] then join_bar names else fl @ concat (map (\<lambda>m. '' | '' @ m) names))"
  using assms by (induction ps arbitrary: fl) (auto simp: join_bar_def Let_def)

lemma get_flags:
  assumes "dtypes md = ENUM_FLAGS # ds" and "length (options md) \<le> 31" and "[] \<notin> set (options md)"
  shows "get_enum md v = Some (join_bar (map snd (flag_pairs v (options md))))"
  using assms fold_flags[of "enumerate 0 (options md)" "bit v" "[]"]
  by (auto simp: get_enum_def flag_pairs_def Let_def dest: set_zip_rightD simp: enumerate_eq_zip)

fun bar_fields :: "string list \<Rightarrow> string list" where
  "bar_fields [] = []"
| "bar_fields (n # ns) = ('' '' @ n @ (if ns = [] then [] else '' '')) # bar_fields ns"

lemma join_bar_fields:
  "join_bar (n # ns) = (n @ (if ns = [] then [] else '' '')) @ concat (map (\<lambda>(g, f). g @ f) (map (Pair ''|'') (bar_fields ns)))"
proof -
  have "concat (map (\<lambda>m. '' | '' @ m) ns) =
    (if ns = [] then [] else '' '') @ concat (map (\<lambda>(g, f). g @ f) (map (Pair ''|'') (bar_fields ns)))"
    by (induction ns) auto
  then show ?thesis unfolding join_bar_def list.case append_assoc by (rule arg_cong)
qed

definition flag_name :: "string \<Rightarrow> bool" where
  "flag_name n \<longleftrightarrow> n \<noteq> [] \<and> list_all (\<lambda>c. c \<notin> set (CHR ''|'' # CHR ''#'' # blanks)) n"

lemma flag_name_no_bar: "flag_name n \<Longrightarrow> n \<noteq> [] \<and> list_all (\<lambda>c. c \<notin> set ''|'') n"
  by (auto simp: flag_name_def list_all_iff)

lemma bar_fields_ok:
  assumes "list_all flag_name ns"
  shows "list_all (\<lambda>(g, f). g \<noteq> [] \<and> list_all (\<lambda>c. c \<in> set ''|'') g \<and> list_all (\<lambda>c. c \<notin> set ''|'') f \<and> f \<noteq> [] \<and>
    (True \<or> length g = 1)) (map (Pair ''|'') (bar_fields ns))"
  using assms
proof (induction ns)
  case (Cons n ns)
  then show ?case using flag_name_no_bar[of n] by simp
qed simp

lemma split_bars:
  assumes "list_all flag_name (n # ns)"
  shows "split_string (join_bar (n # ns)) ''|'' True = (n @ (if ns = [] then [] else '' '')) # bar_fields ns"
proof -
  let ?f = "n @ (if ns = [] then [] else '' '')"
  have n: "n \<noteq> []" "list_all (\<lambda>c. c \<notin> set ''|'') ?f" using flag_name_no_bar[of n] assms by simp_all
  have "split_loop ''|'' True (?f @ concat (map (\<lambda>(g, f). g @ f) (map (Pair ''|'') (bar_fields ns)))) =
      ?f # map snd (map (Pair ''|'') (bar_fields ns))"
    using n bar_fields_ok[of ns] assms by (intro split_loop_fields) simp_all
  moreover have "join_bar (n # ns) \<noteq> []" using n(1) by (simp add: join_bar_def)
  ultimately show ?thesis by (simp add: split_string_def join_bar_fields comp_def)
qed

lemma toupper_in_iff: "c \<notin> {CHR ''|'', CHR ''#'', CHR '' '', CHR 0x0D, CHR 0x09, CHR 0x0A} \<Longrightarrow>
    toupper c \<notin> {CHR ''|'', CHR ''#'', CHR '' '', CHR 0x0D, CHR 0x09, CHR 0x0A}"
proof (rule notI)
  assume c: "c \<notin> {CHR ''|'', CHR ''#'', CHR '' '', CHR 0x0D, CHR 0x09, CHR 0x0A}"
    and "toupper c \<in> {CHR ''|'', CHR ''#'', CHR '' '', CHR 0x0D, CHR 0x09, CHR 0x0A}"
  then have n: "of_char (toupper c) \<in> {124, 35, 32, 13, 9, 10 :: nat}" by auto
  show False
  proof (cases "97 \<le> (of_char c :: nat) \<and> (of_char c :: nat) \<le> 122")
    case True
    then show False using n unfolding of_char_toupper by auto
  next
    case False
    then have "toupper c = c" by (auto simp: toupper_def Let_def)
    then show False using c \<open>toupper c \<in> _\<close> by simp
  qed
qed

lemma flag_name_uppercase: "flag_name n \<Longrightarrow> flag_name (uppercase n)"
  using toupper_in_iff by (simp add: flag_name_def uppercase_def list_all_iff blanks_def)

lemma strip_flag:
  assumes "flag_name n" and "list_all (\<lambda>c. c \<in> set blanks) (b1 @ b2)"
  shows "strip (b1 @ n @ b2) = n"
proof -
  have n: "n \<noteq> []" "\<forall>c\<in>set n. c \<notin> set blanks \<and> c \<noteq> CHR ''#''" using assms(1) by (auto simp: flag_name_def list_all_iff)
  have "takeWhile (\<lambda>c. c \<noteq> CHR ''#'') n = n" using n(2) by (simp add: takeWhile_eq_all_conv)
  moreover have "hd n \<notin> set blanks" "last n \<notin> set blanks" using n by auto
  ultimately show ?thesis using strip_text[OF assms(2) n(1)] by simp
qed

lemma strip_bar_fields: "list_all flag_name ns \<Longrightarrow> map strip (bar_fields ns) = ns"
proof (induction ns)
  case (Cons n ns)
  have "strip ('' '' @ n @ (if ns = [] then [] else '' '')) = n"
    using Cons.prems by (intro strip_flag) (auto simp: blanks_def)
  then show ?case using Cons by simp
qed simp

lemma strip_split_bars:
  assumes "list_all flag_name names" and "names \<noteq> []"
  shows "map strip (split_string (join_bar names) ''|'' True) = names"
proof (cases names)
  case (Cons n ns)
  have "strip ([] @ n @ (if ns = [] then [] else '' '')) = n"
    using assms(1) Cons by (intro strip_flag) (auto simp: blanks_def)
  then show ?thesis using split_bars[of n ns] strip_bar_fields[of ns] assms(1) Cons by simp
qed (use assms in simp)

lemma uppercase_join_bar: "uppercase (join_bar names) = join_bar (map uppercase names)"
proof -
  have bar: "uppercase '' | '' = '' | ''" by (simp add: uppercase_def toupper_def)
  have "uppercase (concat (map (\<lambda>m. '' | '' @ m) ns)) = concat (map (\<lambda>m. '' | '' @ m) (map uppercase ns))" for ns
  proof (induction ns)
    case (Cons n ns)
    have "uppercase (concat (map (\<lambda>m. '' | '' @ m) (n # ns))) =
        uppercase '' | '' @ uppercase n @ uppercase (concat (map (\<lambda>m. '' | '' @ m) ns))"
      by (simp only: list.map concat.simps uppercase_append append_assoc)
    then show ?case unfolding Cons.IH bar by (simp only: list.map concat.simps append_assoc)
  qed (simp add: uppercase_def)
  then show ?thesis unfolding join_bar_def
    by (cases names) (simp_all only: list.case list.map uppercase_append, simp add: uppercase_def)
qed

lemma set_flags_fold:
  assumes "distinct_options opts" and "length opts \<le> 31"
    and "list_all2 (\<lambda>t (i, n). ci_eq (strip t) (opts ! i)) ts ps" and "\<forall>(i, n)\<in>set ps. i < length opts \<and> \<not> bit v i"
    and "distinct (map fst ps)"
  shows "set_flags ts opts v = Some (fold set_bit (map fst ps) v)"
  using assms(3-5)
proof (induction ts ps arbitrary: v rule: list_all2_induct)
  case (Cons t ts p ps)
  obtain i n where p: "p = (i, n)" by (cases p)
  have i: "i < length opts" "\<not> bit v i" using Cons.prems p by auto
  then have "option_index (strip t) opts = Some i"
    using Cons.hyps(1) p option_index_nth[OF assms(1)] by simp
  moreover have "set_bit i v \<noteq> v" using i assms(2) by (auto simp: bit_eq_iff bit_simps intro!: exI[of _ i])
  moreover have "set_flags ts opts (set_bit i v) = Some (fold set_bit (map fst ps) (set_bit i v))"
    using Cons.prems p i by (intro Cons.IH) (auto simp: bit_simps image_iff)
  ultimately show ?case by (simp add: p Let_def)
qed simp

lemma bit_fold_set_bit:
  fixes v :: "32 word"
  shows "bit (fold set_bit is v) k \<longleftrightarrow> bit v k \<or> k \<in> set is \<and> k < 32"
  by (induction "is" arbitrary: v) (auto simp: bit_simps)

lemma flag_pairs_nth: "(i, n) \<in> set (flag_pairs v opts) \<longleftrightarrow> i < length opts \<and> n = opts ! i \<and> bit v i"
  by (auto simp: flag_pairs_def in_set_enumerate_eq)

lemma map_fst_flag_pairs: "map fst (flag_pairs v opts) = filter (bit v) [0..<length opts]"
proof -
  have "map fst (filter (\<lambda>(i, _). P i) ps) = filter P (map fst ps)" for P and ps :: "(nat \<times> string) list"
    by (induction ps) auto
  then show ?thesis by (simp add: flag_pairs_def)
qed

section \<open>The contract of a holder\<close>

text \<open>
  What storing and reading a configuration needs of a holder: the printed form of an admissible
  value is read back as this value.  The interpretations are the holders of the code.
\<close>

locale value_holder =
  fixes shown :: "'v \<Rightarrow> string" and reads :: "string \<Rightarrow> 'v option" and admissible :: "'v \<Rightarrow> bool"
  assumes reads_shown: "admissible v \<Longrightarrow> reads (shown v) = Some v"
begin

lemma shown_inject: "admissible v \<Longrightarrow> admissible w \<Longrightarrow> shown v = shown w \<longleftrightarrow> v = w"
  using reads_shown by (metis option.inject)

end

interpretation size_holder: value_holder "\<lambda>n. nat_string (unat n)" set_size "\<lambda>_. True"
  by unfold_locales (rule set_size_nat_string)

interpretation int_holder: value_holder "\<lambda>i. int_string (sint i)" set_int "\<lambda>_. True"
  by unfold_locales (rule set_int_string)

interpretation bool_holder: value_holder get_bool "set_bool old" "\<lambda>_. True" for old
  by unfold_locales (auto simp: get_bool_def set_bool_def ci_eq_iff tolower_def char_int_def)

definition option_ok :: "metadata \<Rightarrow> 32 word \<Rightarrow> bool" where
  "option_ok md v \<longleftrightarrow> distinct_options (options md) \<and> 0 \<le> sint v \<and> nat (sint v) < length (options md)"

definition flags_ok :: "metadata \<Rightarrow> 32 word \<Rightarrow> bool" where
  "flags_ok md v \<longleftrightarrow> distinct_options (options md) \<and> length (options md) \<le> 31 \<and> list_all flag_name (options md) \<and>
     v \<noteq> 0 \<and> unat v < 2 ^ length (options md)"

lemma option_holder_law:
  assumes "dtypes md = OPTION # ds" and "option_ok md v"
  shows "set_enum md (uppercase (the (get_enum md v))) = Some (Some v)"
proof -
  let ?i = "nat (sint v)"
  have i: "?i < length (options md)" "0 \<le> sint v" using assms(2) by (simp_all add: option_ok_def)
  then have "get_enum md v = Some (options md ! ?i)" using assms(1) by (simp add: get_enum_def rd_def)
  moreover have "option_index (uppercase (options md ! ?i)) (options md) = Some ?i"
    using assms(2) i by (intro option_index_nth) (simp_all add: option_ok_def)
  moreover have "ucast (of_nat ?i :: 64 word) = v"
  proof -
    have "int ?i < 2147483648" using sint_lt[of v] i by simp
    then have "?i < 18446744073709551616" by linarith
    then have "unat (of_nat ?i :: 64 word) = ?i" by (simp add: unat_of_nat)
    then have "ucast (of_nat ?i :: 64 word) = (of_nat ?i :: 32 word)" by (metis of_nat_unat ucast_id)
    then show ?thesis using i(2) by simp
  qed
  ultimately show ?thesis using assms(1) by (simp add: set_enum_def)
qed

lemma below_power_bits:
  fixes v :: "32 word"
  assumes "unat v < 2 ^ n" and "bit v k"
  shows "k < n"
proof -
  have "take_bit n (unat v) = unat v" using assms(1) by (rule take_bit_nat_eq_self)
  moreover have "bit (unat v) k" using assms(2) by (simp add: bit_unsigned_iff bit_imp_le_length)
  ultimately show ?thesis by (metis bit_take_bit_iff)
qed

lemma flags_holder_law:
  assumes "dtypes md = ENUM_FLAGS # ds" and "flags_ok md v"
  shows "get_enum md v = Some (join_bar (map snd (flag_pairs v (options md))))"
    and "set_enum md (uppercase (the (get_enum md v))) = Some (Some v)"
proof -
  let ?ps = "flag_pairs v (options md)" and ?o = "options md"
  have o: "distinct_options ?o" "length ?o \<le> 31" "list_all flag_name ?o" "v \<noteq> 0" "unat v < 2 ^ length ?o"
    using assms(2) by (simp_all add: flags_ok_def)
  have "[] \<notin> set ?o" using o(3) by (auto simp: list_all_iff flag_name_def)
  then show get: "get_enum md v = Some (join_bar (map snd ?ps))" using get_flags[OF assms(1) o(2)] by blast
  let ?names = "map uppercase (map snd ?ps)" and ?ts = "split_string (join_bar (map uppercase (map snd ?ps))) ''|'' True"
  have names: "list_all flag_name ?names"
    using o(3) flag_name_uppercase by (auto simp: list_all_iff flag_pairs_nth)
  obtain k where k: "bit v k" using o(4) by (metis bit_0_eq bit_eqI bot_apply bot_bool_def)
  then have "k < length ?o" using below_power_bits[OF o(5)] by simp
  then have "?names \<noteq> []" using k flag_pairs_nth[of k "?o ! k" v ?o] by auto
  then have strip: "map strip ?ts = ?names" using strip_split_bars[OF names] by simp
  have "list_all2 (\<lambda>t (i, n). ci_eq (strip t) (?o ! i)) ?ts ?ps"
  proof (rule list_all2_all_nthI)
    show "length ?ts = length ?ps" using arg_cong[OF strip, of length] by simp
    fix j assume j: "j < length ?ts"
    have "strip (?ts ! j) = ?names ! j" using j strip by (metis nth_map)
    moreover have jp: "j < length ?ps" using j arg_cong[OF strip, of length] by simp
    obtain i n where p: "?ps ! j = (i, n)" by fastforce
    then have "n = ?o ! i" using jp flag_pairs_nth[of i n v ?o] by (metis nth_mem)
    ultimately show "case ?ps ! j of (i, n) \<Rightarrow> ci_eq (strip (?ts ! j)) (?o ! i)" using jp p by simp
  qed
  moreover have "distinct (map fst ?ps)" by (simp add: map_fst_flag_pairs)
  moreover have "\<forall>(i, n)\<in>set ?ps. i < length ?o \<and> \<not> bit (0 :: 32 word) i" by (auto simp: flag_pairs_nth)
  ultimately have "set_flags ?ts ?o 0 = Some (fold set_bit (map fst ?ps) 0)"
    by (intro set_flags_fold[OF o(1,2)])
  moreover have "fold set_bit (map fst ?ps) 0 = v"
    using below_power_bits[OF o(5)] o(2) by (intro bit_eqI) (auto simp: bit_fold_set_bit map_fst_flag_pairs)
  moreover have "?ts \<noteq> []" using strip \<open>?names \<noteq> []\<close> by auto
  ultimately show "set_enum md (uppercase (the (get_enum md v))) = Some (Some v)"
    using assms(1) o(2) unfolding get option.sel uppercase_join_bar by (simp add: set_enum_def)
qed

section \<open>Printed values are read back\<close>

definition holder_ok :: "(string list \<Rightarrow> string \<Rightarrow> bool) \<Rightarrow> metadata \<Rightarrow> holder \<Rightarrow> bool" where
  "holder_ok create md h \<longleftrightarrow> dtypes md \<noteq> [] \<and> (case h of
     StringHolder s \<Rightarrow> printed_value md s = Some s
   | EnumHolder v \<Rightarrow> (hd (dtypes md) = OPTION \<and> option_ok md v) \<or> (hd (dtypes md) = ENUM_FLAGS \<and> flags_ok md v)
   | ExpressionHolder vars s \<Rightarrow> uppercase s = s \<and> create vars s
   | _ \<Rightarrow> True)"

definition same_kind :: "holder \<Rightarrow> holder \<Rightarrow> bool" where
  "same_kind h0 h \<longleftrightarrow> (case (h0, h) of
     (StringHolder _, StringHolder _) \<Rightarrow> True
   | (BoolHolder _, BoolHolder _) \<Rightarrow> True
   | (SizeHolder _, SizeHolder _) \<Rightarrow> True
   | (IntHolder _, IntHolder _) \<Rightarrow> True
   | (EnumHolder _, EnumHolder _) \<Rightarrow> True
   | (ExpressionHolder vs0 _, ExpressionHolder vs _) \<Rightarrow> vs0 = vs
   | _ \<Rightarrow> False)"

definition printed_holder :: "metadata \<Rightarrow> holder \<Rightarrow> string option" where
  "printed_holder md h = do { v \<leftarrow> holder_get md h; printed_value md v }"

lemma printed_value_upper: "dtypes md \<noteq> [] \<Longrightarrow> uppercase s = s \<Longrightarrow> printed_value md s = Some s"
  by (auto simp: printed_value_def split: list.splits)

text \<open>Reading the printed text gives the value back, whatever the holder held before.\<close>

lemma holder_law:
  assumes "holder_ok create md h" and "same_kind h0 h"
  shows "\<exists>s. printed_holder md h = Some s \<and> holder_set create md h0 s = Some (Some h)"
proof (cases h)
  case (StringHolder s)
  then show ?thesis using assms
    by (auto simp: holder_ok_def same_kind_def printed_holder_def holder_get_def holder_set_def split: holder.splits)
next
  case (BoolHolder b)
  then obtain old where "h0 = BoolHolder old" using assms(2) by (auto simp: same_kind_def split: holder.splits)
  moreover have "printed_value md (get_bool b) = Some (get_bool b)" using assms(1)
    by (intro printed_value_upper) (auto simp: holder_ok_def get_bool_def uppercase_def toupper_def)
  ultimately show ?thesis using BoolHolder
    by (simp add: printed_holder_def holder_get_def holder_set_def bool_holder.reads_shown)
next
  case (SizeHolder n)
  then obtain old where "h0 = SizeHolder old" using assms(2) by (auto simp: same_kind_def split: holder.splits)
  then show ?thesis using SizeHolder assms(1) printed_value_upper[of md "nat_string (unat n)"] size_holder.reads_shown[of n]
    by (simp add: printed_holder_def holder_get_def holder_set_def holder_ok_def)
next
  case (IntHolder i)
  then obtain old where "h0 = IntHolder old" using assms(2) by (auto simp: same_kind_def split: holder.splits)
  then show ?thesis using IntHolder assms(1) printed_value_upper[of md "int_string (sint i)"] int_holder.reads_shown[of i]
    by (simp add: printed_holder_def holder_get_def holder_set_def holder_ok_def)
next
  case (EnumHolder v)
  obtain old where old: "h0 = EnumHolder old" using assms(2) EnumHolder by (auto simp: same_kind_def split: holder.splits)
  obtain d ds where d: "dtypes md = d # ds" using assms(1) by (cases "dtypes md") (auto simp: holder_ok_def)
  have "d = OPTION \<and> option_ok md v \<or> d = ENUM_FLAGS \<and> flags_ok md v"
    using assms(1) d EnumHolder by (auto simp: holder_ok_def)
  then have "(d = OPTION \<or> d = ENUM_FLAGS) \<and> get_enum md v \<noteq> None \<and>
      set_enum md (uppercase (the (get_enum md v))) = Some (Some v)"
  proof (elim disjE conjE)
    assume "d = OPTION" "option_ok md v"
    moreover from this have "get_enum md v \<noteq> None" using d by (simp add: option_ok_def get_enum_def rd_def)
    ultimately show ?thesis using option_holder_law[of md ds v] d by simp
  next
    assume "d = ENUM_FLAGS" "flags_ok md v"
    then show ?thesis using flags_holder_law[of md ds v] d by simp
  qed
  then show ?thesis using old d EnumHolder
    by (auto simp: printed_holder_def holder_get_def holder_set_def printed_value_def)
next
  case (ExpressionHolder vars s)
  then obtain old where "h0 = ExpressionHolder vars old" using assms(2) by (auto simp: same_kind_def split: holder.splits)
  then show ?thesis using ExpressionHolder assms(1) printed_value_upper[of md s]
    by (simp add: printed_holder_def holder_get_def holder_set_def holder_ok_def Let_def)
qed

text \<open>
  C20: Values are read back.  The text of a value that a stored configuration holds sets the same
  value again, whatever the parameter held before: strings that the printing does not change,
  switches, all 64-bit sizes and 32-bit integers, options in range with names that differ beyond
  their case, non-empty sets of flags, and valid expressions in upper case.
\<close>

theorem holder_roundtrip:
  assumes "holder_ok create md h" and "same_kind h0 h"
  shows "\<exists>v s. holder_get md h = Some v \<and> printed_value md v = Some s \<and> holder_set create md h0 s = Some (Some h)"
  using holder_law[OF assms] by (auto simp: printed_holder_def bind_eq_Some_conv)

theorem holder_roundtrip_witness:
  "holder_set (\<lambda>_ _. True) \<lparr>mname = ''m'', description = [], dtypes = [ENUM_FLAGS], pattern = [], options = [''Thermal'', ''Elastic'']\<rparr>
    (EnumHolder 1) ''THERMAL | ELASTIC'' = Some (Some (EnumHolder 3))"
proof -
  let ?md = "\<lparr>mname = ''m'', description = [], dtypes = [ENUM_FLAGS], pattern = [], options = [''Thermal'', ''Elastic'']\<rparr>"
  have "flags_ok ?md 3"
    by (simp add: flags_ok_def distinct_options_def flag_name_def blanks_def tolower_def char_int_def)
  then have "\<exists>v s. holder_get ?md (EnumHolder 3) = Some v \<and> printed_value ?md v = Some s \<and>
      holder_set (\<lambda>_ _. True) ?md (EnumHolder 1) s = Some (Some (EnumHolder 3))"
    by (intro holder_roundtrip) (simp_all add: holder_ok_def same_kind_def)
  moreover have "get_enum ?md 3 = Some ''Thermal | Elastic''"
    by (simp add: get_enum_def bit_numeral_rec numeral_2_eq_2)
  moreover have "uppercase ''Thermal | Elastic'' = ''THERMAL | ELASTIC''" by code_simp
  ultimately show ?thesis by (simp add: holder_get_def printed_value_def)
qed

section \<open>What the setters accept\<close>

text \<open>
  A negative number is a size; an option takes any number, also one that names no option and whose
  text cannot be asked for; a set without flags has the empty text, which no setter accepts.
\<close>

lemma negative_size: "set_size ''-1'' = Some (- 1)"
  by (simp add: set_size_def extract_number_def is_space_def is_digit_def digits_value_def)

lemma option_out_of_range:
  assumes "dtypes md = [OPTION]" and "options md = [''NEVER'', ''LAST'']"
  shows "set_enum md ''7'' = Some (Some 7)" and "get_enum md 7 = None"
  using assms
  by (simp_all add: set_enum_def option_index_def first_index_def ci_eq_iff get_enum_def rd_def set_size_def
      extract_number_def is_space_def is_digit_def digits_value_def)

lemma no_flags:
  assumes "dtypes md = [ENUM_FLAGS]" and "options md = [''THERMAL'', ''LINEAR'']"
  shows "get_enum md 0 = Some []" and "set_enum md [] = Some None"
  using assms
  by (simp_all add: set_enum_def get_enum_def split_string_def option_index_def first_index_def ci_eq_iff strip_def
      find_first_not_of_def erase_front_def keep_front_def find_last_not_of_def)

end
