(* ===== verification/ConfigTree.thy ===== *)
theory ConfigTree
  imports ConfigValues
begin

text \<open>
  The tree of configuration parameters, \<^verbatim>\<open>src/config/configuration.cpp\<close>, \<^verbatim>\<open>configuration.h\<close>,
  \<^verbatim>\<open>objectholder.h\<close> and \<^verbatim>\<open>regionmap.h\<close>.  A pointer to a parameter is a path from the root; parameters are
  only appended while a configuration is read, so paths stay valid.  A map parameter carries the
  kind of the map, a holder for its keys and the parameter that a new key gets.  Objects that share
  a parameter (two spellings of one key, and the intersection setting of a region map, which is
  registered in two objects) are outside this model: an operation that would create one is \<open>None\<close>.
\<close>

section \<open>Parameters\<close>

datatype map_kind = ECFValueMap | ECFEnumMap | ECFObjectMap | ECFValueMapMap | ECFObjectMapMap

datatype param =
    Value string metadata holder
  | Separator string metadata
  | Object string metadata "param list" "(map_kind \<times> holder \<times> param) option"

primrec pname :: "param \<Rightarrow> string" where
  "pname (Value n md h) = n"
| "pname (Separator n md) = n"
| "pname (Object n md ps m) = n"

primrec pmeta :: "param \<Rightarrow> metadata" where
  "pmeta (Value n md h) = md"
| "pmeta (Separator n md) = md"
| "pmeta (Object n md ps m) = md"

primrec isValue :: "param \<Rightarrow> bool" where
  "isValue (Value n md h) = True"
| "isValue (Separator n md) = False"
| "isValue (Object n md ps m) = False"

primrec isObject :: "param \<Rightarrow> bool" where
  "isObject (Value n md h) = False"
| "isObject (Separator n md) = False"
| "isObject (Object n md ps m) = True"

primrec relabel :: "string \<Rightarrow> metadata \<Rightarrow> param \<Rightarrow> param" where
  "relabel n' md' (Value n md h) = Value n' md' h"
| "relabel n' md' (Separator n md) = Separator n' md'"
| "relabel n' md' (Object n md ps m) = Object n' md' ps m"

text \<open>\<^verbatim>\<open>ECFParameter::defaultName\<close>: words start with capitals, underscores become blanks.\<close>

fun capital_words :: "bool \<Rightarrow> string \<Rightarrow> string" where
  "capital_words up [] = []"
| "capital_words up (c # s) =
    (let c = (if up then toupper c else c) in
     if c = CHR ''_'' then CHR '' '' # capital_words True s else c # capital_words False s)"

definition defaultName :: "string \<Rightarrow> metadata \<Rightarrow> metadata" where
  "defaultName n md = (if mname md = [] then md\<lparr>mname := capital_words True n\<rparr> else md)"

section \<open>The parameters of an object\<close>

definition registerParameter :: "string \<Rightarrow> param \<Rightarrow> metadata \<Rightarrow> param list \<Rightarrow> param list" where
  "registerParameter n p md ps = ps @ [relabel n (defaultName n md) p]"

definition empty_metadata :: metadata where
  "empty_metadata = \<lparr>mname = [], description = [], dtypes = [], pattern = [], options = []\<rparr>"

definition addSeparator :: "param list \<Rightarrow> param list" where
  "addSeparator ps = registerParameter ''SEPARATOR'' (Separator [] empty_metadata) (empty_metadata\<lparr>dtypes := [SEPARATOR]\<rparr>) ps"

definition addSpace :: "param list \<Rightarrow> param list" where
  "addSpace ps = registerParameter ''SPACE'' (Separator [] empty_metadata) (empty_metadata\<lparr>dtypes := [SPACE]\<rparr>) ps"

text \<open>\<^verbatim>\<open>ECFObject::_getParameter\<close>.\<close>

definition find_parameter :: "string \<Rightarrow> param list \<Rightarrow> nat option" where
  "find_parameter name ps = first_index (\<lambda>p. ci_eq name (pname p)) ps"

text \<open>\<^verbatim>\<open>dropParameter\<close>, whose error for a foreign parameter is \<open>None\<close>, and \<^verbatim>\<open>dropAllParameters\<close>.\<close>

definition dropParameter :: "nat \<Rightarrow> param list \<Rightarrow> param list option" where
  "dropParameter i ps = (if i < length ps then Some (take i ps @ drop (i + 1) ps) else None)"

definition dropAllParameters :: "param list \<Rightarrow> param list" where
  "dropAllParameters ps = []"

text \<open>\<^verbatim>\<open>moveLastBefore\<close>; the position of the last parameter itself is lost by \<^verbatim>\<open>pop_back\<close>.\<close>

definition moveLastBefore :: "string \<Rightarrow> param list \<Rightarrow> param list option" where
  "moveLastBefore name ps = do {
     p \<leftarrow> (if ps = [] then None else Some (last ps));
     i \<leftarrow> find_parameter name ps;
     if i < length ps - 1 then Some (take i (butlast ps) @ p # drop i (butlast ps)) else None
   }"

section \<open>Maps\<close>

definition map_entry :: "map_kind \<Rightarrow> string \<Rightarrow> metadata \<Rightarrow> param \<Rightarrow> param" where
  "map_entry kind name md t =
    (if kind = ECFObjectMap then relabel name (md_suffix 1 md) t
     else relabel name (defaultName name (md_suffix 1 md)) t)"

definition key_of :: "holder \<Rightarrow> string \<Rightarrow> holder option" where
  "key_of key name = (case holder_set (\<lambda>_ _. False) empty_metadata key name of Some k \<Rightarrow> k | None \<Rightarrow> None)"

text \<open>\<^verbatim>\<open>_getParameter\<close> of all kinds: the position of the parameter, and the object, to which a map adds a new key.\<close>

definition object_get :: "string \<Rightarrow> param \<Rightarrow> (nat option \<times> param) option" where
  "object_get name p = (case p of
     Object n md ps m \<Rightarrow> (case find_parameter name ps of
         Some i \<Rightarrow> Some (Some i, p)
       | None \<Rightarrow> (case m of
             None \<Rightarrow> Some (None, p)
           | Some (kind, key, t) \<Rightarrow> (case key_of key name of
                 None \<Rightarrow> Some (None, p)
               | Some k \<Rightarrow>
                   if list_ex (\<lambda>q. key_of key (pname q) = Some k) ps then None
                   else Some (Some (length ps), Object n md (ps @ [map_entry kind name md t]) m))))
   | _ \<Rightarrow> Some (None, p))"

text \<open>\<^verbatim>\<open>RegionMapBase::addRegion\<close>.\<close>

definition addRegion :: "string \<Rightarrow> string list \<Rightarrow> string list" where
  "addRegion name order = (if list_ex (\<lambda>r. ci_eq r name) order then order else order @ [name])"

section \<open>Paths\<close>

fun param_at :: "nat list \<Rightarrow> param \<Rightarrow> param option" where
  "param_at [] p = Some p"
| "param_at (i # is) (Object n md ps m) = do { q \<leftarrow> rd ps i; param_at is q }"
| "param_at (i # is) p = None"

fun update_at :: "nat list \<Rightarrow> param \<Rightarrow> param \<Rightarrow> param" where
  "update_at [] q p = q"
| "update_at (i # is) q (Object n md ps m) =
    Object n md (if i < length ps then ps[i := update_at is q (ps ! i)] else ps) m"
| "update_at (i # is) q p = p"

text \<open>\<^verbatim>\<open>forEachParameters\<close>: the visited paths, an object before its parameters in the constant variant only.\<close>

function visit :: "bool \<Rightarrow> (nat list \<Rightarrow> bool) \<Rightarrow> nat list \<Rightarrow> param \<Rightarrow> nat list list" where
  "visit with_objects skipped path p = (case p of
     Object n md ps m \<Rightarrow> concat (map (\<lambda>(i, q).
       if skipped (path @ [i]) then []
       else if isObject q then (if with_objects then [path @ [i]] else []) @ visit with_objects skipped (path @ [i]) q
       else if isValue q then [path @ [i]] else []) (enumerate 0 ps))
   | _ \<Rightarrow> [])"
  by pat_completeness auto
termination
proof (relation "measure (\<lambda>(_, _, _, p). size p)", goal_cases)
  case (2 with_objects skipped path p n md ps m iq i q)
  then have "q \<in> set ps" by (auto simp: enumerate_eq_zip dest: set_zip_rightD)
  then show ?case using size_list_estimation'[of q ps "size q" size] 2 by simp
qed simp

declare visit.simps [simp del]

section \<open>Laws of paths\<close>

lemma param_at_append: "param_at (is @ js) p = do { q \<leftarrow> param_at is p; param_at js q }"
proof (induction "is" p rule: param_at.induct)
  case (2 i "is" n md ps m)
  then show ?case by (cases "rd ps i") auto
qed auto

lemma param_at_update_same: "param_at is p = Some r \<Longrightarrow> param_at is (update_at is q p) = Some q"
  by (induction "is" p arbitrary: r rule: param_at.induct) (auto simp: bind_eq_Some_conv rd_def split: if_splits)

lemma update_at_update [simp]: "update_at is q (update_at is r p) = update_at is q p"
  by (induction "is" p rule: param_at.induct) (auto simp: rd_Some)

lemma update_at_param: "param_at is p = Some q \<Longrightarrow> update_at is q p = p"
  by (induction "is" p rule: param_at.induct) (auto simp: bind_eq_Some_conv rd_def split: if_splits)

lemma update_at_append:
  "param_at is p = Some r \<Longrightarrow> update_at (is @ js) q p = update_at is (update_at js q r) p"
  by (induction "is" p rule: param_at.induct) (auto simp: bind_eq_Some_conv rd_def split: if_splits)

section \<open>Looking up and adding parameters\<close>

lemma pname_map_entry [simp]: "pname (map_entry kind name md t) = name"
  by (cases t) (simp_all add: map_entry_def)

lemma find_parameter_Some: "find_parameter name ps = Some i \<longleftrightarrow>
    i < length ps \<and> ci_eq name (pname (ps ! i)) \<and> (\<forall>j<i. \<not> ci_eq name (pname (ps ! j)))"
  by (simp add: find_parameter_def first_index_eq_Some)

lemma find_parameter_None: "find_parameter name ps = None \<longleftrightarrow> (\<forall>p\<in>set ps. \<not> ci_eq name (pname p))"
  by (simp add: find_parameter_def first_index_None list_all_iff)

lemma find_parameter_cong: "ci_eq name name' \<Longrightarrow> find_parameter name' ps = find_parameter name ps"
  by (simp add: find_parameter_def ci_eq_iff)

lemma find_parameter_new: "find_parameter name ps = None \<Longrightarrow> pname p = name \<Longrightarrow> find_parameter name (ps @ [p]) = Some (length ps)"
  by (auto simp: find_parameter_None find_parameter_Some nth_append)

lemma object_get_found: "find_parameter name ps = Some i \<Longrightarrow> object_get name (Object n md ps m) = Some (Some i, Object n md ps m)"
  by (simp add: object_get_def)

lemma object_get_None:
  "object_get name (Object n md ps m) = None \<longleftrightarrow> (\<exists>kind key t k. m = Some (kind, key, t) \<and>
    find_parameter name ps = None \<and> key_of key name = Some k \<and> (\<exists>q\<in>set ps. key_of key (pname q) = Some k))"
  by (auto simp: object_get_def list_ex_iff split: option.splits)

lemma object_get_new:
  assumes "object_get name (Object n md ps m) = Some (r, p')" and "find_parameter name ps = None"
  shows "(r = None \<and> p' = Object n md ps m \<and> (\<forall>kind key t. m = Some (kind, key, t) \<longrightarrow> key_of key name = None)) \<or>
    (\<exists>kind key t. m = Some (kind, key, t) \<and> key_of key name \<noteq> None \<and>
      (\<forall>q\<in>set ps. key_of key (pname q) \<noteq> key_of key name) \<and> r = Some (length ps) \<and>
      p' = Object n md (ps @ [map_entry kind name md t]) m)"
  using assms by (auto simp: object_get_def list_ex_iff split: option.splits if_splits)

lemma key_of_text [simp]: "key_of (StringHolder x) name = Some (StringHolder name)"
  and key_of_number [simp]: "key_of (SizeHolder y) name = map_option SizeHolder (set_size name)"
  by (simp_all add: key_of_def holder_set_def)

text \<open>The names by which parameters are found differ beyond their case.\<close>

definition distinct_names :: "param list \<Rightarrow> bool" where
  "distinct_names ps \<longleftrightarrow> distinct (map (map tolower) (map pname (filter (\<lambda>p. isValue p \<or> isObject p) ps)))"

lemma distinct_names_new:
  assumes "distinct_names ps" and "find_parameter name ps = None" and "pname p = name"
  shows "distinct_names (ps @ [p])"
  using assms by (auto simp: distinct_names_def find_parameter_None ci_eq_iff)

text \<open>
  C21: Looking up a parameter.  A lookup that succeeds returns the first parameter with the name
  up to case.  Without such a parameter a map adds an entry with this name exactly when the name
  is a key of it (every text is a key of a map over texts, and a number one of a map over
  numbers), and every other object returns nothing and stays as it is.  The other parameters stay
  where they are, names stay distinct, a second lookup (in any spelling) returns the same
  parameter and adds nothing, and dropping the new entry restores the object.  Only a second
  spelling of a key that the map already holds (two parameters over one value) has no result in
  the model.
\<close>

theorem getParameter_correct:
  assumes "ci_eq name name'"
  shows "(object_get name (Object n md ps m) = None \<longleftrightarrow> (\<exists>kind key t k. m = Some (kind, key, t) \<and>
      find_parameter name ps = None \<and> key_of key name = Some k \<and> (\<exists>q\<in>set ps. key_of key (pname q) = Some k))) \<and>
    (\<forall>r p'. object_get name (Object n md ps m) = Some (r, p') \<longrightarrow>
      (\<exists>qs. p' = Object n md qs m \<and> (distinct_names ps \<longrightarrow> distinct_names qs) \<and>
      (case r of
         None \<Rightarrow> qs = ps \<and> (\<forall>p\<in>set ps. \<not> ci_eq name (pname p)) \<and>
           (\<forall>kind key t. m = Some (kind, key, t) \<longrightarrow> key_of key name = None)
       | Some i \<Rightarrow> i < length qs \<and> ci_eq name (pname (qs ! i)) \<and> (\<forall>j<i. \<not> ci_eq name (pname (qs ! j))) \<and>
           object_get name' p' = Some (Some i, p') \<and>
           (if \<exists>p\<in>set ps. ci_eq name (pname p) then qs = ps
            else \<exists>kind key t. m = Some (kind, key, t) \<and> key_of key name \<noteq> None \<and> i = length ps \<and>
              qs = ps @ [map_entry kind name md t] \<and> dropParameter i qs = Some ps)))) \<and>
    (\<forall>x. key_of (StringHolder x) name = Some (StringHolder name)) \<and>
    (\<forall>y. key_of (SizeHolder y) name = map_option SizeHolder (set_size name))"
proof -
  have "\<exists>qs. p' = Object n md qs m \<and> (distinct_names ps \<longrightarrow> distinct_names qs) \<and>
      (case r of
         None \<Rightarrow> qs = ps \<and> (\<forall>p\<in>set ps. \<not> ci_eq name (pname p)) \<and>
           (\<forall>kind key t. m = Some (kind, key, t) \<longrightarrow> key_of key name = None)
       | Some i \<Rightarrow> i < length qs \<and> ci_eq name (pname (qs ! i)) \<and> (\<forall>j<i. \<not> ci_eq name (pname (qs ! j))) \<and>
           object_get name' p' = Some (Some i, p') \<and>
           (if \<exists>p\<in>set ps. ci_eq name (pname p) then qs = ps
            else \<exists>kind key t. m = Some (kind, key, t) \<and> key_of key name \<noteq> None \<and> i = length ps \<and>
              qs = ps @ [map_entry kind name md t] \<and> dropParameter i qs = Some ps))"
    if get: "object_get name (Object n md ps m) = Some (r, p')" for r p'
  proof (cases "find_parameter name ps")
    case (Some i)
    then have "r = Some i" "p' = Object n md ps m" using get object_get_found[OF Some] by simp_all
    then show ?thesis using Some object_get_found[of name' ps i] find_parameter_cong[OF assms, of ps]
      by (auto simp: find_parameter_Some)
  next
    case None
    note no = None[unfolded find_parameter_None]
    from object_get_new[OF get None] show ?thesis
    proof (elim disjE exE conjE)
      assume "r = None" "p' = Object n md ps m" "\<forall>kind key t. m = Some (kind, key, t) \<longrightarrow> key_of key name = None"
      then show ?thesis using no by simp
    next
      fix kind key t
      let ?e = "map_entry kind name md t"
      assume m: "m = Some (kind, key, t)" "key_of key name \<noteq> None" "r = Some (length ps)" "p' = Object n md (ps @ [?e]) m"
      have f: "find_parameter name (ps @ [?e]) = Some (length ps)" by (rule find_parameter_new[OF None]) simp
      have "object_get name' p' = Some (Some (length ps), p')"
        using object_get_found[of name' "ps @ [?e]"] find_parameter_cong[OF assms] f m(4) by simp
      moreover have "distinct_names ps \<Longrightarrow> distinct_names (ps @ [?e])" using distinct_names_new[OF _ None] by simp
      ultimately show ?thesis
        using f None no m by (auto simp: find_parameter_Some dropParameter_def)
    qed
  qed
  then show ?thesis by (simp add: object_get_None)
qed

theorem getParameter_correct_witness:
  "let m = Some (ECFValueMap, SizeHolder 0, Value [] empty_metadata (BoolHolder False));
       p = Object ''STEPS'' empty_metadata [] m in
    object_get ''one'' p = Some (None, p) \<and>
    (\<exists>qs. object_get ''12'' p = Some (Some 0, Object ''STEPS'' empty_metadata qs m) \<and>
      dropParameter 0 qs = Some [] \<and> pname (qs ! 0) = ''12'')"
proof -
  let ?m = "Some (ECFValueMap, SizeHolder 0, Value [] empty_metadata (BoolHolder False))"
  let ?p = "Object ''STEPS'' empty_metadata [] ?m"
  let ?e = "map_entry ECFValueMap ''12'' empty_metadata (Value [] empty_metadata (BoolHolder False))"
  have key: "set_size ''12'' = Some 12" "set_size ''one'' = None"
    by (simp_all add: set_size_def extract_number_def is_space_def is_digit_def digits_value_def)
  then have one: "object_get ''one'' ?p = Some (None, ?p)"
    and get: "object_get ''12'' ?p = Some (Some 0, Object ''STEPS'' empty_metadata [?e] ?m)"
    by (auto simp: object_get_def find_parameter_def first_index_def)
  have "ci_eq ''12'' ''12''" by (simp add: ci_eq_iff)
  note found = getParameter_correct[OF this, of "''STEPS''" empty_metadata "[]" ?m, THEN conjunct2, THEN conjunct1,
    THEN spec, THEN spec, THEN mp, OF get]
  then have "dropParameter 0 [?e] = Some []" by (elim exE conjE, unfold param.inject, elim conjE, hypsubst) simp
  moreover have "pname ([?e] ! 0) = ''12''" by simp
  ultimately show ?thesis unfolding Let_def using one get by blast
qed

end
