(* ===== verification/ConfigReader.thy ===== *)
theory ConfigReader
  imports ConfigTree
begin

text \<open>
  Reading a configuration file, \<^verbatim>\<open>ECFReader::_read\<close> of \<^verbatim>\<open>src/config/reader/reader.cpp\<close>: a loop over
  the tokens of a stack of files that keeps the open objects, the texts of the current statement
  and what was read.  One round of the loop is \<open>read_token\<close>; the loop does not end when a file includes
  itself, so it is a partial function, and \<open>None\<close> is undefined behaviour or not ending.  An error
  message of the program ends it and is an \<open>Inl\<close>.
\<close>

section \<open>What reading depends on\<close>

datatype event = VALUE_SET | PARAMETER_GET

text \<open>
  The files, the arguments of the command line, the default arguments and the variables, which the
  program keeps in the configuration that is being read, the expression library, and the listeners
  that the declarations of parameters register.
\<close>

record ecf_env =
  env_files :: "string \<Rightarrow> string option"
  env_args :: "string list"
  defaultArgs :: "param \<Rightarrow> nat \<Rightarrow> string option"
  ecf_variables :: "param \<Rightarrow> (string \<times> string) list"
  createEvaluator :: "string list \<Rightarrow> string \<Rightarrow> bool"
  listeners :: "event \<Rightarrow> nat list \<Rightarrow> string \<Rightarrow> param \<Rightarrow> param"

datatype ecf_error =
    CannotReadFile string | TokenizerError string | MissingSemicolon string | InvalidArgument string
  | ArgumentAsParameter | InvalidCsv string | UnnamedRegion | MultipleNames
  | UnexpectedParameter "string list" | ExpectedParameter "string list" | UnexpectedRegionEnd
  | ParameterIsObject "string list" string string | WrongValue string string | UnclosedRegions
  | NotCorrectlyLoaded "nat \<rightharpoonup> string list"

type_synonym 'a checked = "((ecf_error \<times> string) + 'a) option"

record reader =
  root :: param
  confStack :: "nat list list"
  tokenStack :: "tokenizer list"
  rprefix :: "string list"
  rvalues :: "string list"
  correctlyLoaded :: bool
  unfinishedLine :: bool
  arguments :: "nat \<rightharpoonup> string list"
  rlink :: string
  redParameters :: "nat list list"
  defaulted :: "nat list \<rightharpoonup> string"

text \<open>An error message with the last lines of the file.\<close>

definition parse_error :: "ecf_error \<Rightarrow> tokenizer \<Rightarrow> 'a checked" where
  "parse_error e t = do { (context, _) \<leftarrow> lastLines 2 t; Some (Inl (e, context)) }"

definition plain_error :: "ecf_error \<Rightarrow> 'a checked" where
  "plain_error e = Some (Inl (e, []))"

section \<open>Parameters of the configuration\<close>

text \<open>\<^verbatim>\<open>getParameter\<close> of the object at a path; a parameter that is found triggers the listeners.\<close>

definition getParameter :: "ecf_env \<Rightarrow> string \<Rightarrow> nat list \<Rightarrow> param \<Rightarrow> (nat list option \<times> param) option" where
  "getParameter env name path c = do {
     p \<leftarrow> param_at path c;
     (r, p) \<leftarrow> object_get name p;
     let c = update_at path p c;
     case r of None \<Rightarrow> Some (None, c)
     | Some i \<Rightarrow> do {
         q \<leftarrow> param_at [i] p;
         Some (Some (path @ [i]), listeners env PARAMETER_GET path (pname q) c)
       }
   }"

text \<open>\<^verbatim>\<open>setValue\<close>; false is \<open>Some None\<close>.\<close>

definition setValue :: "ecf_env \<Rightarrow> nat list \<Rightarrow> string \<Rightarrow> param \<Rightarrow> param option option" where
  "setValue env path v c = do {
     p \<leftarrow> param_at path c;
     case p of
       Value n md h \<Rightarrow> do {
         r \<leftarrow> holder_set (createEvaluator env) md h v;
         Some (map_option (\<lambda>h. listeners env VALUE_SET path v (update_at path (Value n md h) c)) r)
       }
     | Separator n md \<Rightarrow> Some None
     | Object n md ps m \<Rightarrow> None
   }"

section \<open>Links\<close>

text \<open>
  \<^verbatim>\<open>ss >> index\<close> for an argument number: the number, and whether it was read without fail up to the
  end.  A text of white space leaves the number uninitialised.
\<close>

definition extract_index :: "string \<Rightarrow> (nat \<times> bool) option" where
  "extract_index s = (case extract_number s of
     None \<Rightarrow> None
   | Some (neg, ds, rest) \<Rightarrow> Some (
       if ds = [] then (0, False)
       else if digits_value ds < 2 ^ 64
         then (unat (if neg then - of_nat (digits_value ds) else of_nat (digits_value ds) :: 64 word), rest = [])
         else (2 ^ 64 - 1, False)))"

definition substitute_variable :: "(string \<times> string) list \<Rightarrow> string \<Rightarrow> string" where
  "substitute_variable vs v = (case List.find (\<lambda>(n, _). ci_eq n v) vs of Some (_, w) \<Rightarrow> w | None \<Rightarrow> v)"

definition argument_name :: "reader \<Rightarrow> string \<Rightarrow> string" where
  "argument_name s n = concat (map (\<lambda>p. p @ ''::'') (rprefix s)) @ n"

definition add_argument :: "nat \<Rightarrow> reader \<Rightarrow> reader" where
  "add_argument index s = s\<lparr>arguments := (arguments s)(index \<mapsto>
     (case arguments s index of Some ns \<Rightarrow> ns | None \<Rightarrow> []) @ [argument_name s (hd (rvalues s))])\<rparr>"

definition argument_link :: "ecf_env \<Rightarrow> tokenizer \<Rightarrow> string \<Rightarrow> reader \<Rightarrow> reader checked" where
  "argument_link env t v s = do {
     (index, good) \<leftarrow> extract_index (drop 3 v);
     if good \<and> index < length (env_args env) then
       Some (Inr (add_argument index (s\<lparr>rvalues := rvalues s @ [env_args env ! index]\<rparr>)))
     else if index < length (env_args env) then plain_error (InvalidArgument v)
     else (case defaultArgs env (root s) index of
         Some d \<Rightarrow> Some (Inr (s\<lparr>rvalues := rvalues s @ [d]\<rparr>))
       | None \<Rightarrow>
           if rvalues s \<noteq> [] then Some (Inr (add_argument index (s\<lparr>correctlyLoaded := False\<rparr>)))
           else parse_error ArgumentAsParameter t)
   }"

function csv_loop :: "string \<Rightarrow> tokenizer \<Rightarrow> string list \<Rightarrow> string list checked" where
  "csv_loop file t vals = do {
     (r, t) \<leftarrow> tokenizer_next t;
     case r of
       GlobalError m \<Rightarrow> plain_error (TokenizerError m)
     | Token k \<Rightarrow>
         if k = END then Some (Inr vals)
         else if k = STRING then
           csv_loop file t (vals @ [buffer t @ (if length vals mod 2 = 0 then '','' else '';'')])
         else if k = LINE_END \<or> k = DELIMITER \<or> k = EXPRESSION_END then csv_loop file t vals
         else plain_error (InvalidCsv file)
   }"
  by pat_completeness auto
termination by (relation "measure (\<lambda>(_, t, _). left_over t)") (auto dest: tokenizer_next_good)

declare csv_loop.simps [simp del]

definition has_suffix :: "string \<Rightarrow> string \<Rightarrow> bool" where
  "has_suffix v suf \<longleftrightarrow> length v > 4 \<and> caseInsensitiveSuffix v suf = Some True"

definition read_link :: "ecf_env \<Rightarrow> tokenizer \<Rightarrow> reader \<Rightarrow> reader checked" where
  "read_link env t s = do {
     let v = buffer t;
     let s = s\<lparr>rlink := ''['' @ v @ '']''\<rparr>;
     let v = substitute_variable (ecf_variables env (root s)) v;
     if has_suffix v ''.ecf'' then (case env_files env v of
         None \<Rightarrow> plain_error (CannotReadFile v)
       | Some text \<Rightarrow> Some (Inr (s\<lparr>tokenStack := tokenizer_new text # tokenStack s\<rparr>)))
     else if length v > 2 \<and> caseInsensitivePreffix ''ARG'' v = Some True then argument_link env t v s
     else if has_suffix v ''.csv'' then (case env_files env v of
         None \<Rightarrow> plain_error (CannotReadFile v)
       | Some text \<Rightarrow> do {
           r \<leftarrow> csv_loop v (tokenizer_new text) (rvalues s);
           case r of Inl e \<Rightarrow> Some (Inl e) | Inr vals \<Rightarrow> Some (Inr (s\<lparr>rvalues := vals\<rparr>))
         })
     else if rvalues s = [] then None
     else if ci_eq (last (rvalues s)) ''TABULAR'' then
       Some (Inr (s\<lparr>rlink := ''TABULAR ['' @ v @ '']'', rvalues := rvalues s @ [''['' @ v @ '']'']\<rparr>))
     else Some (Inr (s\<lparr>rvalues := rvalues s @ [v]\<rparr>))
   }"

section \<open>The other tokens\<close>

definition read_string :: "ecf_env \<Rightarrow> tokenizer \<Rightarrow> reader \<Rightarrow> reader checked" where
  "read_string env t s = do {
     let s = s\<lparr>rvalues := rvalues s @ [buffer t]\<rparr>;
     if unfinishedLine s then do {
       path \<leftarrow> rd (confStack s) 0;
       (r, c) \<leftarrow> getParameter env (last (rvalues s)) path (root s);
       if r \<noteq> None then parse_error (MissingSemicolon (last (rvalues s))) t
       else Some (Inr (s\<lparr>root := c\<rparr>))
     } else Some (Inr s)
   }"

definition open_object :: "ecf_env \<Rightarrow> tokenizer \<Rightarrow> reader \<Rightarrow> reader checked" where
  "open_object env t s =
    (if length (rvalues s) = 0 then parse_error UnnamedRegion t
     else if length (rvalues s) > 1 then parse_error MultipleNames t
     else do {
       let s = s\<lparr>rprefix := rprefix s @ [hd (rvalues s)]\<rparr>;
       path \<leftarrow> rd (confStack s) 0;
       (r, c) \<leftarrow> getParameter env (hd (rvalues s)) path (root s);
       case r of None \<Rightarrow> parse_error (UnexpectedParameter (rprefix s)) t
       | Some path \<Rightarrow> do {
           p \<leftarrow> param_at path c;
           if \<not> isObject p then parse_error (ExpectedParameter (rprefix s)) t
           else Some (Inr (s\<lparr>root := c, redParameters := redParameters s @ [path],
             confStack := path # confStack s, rvalues := []\<rparr>))
         }
     })"

definition close_object :: "tokenizer \<Rightarrow> reader \<Rightarrow> reader checked" where
  "close_object t s =
    (if confStack s = [] \<or> rprefix s = [] then parse_error UnexpectedRegionEnd t
     else Some (Inr (s\<lparr>rprefix := butlast (rprefix s), confStack := tl (confStack s)\<rparr>)))"

text \<open>The texts of a statement behind the name, separated by blanks.\<close>

definition join_values :: "string list \<Rightarrow> string" where
  "join_values vs = (case vs of [] \<Rightarrow> [] | v # vs \<Rightarrow> v @ concat (map (\<lambda>w. '' '' @ w) vs))"

definition end_expression :: "ecf_env \<Rightarrow> reader \<Rightarrow> tokenizer \<Rightarrow> reader checked" where
  "end_expression env s t = do {
     let s = s\<lparr>unfinishedLine := False\<rparr>;
     if \<not> correctlyLoaded s then Some (Inr (s\<lparr>rvalues := []\<rparr>))
     else if length (rvalues s) = 0 then Some (Inr s)
     else do {
       let s = (if length (rvalues s) = 1 then s\<lparr>rvalues := rvalues s @ [[]]\<rparr> else s);
       let name = hd (rvalues s);
       let v = join_values (tl (rvalues s));
       path \<leftarrow> rd (confStack s) 0;
       (r, c) \<leftarrow> getParameter env name path (root s);
       case r of None \<Rightarrow> parse_error (UnexpectedParameter (rprefix s @ [name])) t
       | Some path \<Rightarrow> do {
           p \<leftarrow> param_at path c;
           if isObject p then plain_error (ParameterIsObject (rprefix s) (pname p) v)
           else do {
             u \<leftarrow> setValue env path v c;
             case u of None \<Rightarrow> plain_error (WrongValue name v)
             | Some c \<Rightarrow> Some (Inr (s\<lparr>root := c, redParameters := redParameters s @ [path],
                 defaulted := (if rlink s \<noteq> [] then (defaulted s)(path \<mapsto> rlink s) else defaulted s),
                 rlink := [], rvalues := []\<rparr>))
           }
         }
     }
   }"

section \<open>The loop\<close>

definition read_token :: "ecf_env \<Rightarrow> reader \<Rightarrow> reader checked" where
  "read_token env s = (case tokenStack s of [] \<Rightarrow> None
   | t # ts \<Rightarrow> do {
       (r, t) \<leftarrow> tokenizer_next t;
       let s = s\<lparr>tokenStack := t # ts\<rparr>;
       case r of
         GlobalError m \<Rightarrow> plain_error (TokenizerError m)
       | Token k \<Rightarrow> (case k of
             END \<Rightarrow> Some (Inr (s\<lparr>tokenStack := ts\<rparr>))
           | STRING \<Rightarrow> read_string env t s
           | LINK \<Rightarrow> read_link env t s
           | OBJECT_OPEN \<Rightarrow> open_object env t s
           | OBJECT_CLOSE \<Rightarrow> close_object t s
           | ASSIGN \<Rightarrow> Some (Inr s)
           | DELIMITER \<Rightarrow> Some (Inr (s\<lparr>rvalues := rvalues s @ ['','']\<rparr>))
           | EXPRESSION_END \<Rightarrow> end_expression env s t
           | LINE_END \<Rightarrow> Some (Inr (if length (rvalues s) > 1 then s\<lparr>unfinishedLine := True\<rparr> else s)))
     })"

partial_function (option) read_loop :: "ecf_env \<Rightarrow> reader \<Rightarrow> reader checked" where
  "read_loop env s = (if tokenStack s = [] then Some (Inr s)
    else do {
      r \<leftarrow> read_token env s;
      case r of Inl e \<Rightarrow> Some (Inl e) | Inr s \<Rightarrow> read_loop env s
    })"

declare read_loop.simps [code]

definition reader_new :: "param \<Rightarrow> string \<Rightarrow> reader" where
  "reader_new c text = \<lparr>root = c, confStack = [[]], tokenStack = [tokenizer_new text], rprefix = [], rvalues = [],
     correctlyLoaded = True, unfinishedLine = False, arguments = Map.empty, rlink = [], redParameters = [],
     defaulted = Map.empty\<rparr>"

text \<open>The result \<^verbatim>\<open>ECFRedParameters\<close> with the configuration; a file that cannot be read is not an error here.\<close>

record ecf_red =
  hadValidECF :: bool
  red_root :: param
  red_parameters :: "nat list list"
  red_defaulted :: "nat list \<rightharpoonup> string"

definition read_config :: "ecf_env \<Rightarrow> param \<Rightarrow> string \<Rightarrow> ecf_red checked" where
  "read_config env c file = (case env_files env file of
     None \<Rightarrow> Some (Inr \<lparr>hadValidECF = False, red_root = c, red_parameters = [], red_defaulted = Map.empty\<rparr>)
   | Some text \<Rightarrow> do {
       r \<leftarrow> read_loop env (reader_new c text);
       case r of Inl e \<Rightarrow> Some (Inl e)
       | Inr s \<Rightarrow>
           if length (confStack s) \<noteq> 1 then plain_error UnclosedRegions
           else if \<not> correctlyLoaded s then plain_error (NotCorrectlyLoaded (arguments s))
           else Some (Inr \<lparr>hadValidECF = True, red_root = root s, red_parameters = redParameters s,
             red_defaulted = defaulted s\<rparr>)
     })"

end
