(* ===== verification/ConfigInvariant.thy ===== *)
theory ConfigInvariant
  imports ConfigReader
begin

text \<open>
  The invariant of the reader: the stack of open objects and the printed prefix agree, and no path
  that the reader keeps ever dangles, although maps grow and values change while it reads.
\<close>

section \<open>Parameters stay where they are\<close>

text \<open>All parameters of \<open>c\<close> are still at their places in \<open>d\<close>, objects as objects.\<close>

definition keeps :: "param \<Rightarrow> param \<Rightarrow> bool" where
  "keeps c d \<longleftrightarrow> (\<forall>path q. param_at path c = Some q \<longrightarrow> (\<exists>r. param_at path d = Some r \<and> isObject r = isObject q))"

lemma keeps_refl [simp]: "keeps c c"
  by (auto simp: keeps_def)

lemma keeps_trans: "keeps c d \<Longrightarrow> keeps d e \<Longrightarrow> keeps c e"
  unfolding keeps_def by metis

lemma keeps_update:
  "param_at path c = Some q \<Longrightarrow> keeps q r \<Longrightarrow> keeps c (update_at path r c)"
proof (induction path arbitrary: c)
  case (Cons i path)
  then obtain n md ps m where c: "c = Object n md ps m" "i < length ps" "param_at path (ps ! i) = Some q"
    by (cases c) (auto simp: bind_eq_Some_conv rd_eq_Some_iff)
  have child: "keeps (ps ! i) (update_at path r (ps ! i))" using Cons.IH[OF c(3) Cons.prems(2)] .
  show ?case unfolding keeps_def
  proof (intro allI impI)
    fix p x assume p: "param_at p c = Some x"
    show "\<exists>y. param_at p (update_at (i # path) r c) = Some y \<and> isObject y = isObject x"
    proof (cases p)
      case Nil
      then show ?thesis using p c by auto
    next
      case (Cons j p')
      then have x: "j < length ps" "param_at p' (ps ! j) = Some x"
        using p c(1) by (auto simp: bind_eq_Some_conv rd_eq_Some_iff)
      then have "\<exists>y. param_at p' (ps[i := update_at path r (ps ! i)] ! j) = Some y \<and> isObject y = isObject x"
        using child by (cases "i = j") (auto simp: keeps_def)
      then show ?thesis using x(1) c(1,2) Cons by (simp add: rd_def)
    qed
  qed
qed simp

lemma keeps_append: "keeps (Object n md ps m) (Object n md (ps @ qs) m)"
  unfolding keeps_def
proof (intro allI impI)
  fix p x assume "param_at p (Object n md ps m) = Some x"
  then show "\<exists>r. param_at p (Object n md (ps @ qs) m) = Some r \<and> isObject r = isObject x"
    by (cases p) (auto simp: bind_eq_Some_conv rd_def nth_append split: if_splits)
qed

lemma keeps_value: "keeps (Value n md h) (Value n md h')"
  unfolding keeps_def
proof (intro allI impI)
  fix p x assume "param_at p (Value n md h) = Some x"
  then show "\<exists>r. param_at p (Value n md h') = Some r \<and> isObject r = isObject x" by (cases p) auto
qed

lemma object_get_keeps:
  assumes "object_get name p = Some (r, p')"
  shows "keeps p p'" and "r = Some i \<Longrightarrow> \<exists>q. param_at [i] p' = Some q"
proof -
  have "keeps p p' \<and> (\<forall>i. r = Some i \<longrightarrow> (\<exists>q. param_at [i] p' = Some q))"
  proof (cases p)
    case (Object n md ps m)
    show ?thesis
    proof (cases "find_parameter name ps")
      case None
      then show ?thesis using object_get_new[OF assms[unfolded Object] None] Object keeps_append by (auto simp: rd_def)
    next
      case (Some k)
      then show ?thesis using assms Object object_get_found[OF Some] by (auto simp: rd_def find_parameter_Some)
    qed
  qed (use assms in \<open>simp_all add: object_get_def\<close>)
  then show "keeps p p'" and "r = Some i \<Longrightarrow> \<exists>q. param_at [i] p' = Some q" by auto
qed

text \<open>The listeners must keep the parameters, too.\<close>

definition keeping :: "ecf_env \<Rightarrow> bool" where
  "keeping env \<longleftrightarrow> (\<forall>e path v c. keeps c (listeners env e path v c))"

lemma getParameter_keeps:
  assumes "keeping env" and "getParameter env name path c = Some (r, d)"
  shows "keeps c d" and "r = Some path' \<Longrightarrow> \<exists>q. param_at path' d = Some q"
proof -
  obtain p r' p' where p: "param_at path c = Some p" "object_get name p = Some (r', p')"
    using assms(2) by (auto simp: getParameter_def bind_eq_Some_conv)
  note k = object_get_keeps[OF p(2)]
  let ?c = "update_at path p' c"
  have c: "keeps c ?c" using keeps_update[OF p(1) k(1)] .
  show "keeps c d"
    using assms p c by (auto simp: getParameter_def bind_eq_Some_conv keeping_def Let_def intro: keeps_trans split: option.splits)
  assume "r = Some path'"
  then obtain i q where i: "r' = Some i" "path' = path @ [i]" "param_at [i] p' = Some q"
    "d = listeners env PARAMETER_GET path (pname q) ?c"
    using assms(2) p by (auto simp: getParameter_def bind_eq_Some_conv Let_def split: option.splits)
  have "param_at (path @ [i]) ?c = Some q" using param_at_update_same[OF p(1)] i(3) by (simp add: param_at_append)
  then show "\<exists>q. param_at path' d = Some q" using i(2,4) assms(1) unfolding keeping_def keeps_def by metis
qed

lemma setValue_keeps:
  assumes "keeping env" and "setValue env path v c = Some (Some d)"
  shows "keeps c d"
proof -
  obtain p where p: "param_at path c = Some p" using assms(2) by (auto simp: setValue_def bind_eq_Some_conv)
  then obtain n md h h' where "p = Value n md h" "d = listeners env VALUE_SET path v (update_at path (Value n md h') c)"
    using assms(2) by (cases p) (auto simp: setValue_def bind_eq_Some_conv)
  then show ?thesis
    using keeps_update[OF p] keeps_value assms(1) unfolding keeping_def by (metis keeps_trans)
qed

section \<open>The invariant\<close>

definition reader_ok :: "param \<Rightarrow> reader \<Rightarrow> bool" where
  "reader_ok start s \<longleftrightarrow> keeps start (root s) \<and> length (confStack s) = Suc (length (rprefix s)) \<and>
     list_all (\<lambda>p. \<exists>q. param_at p (root s) = Some q \<and> isObject q) (confStack s) \<and>
     list_all (\<lambda>p. \<exists>q. param_at p (root s) = Some q) (redParameters s)"

lemma keeps_objects:
  "keeps c d \<Longrightarrow> list_all (\<lambda>p. \<exists>q. param_at p c = Some q \<and> isObject q) ps \<Longrightarrow> list_all (\<lambda>p. \<exists>q. param_at p d = Some q \<and> isObject q) ps"
  "keeps c d \<Longrightarrow> list_all (\<lambda>p. \<exists>q. param_at p c = Some q) ps \<Longrightarrow> list_all (\<lambda>p. \<exists>q. param_at p d = Some q) ps"
  by (auto simp: keeps_def list_all_iff) metis+

text \<open>A step that leaves the stacks and the list of parameters, and only lets the configuration grow.\<close>

lemma reader_ok_keeps:
  assumes "reader_ok start s" and "confStack u = confStack s" and "rprefix u = rprefix s" and "redParameters u = redParameters s"
    and "keeps (root s) (root u)"
  shows "reader_ok start u"
  using assms keeps_objects[OF assms(5)] keeps_trans[OF _ assms(5)] by (simp add: reader_ok_def)

lemma argument_link_ok:
  assumes "reader_ok start s" and "argument_link env t v s = Some (Inr u)"
  shows "reader_ok start u"
  by (rule reader_ok_keeps[OF assms(1)])
    (use assms(2) in \<open>auto simp: argument_link_def add_argument_def plain_error_def parse_error_def bind_eq_Some_conv
      split: if_splits option.splits\<close>)

lemma read_link_ok:
  assumes "reader_ok start s" and "read_link env t s = Some (Inr u)"
  shows "reader_ok start u"
proof -
  have s: "reader_ok start (s\<lparr>rlink := l\<rparr>)" for l using assms(1) by (rule reader_ok_keeps) simp_all
  show ?thesis
  proof (cases "\<exists>v l. argument_link env t v (s\<lparr>rlink := l\<rparr>) = Some (Inr u)")
    case True
    then show ?thesis using argument_link_ok[OF s] by blast
  next
    case False
    show ?thesis
      by (rule reader_ok_keeps[OF assms(1)])
        (use assms(2) False in \<open>auto simp: read_link_def plain_error_def bind_eq_Some_conv Let_def
          sum.case_eq_if split: if_splits option.splits\<close>)
  qed
qed

lemma read_string_ok:
  assumes "keeping env" and "reader_ok start s" and "read_string env t s = Some (Inr u)"
  shows "reader_ok start u"
  by (rule reader_ok_keeps[OF assms(2)])
    (use assms(3) getParameter_keeps(1)[OF assms(1)] in \<open>auto simp: read_string_def parse_error_def bind_eq_Some_conv Let_def
      split: if_splits\<close>)

lemma open_object_ok:
  assumes "keeping env" and "reader_ok start s" and "open_object env t s = Some (Inr u)"
  shows "reader_ok start u"
proof -
  obtain path r c p where o: "getParameter env (hd (rvalues s)) path (root s) = Some (Some r, c)" "param_at r c = Some p" "isObject p"
    "u = s\<lparr>rprefix := rprefix s @ [hd (rvalues s)], root := c, redParameters := redParameters s @ [r],
      confStack := r # confStack s, rvalues := []\<rparr>"
    using assms(3) by (auto simp: open_object_def parse_error_def bind_eq_Some_conv Let_def split: if_splits option.splits)
  note k = getParameter_keeps[OF assms(1) o(1)]
  show ?thesis using assms(2) o keeps_objects[OF k(1)] keeps_trans[OF _ k(1)] by (simp add: reader_ok_def)
qed

lemma close_object_ok:
  assumes "reader_ok start s" and "close_object t s = Some (Inr u)"
  shows "reader_ok start u"
proof -
  have "u = s\<lparr>rprefix := butlast (rprefix s), confStack := tl (confStack s)\<rparr>" "rprefix s \<noteq> []" "confStack s \<noteq> []"
    using assms(2) by (auto simp: close_object_def parse_error_def bind_eq_Some_conv split: if_splits)
  then show ?thesis using assms(1) by (cases "confStack s") (auto simp: reader_ok_def)
qed

lemma end_expression_ok:
  assumes "keeping env" and "reader_ok start s" and "end_expression env s t = Some (Inr u)"
  shows "reader_ok start u"
proof (cases "correctlyLoaded s \<and> rvalues s \<noteq> []")
  case False
  show ?thesis
    by (rule reader_ok_keeps[OF assms(2)])
      (use assms(3) False in \<open>auto simp: end_expression_def Let_def split: if_splits\<close>)
next
  case True
  let ?s = "s\<lparr>unfinishedLine := False\<rparr>"
  define w where "w = (if length (rvalues ?s) = 1 then ?s\<lparr>rvalues := rvalues ?s @ [[]]\<rparr> else ?s)"
  have w: "root w = root s" "confStack w = confStack s" "rprefix w = rprefix s" "redParameters w = redParameters s"
    by (simp_all add: w_def)
  obtain path r c p d where o: "getParameter env (hd (rvalues w)) path (root w) = Some (Some r, c)" "param_at r c = Some p"
    "setValue env r (join_values (tl (rvalues w))) c = Some (Some d)"
    "u = w\<lparr>root := d, redParameters := redParameters w @ [r],
      defaulted := (if rlink w \<noteq> [] then (defaulted w)(r \<mapsto> rlink w) else defaulted w), rlink := [], rvalues := []\<rparr>"
    using assms(3) True unfolding end_expression_def Let_def w_def[symmetric]
    by (auto simp: parse_error_def plain_error_def bind_eq_Some_conv split: if_splits option.splits)
  have k: "keeps (root s) d" and "keeps c d"
    using getParameter_keeps(1)[OF assms(1) o(1)] setValue_keeps[OF assms(1) o(3)] w(1) by (auto intro: keeps_trans)
  then have "\<exists>q. param_at r d = Some q" using o(2) unfolding keeps_def by metis
  then show ?thesis using assms(2) o(4) w keeps_objects[OF k] keeps_trans[OF _ k] by (simp add: reader_ok_def)
qed

inductive read_step :: "ecf_env \<Rightarrow> reader \<Rightarrow> reader \<Rightarrow> bool" for env where
  step: "tokenStack s \<noteq> [] \<Longrightarrow> read_token env s = Some (Inr u) \<Longrightarrow> read_step env s u"

inductive_cases read_stepE: "read_step env s u"

lemma read_step_ok:
  assumes "keeping env" and "read_step env s u" and "reader_ok start s"
  shows "reader_ok start u"
proof -
  obtain t ts r t' where t: "tokenStack s = t # ts" "tokenizer_next t = Some (r, t')" "read_token env s = Some (Inr u)"
    using assms(2) by (cases "tokenStack s") (auto elim!: read_stepE simp: read_token_def bind_eq_Some_conv)
  have s: "reader_ok start (s\<lparr>tokenStack := ts\<rparr>)" for ts using assms(3) by (rule reader_ok_keeps) simp_all
  obtain k where r: "r = Token k" using t by (cases r) (auto simp: read_token_def plain_error_def)
  let ?s = "s\<lparr>tokenStack := t' # ts\<rparr>"
  have same: "reader_ok start (?s\<lparr>rvalues := vs\<rparr>)" "reader_ok start (?s\<lparr>unfinishedLine := b\<rparr>)" for vs b
    using assms(3) by (auto intro: reader_ok_keeps)
  show ?thesis
    using t r s same read_string_ok[OF assms(1) s, of t' "t' # ts"] read_link_ok[OF s, of env t' "t' # ts"]
      open_object_ok[OF assms(1) s, of t' "t' # ts"] close_object_ok[OF s, of t' "t' # ts"]
      end_expression_ok[OF assms(1) s, of "t' # ts" t']
    by (cases k) (auto simp: read_token_def Let_def split: if_splits)
qed

text \<open>
  C19: The reader's pointers are valid.  In every state that reading a file reaches, however the file
  is written, the stack of open objects has one element more than the printed prefix, its elements
  are objects of the configuration, and the parameters that were read are still where they were:
  maps only grow and a value never changes its place.  So the current object always exists, and a
  closing brace too many is the error \<open>UnexpectedRegionEnd\<close>.
\<close>

theorem reader_invariant:
  assumes "keeping env" and "isObject c" and "(read_step env)\<^sup>*\<^sup>* (reader_new c text) s"
  shows "length (confStack s) = Suc (length (rprefix s)) \<and>
    list_all (\<lambda>p. \<exists>q. param_at p (root s) = Some q \<and> isObject q) (confStack s) \<and>
    list_all (\<lambda>p. \<exists>q. param_at p (root s) = Some q) (redParameters s) \<and> keeps c (root s) \<and>
    (rprefix s = [] \<longrightarrow> (\<forall>t u. close_object t s \<noteq> Some (Inr u)))"
proof -
  have start: "reader_ok c (reader_new c text)"
    using assms(2) by (simp add: reader_ok_def reader_new_def)
  from assms(3) have ok: "reader_ok c s"
    by (induction rule: rtranclp_induct) (use start read_step_ok[OF assms(1)] in blast)+
  have "close_object t s \<noteq> Some (Inr u)" if "rprefix s = []" for t u
    using that by (auto simp: close_object_def parse_error_def bind_eq_Some_conv)
  then show ?thesis using ok by (simp add: reader_ok_def)
qed

text \<open>One object that a file opens.\<close>

definition open_env :: ecf_env where
  "open_env = \<lparr>env_files = (\<lambda>_. None), env_args = [], defaultArgs = (\<lambda>_ _. None), ecf_variables = (\<lambda>_. []),
     createEvaluator = (\<lambda>_ _. True), listeners = (\<lambda>_ _ _ c. c)\<rparr>"

definition open_root :: param where
  "open_root = Object ''root'' empty_metadata [Object ''A'' empty_metadata [] None] None"

definition open_state :: "nat \<Rightarrow> reader" where
  "open_state k = ((\<lambda>s. projr (the (read_token open_env s))) ^^ k) (reader_new open_root [CHR ''a'', CHR '' '', CHR 0x7B, CHR 0x0A])"

lemma open_steps: "list_all (\<lambda>k. tokenStack (open_state k) \<noteq> [] \<and>
    (case read_token open_env (open_state k) of Some (Inr _) \<Rightarrow> True | _ \<Rightarrow> False)) [0, 1]"
  "confStack (open_state 2) = [[0], []]"
  by code_simp+

theorem reader_invariant_witness:
  "length (confStack (open_state 2)) = Suc (length (rprefix (open_state 2))) \<and> confStack (open_state 2) = [[0], []]"
proof -
  have "read_step open_env (open_state k) (open_state (Suc k))" if "k \<in> {0, 1}" for k
    using that open_steps(1) by (intro read_step.step) (auto simp: open_state_def split: option.splits sum.splits)
  then have "(read_step open_env)\<^sup>*\<^sup>* (open_state 0) (open_state 2)"
    by (metis insertCI numeral_2_eq_2 One_nat_def rtranclp.simps)
  moreover have "keeping open_env" by (simp add: keeping_def open_env_def)
  moreover have "isObject open_root" by (simp add: open_root_def)
  ultimately show ?thesis
    using reader_invariant[of open_env open_root "[CHR ''a'', CHR '' '', CHR 0x7B, CHR 0x0A]" "open_state 2"] open_steps(2)
    by (simp add: open_state_def)
qed

end
