(* ===== verification/ConfigStore.thy ===== *)
theory ConfigStore
  imports ConfigReader
begin

text \<open>
  Storing a configuration, \<^verbatim>\<open>printECF\<close> and \<^verbatim>\<open>ECFReader::store\<close> of \<^verbatim>\<open>src/config/reader/reader.cpp\<close>, without the
  patterns of maps (\<open>printPatterns\<close> is false), and the proof that a stored file is read back.
\<close>

section \<open>Printing\<close>

text \<open>
  \<open>allowed\<close> is the value of the conditions \<^verbatim>\<open>isallowed\<close> of the parameters, \<open>red\<close> and \<open>links\<close> are the members of
  \<^verbatim>\<open>ECFRedParameters\<close>.
\<close>

record store_options =
  onlyAllowed :: bool
  allowed :: "nat list \<Rightarrow> bool"
  red :: "nat list list"
  links :: "nat list \<rightharpoonup> string"

definition wasRed :: "store_options \<Rightarrow> nat list \<Rightarrow> bool" where
  "wasRed opt path \<longleftrightarrow> (if red opt \<noteq> [] then path \<in> set (red opt) else True)"

definition stored_value :: "store_options \<Rightarrow> nat list \<Rightarrow> metadata \<Rightarrow> holder \<Rightarrow> string option" where
  "stored_value opt path md h = do {
     v \<leftarrow> holder_get md h;
     Some (case links opt path of Some l \<Rightarrow> l | None \<Rightarrow> v)
   }"

definition max_size :: "store_options \<Rightarrow> nat list \<Rightarrow> param list \<Rightarrow> nat option" where
  "max_size opt path ps = for_each (enumerate 0 ps) (\<lambda>(i, q) maxSize. case q of
     Value n md h \<Rightarrow>
       if wasRed opt (path @ [i]) \<and> (allowed opt (path @ [i]) \<or> \<not> onlyAllowed opt) then do {
         v \<leftarrow> stored_value opt (path @ [i]) md h;
         Some (if maxSize < length n + length v then length n + length v else maxSize)
       } else Some maxSize
   | _ \<Rightarrow> Some maxSize) 0"

record printing =
  os :: string
  printSpace :: bool
  firstParameter :: bool
  firstValue :: bool
  spaceAfterObject :: bool

definition out :: "string \<Rightarrow> printing \<Rightarrow> printing" where
  "out s st = st\<lparr>os := os st @ s\<rparr>"

definition indentation :: "nat \<Rightarrow> string" where
  "indentation k = replicate k CHR '' ''"

definition newline :: string where
  "newline = [CHR 0x0A]"

definition printed_name :: "bool \<Rightarrow> string \<Rightarrow> string" where
  "printed_name hasDataType n = (if hasDataType then n else uppercase n)"

text \<open>The loop over the parameters, in front of \<open>printparameter\<close>.\<close>

definition before_parameter :: "bool \<Rightarrow> param \<Rightarrow> printing \<Rightarrow> printing" where
  "before_parameter was_red q st =
    (let st = (if \<not> isObject q \<and> \<not> isValue q then st\<lparr>spaceAfterObject := False\<rparr> else st);
         st = (if spaceAfterObject st \<and> was_red then
             (let st = st\<lparr>spaceAfterObject := False\<rparr> in if isValue q then out newline st else st) else st)
     in if isObject q \<and> was_red then st\<lparr>spaceAfterObject := True\<rparr> else st)"

definition print_value_line ::
  "store_options \<Rightarrow> nat \<Rightarrow> bool \<Rightarrow> nat list \<Rightarrow> nat \<Rightarrow> string \<Rightarrow> metadata \<Rightarrow> holder \<Rightarrow> string option" where
  "print_value_line opt indent hasDataType path maxSize n md h = do {
     v \<leftarrow> stored_value opt path md h;
     let space = (if maxSize \<noteq> 0 then maxSize - length n - length v else 3);
     s \<leftarrow> printed_value md v;
     Some (indentation indent @ printed_name hasDataType n @ indentation (space + 3) @ s @ '';'' @ newline)
   }"

lemma child_size: "Object n md qs m \<in> set ps \<Longrightarrow> size_list size qs < size_list size ps"
  using size_list_estimation'[of "Object n md qs m" ps "size (Object n md qs m)" size] by simp

function printECF :: "store_options \<Rightarrow> nat \<Rightarrow> bool \<Rightarrow> nat list \<Rightarrow> param list \<Rightarrow> string option" where
  "printECF opt indent hasDataType path ps = do {
     maxSize \<leftarrow> max_size opt path ps;
     st \<leftarrow> for_each (enumerate 0 ps) (\<lambda>(i, q) st. do {
         let was_red = wasRed opt (path @ [i]);
         let st = before_parameter was_red q st;
         if onlyAllowed opt \<and> \<not> allowed opt (path @ [i]) then Some st
         else if \<not> was_red \<and> (isObject q \<or> isValue q) then Some st
         else case q of
           Value n md h \<Rightarrow> do {
             let st = (if printSpace st then (if \<not> firstValue st then out newline st else st)\<lparr>printSpace := False\<rparr> else st);
             text \<leftarrow> print_value_line opt indent hasDataType (path @ [i]) maxSize n md h;
             Some ((out text st)\<lparr>firstValue := False, firstParameter := False\<rparr>)
           }
         | Object n md qs m \<Rightarrow> do {
             let st = (if \<not> firstParameter st then out newline st else st)\<lparr>printSpace := False\<rparr>;
             body \<leftarrow> printECF opt (indent + 2) (dtypes md \<noteq> []) (path @ [i]) qs;
             Some ((out (indentation indent @ printed_name hasDataType n @ [CHR '' '', CHR 0x7B] @ newline @ body @
               indentation indent @ [CHR 0x7D] @ newline) st)\<lparr>firstValue := False, firstParameter := False\<rparr>)
           }
         | Separator n md \<Rightarrow> Some (st\<lparr>printSpace := True\<rparr>)
       }) \<lparr>os = [], printSpace = False, firstParameter = True, firstValue = True, spaceAfterObject = False\<rparr>;
     Some (os st)
   }"
  by pat_completeness auto
termination
  by (relation "measure (\<lambda>(_, _, _, _, ps). size_list size ps)")
    (auto simp: enumerate_eq_zip dest!: set_zip_rightD dest: child_size)

declare printECF.simps [simp del]

definition header_line :: string where
  "header_line = ''# ESPRESO Configuration File'' @ newline @ newline"

definition store_config :: "store_options \<Rightarrow> param \<Rightarrow> string option" where
  "store_config opt c = (case c of
     Object n md ps m \<Rightarrow> do { body \<leftarrow> printECF opt 0 False [] ps; Some (header_line @ body) }
   | _ \<Rightarrow> None)"

section \<open>One round of the loop\<close>

definition print_start :: printing where
  "print_start = \<lparr>os = [], printSpace = False, firstParameter = True, firstValue = True, spaceAfterObject = False\<rparr>"

definition print_round ::
  "store_options \<Rightarrow> nat \<Rightarrow> bool \<Rightarrow> nat list \<Rightarrow> nat \<Rightarrow> nat \<times> param \<Rightarrow> printing \<Rightarrow> printing option" where
  "print_round opt indent hasDataType path maxSize = (\<lambda>(i, q) st. do {
     let was_red = wasRed opt (path @ [i]);
     let st = before_parameter was_red q st;
     if onlyAllowed opt \<and> \<not> allowed opt (path @ [i]) then Some st
     else if \<not> was_red \<and> (isObject q \<or> isValue q) then Some st
     else case q of
       Value n md h \<Rightarrow> do {
         let st = (if printSpace st then (if \<not> firstValue st then out newline st else st)\<lparr>printSpace := False\<rparr> else st);
         text \<leftarrow> print_value_line opt indent hasDataType (path @ [i]) maxSize n md h;
         Some ((out text st)\<lparr>firstValue := False, firstParameter := False\<rparr>)
       }
     | Object n md qs m \<Rightarrow> do {
         let st = (if \<not> firstParameter st then out newline st else st)\<lparr>printSpace := False\<rparr>;
         body \<leftarrow> printECF opt (indent + 2) (dtypes md \<noteq> []) (path @ [i]) qs;
         Some ((out (indentation indent @ printed_name hasDataType n @ [CHR '' '', CHR 0x7B] @ newline @ body @
           indentation indent @ [CHR 0x7D] @ newline) st)\<lparr>firstValue := False, firstParameter := False\<rparr>)
       }
     | Separator n md \<Rightarrow> Some (st\<lparr>printSpace := True\<rparr>)
   })"

lemma printECF_rounds: "printECF opt indent hasDataType path ps = do {
    maxSize \<leftarrow> max_size opt path ps;
    st \<leftarrow> for_each (enumerate 0 ps) (print_round opt indent hasDataType path maxSize) print_start;
    Some (os st)
  }"
  by (subst printECF.simps) (simp add: print_round_def print_start_def)

text \<open>A whole configuration is printed: no conditions, nothing left out, no links.\<close>

definition everything :: "store_options \<Rightarrow> bool" where
  "everything opt \<longleftrightarrow> \<not> onlyAllowed opt \<and> red opt = [] \<and> links opt = Map.empty"

lemma stored_everything:
  assumes "everything opt"
  shows "wasRed opt path" and "stored_value opt path md h = holder_get md h"
  using assms by (simp_all add: everything_def wasRed_def stored_value_def bind_eq_Some_conv)

lemma max_size_Some:
  assumes "everything opt" and "\<forall>n md h. Value n md h \<in> set ps \<longrightarrow> holder_get md h \<noteq> None"
  shows "\<exists>k. max_size opt path ps = Some k"
proof -
  have "\<exists>k. for_each (enumerate 0 ps) (\<lambda>(i, q) maxSize. case q of
     Value n md h \<Rightarrow>
       if wasRed opt (path @ [i]) \<and> (allowed opt (path @ [i]) \<or> \<not> onlyAllowed opt) then do {
         v \<leftarrow> stored_value opt (path @ [i]) md h;
         Some (if maxSize < length n + length v then length n + length v else maxSize)
       } else Some maxSize
   | _ \<Rightarrow> Some maxSize) 0 = Some k \<and> True"
  proof (rule for_each_list[where I = "\<lambda>_ _. True"])
    fix d iq rest t assume "enumerate 0 ps = d @ iq # rest"
    then have "snd iq \<in> set (map snd (enumerate 0 ps))" by simp
    then have q: "snd iq \<in> set ps" by simp
    obtain i q where iq: "iq = (i, q)" by fastforce
    show "\<exists>u. (case iq of (i, q) \<Rightarrow> \<lambda>maxSize. case q of
         Value n md h \<Rightarrow>
           if wasRed opt (path @ [i]) \<and> (allowed opt (path @ [i]) \<or> \<not> onlyAllowed opt) then do {
             v \<leftarrow> stored_value opt (path @ [i]) md h;
             Some (if maxSize < length n + length v then length n + length v else maxSize)
           } else Some maxSize
       | _ \<Rightarrow> Some maxSize) t = Some u \<and> True"
      using q assms(2) stored_everything[OF assms(1)] unfolding iq by (cases q) (fastforce+)
  qed simp
  then show ?thesis by (simp add: max_size_def)
qed

text \<open>The empty lines in front of a parameter.\<close>

lemma before_parameter_os:
  obtains nl where "os (before_parameter w q st) = os st @ nl" and "nl = [] \<or> nl = newline"
    and "\<not> spaceAfterObject st \<longrightarrow> nl = []"
  by (cases "isValue q \<and> w \<and> spaceAfterObject st \<and> \<not> (\<not> isObject q \<and> \<not> isValue q)")
    (auto simp: before_parameter_def out_def Let_def split: if_splits intro: that)

lemma before_parameter_flags [simp]:
  "printSpace (before_parameter w q st) = printSpace st" "firstValue (before_parameter w q st) = firstValue st"
  "firstParameter (before_parameter w q st) = firstParameter st"
  "\<not> isObject q \<Longrightarrow> \<not> isValue q \<Longrightarrow> spaceAfterObject (before_parameter w q st) = False"
  by (auto simp: before_parameter_def out_def Let_def)

end
