(* ===== verification/ConfigRoundtrip.thy ===== *)
theory ConfigRoundtrip
  imports ConfigStore
begin

text \<open>
  A stored configuration is read back.  \<open>at_text\<close> says what a tokenizer still has to read, up to
  blanks in front; \<open>loads\<close> composes the effects of pieces of text on the reader, and the main
  lemma follows the loop of \<^verbatim>\<open>printECF\<close> over the parameters of an object.
\<close>

section \<open>Tokens of the printed text\<close>

definition at_text :: "tokenizer \<Rightarrow> string \<Rightarrow> bool" where
  "at_text t x \<longleftrightarrow> fpos (cfile t) \<le> length (contents (cfile t)) \<and>
     (\<exists>ws. list_all isWhiteSpace ws \<and> rest_of t = ws @ x \<and> (x = [] \<longrightarrow> ws = []))"

lemma at_text_blanks:
  assumes "at_text t (ws @ x)" and "list_all isWhiteSpace ws" and "x \<noteq> []"
  shows "at_text t x"
proof -
  obtain vs where "list_all isWhiteSpace vs" "rest_of t = (vs @ ws) @ x"
    using assms(1) by (auto simp: at_text_def)
  then show ?thesis using assms unfolding at_text_def by (intro conjI exI[of _ "vs @ ws"]) (auto simp: at_text_def)
qed

lemma tokenizer_next_position:
  assumes "tokenizer_next t = Some (r, u)" and "fpos (cfile t) \<le> length (contents (cfile t))"
  shows "fpos (cfile u) \<le> length (contents (cfile u))"
  using tokenizer_next_good[OF assms(1)] assms(2) by (auto simp: moved_def)

lemma tokenizer_next_nonblank:
  assumes "at_text t (c # x)" and "\<not> isWhiteSpace c"
  obtains v where "rest_of v = c # x" and "buffer v = []" and "fpos (cfile v) \<le> length (contents (cfile v))"
    and "tokenizer_next t = do { (r, u) \<leftarrow> next_loop v; Some (r, case r of Token k \<Rightarrow> u\<lparr>tok := k\<rparr> | GlobalError _ \<Rightarrow> u) }"
proof -
  obtain ws where ws: "list_all isWhiteSpace ws" "rest_of t = ws @ c # x" using assms(1) by (auto simp: at_text_def)
  obtain u where u: "skipWhiteSpaces t = Some u" "rest_of u = c # x"
    using skipWhiteSpaces_rest[OF ws(2,1) assms(2)] by blast
  have "\<not> file_eof (cfile t)" using ws(2) token_simps(2)[of t] by (cases ws) auto
  moreover have "fpos (cfile u) \<le> length (contents (cfile u))"
    using skipWhiteSpaces_moved[OF u(1)] assms(1) by (auto simp: moved_def at_text_def)
  ultimately show thesis using u by (intro that[of "u\<lparr>buffer := []\<rparr>"]) (simp_all add: tokenizer_next_def next_token_def)
qed

text \<open>Single characters.\<close>

definition special_token :: "char \<Rightarrow> token option" where
  "special_token c = (if c = CHR '','' then Some DELIMITER else if c = CHR '';'' then Some EXPRESSION_END
     else if c = CHR 0x0A then Some LINE_END else if c = CHR 0x7B then Some OBJECT_OPEN
     else if c = CHR 0x7D then Some OBJECT_CLOSE else if c = CHR ''='' then Some ASSIGN else None)"

lemma next_special:
  assumes "at_text t (c # x)" and "special_token c = Some k"
  shows "\<exists>u. tokenizer_next t = Some (Token k, u) \<and> at_text u x"
proof -
  have c: "\<not> isWhiteSpace c" "k \<noteq> END"
    using assms(2) by (auto simp: special_token_def char_class_simps split: if_splits)
  obtain v where v: "rest_of v = c # x" "buffer v = []"
      "tokenizer_next t = do { (r, u) \<leftarrow> next_loop v; Some (r, case r of Token k \<Rightarrow> u\<lparr>tok := k\<rparr> | GlobalError _ \<Rightarrow> u) }"
    by (rule tokenizer_next_nonblank[OF assms(1) c(1)])
  let ?v = "if c = CHR 0x0A then v\<lparr>line := line v + 1\<rparr> else v"
  have r: "rest_of ?v = c # x" using v(1) by simp
  have "next_loop v = Some (Token k, adv ?v\<lparr>buffer := [c]\<rparr>)"
  proof (cases "c = CHR 0x0A")
    case True
    then have "rest_of (v\<lparr>line := line v + 1\<rparr>) = CHR 0x0A # x" "rest_of v = CHR 0x0A # x" using v(1) by simp_all
    then show ?thesis using True v(2) assms(2)
      by (subst next_loop.simps) (auto simp: token_simps char_class_simps specialToken_def special_token_def)
  next
    case False
    then show ?thesis using v(1,2) assms(2)
      by (subst next_loop.simps)
        (auto simp: token_simps char_class_simps specialToken_def special_token_def split: if_splits)
  qed
  then have n: "tokenizer_next t = Some (Token k, adv ?v\<lparr>buffer := [c], tok := k\<rparr>)" using v(3) by simp
  have "rest_of (adv ?v\<lparr>buffer := [c], tok := k\<rparr>) = x" using token_simps(5)[OF r] by simp
  then show ?thesis using n tokenizer_next_position[OF n] assms(1) by (auto simp: at_text_def intro!: exI[of _ "[]"])
qed

text \<open>Words in front of a blank or a semicolon.\<close>

definition name_ok :: "string \<Rightarrow> bool" where
  "name_ok w \<longleftrightarrow> w \<noteq> [] \<and> list_all plain w \<and> no_comment w"

lemma next_loop_word_semicolon:
  assumes "rest_of t = w @ CHR '';'' # r" and "list_all plain w" and "no_comment (buffer t @ w)"
    and "buffer t @ w \<noteq> []"
  shows "\<exists>u. next_loop t = Some (Token STRING, u) \<and> rest_of u = CHR '';'' # r \<and> buffer u = buffer t @ w"
  using assms
proof (induction w arbitrary: t)
  case Nil
  then show ?case
    by (subst next_loop.simps) (auto simp: token_simps char_class_simps specialToken_def)
next
  case (Cons c w)
  let ?u = "adv t\<lparr>buffer := buffer t @ [c]\<rparr>"
  have *: "\<not> (buffer t \<noteq> [] \<and> isLineComment (last (buffer t)) c)" "\<not> (buffer t \<noteq> [] \<and> isMultiLineCommentStart (last (buffer t)) c)"
    using Cons.prems(3) by (auto simp: no_comment_def successively_append_iff)
  have "\<exists>u. next_loop ?u = Some (Token STRING, u) \<and> rest_of u = CHR '';'' # r \<and> buffer u = buffer ?u @ w"
    using Cons.prems token_simps(5)[of t c] by (intro Cons.IH) auto
  then show ?case
    using Cons.prems(1,2) * by (subst next_loop.simps) (auto simp: token_simps plain_def)
qed

lemma next_word:
  assumes "at_text t (w @ c # x)" and "name_ok w" and "c = CHR '' '' \<or> c = CHR '';''"
  shows "\<exists>u. tokenizer_next t = Some (Token STRING, u) \<and> buffer u = w \<and> at_text u (if c = CHR '' '' then x else c # x)"
proof -
  obtain d w' where w: "w = d # w'" "\<not> isWhiteSpace d" using assms(2) by (cases w) (auto simp: name_ok_def plain_def)
  obtain v where v: "rest_of v = w @ c # x" "buffer v = []"
      "tokenizer_next t = do { (r, u) \<leftarrow> next_loop v; Some (r, case r of Token k \<Rightarrow> u\<lparr>tok := k\<rparr> | GlobalError _ \<Rightarrow> u) }"
    using assms(1) w by (auto intro: tokenizer_next_nonblank[of t d "w' @ c # x"])
  have "\<exists>u. next_loop v = Some (Token STRING, u) \<and> buffer u = w \<and> rest_of u = (if c = CHR '' '' then x else c # x)"
    using assms(3) next_loop_word[of v w x] next_loop_word_semicolon[of v w x] v(1,2) assms(2) by (auto simp: name_ok_def)
  then obtain u where u: "tokenizer_next t = Some (Token STRING, u\<lparr>tok := STRING\<rparr>)" "buffer u = w"
    "rest_of u = (if c = CHR '' '' then x else c # x)" using v(3) by auto
  then show ?thesis using tokenizer_next_position[OF u(1)] assms(1)
    by (intro exI[of _ "u\<lparr>tok := STRING\<rparr>"]) (auto simp: at_text_def intro!: exI[of _ "[]"])
qed

section \<open>Pieces of text\<close>

definition reads :: "ecf_env \<Rightarrow> string \<Rightarrow> reader \<Rightarrow> string \<Rightarrow> reader \<Rightarrow> bool" where
  "reads env x s x' s' \<longleftrightarrow> (\<forall>t ts. at_text t x \<longrightarrow> (\<exists>t'. at_text t' x' \<and>
     read_loop env (s\<lparr>tokenStack := t # ts\<rparr>) = read_loop env (s'\<lparr>tokenStack := t' # ts\<rparr>)))"

lemma reads_refl: "reads env x s x s"
  by (auto simp: reads_def)

lemma reads_trans: "reads env x s y u \<Longrightarrow> reads env y u z v \<Longrightarrow> reads env x s z v"
  unfolding reads_def by metis

lemma reads_blanks: "list_all isWhiteSpace ws \<Longrightarrow> x \<noteq> [] \<Longrightarrow> reads env (ws @ x) s x s"
  unfolding reads_def using at_text_blanks by blast

lemma read_loop_step: "read_token env (s\<lparr>tokenStack := t # ts\<rparr>) = Some (Inr u) \<Longrightarrow>
    read_loop env (s\<lparr>tokenStack := t # ts\<rparr>) = read_loop env u"
  by (subst read_loop.simps) simp

lemma reads_token:
  assumes "\<And>t. at_text t x \<Longrightarrow> \<exists>u. tokenizer_next t = Some (Token k, u) \<and> at_text u x' \<and>
      (\<forall>ts. read_token env (s\<lparr>tokenStack := t # ts\<rparr>) = Some (Inr (s'\<lparr>tokenStack := u # ts\<rparr>)))"
  shows "reads env x s x' s'"
  unfolding reads_def using assms read_loop_step by metis

lemma reads_word:
  assumes "name_ok w" and "c = CHR '' '' \<or> c = CHR '';''" and "\<not> unfinishedLine s"
  shows "reads env (w @ c # x) s (if c = CHR '' '' then x else c # x) (s\<lparr>rvalues := rvalues s @ [w]\<rparr>)"
proof (rule reads_token[where k = STRING])
  fix t assume "at_text t (w @ c # x)"
  from next_word[OF this assms(1,2)] obtain u where u: "tokenizer_next t = Some (Token STRING, u)" "buffer u = w"
    "at_text u (if c = CHR '' '' then x else c # x)" by blast
  then show "\<exists>u. tokenizer_next t = Some (Token STRING, u) \<and> at_text u (if c = CHR '' '' then x else c # x) \<and>
      (\<forall>ts. read_token env (s\<lparr>tokenStack := t # ts\<rparr>) = Some (Inr (s\<lparr>rvalues := rvalues s @ [w], tokenStack := u # ts\<rparr>)))"
    using assms(3) by (intro exI[of _ u]) (simp add: read_token_def read_string_def)
qed

lemma reads_special:
  assumes "special_token c = Some k"
    and "\<And>t ts u. tokenizer_next t = Some (Token k, u) \<Longrightarrow>
      read_token env (s\<lparr>tokenStack := t # ts\<rparr>) = Some (Inr (s'\<lparr>tokenStack := u # ts\<rparr>))"
  shows "reads env (c # x) s x s'"
proof (rule reads_token[where k = k])
  fix t assume "at_text t (c # x)"
  from next_special[OF this assms(1)] assms(2)
  show "\<exists>u. tokenizer_next t = Some (Token k, u) \<and> at_text u x \<and>
      (\<forall>ts. read_token env (s\<lparr>tokenStack := t # ts\<rparr>) = Some (Inr (s'\<lparr>tokenStack := u # ts\<rparr>)))" by blast
qed

lemma reads_comma: "reads env (CHR '','' # x) s x (s\<lparr>rvalues := rvalues s @ ['','']\<rparr>)"
  by (rule reads_special[where k = DELIMITER]) (simp_all add: special_token_def read_token_def)

text \<open>An equals sign disappears, also inside of a value.\<close>

lemma reads_assign: "reads env (CHR ''='' # x) s x s"
  by (rule reads_special[where k = ASSIGN]) (simp_all add: special_token_def read_token_def)

lemma reads_newline: "rvalues s = [] \<Longrightarrow> reads env (newline @ x) s x s"
  unfolding newline_def append_Cons append_Nil
  by (rule reads_special[where k = LINE_END]) (simp_all add: special_token_def read_token_def)

lemma reads_close:
  assumes "confStack s \<noteq> []" and "rprefix s \<noteq> []"
  shows "reads env (CHR 0x7D # x) s x (s\<lparr>rprefix := butlast (rprefix s), confStack := tl (confStack s)\<rparr>)"
  using assms by (intro reads_special[where k = OBJECT_CLOSE]) (simp_all add: special_token_def read_token_def close_object_def)

text \<open>The words of a value.\<close>

definition word_ok :: "string \<Rightarrow> bool" where
  "word_ok w \<longleftrightarrow> name_ok w \<or> w = '',''"

lemma reads_words:
  assumes "list_all word_ok ws" and "\<not> unfinishedLine s"
  shows "reads env (join_values ws @ CHR '';'' # x) s (CHR '';'' # x) (s\<lparr>rvalues := rvalues s @ ws\<rparr>)"
  using assms
proof (induction ws arbitrary: s)
  case Nil
  then show ?case by (simp add: join_values_def reads_refl)
next
  case (Cons w ws)
  let ?s = "s\<lparr>rvalues := rvalues s @ [w]\<rparr>"
  have one: "reads env (w @ c # y) s (if c = CHR '' '' then y' else c # y) ?s"
    if "c = CHR '' '' \<or> c = CHR '';''" "c = CHR '' '' \<longrightarrow> y' = y" and "c = CHR '' '' \<longrightarrow> y \<noteq> []" for c y y'
  proof (cases "name_ok w")
    case True
    then show ?thesis using reads_word[OF True that(1) Cons.prems(2), of env y] that(2) by auto
  next
    case False
    then have "w = '',''" using Cons.prems(1) by (simp add: word_ok_def)
    then have "reads env (w @ c # y) s (c # y) ?s" using reads_comma[of env "c # y" s] by simp
    then show ?thesis using that reads_blanks[of "'' ''" y env ?s] by (auto simp: isWhiteSpace_def intro: reads_trans)
  qed
  show ?case
  proof (cases ws)
    case Nil
    then show ?thesis using one[of "CHR '';''" x] by (simp add: join_values_def)
  next
    case (Cons v vs)
    have eq: "join_values (w # ws) @ CHR '';'' # x = w @ CHR '' '' # join_values ws @ CHR '';'' # x"
      using Cons by (simp add: join_values_def)
    have "reads env (join_values ws @ CHR '';'' # x) ?s (CHR '';'' # x) (?s\<lparr>rvalues := rvalues ?s @ ws\<rparr>)"
      using Cons.prems by (intro Cons.IH) simp_all
    then show ?thesis unfolding eq
      using one[of "CHR '' ''" "join_values ws @ CHR '';'' # x" "join_values ws @ CHR '';'' # x"] by (auto intro: reads_trans)
  qed
qed

fun words_of :: "string \<Rightarrow> string list" where
  "words_of [] = [[]]"
| "words_of (c # s) = (if c = CHR '' '' then [] # words_of s else (c # hd (words_of s)) # tl (words_of s))"

lemma join_words_of: "words_of s \<noteq> [] \<and> join_values (words_of s) = s"
proof (induction s)
  case (Cons c s)
  obtain w ws where w: "words_of s = w # ws" using Cons.IH by (cases "words_of s") auto
  then show ?case using Cons.IH by (auto simp: join_values_def)
qed (simp add: join_values_def)

definition printable :: "string \<Rightarrow> bool" where
  "printable s \<longleftrightarrow> s = [] \<or> list_all word_ok (words_of s)"

section \<open>Statements and objects\<close>

definition ready :: "reader \<Rightarrow> bool" where
  "ready s \<longleftrightarrow> rvalues s = [] \<and> correctlyLoaded s \<and> \<not> unfinishedLine s"

text \<open>The reader is at the same place again, with the given configuration.\<close>

definition back_at :: "reader \<Rightarrow> param \<Rightarrow> reader \<Rightarrow> bool" where
  "back_at s c s' \<longleftrightarrow> ready s' \<and> confStack s' = confStack s \<and> rprefix s' = rprefix s \<and> root s' = c"

lemma back_at_trans: "back_at s c u \<Longrightarrow> back_at u d v \<Longrightarrow> back_at s d v"
  by (simp add: back_at_def)

lemma blank_indentation [simp]: "list_all isWhiteSpace (indentation k)"
  by (simp add: indentation_def isWhiteSpace_def list_all_iff)

lemma indentation_Suc: "indentation (Suc k) = CHR '' '' # indentation k"
  by (simp add: indentation_def)

lemma reads_end:
  assumes "rvalues s = n # vs" and "v = join_values vs" and "correctlyLoaded s" and "confStack s = path # st"
    and "getParameter env n path (root s) = Some (Some path', c)" and "param_at path' c = Some (Value m md h0)"
    and "setValue env path' v c = Some (Some d)"
  shows "\<exists>s'. reads env (CHR '';'' # x) s x s' \<and> back_at s d s'"
proof -
  let ?s = "s\<lparr>unfinishedLine := False, root := d, redParameters := redParameters s @ [path'],
    defaulted := (if rlink s \<noteq> [] then (defaulted s)(path' \<mapsto> rlink s) else defaulted s), rlink := [], rvalues := []\<rparr>"
  have "join_values [[]] = []" by (simp add: join_values_def)
  moreover have "join_values [] = []" by (simp add: join_values_def)
  ultimately have "reads env (CHR '';'' # x) s x ?s"
    using assms
    by (intro reads_special[where k = EXPRESSION_END])
      (cases vs; simp add: special_token_def read_token_def end_expression_def Let_def rd_def)+
  then show ?thesis using assms(3) by (intro exI[of _ ?s]) (simp add: back_at_def ready_def)
qed

lemma reads_statement:
  assumes "ready s" and "name_ok n" and "printable v" and "confStack s = path # st"
    and "getParameter env n path (root s) = Some (Some path', c)" and "param_at path' c = Some (Value m md h0)"
    and "setValue env path' v c = Some (Some d)"
  shows "\<exists>s'. reads env (indentation i @ n @ indentation (Suc k) @ v @ '';'' @ newline @ x) s x s' \<and> back_at s d s'"
proof -
  let ?n = "s\<lparr>rvalues := [n]\<rparr>" and ?vs = "if v = [] then [] else words_of v"
  let ?v = "?n\<lparr>rvalues := n # ?vs\<rparr>"
  have n: "reads env (n @ CHR '' '' # y) s y ?n" for y
    using reads_word[OF assms(2), of "CHR '' ''" s env y] assms(1) by (simp add: ready_def)
  have "reads env (v @ CHR '';'' # newline @ x) ?n (CHR '';'' # newline @ x) ?v"
  proof (cases "v = []")
    case False
    then show ?thesis
      using reads_words[of "words_of v" ?n env "newline @ x"] assms(1,3) join_words_of[of v]
      by (simp add: ready_def printable_def)
  qed (simp add: reads_refl)
  then have v: "reads env (indentation k @ v @ CHR '';'' # newline @ x) ?n (CHR '';'' # newline @ x) ?v"
    using reads_blanks[of "indentation k" "v @ CHR '';'' # newline @ x" env ?n] by (auto intro: reads_trans)
  have "v = join_values ?vs" using join_words_of[of v] by (simp add: join_values_def)
  then obtain s' where s': "reads env (CHR '';'' # newline @ x) ?v (newline @ x) s'" "back_at ?v d s'"
    using reads_end[of ?v n ?vs v path st env path' c m md h0 d "newline @ x"] assms(1,4-7) by (auto simp: ready_def)
  then have "reads env (newline @ x) s' x s'" by (intro reads_newline) (simp add: back_at_def ready_def)
  moreover have "reads env (indentation i @ n @ indentation (Suc k) @ v @ '';'' @ newline @ x) s
      (n @ CHR '' '' # indentation k @ v @ CHR '';'' # newline @ x) s"
    using reads_blanks[of "indentation i" "n @ CHR '' '' # indentation k @ v @ CHR '';'' # newline @ x" env s]
    by (simp add: indentation_Suc)
  ultimately have "reads env (indentation i @ n @ indentation (Suc k) @ v @ '';'' @ newline @ x) s x s'"
    using n v s'(1) by (blast intro: reads_trans)
  then show ?thesis using s'(2) by (intro exI[of _ s']) (simp add: back_at_def)
qed

lemma reads_open:
  assumes "ready s" and "name_ok n" and "confStack s = path # st"
    and "getParameter env n path (root s) = Some (Some path', c)" and "param_at path' c = Some (Object m md qs k)"
  shows "\<exists>s'. reads env (indentation i @ n @ [CHR '' '', CHR 0x7B] @ newline @ x) s x s' \<and> ready s' \<and>
    confStack s' = path' # path # st \<and> rprefix s' = rprefix s @ [n] \<and> root s' = c"
proof -
  let ?n = "s\<lparr>rvalues := [n]\<rparr>"
  let ?o = "?n\<lparr>rprefix := rprefix s @ [n], root := c, redParameters := redParameters s @ [path'],
    confStack := path' # confStack s, rvalues := []\<rparr>"
  have "reads env (CHR 0x7B # newline @ x) ?n (newline @ x) ?o"
    using assms by (intro reads_special[where k = OBJECT_OPEN])
      (simp_all add: special_token_def read_token_def open_object_def rd_def)
  moreover have "reads env (n @ CHR '' '' # CHR 0x7B # newline @ x) s (CHR 0x7B # newline @ x) ?n"
    using reads_word[OF assms(2), of "CHR '' ''" s env "CHR 0x7B # newline @ x"] assms(1) by (simp add: ready_def)
  moreover have "reads env (indentation i @ n @ [CHR '' '', CHR 0x7B] @ newline @ x) s (n @ CHR '' '' # CHR 0x7B # newline @ x) s"
    using reads_blanks[of "indentation i" "n @ CHR '' '' # CHR 0x7B # newline @ x" env s] by simp
  moreover have "reads env (newline @ x) ?o x ?o" by (rule reads_newline) simp
  ultimately have "reads env (indentation i @ n @ [CHR '' '', CHR 0x7B] @ newline @ x) s x ?o" by (blast intro: reads_trans)
  then show ?thesis using assms(1,3) by (intro exI[of _ ?o]) (simp add: ready_def)
qed

lemma reads_closing:
  assumes "ready s" and "confStack s = p # st" and "rprefix s = pre @ [n]"
  shows "reads env (indentation i @ [CHR 0x7D] @ newline @ x) s x (s\<lparr>rprefix := pre, confStack := st\<rparr>)"
proof -
  let ?s = "s\<lparr>rprefix := pre, confStack := st\<rparr>"
  have "reads env (CHR 0x7D # newline @ x) s (newline @ x) ?s"
    using reads_close[of s env "newline @ x"] assms(2,3) by simp
  moreover have "reads env (newline @ x) ?s x ?s" using assms(1) by (intro reads_newline) (simp add: ready_def)
  moreover have "reads env (indentation i @ [CHR 0x7D] @ newline @ x) s (CHR 0x7D # newline @ x) s"
    using reads_blanks[of "indentation i" "CHR 0x7D # newline @ x" env s] by simp
  ultimately show ?thesis by (blast intro: reads_trans)
qed

section \<open>Configurations that can be stored\<close>

text \<open>Every parameter with a value is the first with its name.\<close>

definition unambiguous :: "param list \<Rightarrow> bool" where
  "unambiguous ps \<longleftrightarrow> list_all (\<lambda>k. isValue (ps ! k) \<or> isObject (ps ! k) \<longrightarrow> find_parameter (pname (ps ! k)) ps = Some k)
     [0..<length ps]"

text \<open>The entries of a map have keys, each another one; maps print the names as they are.\<close>

definition entries_ok :: "bool \<Rightarrow> (map_kind \<times> holder \<times> param) option \<Rightarrow> param list \<Rightarrow> bool" where
  "entries_ok hasDataType m ps \<longleftrightarrow> (case m of None \<Rightarrow> True
   | Some (kind, key, t) \<Rightarrow> hasDataType \<and> list_all (\<lambda>q. isValue q \<or> isObject q) ps \<and>
       list_all (\<lambda>q. key_of key (pname q) \<noteq> None) ps \<and> distinct (map (\<lambda>q. key_of key (pname q)) ps))"

function storable ::
  "ecf_env \<Rightarrow> bool \<Rightarrow> (map_kind \<times> holder \<times> param) option \<Rightarrow> param list \<Rightarrow> bool" where
  "storable env hasDataType m ps \<longleftrightarrow> unambiguous ps \<and> entries_ok hasDataType m ps \<and> list_all (\<lambda>q. case q of
     Value n md h \<Rightarrow> name_ok (printed_name hasDataType n) \<and> holder_ok (createEvaluator env) md h \<and>
       (case printed_holder md h of Some v \<Rightarrow> printable v | None \<Rightarrow> False)
   | Object n md qs k \<Rightarrow> name_ok (printed_name hasDataType n) \<and> storable env (dtypes md \<noteq> []) k qs
   | Separator n md \<Rightarrow> True) ps"
  by pat_completeness auto
termination by (relation "measure (\<lambda>(_, _, _, ps). size_list size ps)") (auto dest: child_size)

declare storable.simps [simp del]

text \<open>
  A configuration as it is declared, before reading \<open>q\<close>: the same parameters with any values, and
  empty maps, whose entries \<open>q\<close> has got from the declaration of the map.
\<close>

function declared :: "param \<Rightarrow> param \<Rightarrow> bool" where
  "declared p q = (case q of
     Value n md h \<Rightarrow> (case p of Value n' md' h0 \<Rightarrow> n' = n \<and> md' = md \<and> same_kind h0 h | _ \<Rightarrow> False)
   | Separator n md \<Rightarrow> p = q
   | Object n md ps m \<Rightarrow> (case p of
       Object n' md' ps0 m' \<Rightarrow> n' = n \<and> md' = md \<and> m' = m \<and> (case m of
           None \<Rightarrow> length ps0 = length ps \<and> list_all (\<lambda>(p, q). declared p q) (zip ps0 ps)
         | Some (kind, key, t) \<Rightarrow> ps0 = [] \<and> list_all (\<lambda>q. declared (map_entry kind (pname q) md t) q) ps)
     | _ \<Rightarrow> False))"
  by pat_completeness auto
termination
proof (relation "measure (\<lambda>(_, q). size q)", goal_cases)
  case (2 p q n md ps m n' md' ps0 m' pq p' q')
  then have "q' \<in> set ps" by (auto dest: set_zip_rightD)
  moreover have "snd pq = q'" using 2 by (metis snd_conv)
  ultimately show ?case using size_list_estimation'[of q' ps "size q'" size] 2 by (simp add: case_prod_beta)
next
  case (3 p q n md ps m n' md' ps0 m' a kind b key t z)
  then show ?case using size_list_estimation'[of z ps "size z" size] by simp
qed simp

declare declared.simps [simp del]

lemma declared_name: "declared p q \<Longrightarrow> pname p = pname q"
  by (subst (asm) declared.simps) (auto split: param.splits)

text \<open>What an object is declared with, parameter by parameter.\<close>

lemma declared_Object:
  assumes "declared (Object n md ps0 m) (Object n md ps m)"
  shows "m = None \<Longrightarrow> map pname ps0 = map pname ps"
    and "m = None \<Longrightarrow> k < length ps \<Longrightarrow> declared (ps0 ! k) (ps ! k)"
    and "m = Some (kind, key, t) \<Longrightarrow> ps0 = []"
    and "m = Some (kind, key, t) \<Longrightarrow> k < length ps \<Longrightarrow> declared (map_entry kind (pname (ps ! k)) md t) (ps ! k)"
proof -
  note d = assms[unfolded declared.simps[of _ "Object n md ps m"]]
  show nth: "m = None \<Longrightarrow> k < length ps \<Longrightarrow> declared (ps0 ! k) (ps ! k)" for k
    using d by (auto simp: list_all_length)
  show "m = None \<Longrightarrow> map pname ps0 = map pname ps"
    using d declared_name[OF nth] by (auto intro: nth_equalityI)
qed (use assms[unfolded declared.simps[of _ "Object n md ps m"]] in \<open>auto simp: list_all_length\<close>)

section \<open>One parameter\<close>

lemma find_parameter_names: "map pname ps = map pname qs \<Longrightarrow> find_parameter n ps = find_parameter n qs"
proof -
  have "find_parameter n ps = first_index (ci_eq n) (map pname ps)" for ps
  proof -
    have "takeWhile (\<lambda>x. \<not> ci_eq n x) (map pname ps) = map pname (takeWhile (\<lambda>p. \<not> ci_eq n (pname p)) ps)"
      by (induction ps) auto
    then show ?thesis by (simp add: find_parameter_def first_index_def)
  qed
  then show "map pname ps = map pname qs \<Longrightarrow> find_parameter n ps = find_parameter n qs" by simp
qed

lemma ci_eq_printed [simp]: "ci_eq (printed_name d n) n"
  by (simp add: printed_name_def)

lemma unambiguousD:
  "unambiguous ps \<Longrightarrow> k < length ps \<Longrightarrow> isValue (ps ! k) \<or> isObject (ps ! k) \<Longrightarrow> find_parameter (pname (ps ! k)) ps = Some k"
  by (auto simp: unambiguous_def list_all_iff)

text \<open>The \<open>k\<close>-th parameter is found, or added, behind the \<open>k\<close> parameters that were read.\<close>

lemma object_get_child:
  assumes "declared (Object n md ps0 m) (Object n md ps m)" and "unambiguous ps" and "entries_ok hdt m ps"
    and "k < length ps" and "isValue (ps ! k) \<or> isObject (ps ! k)"
  shows "\<exists>qs. object_get (printed_name hdt (pname (ps ! k))) (Object n md (take k ps @ drop k ps0) m) =
      Some (Some k, Object n md qs m) \<and> k < length qs \<and> declared (qs ! k) (ps ! k) \<and>
    qs[k := ps ! k] = take (Suc k) ps @ drop (Suc k) ps0"
proof (cases m)
  case None
  let ?qs = "take k ps @ drop k ps0"
  have names: "map pname ps0 = map pname ps" and len: "length ps0 = length ps"
    using declared_Object(1)[OF assms(1) None] map_eq_imp_length_eq by blast+
  have "map pname ?qs = take k (map pname ps) @ drop k (map pname ps)"
    by (simp only: map_append take_map[symmetric] drop_map[symmetric] names)
  then have "map pname ?qs = map pname ps" by simp
  then have "find_parameter (printed_name hdt (pname (ps ! k))) ?qs = find_parameter (printed_name hdt (pname (ps ! k))) ps"
    by (rule find_parameter_names)
  also have "\<dots> = find_parameter (pname (ps ! k)) ps" by (rule find_parameter_cong[symmetric]) simp
  also have "\<dots> = Some k" using unambiguousD[OF assms(2,4,5)] .
  finally have "object_get (printed_name hdt (pname (ps ! k))) (Object n md ?qs m) = Some (Some k, Object n md ?qs m)"
    by (rule object_get_found)
  moreover have "declared (?qs ! k) (ps ! k)"
    using declared_Object(2)[OF assms(1) None assms(4)] assms(4) len by (simp add: nth_append)
  moreover have "?qs[k := ps ! k] = take (Suc k) ps @ drop (Suc k) ps0"
    using assms(4) len by (simp add: list_update_append take_Suc_conv_app_nth Cons_nth_drop_Suc[symmetric])
  ultimately show ?thesis using assms(4) len by (intro exI[of _ ?qs]) simp
next
  case (Some e)
  then obtain kind key t where e: "m = Some (kind, key, t)" by (cases e) auto
  let ?n = "pname (ps ! k)" and ?e = "map_entry kind (pname (ps ! k)) md t"
  have ps0: "ps0 = []" using declared_Object(3)[OF assms(1) e] .
  have keys: "hdt" "key_of key ?n \<noteq> None" "distinct (map (\<lambda>q. key_of key (pname q)) ps)"
    using assms(3,4) by (auto simp: entries_ok_def e list_all_length)
  obtain kv where kv: "key_of key ?n = Some kv" using keys(2) by auto
  have "find_parameter ?n ps = Some k" using unambiguousD[OF assms(2,4,5)] .
  then have "find_parameter ?n (take k ps) = None"
    using assms(4) by (auto simp: find_parameter_Some find_parameter_None in_set_conv_nth)
  moreover have "\<not> list_ex (\<lambda>q. key_of key (pname q) = Some kv) (take k ps)"
    using keys(3) kv assms(4) by (auto simp: list_ex_iff in_set_conv_nth distinct_conv_nth) (metis less_irrefl less_trans)
  ultimately have "object_get ?n (Object n md (take k ps) m) = Some (Some k, Object n md (take k ps @ [?e]) m)"
    using assms(4) kv by (simp add: object_get_def e)
  moreover have "declared ?e (ps ! k)" using declared_Object(4)[OF assms(1) e assms(4)] .
  moreover have "(take k ps @ [?e])[k := ps ! k] = take (Suc k) ps"
    using assms(4) by (simp add: list_update_append take_Suc_conv_app_nth)
  ultimately show ?thesis using assms(4) keys(1) ps0
    by (intro exI[of _ "take k ps @ [?e]"]) (simp add: printed_name_def nth_append)
qed

definition quiet :: "ecf_env \<Rightarrow> bool" where
  "quiet env \<longleftrightarrow> (\<forall>e path v c. listeners env e path v c = c)"

lemma getParameter_child:
  assumes "quiet env" and "param_at path c = Some (Object n md qs m)"
    and "object_get name (Object n md qs m) = Some (Some k, Object n md qs' m)" and "k < length qs'"
  shows "getParameter env name path c = Some (Some (path @ [k]), update_at path (Object n md qs' m) c)"
    and "param_at (path @ [k]) (update_at path (Object n md qs' m) c) = Some (qs' ! k)"
    and "update_at (path @ [k]) q (update_at path (Object n md qs' m) c) = update_at path (Object n md (qs'[k := q]) m) c"
proof -
  show "getParameter env name path c = Some (Some (path @ [k]), update_at path (Object n md qs' m) c)"
    using assms by (simp add: getParameter_def quiet_def rd_def)
  have at: "param_at path (update_at path (Object n md qs' m) c) = Some (Object n md qs' m)"
    using param_at_update_same[OF assms(2)] .
  then show "param_at (path @ [k]) (update_at path (Object n md qs' m) c) = Some (qs' ! k)"
    using assms(4) by (simp add: param_at_append rd_def)
  show "update_at (path @ [k]) q (update_at path (Object n md qs' m) c) = update_at path (Object n md (qs'[k := q]) m) c"
    using update_at_append[OF at, of "[k]" q] assms(4) by simp
qed

section \<open>The parameters of an object, one after the other\<close>

text \<open>Reading \<open>text\<close> inside the declared object gives its first \<open>k\<close> parameters their values.\<close>

definition fills :: "ecf_env \<Rightarrow> string \<Rightarrow> string \<Rightarrow> metadata \<Rightarrow> param list \<Rightarrow>
    (map_kind \<times> holder \<times> param) option \<Rightarrow> nat \<Rightarrow> bool" where
  "fills env text n md ps m k \<longleftrightarrow> (\<forall>s p st ps0 x. ready s \<longrightarrow> confStack s = p # st \<longrightarrow>
     param_at p (root s) = Some (Object n md ps0 m) \<longrightarrow> declared (Object n md ps0 m) (Object n md ps m) \<longrightarrow>
     (\<exists>s'. reads env (text @ x) s x s' \<and>
       back_at s (update_at p (Object n md (take k ps @ drop k ps0) m) (root s)) s'))"

lemma fills_start: "fills env [] n md ps m 0"
  unfolding fills_def
proof (intro allI impI)
  fix s p st ps0 x
  assume "ready s" "param_at p (root s) = Some (Object n md ps0 m)"
  then show "\<exists>s'. reads env ([] @ x) s x s' \<and>
      back_at s (update_at p (Object n md (take 0 ps @ drop 0 ps0) m) (root s)) s'"
    by (intro exI[of _ s]) (simp add: reads_refl back_at_def update_at_param)
qed

text \<open>Extending the text by a piece that is read in every state where the object is current.\<close>

lemma fills_extend:
  assumes "fills env text n md ps m k"
    and "\<And>s p st qs ps0 x. ready s \<Longrightarrow> confStack s = p # st \<Longrightarrow>
      declared (Object n md ps0 m) (Object n md ps m) \<Longrightarrow>
      param_at p (root s) = Some (Object n md (take k ps @ drop k ps0) m) \<Longrightarrow>
      \<exists>s'. reads env (piece @ x) s x s' \<and> back_at s (update_at p (Object n md (take l ps @ drop l ps0) m) (root s)) s'"
  shows "fills env (text @ piece) n md ps m l"
  unfolding fills_def
proof (intro allI impI)
  fix s p st ps0 x
  assume a: "ready s" "confStack s = p # st" "param_at p (root s) = Some (Object n md ps0 m)"
    "declared (Object n md ps0 m) (Object n md ps m)"
  then obtain u where u: "reads env (text @ piece @ x) s (piece @ x) u"
    "back_at s (update_at p (Object n md (take k ps @ drop k ps0) m) (root s)) u"
    using assms(1) unfolding fills_def by metis
  have "param_at p (root u) = Some (Object n md (take k ps @ drop k ps0) m)"
    using u(2) param_at_update_same[OF a(3)] by (simp add: back_at_def)
  then obtain v where v: "reads env (piece @ x) u x v"
    "back_at u (update_at p (Object n md (take l ps @ drop l ps0) m) (root u)) v"
    using assms(2)[of u p st ps0] u(2) a(2,4) unfolding back_at_def by metis
  have "back_at s (update_at p (Object n md (take l ps @ drop l ps0) m) (root s)) v"
    using u(2) v(2) by (simp add: back_at_def)
  then show "\<exists>s'. reads env ((text @ piece) @ x) s x s' \<and>
      back_at s (update_at p (Object n md (take l ps @ drop l ps0) m) (root s)) s'"
    using reads_trans[OF u(1) v(1)] by (intro exI[of _ v]) simp
qed

lemma fills_newline: "fills env text n md ps m k \<Longrightarrow> fills env (text @ newline) n md ps m k"
proof (erule fills_extend)
  fix s p st ps0 x
  assume "ready s" "param_at p (root s) = Some (Object n md (take k ps @ drop k ps0) m)"
  then show "\<exists>s'. reads env (newline @ x) s x s' \<and>
      back_at s (update_at p (Object n md (take k ps @ drop k ps0) m) (root s)) s'"
    using reads_newline[of s env x] by (intro exI[of _ s]) (simp add: ready_def back_at_def update_at_param)
qed

lemma fills_newlines: "fills env text n md ps m k \<Longrightarrow> nl = [] \<or> nl = newline \<Longrightarrow> fills env (text @ nl) n md ps m k"
  using fills_newline by auto

lemma fills_separator:
  assumes "fills env text n md ps m k" and "k < length ps" and "ps ! k = Separator l md'" and "entries_ok hdt m ps"
  shows "fills env text n md ps m (Suc k)"
proof -
  have none: "m = None" using assms(2-4) by (auto simp: entries_ok_def list_all_length split: option.splits)
  have eq: "take k ps @ drop k ps0 = take (Suc k) ps @ drop (Suc k) ps0"
    if d: "declared (Object n md ps0 m) (Object n md ps m)" for ps0
  proof -
    have "length ps0 = length ps" using declared_Object(1)[OF d none] map_eq_imp_length_eq by blast
    moreover have "ps0 ! k = ps ! k"
      using declared_Object(2)[OF d none assms(2)] assms(3) by (simp add: declared.simps[of _ "Separator l md'"])
    ultimately show ?thesis using assms(2) by (simp add: take_Suc_conv_app_nth Cons_nth_drop_Suc[symmetric])
  qed
  show ?thesis using assms(1) eq unfolding fills_def by metis
qed

lemma fills_value:
  assumes "fills env text n md ps m k" and "quiet env" and "everything opt" and "storable env hdt m ps"
    and "k < length ps" and "ps ! k = Value l md' h"
    and "print_value_line opt indent hdt path mx l md' h = Some ln"
  shows "fills env (text @ ln) n md ps m (Suc k)"
  using assms(1)
proof (rule fills_extend)
  fix s p st ps0 x
  assume s: "ready s" "confStack s = p # st" and d: "declared (Object n md ps0 m) (Object n md ps m)"
    and at: "param_at p (root s) = Some (Object n md (take k ps @ drop k ps0) m)"
  note st = assms(4)[unfolded storable.simps[of env hdt m ps]]
  have ok: "name_ok (printed_name hdt l)" "holder_ok (createEvaluator env) md' h"
    "case printed_holder md' h of Some v \<Rightarrow> printable v | None \<Rightarrow> False"
    using st assms(5,6) by (auto simp: list_all_length)
  obtain qs where qs: "object_get (printed_name hdt l) (Object n md (take k ps @ drop k ps0) m) = Some (Some k, Object n md qs m)"
    "k < length qs" "declared (qs ! k) (Value l md' h)" "qs[k := Value l md' h] = take (Suc k) ps @ drop (Suc k) ps0"
    using object_get_child[OF d _ _ assms(5), of hdt] st assms(6) by auto
  obtain h0 where h0: "qs ! k = Value l md' h0" "same_kind h0 h"
    using qs(3) by (subst (asm) declared.simps) (auto split: param.splits)
  obtain v where v: "printed_holder md' h = Some v" "holder_set (createEvaluator env) md' h0 v = Some (Some h)"
    using holder_law[OF ok(2) h0(2)] by blast
  obtain w where "ln = indentation indent @ printed_name hdt l @ indentation (Suc w) @ v @ '';'' @ newline"
    using assms(7) v(1) stored_everything(2)[OF assms(3)]
    by (auto simp: print_value_line_def printed_holder_def bind_eq_Some_conv Let_def numeral_3_eq_3)
  moreover note get = getParameter_child[OF assms(2) at qs(1,2)]
  moreover have "setValue env (p @ [k]) v (update_at p (Object n md qs m) (root s)) =
      Some (Some (update_at p (Object n md (take (Suc k) ps @ drop (Suc k) ps0) m) (root s)))"
    using get(2) get(3)[of "Value l md' h"] v(2) h0(1) qs(4) assms(2) by (simp add: setValue_def quiet_def)
  moreover have "printable v" using ok(3) v(1) by simp
  ultimately show "\<exists>s'. reads env (ln @ x) s x s' \<and>
      back_at s (update_at p (Object n md (take (Suc k) ps @ drop (Suc k) ps0) m) (root s)) s'"
    using reads_statement[OF s(1) ok(1) _ s(2) get(1) get(2)[unfolded h0(1)]] by simp
qed

lemma declared_length: "declared (Object n md ps0 m) (Object n md ps m) \<Longrightarrow> length ps0 \<le> length ps"
  using declared_Object(1,3)[of n md ps0 m ps] map_eq_imp_length_eq[of pname ps0 pname ps] by (cases m) fastforce+

lemma fills_object:
  assumes "fills env text n md ps m k" and "quiet env" and "storable env hdt m ps"
    and "k < length ps" and "ps ! k = Object l md' qs km" and "fills env body l md' qs km (length qs)"
  shows "fills env (text @ indentation i @ printed_name hdt l @ [CHR '' '', CHR 0x7B] @ newline @ body @
    indentation i @ [CHR 0x7D] @ newline) n md ps m (Suc k)"
  using assms(1)
proof (rule fills_extend)
  fix s p st ps0 x
  assume s: "ready s" "confStack s = p # st" and d: "declared (Object n md ps0 m) (Object n md ps m)"
    and at: "param_at p (root s) = Some (Object n md (take k ps @ drop k ps0) m)"
  note sto = assms(3)[unfolded storable.simps[of env hdt m ps]]
  have name: "name_ok (printed_name hdt l)" using sto assms(4,5) by (auto simp: list_all_length)
  obtain rs where rs: "object_get (printed_name hdt l) (Object n md (take k ps @ drop k ps0) m) = Some (Some k, Object n md rs m)"
    "k < length rs" "declared (rs ! k) (Object l md' qs km)" "rs[k := Object l md' qs km] = take (Suc k) ps @ drop (Suc k) ps0"
    using object_get_child[OF d _ _ assms(4), of hdt] sto assms(5) by auto
  obtain qs0 where qs0: "rs ! k = Object l md' qs0 km"
    using rs(3) by (subst (asm) declared.simps) (auto split: param.splits)
  note get = getParameter_child[OF assms(2) at rs(1,2)]
  let ?y = "indentation i @ [CHR 0x7D] @ newline @ x"
  obtain u where u: "reads env (indentation i @ printed_name hdt l @ [CHR '' '', CHR 0x7B] @ newline @ body @ ?y) s (body @ ?y) u"
    "ready u" "confStack u = (p @ [k]) # p # st" "rprefix u = rprefix s @ [printed_name hdt l]"
    "root u = update_at p (Object n md rs m) (root s)"
    using reads_open[OF s(1) name s(2) get(1) get(2)[unfolded qs0], of i "body @ ?y"] by blast
  have "param_at (p @ [k]) (root u) = Some (Object l md' qs0 km)" using u(5) get(2) qs0 by simp
  then obtain v where v: "reads env (body @ ?y) u ?y v"
    "back_at u (update_at (p @ [k]) (Object l md' (take (length qs) qs @ drop (length qs) qs0) km) (root u)) v"
    using assms(6) u(2,3) rs(3) unfolding fills_def qs0 by metis
  have "drop (length qs) qs0 = []" using declared_length rs(3) unfolding qs0 by simp
  then have v': "ready v" "confStack v = (p @ [k]) # p # st" "rprefix v = rprefix s @ [printed_name hdt l]"
    "root v = update_at p (Object n md (take (Suc k) ps @ drop (Suc k) ps0) m) (root s)"
    using v(2) u(3-5) get(3)[of "Object l md' qs km"] rs(4) by (simp_all add: back_at_def)
  let ?z = "v\<lparr>rprefix := rprefix s, confStack := p # st\<rparr>"
  have "reads env ?y v x ?z" using reads_closing[OF v'(1-3)] by simp
  then have "reads env (indentation i @ printed_name hdt l @ [CHR '' '', CHR 0x7B] @ newline @ body @ ?y) s x ?z"
    using u(1) v(1) by (blast intro: reads_trans)
  then show "\<exists>s'. reads env ((indentation i @ printed_name hdt l @ [CHR '' '', CHR 0x7B] @ newline @ body @
      indentation i @ [CHR 0x7D] @ newline) @ x) s x s' \<and>
      back_at s (update_at p (Object n md (take (Suc k) ps @ drop (Suc k) ps0) m) (root s)) s'"
    using v'(1,4) s(2) by (intro exI[of _ ?z]) (simp add: back_at_def ready_def)
qed

section \<open>The loop of printECF\<close>

text \<open>As long as nothing is printed no empty line is; a file starts with a name.\<close>

definition starts_well :: "nat \<Rightarrow> param list \<Rightarrow> printing \<Rightarrow> bool" where
  "starts_well indent ps st \<longleftrightarrow>
     (if os st = [] then firstValue st \<and> firstParameter st \<and> \<not> spaceAfterObject st \<and> list_all (\<lambda>q. \<not> isValue q \<and> \<not> isObject q) ps
      else indent = 0 \<longrightarrow> plain (hd (os st)))"

lemma plain_hd: "name_ok n \<Longrightarrow> plain (hd (indentation 0 @ n @ r))"
  by (cases n) (simp_all add: name_ok_def indentation_def)

lemma starts_well_extend:
  assumes "starts_well indent ps st" and "os st' = os st @ nl @ piece" and "os st = [] \<longrightarrow> nl = []"
    and "piece \<noteq> []" and "indent = 0 \<longrightarrow> plain (hd piece)"
  shows "starts_well indent (ps @ [q]) st'"
  using assms by (auto simp: starts_well_def hd_append split: if_splits)

lemma os_out [simp]: "os (out x st) = os st @ x" "firstValue (out x st) = firstValue st"
    "firstParameter (out x st) = firstParameter st" "printSpace (out x st) = printSpace st"
  by (simp_all add: out_def)

lemma starts_well_before:
  assumes "starts_well indent ps st" and "os (before_parameter w q st) = os st @ nl" and "\<not> spaceAfterObject st \<longrightarrow> nl = []"
  shows "os st = [] \<longrightarrow> nl = [] \<and> firstValue st \<and> firstParameter st"
  using assms by (auto simp: starts_well_def)

lemma round_value:
  assumes "quiet env" and "everything opt" and "storable env hdt m ps" and "k < length ps" and "ps ! k = Value l md' h"
    and "fills env (os st) n md ps m k" and "starts_well indent (take k ps) st"
  shows "\<exists>st'. print_round opt indent hdt path mx (k, ps ! k) st = Some st' \<and> fills env (os st') n md ps m (Suc k) \<and>
    starts_well indent (take (Suc k) ps) st'"
proof -
  let ?b = "before_parameter True (ps ! k) st"
  obtain nl where nl: "os ?b = os st @ nl" "nl = [] \<or> nl = newline" "\<not> spaceAfterObject st \<longrightarrow> nl = []"
    by (rule before_parameter_os)
  note first = starts_well_before[OF assms(7) nl(1,3)]
  let ?nl2 = "if printSpace st \<and> \<not> firstValue st then newline else []"
  have ok: "name_ok (printed_name hdt l)" "case printed_holder md' h of Some v \<Rightarrow> printable v | None \<Rightarrow> False"
    using assms(3)[unfolded storable.simps[of env hdt m ps]] assms(4,5) by (auto simp: list_all_length)
  then have "printed_holder md' h \<noteq> None" by (cases "printed_holder md' h") simp_all
  then obtain w v where ln: "print_value_line opt indent hdt (path @ [k]) mx l md' h =
      Some (indentation indent @ printed_name hdt l @ indentation w @ v @ '';'' @ newline)" (is "_ = Some ?ln")
    using stored_everything(2)[OF assms(2)]
    by (auto simp: print_value_line_def printed_holder_def bind_eq_Some_conv Let_def)
  let ?c = "if printSpace ?b then (if \<not> firstValue ?b then out newline ?b else ?b)\<lparr>printSpace := False\<rparr> else ?b"
  let ?s = "(out ?ln ?c)\<lparr>firstValue := False, firstParameter := False\<rparr>"
  have os: "os ?s = (os st @ nl @ ?nl2) @ ?ln" using nl(1) by simp
  have "print_round opt indent hdt path mx (k, ps ! k) st = Some ?s"
    using assms(2,5) stored_everything(1)[OF assms(2)] ln by (simp add: print_round_def everything_def)
  moreover have "fills env (os ?s) n md ps m (Suc k)"
  proof -
    have "fills env (os st @ nl @ ?nl2) n md ps m k"
      using fills_newlines[OF fills_newlines[OF assms(6) nl(2)], of ?nl2] by simp
    then show ?thesis unfolding os by (rule fills_value[OF _ assms(1-5) ln])
  qed
  moreover have "starts_well indent (take k ps @ [ps ! k]) ?s"
  proof (rule starts_well_extend[OF assms(7)])
    show "os ?s = os st @ (nl @ ?nl2) @ ?ln" using os by simp
    show "indent = 0 \<longrightarrow> plain (hd ?ln)" using plain_hd[OF ok(1)] by auto
  qed (use first in \<open>auto simp: newline_def\<close>)
  ultimately show ?thesis unfolding take_Suc_conv_app_nth[OF assms(4)] by blast
qed

lemma round_object:
  assumes "quiet env" and "everything opt" and "storable env hdt m ps" and "k < length ps" and "ps ! k = Object l md' qs km"
    and "fills env (os st) n md ps m k" and "starts_well indent (take k ps) st"
    and "printECF opt (indent + 2) (dtypes md' \<noteq> []) (path @ [k]) qs = Some body" and "fills env body l md' qs km (length qs)"
  shows "\<exists>st'. print_round opt indent hdt path mx (k, ps ! k) st = Some st' \<and> fills env (os st') n md ps m (Suc k) \<and>
    starts_well indent (take (Suc k) ps) st'"
proof -
  let ?b = "before_parameter True (ps ! k) st"
  obtain nl where nl: "os ?b = os st @ nl" "nl = [] \<or> nl = newline" "\<not> spaceAfterObject st \<longrightarrow> nl = []"
    by (rule before_parameter_os)
  note first = starts_well_before[OF assms(7) nl(1,3)]
  let ?nl2 = "if \<not> firstParameter st then newline else []"
  let ?o = "indentation indent @ printed_name hdt l @ [CHR '' '', CHR 0x7B] @ newline @ body @ indentation indent @ [CHR 0x7D] @ newline"
  let ?c = "(if \<not> firstParameter ?b then out newline ?b else ?b)\<lparr>printSpace := False\<rparr>"
  let ?s = "(out ?o ?c)\<lparr>firstValue := False, firstParameter := False\<rparr>"
  have name: "name_ok (printed_name hdt l)"
    using assms(3)[unfolded storable.simps[of env hdt m ps]] assms(4,5) by (auto simp: list_all_length)
  have os: "os ?s = (os st @ nl @ ?nl2) @ ?o" using nl(1) by simp
  have "print_round opt indent hdt path mx (k, ps ! k) st = Some ?s"
    using assms(2,5,8) stored_everything(1)[OF assms(2)] by (simp add: print_round_def everything_def)
  moreover have "fills env (os ?s) n md ps m (Suc k)"
  proof -
    have "fills env (os st @ nl @ ?nl2) n md ps m k"
      using fills_newlines[OF fills_newlines[OF assms(6) nl(2)], of ?nl2] by simp
    then show ?thesis unfolding os by (rule fills_object[OF _ assms(1,3-5,9)])
  qed
  moreover have "starts_well indent (take k ps @ [ps ! k]) ?s"
  proof (rule starts_well_extend[OF assms(7)])
    show "os ?s = os st @ (nl @ ?nl2) @ ?o" using os by simp
    show "indent = 0 \<longrightarrow> plain (hd ?o)" using plain_hd[OF name] by auto
  qed (use first in \<open>auto simp: newline_def\<close>)
  ultimately show ?thesis unfolding take_Suc_conv_app_nth[OF assms(4)] by blast
qed

lemma round_separator:
  assumes "everything opt" and "storable env hdt m ps" and "k < length ps" and "ps ! k = Separator l md'"
    and "fills env (os st) n md ps m k" and "starts_well indent (take k ps) st"
  shows "\<exists>st'. print_round opt indent hdt path mx (k, ps ! k) st = Some st' \<and> fills env (os st') n md ps m (Suc k) \<and>
    starts_well indent (take (Suc k) ps) st'"
proof -
  let ?s = "(before_parameter True (ps ! k) st)\<lparr>printSpace := True\<rparr>"
  have os: "os ?s = os st" using assms(4) by (simp add: before_parameter_def Let_def)
  have "print_round opt indent hdt path mx (k, ps ! k) st = Some ?s"
    using assms(1,4) stored_everything(1)[OF assms(1)] by (simp add: print_round_def everything_def)
  moreover have "starts_well indent (take (Suc k) ps) ?s"
    using assms(3,4,6) os by (auto simp: starts_well_def take_Suc_conv_app_nth)
  moreover have "fills env (os st) n md ps m (Suc k)"
    using fills_separator[OF assms(5,3,4)] assms(2)[unfolded storable.simps[of env hdt m ps]] by blast
  ultimately show ?thesis using os by auto
qed

lemma child_size_nth: "k < length ps \<Longrightarrow> ps ! k = Object l md qs m \<Longrightarrow> size_list size qs < size_list size ps"
  using child_size[of l md qs m ps] nth_mem[of k ps] by simp

lemma storable_child:
  "storable env hdt m ps \<Longrightarrow> k < length ps \<Longrightarrow> ps ! k = Object l md qs km \<Longrightarrow> storable env (dtypes md \<noteq> []) km qs"
  by (subst (asm) storable.simps) (auto simp: list_all_length)

lemma storable_values:
  assumes "storable env hdt m ps" and "Value l md h \<in> set ps"
  shows "holder_get md h \<noteq> None"
proof -
  have "case printed_holder md h of Some v \<Rightarrow> printable v | None \<Rightarrow> False"
    using assms by (subst (asm) storable.simps) (auto simp: list_all_iff)
  then show ?thesis by (cases "holder_get md h") (simp_all add: printed_holder_def)
qed

lemma printECF_fills:
  assumes "quiet env" and "everything opt" and "storable env hdt m ps"
  shows "\<exists>body. printECF opt indent hdt path ps = Some body \<and> fills env body n md ps m (length ps) \<and>
    (indent = 0 \<and> list_ex (\<lambda>q. isValue q \<or> isObject q) ps \<longrightarrow> body \<noteq> [] \<and> plain (hd body))"
  using assms(3)
proof (induction "size_list size ps" arbitrary: ps m hdt indent path n md rule: less_induct)
  case less
  obtain mx where mx: "max_size opt path ps = Some mx"
    using max_size_Some[OF assms(2)] storable_values[OF less.prems] by blast
  let ?I = "\<lambda>d st. fills env (os st) n md ps m (length d) \<and> starts_well indent (take (length d) ps) st"
  have "\<exists>st. for_each (enumerate 0 ps) (print_round opt indent hdt path mx) print_start = Some st \<and> ?I (enumerate 0 ps) st"
  proof (rule for_each_list[where I = ?I])
    show "?I [] print_start" by (simp add: print_start_def fills_start starts_well_def)
  next
    fix d iq rest st
    assume split: "enumerate 0 ps = d @ iq # rest" and I: "?I d st"
    let ?k = "length d"
    have len: "?k < length ps" using arg_cong[OF split, of length] by simp
    have iq: "iq = (?k, ps ! ?k)"
      using nth_enumerate_eq[of ?k ps 0] len by (simp add: split)
    have "\<exists>st'. print_round opt indent hdt path mx (?k, ps ! ?k) st = Some st' \<and> fills env (os st') n md ps m (Suc ?k) \<and>
        starts_well indent (take (Suc ?k) ps) st'"
    proof (cases "ps ! ?k")
      case (Value l md' h)
      then show ?thesis using round_value[OF assms(1,2) less.prems len] I by blast
    next
      case (Separator l md')
      then show ?thesis using round_separator[OF assms(2) less.prems len] I by blast
    next
      case (Object l md' qs km)
      obtain body where "printECF opt (indent + 2) (dtypes md' \<noteq> []) (path @ [?k]) qs = Some body"
        "fills env body l md' qs km (length qs)"
        using less.hyps[OF child_size_nth[OF len Object] storable_child[OF less.prems len Object]] by blast
      then show ?thesis using round_object[OF assms(1,2) less.prems len Object] I by blast
    qed
    then show "\<exists>u. print_round opt indent hdt path mx iq st = Some u \<and> ?I (d @ [iq]) u"
      unfolding iq by simp
  qed
  then obtain st where st: "for_each (enumerate 0 ps) (print_round opt indent hdt path mx) print_start = Some st"
    "fills env (os st) n md ps m (length ps)" "starts_well indent ps st" by auto
  have "list_ex (\<lambda>q. isValue q \<or> isObject q) ps \<Longrightarrow> os st \<noteq> []"
    using st(3) by (auto simp: starts_well_def list_ex_iff list_all_iff)
  then show ?case using mx st by (auto simp: printECF_rounds starts_well_def)
qed

section \<open>The comment at the beginning, and the end of the file\<close>

lemma next_after_comment:
  assumes "at_text t (header_line @ c # x)" and "plain c" and "c \<noteq> CHR 0x0D"
  shows "\<exists>u. tokenizer_next t = tokenizer_next u \<and> at_text u (c # x)"
proof -
  let ?w = "'' ESPRESO Configuration File''"
  have c: "\<not> isWhiteSpace c" "c \<noteq> CHR 0x0A" using assms(2) by (auto simp: plain_def char_class_simps)
  have h: "header_line @ c # x = CHR ''#'' # ?w @ CHR 0x0A # newline @ c # x" by (simp add: header_line_def newline_def)
  obtain v where v: "rest_of v = CHR ''#'' # ?w @ CHR 0x0A # newline @ c # x" "buffer v = []"
      "fpos (cfile v) \<le> length (contents (cfile v))"
      "tokenizer_next t = do { (r, u) \<leftarrow> next_loop v; Some (r, case r of Token k \<Rightarrow> u\<lparr>tok := k\<rparr> | GlobalError _ \<Rightarrow> u) }"
    by (rule tokenizer_next_nonblank[OF assms(1)[unfolded h]]) (simp add: isWhiteSpace_def)
  have "after_line (rest_of v) = Some (c # x)"
    using v(1) c(2) assms(3) by (simp add: line_break_def newline_def)
  then obtain z where line: "skipLine v = Some z" and z: "rest_of z = c # x" "buffer z = []"
    using after_line_rest[of v "c # x"] v(2) by auto
  have skip: "skipWhiteSpaces z = Some z" using z(1) c(1) by (subst skipWhiteSpaces.simps) (simp add: token_simps)
  have "next_loop v = next_loop z" using v(1) line skip z(2)
    by (subst next_loop.simps) (simp add: token_simps isSingleCommentChar_def)
  moreover have "\<not> file_eof (cfile z)" using token_simps(2)[OF z(1)] .
  moreover have "z\<lparr>buffer := []\<rparr> = z" using z(2) by simp
  ultimately have "tokenizer_next t = tokenizer_next z" using v(4) skip by (simp add: tokenizer_next_def next_token_def)
  moreover have "fpos (cfile z) \<le> length (contents (cfile z))"
    using skipLine_moved(1)[OF line] v(3) by (auto simp: moved_def)
  ultimately show ?thesis using z(1) by (intro exI[of _ z]) (auto simp: at_text_def intro!: exI[of _ "[]"])
qed

lemma reads_header:
  assumes "plain c" and "c \<noteq> CHR 0x0D"
  shows "reads env (header_line @ c # x) s (c # x) s"
  unfolding reads_def
proof (intro allI impI)
  fix t ts assume "at_text t (header_line @ c # x)"
  from next_after_comment[OF this assms] obtain u where u: "tokenizer_next t = tokenizer_next u" "at_text u (c # x)" by blast
  have "read_token env (s\<lparr>tokenStack := t # ts\<rparr>) = read_token env (s\<lparr>tokenStack := u # ts\<rparr>)"
    using u(1) by (simp add: read_token_def)
  then have "read_loop env (s\<lparr>tokenStack := t # ts\<rparr>) = read_loop env (s\<lparr>tokenStack := u # ts\<rparr>)"
    by (subst (1 2) read_loop.simps) simp
  then show "\<exists>t'. at_text t' (c # x) \<and> read_loop env (s\<lparr>tokenStack := t # ts\<rparr>) = read_loop env (s\<lparr>tokenStack := t' # ts\<rparr>)"
    using u(2) by blast
qed

lemma read_loop_end:
  assumes "at_text t []" shows "read_loop env (s\<lparr>tokenStack := [t]\<rparr>) = Some (Inr (s\<lparr>tokenStack := []\<rparr>))"
proof -
  have "file_eof (cfile t)" using assms by (auto simp: at_text_def rest_of_def file_eof_def)
  then have "tokenizer_next t = Some (Token END, t\<lparr>tok := END\<rparr>)" by (simp add: tokenizer_next_def next_token_def)
  then have "read_token env (s\<lparr>tokenStack := [t]\<rparr>) = Some (Inr (s\<lparr>tokenStack := []\<rparr>))" by (simp add: read_token_def)
  from read_loop_step[OF this] show ?thesis by (simp add: read_loop.simps[of env "s\<lparr>tokenStack := []\<rparr>"])
qed

section \<open>The round trip\<close>

text \<open>
  C18: A stored configuration is read back.  Storing a configuration gives a text; reading a file with
  this text into the configuration as it is declared, whatever values it has and with empty maps,
  ends without an error, with all objects closed, and with exactly the stored configuration: every
  value, and every entry of every map with its name, its order and its parameters.  Stored
  configurations have at least one parameter, distinct names that the tokenizer reads as one
  word, and values that are read back word by word; listeners must not change the configuration.
\<close>

theorem store_read_roundtrip:
  assumes "quiet env" and "everything opt" and "storable env False m ps" and "list_ex (\<lambda>q. isValue q \<or> isObject q) ps"
    and "declared (Object n md ps0 m) (Object n md ps m)" and "env_files env file = store_config opt (Object n md ps m)"
  shows "\<exists>r. read_config env (Object n md ps0 m) file = Some (Inr r) \<and> hadValidECF r \<and> red_root r = Object n md ps m"
proof -
  obtain body where body: "printECF opt 0 False [] ps = Some body" "fills env body n md ps m (length ps)"
      "body \<noteq> []" "plain (hd body)"
    using printECF_fills[OF assms(1-3), of 0 "[]"] assms(4) by blast
  then obtain c x where c: "body = c # x" "plain c" by (cases body) auto
  have ff: "env_files env file = Some (header_line @ c # x)" using assms(6) body(1) c(1) by (simp add: store_config_def)
  let ?s = "reader_new (Object n md ps0 m) (header_line @ c # x)"
  let ?t = "tokenizer_new (header_line @ c # x)"
  have "c \<noteq> CHR 0x0D" using c(2) by (auto simp: plain_def char_class_simps)
  then have header: "reads env (header_line @ c # x) ?s (c # x) ?s" using c(2) by (intro reads_header)
  have "ready ?s \<and> confStack ?s = [] # [] \<and> param_at [] (root ?s) = Some (Object n md ps0 m)"
    by (simp add: reader_new_def ready_def)
  then obtain s where s: "reads env (body @ []) ?s [] s"
    "back_at ?s (update_at [] (Object n md (take (length ps) ps @ drop (length ps) ps0) m) (root ?s)) s"
    using body(2) assms(5) unfolding fills_def by metis
  have "at_text ?t (header_line @ c # x)" by (auto simp: at_text_def tokenizer_new_def rest_of_def)
  then obtain t where t: "at_text t []"
    "read_loop env (?s\<lparr>tokenStack := [?t]\<rparr>) = read_loop env (s\<lparr>tokenStack := [t]\<rparr>)"
    using reads_trans[OF header s(1)[unfolded append_Nil2 c(1)]] unfolding reads_def by metis
  moreover have "?s\<lparr>tokenStack := [?t]\<rparr> = ?s" by (simp add: reader_new_def)
  ultimately have loop: "read_loop env ?s = Some (Inr (s\<lparr>tokenStack := []\<rparr>))" using read_loop_end[OF t(1)] by simp
  have "confStack s = [[]]" "correctlyLoaded s" "root s = Object n md ps m"
    using s(2) declared_length[OF assms(5)] by (simp_all add: back_at_def ready_def reader_new_def)
  then show ?thesis using ff loop by (simp add: read_config_def)
qed

text \<open>A configuration with a switch, a map of sizes and an object with flags.\<close>

definition example_md :: "string \<Rightarrow> ECFDataType list \<Rightarrow> string list \<Rightarrow> metadata" where
  "example_md n ds opts = \<lparr>mname = n, description = [], dtypes = ds, pattern = [], options = opts\<rparr>"

definition example_config :: "bool \<Rightarrow> (string \<times> 64 word) list \<Rightarrow> 32 word \<Rightarrow> param list" where
  "example_config b sizes flags =
    [Value ''debug'' (example_md ''Debug'' [BOOL] []) (BoolHolder b),
     Separator ''SPACE'' (example_md ''SPACE'' [SPACE] []),
     Object ''sizes'' (example_md ''Sizes'' [STRING_TYPE, POSITIVE_INTEGER] [])
       (map (\<lambda>(k, v). Value k (example_md ''Sizes'' [POSITIVE_INTEGER] []) (SizeHolder v)) sizes)
       (Some (ECFValueMap, StringHolder [], Value [] empty_metadata (SizeHolder 0))),
     Object ''material'' (example_md ''Material'' [] [])
       [Value ''model'' (example_md ''Model'' [ENUM_FLAGS] [''Thermal'', ''Elastic'']) (EnumHolder flags)] None]"

definition example_env :: "string \<Rightarrow> ecf_env" where
  "example_env text = \<lparr>env_files = (\<lambda>f. if f = ''a.ecf'' then Some text else None), env_args = [],
     defaultArgs = (\<lambda>_ _. None), ecf_variables = (\<lambda>_. []), createEvaluator = (\<lambda>_ _. True), listeners = (\<lambda>_ _ _ c. c)\<rparr>"

definition example_store :: store_options where
  "example_store = \<lparr>onlyAllowed = False, allowed = (\<lambda>_. True), red = [], links = Map.empty\<rparr>"

lemma example_ok:
  "storable (example_env t) False None (example_config True [(''left'', 3), (''Right'', 12)] 3)"
  "declared (Object ''root'' empty_metadata (example_config False [] 1) None)
    (Object ''root'' empty_metadata (example_config True [(''left'', 3), (''Right'', 12)] 3) None)"
  by code_simp+

lemma example_text:
  "store_config example_store (Object ''root'' empty_metadata (example_config True [(''left'', 3), (''Right'', 12)] 3) None) =
    Some (concat (map (\<lambda>l. l @ newline) [''# ESPRESO Configuration File'', [], ''DEBUG   TRUE;'', [],
      ''SIZES '' @ [CHR 0x7B], ''  left     3;'', ''  Right   12;'', [CHR 0x7D], [],
      ''MATERIAL '' @ [CHR 0x7B], ''  MODEL   THERMAL | ELASTIC;'', [CHR 0x7D]]))"
  by code_simp

theorem store_read_roundtrip_witness:
  "\<exists>text r. store_config example_store (Object ''root'' empty_metadata (example_config True [(''left'', 3), (''Right'', 12)] 3) None) = Some text \<and>
    read_config (example_env text) (Object ''root'' empty_metadata (example_config False [] 1) None) ''a.ecf'' = Some (Inr r) \<and>
    red_root r = Object ''root'' empty_metadata (example_config True [(''left'', 3), (''Right'', 12)] 3) None"
proof -
  let ?c = "example_config True [(''left'', 3), (''Right'', 12)] 3"
  obtain tx where tx: "store_config example_store (Object ''root'' empty_metadata ?c None) = Some tx"
    using example_text by blast
  have "list_ex (\<lambda>q. isValue q \<or> isObject q) ?c" by (simp add: example_config_def)
  moreover have "quiet (example_env tx)" "everything example_store"
    by (simp_all add: quiet_def example_env_def everything_def example_store_def)
  moreover have "env_files (example_env tx) ''a.ecf'' = store_config example_store (Object ''root'' empty_metadata ?c None)"
    using tx by (simp add: example_env_def)
  ultimately have "\<exists>r. read_config (example_env tx) (Object ''root'' empty_metadata (example_config False [] 1) None) ''a.ecf'' = Some (Inr r) \<and>
      hadValidECF r \<and> red_root r = Object ''root'' empty_metadata ?c None"
    by (intro store_read_roundtrip) (simp_all add: example_ok)
  then show ?thesis using tx by blast
qed

end
