(* ===== verification/Spec2Isabelle.thy ===== *)
theory Spec2Isabelle
  imports Tarray Esutils Merging Hilbert HilbertWord Balance Packing SerializedData MetisPQueue
    CooSort SparseEdit SparseOps SparseConvert Communication Exchange Collective Routing
    Tokenizer StringParser Evaluator BasisMatrix SpaceFilling SfcNeighbors SfcTree
    Clusterize ClusterLevels ClusterCorrect
    ConfigValues ConfigTree ConfigReader ConfigInvariant ConfigStore ConfigRoundtrip
begin

text \<open>
  Verification library of ESPRESO, a parallel finite element library with FETI solvers.

  \<^bold>\<open>The program.\<close>  A run reads a configuration (\<^verbatim>\<open>src/src/config\<close>), loads or generates a mesh and
  distributes it over MPI processes and threads along a space-filling curve
  (\<^verbatim>\<open>src/src/input\<close>, \<^verbatim>\<open>src/src/mesh\<close>), assembles sparse matrices (\<^verbatim>\<open>src/src/assembler\<close>) and solves
  them (\<^verbatim>\<open>src/src/solver\<close>).  All parts rest on the containers and utilities of \<^verbatim>\<open>src/src/basis\<close>.
  Mesh data live in \<^verbatim>\<open>serializededata\<close>, pairs of threaded arrays, which are permuted, balanced,
  packed into buffers and sent with the operations of \<^verbatim>\<open>Communication\<close>; the assembler writes its
  entries to the matrices of \<^verbatim>\<open>basis/matrices\<close>, from which the solver's \<^verbatim>\<open>SparseMatrix\<close> is made;
  mesh partitioning is left to the bundled METIS, whose refinement runs on a priority queue.
  This library models these foundations, where every other part of the program would break if
  they did.

  \<^bold>\<open>Conventions.\<close>  A vector is a list.  A read or write outside of a vector, which C++ leaves
  undefined, is \<open>None\<close> (\<open>rd\<close> and \<open>wr\<close> of theory Prelude, \<open>rdi\<close> and \<open>wri\<close> of SparseMatrix for signed
  indices), so a theorem that a routine returns \<open>Some\<close> shows that all its accesses are in bounds.
  A loop with a counter is \<open>for_each\<close> over its range; loops that thread the positions of several
  vectors, and loops that may not end, are recursive functions with a termination proof by a
  measure, or \<open>partial_function (option)\<close> (\<open>movebefore\<close> of Routing, \<open>iterate_loop\<close> of
  SpaceFilling, \<open>read_loop\<close> of ConfigReader) where not ending is \<open>None\<close>.
  There is no fuel anywhere.  A parallel loop over threads runs in any order; where the
  order could matter, the theorem quantifies over it (theory Tarray).  Indices that stay below the
  size of a vector are \<open>nat\<close> or \<open>int\<close>; the Hilbert curve computes on 64-bit words and is modelled on
  them; the limit of \<open>2 ^ 30\<close> that guards the message sizes is modelled where the code tests it.
  Values of matrices are elements of the algebraic class that the operation needs (a commutative
  monoid, a linearly ordered field), in place of \<^verbatim>\<open>double\<close>: rounding is not modelled, and the
  theorems about positions, sizes and orders do not depend on it.

  \<^bold>\<open>Containers and utilities\<close> (\<^verbatim>\<open>src/src/basis\<close>).
  Tarray: \<^verbatim>\<open>tarray.hpp\<close>, cutting a size into thread blocks and the constructors and assignments of
  the threaded array; they store exactly the given data, for every order of the threads.
  Esutils: \<^verbatim>\<open>utils.hpp\<close>, offsets, permutations, duplicates.
  Merging: \<^verbatim>\<open>utils.hpp\<close>, the merge sort over thread blocks and its variants; every
  \<^verbatim>\<open>std::inplace_merge\<close> is called on sorted neighbouring ranges and the result is the sorted input.
  Packing: \<^verbatim>\<open>utils.hpp\<close>, packing into byte buffers, with a round trip and the exact size.
  Balance: the two \<^verbatim>\<open>balance\<close> routines of \<^verbatim>\<open>serializededata.h\<close>; the one with boundaries refines the
  one without.
  SerializedData: \<^verbatim>\<open>serializededata.h\<close>, iterators, permutation, assignment and packing.
  StringParser: \<^verbatim>\<open>parser.h\<close> and \<^verbatim>\<open>parser.cpp\<close>; comparison agrees with the lexicographic order of
  lower-case strings, splitting and stripping invert joining.
  Evaluator: \<^verbatim>\<open>tableevaluator.cpp\<close>, \<^verbatim>\<open>tableinterpolationevaluator.cpp\<close>.
  BasisMatrix: the matrices of \<^verbatim>\<open>basis/matrices\<close> and their conversion into the solver's object;
  all of them hold the sums of the assembled entries.

  \<^bold>\<open>Communication\<close> (\<^verbatim>\<open>communication.hpp\<close>).  A definition is what one process computes and sends, with
  the messages that MPI delivers as a parameter; the theorems put the group together.
  Communication: \<^verbatim>\<open>balance\<close>; what a process sends to another is what that one receives.
  Exchange: the exchanges with neighbours and arbitrary targets.  The probing loops are step
  relations (\<open>probe_step\<close>, \<open>collect_step\<close>) that take any pending message; the invariants are
  proved by rule induction, and it is shown that a step is possible until all is received.
  Collective: gathering, broadcasting, all-to-all, prefix sums.
  Routing: \<^verbatim>\<open>allToAllWithDataSizeAndTarget\<close>, recursive halving of the group; \<open>route_run\<close> lets all
  processes run level by level, and every receive waits for a message that was sent.

  \<^bold>\<open>Mesh distribution.\<close>  Hilbert and HilbertWord: \<^verbatim>\<open>input/sfc/hilbertcurve.cpp\<close>.  The first theory has
  the code on words and a recursive definition of the curve; the second shows that the loops
  compute it, that encoding and decoding are inverse and that neighbouring indices are
  neighbouring cells.
  SpaceFilling: \<^verbatim>\<open>input/sfc/spacefillingcurve.cpp\<close>, the refined curve as a tree of buckets; the walk
  over a range calls back with the leaves that tile it.  SfcNeighbors: the same tree on the grid and
  the search for neighbours, in a locale over halved grids (\<open>halved_grid\<close>) that is interpreted in the
  plane and in space.  SfcTree: curve and grid are the same tree, so the neighbours found are the
  leaves of the curve that touch the bucket.
  Clusterize, ClusterLevels, ClusterCorrect: \<^verbatim>\<open>RandomInput::clusterize\<close>, the choice of the borders
  between the processes from histograms of the elements along the curve.  The first theory has the
  code and shows that the histograms count the elements before a position, the second what one
  level does to borders and buckets, the third the invariant of the levels (\<open>cluster_inv\<close>) and the
  result: the refined curve is a tree as SpaceFilling needs it, and the borders are its borders.
  MetisPQueue: the addressable heap of \<^verbatim>\<open>gk_mkpqueue.h\<close>, in a locale over the order of the
  keys, interpreted for integer keys with the order of the code.

  \<^bold>\<open>Solver matrices\<close> (\<^verbatim>\<open>solver/generic/SparseMatrix.cpp\<close>).  SparseMatrix: the object, its copies, and
  well-formed compressed rows (\<open>csr_rep\<close>).  CooSort: the in-place quicksort of triples.  SparseEdit:
  removing the lower part, appending, selecting rows and blocks.  SparseOps: diagonals, scaling,
  comparison.  SparseConvert: conversions, transposition and identities; the MKL routines are the
  parameters of the locale \<open>mkl\<close>, whose assumptions are their documented results, and the
  interpretation \<open>ref\<close> shows that they can be met.

  \<^bold>\<open>Configuration\<close> (\<^verbatim>\<open>config\<close>).  Tokenizer: comments, links, strings and punctuation; on a
  file in which everything is closed every call returns and moves forward, and printed tokens are
  read back.
  ConfigValues: \<^verbatim>\<open>valueholder.h\<close>, values as texts; the locale \<open>value_holder\<close> is what storing and reading
  needs of a holder, interpreted for switches, sizes and integers.
  ConfigTree: \<^verbatim>\<open>configuration.cpp\<close>, \<^verbatim>\<open>objectholder.h\<close>, the tree of parameters, where a pointer is a path, and
  maps that add an entry when a new key is looked up.
  ConfigReader: \<^verbatim>\<open>ECFReader::_read\<close>, one definition per token, composed to the loop \<open>read_loop\<close>, which is a
  partial function because a file may include itself; files, arguments, the expression library and the
  listeners of parameters are a record of parameters (\<open>ecf_env\<close>).  ConfigInvariant: the step relation of
  the reader and its invariant; no pointer that the reader keeps ever dangles.
  ConfigStore: \<^verbatim>\<open>printECF\<close> and \<^verbatim>\<open>ECFReader::store\<close>.  ConfigRoundtrip: the composition of all of them; the stored
  text is tokenized, read and set to the stored configuration again.

  \<^bold>\<open>Not modelled.\<close>  The floating-point algorithms (kernels of the solver, element matrices, time
  stepping, projectors) have no exact specification in the code.  Calls into MKL, BLAS, LAPACK,
  CUDA, MPI-IO, ParMETIS and the direct solvers are not in the repository or third-party code.
  Mesh preprocessing, loaders and generators build on the modelled containers and are left for
  extensions, as are output, logging, the graphical interface and the build system, which mostly
  format and transfer data.  Of the configuration the declarations of the parameters, the options of the
  command line, floating-point values, the patterns of maps and parameters that two objects share are
  not modelled.
\<close>

end
